(* ===== verification/OR_Prelude.thy ===== *)
theory OR_Prelude
  imports Complex_Main "HOL-Library.AList" "HOL-Library.Multiset" "HOL-Library.Char_ord"
    "HOL-Library.List_Lexorder" "HOL-Library.Product_Lexorder" "HOL-Library.Sublist"
begin

text \<open>
  Shared vocabulary of the development: Python floats, JSON values and dictionaries as the code
  uses them, the text form of integers, seeded random choices as explicit state, and the generic
  facts on lists, sorting and association lists that the component theories rest on.
\<close>

named_theorems dict_simps \<open>lookups in Python dictionaries after the operations of the code\<close>
named_theorems market_simps \<open>how the market operations move each field of the market\<close>
named_theorems queue_simps \<open>how the gate-queue operations move each field of the controller\<close>

section \<open>Floats\<close>

text \<open>
  A Python float is a finite number, an infinity or a NaN. Finite arithmetic is exact here: the
  rounding of IEEE doubles is not modelled, the non-finite values and their comparison rules are.
\<close>

datatype pyfloat = NInf | Fin real | PInf | NaN

fun py_lt :: "pyfloat \<Rightarrow> pyfloat \<Rightarrow> bool" where
  "py_lt NaN _ = False"
| "py_lt _ NaN = False"
| "py_lt (Fin a) (Fin b) = (a < b)"
| "py_lt NInf b = (b \<noteq> NInf)"
| "py_lt _ NInf = False"
| "py_lt PInf _ = False"
| "py_lt _ PInf = True"

definition py_le :: "pyfloat \<Rightarrow> pyfloat \<Rightarrow> bool" where
  "py_le a b \<longleftrightarrow> py_lt a b \<or> (a = b \<and> a \<noteq> NaN)"

fun py_sub :: "pyfloat \<Rightarrow> pyfloat \<Rightarrow> pyfloat" where
  "py_sub NaN _ = NaN"
| "py_sub _ NaN = NaN"
| "py_sub (Fin a) (Fin b) = Fin (a - b)"
| "py_sub PInf PInf = NaN"
| "py_sub NInf NInf = NaN"
| "py_sub PInf _ = PInf"
| "py_sub NInf _ = NInf"
| "py_sub _ PInf = NInf"
| "py_sub _ NInf = PInf"

fun is_fin :: "pyfloat \<Rightarrow> bool" where
  "is_fin (Fin _) = True"
| "is_fin _ = False"

fun fin_val :: "pyfloat \<Rightarrow> real" where
  "fin_val (Fin a) = a"
| "fin_val _ = 0"

text \<open>
  Sorting compares floats. The linear order below agrees with Python's comparison whenever no NaN
  takes part (\<open>py_lt_less\<close>); a NaN is placed last so that the type is a linear order.
\<close>

fun fl_rank :: "pyfloat \<Rightarrow> nat \<times> real" where
  "fl_rank NInf = (0, 0)"
| "fl_rank (Fin a) = (1, a)"
| "fl_rank PInf = (2, 0)"
| "fl_rank NaN = (3, 0)"

lemma fl_rank_inj: "fl_rank a = fl_rank b \<longleftrightarrow> a = b"
  by (cases a; cases b) auto

instantiation pyfloat :: linorder
begin

definition less_eq_pyfloat :: "pyfloat \<Rightarrow> pyfloat \<Rightarrow> bool" where
  "less_eq_pyfloat a b \<longleftrightarrow> fl_rank a \<le> fl_rank b"

definition less_pyfloat :: "pyfloat \<Rightarrow> pyfloat \<Rightarrow> bool" where
  "less_pyfloat a b \<longleftrightarrow> fl_rank a < fl_rank b"

instance
  by standard (auto simp: less_eq_pyfloat_def less_pyfloat_def less_le fl_rank_inj dest: order_antisym)

end

lemma py_lt_less: "a \<noteq> NaN \<Longrightarrow> b \<noteq> NaN \<Longrightarrow> py_lt a b \<longleftrightarrow> a < b"
  by (cases a; cases b) (auto simp: less_pyfloat_def less_prod_def)

lemma Fin_less [simp]: "Fin a < Fin b \<longleftrightarrow> a < b" and Fin_less_eq [simp]: "Fin a \<le> Fin b \<longleftrightarrow> a \<le> b"
  by (auto simp: less_pyfloat_def less_eq_pyfloat_def less_prod_def less_eq_prod_def)

lemma is_fin_iff: "is_fin x \<longleftrightarrow> (\<exists>a. x = Fin a)"
  by (cases x) auto

lemma Fin_fin_val [simp]: "is_fin x \<Longrightarrow> Fin (fin_val x) = x"
  by (cases x) auto

section \<open>JSON values\<close>

text \<open>
  Scenario bundles and REST documents are decoded JSON. Python keeps booleans, integers and
  floats apart, so the model does too; an object is an association list in insertion order.
\<close>

datatype pyval =
    PyNone
  | PyBool bool
  | PyInt int
  | PyFloat pyfloat
  | PyStr string
  | PyList "pyval list"
  | PyDict "(string \<times> pyval) list"

type_synonym ('k, 'v) dict = "('k \<times> 'v) list"

datatype py_error = TypeError | ValueError | OverflowError | AttributeError | IndexError | KeyError
  | AssertionError | RuntimeError

text \<open>Python's truth value of a decoded value.\<close>

fun truthy :: "pyval \<Rightarrow> bool" where
  "truthy PyNone = False"
| "truthy (PyBool b) = b"
| "truthy (PyInt i) = (i \<noteq> 0)"
| "truthy (PyFloat f) = (f \<noteq> Fin 0)"
| "truthy (PyStr s) = (s \<noteq> [])"
| "truthy (PyList l) = (l \<noteq> [])"
| "truthy (PyDict d) = (d \<noteq> [])"

text \<open>\<open>d.get(k)\<close>: a missing key and an explicit null both read as None.\<close>

definition py_get :: "(string, pyval) dict \<Rightarrow> string \<Rightarrow> pyval" where
  "py_get d k = (case map_of d k of None \<Rightarrow> PyNone | Some v \<Rightarrow> v)"

text \<open>\<open>d.get(k, dflt)\<close>.\<close>

definition py_get_or :: "(string, pyval) dict \<Rightarrow> string \<Rightarrow> pyval \<Rightarrow> pyval" where
  "py_get_or d k dflt = (case map_of d k of None \<Rightarrow> dflt | Some v \<Rightarrow> v)"

text \<open>\<open>(v or {})\<close> where \<open>v\<close> is a dictionary or something falsy.\<close>

fun as_dict :: "pyval \<Rightarrow> (string, pyval) dict option" where
  "as_dict (PyDict d) = Some d"
| "as_dict v = None"

section \<open>Text of integers\<close>

definition digit_char :: "nat \<Rightarrow> char" where
  "digit_char d = char_of (48 + d)"

fun nat_str :: "nat \<Rightarrow> string" where
  "nat_str n = (if n < 10 then [digit_char n] else nat_str (n div 10) @ [digit_char (n mod 10)])"

declare nat_str.simps [simp del]

definition int_str :: "int \<Rightarrow> string" where
  "int_str i = (if i < 0 then CHR ''-'' # nat_str (nat (- i)) else nat_str (nat i))"

text \<open>\<open>str(v)\<close>; the text of floats and containers is the parameter \<open>render\<close>.\<close>

fun py_str :: "(pyval \<Rightarrow> string) \<Rightarrow> pyval \<Rightarrow> string" where
  "py_str render PyNone = ''None''"
| "py_str render (PyBool b) = (if b then ''True'' else ''False'')"
| "py_str render (PyInt i) = int_str i"
| "py_str render (PyStr s) = s"
| "py_str render v = render v"

text \<open>\<open>int(s)\<close> on a string: surrounding blanks, a sign, decimal digits, single underscores between digits.\<close>

definition is_digit :: "char \<Rightarrow> bool" where
  "is_digit c \<longleftrightarrow> CHR ''0'' \<le> c \<and> c \<le> CHR ''9''"

definition is_blank :: "char \<Rightarrow> bool" where
  "is_blank c \<longleftrightarrow> c \<in> {CHR '' '', CHR 0x09, CHR 0x0A, CHR 0x0B, CHR 0x0C, CHR 0x0D}"

definition strip :: "string \<Rightarrow> string" where
  "strip s = rev (dropWhile is_blank (rev (dropWhile is_blank s)))"

fun digits_val :: "nat \<Rightarrow> string \<Rightarrow> nat option" where
  "digits_val acc [] = Some acc"
| "digits_val acc (c # cs) =
     (if is_digit c then digits_val (10 * acc + (of_char c - 48)) cs
      else if c = CHR ''_'' \<and> cs \<noteq> [] \<and> is_digit (hd cs) then digits_val acc cs
      else None)"

definition nat_of_str :: "string \<Rightarrow> nat option" where
  "nat_of_str s = (if s \<noteq> [] \<and> is_digit (hd s) then digits_val 0 s else None)"

definition int_of_str :: "string \<Rightarrow> int option" where
  "int_of_str s0 = (let s = strip s0 in
     case s of
       [] \<Rightarrow> None
     | c # cs \<Rightarrow>
         if c = CHR ''-'' then map_option (\<lambda>n. - int n) (nat_of_str cs)
         else if c = CHR ''+'' then map_option int (nat_of_str cs)
         else map_option int (nat_of_str s))"

text \<open>\<open>int(v)\<close>: truncation towards zero for floats, and the exception of every other type.\<close>

fun trunc_real :: "real \<Rightarrow> int" where
  "trunc_real a = (if a < 0 then \<lceil>a\<rceil> else \<lfloor>a\<rfloor>)"

fun py_int :: "pyval \<Rightarrow> py_error + int" where
  "py_int PyNone = Inl TypeError"
| "py_int (PyBool b) = Inr (if b then 1 else 0)"
| "py_int (PyInt i) = Inr i"
| "py_int (PyFloat f) =
     (case f of Fin a \<Rightarrow> Inr (trunc_real a) | NaN \<Rightarrow> Inl ValueError
              | PInf \<Rightarrow> Inl OverflowError | NInf \<Rightarrow> Inl OverflowError)"
| "py_int (PyStr s) = (case int_of_str s of None \<Rightarrow> Inl ValueError | Some i \<Rightarrow> Inr i)"
| "py_int (PyList _) = Inl TypeError"
| "py_int (PyDict _) = Inl TypeError"

text \<open>
  \<open>float(s)\<close> on a string: a sign, then \<open>inf\<close>, \<open>infinity\<close> or \<open>nan\<close> in any case, or decimal digits with an optional
  point and an optional exponent.
\<close>

definition lower_char :: "char \<Rightarrow> char" where
  "lower_char c = (if CHR ''A'' \<le> c \<and> c \<le> CHR ''Z'' then char_of ((of_char c :: nat) + 32) else c)"

definition split_at :: "(char \<Rightarrow> bool) \<Rightarrow> string \<Rightarrow> string \<times> string option" where
  "split_at P s = (case dropWhile (\<lambda>c. \<not> P c) s of
     [] \<Rightarrow> (s, None) | _ # rest \<Rightarrow> (takeWhile (\<lambda>c. \<not> P c) s, Some rest))"

definition digit_count :: "string \<Rightarrow> nat" where
  "digit_count s = length (filter is_digit s)"

definition mantissa_of_str :: "string \<Rightarrow> real option" where
  "mantissa_of_str s =
     (case split_at (\<lambda>c. c = CHR ''.'') s of
        (ip, None) \<Rightarrow> map_option real (nat_of_str ip)
      | (ip, Some fp) \<Rightarrow>
          (if ip = [] then map_option (\<lambda>f. real f / 10 ^ digit_count fp) (nat_of_str fp)
           else case nat_of_str ip of
             None \<Rightarrow> None
           | Some i \<Rightarrow> if fp = [] then Some (real i)
                       else map_option (\<lambda>f. real i + real f / 10 ^ digit_count fp) (nat_of_str fp)))"

definition exponent_of_str :: "string \<Rightarrow> int option" where
  "exponent_of_str s =
     (case s of
        [] \<Rightarrow> None
      | c # cs \<Rightarrow> if c = CHR ''-'' then map_option (\<lambda>n. - int n) (nat_of_str cs)
                  else if c = CHR ''+'' then map_option int (nat_of_str cs)
                  else map_option int (nat_of_str s))"

definition unsigned_float :: "string \<Rightarrow> pyfloat option" where
  "unsigned_float s =
     (let l = map lower_char s in
      if l = ''inf'' \<or> l = ''infinity'' then Some PInf
      else if l = ''nan'' then Some NaN
      else case split_at (\<lambda>c. c = CHR ''e'') l of
        (m, None) \<Rightarrow> map_option Fin (mantissa_of_str m)
      | (m, Some ex) \<Rightarrow>
          (case (mantissa_of_str m, exponent_of_str ex) of
             (Some v, Some e) \<Rightarrow> Some (Fin (if e < 0 then v / 10 ^ nat (- e) else v * 10 ^ nat e))
           | _ \<Rightarrow> None))"

fun fl_neg :: "pyfloat \<Rightarrow> pyfloat" where
  "fl_neg (Fin a) = Fin (- a)"
| "fl_neg PInf = NInf"
| "fl_neg NInf = PInf"
| "fl_neg NaN = NaN"

definition float_of_str :: "string \<Rightarrow> pyfloat option" where
  "float_of_str s0 = (let s = strip s0 in
     case s of
       [] \<Rightarrow> None
     | c # cs \<Rightarrow> if c = CHR ''-'' then map_option fl_neg (unsigned_float cs)
                 else if c = CHR ''+'' then unsigned_float cs
                 else unsigned_float s)"

fun py_float :: "pyval \<Rightarrow> py_error + pyfloat" where
  "py_float (PyBool b) = Inr (Fin (if b then 1 else 0))"
| "py_float (PyInt i) = Inr (Fin (of_int i))"
| "py_float (PyFloat f) = Inr f"
| "py_float (PyStr s) = (case float_of_str s of None \<Rightarrow> Inl ValueError | Some f \<Rightarrow> Inr f)"
| "py_float _ = Inl TypeError"

text \<open>\<open>float(i)\<close> overflows from the midpoint between the largest double and the next power of two.\<close>

definition float_overflows :: "int \<Rightarrow> bool" where
  "float_overflows i \<longleftrightarrow> 2 ^ 1024 - 2 ^ 970 \<le> \<bar>i\<bar>"

text \<open>\<open>sep.join(parts)\<close>.\<close>

fun join_str :: "string \<Rightarrow> string list \<Rightarrow> string" where
  "join_str sep [] = []"
| "join_str sep [x] = x"
| "join_str sep (x # y # ys) = x @ sep @ join_str sep (y # ys)"

section \<open>Dictionaries\<close>

text \<open>
  \<open>d[k] = v\<close> replaces in place or appends, which is \<open>AList.update\<close>;
  \<open>d.setdefault(k, []).append(v)\<close> is \<open>dict_append\<close>.
\<close>

definition dict_append :: "'k \<Rightarrow> 'v \<Rightarrow> ('k, 'v list) dict \<Rightarrow> ('k, 'v list) dict" where
  "dict_append k v d = AList.update k ((case map_of d k of None \<Rightarrow> [] | Some vs \<Rightarrow> vs) @ [v]) d"

definition dict_list :: "('k, 'v list) dict \<Rightarrow> 'k \<Rightarrow> 'v list" where
  "dict_list d k = (case map_of d k of None \<Rightarrow> [] | Some vs \<Rightarrow> vs)"

fun group_into :: "('a \<Rightarrow> 'k option) \<Rightarrow> 'a list \<Rightarrow> ('k, 'a list) dict \<Rightarrow> ('k, 'a list) dict" where
  "group_into f [] d = d"
| "group_into f (x # xs) d =
     group_into f xs (case f x of None \<Rightarrow> d | Some k \<Rightarrow> dict_append k x d)"

lemma map_of_update [simp, dict_simps]:
  "map_of (AList.update k v d) k' = (if k' = k then Some v else map_of d k')"
  by (simp add: update_conv')

lemma dict_listE:
  assumes "v \<in> set (dict_list d k)"
  obtains vs where "map_of d k = Some vs" "v \<in> set vs"
  using assms by (cases "map_of d k") (auto simp: dict_list_def)

lemma dict_append_list [dict_simps]:
  "dict_list (dict_append k v d) k' = (if k' = k then dict_list d k @ [v] else dict_list d k')"
  by (simp add: dict_append_def dict_list_def)

lemma dict_append_dom [dict_simps]: "dom (map_of (dict_append k v d)) = insert k (dom (map_of d))"
  by (auto simp: dict_append_def dom_def)

lemma group_into_list [dict_simps]:
  "dict_list (group_into f xs d) k = dict_list d k @ filter (\<lambda>x. f x = Some k) xs"
  by (induction xs arbitrary: d) (auto simp: dict_append_list split: option.splits)

lemma group_into_distinct: "distinct (map fst d) \<Longrightarrow> distinct (map fst (group_into f xs d))"
  by (induction xs arbitrary: d) (auto simp: dict_append_def distinct_update split: option.splits)

lemma dict_list_Nil [simp]: "dict_list [] k = []"
  by (simp add: dict_list_def)

lemma dom_update [dict_simps]: "dom (map_of (AList.update k v d)) = insert k (dom (map_of d))"
  by (auto simp: dom_def)

text \<open>Entering a list under computed keys: the last entry of a key wins.\<close>

lemma lookup_fold_update:
  "map_of (fold (\<lambda>x. AList.update (k x) (v x)) xs d) key =
     (case List.find (\<lambda>x. k x = key) (rev xs) of Some x \<Rightarrow> Some (v x) | None \<Rightarrow> map_of d key)"
  by (induction xs rule: rev_induct) (auto split: option.splits)

lemma keys_update: "fst ` set (AList.update k v d) = insert k (fst ` set d)"
  by (simp add: dom_update flip: dom_map_of_conv_image_fst)

section \<open>Sorting\<close>

text \<open>\<open>sorted(set)\<close> of a finite collection given as a list.\<close>

definition sorted_set :: "'a::linorder list \<Rightarrow> 'a list" where
  "sorted_set xs = sort (remdups xs)"

lemma set_sorted_set [simp]: "set (sorted_set xs) = set xs"
  and distinct_sorted_set [simp]: "distinct (sorted_set xs)"
  and sorted_sorted_set [simp]: "sorted (sorted_set xs)"
  by (simp_all add: sorted_set_def)

lemma sorted_set_unique: "set xs = set ys \<Longrightarrow> sorted_set xs = sorted_set ys"
  by (rule sorted_distinct_set_unique) simp_all

text \<open>
  The permutation argument behind every order-independence theorem: sorting by a key that tells the
  elements apart forgets the order of the input.
\<close>

lemma sort_key_perm:
  fixes f :: "'a \<Rightarrow> 'b::linorder"
  assumes "mset xs = mset ys" and "inj_on f (set xs)"
  shows "sort_key f xs = sort_key f ys"
  using assms by (intro sort_key_inj_key_eq) simp_all

lemma find_SomeD: "List.find P xs = Some x \<Longrightarrow> x \<in> set xs \<and> P x"
  by (auto simp: find_Some_iff)

lemma find_None_notin: "List.find P xs = None \<Longrightarrow> x \<in> set xs \<Longrightarrow> \<not> P x"
  by (simp add: find_None_iff)

lemma in_set_splits: "x \<in> set xs \<Longrightarrow> \<exists>ys zs. xs = ys @ x # zs"
  by (rule split_list)

lemma sorted_map_prefix_le:
  "sorted (map f (ys @ x # zs)) \<Longrightarrow> y \<in> set (ys @ [x]) \<Longrightarrow> f y \<le> f x"
  by (auto simp: sorted_append)

lemma distinct_subseq: "subseq xs ys \<Longrightarrow> distinct ys \<Longrightarrow> distinct xs"
  by (induction rule: list_emb.induct) (auto elim: list_emb_set)

section \<open>Random choices\<close>

text \<open>
  A \<open>random.Random\<close> is an explicit state. \<open>shuffle\<close> and \<open>sample\<close> choose positions from the
  length of the list and the state alone, so each is a function to index lists and a next state;
  the generator itself is a parameter, and \<open>rng_ok\<close> is its documented behaviour.
\<close>

record 'r rng_ops =
  shuffle_idx :: "'r \<Rightarrow> nat \<Rightarrow> nat list \<times> 'r"
  sample_idx :: "'r \<Rightarrow> nat \<Rightarrow> nat \<Rightarrow> nat list \<times> 'r"

definition rng_ok :: "'r rng_ops \<Rightarrow> bool" where
  "rng_ok g \<longleftrightarrow>
     (\<forall>r n. mset (fst (shuffle_idx g r n)) = mset [0..<n]) \<and>
     (\<forall>r n k. k \<le> n \<longrightarrow> distinct (fst (sample_idx g r n k)) \<and> set (fst (sample_idx g r n k)) \<subseteq> {0..<n}
                          \<and> length (fst (sample_idx g r n k)) = k)"

definition rng_shuffle :: "'r rng_ops \<Rightarrow> 'r \<Rightarrow> 'a list \<Rightarrow> 'a list \<times> 'r" where
  "rng_shuffle g r xs = (case shuffle_idx g r (length xs) of (p, r') \<Rightarrow> (map ((!) xs) p, r'))"

definition rng_sample :: "'r rng_ops \<Rightarrow> 'r \<Rightarrow> 'a list \<Rightarrow> nat \<Rightarrow> 'a list \<times> 'r" where
  "rng_sample g r xs k = (case sample_idx g r (length xs) k of (p, r') \<Rightarrow> (map ((!) xs) p, r'))"

lemma rng_shuffle_mset:
  assumes "rng_ok g" shows "mset (fst (rng_shuffle g r xs)) = mset xs"
proof -
  obtain p r' where p: "shuffle_idx g r (length xs) = (p, r')" by fastforce
  with assms have "mset p = mset [0..<length xs]" unfolding rng_ok_def by (metis fst_conv)
  then have "mset (map ((!) xs) p) = mset (map ((!) xs) [0..<length xs])" by (simp del: mset_upt)
  then show ?thesis by (simp add: rng_shuffle_def p map_nth)
qed

lemma rng_shuffle_set: "rng_ok g \<Longrightarrow> set (fst (rng_shuffle g r xs)) = set xs"
  by (metis rng_shuffle_mset set_mset_mset)

lemma rng_sample_subset:
  assumes "rng_ok g" and "k \<le> length xs"
  shows "set (fst (rng_sample g r xs k)) \<subseteq> set xs" and "length (fst (rng_sample g r xs k)) = k"
proof -
  obtain p r' where p: "sample_idx g r (length xs) k = (p, r')" by fastforce
  with assms have "set p \<subseteq> {0..<length xs}" "length p = k" unfolding rng_ok_def by (metis fst_conv)+
  then show "set (fst (rng_sample g r xs k)) \<subseteq> set xs" "length (fst (rng_sample g r xs k)) = k"
    by (auto simp: rng_sample_def p)
qed

text \<open>A generator that shuffles nothing and samples a prefix, for concrete evaluations.\<close>

definition id_rng :: "unit rng_ops" where
  "id_rng = \<lparr>shuffle_idx = \<lambda>r n. ([0..<n], r), sample_idx = \<lambda>r n k. ([0..<k], r)\<rparr>"

lemma id_rng_ok [simp]: "rng_ok id_rng"
  by (auto simp: rng_ok_def id_rng_def)

end
