(* ===== verification/Workflow_Machines.thy ===== *)
theory Workflow_Machines
  imports OR_Prelude
begin

text \<open>
  The state machines of container logistics (\<open>apps/container_logistics/statemachine\<close>): the gate,
  the haul trip and the order, as the transition tables their classes declare, the workflow events
  and the two interaction tables that connect them. Dispatch of an event on a table is the work of
  the statemachine package: it is a parameter, and the locale \<open>statechart\<close> states what the package
  documents.
\<close>

section \<open>Dispatch\<close>

datatype sm_error = TransitionNotAllowed

fun sm_run :: "('e \<Rightarrow> 's \<Rightarrow> sm_error + 's) \<Rightarrow> 'e list \<Rightarrow> 's \<Rightarrow> sm_error + 's" where
  "sm_run fire [] s = Inr s"
| "sm_run fire (e # es) s = (case fire e s of Inl x \<Rightarrow> Inl x | Inr t \<Rightarrow> sm_run fire es t)"

locale statechart =
  fixes trs :: "('e \<times> 's \<times> 's) list"
    and fire :: "'e \<Rightarrow> 's \<Rightarrow> sm_error + 's"
  assumes fire_declared: "(e, s, t) \<in> set trs \<Longrightarrow> fire e s = Inr t"
    and fire_undeclared: "(\<And>t. (e, s, t) \<notin> set trs) \<Longrightarrow> fire e s = Inl TransitionNotAllowed"
begin

lemma fire_iff: "fire e s = Inr t \<longleftrightarrow> (e, s, t) \<in> set trs"
  using fire_declared fire_undeclared by (metis Inl_Inr_False sum.inject(2))

lemma fire_rejects: "fire e s = Inl err \<longleftrightarrow> (\<nexists>t. (e, s, t) \<in> set trs)"
  using fire_declared fire_undeclared by (metis (full_types) Inl_Inr_False sm_error.exhaust)

lemma run_Cons:
  "sm_run fire (e # es) s = Inr u \<longleftrightarrow> (\<exists>t. (e, s, t) \<in> set trs \<and> sm_run fire es t = Inr u)"
  by (auto simp: fire_iff split: sum.splits) (metis Inl_Inr_False fire_declared, metis fire_iff sum.inject(2))

end

text \<open>A concrete dispatcher, the first matching row of the table.\<close>

definition sm_send :: "('e \<times> 's \<times> 's) list \<Rightarrow> 'e \<Rightarrow> 's \<Rightarrow> sm_error + 's" where
  "sm_send trs e s =
     (case List.find (\<lambda>(e', s', t). e' = e \<and> s' = s) trs of
        None \<Rightarrow> Inl TransitionNotAllowed
      | Some (_, _, t) \<Rightarrow> Inr t)"

section \<open>Gate\<close>

datatype gate_state = GClosed | GAvailable | GBusy | GOutOfService

datatype gate_event = GOpen | GAssignTruck | GCompleteService | GClose | GBreakdown | GRepair

definition gate_transitions :: "(gate_event \<times> gate_state \<times> gate_state) list" where
  "gate_transitions =
     [(GOpen, GClosed, GAvailable),
      (GAssignTruck, GAvailable, GBusy),
      (GCompleteService, GBusy, GAvailable),
      (GClose, GAvailable, GClosed),
      (GBreakdown, GClosed, GOutOfService),
      (GBreakdown, GAvailable, GOutOfService),
      (GBreakdown, GBusy, GOutOfService),
      (GRepair, GOutOfService, GClosed)]"

section \<open>Haul trip\<close>

datatype haul_state = HCreated | HAssigned | HRepositioning | HQueuedPickup | HAtPickupGate
  | HLoadedInTransit | HQueuedDropoff | HAtDropoffGate | HCompleted | HCancelled

datatype haul_event = HAssign | HStartEmptyReposition | HArrivePickupQueue | HEnterPickupGate
  | HFinishPickupService | HArriveDropoffQueue | HEnterDropoffGate | HFinishDropoffService | HCancel

definition haul_transitions :: "(haul_event \<times> haul_state \<times> haul_state) list" where
  "haul_transitions =
     [(HAssign, HCreated, HAssigned),
      (HStartEmptyReposition, HAssigned, HRepositioning),
      (HArrivePickupQueue, HAssigned, HQueuedPickup),
      (HArrivePickupQueue, HRepositioning, HQueuedPickup),
      (HEnterPickupGate, HQueuedPickup, HAtPickupGate),
      (HFinishPickupService, HAtPickupGate, HLoadedInTransit),
      (HArriveDropoffQueue, HLoadedInTransit, HQueuedDropoff),
      (HEnterDropoffGate, HQueuedDropoff, HAtDropoffGate),
      (HFinishDropoffService, HAtDropoffGate, HCompleted),
      (HCancel, HCreated, HCancelled),
      (HCancel, HAssigned, HCancelled),
      (HCancel, HRepositioning, HCancelled),
      (HCancel, HQueuedPickup, HCancelled),
      (HCancel, HAtPickupGate, HCancelled),
      (HCancel, HLoadedInTransit, HCancelled),
      (HCancel, HQueuedDropoff, HCancelled),
      (HCancel, HAtDropoffGate, HCancelled)]"

section \<open>Order\<close>

datatype order_state = OCreated | OUnassigned | OAssigned | OPickupInProgress | OInTransit
  | ODropoffInProgress | OCompleted | OCancelled

datatype order_event = OPublish | OAssign | OPickupStarted | OPickupDone | ODropoffStarted
  | ODeliver | OCancel

definition order_transitions :: "(order_event \<times> order_state \<times> order_state) list" where
  "order_transitions =
     [(OPublish, OCreated, OUnassigned),
      (OAssign, OUnassigned, OAssigned),
      (OPickupStarted, OAssigned, OPickupInProgress),
      (OPickupDone, OPickupInProgress, OInTransit),
      (ODropoffStarted, OInTransit, ODropoffInProgress),
      (ODeliver, ODropoffInProgress, OCompleted),
      (OCancel, OCreated, OCancelled),
      (OCancel, OUnassigned, OCancelled),
      (OCancel, OAssigned, OCancelled),
      (OCancel, OPickupInProgress, OCancelled),
      (OCancel, OInTransit, OCancelled),
      (OCancel, ODropoffInProgress, OCancelled)]"

section \<open>Workflow events and interaction tables\<close>

datatype wf_action = ASSIGNED_HAUL_TRIP | ORDER_WORKFLOW_EVENT | FACILITY_WORKFLOW_EVENT

datatype wf_event = ORDER_ASSIGNED_TO_TRUCK | ORDER_PICKUP_STARTED | ORDER_PICKUP_COMPLETED
  | ORDER_DROPOFF_STARTED | ORDER_DELIVERED | ORDER_CANCELLED
  | TRUCK_ARRIVED_PICKUP_QUEUE | TRUCK_ARRIVED_DROPOFF_QUEUE
  | GATE_SLOT_ASSIGNED_FOR_PICKUP | GATE_SLOT_ASSIGNED_FOR_DROPOFF
  | PICKUP_GATE_SERVICE_COMPLETED | DROPOFF_GATE_SERVICE_COMPLETED | FACILITY_QUEUE_CANCELLED

fun event_name :: "wf_event \<Rightarrow> string" where
  "event_name ORDER_ASSIGNED_TO_TRUCK = ''order_assigned_to_truck''"
| "event_name ORDER_PICKUP_STARTED = ''order_pickup_started''"
| "event_name ORDER_PICKUP_COMPLETED = ''order_pickup_completed''"
| "event_name ORDER_DROPOFF_STARTED = ''order_dropoff_started''"
| "event_name ORDER_DELIVERED = ''order_delivered''"
| "event_name ORDER_CANCELLED = ''order_cancelled''"
| "event_name TRUCK_ARRIVED_PICKUP_QUEUE = ''truck_arrived_pickup_queue''"
| "event_name TRUCK_ARRIVED_DROPOFF_QUEUE = ''truck_arrived_dropoff_queue''"
| "event_name GATE_SLOT_ASSIGNED_FOR_PICKUP = ''gate_slot_assigned_for_pickup''"
| "event_name GATE_SLOT_ASSIGNED_FOR_DROPOFF = ''gate_slot_assigned_for_dropoff''"
| "event_name PICKUP_GATE_SERVICE_COMPLETED = ''pickup_gate_service_completed''"
| "event_name DROPOFF_GATE_SERVICE_COMPLETED = ''dropoff_gate_service_completed''"
| "event_name FACILITY_QUEUE_CANCELLED = ''facility_queue_cancelled''"

datatype machine = HaulTripSM | GateSM | OrderSM

datatype transition_ref = HaulT haul_event | GateT gate_event

datatype state_ref = HaulS haul_state | GateS gate_state | OrderS order_state

record interaction =
  source_statemachine :: machine
  source_transition :: transition_ref
  source_new_state :: state_ref
  action :: wf_action
  event :: wf_event
  target_statemachine :: machine
  target_new_state :: state_ref

definition haultrip_gate_interactions :: "interaction list" where
  "haultrip_gate_interactions =
    [\<lparr>source_statemachine = HaulTripSM, source_transition = HaulT HArrivePickupQueue,
      source_new_state = HaulS HQueuedPickup, action = FACILITY_WORKFLOW_EVENT,
      event = TRUCK_ARRIVED_PICKUP_QUEUE, target_statemachine = GateSM,
      target_new_state = GateS GAvailable\<rparr>,
     \<lparr>source_statemachine = GateSM, source_transition = GateT GAssignTruck,
      source_new_state = GateS GBusy, action = FACILITY_WORKFLOW_EVENT,
      event = GATE_SLOT_ASSIGNED_FOR_PICKUP, target_statemachine = HaulTripSM,
      target_new_state = HaulS HAtPickupGate\<rparr>,
     \<lparr>source_statemachine = GateSM, source_transition = GateT GCompleteService,
      source_new_state = GateS GAvailable, action = FACILITY_WORKFLOW_EVENT,
      event = PICKUP_GATE_SERVICE_COMPLETED, target_statemachine = HaulTripSM,
      target_new_state = HaulS HLoadedInTransit\<rparr>,
     \<lparr>source_statemachine = HaulTripSM, source_transition = HaulT HArriveDropoffQueue,
      source_new_state = HaulS HQueuedDropoff, action = FACILITY_WORKFLOW_EVENT,
      event = TRUCK_ARRIVED_DROPOFF_QUEUE, target_statemachine = GateSM,
      target_new_state = GateS GAvailable\<rparr>,
     \<lparr>source_statemachine = GateSM, source_transition = GateT GAssignTruck,
      source_new_state = GateS GBusy, action = FACILITY_WORKFLOW_EVENT,
      event = GATE_SLOT_ASSIGNED_FOR_DROPOFF, target_statemachine = HaulTripSM,
      target_new_state = HaulS HAtDropoffGate\<rparr>,
     \<lparr>source_statemachine = GateSM, source_transition = GateT GCompleteService,
      source_new_state = GateS GAvailable, action = FACILITY_WORKFLOW_EVENT,
      event = DROPOFF_GATE_SERVICE_COMPLETED, target_statemachine = HaulTripSM,
      target_new_state = HaulS HCompleted\<rparr>]"

definition haultrip_order_interactions :: "interaction list" where
  "haultrip_order_interactions =
    [\<lparr>source_statemachine = HaulTripSM, source_transition = HaulT HAssign,
      source_new_state = HaulS HAssigned, action = ORDER_WORKFLOW_EVENT,
      event = ORDER_ASSIGNED_TO_TRUCK, target_statemachine = OrderSM,
      target_new_state = OrderS OAssigned\<rparr>,
     \<lparr>source_statemachine = HaulTripSM, source_transition = HaulT HEnterPickupGate,
      source_new_state = HaulS HAtPickupGate, action = ORDER_WORKFLOW_EVENT,
      event = ORDER_PICKUP_STARTED, target_statemachine = OrderSM,
      target_new_state = OrderS OPickupInProgress\<rparr>,
     \<lparr>source_statemachine = HaulTripSM, source_transition = HaulT HFinishPickupService,
      source_new_state = HaulS HLoadedInTransit, action = ORDER_WORKFLOW_EVENT,
      event = ORDER_PICKUP_COMPLETED, target_statemachine = OrderSM,
      target_new_state = OrderS OInTransit\<rparr>,
     \<lparr>source_statemachine = HaulTripSM, source_transition = HaulT HEnterDropoffGate,
      source_new_state = HaulS HAtDropoffGate, action = ORDER_WORKFLOW_EVENT,
      event = ORDER_DROPOFF_STARTED, target_statemachine = OrderSM,
      target_new_state = OrderS ODropoffInProgress\<rparr>,
     \<lparr>source_statemachine = HaulTripSM, source_transition = HaulT HFinishDropoffService,
      source_new_state = HaulS HCompleted, action = ORDER_WORKFLOW_EVENT,
      event = ORDER_DELIVERED, target_statemachine = OrderSM,
      target_new_state = OrderS OCompleted\<rparr>,
     \<lparr>source_statemachine = HaulTripSM, source_transition = HaulT HCancel,
      source_new_state = HaulS HCancelled, action = ORDER_WORKFLOW_EVENT,
      event = ORDER_CANCELLED, target_statemachine = OrderSM,
      target_new_state = OrderS OCancelled\<rparr>]"

section \<open>Facts\<close>

text \<open>A table that names each event and source state once is dispatched by \<open>sm_send\<close>.\<close>

definition deterministic :: "('e \<times> 's \<times> 's) list \<Rightarrow> bool" where
  "deterministic trs \<longleftrightarrow> distinct (map (\<lambda>(e, s, t). (e, s)) trs)"

lemma deterministic_unique:
  "deterministic trs \<Longrightarrow> (e, s, t) \<in> set trs \<Longrightarrow> (e, s, u) \<in> set trs \<Longrightarrow> t = u"
  by (induction trs) (force simp: deterministic_def)+

lemma sm_send_statechart:
  assumes "deterministic trs" shows "statechart trs (sm_send trs)"
proof
  fix e s t assume m: "(e, s, t) \<in> set trs"
  then obtain r where r: "List.find (\<lambda>(e', s', t). e' = e \<and> s' = s) trs = Some r"
    by (cases "List.find (\<lambda>(e', s', t). e' = e \<and> s' = s) trs") (auto dest: find_None_notin)
  with find_SomeD [OF r] obtain u where u: "r = (e, s, u)" "(e, s, u) \<in> set trs" by auto
  with deterministic_unique [OF assms m] r show "sm_send trs e s = Inr t" by (simp add: sm_send_def)
next
  fix e s assume "\<And>t. (e, s, t) \<notin> set trs"
  then show "sm_send trs e s = Inl TransitionNotAllowed"
    by (auto simp: sm_send_def split: option.splits dest!: find_SomeD)
qed

interpretation gatesm: statechart gate_transitions "sm_send gate_transitions"
  by (rule sm_send_statechart) (simp add: deterministic_def gate_transitions_def)

interpretation haulsm: statechart haul_transitions "sm_send haul_transitions"
  by (rule sm_send_statechart) (simp add: deterministic_def haul_transitions_def)

interpretation ordersm: statechart order_transitions "sm_send order_transitions"
  by (rule sm_send_statechart) (simp add: deterministic_def order_transitions_def)

end
