(* ===== verification/Facility_Queue.thy ===== *)
theory Facility_Queue
  imports Workflow_Machines
begin

text \<open>
  The gate queue of a facility (\<open>statemachine/facility_queue_sm.py\<close>): one FIFO queue of trucks and
  N gates, each a gate state machine. The locale \<open>gate_server\<close> is what the facility agent relies on:
  a FIFO queue with several servers, where nothing is lost or served twice.
\<close>

section \<open>State\<close>

datatype facility_state = FOpen | FClosed

datatype visit_type = Pickup | Dropoff

record queue_entry =
  qe_truck_id :: string
  qe_visit_type :: visit_type

record controller =
  fc_gate_count :: int
  fc_state :: facility_state
  fc_queue :: "queue_entry list"
  fc_gate_assignments :: "(nat, queue_entry option) dict"
  fc_gates :: "gate_state list"

datatype facility_error = FValueError | FIndexError | FKeyError | FTransitionNotAllowed

type_synonym gate_fire = "gate_event \<Rightarrow> gate_state \<Rightarrow> sm_error + gate_state"

section \<open>Operations\<close>

text \<open>\<open>__post_init__\<close>.\<close>

definition new_controller :: "int \<Rightarrow> facility_error + controller" where
  "new_controller gate_count =
     (if gate_count < 1 then Inl FValueError
      else Inr \<lparr>fc_gate_count = gate_count, fc_state = FClosed, fc_queue = [],
                fc_gate_assignments = map (\<lambda>i. (i, None)) [0..<nat gate_count],
                fc_gates = replicate (nat gate_count) GClosed\<rparr>)"

fun open_gates :: "gate_fire \<Rightarrow> gate_state list \<Rightarrow> facility_error + gate_state list" where
  "open_gates fire [] = Inr []"
| "open_gates fire (g # gs) =
     (case (if g = GClosed then fire GOpen g else Inr g) of
        Inl _ \<Rightarrow> Inl FTransitionNotAllowed
      | Inr g' \<Rightarrow> (case open_gates fire gs of Inl e \<Rightarrow> Inl e | Inr gs' \<Rightarrow> Inr (g' # gs')))"

definition open_facility :: "gate_fire \<Rightarrow> controller \<Rightarrow> facility_error + controller" where
  "open_facility fire c =
     (case open_gates fire (fc_gates c) of
        Inl e \<Rightarrow> Inl e
      | Inr gs \<Rightarrow> Inr (c\<lparr>fc_state := FOpen, fc_gates := gs\<rparr>))"

definition close_facility :: "controller \<Rightarrow> controller" where
  "close_facility c = c\<lparr>fc_state := FClosed\<rparr>"

definition enqueue_truck :: "string \<Rightarrow> visit_type \<Rightarrow> controller \<Rightarrow> controller" where
  "enqueue_truck t v c = c\<lparr>fc_queue := fc_queue c @ [\<lparr>qe_truck_id = t, qe_visit_type = v\<rparr>]\<rparr>"

text \<open>
  The loop of \<open>assign_available_gates\<close> from gate \<open>i\<close> on: it stops when the queue is empty, skips
  gates that are not available, and otherwise pops the head of the queue. It returns the gates, the
  queue, the assignment dictionary and the assignments made.
\<close>

fun assign_from :: "gate_fire \<Rightarrow> nat \<Rightarrow> gate_state list \<Rightarrow> queue_entry list
    \<Rightarrow> (nat, queue_entry option) dict
    \<Rightarrow> facility_error + (gate_state list \<times> queue_entry list \<times> (nat, queue_entry option) dict
                          \<times> (nat \<times> queue_entry) list)" where
  "assign_from fire i [] q asg = Inr ([], q, asg, [])"
| "assign_from fire i (g # gs) q asg =
     (case q of
        [] \<Rightarrow> Inr (g # gs, q, asg, [])
      | entry # q' \<Rightarrow>
          if g \<noteq> GAvailable then
            (case assign_from fire (Suc i) gs q asg of
               Inl e \<Rightarrow> Inl e
             | Inr (gs', q'', asg', out) \<Rightarrow> Inr (g # gs', q'', asg', out))
          else
            (case fire GAssignTruck g of
               Inl _ \<Rightarrow> Inl FTransitionNotAllowed
             | Inr g' \<Rightarrow>
                 (case assign_from fire (Suc i) gs q' (AList.update i (Some entry) asg) of
                    Inl e \<Rightarrow> Inl e
                  | Inr (gs', q'', asg', out) \<Rightarrow> Inr (g' # gs', q'', asg', (i, entry) # out))))"

definition assign_available_gates ::
    "gate_fire \<Rightarrow> controller \<Rightarrow> facility_error + (controller \<times> (nat \<times> queue_entry) list)" where
  "assign_available_gates fire c =
     (if fc_state c \<noteq> FOpen then Inr (c, [])
      else case assign_from fire 0 (fc_gates c) (fc_queue c) (fc_gate_assignments c) of
        Inl e \<Rightarrow> Inl e
      | Inr (gs, q, asg, out) \<Rightarrow>
          Inr (c\<lparr>fc_gates := gs, fc_queue := q, fc_gate_assignments := asg\<rparr>, out))"

definition release_gate ::
    "gate_fire \<Rightarrow> int \<Rightarrow> controller \<Rightarrow> facility_error + (controller \<times> queue_entry option)" where
  "release_gate fire gate_index c =
     (if gate_index < 0 \<or> gate_index \<ge> int (length (fc_gates c)) then Inl FIndexError
      else let i = nat gate_index; g = fc_gates c ! i in
        case (if g = GBusy then fire GCompleteService g else Inr g) of
          Inl _ \<Rightarrow> Inl FTransitionNotAllowed
        | Inr g' \<Rightarrow>
            (case map_of (fc_gate_assignments c) i of
               None \<Rightarrow> Inl FKeyError
             | Some entry \<Rightarrow>
                 Inr (c\<lparr>fc_gates := (fc_gates c)[i := g'],
                        fc_gate_assignments := AList.update i None (fc_gate_assignments c)\<rparr>, entry)))"

definition active_truck_ids :: "controller \<Rightarrow> string set" where
  "active_truck_ids c = {qe_truck_id e | e. Some e \<in> snd ` set (fc_gate_assignments c)}"

section \<open>Well-formed controllers\<close>

text \<open>
  One gate and one assignment slot per index, no gate out of service (no operation breaks one), a
  gate is busy exactly when its slot holds a truck, and no gate of an open facility is closed.
\<close>

definition fc_ok :: "controller \<Rightarrow> bool" where
  "fc_ok c \<longleftrightarrow>
     int (length (fc_gates c)) = fc_gate_count c \<and> 1 \<le> fc_gate_count c \<and>
     map fst (fc_gate_assignments c) = [0..<length (fc_gates c)] \<and>
     GOutOfService \<notin> set (fc_gates c) \<and>
     (fc_state c = FOpen \<longrightarrow> GClosed \<notin> set (fc_gates c)) \<and>
     (\<forall>i < length (fc_gates c).
        (fc_gates c ! i = GBusy) \<longleftrightarrow> (\<exists>e. map_of (fc_gate_assignments c) i = Some (Some e)))"

text \<open>The two views the rest of the system has: who waits, and who is served at which gate.\<close>

definition fc_waiting :: "controller \<Rightarrow> queue_entry list" where
  "fc_waiting c = fc_queue c"

definition fc_serving :: "controller \<Rightarrow> nat \<Rightarrow> queue_entry option" where
  "fc_serving c i = (case map_of (fc_gate_assignments c) i of Some (Some e) \<Rightarrow> Some e | _ \<Rightarrow> None)"

section \<open>Lemmas\<close>

lemma map_fst_update: "i \<in> fst ` set d \<Longrightarrow> map fst (AList.update i v d) = map fst d"
  by (induction d) auto

lemma map_of_upt: "map fst d = [0..<n] \<Longrightarrow> i < n \<Longrightarrow> \<exists>v. map_of d i = Some v"
  by (metis atLeastLessThan_iff le0 list.set_map map_of_eq_None_iff not_None_eq set_upt)

lemma open_gates_ok:
  assumes "statechart gate_transitions fire"
  shows "open_gates fire gs = Inr (map (\<lambda>g. if g = GClosed then GAvailable else g) gs)"
proof -
  have "fire GOpen GClosed = Inr GAvailable"
    using statechart.fire_declared [OF assms] by (simp add: gate_transitions_def)
  then show ?thesis by (induction gs) auto
qed

text \<open>
  The assignment loop, in closed form: with \<open>k\<close> the number of trucks it can place, the first \<open>k\<close>
  available gates become busy with the first \<open>k\<close> trucks of the queue, in order.
\<close>

fun avail_from :: "nat \<Rightarrow> gate_state list \<Rightarrow> nat list" where
  "avail_from i [] = []"
| "avail_from i (g # gs) = (if g = GAvailable then i # avail_from (Suc i) gs else avail_from (Suc i) gs)"

lemma avail_from_bounds: "j \<in> set (avail_from i gs) \<Longrightarrow> i \<le> j \<and> j < i + length gs"
  by (induction gs arbitrary: i) (fastforce split: if_splits)+

lemma avail_from_iff: "j < length gs \<Longrightarrow> i + j \<in> set (avail_from i gs) \<longleftrightarrow> gs ! j = GAvailable"
proof (induction gs arbitrary: i j)
  case (Cons g gs)
  show ?case
  proof (cases j)
    case 0
    then show ?thesis using avail_from_bounds [of i "Suc i" gs] by auto
  next
    case (Suc k)
    with Cons.IH [of k "Suc i"] Cons.prems show ?thesis by auto
  qed
qed simp

lemma sorted_avail_from: "sorted_wrt (<) (avail_from i gs)"
  by (induction gs arbitrary: i) (auto dest: avail_from_bounds)

text \<open>One busy gate per pair placed.\<close>

fun occupy :: "nat list \<Rightarrow> nat \<Rightarrow> gate_state list \<Rightarrow> gate_state list" where
  "occupy is i [] = []"
| "occupy is i (g # gs) = (if i \<in> set is then GBusy else g) # occupy is (Suc i) gs"

lemma length_occupy [simp]: "length (occupy is i gs) = length gs"
  by (induction gs arbitrary: i) auto

lemma occupy_nth: "j < length gs \<Longrightarrow> occupy is i gs ! j = (if i + j \<in> set is then GBusy else gs ! j)"
  by (induction gs arbitrary: i j) (auto simp: nth_Cons split: nat.splits)

lemma occupy_skip: "(\<And>j. j \<in> set js \<Longrightarrow> j < i) \<Longrightarrow> occupy (js @ is) i gs = occupy is i gs"
  by (rule nth_equalityI) (force simp: occupy_nth)+

lemma occupy_Nil [simp]: "occupy [] i gs = gs"
  by (induction gs arbitrary: i) auto

definition assign_pairs :: "nat \<Rightarrow> gate_state list \<Rightarrow> queue_entry list \<Rightarrow> (nat \<times> queue_entry) list" where
  "assign_pairs i gs q = zip (avail_from i gs) q"

lemma assign_from_closed:
  assumes "statechart gate_transitions fire"
  shows "assign_from fire i gs q asg =
    Inr (occupy (map fst (assign_pairs i gs q)) i gs, drop (length (assign_pairs i gs q)) q,
         fold (\<lambda>(j, e). AList.update j (Some e)) (assign_pairs i gs q) asg, assign_pairs i gs q)"
proof -
  have fire: "fire GAssignTruck GAvailable = Inr GBusy"
    using statechart.fire_declared [OF assms] by (simp add: gate_transitions_def)
  show ?thesis
  proof (induction gs arbitrary: i q asg)
    case Nil
    then show ?case by (simp add: assign_pairs_def)
  next
    case (Cons g gs)
    have skip: "i \<notin> set (map fst (zip (avail_from (Suc i) gs) q'))" for q' :: "queue_entry list"
      using avail_from_bounds [of i "Suc i" gs] by (auto dest: set_zip_leftD)
    show ?case
    proof (cases q)
      case Nil
      then show ?thesis by (simp add: assign_pairs_def)
    next
      case (Cons entry q')
      then show ?thesis
        using Cons.IH fire skip occupy_skip [of "[i]" "Suc i"]
        by (auto simp: assign_pairs_def)
    qed
  qed
qed

lemma map_fst_fold_update:
  "fst ` set ps \<subseteq> fst ` set d \<Longrightarrow> map fst (fold (\<lambda>(j, e). AList.update j (Some e)) ps d) = map fst d"
proof (induction ps arbitrary: d)
  case (Cons p ps)
  then show ?case by (cases p) (simp add: keys_update map_fst_update subset_insertI2)
qed simp

lemma map_of_fold_update:
  "distinct (map fst ps) \<Longrightarrow>
     map_of (fold (\<lambda>(j, e). AList.update j (Some e)) ps d) i =
       (case map_of ps i of None \<Rightarrow> map_of d i | Some e \<Rightarrow> Some (Some e))"
proof (induction ps arbitrary: d)
  case (Cons p ps)
  obtain j e where p: "p = (j, e)" by (cases p)
  with Cons.prems have j: "map_of ps j = None" by (simp add: map_of_eq_None_iff)
  show ?case using Cons.IH [of "AList.update j (Some e) d"] Cons.prems j p
    by (cases "i = j") (simp_all split: option.split)
qed simp

lemma fst_assign_pairs: "map fst (assign_pairs i gs q) = take (length q) (avail_from i gs)"
  and snd_assign_pairs: "map snd (assign_pairs i gs q) = take (length (avail_from i gs)) q"
  by (simp_all add: assign_pairs_def map_fst_zip_take map_snd_zip_take min_def)

lemma distinct_assign_pairs: "distinct (map fst (assign_pairs i gs q))"
  using sorted_avail_from [of i gs] by (simp add: fst_assign_pairs strict_sorted_iff distinct_take)

lemma assign_pairs_avail:
  "j \<in> fst ` set (assign_pairs 0 gs q) \<Longrightarrow> j < length gs \<and> gs ! j = GAvailable"
proof -
  assume "j \<in> fst ` set (assign_pairs 0 gs q)"
  then have "j \<in> set (take (length q) (avail_from 0 gs))" by (metis fst_assign_pairs list.set_map)
  then have m: "j \<in> set (avail_from 0 gs)" by (rule in_set_takeD)
  then show ?thesis using avail_from_bounds [OF m] avail_from_iff [of j gs 0] by simp
qed

section \<open>The server contract\<close>

datatype 'e server_op = Arrive 'e | Assign | Release nat

text \<open>A run of operations, with the log of service starts and the log of departures.\<close>

fun server_run :: "('e \<Rightarrow> 's \<Rightarrow> 's) \<Rightarrow> ('s \<Rightarrow> 'err + ('s \<times> (nat \<times> 'e) list)) \<Rightarrow> (nat \<Rightarrow> 's \<Rightarrow> 'err + ('s \<times> 'e option))
    \<Rightarrow> 'e server_op list \<Rightarrow> 's \<Rightarrow> 'err + ('s \<times> 'e list \<times> 'e list)" where
  "server_run enq asg rel [] s = Inr (s, [], [])"
| "server_run enq asg rel (Arrive e # ops) s = server_run enq asg rel ops (enq e s)"
| "server_run enq asg rel (Assign # ops) s =
     (case asg s of
        Inl x \<Rightarrow> Inl x
      | Inr (s1, out) \<Rightarrow>
          (case server_run enq asg rel ops s1 of
             Inl x \<Rightarrow> Inl x
           | Inr (s2, starts, departs) \<Rightarrow> Inr (s2, map snd out @ starts, departs)))"
| "server_run enq asg rel (Release i # ops) s =
     (case rel i s of
        Inl x \<Rightarrow> Inl x
      | Inr (s1, r) \<Rightarrow>
          (case server_run enq asg rel ops s1 of
             Inl x \<Rightarrow> Inl x
           | Inr (s2, starts, departs) \<Rightarrow>
               Inr (s2, starts, (case r of None \<Rightarrow> [] | Some e \<Rightarrow> [e]) @ departs)))"

fun arrivals :: "'e server_op list \<Rightarrow> 'e list" where
  "arrivals [] = []"
| "arrivals (Arrive e # ops) = e # arrivals ops"
| "arrivals (_ # ops) = arrivals ops"

definition in_service :: "nat \<Rightarrow> (nat \<Rightarrow> 'e option) \<Rightarrow> 'e multiset" where
  "in_service n f = (\<Sum>i<n. case f i of None \<Rightarrow> {#} | Some e \<Rightarrow> {#e#})"

lemma in_service_upd:
  assumes "i < n"
  shows "in_service n (f(i := v)) + (case f i of None \<Rightarrow> {#} | Some e \<Rightarrow> {#e#}) =
         in_service n f + (case v of None \<Rightarrow> {#} | Some e \<Rightarrow> {#e#})"
proof -
  have "in_service n g = (case g i of None \<Rightarrow> {#} | Some e \<Rightarrow> {#e#}) +
      (\<Sum>j\<in>{..<n} - {i}. case g j of None \<Rightarrow> {#} | Some e \<Rightarrow> {#e#})" for g :: "nat \<Rightarrow> 'a option"
    unfolding in_service_def using assms by (intro sum.remove) auto
  from this [of f] this [of "f(i := v)"] show ?thesis by (simp add: ac_simps)
qed

lemma in_service_assign:
  assumes "distinct (map fst out)" and "\<And>i e. (i, e) \<in> set out \<Longrightarrow> i < n \<and> f i = None"
  shows "in_service n (\<lambda>i. case map_of out i of None \<Rightarrow> f i | Some e \<Rightarrow> Some e) =
         in_service n f + mset (map snd out)"
  using assms
proof (induction out)
  case (Cons p out)
  obtain i e where p: "p = (i, e)" by (cases p)
  let ?g = "\<lambda>i. case map_of out i of None \<Rightarrow> f i | Some e \<Rightarrow> Some e"
  have i: "i < n" "f i = None" "map_of out i = None"
    using Cons.prems p by (auto simp: map_of_eq_None_iff)
  have eq: "(\<lambda>i. case map_of (p # out) i of None \<Rightarrow> f i | Some e \<Rightarrow> Some e) = ?g(i := Some e)"
    by (auto simp: p fun_eq_iff)
  have "in_service n (?g(i := Some e)) = in_service n ?g + {#e#}"
    using in_service_upd [OF i(1), of ?g "Some e"] i(2,3) by simp
  moreover have "in_service n ?g = in_service n f + mset (map snd out)"
    using Cons.prems by (intro Cons.IH) auto
  ultimately show ?case unfolding eq by (simp add: p)
qed simp

locale gate_server =
  fixes enq :: "'e \<Rightarrow> 's \<Rightarrow> 's"
    and asg :: "'s \<Rightarrow> 'err + ('s \<times> (nat \<times> 'e) list)"
    and rel :: "nat \<Rightarrow> 's \<Rightarrow> 'err + ('s \<times> 'e option)"
    and waiting :: "'s \<Rightarrow> 'e list"
    and serving :: "'s \<Rightarrow> nat \<Rightarrow> 'e option"
    and gates :: "'s \<Rightarrow> nat"
    and inv :: "'s \<Rightarrow> bool"
  assumes enq_law: "inv s \<Longrightarrow>
      inv (enq e s) \<and> waiting (enq e s) = waiting s @ [e] \<and> serving (enq e s) = serving s \<and> gates (enq e s) = gates s"
    and asg_law: "inv s \<Longrightarrow> \<exists>s' out. asg s = Inr (s', out) \<and> inv s' \<and> gates s' = gates s \<and>
      waiting s = map snd out @ waiting s' \<and> distinct (map fst out) \<and>
      (\<forall>i e. (i, e) \<in> set out \<longrightarrow> i < gates s \<and> serving s i = None) \<and>
      serving s' = (\<lambda>i. case map_of out i of None \<Rightarrow> serving s i | Some e \<Rightarrow> Some e)"
    and rel_law: "inv s \<Longrightarrow> i < gates s \<Longrightarrow> \<exists>s'. rel i s = Inr (s', serving s i) \<and> inv s' \<and>
      gates s' = gates s \<and> waiting s' = waiting s \<and> serving s' = (serving s)(i := None)"
    and rel_range: "inv s \<Longrightarrow> \<not> i < gates s \<Longrightarrow> \<exists>x. rel i s = Inl x"
begin

text \<open>
  Trucks start service in the order they arrived, none is lost, and every truck that started is
  either still at a gate or has departed, once.
\<close>

lemma run_conserves:
  assumes "inv s" and "server_run enq asg rel ops s = Inr (s', starts, departs)"
  shows "inv s' \<and> gates s' = gates s \<and> waiting s @ arrivals ops = starts @ waiting s' \<and>
         in_service (gates s) (serving s) + mset starts = in_service (gates s) (serving s') + mset departs"
  using assms
proof (induction ops arbitrary: s starts departs)
  case Nil
  then show ?case by simp
next
  case (Cons op ops)
  show ?case
  proof (cases op)
    case (Arrive e)
    with Cons.IH [of "enq e s" starts departs] Cons.prems enq_law [of s e] show ?thesis by simp
  next
    case Assign
    obtain s1 out where s1: "asg s = Inr (s1, out)" "inv s1" "gates s1 = gates s"
      "waiting s = map snd out @ waiting s1" "distinct (map fst out)"
      "\<forall>i e. (i, e) \<in> set out \<longrightarrow> i < gates s \<and> serving s i = None"
      "serving s1 = (\<lambda>i. case map_of out i of None \<Rightarrow> serving s i | Some e \<Rightarrow> Some e)"
      using asg_law [OF Cons.prems(1)] by blast
    with Cons.prems Assign obtain st where r: "server_run enq asg rel ops s1 = Inr (s', st, departs)"
      and st: "starts = map snd out @ st" by (auto split: sum.splits)
    have "in_service (gates s) (serving s1) = in_service (gates s) (serving s) + mset (map snd out)"
      unfolding s1(7) using s1(5,6) by (intro in_service_assign) auto
    with Cons.IH [OF s1(2) r] s1(3,4) Assign show ?thesis by (simp add: st ac_simps)
  next
    case (Release i)
    show ?thesis
    proof (cases "i < gates s")
      case True
      then obtain s1 where s1: "rel i s = Inr (s1, serving s i)" "inv s1" "gates s1 = gates s"
        "waiting s1 = waiting s" "serving s1 = (serving s)(i := None)" using rel_law Cons.prems(1) by blast
      with Cons.prems Release obtain ds where r: "server_run enq asg rel ops s1 = Inr (s', starts, ds)"
        and ds: "departs = (case serving s i of None \<Rightarrow> [] | Some e \<Rightarrow> [e]) @ ds"
        by (auto split: sum.splits)
      have "in_service (gates s) (serving s1) + mset (case serving s i of None \<Rightarrow> [] | Some e \<Rightarrow> [e])
          = in_service (gates s) (serving s)"
        using in_service_upd [OF True, of "serving s" None] by (simp add: s1(5) split: option.splits)
      with Cons.IH [OF s1(2) r] s1(3,4) Release show ?thesis
        by (simp add: ds ac_simps) (metis union_assoc union_commute)
    next
      case False
      then obtain x where "rel i s = Inl x" using rel_range Cons.prems(1) by blast
      with Cons.prems Release show ?thesis by simp
    qed
  qed
qed

end

section \<open>The controller implements the contract\<close>

lemma assign_closed:
  assumes "statechart gate_transitions fire" and "fc_state c = FOpen"
  shows "assign_available_gates fire c =
    (let ps = assign_pairs 0 (fc_gates c) (fc_queue c) in
     Inr (c\<lparr>fc_gates := occupy (map fst ps) 0 (fc_gates c), fc_queue := drop (length ps) (fc_queue c),
            fc_gate_assignments := fold (\<lambda>(j, e). AList.update j (Some e)) ps (fc_gate_assignments c)\<rparr>, ps))"
  using assms by (simp add: assign_available_gates_def assign_from_closed Let_def)

lemma fc_ok_new: "new_controller n = Inr c \<Longrightarrow> fc_ok c"
  by (auto simp: new_controller_def fc_ok_def map_of_map_restrict o_def split: if_splits)

lemma fc_ok_open:
  assumes "statechart gate_transitions fire" "fc_ok c"
  shows "\<exists>c'. open_facility fire c = Inr c' \<and> fc_ok c' \<and> fc_queue c' = fc_queue c \<and> fc_state c' = FOpen"
  using assms(2) by (auto simp: open_facility_def open_gates_ok [OF assms(1)] fc_ok_def)

lemma fc_ok_close: "fc_ok c \<Longrightarrow> fc_ok (close_facility c)"
  by (simp add: fc_ok_def close_facility_def)

lemma fc_ok_enqueue: "fc_ok c \<Longrightarrow> fc_ok (enqueue_truck t v c)"
  by (simp add: fc_ok_def enqueue_truck_def)

lemma fc_ok_keys: "fc_ok c \<Longrightarrow> fst ` set (fc_gate_assignments c) = {0..<length (fc_gates c)}"
  by (metis fc_ok_def list.set_map set_upt)

lemma fc_ok_assign:
  assumes fire: "statechart gate_transitions fire" and ok: "fc_ok c"
  shows "\<exists>c' out. assign_available_gates fire c = Inr (c', out) \<and> fc_ok c'"
proof (cases "fc_state c = FOpen")
  case False
  then show ?thesis using ok by (simp add: assign_available_gates_def)
next
  case True
  let ?ps = "assign_pairs 0 (fc_gates c) (fc_queue c)"
  have sub: "fst ` set ?ps \<subseteq> fst ` set (fc_gate_assignments c)"
    unfolding fc_ok_keys [OF ok] using assign_pairs_avail by fastforce
  have busy: "occupy (map fst ?ps) 0 (fc_gates c) ! i = GBusy \<longleftrightarrow>
      i \<in> fst ` set ?ps \<or> fc_gates c ! i = GBusy" if "i < length (fc_gates c)" for i
    using that by (simp add: occupy_nth)
  have slot: "(\<exists>e. map_of (fold (\<lambda>(j, e). AList.update j (Some e)) ?ps (fc_gate_assignments c)) i = Some (Some e))
      \<longleftrightarrow> i \<in> fst ` set ?ps \<or> (\<exists>e. map_of (fc_gate_assignments c) i = Some (Some e))" for i
  proof (cases "map_of ?ps i")
    case None
    then have "i \<notin> fst ` set ?ps" by (simp add: map_of_eq_None_iff)
    with None show ?thesis by (simp add: map_of_fold_update [OF distinct_assign_pairs])
  next
    case (Some e)
    then have "i \<in> fst ` set ?ps" by (force dest: map_of_SomeD)
    with Some show ?thesis by (simp add: map_of_fold_update [OF distinct_assign_pairs])
  qed
  have states: "set (occupy (map fst ?ps) 0 (fc_gates c)) \<subseteq> insert GBusy (set (fc_gates c))"
  proof
    fix g assume "g \<in> set (occupy (map fst ?ps) 0 (fc_gates c))"
    then obtain i where "i < length (fc_gates c)" "g = occupy (map fst ?ps) 0 (fc_gates c) ! i"
      by (auto simp: in_set_conv_nth)
    then show "g \<in> insert GBusy (set (fc_gates c))" by (simp add: occupy_nth split: if_splits)
  qed
  have "fc_ok (c\<lparr>fc_gates := occupy (map fst ?ps) 0 (fc_gates c), fc_queue := drop (length ?ps) (fc_queue c),
      fc_gate_assignments := fold (\<lambda>(j, e). AList.update j (Some e)) ?ps (fc_gate_assignments c)\<rparr>)"
    using ok states map_fst_fold_update [OF sub] busy slot unfolding fc_ok_def by auto
  then show ?thesis by (simp add: assign_closed [OF fire True] Let_def)
qed

lemma release_closed:
  assumes fire: "statechart gate_transitions fire" and ok: "fc_ok c" and i: "i < length (fc_gates c)"
  shows "release_gate fire (int i) c =
    Inr (c\<lparr>fc_gates := (fc_gates c)[i := (if fc_gates c ! i = GBusy then GAvailable else fc_gates c ! i)],
           fc_gate_assignments := AList.update i None (fc_gate_assignments c)\<rparr>, fc_serving c i)"
proof -
  have "fire GCompleteService GBusy = Inr GAvailable"
    using statechart.fire_declared [OF fire] by (simp add: gate_transitions_def)
  moreover obtain v where "map_of (fc_gate_assignments c) i = Some v"
    using ok i map_of_upt unfolding fc_ok_def by blast
  ultimately show ?thesis using i by (auto simp: release_gate_def Let_def fc_serving_def split: option.splits)
qed

lemma fc_ok_release:
  assumes fire: "statechart gate_transitions fire" and ok: "fc_ok c" and i: "i < length (fc_gates c)"
  shows "\<exists>c'. release_gate fire (int i) c = Inr (c', fc_serving c i) \<and> fc_ok c'"
proof -
  have "map fst (AList.update i None (fc_gate_assignments c)) = map fst (fc_gate_assignments c)"
    using fc_ok_keys [OF ok] i by (intro map_fst_update) auto
  moreover have "set ((fc_gates c)[i := g]) \<subseteq> insert g (set (fc_gates c))" for g
    by (rule set_update_subset_insert)
  ultimately have "fc_ok (c\<lparr>fc_gates := (fc_gates c)[i := (if fc_gates c ! i = GBusy then GAvailable else fc_gates c ! i)],
      fc_gate_assignments := AList.update i None (fc_gate_assignments c)\<rparr>)"
    using ok i unfolding fc_ok_def by (auto simp: nth_list_update list_update_id dest: subsetD)
  then show ?thesis using release_closed [OF assms] by simp
qed

text \<open>The controller as a server: arrivals by entry, release by gate index.\<close>

definition enqueue_entry :: "queue_entry \<Rightarrow> controller \<Rightarrow> controller" where
  "enqueue_entry e c = enqueue_truck (qe_truck_id e) (qe_visit_type e) c"

definition fc_num_gates :: "controller \<Rightarrow> nat" where
  "fc_num_gates c = length (fc_gates c)"

lemma controller_gate_server:
  assumes fire: "statechart gate_transitions fire"
  shows "gate_server enqueue_entry (assign_available_gates fire) (\<lambda>i. release_gate fire (int i))
           fc_waiting fc_serving fc_num_gates fc_ok"
proof
  fix c e assume "fc_ok c"
  then show "fc_ok (enqueue_entry e c) \<and> fc_waiting (enqueue_entry e c) = fc_waiting c @ [e] \<and>
      fc_serving (enqueue_entry e c) = fc_serving c \<and> fc_num_gates (enqueue_entry e c) = fc_num_gates c"
    by (simp add: enqueue_entry_def fc_ok_enqueue)
      (simp add: enqueue_truck_def fc_waiting_def fc_serving_def fc_num_gates_def fun_eq_iff)
next
  fix c assume ok: "fc_ok c"
  let ?ps = "assign_pairs 0 (fc_gates c) (fc_queue c)"
  show "\<exists>c' out. assign_available_gates fire c = Inr (c', out) \<and> fc_ok c' \<and> fc_num_gates c' = fc_num_gates c \<and>
      fc_waiting c = map snd out @ fc_waiting c' \<and> distinct (map fst out) \<and>
      (\<forall>i e. (i, e) \<in> set out \<longrightarrow> i < fc_num_gates c \<and> fc_serving c i = None) \<and>
      fc_serving c' = (\<lambda>i. case map_of out i of None \<Rightarrow> fc_serving c i | Some e \<Rightarrow> Some e)"
  proof (cases "fc_state c = FOpen")
    case False
    then show ?thesis using ok by (simp add: assign_available_gates_def)
  next
    case True
    obtain c' out where r: "assign_available_gates fire c = Inr (c', out)" and ok': "fc_ok c'"
      using fc_ok_assign [OF fire ok] by blast
    have out: "out = ?ps" and c': "fc_queue c' = drop (length ?ps) (fc_queue c)"
      "fc_gate_assignments c' = fold (\<lambda>(j, e). AList.update j (Some e)) ?ps (fc_gate_assignments c)"
      "length (fc_gates c') = length (fc_gates c)"
      using r assign_closed [OF fire True] by (auto simp: Let_def)
    have free: "i < fc_num_gates c \<and> fc_serving c i = None" if "(i, e) \<in> set out" for i e
      using assign_pairs_avail [of i "fc_gates c" "fc_queue c"] that ok out
      by (force simp: fc_num_gates_def fc_serving_def fc_ok_def split: option.splits)
    have "fc_serving c' i = (case map_of out i of None \<Rightarrow> fc_serving c i | Some e \<Rightarrow> Some e)" for i
      by (simp add: fc_serving_def c'(2) out map_of_fold_update [OF distinct_assign_pairs] split: option.split)
    then show ?thesis
      using r ok' free distinct_assign_pairs
      by (auto simp: out c' fc_waiting_def fc_num_gates_def snd_assign_pairs fun_eq_iff)
        (simp add: assign_pairs_def min_def)
  qed
next
  fix c i assume ok: "fc_ok c" and "i < fc_num_gates c"
  then have i: "i < length (fc_gates c)" by (simp add: fc_num_gates_def)
  show "\<exists>c'. release_gate fire (int i) c = Inr (c', fc_serving c i) \<and> fc_ok c' \<and>
      fc_num_gates c' = fc_num_gates c \<and> fc_waiting c' = fc_waiting c \<and> fc_serving c' = (fc_serving c)(i := None)"
    using fc_ok_release [OF fire ok i] release_closed [OF fire ok i]
    by (auto simp: fc_num_gates_def fc_waiting_def fc_serving_def fun_eq_iff)
next
  fix c i assume "\<not> i < fc_num_gates c"
  then show "\<exists>x. release_gate fire (int i) c = Inl x" by (simp add: release_gate_def fc_num_gates_def)
qed

interpretation fcserver: gate_server enqueue_entry "assign_available_gates (sm_send gate_transitions)"
  "\<lambda>i. release_gate (sm_send gate_transitions) (int i)" fc_waiting fc_serving fc_num_gates fc_ok
  by (rule controller_gate_server) (rule gatesm.statechart_axioms)

section \<open>Reachable controllers\<close>

inductive fc_reachable :: "gate_fire \<Rightarrow> controller \<Rightarrow> bool" for fire where
  init: "new_controller n = Inr c \<Longrightarrow> fc_reachable fire c"
| opens: "fc_reachable fire c \<Longrightarrow> open_facility fire c = Inr c' \<Longrightarrow> fc_reachable fire c'"
| closes: "fc_reachable fire c \<Longrightarrow> fc_reachable fire (close_facility c)"
| arrives: "fc_reachable fire c \<Longrightarrow> fc_reachable fire (enqueue_truck t v c)"
| assigns: "fc_reachable fire c \<Longrightarrow> assign_available_gates fire c = Inr (c', out) \<Longrightarrow> fc_reachable fire c'"
| releases: "fc_reachable fire c \<Longrightarrow> release_gate fire i c = Inr (c', e) \<Longrightarrow> fc_reachable fire c'"

lemma fc_ok_release_any:
  assumes "statechart gate_transitions fire" "fc_ok c" "release_gate fire i c = Inr (c', e)"
  shows "fc_ok c'"
proof -
  have "0 \<le> i" "i < int (length (fc_gates c))" using assms(3) by (auto simp: release_gate_def split: if_splits)
  then show ?thesis using fc_ok_release [OF assms(1,2), of "nat i"] assms(3) by auto
qed

text \<open>
  C11. Whatever sequence of openings, closings, arrivals, gate assignments and gate releases a
  facility goes through, its controller stays well formed: one gate and one slot per index, a gate
  is busy exactly when its slot holds a truck, and no gate of an open facility is closed. On such a
  controller opening and assigning never raise, and releasing raises only for an index out of range.
\<close>

theorem controller_invariant:
  assumes "fc_reachable fire c" and "statechart gate_transitions fire"
  shows "fc_ok c \<and> (\<exists>c'. open_facility fire c = Inr c') \<and>
    (\<exists>r. assign_available_gates fire c = Inr r) \<and>
    (\<forall>i. (\<exists>r. release_gate fire i c = Inr r) \<longleftrightarrow> 0 \<le> i \<and> i < fc_gate_count c)"
proof -
  from assms(1) have ok: "fc_ok c"
  proof (induction rule: fc_reachable.induct)
    case (opens c c')
    with fc_ok_open [OF assms(2), of c] show ?case by auto
  next
    case (assigns c c' out)
    with fc_ok_assign [OF assms(2), of c] show ?case by auto
  qed (auto intro: fc_ok_new fc_ok_close fc_ok_enqueue fc_ok_release_any [OF assms(2)])
  then have n: "fc_gate_count c = int (length (fc_gates c))" by (simp add: fc_ok_def)
  have "\<exists>r. release_gate fire i c = Inr r" if "0 \<le> i" "i < fc_gate_count c" for i
    using fc_ok_release [OF assms(2) ok, of "nat i"] that n by (auto simp: nat_less_iff)
  moreover have "0 \<le> i \<and> i < fc_gate_count c" if "release_gate fire i c = Inr r" for i r
    using that n by (auto simp: release_gate_def split: if_splits)
  ultimately show ?thesis using ok fc_ok_open [OF assms(2) ok] fc_ok_assign [OF assms(2) ok] by blast
qed

text \<open>A small facility with two gates, used by the evaluations below.\<close>

definition demo_controller :: controller where
  "demo_controller = \<lparr>fc_gate_count = 2, fc_state = FOpen,
     fc_queue = [\<lparr>qe_truck_id = ''t1'', qe_visit_type = Pickup\<rparr>, \<lparr>qe_truck_id = ''t2'', qe_visit_type = Dropoff\<rparr>,
                 \<lparr>qe_truck_id = ''t3'', qe_visit_type = Pickup\<rparr>],
     fc_gate_assignments = [(0, None), (1, None)], fc_gates = [GAvailable, GAvailable]\<rparr>"

lemma demo_reachable: "fc_reachable (sm_send gate_transitions) demo_controller"
proof -
  define c0 where "c0 = \<lparr>fc_gate_count = 2, fc_state = FClosed, fc_queue = [],
    fc_gate_assignments = [(0::nat, None :: queue_entry option), (1, None)], fc_gates = [GClosed, GClosed]\<rparr>"
  have "new_controller 2 = Inr c0" by (simp add: new_controller_def c0_def numeral_2_eq_2)
  then have r0: "fc_reachable (sm_send gate_transitions) c0" by (rule fc_reachable.init)
  have "open_facility (sm_send gate_transitions) c0 =
      Inr (c0\<lparr>fc_state := FOpen, fc_gates := [GAvailable, GAvailable]\<rparr>)"
    unfolding open_facility_def open_gates_ok [OF gatesm.statechart_axioms] by (simp add: c0_def)
  from fc_reachable.opens [OF r0 this] have
    "fc_reachable (sm_send gate_transitions) (enqueue_truck ''t3'' Pickup (enqueue_truck ''t2'' Dropoff
       (enqueue_truck ''t1'' Pickup (c0\<lparr>fc_state := FOpen, fc_gates := [GAvailable, GAvailable]\<rparr>))))"
    by (intro fc_reachable.arrives)
  then show ?thesis by (simp add: demo_controller_def c0_def enqueue_truck_def)
qed

theorem controller_invariant_witness:
  "fc_ok demo_controller \<and> (\<exists>r. assign_available_gates (sm_send gate_transitions) demo_controller = Inr r) \<and>
   (\<exists>r. release_gate (sm_send gate_transitions) 1 demo_controller = Inr r)"
  using controller_invariant [OF demo_reachable gatesm.statechart_axioms]
  by (simp add: demo_controller_def)

text \<open>Assignment leaves no idle gate beside a waiting truck.\<close>

lemma assign_no_idle_gate:
  assumes fire: "statechart gate_transitions fire" and op: "fc_state c = FOpen"
    and r: "assign_available_gates fire c = Inr (c', out)" and q: "fc_queue c' \<noteq> []"
  shows "GAvailable \<notin> set (fc_gates c')"
proof
  let ?ps = "assign_pairs 0 (fc_gates c) (fc_queue c)"
  have c': "c' = c\<lparr>fc_gates := occupy (map fst ?ps) 0 (fc_gates c), fc_queue := drop (length ?ps) (fc_queue c),
      fc_gate_assignments := fold (\<lambda>(j, e). AList.update j (Some e)) ?ps (fc_gate_assignments c)\<rparr>"
    using r assign_closed [OF fire op] by (auto simp: Let_def)
  assume "GAvailable \<in> set (fc_gates c')"
  then obtain i where i: "i < length (fc_gates c)" "fc_gates c' ! i = GAvailable"
    by (auto simp: in_set_conv_nth c')
  from q have "length (avail_from 0 (fc_gates c)) < length (fc_queue c)"
    by (simp add: c' assign_pairs_def min_def split: if_splits)
  then have "map fst ?ps = avail_from 0 (fc_gates c)" by (simp add: fst_assign_pairs)
  then have "i \<in> fst ` set ?ps \<longleftrightarrow> fc_gates c ! i = GAvailable"
    using avail_from_iff [OF i(1), of 0] by (metis list.set_map plus_nat.add_0)
  with i show False by (auto simp: c' occupy_nth split: if_splits)
qed

text \<open>
  C7. Gate assignment is FIFO and work conserving. On an open facility it places the first
  \<open>k\<close> trucks of the queue, in queue order, on the first \<open>k\<close> available gates in gate order, where \<open>k\<close> is the
  smaller of the queue length and the number of available gates; those gates become busy, the other
  gates keep their state, and afterwards the queue is empty or no gate is available.
\<close>

theorem assign_available_gates_fifo:
  assumes fire: "statechart gate_transitions fire" and ok: "fc_ok c" and op: "fc_state c = FOpen"
    and r: "assign_available_gates fire c = Inr (c', out)"
  shows "out = zip (filter (\<lambda>i. fc_gates c ! i = GAvailable) [0..<length (fc_gates c)]) (fc_queue c)
    \<and> fc_queue c' = drop (length out) (fc_queue c)
    \<and> (\<forall>i < length (fc_gates c). fc_gates c' ! i = (if i \<in> fst ` set out then GBusy else fc_gates c ! i))
    \<and> (fc_queue c' = [] \<or> GAvailable \<notin> set (fc_gates c'))"
proof -
  have avail: "avail_from i gs = map ((+) i) (filter (\<lambda>j. gs ! j = GAvailable) [0..<length gs])" for i gs
  proof (induction gs arbitrary: i)
    case (Cons g gs)
    have up: "[0..<length (g # gs)] = 0 # map Suc [0..<length gs]" by (simp add: upt_conv_Cons map_Suc_upt del: upt_Suc)
    show ?case unfolding up by (simp add: Cons filter_map o_def)
  qed simp
  let ?ps = "assign_pairs 0 (fc_gates c) (fc_queue c)"
  have out: "out = ?ps" and c': "c' = c\<lparr>fc_gates := occupy (map fst ?ps) 0 (fc_gates c),
      fc_queue := drop (length ?ps) (fc_queue c),
      fc_gate_assignments := fold (\<lambda>(j, e). AList.update j (Some e)) ?ps (fc_gate_assignments c)\<rparr>"
    using r assign_closed [OF fire op] by (auto simp: Let_def)
  have nth: "fc_gates c' ! i = (if i \<in> fst ` set out then GBusy else fc_gates c ! i)"
    if "i < length (fc_gates c)" for i using that by (simp add: c' out occupy_nth)
  have "GAvailable \<notin> set (fc_gates c')" if "fc_queue c' \<noteq> []"
    using assign_no_idle_gate [OF fire op r that] .
  moreover have "out = zip (filter (\<lambda>i. fc_gates c ! i = GAvailable) [0..<length (fc_gates c)]) (fc_queue c)"
    by (simp add: out assign_pairs_def avail map_idI)
  moreover have "fc_queue c' = drop (length out) (fc_queue c)" by (simp add: out c')
  ultimately show ?thesis using nth by blast
qed

theorem assign_available_gates_fifo_witness:
  "\<exists>c' out. assign_available_gates (sm_send gate_transitions) demo_controller = Inr (c', out) \<and>
     out = [(0, \<lparr>qe_truck_id = ''t1'', qe_visit_type = Pickup\<rparr>), (1, \<lparr>qe_truck_id = ''t2'', qe_visit_type = Dropoff\<rparr>)] \<and>
     fc_queue c' = [\<lparr>qe_truck_id = ''t3'', qe_visit_type = Pickup\<rparr>]"
proof -
  have ok: "fc_ok demo_controller" by (auto simp: fc_ok_def demo_controller_def less_2_cases_iff nth_Cons' upt_rec)
  obtain c' out where r: "assign_available_gates (sm_send gate_transitions) demo_controller = Inr (c', out)"
    using fc_ok_assign [OF gatesm.statechart_axioms ok] by blast
  have "fc_state demo_controller = FOpen" by (simp add: demo_controller_def)
  from assign_available_gates_fifo [OF gatesm.statechart_axioms ok this r] r show ?thesis
    by (simp add: demo_controller_def numeral_2_eq_2)
qed

text \<open>
  C10. The controller is a FIFO queue with several servers. Over any sequence of arrivals, gate
  assignments and releases that does not name a gate out of range, the trucks start service in
  exactly the order they arrived, none is lost and none is duplicated, and every truck that was put
  at a gate is either still there or was returned by exactly one release.
\<close>

theorem controller_conserves_trucks:
  assumes "statechart gate_transitions fire" and "fc_ok c"
    and "server_run enqueue_entry (assign_available_gates fire) (\<lambda>i. release_gate fire (int i)) ops c
         = Inr (c', starts, departs)"
  shows "fc_queue c @ arrivals ops = starts @ fc_queue c' \<and>
    in_service (length (fc_gates c)) (fc_serving c) + mset starts =
    in_service (length (fc_gates c)) (fc_serving c') + mset departs"
  using gate_server.run_conserves [OF controller_gate_server [OF assms(1)] assms(2,3)]
  by (simp add: fc_waiting_def fc_num_gates_def)

theorem controller_conserves_trucks_witness:
  "\<exists>c' starts departs. server_run enqueue_entry (assign_available_gates (sm_send gate_transitions))
       (\<lambda>i. release_gate (sm_send gate_transitions) (int i)) [Assign, Release 0] demo_controller
     = Inr (c', starts, departs) \<and> fc_queue demo_controller = starts @ fc_queue c'"
proof -
  have ok: "fc_ok demo_controller" by (auto simp: fc_ok_def demo_controller_def less_2_cases_iff nth_Cons' upt_rec)
  obtain c1 o1 where r1: "assign_available_gates (sm_send gate_transitions) demo_controller = Inr (c1, o1)"
    "fc_ok c1" "fc_num_gates c1 = 2"
    using fcserver.asg_law [OF ok] by (auto simp: fc_num_gates_def demo_controller_def)
  then obtain c2 where r2: "release_gate (sm_send gate_transitions) 0 c1 = Inr (c2, fc_serving c1 0)"
    using fcserver.rel_law [of c1 0] by auto
  have run: "server_run enqueue_entry (assign_available_gates (sm_send gate_transitions))
       (\<lambda>i. release_gate (sm_send gate_transitions) (int i)) [Assign, Release 0] demo_controller
     = Inr (c2, map snd o1, (case fc_serving c1 0 of None \<Rightarrow> [] | Some e \<Rightarrow> [e]))"
    using r1 r2 by simp
  from controller_conserves_trucks [OF gatesm.statechart_axioms ok run] run show ?thesis by auto
qed

end
