(* ===== verification/Trip_Workflow.thy ===== *)
theory Trip_Workflow
  imports Workflow_Machines
begin

text \<open>
  How a haul trip drives its order: the trip manager's post-transition hook
  (\<open>truck/trip_manager.py\<close>), the routing of workflow messages to topics, the handlers of the order
  agent (\<open>order/app.py\<close>) and of the truck (\<open>truck/facility_interaction_mixin.py\<close>,
  \<open>truck/order_interaction_mixin.py\<close>), and the joint run of a haul trip and its order.
\<close>

section \<open>Trip documents and messages\<close>

record trip_doc =
  trip_order :: "string option"
  trip_truck :: "string option"
  pickup_facility_resource_id :: "string option"
  dropoff_facility_resource_id :: "string option"
  pickup_facility_name :: "string option"
  dropoff_facility_name :: "string option"

record trip_manager =
  tm_run_id :: string
  tm_order_events_topic :: "string option"
  tm_has_messenger :: bool

record wf_message =
  m_action :: wf_action
  m_truck_id :: "string option"
  m_event :: wf_event
  m_order_id :: "string option"

text \<open>\<open>if not x\<close> on an optional string: None and the empty string are both false.\<close>

definition nonempty :: "string option \<Rightarrow> string option" where
  "nonempty x = (if x = Some [] then None else x)"

definition topic_of :: "string \<Rightarrow> string \<Rightarrow> string" where
  "topic_of run sfx = run @ ''/'' @ sfx"

section \<open>The trip manager\<close>

text \<open>The facility collection is a REST service: \<open>lookup\<close> is the id it returns for a profile name.\<close>

definition facility_resource_id_by_profile_name ::
    "(string \<Rightarrow> string option) \<Rightarrow> string option \<Rightarrow> string option" where
  "facility_resource_id_by_profile_name lookup name =
     (case nonempty name of None \<Rightarrow> None | Some n \<Rightarrow> lookup n)"

definition facility_topic_for_profile_name ::
    "(string \<Rightarrow> string option) \<Rightarrow> string \<Rightarrow> string option \<Rightarrow> string option" where
  "facility_topic_for_profile_name lookup run name =
     (case nonempty (facility_resource_id_by_profile_name lookup name) of
        None \<Rightarrow> None | Some fid \<Rightarrow> Some (topic_of run fid))"

definition mqtt_topic_for_workflow_event ::
    "(string \<Rightarrow> string option) \<Rightarrow> trip_manager \<Rightarrow> trip_doc \<Rightarrow> wf_event \<Rightarrow> string option" where
  "mqtt_topic_for_workflow_event lookup mgr trip ev =
     (if prefix ''order_'' (event_name ev) then
        (case nonempty (trip_order trip) of
           None \<Rightarrow> None
         | Some oid \<Rightarrow>
             (case nonempty (tm_order_events_topic mgr) of
                Some t \<Rightarrow> Some (topic_of (tm_run_id mgr) t)
              | None \<Rightarrow> Some (topic_of (tm_run_id mgr) oid)))
      else if ev = TRUCK_ARRIVED_PICKUP_QUEUE then
        (case nonempty (pickup_facility_resource_id trip) of
           Some fid \<Rightarrow> Some (topic_of (tm_run_id mgr) fid)
         | None \<Rightarrow> facility_topic_for_profile_name lookup (tm_run_id mgr) (pickup_facility_name trip))
      else if ev = TRUCK_ARRIVED_DROPOFF_QUEUE then
        (case nonempty (dropoff_facility_resource_id trip) of
           Some fid \<Rightarrow> Some (topic_of (tm_run_id mgr) fid)
         | None \<Rightarrow> facility_topic_for_profile_name lookup (tm_run_id mgr) (dropoff_facility_name trip))
      else None)"

definition message_template :: "trip_doc \<Rightarrow> wf_event \<Rightarrow> wf_message" where
  "message_template trip ev =
     (if prefix ''order_'' (event_name ev)
      then \<lparr>m_action = ORDER_WORKFLOW_EVENT, m_truck_id = trip_truck trip, m_event = ev,
            m_order_id = trip_order trip\<rparr>
      else \<lparr>m_action = FACILITY_WORKFLOW_EVENT, m_truck_id = trip_truck trip, m_event = ev,
            m_order_id = None\<rparr>)"

text \<open>
  The transition's context is merged into the message data. Of the context keys the trip manager
  passes, only \<open>order_id\<close> (from \<open>assign\<close>) is a field the receivers read.
\<close>

definition merge_context :: "string option option \<Rightarrow> wf_message \<Rightarrow> wf_message" where
  "merge_context ctx m = (case ctx of None \<Rightarrow> m | Some oid \<Rightarrow> m\<lparr>m_order_id := oid\<rparr>)"

definition post_transition_hook ::
    "(string \<Rightarrow> string option) \<Rightarrow> trip_manager \<Rightarrow> trip_doc \<Rightarrow> haul_event \<Rightarrow> string option option
     \<Rightarrow> (string \<times> wf_message) option" where
  "post_transition_hook lookup mgr trip tr ctx =
     (case List.find (\<lambda>rule. source_statemachine rule = HaulTripSM \<and> source_transition rule = HaulT tr)
             (haultrip_order_interactions @ haultrip_gate_interactions) of
        None \<Rightarrow> None
      | Some rule \<Rightarrow>
          (case mqtt_topic_for_workflow_event lookup mgr trip (event rule) of
             None \<Rightarrow> None
           | Some channel \<Rightarrow>
               if tm_has_messenger mgr
               then Some (channel, merge_context ctx (message_template trip (event rule)))
               else None))"

section \<open>The receivers\<close>

text \<open>The order agent's handlers, one per event of the order workflow.\<close>

fun order_handler :: "wf_event \<Rightarrow> order_event option" where
  "order_handler ORDER_ASSIGNED_TO_TRUCK = Some OAssign"
| "order_handler ORDER_PICKUP_STARTED = Some OPickupStarted"
| "order_handler ORDER_PICKUP_COMPLETED = Some OPickupDone"
| "order_handler ORDER_DROPOFF_STARTED = Some ODropoffStarted"
| "order_handler ORDER_DELIVERED = Some ODeliver"
| "order_handler ORDER_CANCELLED = Some OCancel"
| "order_handler _ = None"

text \<open>
  A handler returns early when the message names another order. Otherwise it patches the transition
  on the REST resource; a rejected transition comes back as a failed response and the stored state stays.
\<close>

definition order_on_message ::
    "(order_event \<Rightarrow> order_state \<Rightarrow> sm_error + order_state) \<Rightarrow> string \<Rightarrow> wf_message
     \<Rightarrow> order_state \<Rightarrow> order_state" where
  "order_on_message fire my_id m st =
     (if m_action m \<noteq> ORDER_WORKFLOW_EVENT then st
      else case order_handler (m_event m) of
        None \<Rightarrow> st
      | Some oe \<Rightarrow>
          (case nonempty (m_order_id m) of
             Some oid \<Rightarrow> if oid \<noteq> my_id then st else (case fire oe st of Inl _ \<Rightarrow> st | Inr st' \<Rightarrow> st')
           | None \<Rightarrow> (case fire oe st of Inl _ \<Rightarrow> st | Inr st' \<Rightarrow> st')))"

text \<open>\<open>OrderApp.launch\<close>: the order publishes itself; a failed publish is swallowed.\<close>

definition order_launch ::
    "(order_event \<Rightarrow> order_state \<Rightarrow> sm_error + order_state) \<Rightarrow> order_state \<Rightarrow> order_state" where
  "order_launch fire st = (case fire OPublish st of Inl _ \<Rightarrow> st | Inr st' \<Rightarrow> st')"

text \<open>The truck's handlers for facility messages and for a cancelled order.\<close>

fun truck_handler :: "wf_event \<Rightarrow> haul_event option" where
  "truck_handler GATE_SLOT_ASSIGNED_FOR_PICKUP = Some HEnterPickupGate"
| "truck_handler PICKUP_GATE_SERVICE_COMPLETED = Some HFinishPickupService"
| "truck_handler GATE_SLOT_ASSIGNED_FOR_DROPOFF = Some HEnterDropoffGate"
| "truck_handler DROPOFF_GATE_SERVICE_COMPLETED = Some HFinishDropoffService"
| "truck_handler ORDER_CANCELLED = Some HCancel"
| "truck_handler _ = None"

text \<open>The truck's handlers for the state it finds itself in; \<open>at_pickup\<close> is whether it stands at the pickup.\<close>

fun truck_state_handler :: "bool \<Rightarrow> haul_state \<Rightarrow> haul_event option" where
  "truck_state_handler at_pickup HAssigned =
     Some (if at_pickup then HArrivePickupQueue else HStartEmptyReposition)"
| "truck_state_handler at_pickup HRepositioning = Some HArrivePickupQueue"
| "truck_state_handler at_pickup HLoadedInTransit = Some HArriveDropoffQueue"
| "truck_state_handler at_pickup _ = None"

section \<open>A haul trip and its order together\<close>

text \<open>The \<open>order_id\<close> entry of the context each trip-manager method passes.\<close>

definition trip_context :: "trip_doc \<Rightarrow> haul_event \<Rightarrow> string option option" where
  "trip_context trip tr = (if tr = HAssign then Some (trip_order trip) else None)"

definition deliver_to_order ::
    "(order_event \<Rightarrow> order_state \<Rightarrow> sm_error + order_state) \<Rightarrow> string \<Rightarrow> string
     \<Rightarrow> (string \<times> wf_message) option \<Rightarrow> order_state \<Rightarrow> order_state" where
  "deliver_to_order fire run my_id pub st =
     (case pub of
        None \<Rightarrow> st
      | Some (topic, m) \<Rightarrow> if topic = topic_of run my_id then order_on_message fire my_id m st else st)"

inductive trip_order_run ::
    "(haul_event \<Rightarrow> haul_state \<Rightarrow> sm_error + haul_state) \<Rightarrow>
     (order_event \<Rightarrow> order_state \<Rightarrow> sm_error + order_state) \<Rightarrow>
     (string \<Rightarrow> string option) \<Rightarrow> trip_manager \<Rightarrow> trip_doc \<Rightarrow> string \<Rightarrow>
     haul_state \<Rightarrow> order_state \<Rightarrow> bool"
  for fire_h fire_o lookup mgr trip my_id
where
  start: "trip_order_run fire_h fire_o lookup mgr trip my_id HCreated (order_launch fire_o OCreated)"
| advance: "trip_order_run fire_h fire_o lookup mgr trip my_id h st \<Longrightarrow> fire_h e h = Inr h' \<Longrightarrow>
     trip_order_run fire_h fire_o lookup mgr trip my_id h'
       (deliver_to_order fire_o (tm_run_id mgr) my_id
          (post_transition_hook lookup mgr trip e (trip_context trip e)) st)"

text \<open>The order state that belongs to a haul state.\<close>

fun order_view :: "haul_state \<Rightarrow> order_state" where
  "order_view HCreated = OUnassigned"
| "order_view HAssigned = OAssigned"
| "order_view HRepositioning = OAssigned"
| "order_view HQueuedPickup = OAssigned"
| "order_view HAtPickupGate = OPickupInProgress"
| "order_view HLoadedInTransit = OInTransit"
| "order_view HQueuedDropoff = OInTransit"
| "order_view HAtDropoffGate = ODropoffInProgress"
| "order_view HCompleted = OCompleted"
| "order_view HCancelled = OCancelled"

text \<open>The order event a haul transition asks for, if any.\<close>

fun order_event_of :: "haul_event \<Rightarrow> order_event option" where
  "order_event_of HAssign = Some OAssign"
| "order_event_of HEnterPickupGate = Some OPickupStarted"
| "order_event_of HFinishPickupService = Some OPickupDone"
| "order_event_of HEnterDropoffGate = Some ODropoffStarted"
| "order_event_of HFinishDropoffService = Some ODeliver"
| "order_event_of HCancel = Some OCancel"
| "order_event_of _ = None"

text \<open>What a published message does to the order that owns the topic.\<close>

lemma deliver_hook:
  assumes "trip_order trip = Some my_id" "my_id \<noteq> []" "tm_has_messenger mgr"
    "tm_order_events_topic mgr = None"
  shows "deliver_to_order fire (tm_run_id mgr) my_id
           (post_transition_hook lookup mgr trip e (trip_context trip e)) st =
         (case order_event_of e of
            None \<Rightarrow> st | Some oe \<Rightarrow> (case fire oe st of Inl _ \<Rightarrow> st | Inr st' \<Rightarrow> st'))"
  using assms
  by (cases e) (auto simp: deliver_to_order_def post_transition_hook_def haultrip_order_interactions_def
      haultrip_gate_interactions_def mqtt_topic_for_workflow_event_def message_template_def
      merge_context_def order_on_message_def nonempty_def trip_context_def topic_of_def
      split: option.splits sum.splits)

lemma order_follows_haul:
  "(e, h, h') \<in> set haul_transitions \<Longrightarrow>
     (case order_event_of e of
        None \<Rightarrow> order_view h' = order_view h
      | Some oe \<Rightarrow> (oe, order_view h, order_view h') \<in> set order_transitions)"
  by (auto simp: haul_transitions_def order_transitions_def)

section \<open>Complete hauls\<close>

text \<open>The event sequences that take a haul from a given state to \<open>completed\<close>.\<close>

abbreviation gate_visits :: "haul_event list" where
  "gate_visits \<equiv> [HEnterPickupGate, HFinishPickupService, HArriveDropoffQueue, HEnterDropoffGate,
                  HFinishDropoffService]"

fun completions :: "haul_state \<Rightarrow> haul_event list list" where
  "completions HCompleted = [[]]"
| "completions HCancelled = []"
| "completions HAtDropoffGate = [drop 4 gate_visits]"
| "completions HQueuedDropoff = [drop 3 gate_visits]"
| "completions HLoadedInTransit = [drop 2 gate_visits]"
| "completions HAtPickupGate = [drop 1 gate_visits]"
| "completions HQueuedPickup = [gate_visits]"
| "completions HRepositioning = [HArrivePickupQueue # gate_visits]"
| "completions HAssigned = [HArrivePickupQueue # gate_visits,
     HStartEmptyReposition # HArrivePickupQueue # gate_visits]"
| "completions HCreated = [HAssign # HArrivePickupQueue # gate_visits,
     HAssign # HStartEmptyReposition # HArrivePickupQueue # gate_visits]"

lemma completion_runs:
  assumes "statechart haul_transitions fire"
  shows "sm_run fire es s = Inr HCompleted \<longleftrightarrow> es \<in> set (completions s)"
proof (induction es arbitrary: s)
  case Nil
  show ?case by (cases s) auto
next
  case (Cons e es)
  show ?case
    unfolding statechart.run_Cons [OF assms] Cons.IH
    by (cases s) (auto simp: haul_transitions_def)
qed

text \<open>
  A haul trip created by the truck is completed by exactly two sequences of events: it is
  assigned, drives empty to the pickup or starts at the pickup queue, and then passes the pickup
  queue, the pickup gate, the loaded leg, the dropoff queue and the dropoff gate in that order.
\<close>

theorem haul_complete_sequences:
  assumes "statechart haul_transitions fire"
  shows "sm_run fire es HCreated = Inr HCompleted \<longleftrightarrow>
    es \<in> {[HAssign, HArrivePickupQueue, HEnterPickupGate, HFinishPickupService,
            HArriveDropoffQueue, HEnterDropoffGate, HFinishDropoffService],
           [HAssign, HStartEmptyReposition, HArrivePickupQueue, HEnterPickupGate,
            HFinishPickupService, HArriveDropoffQueue, HEnterDropoffGate, HFinishDropoffService]}"
  unfolding completion_runs [OF assms] by simp

theorem haul_complete_sequences_witness:
  "sm_run (sm_send haul_transitions) [HAssign, HArrivePickupQueue, HEnterPickupGate,
     HFinishPickupService, HArriveDropoffQueue, HEnterDropoffGate, HFinishDropoffService] HCreated
   = Inr HCompleted"
  unfolding haul_complete_sequences [OF haulsm.statechart_axioms] by simp

text \<open>
  C4. The order follows its haul trip. In per-order topic mode, with a messenger, whatever sequence
  of transitions the haul trip has taken, the order agent that received the published messages is
  in the order state belonging to the haul state; and a haul transition that notifies the order
  asks it for a transition its state machine accepts, so no notification is ever rejected.
\<close>

theorem order_tracks_haul_trip:
  assumes "trip_order_run fire_h fire_o lookup mgr trip my_id h st"
    and "statechart haul_transitions fire_h" and "statechart order_transitions fire_o"
    and "trip_order trip = Some my_id" "my_id \<noteq> []" "tm_has_messenger mgr"
      "tm_order_events_topic mgr = None"
  shows "st = order_view h \<and>
    (\<forall>e h' oe. fire_h e h = Inr h' \<and> order_event_of e = Some oe \<longrightarrow> fire_o oe st = Inr (order_view h'))"
proof -
  have step: "case order_event_of e of None \<Rightarrow> order_view k' = order_view k
      | Some oe \<Rightarrow> fire_o oe (order_view k) = Inr (order_view k')" if "fire_h e k = Inr k'" for e k k'
    using order_follows_haul [of e k k'] that
    by (auto simp: statechart.fire_iff [OF assms(2)] statechart.fire_iff [OF assms(3)] split: option.splits)
  from assms(1) have "st = order_view h"
  proof (induction rule: trip_order_run.induct)
    case start
    have "fire_o OPublish OCreated = Inr OUnassigned"
      using statechart.fire_declared [OF assms(3)] by (simp add: order_transitions_def)
    then show ?case by (simp add: order_launch_def)
  next
    case (advance h st e h')
    with step [OF advance(2)] show ?case
      by (simp add: deliver_hook [OF assms(4-7)] split: option.splits)
  qed
  then show ?thesis using step by (fastforce split: option.splits)
qed

theorem order_tracks_haul_trip_witness:
  "let mgr = \<lparr>tm_run_id = ''r1'', tm_order_events_topic = None, tm_has_messenger = True\<rparr>;
       trip = \<lparr>trip_order = Some ''o1'', trip_truck = Some ''t1'', pickup_facility_resource_id = Some ''f1'',
               dropoff_facility_resource_id = Some ''f2'', pickup_facility_name = None,
               dropoff_facility_name = None\<rparr>
   in \<exists>st. trip_order_run (sm_send haul_transitions) (sm_send order_transitions) (\<lambda>_. None)
            mgr trip ''o1'' HAssigned st \<and> st = OAssigned"
proof -
  define mgr where "mgr = \<lparr>tm_run_id = ''r1'', tm_order_events_topic = None, tm_has_messenger = True\<rparr>"
  define trip where "trip = \<lparr>trip_order = Some ''o1'', trip_truck = Some ''t1'',
    pickup_facility_resource_id = Some ''f1'', dropoff_facility_resource_id = Some ''f2'',
    pickup_facility_name = None, dropoff_facility_name = None\<rparr>"
  have fire: "sm_send haul_transitions HAssign HCreated = Inr HAssigned"
    by (rule haulsm.fire_declared) (simp add: haul_transitions_def)
  obtain st where run: "trip_order_run (sm_send haul_transitions) (sm_send order_transitions) (\<lambda>_. None)
      mgr trip ''o1'' HAssigned st"
    using trip_order_run.advance [where fire_h = "sm_send haul_transitions" and e = HAssign and h = HCreated
        and h' = HAssigned, OF trip_order_run.start fire] by blast
  have "st = order_view HAssigned"
    using order_tracks_haul_trip [OF run haulsm.statechart_axioms ordersm.statechart_axioms]
    by (simp add: mgr_def trip_def)
  with run show ?thesis by (auto simp: mgr_def trip_def Let_def)
qed

end
