(* ===== verification/Facility_Agent.thy ===== *)
theory Facility_Agent
  imports Facility_Queue Trip_Workflow
begin

text \<open>
  The facility agent: service times (\<open>facility/service_time.py\<close>), the facility manager
  (\<open>facility/manager.py\<close>), arrival messages (\<open>facility/haultrip_interaction_mixin.py\<close>) and the agent's
  step (\<open>facility/app.py\<close>). Times are seconds; the REST resource, the snapshot stream and the KPI patch
  have no effect on gates or messages and are left out.
\<close>

section \<open>Service time\<close>

text \<open>\<open>int(val)\<close> inside \<open>try\<close>: a TypeError or ValueError falls through, anything else escapes.\<close>

fun try_int :: "pyval \<Rightarrow> py_error + int option" where
  "try_int v =
     (if v = PyNone then Inr None
      else case py_int v of
        Inr i \<Rightarrow> Inr (Some i)
      | Inl TypeError \<Rightarrow> Inr None
      | Inl ValueError \<Rightarrow> Inr None
      | Inl e \<Rightarrow> Inl e)"

fun first_int :: "pyval list \<Rightarrow> py_error + int option" where
  "first_int [] = Inr None"
| "first_int (v # vs) =
     (case try_int v of
        Inl e \<Rightarrow> Inl e
      | Inr (Some i) \<Rightarrow> Inr (Some i)
      | Inr None \<Rightarrow> first_int vs)"

fun all_ints :: "pyval list \<Rightarrow> py_error + int list" where
  "all_ints [] = Inr []"
| "all_ints (v # vs) =
     (case try_int v of
        Inl e \<Rightarrow> Inl e
      | Inr r \<Rightarrow>
          (case all_ints vs of
             Inl e \<Rightarrow> Inl e
           | Inr is \<Rightarrow> Inr ((case r of None \<Rightarrow> [] | Some i \<Rightarrow> [i]) @ is)))"

text \<open>The two stages of the resolution, once the profile is known.\<close>

definition service_time_from :: "(string, pyval) dict \<Rightarrow> (string, pyval) dict \<Rightarrow> py_error + int" where
  "service_time_from b p =
     (case first_int [py_get b ''service_time'', py_get p ''service_time''] of
        Inl e \<Rightarrow> Inl e
      | Inr (Some i) \<Rightarrow> Inr (max 0 i)
      | Inr None \<Rightarrow>
          (case all_ints [py_get b ''pickup_service_time'', py_get b ''dropoff_service_time'',
                          py_get p ''pickup_service_time'', py_get p ''dropoff_service_time''] of
             Inl e \<Rightarrow> Inl e
           | Inr legacy \<Rightarrow> Inr (if legacy \<noteq> [] then max 0 (Max (set legacy)) else 0)))"

definition resolve_service_time ::
    "(string, pyval) dict option \<Rightarrow> (string, pyval) dict option \<Rightarrow> py_error + int" where
  "resolve_service_time behavior profile =
     (let b = (case behavior of None \<Rightarrow> [] | Some d \<Rightarrow> d) in
      case (if profile \<noteq> None \<and> profile \<noteq> Some [] then profile
            else if truthy (py_get b ''profile'') then as_dict (py_get b ''profile'')
            else Some []) of
        None \<Rightarrow> Inl AttributeError
      | Some p \<Rightarrow> service_time_from b p)"

section \<open>State\<close>

record gate_message =
  gm_truck_id :: string
  gm_event :: wf_event
  gm_gate_index :: nat
  gm_service_time :: int
  gm_visit_type :: visit_type

record facility_agent =
  fa_ctrl :: controller
  fa_gate_assignments :: "(nat, queue_entry) dict"
  fa_service_ends :: "(nat, int) dict"
  fa_now :: "int option"
  fa_inbox :: "wf_message list"
  fa_outbox :: "gate_message list"

section \<open>Operations\<close>

definition gate_event_for_visit :: "visit_type \<Rightarrow> bool \<Rightarrow> wf_event" where
  "gate_event_for_visit v assigned =
     (if v = Pickup
      then (if assigned then GATE_SLOT_ASSIGNED_FOR_PICKUP else PICKUP_GATE_SERVICE_COMPLETED)
      else (if assigned then GATE_SLOT_ASSIGNED_FOR_DROPOFF else DROPOFF_GATE_SERVICE_COMPLETED))"

definition gate_message_for :: "int \<Rightarrow> bool \<Rightarrow> nat \<Rightarrow> queue_entry \<Rightarrow> gate_message" where
  "gate_message_for service_time assigned i e =
     \<lparr>gm_truck_id = qe_truck_id e, gm_event = gate_event_for_visit (qe_visit_type e) assigned,
      gm_gate_index = i, gm_service_time = service_time, gm_visit_type = qe_visit_type e\<rparr>"

definition enqueue_arrival :: "string \<Rightarrow> visit_type \<Rightarrow> facility_agent \<Rightarrow> facility_agent" where
  "enqueue_arrival t v a = a\<lparr>fa_ctrl := enqueue_truck t v (fa_ctrl a)\<rparr>"

text \<open>The arrival handlers; other events have no handler. Parsing drops a message without truck.\<close>

definition facility_on_message :: "wf_message \<Rightarrow> facility_agent \<Rightarrow> facility_agent" where
  "facility_on_message m a =
     (if m_action m \<noteq> FACILITY_WORKFLOW_EVENT then a
      else case m_truck_id m of
        None \<Rightarrow> a
      | Some t \<Rightarrow>
          (case m_event m of
             TRUCK_ARRIVED_PICKUP_QUEUE \<Rightarrow> enqueue_arrival t Pickup a
           | TRUCK_ARRIVED_DROPOFF_QUEUE \<Rightarrow> enqueue_arrival t Dropoff a
           | _ \<Rightarrow> a))"

definition consume_messages :: "facility_agent \<Rightarrow> facility_agent" where
  "consume_messages a = (fold facility_on_message (fa_inbox a) a)\<lparr>fa_inbox := []\<rparr>"

text \<open>The loop body of \<open>_allocate_gates\<close> for one assignment.\<close>

definition start_service :: "int \<Rightarrow> nat \<times> queue_entry \<Rightarrow> facility_agent \<Rightarrow> facility_agent" where
  "start_service service_time = (\<lambda>(i, e) a.
     a\<lparr>fa_service_ends := (case fa_now a of
          Some t \<Rightarrow> if service_time > 0 then AList.update i (t + service_time) (fa_service_ends a)
                    else fa_service_ends a
        | None \<Rightarrow> fa_service_ends a),
       fa_outbox := fa_outbox a @ [gate_message_for service_time True i e]\<rparr>)"

definition allocate_gates :: "gate_fire \<Rightarrow> int \<Rightarrow> facility_agent \<Rightarrow> facility_error + facility_agent" where
  "allocate_gates fire service_time a =
     (case assign_available_gates fire (fa_ctrl a) of
        Inl x \<Rightarrow> Inl x
      | Inr (c, out) \<Rightarrow>
          Inr (fold (start_service service_time) out
                 (a\<lparr>fa_ctrl := c,
                    fa_gate_assignments := fold (\<lambda>(i, e). AList.update i e) out (fa_gate_assignments a)\<rparr>)))"

text \<open>
  Manager and agent together: the controller releases the gate; when its slot was empty the
  manager's own record is used instead; the service end is dropped and the truck is told.
\<close>

definition complete_gate_service ::
    "gate_fire \<Rightarrow> int \<Rightarrow> nat \<Rightarrow> facility_agent \<Rightarrow> facility_error + facility_agent" where
  "complete_gate_service fire service_time i a =
     (case release_gate fire (int i) (fa_ctrl a) of
        Inl x \<Rightarrow> Inl x
      | Inr (c, r) \<Rightarrow>
          (let entry = (case r of None \<Rightarrow> map_of (fa_gate_assignments a) i | Some e \<Rightarrow> Some e);
               a' = a\<lparr>fa_ctrl := c, fa_gate_assignments := AList.delete i (fa_gate_assignments a),
                      fa_service_ends := AList.delete i (fa_service_ends a)\<rparr>
           in Inr (case entry of
                None \<Rightarrow> a'
              | Some e \<Rightarrow> a'\<lparr>fa_outbox := fa_outbox a' @ [gate_message_for service_time False i e]\<rparr>)))"

fun complete_all ::
    "gate_fire \<Rightarrow> int \<Rightarrow> nat list \<Rightarrow> facility_agent \<Rightarrow> facility_error + facility_agent" where
  "complete_all fire service_time [] a = Inr a"
| "complete_all fire service_time (i # is) a =
     (case complete_gate_service fire service_time i a of
        Inl x \<Rightarrow> Inl x
      | Inr a' \<Rightarrow> complete_all fire service_time is a')"

definition due_gates :: "int \<Rightarrow> facility_agent \<Rightarrow> nat list" where
  "due_gates t a = map fst (filter (\<lambda>(i, end_time). end_time \<le> t) (fa_service_ends a))"

definition perform_workflow_actions ::
    "gate_fire \<Rightarrow> int \<Rightarrow> facility_agent \<Rightarrow> facility_error + facility_agent" where
  "perform_workflow_actions fire service_time a =
     (case allocate_gates fire service_time a of
        Inl x \<Rightarrow> Inl x
      | Inr a1 \<Rightarrow>
          (case fa_now a1 of
             None \<Rightarrow> Inr a1
           | Some t \<Rightarrow>
               (let due = due_gates t a1 in
                case complete_all fire service_time due a1 of
                  Inl x \<Rightarrow> Inl x
                | Inr a2 \<Rightarrow> if due \<noteq> [] then allocate_gates fire service_time a2 else Inr a2)))"

text \<open>One step of the agent; \<open>late\<close> are the messages that arrive while it acts.\<close>

definition execute_step_actions ::
    "gate_fire \<Rightarrow> int \<Rightarrow> int \<Rightarrow> wf_message list \<Rightarrow> facility_agent \<Rightarrow> facility_error + facility_agent" where
  "execute_step_actions fire service_time t late a =
     (case perform_workflow_actions fire service_time (consume_messages (a\<lparr>fa_now := Some t\<rparr>)) of
        Inl x \<Rightarrow> Inl x
      | Inr a' \<Rightarrow> Inr (consume_messages (a'\<lparr>fa_inbox := fa_inbox a' @ late\<rparr>)))"

definition has_pending_gate_work :: "facility_agent \<Rightarrow> bool" where
  "has_pending_gate_work a \<longleftrightarrow>
     fa_inbox a \<noteq> [] \<or> fc_queue (fa_ctrl a) \<noteq> [] \<or> active_truck_ids (fa_ctrl a) \<noteq> {} \<or> fa_service_ends a \<noteq> []"

text \<open>A new agent after \<open>launch\<close>: the manager's controller, opened.\<close>

definition launch_facility :: "gate_fire \<Rightarrow> int \<Rightarrow> facility_error + facility_agent" where
  "launch_facility fire gate_count =
     (case new_controller gate_count of
        Inl x \<Rightarrow> Inl x
      | Inr c \<Rightarrow>
          (case open_facility fire c of
             Inl x \<Rightarrow> Inl x
           | Inr c' \<Rightarrow> Inr \<lparr>fa_ctrl = c', fa_gate_assignments = [], fa_service_ends = [], fa_now = None,
                             fa_inbox = [], fa_outbox = []\<rparr>))"

section \<open>The invariant of a facility with a positive service time\<close>

text \<open>
  The manager's record agrees with the controller, every served gate has an end of service, and no
  end lies more than one service time ahead of the clock.
\<close>

definition fa_ok :: "int \<Rightarrow> facility_agent \<Rightarrow> bool" where
  "fa_ok service_time a \<longleftrightarrow>
     fc_ok (fa_ctrl a) \<and> fc_state (fa_ctrl a) = FOpen \<and>
     distinct (map fst (fa_service_ends a)) \<and>
     map_of (fa_gate_assignments a) = fc_serving (fa_ctrl a) \<and>
     dom (map_of (fa_service_ends a)) = dom (fc_serving (fa_ctrl a)) \<and>
     (\<forall>i end_time. map_of (fa_service_ends a) i = Some end_time \<longrightarrow>
        (\<exists>t. fa_now a = Some t \<and> end_time \<le> t + service_time))"

section \<open>Lemmas\<close>

lemma on_message_frame:
  "fc_ok (fa_ctrl (facility_on_message m a)) = fc_ok (fa_ctrl a)"
  "fc_state (fa_ctrl (facility_on_message m a)) = fc_state (fa_ctrl a)"
  "fc_serving (fa_ctrl (facility_on_message m a)) = fc_serving (fa_ctrl a)"
  "fc_gates (fa_ctrl (facility_on_message m a)) = fc_gates (fa_ctrl a)"
  "fa_gate_assignments (facility_on_message m a) = fa_gate_assignments a"
  "fa_service_ends (facility_on_message m a) = fa_service_ends a"
  "fa_now (facility_on_message m a) = fa_now a"
  "fa_outbox (facility_on_message m a) = fa_outbox a"
  by (auto simp: facility_on_message_def enqueue_arrival_def enqueue_truck_def fc_ok_def fc_serving_def
      fun_eq_iff split: option.splits wf_event.splits)

lemma fold_on_message_frame:
  "fc_ok (fa_ctrl (fold facility_on_message ms a)) = fc_ok (fa_ctrl a)"
  "fc_state (fa_ctrl (fold facility_on_message ms a)) = fc_state (fa_ctrl a)"
  "fc_serving (fa_ctrl (fold facility_on_message ms a)) = fc_serving (fa_ctrl a)"
  "fc_gates (fa_ctrl (fold facility_on_message ms a)) = fc_gates (fa_ctrl a)"
  "fa_gate_assignments (fold facility_on_message ms a) = fa_gate_assignments a"
  "fa_service_ends (fold facility_on_message ms a) = fa_service_ends a"
  "fa_now (fold facility_on_message ms a) = fa_now a"
  "fa_outbox (fold facility_on_message ms a) = fa_outbox a"
  by (induction ms arbitrary: a) (simp_all add: on_message_frame)

lemmas consume_frame [queue_simps] = fold_on_message_frame

lemma consume_fields [queue_simps]:
  "fc_ok (fa_ctrl (consume_messages a)) = fc_ok (fa_ctrl a)"
  "fc_state (fa_ctrl (consume_messages a)) = fc_state (fa_ctrl a)"
  "fc_serving (fa_ctrl (consume_messages a)) = fc_serving (fa_ctrl a)"
  "fc_gates (fa_ctrl (consume_messages a)) = fc_gates (fa_ctrl a)"
  "fa_gate_assignments (consume_messages a) = fa_gate_assignments a"
  "fa_service_ends (consume_messages a) = fa_service_ends a"
  "fa_now (consume_messages a) = fa_now a"
  "fa_outbox (consume_messages a) = fa_outbox a"
  by (simp_all add: consume_messages_def consume_frame)

lemma fa_ok_consume: "fa_ok st (consume_messages a) = fa_ok st a"
  by (simp add: fa_ok_def queue_simps)

lemma fa_ok_outbox [queue_simps]: "fa_ok st (a\<lparr>fa_outbox := out\<rparr>) = fa_ok st a"
  by (simp add: fa_ok_def)

lemma fold_start_service:
  "fold (start_service st) out a =
     a\<lparr>fa_service_ends := (case fa_now a of
          Some t \<Rightarrow> if st > 0 then fold (\<lambda>(i, e). AList.update i (t + st)) out (fa_service_ends a)
                    else fa_service_ends a
        | None \<Rightarrow> fa_service_ends a),
       fa_outbox := fa_outbox a @ map (\<lambda>(i, e). gate_message_for st True i e) out\<rparr>"
  by (induction out arbitrary: a) (auto simp: start_service_def split: option.splits)

lemma map_of_fold_const:
  "map_of (fold (\<lambda>(i, e). AList.update i v) out d) j = (if j \<in> fst ` set out then Some v else map_of d j)"
  by (induction out arbitrary: d) auto

lemma map_of_fold_upd:
  "distinct (map fst out) \<Longrightarrow> map_of (fold (\<lambda>(i, e). AList.update i e) out d) j =
     (case map_of out j of None \<Rightarrow> map_of d j | Some e \<Rightarrow> Some e)"
proof (induction out arbitrary: d)
  case (Cons p out)
  obtain i e where p: "p = (i, e)" by (cases p)
  with Cons.prems have i: "map_of out i = None" by (simp add: map_of_eq_None_iff)
  show ?case using Cons.IH [of "AList.update i e d"] Cons.prems i p
    by (cases "j = i") (simp_all split: option.split)
qed simp

lemma distinct_fold_const:
  "distinct (map fst d) \<Longrightarrow> distinct (map fst (fold (\<lambda>(i, e). AList.update i v) out d))"
  by (induction out arbitrary: d) (auto simp: distinct_update)

lemma serving_range:
  assumes "fc_ok c" and "fc_serving c i = Some e" shows "i < length (fc_gates c)"
proof -
  have "map_of (fc_gate_assignments c) i \<noteq> None" using assms(2) by (auto simp: fc_serving_def split: option.splits)
  then have "i \<in> set (map fst (fc_gate_assignments c))" by (simp add: map_of_eq_None_iff)
  moreover have "map fst (fc_gate_assignments c) = [0..<length (fc_gates c)]" using assms(1) by (simp add: fc_ok_def)
  ultimately show ?thesis by simp
qed

lemma fa_ok_allocate:
  assumes fire: "statechart gate_transitions fire" and ok: "fa_ok st a" and now: "fa_now a = Some t" and st: "0 < st"
  shows "\<exists>a'. allocate_gates fire st a = Inr a' \<and> fa_ok st a' \<and> fa_now a' = Some t \<and>
    (fc_queue (fa_ctrl a') = [] \<or> GAvailable \<notin> set (fc_gates (fa_ctrl a'))) \<and>
    (\<forall>i. map_of (fa_service_ends a') i =
       (case map_of (fa_service_ends a) i of
          Some v \<Rightarrow> Some v
        | None \<Rightarrow> if fc_serving (fa_ctrl a') i = None then None else Some (t + st))) \<and>
    (\<forall>i e. fc_serving (fa_ctrl a) i = Some e \<longrightarrow> fc_serving (fa_ctrl a') i = Some e)"
proof -
  have c: "fc_ok (fa_ctrl a)" "fc_state (fa_ctrl a) = FOpen"
    and agree: "map_of (fa_gate_assignments a) = fc_serving (fa_ctrl a)"
      "dom (map_of (fa_service_ends a)) = dom (fc_serving (fa_ctrl a))"
    using ok by (simp_all add: fa_ok_def)
  obtain c' out where r: "assign_available_gates fire (fa_ctrl a) = Inr (c', out)" "fc_ok c'"
      "distinct (map fst out)" "\<forall>i e. (i, e) \<in> set out \<longrightarrow> i < fc_num_gates (fa_ctrl a) \<and> fc_serving (fa_ctrl a) i = None"
      "fc_serving c' = (\<lambda>i. case map_of out i of None \<Rightarrow> fc_serving (fa_ctrl a) i | Some e \<Rightarrow> Some e)"
    using gate_server.asg_law [OF controller_gate_server [OF fire] c(1)] by blast
  let ?a' = "a\<lparr>fa_ctrl := c', fa_gate_assignments := fold (\<lambda>(i, e). AList.update i e) out (fa_gate_assignments a),
      fa_service_ends := fold (\<lambda>(i, e). AList.update i (t + st)) out (fa_service_ends a),
      fa_outbox := fa_outbox a @ map (\<lambda>(i, e). gate_message_for st True i e) out\<rparr>"
  have eq: "allocate_gates fire st a = Inr ?a'"
    using r(1) now st by (simp add: allocate_gates_def fold_start_service)
  have opn: "fc_state c' = FOpen"
    using r(1) c(2) assign_closed [OF fire c(2)] by (auto simp: Let_def)
  have ends: "map_of (fold (\<lambda>(i, e). AList.update i (t + st)) out (fa_service_ends a)) i =
      (case map_of (fa_service_ends a) i of Some v \<Rightarrow> Some v
       | None \<Rightarrow> if fc_serving c' i = None then None else Some (t + st))" for i
  proof (cases "i \<in> fst ` set out")
    case True
    then obtain e where e: "map_of out i = Some e" by (metis map_of_eq_None_iff not_None_eq)
    with r(4) have "fc_serving (fa_ctrl a) i = None" by (blast dest: map_of_SomeD)
    then have "map_of (fa_service_ends a) i = None" using agree(2) by (metis domIff)
    with True e show ?thesis by (simp add: map_of_fold_const r(5))
  next
    case False
    then have "map_of out i = None" by (simp add: map_of_eq_None_iff)
    with False agree(2) show ?thesis by (simp add: map_of_fold_const r(5) split: option.split) (metis domIff)
  qed
  have dom: "dom (map_of (fold (\<lambda>(i, e). AList.update i (t + st)) out (fa_service_ends a))) = dom (fc_serving c')"
  proof (rule set_eqI)
    fix i
    have "fc_serving (fa_ctrl a) i \<noteq> None \<Longrightarrow> fc_serving c' i \<noteq> None"
      unfolding r(5) by (simp split: option.split)
    then show "i \<in> dom (map_of (fold (\<lambda>(i, e). AList.update i (t + st)) out (fa_service_ends a))) \<longleftrightarrow> i \<in> dom (fc_serving c')"
      using agree(2) by (auto simp: domIff ends set_eq_iff split: option.split)
  qed
  have "fa_ok st ?a'"
    using ok opn r(2) dom distinct_fold_const now
    by (auto simp: fa_ok_def ends map_of_fold_upd [OF r(3)] r(5) agree fun_eq_iff split: option.splits if_splits)
  moreover have "fc_queue c' = [] \<or> GAvailable \<notin> set (fc_gates c')"
    using assign_no_idle_gate [OF fire c(2) r(1)] by blast
  moreover have "fc_serving c' i = Some e" if "fc_serving (fa_ctrl a) i = Some e" for i e
    using that r(4) by (auto simp: r(5) split: option.split dest!: map_of_SomeD)
  ultimately show ?thesis using eq now ends by (auto split: option.split)
qed

lemma fa_ok_complete:
  assumes fire: "statechart gate_transitions fire" and ok: "fa_ok st a" and i: "i < length (fc_gates (fa_ctrl a))"
  shows "\<exists>a'. complete_gate_service fire st i a = Inr a' \<and> fa_ok st a' \<and> fa_now a' = fa_now a \<and>
    fa_service_ends a' = AList.delete i (fa_service_ends a) \<and>
    length (fc_gates (fa_ctrl a')) = length (fc_gates (fa_ctrl a)) \<and>
    fa_outbox a' = fa_outbox a @ (case fc_serving (fa_ctrl a) i of None \<Rightarrow> []
      | Some e \<Rightarrow> [gate_message_for st False i e]) \<and>
    fc_serving (fa_ctrl a') = (fc_serving (fa_ctrl a))(i := None)"
proof -
  have c: "fc_ok (fa_ctrl a)" and agree: "map_of (fa_gate_assignments a) = fc_serving (fa_ctrl a)"
    using ok by (simp_all add: fa_ok_def)
  obtain c' where r: "release_gate fire (int i) (fa_ctrl a) = Inr (c', fc_serving (fa_ctrl a) i)" "fc_ok c'"
      "fc_num_gates c' = fc_num_gates (fa_ctrl a)" "fc_serving c' = (fc_serving (fa_ctrl a))(i := None)"
    using gate_server.rel_law [OF controller_gate_server [OF fire] c] i by (auto simp: fc_num_gates_def)
  have "fc_state c' = fc_state (fa_ctrl a)" using r(1) release_closed [OF fire c i] by auto
  moreover have "distinct (map fst (AList.delete i (fa_service_ends a)))"
    using ok by (simp add: fa_ok_def distinct_delete)
  ultimately have "fa_ok st (a\<lparr>fa_ctrl := c', fa_gate_assignments := AList.delete i (fa_gate_assignments a),
      fa_service_ends := AList.delete i (fa_service_ends a)\<rparr>)"
    using ok r(2) by (simp add: fa_ok_def r(4) delete_conv' del: map_of_eq_Some_iff)
  then show ?thesis
    using r agree by (cases "fc_serving (fa_ctrl a) i") (simp_all add: complete_gate_service_def fc_num_gates_def queue_simps)
qed

text \<open>Completing a list of served gates empties exactly those gates and tells each of their trucks once.\<close>

lemma fa_ok_complete_all:
  assumes fire: "statechart gate_transitions fire"
  shows "fa_ok st a \<Longrightarrow> distinct is \<Longrightarrow> (\<forall>i\<in>set is. fc_serving (fa_ctrl a) i \<noteq> None) \<Longrightarrow>
    \<exists>a'. complete_all fire st is a = Inr a' \<and> fa_ok st a' \<and> fa_now a' = fa_now a \<and>
      map_of (fa_service_ends a') = (map_of (fa_service_ends a)) |` (- set is) \<and>
      fc_serving (fa_ctrl a') = (fc_serving (fa_ctrl a)) |` (- set is) \<and>
      fa_outbox a' = fa_outbox a @ map (\<lambda>i. gate_message_for st False i (the (fc_serving (fa_ctrl a) i))) is"
proof (induction "is" arbitrary: a)
  case (Cons i "is")
  obtain e where e: "fc_serving (fa_ctrl a) i = Some e" using Cons.prems(3) by auto
  have "i < length (fc_gates (fa_ctrl a))" using serving_range [OF _ e] Cons.prems(1) by (simp add: fa_ok_def)
  from fa_ok_complete [OF fire Cons.prems(1) this] e obtain a1 where
      a1: "complete_gate_service fire st i a = Inr a1" "fa_ok st a1" "fa_now a1 = fa_now a"
      "fa_service_ends a1 = AList.delete i (fa_service_ends a)"
      "fa_outbox a1 = fa_outbox a @ [gate_message_for st False i e]"
      "fc_serving (fa_ctrl a1) = (fc_serving (fa_ctrl a))(i := None)"
    by auto
  have "\<forall>j\<in>set is. fc_serving (fa_ctrl a1) j \<noteq> None" using Cons.prems(2,3) a1(6) by auto
  from Cons.IH [OF a1(2) _ this] Cons.prems(2) obtain a2 where a2: "complete_all fire st is a1 = Inr a2" "fa_ok st a2"
      "fa_now a2 = fa_now a1" "map_of (fa_service_ends a2) = (map_of (fa_service_ends a1)) |` (- set is)"
      "fc_serving (fa_ctrl a2) = (fc_serving (fa_ctrl a1)) |` (- set is)"
      "fa_outbox a2 = fa_outbox a1 @ map (\<lambda>j. gate_message_for st False j (the (fc_serving (fa_ctrl a1) j))) is"
    by auto
  have "map (\<lambda>j. gate_message_for st False j (the (fc_serving (fa_ctrl a1) j))) is =
      map (\<lambda>j. gate_message_for st False j (the (fc_serving (fa_ctrl a) j))) is"
    using Cons.prems(2) a1(6) by auto
  then show ?case using a1 a2 e by (auto simp: restrict_map_def fun_eq_iff delete_conv')
qed (simp add: restrict_map_def)

text \<open>Every gate whose service has ended is served, and due gates are listed once.\<close>

lemma due_gates_served:
  assumes "fa_ok st a"
  shows "distinct (due_gates t a)" and "\<forall>i\<in>set (due_gates t a). fc_serving (fa_ctrl a) i \<noteq> None"
    and "i \<in> set (due_gates t a) \<longleftrightarrow> (\<exists>v. map_of (fa_service_ends a) i = Some v \<and> v \<le> t)"
proof -
  have d: "distinct (map fst (fa_service_ends a))" using assms by (simp add: fa_ok_def)
  have "distinct (map fst (filter P (fa_service_ends a)))" for P
    using d by (induction "fa_service_ends a") (simp_all add: distinct_map_filter)
  then show "distinct (due_gates t a)" by (simp add: due_gates_def)
  show iff: "i \<in> set (due_gates t a) \<longleftrightarrow> (\<exists>v. map_of (fa_service_ends a) i = Some v \<and> v \<le> t)" for i
    using d by (force simp: due_gates_def)
  have "dom (map_of (fa_service_ends a)) = dom (fc_serving (fa_ctrl a))" using assms by (simp add: fa_ok_def)
  then show "\<forall>i\<in>set (due_gates t a). fc_serving (fa_ctrl a) i \<noteq> None"
    using iff by (metis domIff option.distinct(1))
qed

lemma allocate_outbox:
  "allocate_gates fire st a = Inr a' \<Longrightarrow> \<exists>ms. fa_outbox a' = fa_outbox a @ ms"
  by (auto simp: allocate_gates_def fold_start_service split: sum.splits)

lemma fa_ok_perform:
  assumes fire: "statechart gate_transitions fire" and ok: "fa_ok st a" and now: "fa_now a = Some t" and st: "0 < st"
  shows "\<exists>a' ms. perform_workflow_actions fire st a = Inr a' \<and> fa_ok st a' \<and> fa_now a' = Some t \<and>
    (fc_queue (fa_ctrl a') = [] \<or> GAvailable \<notin> set (fc_gates (fa_ctrl a'))) \<and>
    (\<forall>i v. map_of (fa_service_ends a') i = Some v \<longrightarrow> t < v) \<and>
    fa_outbox a' = fa_outbox a @ ms \<and>
    (\<forall>i e v. fc_serving (fa_ctrl a) i = Some e \<and> map_of (fa_service_ends a) i = Some v \<and> v \<le> t \<longrightarrow>
       gate_message_for st False i e \<in> set ms)"
proof -
  obtain a1 where a1: "allocate_gates fire st a = Inr a1" "fa_ok st a1" "fa_now a1 = Some t"
      "fc_queue (fa_ctrl a1) = [] \<or> GAvailable \<notin> set (fc_gates (fa_ctrl a1))"
      "\<And>i. map_of (fa_service_ends a1) i = (case map_of (fa_service_ends a) i of Some v \<Rightarrow> Some v
         | None \<Rightarrow> if fc_serving (fa_ctrl a1) i = None then None else Some (t + st))"
      "\<And>i e. fc_serving (fa_ctrl a) i = Some e \<Longrightarrow> fc_serving (fa_ctrl a1) i = Some e"
    using fa_ok_allocate [OF fire ok now st] by blast
  let ?due = "due_gates t a1"
  note due = due_gates_served [OF a1(2), where t = t]
  obtain a2 where a2: "complete_all fire st ?due a1 = Inr a2" "fa_ok st a2" "fa_now a2 = Some t"
      "map_of (fa_service_ends a2) = (map_of (fa_service_ends a1)) |` (- set ?due)"
      "fa_outbox a2 = fa_outbox a1 @ map (\<lambda>i. gate_message_for st False i (the (fc_serving (fa_ctrl a1) i))) ?due"
    using fa_ok_complete_all [OF fire a1(2) due(1,2)] a1(3) by auto
  have late: "t < v" if "map_of (fa_service_ends a2) i = Some v" for i v
    using that due(3) [of i] unfolding a2(4) by (auto simp: restrict_map_def split: if_splits)
  have told: "gate_message_for st False i e \<in> set (map (\<lambda>i. gate_message_for st False i (the (fc_serving (fa_ctrl a1) i))) ?due)"
    if "fc_serving (fa_ctrl a) i = Some e" "map_of (fa_service_ends a) i = Some v" "v \<le> t" for i e v
    using that a1(5,6) due(3) [of i] by (auto intro!: image_eqI [of _ _ i])
  obtain ms1 where m1: "fa_outbox a1 = fa_outbox a @ ms1" using allocate_outbox [OF a1(1)] by blast
  show ?thesis
  proof (cases "?due = []")
    case True
    then have "a2 = a1" using a2(1) by simp
    moreover have "\<forall>i e v. fc_serving (fa_ctrl a) i = Some e \<and> map_of (fa_service_ends a) i = Some v \<and> v \<le> t \<longrightarrow>
        gate_message_for st False i e \<in> set ms1"
      using told True by fastforce
    ultimately show ?thesis using True a1(1-4) late m1
      by (intro exI [of _ a1] exI [of _ ms1]) (simp add: perform_workflow_actions_def)
  next
    case False
    obtain a3 where a3: "allocate_gates fire st a2 = Inr a3" "fa_ok st a3" "fa_now a3 = Some t"
        "fc_queue (fa_ctrl a3) = [] \<or> GAvailable \<notin> set (fc_gates (fa_ctrl a3))"
        "\<And>i. map_of (fa_service_ends a3) i = (case map_of (fa_service_ends a2) i of Some v \<Rightarrow> Some v
           | None \<Rightarrow> if fc_serving (fa_ctrl a3) i = None then None else Some (t + st))"
      using fa_ok_allocate [OF fire a2(2,3) st] by blast
    obtain ms3 where m3: "fa_outbox a3 = fa_outbox a2 @ ms3" using allocate_outbox [OF a3(1)] by blast
    have "t < v" if "map_of (fa_service_ends a3) i = Some v" for i v
      using that late [of i] st by (auto simp: a3(5) split: option.splits if_splits)
    then show ?thesis using False a1 a2 a3 told m1 m3
      by (intro exI [of _ a3] exI [of _ "ms1 @ map (\<lambda>i. gate_message_for st False i (the (fc_serving (fa_ctrl a1) i))) ?due @ ms3"])
        (auto simp: perform_workflow_actions_def)
  qed
qed

lemma complete_inbox: "complete_gate_service fire st i a = Inr a' \<Longrightarrow> fa_inbox a' = fa_inbox a"
  by (auto simp: complete_gate_service_def Let_def split: sum.splits option.splits)

lemma complete_all_inbox: "complete_all fire st is a = Inr a' \<Longrightarrow> fa_inbox a' = fa_inbox a"
  by (induction fire st "is" a rule: complete_all.induct) (auto split: sum.splits dest: complete_inbox)

lemma allocate_inbox: "allocate_gates fire st a = Inr a' \<Longrightarrow> fa_inbox a' = fa_inbox a"
  by (auto simp: allocate_gates_def fold_start_service split: sum.splits)

lemma perform_inbox: "perform_workflow_actions fire st a = Inr a' \<Longrightarrow> fa_inbox a' = fa_inbox a"
  by (auto simp: perform_workflow_actions_def Let_def split: sum.splits option.splits if_splits
      dest!: allocate_inbox complete_all_inbox)

lemma fa_ok_now: "fa_ok st a \<Longrightarrow> \<forall>t0. fa_now a = Some t0 \<longrightarrow> t0 \<le> t \<Longrightarrow> fa_ok st (a\<lparr>fa_now := Some t\<rparr>)"
  by (fastforce simp: fa_ok_def simp del: map_of_eq_Some_iff)

lemma fa_ok_inbox [queue_simps]: "fa_ok st (a\<lparr>fa_inbox := ms\<rparr>) = fa_ok st a"
  by (simp add: fa_ok_def)

section \<open>Runs of a facility\<close>

text \<open>Launch, then messages arriving at any time and steps of a clock that never goes back.\<close>

inductive fa_reachable :: "gate_fire \<Rightarrow> int \<Rightarrow> facility_agent \<Rightarrow> bool" for fire service_time where
  launched: "launch_facility fire gate_count = Inr a \<Longrightarrow> fa_reachable fire service_time a"
| message: "fa_reachable fire service_time a \<Longrightarrow>
     fa_reachable fire service_time (a\<lparr>fa_inbox := fa_inbox a @ [m]\<rparr>)"
| step: "fa_reachable fire service_time a \<Longrightarrow> \<forall>t0. fa_now a = Some t0 \<longrightarrow> t0 \<le> t \<Longrightarrow>
     execute_step_actions fire service_time t late a = Inr a' \<Longrightarrow> fa_reachable fire service_time a'"

lemma fa_ok_launch:
  assumes "statechart gate_transitions fire" "launch_facility fire gate_count = Inr a" shows "fa_ok st a"
proof -
  obtain c where c: "new_controller gate_count = Inr c" using assms(2) by (auto simp: launch_facility_def split: sum.splits)
  obtain c' where c': "open_facility fire c = Inr c'" "fc_ok c'"
    using fc_ok_open [OF assms(1) fc_ok_new [OF c]] by auto
  then have "fc_state c' = FOpen" by (auto simp: open_facility_def split: sum.splits)
  moreover have "fc_gate_assignments c' = map (\<lambda>i. (i, None)) [0..<nat gate_count]"
    using c c'(1) by (auto simp: new_controller_def open_facility_def split: if_splits sum.splits)
  then have "fc_serving c' i = None" for i
    by (auto simp: fc_serving_def split: option.splits dest!: map_of_SomeD)
  ultimately show ?thesis using assms(2) c c'
    by (auto simp: launch_facility_def fa_ok_def fun_eq_iff)
qed

lemma fa_ok_step:
  assumes fire: "statechart gate_transitions fire" and ok: "fa_ok st a" and clock: "\<forall>t0. fa_now a = Some t0 \<longrightarrow> t0 \<le> t"
    and st: "0 < st"
  shows "\<exists>a' ms. execute_step_actions fire st t late a = Inr a' \<and> fa_ok st a' \<and> fa_now a' = Some t \<and>
    (late = [] \<longrightarrow> fc_queue (fa_ctrl a') = [] \<or> GAvailable \<notin> set (fc_gates (fa_ctrl a'))) \<and>
    (\<forall>i v. map_of (fa_service_ends a') i = Some v \<longrightarrow> t < v) \<and>
    fa_outbox a' = fa_outbox a @ ms \<and>
    (\<forall>i e v. fc_serving (fa_ctrl a) i = Some e \<and> map_of (fa_service_ends a) i = Some v \<and> v \<le> t \<longrightarrow>
       gate_message_for st False i e \<in> set ms)"
proof -
  let ?b = "consume_messages (a\<lparr>fa_now := Some t\<rparr>)"
  have b: "fa_ok st ?b" using fa_ok_now [OF ok clock] by (simp add: fa_ok_consume)
  have inbox: "fa_inbox a' = []" if "perform_workflow_actions fire st ?b = Inr a'" for a'
    using perform_inbox [OF that] by (simp add: consume_messages_def)
  from fa_ok_perform [OF fire b _ st] obtain a' ms where a': "perform_workflow_actions fire st ?b = Inr a'" "fa_ok st a'"
      "fa_now a' = Some t" "fc_queue (fa_ctrl a') = [] \<or> GAvailable \<notin> set (fc_gates (fa_ctrl a'))"
      "\<And>i v. map_of (fa_service_ends a') i = Some v \<Longrightarrow> t < v" "fa_outbox a' = fa_outbox ?b @ ms"
      "\<And>i e v. fc_serving (fa_ctrl ?b) i = Some e \<Longrightarrow> map_of (fa_service_ends ?b) i = Some v \<Longrightarrow> v \<le> t \<Longrightarrow>
       gate_message_for st False i e \<in> set ms"
    by (auto simp: queue_simps)
  let ?c = "consume_messages (a'\<lparr>fa_inbox := fa_inbox a' @ late\<rparr>)"
  have "execute_step_actions fire st t late a = Inr ?c" by (simp add: execute_step_actions_def a'(1))
  moreover have "fa_ok st ?c" using a'(2) by (simp add: fa_ok_consume queue_simps)
  moreover have "fa_ctrl ?c = fa_ctrl a'" if "late = []"
    using that inbox [OF a'(1)] by (simp add: consume_messages_def)
  ultimately show ?thesis using a'(3-7)
    by (intro exI [of _ ?c] exI [of _ ms]) (auto simp: queue_simps)
qed

lemma fa_reachable_ok:
  assumes "fa_reachable fire st a" and "statechart gate_transitions fire" and "0 < st"
  shows "fa_ok st a"
  using assms(1)
proof (induction rule: fa_reachable.induct)
  case (step a t late a')
  from fa_ok_step [OF assms(2) step.IH step.hyps(2) assms(3), of late] step.hyps(3) show ?case by auto
qed (simp_all add: fa_ok_launch [OF assms(2)] queue_simps)

section \<open>Properties\<close>

text \<open>
  C5. A facility with a positive service time, launched on any legal number of gates and stepped
  with a clock that never goes back, never raises. After a step no gate is overdue and none is
  booked beyond one service time, no gate stands free while a truck waits (unless it arrived during the
  step), the agent's own records agree with the controller, and every truck whose service had
  ended is told that its gate service is complete.
\<close>

theorem facility_step_correct:
  assumes "fa_reachable fire st a" and "statechart gate_transitions fire" and "0 < st"
    and "\<forall>t0. fa_now a = Some t0 \<longrightarrow> t0 \<le> t"
  shows "\<exists>a' ms. execute_step_actions fire st t late a = Inr a' \<and> fa_outbox a' = fa_outbox a @ ms \<and>
    (\<forall>i v. map_of (fa_service_ends a') i = Some v \<longrightarrow> t < v \<and> v \<le> t + st) \<and>
    (\<forall>i. (\<exists>v. map_of (fa_service_ends a') i = Some v) \<longleftrightarrow> (\<exists>e. fc_serving (fa_ctrl a') i = Some e)) \<and>
    map_of (fa_gate_assignments a') = fc_serving (fa_ctrl a') \<and>
    (late = [] \<longrightarrow> fc_queue (fa_ctrl a') = [] \<or> GAvailable \<notin> set (fc_gates (fa_ctrl a'))) \<and>
    (\<forall>i e v. fc_serving (fa_ctrl a) i = Some e \<and> map_of (fa_service_ends a) i = Some v \<and> v \<le> t \<longrightarrow>
       gate_message_for st False i e \<in> set ms)"
proof -
  obtain a' ms where r: "execute_step_actions fire st t late a = Inr a'" "fa_ok st a'" "fa_now a' = Some t"
    "late = [] \<longrightarrow> fc_queue (fa_ctrl a') = [] \<or> GAvailable \<notin> set (fc_gates (fa_ctrl a'))"
    "\<forall>i v. map_of (fa_service_ends a') i = Some v \<longrightarrow> t < v" "fa_outbox a' = fa_outbox a @ ms"
    "\<forall>i e v. fc_serving (fa_ctrl a) i = Some e \<and> map_of (fa_service_ends a) i = Some v \<and> v \<le> t \<longrightarrow>
       gate_message_for st False i e \<in> set ms"
    using fa_ok_step [OF assms(2) fa_reachable_ok [OF assms(1-3)] assms(4,3), of late] by (elim exE conjE) (rule that)
  have d: "dom (map_of (fa_service_ends a')) = dom (fc_serving (fa_ctrl a'))"
    and b: "\<forall>i v. map_of (fa_service_ends a') i = Some v \<longrightarrow> v \<le> t + st"
    and m: "map_of (fa_gate_assignments a') = fc_serving (fa_ctrl a')"
    using r(2,3) by (auto simp: fa_ok_def simp del: map_of_eq_Some_iff)
  from d have "(\<exists>v. map_of (fa_service_ends a') i = Some v) \<longleftrightarrow> (\<exists>e. fc_serving (fa_ctrl a') i = Some e)" for i
    by (metis domI domD)
  with r(1,4-7) b m show ?thesis by (intro exI [of _ a'] exI [of _ ms]) (simp del: map_of_eq_Some_iff)
qed

text \<open>A launched facility with one gate.\<close>

definition demo_facility :: facility_agent where
  "demo_facility = \<lparr>fa_ctrl = \<lparr>fc_gate_count = 1, fc_state = FOpen, fc_queue = [],
       fc_gate_assignments = [(0, None)], fc_gates = [GAvailable]\<rparr>,
     fa_gate_assignments = [], fa_service_ends = [], fa_now = None, fa_inbox = [], fa_outbox = []\<rparr>"

lemma demo_facility_reachable: "fa_reachable (sm_send gate_transitions) st demo_facility"
proof (rule fa_reachable.launched [where gate_count = 1])
  have "new_controller 1 = Inr \<lparr>fc_gate_count = 1, fc_state = FClosed, fc_queue = [],
      fc_gate_assignments = [(0, None)], fc_gates = [GClosed]\<rparr>"
    by (simp add: new_controller_def)
  moreover have "open_facility (sm_send gate_transitions) \<lparr>fc_gate_count = 1, fc_state = FClosed, fc_queue = [],
      fc_gate_assignments = [(0, None)], fc_gates = [GClosed]\<rparr> = Inr (fa_ctrl demo_facility)"
    unfolding open_facility_def open_gates_ok [OF gatesm.statechart_axioms] by (simp add: demo_facility_def)
  ultimately show "launch_facility (sm_send gate_transitions) 1 = Inr demo_facility"
    by (simp add: launch_facility_def demo_facility_def)
qed

theorem facility_step_correct_witness:
  "\<exists>a'. execute_step_actions (sm_send gate_transitions) 30 100 [] demo_facility = Inr a' \<and>
     (\<forall>i v. map_of (fa_service_ends a') i = Some v \<longrightarrow> 100 < v \<and> v \<le> 130)"
proof -
  have "\<forall>t0. fa_now demo_facility = Some t0 \<longrightarrow> t0 \<le> 100" by (simp add: demo_facility_def)
  from facility_step_correct [OF demo_facility_reachable gatesm.statechart_axioms _ this, of 30 "[]"] show ?thesis
    by auto
qed

text \<open>The gate cannot be left without an end of service: with no ends recorded nothing is ever due.\<close>

lemma zero_perform:
  assumes fire: "statechart gate_transitions fire" and ok: "fc_ok (fa_ctrl a)" and no: "fa_service_ends a = []"
    and busy: "fc_serving (fa_ctrl a) i = Some e" and st: "st \<le> 0"
  shows "\<exists>a'. perform_workflow_actions fire st a = Inr a' \<and> fc_ok (fa_ctrl a') \<and> fa_service_ends a' = [] \<and>
    fc_serving (fa_ctrl a') i = Some e"
proof -
  obtain c' out where r: "assign_available_gates fire (fa_ctrl a) = Inr (c', out)" "fc_ok c'"
      "\<forall>i e. (i, e) \<in> set out \<longrightarrow> i < fc_num_gates (fa_ctrl a) \<and> fc_serving (fa_ctrl a) i = None"
      "fc_serving c' = (\<lambda>i. case map_of out i of None \<Rightarrow> fc_serving (fa_ctrl a) i | Some e \<Rightarrow> Some e)"
    using gate_server.asg_law [OF controller_gate_server [OF fire] ok] by blast
  have "map_of out i = None" using r(3) busy by (cases "map_of out i") (auto dest!: map_of_SomeD)
  then have "fc_serving c' i = Some e" using r(4) busy by simp
  moreover obtain a1 where a1: "allocate_gates fire st a = Inr a1" "fa_ctrl a1 = c'" "fa_service_ends a1 = []"
    using r(1) no st by (auto simp: allocate_gates_def fold_start_service split: option.split)
  moreover have "due_gates t a1 = []" for t using a1(3) by (simp add: due_gates_def)
  ultimately show ?thesis using r(2) by (simp add: perform_workflow_actions_def split: option.split)
qed

fun run_steps :: "gate_fire \<Rightarrow> int \<Rightarrow> (int \<times> wf_message list) list \<Rightarrow> facility_agent \<Rightarrow> facility_error + facility_agent" where
  "run_steps fire st [] a = Inr a"
| "run_steps fire st ((t, late) # ts) a =
     (case execute_step_actions fire st t late a of Inl x \<Rightarrow> Inl x | Inr a' \<Rightarrow> run_steps fire st ts a')"

text \<open>
  With a service time of zero, which is what the agent uses when none is configured, a truck that
  has been put at a gate is never released: whatever steps follow and whatever messages arrive, the
  gate stays busy with the same truck.
\<close>

theorem zero_service_time_never_releases:
  assumes "statechart gate_transitions fire" and "st \<le> 0" and "fc_ok (fa_ctrl a)"
    and "fa_service_ends a = []" and "fc_serving (fa_ctrl a) i = Some e"
  shows "\<exists>a'. run_steps fire st ts a = Inr a' \<and> fc_serving (fa_ctrl a') i = Some e"
  using assms(3-5)
proof (induction ts arbitrary: a)
  case (Cons p ts)
  obtain t late where p: "p = (t, late)" by (cases p)
  let ?b = "consume_messages (a\<lparr>fa_now := Some t\<rparr>)"
  obtain a1 where a1: "perform_workflow_actions fire st ?b = Inr a1" "fc_ok (fa_ctrl a1)" "fa_service_ends a1 = []"
      "fc_serving (fa_ctrl a1) i = Some e"
    using zero_perform [OF assms(1), of ?b i e st] Cons.prems assms(2) by (auto simp: queue_simps)
  then show ?case using Cons.IH [of "consume_messages (a1\<lparr>fa_inbox := fa_inbox a1 @ late\<rparr>)"]
    by (simp add: p execute_step_actions_def queue_simps)
qed simp

text \<open>A facility with one gate that serves one truck and has no service time.\<close>

definition stuck_facility :: facility_agent where
  "stuck_facility = demo_facility\<lparr>fa_ctrl := \<lparr>fc_gate_count = 1, fc_state = FOpen, fc_queue = [],
       fc_gate_assignments = [(0, Some \<lparr>qe_truck_id = ''t1'', qe_visit_type = Pickup\<rparr>)], fc_gates = [GBusy]\<rparr>\<rparr>"

theorem zero_service_time_never_releases_witness:
  "\<exists>a'. run_steps (sm_send gate_transitions) 0 [(60, []), (120, []), (180, [])] stuck_facility = Inr a' \<and>
     fc_serving (fa_ctrl a') 0 = Some \<lparr>qe_truck_id = ''t1'', qe_visit_type = Pickup\<rparr>"
  by (rule zero_service_time_never_releases [OF gatesm.statechart_axioms])
    (simp_all add: stuck_facility_def demo_facility_def fc_ok_def fc_serving_def)

lemma try_int_errors: "try_int v = Inl x \<Longrightarrow> x = OverflowError"
  by (cases v rule: py_int.cases) (auto split: if_splits pyfloat.splits option.splits)

declare try_int.simps [simp del]

lemma first_int_errors: "first_int vs = Inl x \<Longrightarrow> x = OverflowError"
  by (induction vs) (auto split: sum.splits option.splits dest: try_int_errors)

lemma all_ints_errors: "all_ints vs = Inl x \<Longrightarrow> x = OverflowError"
  by (induction vs) (auto split: sum.splits option.splits dest: try_int_errors)

lemma service_time_from_nonneg: "service_time_from b p = Inr s \<Longrightarrow> 0 \<le> s"
  unfolding service_time_from_def
  by (cases "first_int [py_get b ''service_time'', py_get p ''service_time'']";
      cases "all_ints [py_get b ''pickup_service_time'', py_get b ''dropoff_service_time'',
        py_get p ''pickup_service_time'', py_get p ''dropoff_service_time'']")
    (auto simp del: first_int.simps all_ints.simps split: option.splits if_splits)

lemma service_time_from_error: "service_time_from b p = Inl x \<Longrightarrow> x = OverflowError"
  unfolding service_time_from_def
  by (cases "first_int [py_get b ''service_time'', py_get p ''service_time'']";
      cases "all_ints [py_get b ''pickup_service_time'', py_get b ''dropoff_service_time'',
        py_get p ''pickup_service_time'', py_get p ''dropoff_service_time'']")
    (auto simp del: first_int.simps all_ints.simps split: option.splits if_splits
      dest: first_int_errors all_ints_errors)

lemma resolve_service_time_eq:
  "resolve_service_time (Some b) (Some p) =
     (if p \<noteq> [] then service_time_from b p
      else if truthy (py_get b ''profile'')
        then case as_dict (py_get b ''profile'') of None \<Rightarrow> Inl AttributeError | Some q \<Rightarrow> service_time_from b q
      else service_time_from b [])"
  by (simp add: resolve_service_time_def)

text \<open>
  The service time is never negative, and an explicit integer \<open>service_time\<close> of the behaviour
  wins over the profile and over the legacy keys. The exceptions the resolution swallows are those of
  a value of the wrong type or text; with a profile at hand the only one left is OverflowError, of
  an infinite number.
\<close>

theorem resolve_service_time_spec:
  "(resolve_service_time (Some b) (Some p) = Inr s \<longrightarrow> 0 \<le> s) \<and>
   (py_get b ''service_time'' = PyInt i \<and> p \<noteq> [] \<longrightarrow> resolve_service_time (Some b) (Some p) = Inr (max 0 i)) \<and>
   (p \<noteq> [] \<and> resolve_service_time (Some b) (Some p) = Inl x \<longrightarrow> x = OverflowError)"
proof (intro conjI impI)
  show "0 \<le> s" if "resolve_service_time (Some b) (Some p) = Inr s"
    using that by (auto simp: resolve_service_time_eq split: if_splits option.splits dest: service_time_from_nonneg)
  show "resolve_service_time (Some b) (Some p) = Inr (max 0 i)" if "py_get b ''service_time'' = PyInt i \<and> p \<noteq> []"
    using that by (simp add: resolve_service_time_eq service_time_from_def try_int.simps)
  show "x = OverflowError" if "p \<noteq> [] \<and> resolve_service_time (Some b) (Some p) = Inl x"
    using that by (auto simp: resolve_service_time_eq dest: service_time_from_error)
qed

theorem resolve_service_time_spec_witness:
  "resolve_service_time (Some [(''service_time'', PyInt 30)]) (Some [(''gate_count'', PyInt 2)]) = Inr 30"
  using resolve_service_time_spec [of "[(''service_time'', PyInt 30)]" "[(''gate_count'', PyInt 2)]" 0 30]
  by (simp add: py_get_def)

text \<open>
  C14. The facility and the truck understand each other. The message a trip publishes when it joins a
  pickup or dropoff queue puts exactly that truck, with that visit type, at the end of the queue of the
  facility; the message the facility sends when it gives the truck a gate, and the one when the
  service is done, make the truck fire the haul-trip transitions that lead from the queue through the gate
  to the next leg.
\<close>

theorem gate_handshake:
  assumes "trip_truck trip = Some truck" and "tm_has_messenger mgr"
    and "pickup_facility_resource_id trip = Some pf" and "pf \<noteq> []"
    and "dropoff_facility_resource_id trip = Some df" and "df \<noteq> []"
    and "(arrive, v, queued, at_gate, after) \<in>
      {(HArrivePickupQueue, Pickup, HQueuedPickup, HAtPickupGate, HLoadedInTransit),
       (HArriveDropoffQueue, Dropoff, HQueuedDropoff, HAtDropoffGate, HCompleted)}"
    and "statechart haul_transitions fire"
  shows "\<exists>m enter finish.
    post_transition_hook lookup mgr trip arrive None = Some (topic_of (tm_run_id mgr) (if v = Pickup then pf else df), m) \<and>
    fc_queue (fa_ctrl (facility_on_message m a)) = fc_queue (fa_ctrl a) @ [\<lparr>qe_truck_id = truck, qe_visit_type = v\<rparr>] \<and>
    (\<exists>h. fire arrive h = Inr queued) \<and>
    (\<forall>st i e. qe_visit_type e = v \<longrightarrow>
      truck_handler (gm_event (gate_message_for st True i e)) = Some enter \<and> fire enter queued = Inr at_gate \<and>
      truck_handler (gm_event (gate_message_for st False i e)) = Some finish \<and> fire finish at_gate = Inr after)"
proof -
  note fire = statechart.fire_declared [OF assms(8)]
  have f: "fire HArrivePickupQueue HRepositioning = Inr HQueuedPickup" "fire HEnterPickupGate HQueuedPickup = Inr HAtPickupGate"
    "fire HFinishPickupService HAtPickupGate = Inr HLoadedInTransit" "fire HArriveDropoffQueue HLoadedInTransit = Inr HQueuedDropoff"
    "fire HEnterDropoffGate HQueuedDropoff = Inr HAtDropoffGate" "fire HFinishDropoffService HAtDropoffGate = Inr HCompleted"
    by (rule fire, simp add: haul_transitions_def)+
  from assms(7) consider "(arrive, v, queued, at_gate, after) = (HArrivePickupQueue, Pickup, HQueuedPickup, HAtPickupGate, HLoadedInTransit)"
    | "(arrive, v, queued, at_gate, after) = (HArriveDropoffQueue, Dropoff, HQueuedDropoff, HAtDropoffGate, HCompleted)"
    by blast
  then show ?thesis
  proof cases
    case 1
    with assms(1-6) f show ?thesis
      by (intro exI [of _ "message_template trip TRUCK_ARRIVED_PICKUP_QUEUE"] exI [of _ HEnterPickupGate]
            exI [of _ HFinishPickupService])
        (auto simp: post_transition_hook_def haultrip_order_interactions_def haultrip_gate_interactions_def
          mqtt_topic_for_workflow_event_def message_template_def merge_context_def nonempty_def
          facility_on_message_def enqueue_arrival_def enqueue_truck_def gate_message_for_def gate_event_for_visit_def)
  next
    case 2
    with assms(1-6) f show ?thesis
      by (intro exI [of _ "message_template trip TRUCK_ARRIVED_DROPOFF_QUEUE"] exI [of _ HEnterDropoffGate]
            exI [of _ HFinishDropoffService])
        (auto simp: post_transition_hook_def haultrip_order_interactions_def haultrip_gate_interactions_def
          mqtt_topic_for_workflow_event_def message_template_def merge_context_def nonempty_def
          facility_on_message_def enqueue_arrival_def enqueue_truck_def gate_message_for_def gate_event_for_visit_def)
  qed
qed

theorem gate_handshake_witness:
  "\<exists>m. fc_queue (fa_ctrl (facility_on_message m demo_facility)) = [\<lparr>qe_truck_id = ''t1'', qe_visit_type = Pickup\<rparr>]"
  using gate_handshake [of "\<lparr>trip_order = Some ''o1'', trip_truck = Some ''t1'', pickup_facility_resource_id = Some ''f1'',
      dropoff_facility_resource_id = Some ''f2'', pickup_facility_name = None, dropoff_facility_name = None\<rparr>" "''t1''"
      "\<lparr>tm_run_id = ''r'', tm_order_events_topic = None, tm_has_messenger = True\<rparr>" "''f1''" "''f2''"
      HArrivePickupQueue Pickup HQueuedPickup HAtPickupGate HLoadedInTransit "sm_send haul_transitions" "\<lambda>n. None"
      demo_facility, OF _ _ _ _ _ _ _ haulsm.statechart_axioms]
  by (auto simp: demo_facility_def)

end
