(* ===== verification/Sim_Clock.thy ===== *)
theory Sim_Clock
  imports OR_Prelude
begin

text \<open>
  The clock of a run as text (\<open>apps/utils/utils.py\<close>): \<open>time_to_str\<close> and \<open>str_to_time\<close> with the format
  \<open>'%a, %d %b %Y %H:%M:%S GMT'\<close> of the standard library, in its C locale. Blanks and digits are the ASCII ones.
\<close>

section \<open>Dates\<close>

definition two_digits :: "nat \<Rightarrow> string" where
  "two_digits n = [digit_char (n div 10 mod 10), digit_char (n mod 10)]"

definition four_digits :: "nat \<Rightarrow> string" where
  "four_digits n = two_digits (n div 100) @ two_digits (n mod 100)"

definition month_names :: "string list" where
  "month_names = [''jan'', ''feb'', ''mar'', ''apr'', ''may'', ''jun'', ''jul'', ''aug'', ''sep'', ''oct'', ''nov'', ''dec'']"

definition days_in_month :: "nat \<Rightarrow> nat \<Rightarrow> nat" where
  "days_in_month y m =
     (if m = 2 then (if y mod 4 = 0 \<and> (y mod 100 \<noteq> 0 \<or> y mod 400 = 0) then 29 else 28)
      else if m \<in> {4, 6, 9, 11} then 30 else 31)"

definition is_letter :: "char \<Rightarrow> bool" where
  "is_letter c \<longleftrightarrow> (CHR ''A'' \<le> c \<and> c \<le> CHR ''Z'') \<or> (CHR ''a'' \<le> c \<and> c \<le> CHR ''z'')"

record py_time =
  tm_year :: nat
  tm_month :: nat
  tm_day :: nat
  tm_hour :: nat
  tm_minute :: nat
  tm_second :: nat

text \<open>What the \<open>datetime\<close> class accepts.\<close>

definition time_ok :: "py_time \<Rightarrow> bool" where
  "time_ok t \<longleftrightarrow> 1 \<le> tm_year t \<and> tm_year t \<le> 9999 \<and> 1 \<le> tm_month t \<and> tm_month t \<le> 12 \<and>
     1 \<le> tm_day t \<and> tm_day t \<le> days_in_month (tm_year t) (tm_month t) \<and>
     tm_hour t < 24 \<and> tm_minute t < 60 \<and> tm_second t < 60"

definition day_names :: "string list" where
  "day_names = [''Sun'', ''Mon'', ''Tue'', ''Wed'', ''Thu'', ''Fri'', ''Sat'']"

definition month_labels :: "string list" where
  "month_labels = [''Jan'', ''Feb'', ''Mar'', ''Apr'', ''May'', ''Jun'', ''Jul'', ''Aug'', ''Sep'', ''Oct'', ''Nov'', ''Dec'']"

text \<open>The weekday of a date, Sunday first.\<close>

definition day_of_week :: "nat \<Rightarrow> nat \<Rightarrow> nat \<Rightarrow> nat" where
  "day_of_week year month day =
     (let y = (if month < 3 then year - 1 else year) in
      (y + y div 4 + y div 400 + [0, 3, 2, 5, 0, 3, 5, 1, 4, 6, 2, 4] ! (month - 1) + day + 7 * y - y div 100) mod 7)"

section \<open>Writing\<close>

text \<open>Years below 1000, which the platform does not pad, do not occur in a run and are padded here.\<close>

definition time_to_str :: "py_time \<Rightarrow> string" where
  "time_to_str t =
     day_names ! day_of_week (tm_year t) (tm_month t) (tm_day t) @ '', '' @ two_digits (tm_day t) @ '' '' @
     month_labels ! (tm_month t - 1) @ '' '' @ four_digits (tm_year t) @ '' '' @
     two_digits (tm_hour t) @ '':'' @ two_digits (tm_minute t) @ '':'' @ two_digits (tm_second t) @ '' GMT''"

section \<open>Reading\<close>

text \<open>Each reader consumes a directive of the format and returns the rest of the text.\<close>

definition read_word :: "string list \<Rightarrow> string \<Rightarrow> (nat \<times> string) option" where
  "read_word names s =
     (let w = map lower_char (take 3 s) in
      if w \<in> set (map (map lower_char) names)
      then Some (length (takeWhile (\<lambda>n. map lower_char n \<noteq> w) names), drop 3 s) else None)"

definition read_char :: "char \<Rightarrow> string \<Rightarrow> string option" where
  "read_char c s = (case s of [] \<Rightarrow> None | d # ds \<Rightarrow> if d = c then Some ds else None)"

definition read_blanks :: "string \<Rightarrow> string option" where
  "read_blanks s = (case s of [] \<Rightarrow> None | c # cs \<Rightarrow> if is_blank c then Some (dropWhile is_blank cs) else None)"

definition read_number :: "nat \<Rightarrow> nat \<Rightarrow> string \<Rightarrow> (nat \<times> string) option" where
  "read_number least_digits most_digits s =
     (let ds = takeWhile is_digit s in
      if least_digits \<le> length ds \<and> length ds \<le> most_digits
      then map_option (\<lambda>n. (n, dropWhile is_digit s)) (digits_val 0 ds) else None)"

definition str_to_time :: "string \<Rightarrow> py_time option" where
  "str_to_time s =
     Option.bind (read_word day_names s) (\<lambda>(_, s).
     Option.bind (read_char CHR '','' s) (\<lambda>s.
     Option.bind (read_blanks s) (\<lambda>s.
     Option.bind (read_number 1 2 s) (\<lambda>(day, s).
     Option.bind (read_blanks s) (\<lambda>s.
     Option.bind (read_word month_labels s) (\<lambda>(m, s).
     Option.bind (read_blanks s) (\<lambda>s.
     Option.bind (read_number 4 4 s) (\<lambda>(year, s).
     Option.bind (read_blanks s) (\<lambda>s.
     Option.bind (read_number 1 2 s) (\<lambda>(hour, s).
     Option.bind (read_char CHR '':'' s) (\<lambda>s.
     Option.bind (read_number 1 2 s) (\<lambda>(minute, s).
     Option.bind (read_char CHR '':'' s) (\<lambda>s.
     Option.bind (read_number 1 2 s) (\<lambda>(second, s).
     Option.bind (read_blanks s) (\<lambda>s.
       let t = \<lparr>tm_year = year, tm_month = Suc m, tm_day = day, tm_hour = hour, tm_minute = minute, tm_second = second\<rparr>
       in if map lower_char s = ''gmt'' \<and> time_ok t then Some t else None)))))))))))))))"

section \<open>Lemmas\<close>

lemma digit_char_digit: "d < 10 \<Longrightarrow> is_digit (digit_char d) \<and> of_char (digit_char d) = 48 + (d :: nat)"
  by (simp add: digit_char_def is_digit_def less_eq_char_def)

lemma two_digits_props:
  "length (two_digits n) = 2" "list_all is_digit (two_digits n)"
  "n < 100 \<Longrightarrow> digits_val 0 (two_digits n) = Some n"
  by (simp_all add: two_digits_def digit_char_digit)

lemma four_digits_props: "length (four_digits n) = 4" "list_all is_digit (four_digits n)"
  "n < 10000 \<Longrightarrow> digits_val 0 (four_digits n) = Some n"
  by (simp_all add: four_digits_def two_digits_def digit_char_digit)

lemma letter_not_blank: "is_letter c \<Longrightarrow> \<not> is_blank c"
  by (auto simp: is_letter_def is_blank_def less_eq_char_def)

lemma read_two: "n < 100 \<Longrightarrow> \<not> is_digit c \<Longrightarrow> read_number 1 2 (two_digits n @ c # s) = Some (n, c # s)"
  by (simp add: read_number_def two_digits_def digit_char_digit)

lemma read_four: "n < 10000 \<Longrightarrow> \<not> is_digit c \<Longrightarrow> read_number 4 4 (four_digits n @ c # s) = Some (n, c # s)"
  by (simp add: read_number_def four_digits_def two_digits_def digit_char_digit)

lemma read_gap: "c \<noteq> [] \<Longrightarrow> \<not> is_blank (hd c) \<Longrightarrow> read_blanks (CHR '' '' # c) = Some c"
  by (cases c) (simp_all add: read_blanks_def is_blank_def)

lemma read_listed:
  assumes "i < length names" and "\<forall>n\<in>set names. length n = 3" and "distinct (map (map lower_char) names)"
  shows "read_word names (names ! i @ s) = Some (i, s)"
proof -
  have "takeWhile (\<lambda>n. map lower_char n \<noteq> map lower_char (names ! i)) names = take i names"
  proof (rule takeWhile_eq_take_P_nth)
    show "map lower_char (names ! j) \<noteq> map lower_char (names ! i)" if "j < i" "j < length names" for j
      using that assms(1,3) nth_eq_iff_index_eq [of "map (map lower_char) names" j i] by simp
  qed simp
  moreover have "map lower_char (names ! i) \<in> map lower_char ` set names" using assms(1) by simp
  moreover have "length (names ! i) = 3" using assms(1,2) by simp
  ultimately show ?thesis using assms(1) by (simp add: read_word_def Let_def)
qed

lemma listed_names: "\<forall>n\<in>set day_names. length n = 3" "distinct (map (map lower_char) day_names)"
  "\<forall>n\<in>set month_labels. length n = 3" "distinct (map (map lower_char) month_labels)"
  by (simp_all add: day_names_def month_labels_def lower_char_def less_eq_char_def)

lemma listed_lengths: "length day_names = 7" "length month_labels = 12"
  by (simp_all add: day_names_def month_labels_def)

lemma month_label_head: "i < 12 \<Longrightarrow> month_labels ! i \<noteq> [] \<and> \<not> is_blank (hd (month_labels ! i))"
  by (simp add: month_labels_def is_blank_def nth_Cons' numeral_nat)

lemma digit_not_blank: "is_digit c \<Longrightarrow> \<not> is_blank c"
  by (auto simp: is_digit_def is_blank_def less_eq_char_def)

lemma two_digits_head: "two_digits n \<noteq> []" "\<not> is_blank (hd (two_digits n))"
  by (simp_all add: two_digits_def digit_char_digit digit_not_blank)

lemma four_digits_head: "four_digits n \<noteq> []" "\<not> is_blank (hd (four_digits n))"
  by (simp_all add: four_digits_def two_digits_def digit_char_digit digit_not_blank)

text \<open>Reading what was written gives the time back.\<close>

lemma str_to_time_to_str:
  assumes "time_ok t"
  shows "str_to_time (time_to_str t) = Some t"
proof -
  have "tm_day t < 100" "tm_year t < 10000" "tm_hour t < 100" "tm_minute t < 100" "tm_second t < 100" "tm_month t - 1 < 12"
    "Suc (tm_month t - 1) = tm_month t"
    using assms by (auto simp: time_ok_def days_in_month_def split: if_splits)
  moreover have "day_of_week (tm_year t) (tm_month t) (tm_day t) < 7" by (simp add: day_of_week_def Let_def)
  moreover have "\<not> is_digit CHR '' ''" "\<not> is_digit CHR '':''" by (simp_all add: is_digit_def less_eq_char_def)
  moreover have "read_blanks '' GMT'' = Some ''GMT''" by (simp add: read_blanks_def is_blank_def)
  moreover have "map lower_char ''GMT'' = ''gmt''" by code_simp
  moreover have "time_ok \<lparr>tm_year = tm_year t, tm_month = tm_month t, tm_day = tm_day t, tm_hour = tm_hour t,
      tm_minute = tm_minute t, tm_second = tm_second t\<rparr>"
    using assms by (simp add: time_ok_def)
  ultimately show ?thesis
    using assms
    by (simp add: str_to_time_def time_to_str_def read_listed listed_names listed_lengths read_char_def read_gap read_two [unfolded One_nat_def] read_four
        month_label_head two_digits_head four_digits_head Let_def)
qed

end
