(* ===== verification/Rebate_Pricing.thy ===== *)
theory Rebate_Pricing
  imports Sim_Clock
begin

text \<open>
  Facility rebates (\<open>rebate.py\<close>): the parser of authored price schedules, the one pricing rule, the book of schedules
  and the provenance stamp. A raised \<open>RebateSpecError\<close> is \<open>ValueError\<close>, of which it is a subclass. Time stamps in the form
  the run writes are parsed here; how the standard library reads any other text is the parameter \<open>other_hour\<close>,
  and the text of floats and containers is the parameter \<open>render\<close>.
\<close>

section \<open>Schedules\<close>

definition hours_per_day :: nat where "hours_per_day = 24"

record rebate_schedule =
  rb_amounts :: "real list"
  rb_currency :: string
  rb_missing_hours :: "nat list"

definition make_schedule :: "real list \<Rightarrow> string \<Rightarrow> nat list \<Rightarrow> py_error + rebate_schedule" where
  "make_schedule amounts currency missing =
     (if length amounts \<noteq> hours_per_day then Inl ValueError
      else Inr \<lparr>rb_amounts = amounts, rb_currency = currency, rb_missing_hours = missing\<rparr>)"

definition value_at :: "rebate_schedule \<Rightarrow> int \<Rightarrow> real" where
  "value_at s hour = rb_amounts s ! nat (hour mod int hours_per_day)"

definition is_all_zero :: "rebate_schedule \<Rightarrow> bool" where
  "is_all_zero s = list_all (\<lambda>a. a = 0) (rb_amounts s)"

definition to_points :: "rebate_schedule \<Rightarrow> pyval list" where
  "to_points s = map (\<lambda>h. PyDict [(''hour'', PyInt (int h)), (''amount'', PyFloat (Fin (rb_amounts s ! h)))]) [0..<hours_per_day]"

definition as_block :: "rebate_schedule \<Rightarrow> pyval" where
  "as_block s = PyDict [(''currency'', PyStr (rb_currency s)), (''resolution'', PyStr ''hour''), (''points'', PyList (to_points s))]"

definition zero_schedule :: "string \<Rightarrow> rebate_schedule" where
  "zero_schedule currency = \<lparr>rb_amounts = replicate hours_per_day 0, rb_currency = currency, rb_missing_hours = []\<rparr>"

section \<open>Parsing\<close>

fun coerce_amount :: "pyval \<Rightarrow> py_error + real" where
  "coerce_amount (PyInt i) = (if float_overflows i then Inl OverflowError else Inr (of_int i))"
| "coerce_amount (PyFloat (Fin a)) = Inr a"
| "coerce_amount _ = Inl ValueError"

fun coerce_hour :: "pyval \<Rightarrow> py_error + nat" where
  "coerce_hour (PyInt i) = (if 0 \<le> i \<and> i \<le> int hours_per_day - 1 then Inr (nat i) else Inl ValueError)"
| "coerce_hour _ = Inl ValueError"

definition point_amount :: "(string, pyval) dict \<Rightarrow> py_error + real" where
  "point_amount p =
     (case (map_of p ''amount'', map_of p ''weight'') of
        (Some _, Some _) \<Rightarrow> Inl ValueError
      | (None, None) \<Rightarrow> Inl ValueError
      | (Some a, None) \<Rightarrow> coerce_amount a
      | (None, Some w) \<Rightarrow> coerce_amount w)"

fun parse_points :: "pyval list \<Rightarrow> (nat, real) dict \<Rightarrow> py_error + (nat, real) dict" where
  "parse_points [] amounts = Inr amounts"
| "parse_points (v # vs) amounts =
     (case v of
        PyDict p \<Rightarrow>
          (case map_of p ''hour'' of
             None \<Rightarrow> Inl ValueError
           | Some hv \<Rightarrow>
               (case coerce_hour hv of
                  Inl e \<Rightarrow> Inl e
                | Inr h \<Rightarrow>
                    if map_of amounts h \<noteq> None then Inl ValueError
                    else (case point_amount p of
                            Inl e \<Rightarrow> Inl e
                          | Inr a \<Rightarrow> parse_points vs (AList.update h a amounts))))
      | _ \<Rightarrow> Inl ValueError)"

definition dense_amounts :: "(nat, real) dict \<Rightarrow> real list" where
  "dense_amounts amounts = map (\<lambda>h. case map_of amounts h of None \<Rightarrow> 0 | Some a \<Rightarrow> a) [0..<hours_per_day]"

definition unauthored_hours :: "(nat, real) dict \<Rightarrow> nat list" where
  "unauthored_hours amounts = filter (\<lambda>h. map_of amounts h = None) [0..<hours_per_day]"

definition parse_rebate_schedule :: "pyval \<Rightarrow> py_error + rebate_schedule" where
  "parse_rebate_schedule raw =
     (case raw of
        PyDict d \<Rightarrow>
          if py_get_or d ''resolution'' (PyStr ''hour'') \<notin> {PyNone, PyStr ''hour''} then Inl ValueError
          else (case (case py_get_or d ''currency'' (PyStr ''credit'') of PyNone \<Rightarrow> PyStr ''credit'' | v \<Rightarrow> v) of
                  PyStr currency \<Rightarrow>
                    (case py_get d ''points'' of
                       PyList (p # ps) \<Rightarrow>
                         (case parse_points (p # ps) [] of
                            Inl e \<Rightarrow> Inl e
                          | Inr amounts \<Rightarrow> make_schedule (dense_amounts amounts) currency (unauthored_hours amounts))
                     | _ \<Rightarrow> Inl ValueError)
                | _ \<Rightarrow> Inl ValueError)
      | _ \<Rightarrow> Inl ValueError)"

section \<open>Time stamps\<close>

datatype py_when = WhenDatetime nat | WhenNumber | WhenText string | WhenOther

text \<open>The shape \<open>'Wed, 01 Jan 2020 16:00:00 GMT'\<close>: weekday, day, month, year, hour, minute, second.\<close>

definition is_rfc1123 :: "string \<Rightarrow> bool" where
  "is_rfc1123 s \<longleftrightarrow>
     length s = 29 \<and> list_all is_letter (take 3 s) \<and> take 2 (drop 3 s) = '', '' \<and>
     list_all is_digit (take 2 (drop 5 s)) \<and> s ! 7 = CHR '' '' \<and> list_all is_letter (take 3 (drop 8 s)) \<and> s ! 11 = CHR '' '' \<and>
     list_all is_digit (take 4 (drop 12 s)) \<and> s ! 16 = CHR '' '' \<and> list_all is_digit (take 2 (drop 17 s)) \<and> s ! 19 = CHR '':'' \<and>
     list_all is_digit (take 2 (drop 20 s)) \<and> s ! 22 = CHR '':'' \<and> list_all is_digit (take 2 (drop 23 s)) \<and> drop 25 s = '' GMT''"

definition field :: "nat \<Rightarrow> nat \<Rightarrow> string \<Rightarrow> nat" where
  "field i n s = (case digits_val 0 (take n (drop i s)) of None \<Rightarrow> 0 | Some v \<Rightarrow> v)"

definition full_year :: "nat \<Rightarrow> nat" where
  "full_year yy = (if yy < 100 then (if 68 < yy then 1900 + yy else 2000 + yy) else yy)"

definition rfc1123_hour :: "string \<Rightarrow> nat option" where
  "rfc1123_hour s =
     (let mon = map lower_char (take 3 (drop 8 s)); day = field 5 2 s; year = full_year (field 12 4 s);
          hour = field 17 2 s; minute = field 20 2 s; second = field 23 2 s
      in if mon \<in> set month_names \<and> 1 \<le> day \<and>
            day \<le> days_in_month year (Suc (length (takeWhile (\<lambda>m. m \<noteq> mon) month_names))) \<and>
            hour < 24 \<and> minute < 60 \<and> second < 60
         then Some hour else None)"

text \<open>The hour of day of a recorded arrival; \<open>ValueError\<close> otherwise.\<close>

definition coerce_when :: "(string \<Rightarrow> nat option) \<Rightarrow> py_when \<Rightarrow> py_error + nat" where
  "coerce_when other_hour w =
     (case w of
        WhenDatetime h \<Rightarrow> Inr h
      | WhenText t \<Rightarrow>
          (let s = strip t in
           if s = [] then Inl ValueError
           else (case (if is_rfc1123 s then rfc1123_hour s else other_hour s) of None \<Rightarrow> Inl ValueError | Some h \<Rightarrow> Inr h))
      | _ \<Rightarrow> Inl ValueError)"

definition rebate_price_at :: "(string \<Rightarrow> nat option) \<Rightarrow> rebate_schedule option \<Rightarrow> py_when \<Rightarrow> py_error + real" where
  "rebate_price_at other_hour schedule w =
     (case schedule of
        None \<Rightarrow> Inl ValueError
      | Some s \<Rightarrow> (case coerce_when other_hour w of Inl e \<Rightarrow> Inl e | Inr h \<Rightarrow> Inr (value_at s (int h))))"

text \<open>The stamp a truck writes on arrival.\<close>

definition rfc1123_text :: "string \<Rightarrow> nat \<Rightarrow> string \<Rightarrow> nat \<Rightarrow> nat \<Rightarrow> nat \<Rightarrow> nat \<Rightarrow> string" where
  "rfc1123_text weekday day month year hour minute second =
     weekday @ '', '' @ two_digits day @ '' '' @ month @ '' '' @ four_digits year @ '' '' @
     two_digits hour @ '':'' @ two_digits minute @ '':'' @ two_digits second @ '' GMT''"

section \<open>The book\<close>

type_synonym rebate_book = "(string, rebate_schedule) dict"

definition schedule_for :: "(pyval \<Rightarrow> string) \<Rightarrow> rebate_book \<Rightarrow> pyval \<Rightarrow> rebate_schedule option" where
  "schedule_for render book fid = (if fid = PyNone then None else map_of book (py_str render fid))"

definition book_contains :: "(pyval \<Rightarrow> string) \<Rightarrow> rebate_book \<Rightarrow> pyval \<Rightarrow> bool" where
  "book_contains render book fid \<longleftrightarrow> map_of book (py_str render fid) \<noteq> None"

definition book_currency :: "rebate_book \<Rightarrow> string option" where
  "book_currency book =
     (case sorted_set (map (rb_currency \<circ> snd) book) of [] \<Rightarrow> None | c # _ \<Rightarrow> Some c)"

definition book_price_at :: "(pyval \<Rightarrow> string) \<Rightarrow> (string \<Rightarrow> nat option) \<Rightarrow> rebate_book \<Rightarrow> pyval \<Rightarrow> py_when \<Rightarrow> py_error + real option" where
  "book_price_at render other_hour book fid w =
     (case schedule_for render book fid of
        None \<Rightarrow> Inr None
      | Some s \<Rightarrow> (case rebate_price_at other_hour (Some s) w of Inl e \<Rightarrow> Inl e | Inr a \<Rightarrow> Inr (Some a)))"

text \<open>The rebate block of a facility document: \<open>(doc.get("profile") or {}).get("rebate")\<close>.\<close>

definition rebate_block :: "(string, pyval) dict \<Rightarrow> py_error + pyval" where
  "rebate_block doc =
     (case py_get doc ''profile'' of
        PyDict prof \<Rightarrow> Inr (py_get prof ''rebate'')
      | v \<Rightarrow> if truthy v then Inl AttributeError else Inr PyNone)"

fun book_from :: "(pyval \<Rightarrow> string) \<Rightarrow> pyval list \<Rightarrow> rebate_book \<Rightarrow> py_error + rebate_book" where
  "book_from render [] book = Inr book"
| "book_from render (v # vs) book =
     (case v of
        PyDict doc \<Rightarrow>
          if py_get doc ''_id'' = PyNone then book_from render vs book
          else (case rebate_block doc of
                  Inl e \<Rightarrow> Inl e
                | Inr block \<Rightarrow>
                    if \<not> truthy block then book_from render vs book
                    else (case parse_rebate_schedule block of
                            Inr s \<Rightarrow> book_from render vs (AList.update (py_str render (py_get doc ''_id'')) s book)
                          | Inl ValueError \<Rightarrow> book_from render vs book
                          | Inl e \<Rightarrow> Inl e))
      | _ \<Rightarrow> book_from render vs book)"

definition book_from_facility_docs :: "(pyval \<Rightarrow> string) \<Rightarrow> pyval list \<Rightarrow> py_error + rebate_book" where
  "book_from_facility_docs render docs = book_from render docs []"

section \<open>The provenance stamp\<close>

record digest_bucket =
  db_points :: "pyval list"
  db_currency :: string
  db_facility_count :: nat
  db_facility_types :: "string set"
  db_example_facility :: string

definition add_entry :: "(rebate_schedule \<Rightarrow> string) \<Rightarrow> string \<times> string option \<times> rebate_schedule
    \<Rightarrow> (string, digest_bucket) dict \<Rightarrow> (string, digest_bucket) dict" where
  "add_entry digest = (\<lambda>(name, ftype, s) out.
     let b = (case map_of out (digest s) of
           None \<Rightarrow> \<lparr>db_points = to_points s, db_currency = rb_currency s, db_facility_count = 0, db_facility_types = {},
                    db_example_facility = name\<rparr>
         | Some b \<Rightarrow> b)
     in AList.update (digest s)
          (b\<lparr>db_facility_count := Suc (db_facility_count b),
             db_facility_types := (case ftype of None \<Rightarrow> db_facility_types b
                | Some t \<Rightarrow> if t = [] then db_facility_types b else insert t (db_facility_types b))\<rparr>) out)"

definition schedules_by_digest ::
    "(rebate_schedule \<Rightarrow> string) \<Rightarrow> (string \<times> string option \<times> rebate_schedule) list \<Rightarrow> (string, digest_bucket) dict" where
  "schedules_by_digest digest entries = fold (add_entry digest) entries []"

section \<open>Lemmas on parsing\<close>

text \<open>A point that names the hour \<open>h\<close> and the price \<open>a\<close>.\<close>

definition authored :: "nat \<Rightarrow> real \<Rightarrow> pyval \<Rightarrow> bool" where
  "authored h a v \<longleftrightarrow> (\<exists>p. v = PyDict p \<and> map_of p ''hour'' = Some (PyInt (int h)) \<and> h < 24 \<and> point_amount p = Inr a)"

lemma coerce_hour_Inr: "coerce_hour v = Inr h \<longleftrightarrow> v = PyInt (int h) \<and> h < 24"
  by (cases v) (auto simp: hours_per_day_def)

lemma coerce_hour_error: "coerce_hour v = Inl e \<Longrightarrow> e = ValueError"
  by (cases v) (auto split: if_splits)

lemma coerce_amount_error: "coerce_amount v = Inl e \<Longrightarrow> e = ValueError \<or> (e = OverflowError \<and> (\<exists>i. v = PyInt i \<and> float_overflows i))"
  by (cases v rule: coerce_amount.cases) (auto split: if_splits)

lemma point_amount_error: "point_amount p = Inl e \<Longrightarrow> e = ValueError \<or> e = OverflowError"
  by (auto simp: point_amount_def split: option.splits dest!: coerce_amount_error)

lemma parse_points_step:
  assumes "parse_points (v # vs) am = Inr am'"
  obtains h a where "authored h a v" "map_of am h = None" "parse_points vs (AList.update h a am) = Inr am'"
proof -
  obtain p where p: "v = PyDict p" using assms by (auto split: pyval.splits)
  obtain hv where hv: "map_of p ''hour'' = Some hv" using assms p by (auto split: option.splits)
  obtain h where h: "coerce_hour hv = Inr h" using assms p hv by (auto split: sum.splits)
  have free: "map_of am h = None" using assms p hv h by (auto split: if_splits)
  obtain a where a: "point_amount p = Inr a" using assms p hv h free by (auto split: sum.splits)
  show thesis
  proof (rule that)
    show "authored h a v" using p hv h a by (simp add: authored_def coerce_hour_Inr)
    show "parse_points vs (AList.update h a am) = Inr am'" using assms p hv h a free by simp
  qed (rule free)
qed

lemma authored_unique: "authored h a v \<Longrightarrow> authored h' a' v \<Longrightarrow> h' = h \<and> a' = a"
  by (auto simp: authored_def)

lemma parse_points_lookup:
  "parse_points vs am = Inr am' \<Longrightarrow> (map_of am' h = Some a \<longleftrightarrow> map_of am h = Some a \<or> (\<exists>v\<in>set vs. authored h a v))"
proof (induction vs arbitrary: am)
  case (Cons v vs)
  obtain h0 a0 where v: "authored h0 a0 v" "map_of am h0 = None" "parse_points vs (AList.update h0 a0 am) = Inr am'"
    using Cons.prems by (rule parse_points_step)
  have "authored h a v \<longleftrightarrow> h = h0 \<and> a = a0" using v(1) authored_unique by blast
  then show ?case using Cons.IH [OF v(3)] v(2) by auto
qed simp

lemma parse_points_authored: "parse_points vs am = Inr am' \<Longrightarrow> v \<in> set vs \<Longrightarrow> \<exists>h a. authored h a v"
proof (induction vs arbitrary: am)
  case (Cons w vs)
  obtain h0 a0 where w: "authored h0 a0 w" "parse_points vs (AList.update h0 a0 am) = Inr am'"
    using Cons.prems(1) by (rule parse_points_step)
  show ?case using Cons.prems(2) Cons.IH [OF w(2)] w(1) by auto
qed simp

lemma parse_points_error: "parse_points vs am = Inl e \<Longrightarrow> e = ValueError \<or> e = OverflowError"
proof (induction vs arbitrary: am)
  case (Cons v vs)
  then show ?case
    by (auto split: pyval.splits option.splits sum.splits if_splits dest: coerce_hour_error point_amount_error)
qed simp

lemma parse_points_prices:
  "\<forall>h\<in>set hs. h < 24 \<and> map_of am h = None \<Longrightarrow> distinct hs \<Longrightarrow>
   parse_points (map (\<lambda>h. PyDict [(''hour'', PyInt (int h)), (''amount'', PyFloat (Fin (f h)))]) hs) am =
     Inr (fold (\<lambda>h. AList.update h (f h)) hs am)"
proof (induction hs arbitrary: am)
  case (Cons h hs)
  then have "\<forall>h'\<in>set hs. h' < 24 \<and> map_of (AList.update h (f h) am) h' = None" by auto
  from Cons.IH [OF this] show ?case using Cons.prems by (simp add: point_amount_def hours_per_day_def)
qed simp

lemma parse_rebate_schedule_Inr:
  assumes "parse_rebate_schedule raw = Inr s"
  obtains d points amounts where "raw = PyDict d" "py_get d ''points'' = PyList points" "parse_points points [] = Inr amounts"
    "rb_amounts s = dense_amounts amounts" "rb_missing_hours s = unauthored_hours amounts"
proof -
  obtain d where d: "raw = PyDict d" using assms by (auto simp: parse_rebate_schedule_def split: pyval.splits)
  obtain p ps where p: "py_get d ''points'' = PyList (p # ps)"
    using assms d by (auto simp: parse_rebate_schedule_def split: if_splits pyval.splits list.splits)
  obtain amounts where a: "parse_points (p # ps) [] = Inr amounts"
    using assms d p by (cases "parse_points (p # ps) []") (auto simp: parse_rebate_schedule_def split: if_splits pyval.splits)
  have "rb_amounts s = dense_amounts amounts" "rb_missing_hours s = unauthored_hours amounts"
    using assms d p a
    by (auto simp: parse_rebate_schedule_def make_schedule_def simp del: parse_points.simps split: if_splits pyval.splits)
  with d p a that show thesis by blast
qed

section \<open>Properties\<close>

text \<open>
  C34. A parsed rebate schedule is well formed and says what was authored: it has 24 slots, every authored point is legal, each
  authored hour has its authored price, and exactly the unauthored hours are listed as missing and priced
  zero.
\<close>

theorem parse_rebate_schedule_spec:
  assumes "parse_rebate_schedule raw = Inr s"
  shows "length (rb_amounts s) = 24 \<and>
    (\<exists>d points. raw = PyDict d \<and> py_get d ''points'' = PyList points \<and>
      (\<forall>v\<in>set points. \<exists>h a. authored h a v \<and> rb_amounts s ! h = a) \<and>
      (\<forall>h < 24. (h \<in> set (rb_missing_hours s) \<longleftrightarrow> \<not> (\<exists>v\<in>set points. \<exists>a. authored h a v)) \<and>
        (h \<in> set (rb_missing_hours s) \<longrightarrow> rb_amounts s ! h = 0)))"
proof -
  obtain d points amounts where r: "raw = PyDict d" "py_get d ''points'' = PyList points" "parse_points points [] = Inr amounts"
    and s: "rb_amounts s = dense_amounts amounts" "rb_missing_hours s = unauthored_hours amounts"
    using assms by (rule parse_rebate_schedule_Inr)
  have at: "rb_amounts s ! h = a" "h < 24" if "v \<in> set points" "authored h a v" for v h a
  proof -
    show "h < 24" using that by (auto simp: authored_def)
    then show "rb_amounts s ! h = a"
      using parse_points_lookup [OF r(3), of h a] that by (auto simp: s dense_amounts_def hours_per_day_def)
  qed
  have "\<exists>h a. authored h a v \<and> rb_amounts s ! h = a" if "v \<in> set points" for v
    using parse_points_authored [OF r(3) that] at that by blast
  moreover have "h \<in> set (rb_missing_hours s) \<longleftrightarrow> \<not> (\<exists>v\<in>set points. \<exists>a. authored h a v)" if "h < 24" for h
  proof (cases "map_of amounts h")
    case None
    then show ?thesis using parse_points_lookup [OF r(3), of h] that by (auto simp: s unauthored_hours_def hours_per_day_def)
  next
    case (Some a)
    then show ?thesis using parse_points_lookup [OF r(3), of h a] by (auto simp: s unauthored_hours_def)
  qed
  moreover have "rb_amounts s ! h = 0" if "h \<in> set (rb_missing_hours s)" for h
    using that by (auto simp: s unauthored_hours_def dense_amounts_def hours_per_day_def)
  moreover have "length (rb_amounts s) = 24" by (simp add: s dense_amounts_def hours_per_day_def)
  ultimately show ?thesis using r(1,2) by blast
qed

definition demo_block :: pyval where
  "demo_block = PyDict [(''points'', PyList [PyDict [(''hour'', PyInt 2), (''amount'', PyInt 20)],
     PyDict [(''hour'', PyInt 22), (''weight'', PyFloat (Fin (-5)))]])]"

lemma demo_block_parse: "parse_rebate_schedule demo_block =
    Inr \<lparr>rb_amounts = [0, 0, 20, 0, 0, 0, 0, 0, 0, 0, 0, 0, 0, 0, 0, 0, 0, 0, 0, 0, 0, 0, -5, 0], rb_currency = ''credit'',
         rb_missing_hours = [0, 1, 3, 4, 5, 6, 7, 8, 9, 10, 11, 12, 13, 14, 15, 16, 17, 18, 19, 20, 21, 23]\<rparr>"
  by (simp add: parse_rebate_schedule_def demo_block_def py_get_or_def py_get_def point_amount_def hours_per_day_def
      float_overflows_def make_schedule_def dense_amounts_def unauthored_hours_def upt_rec)

theorem parse_rebate_schedule_spec_witness:
  "\<exists>s. parse_rebate_schedule demo_block = Inr s \<and> length (rb_amounts s) = 24"
  using parse_rebate_schedule_spec [OF demo_block_parse] demo_block_parse by blast

text \<open>
  Writing a schedule to its block and parsing it again gives the schedule back, with every hour authored.
\<close>

theorem rebate_block_round_trip:
  assumes "length (rb_amounts s) = 24"
  shows "parse_rebate_schedule (as_block s) = Inr (s\<lparr>rb_missing_hours := []\<rparr>)"
proof -
  let ?am = "fold (\<lambda>h. AList.update h (rb_amounts s ! h)) [0..<24] []"
  have p: "parse_points (to_points s) [] = Inr ?am"
    unfolding to_points_def hours_per_day_def by (rule parse_points_prices) simp_all
  have "map_of (fold (\<lambda>h. AList.update h (rb_amounts s ! h)) hs am) h =
      (if h \<in> set hs then Some (rb_amounts s ! h) else map_of am h)" for hs am h
    by (induction hs arbitrary: am) auto
  then have l: "map_of ?am h = (if h < 24 then Some (rb_amounts s ! h) else None)" for h by simp
  have "dense_amounts ?am = rb_amounts s"
    using assms by (intro nth_equalityI) (simp_all add: dense_amounts_def hours_per_day_def l)
  moreover have "unauthored_hours ?am = []" by (simp add: unauthored_hours_def hours_per_day_def l)
  moreover obtain v vs where "to_points s = v # vs" by (cases "to_points s") (simp_all add: to_points_def hours_per_day_def)
  ultimately show ?thesis
    using p assms by (simp add: parse_rebate_schedule_def as_block_def py_get_or_def py_get_def make_schedule_def hours_per_day_def
        del: parse_points.simps)
qed

theorem rebate_block_round_trip_witness:
  "parse_rebate_schedule (as_block (zero_schedule ''credit'')) = Inr (zero_schedule ''credit'')"
  using rebate_block_round_trip [of "zero_schedule ''credit''"] by (simp add: zero_schedule_def hours_per_day_def)

text \<open>
  Parsing fails with a RebateSpecError except in one case: an integer amount beyond the range of floats escapes
  as OverflowError, and building the book from facility documents, which skips malformed blocks, passes it on. A document
  that parses is in the book under its id, unless a later one replaces it.
\<close>

theorem rebate_overflow_escapes:
  "(parse_rebate_schedule raw = Inl e \<longrightarrow> e = ValueError \<or> e = OverflowError) \<and>
   book_from_facility_docs render [PyDict [(''_id'', PyStr ''f1''), (''profile'', PyDict [(''rebate'',
     PyDict [(''points'', PyList [PyDict [(''hour'', PyInt 2), (''amount'', PyInt (10 ^ 309))]])])])]] = Inl OverflowError"
proof
  show "parse_rebate_schedule raw = Inl e \<longrightarrow> e = ValueError \<or> e = OverflowError"
  proof
    assume e: "parse_rebate_schedule raw = Inl e"
    show "e = ValueError \<or> e = OverflowError"
    proof (rule ccontr)
      assume ne: "\<not> (e = ValueError \<or> e = OverflowError)"
      have "parse_points vs [] \<noteq> Inl e" for vs using parse_points_error ne by blast
      moreover have "make_schedule (dense_amounts am) c (unauthored_hours am) \<noteq> Inl e" for am c
        by (simp add: make_schedule_def dense_amounts_def)
      ultimately show False using e ne
        by (auto simp: parse_rebate_schedule_def simp del: parse_points.simps
            split: pyval.splits if_splits list.splits sum.splits)
    qed
  qed
  have "float_overflows (10 ^ 309)" unfolding float_overflows_def by simp
  then show "book_from_facility_docs render [PyDict [(''_id'', PyStr ''f1''), (''profile'', PyDict [(''rebate'',
     PyDict [(''points'', PyList [PyDict [(''hour'', PyInt 2), (''amount'', PyInt (10 ^ 309))]])])])]] = Inl OverflowError"
    by (simp add: book_from_facility_docs_def rebate_block_def parse_rebate_schedule_def py_get_def py_get_or_def
        point_amount_def hours_per_day_def)
qed

theorem rebate_overflow_escapes_witness:
  "parse_rebate_schedule (PyList []) = Inl ValueError \<and> (ValueError = ValueError \<or> ValueError = OverflowError)"
proof -
  have "parse_rebate_schedule (PyList []) = Inl ValueError" by (simp add: parse_rebate_schedule_def)
  then show ?thesis using rebate_overflow_escapes [of "PyList []" ValueError "\<lambda>v. []"] by blast
qed

text \<open>
  A stamp in the form the run writes is priced by its own hour: formatting a valid date and time and pricing the text
  gives the amount of the slot of that hour, whatever the clock of the simulation; a number, such as a step index, is never
  priced.
\<close>

theorem stamp_priced_by_its_hour:
  assumes "length weekday = 3" "list_all is_letter weekday" "map lower_char month \<in> set month_names" "list_all is_letter month"
    and "100 \<le> year" "year < 10000" "1 \<le> day"
    and "day \<le> days_in_month year (Suc (length (takeWhile (\<lambda>m. m \<noteq> map lower_char month) month_names)))"
    and "hour < 24" "minute < 60" "second < 60"
  shows "rebate_price_at other_hour (Some s) (WhenText (rfc1123_text weekday day month year hour minute second)) =
      Inr (rb_amounts s ! hour) \<and>
    rebate_price_at other_hour (Some s) WhenNumber = Inl ValueError"
proof -
  let ?t = "rfc1123_text weekday day month year hour minute second"
  have m3: "length month = 3" using assms(3) by (auto simp: month_names_def dest!: arg_cong [where f = length])
  obtain a b c where w: "weekday = [a, b, c]" using assms(1) by (auto simp: numeral_3_eq_3 length_Suc_conv)
  obtain x y z where mo: "month = [x, y, z]" using m3 by (auto simp: numeral_3_eq_3 length_Suc_conv)
  have day: "day < 100" using assms(8) by (auto simp: days_in_month_def split: if_splits)
  have strip: "strip ?t = ?t"
    using assms(2) letter_not_blank by (simp add: strip_def rfc1123_text_def w is_blank_def two_digits_def four_digits_def)
  have shape: "is_rfc1123 ?t"
    using assms(2,4) by (simp add: is_rfc1123_def rfc1123_text_def w mo two_digits_def four_digits_def digit_char_digit nth_Cons')
  have f: "field 5 2 ?t = day" "field 12 4 ?t = year" "field 17 2 ?t = hour" "field 20 2 ?t = minute" "field 23 2 ?t = second"
    "take 3 (drop 8 ?t) = month"
    using assms(5-11) day
    by (simp_all add: field_def rfc1123_text_def w mo two_digits_def four_digits_def digit_char_digit)
  have "?t \<noteq> []" by (simp add: rfc1123_text_def w)
  then show ?thesis
    using assms strip shape f
    by (simp add: rebate_price_at_def coerce_when_def rfc1123_hour_def full_year_def value_at_def hours_per_day_def Let_def)
qed

theorem stamp_priced_by_its_hour_witness:
  "rebate_price_at (\<lambda>t. None) (Some (zero_schedule ''credit''))
     (WhenText (rfc1123_text ''Wed'' 1 ''Jan'' 2020 16 0 0)) = Inr 0"
proof -
  have "map lower_char ''Jan'' = ''jan''" by code_simp
  then show ?thesis
    using stamp_priced_by_its_hour [of "''Wed''" "''Jan''" 2020 1 16 0 0 "\<lambda>t. None" "zero_schedule ''credit''"]
    by (simp add: is_letter_def less_eq_char_def month_names_def days_in_month_def zero_schedule_def hours_per_day_def)
qed

end
