(* ===== verification/Market_Pools.thy ===== *)
theory Market_Pools
  imports OR_Prelude
begin

text \<open>
  The market of shared orders (\<open>assignment/pools.py\<close>): pools of hauliers read from the scenario's
  cooperation structure, the placement of orders into pools, who sees which order, and the
  commitments of one tick. The locale \<open>allocation_ledger\<close> is what the planner relies on when it commits.
\<close>

section \<open>Data\<close>

record pool =
  pool_id :: string
  pool_members :: "string set"

record bid =
  bid_haulier_id :: string
  bid_order_id :: string
  bid_truck_id :: string
  bid_cost_km :: pyfloat
  bid_pool_id :: "string option"
  bid_round :: int

record award =
  aw_order_id :: string
  aw_truck_id :: string
  aw_carrier_haulier_id :: string
  aw_owner_haulier_id :: "string option"
  aw_cost_km :: pyfloat
  aw_pool_id :: "string option"
  aw_round :: int

record pool_market =
  pm_pools :: "(string, pool) dict"
  pm_contributions :: "(string, string list) dict"
  pm_contribution_owner :: "(string, string) dict"
  pm_committed_order_ids :: "string set"
  pm_committed_truck_ids :: "string set"
  pm_awards :: "award list"

section \<open>Pools from the cooperation structure\<close>

text \<open>The non-empty strings of a list; anything else is skipped.\<close>

fun str_items :: "pyval list \<Rightarrow> string list" where
  "str_items [] = []"
| "str_items (v # vs) = (case v of PyStr s \<Rightarrow> if s \<noteq> [] then s # str_items vs else str_items vs | _ \<Rightarrow> str_items vs)"

fun pool_from_entry :: "pyval \<Rightarrow> pool option" where
  "pool_from_entry (PyDict entry) =
     (case py_get entry ''id'' of
        PyStr pid \<Rightarrow>
          if pid = [] then None
          else (case py_get entry ''members'' of
                  PyList members_raw \<Rightarrow>
                    (let members = set (str_items members_raw)
                     in if card members < 2 then None else Some \<lparr>pool_id = pid, pool_members = members\<rparr>)
                | _ \<Rightarrow> None)
      | _ \<Rightarrow> None)"
| "pool_from_entry _ = None"

definition derived_pool_prefix :: string where
  "derived_pool_prefix = ''p:''"

definition derived_pool_id :: "string \<Rightarrow> string \<Rightarrow> string" where
  "derived_pool_id a b = derived_pool_prefix @ join_str ''+'' (sorted_set [a, b])"

fun pool_from_edge :: "pyval \<Rightarrow> pool option" where
  "pool_from_edge (PyList [PyStr a, PyStr b]) =
     (if a = [] \<or> b = [] \<or> a = b then None
      else Some \<lparr>pool_id = derived_pool_id a b, pool_members = {a, b}\<rparr>)"
| "pool_from_edge _ = None"

text \<open>\<open>pools[p.id] = p\<close> for every well-formed item, then the values in the order of their ids.\<close>

fun collect_pools :: "(pyval \<Rightarrow> pool option) \<Rightarrow> pyval list \<Rightarrow> (string, pool) dict \<Rightarrow> (string, pool) dict" where
  "collect_pools f [] d = d"
| "collect_pools f (v # vs) d =
     collect_pools f vs (case f v of None \<Rightarrow> d | Some p \<Rightarrow> AList.update (pool_id p) p d)"

definition pools_by_id :: "(string, pool) dict \<Rightarrow> pool list" where
  "pools_by_id d = sort_key pool_id (map snd d)"

fun pools_from_edges :: "pyval \<Rightarrow> pool list" where
  "pools_from_edges (PyList edges) = pools_by_id (collect_pools pool_from_edge edges [])"
| "pools_from_edges _ = []"

fun pools_from_structure :: "pyval \<Rightarrow> pool list" where
  "pools_from_structure (PyDict structure) =
     (case py_get structure ''pools'' of
        PyList raw_pools \<Rightarrow> pools_by_id (collect_pools pool_from_entry raw_pools [])
      | _ \<Rightarrow> pools_from_edges (py_get structure ''edges''))"
| "pools_from_structure _ = []"

section \<open>The market\<close>

definition new_market :: "pool list \<Rightarrow> pool_market" where
  "new_market pools =
     \<lparr>pm_pools = fold (\<lambda>p. AList.update (pool_id p) p) pools [], pm_contributions = [],
      pm_contribution_owner = [], pm_committed_order_ids = {}, pm_committed_truck_ids = {}, pm_awards = []\<rparr>"

definition market_from_structure :: "pyval \<Rightarrow> pool_market" where
  "market_from_structure structure = new_market (pools_from_structure structure)"

definition is_empty :: "pool_market \<Rightarrow> bool" where
  "is_empty mk \<longleftrightarrow> pm_pools mk = []"

definition pools_for :: "pool_market \<Rightarrow> string \<Rightarrow> pool list" where
  "pools_for mk h = sort_key pool_id (filter (\<lambda>p. h \<in> pool_members p) (map snd (pm_pools mk)))"

definition member_of :: "pool_market \<Rightarrow> string \<Rightarrow> string \<Rightarrow> bool" where
  "member_of mk h pid = (case map_of (pm_pools mk) pid of None \<Rightarrow> False | Some p \<Rightarrow> h \<in> pool_members p)"

text \<open>\<open>contribute\<close> returns the market and the number of placements it accepted.\<close>

definition contribute :: "string \<Rightarrow> string \<Rightarrow> string list \<Rightarrow> pool_market \<Rightarrow> pool_market \<times> nat" where
  "contribute oid own pool_ids mk =
     (if (case map_of (pm_contribution_owner mk) oid of None \<Rightarrow> False | Some recorded \<Rightarrow> recorded \<noteq> own) then (mk, 0)
      else let accepted = filter (member_of mk own) pool_ids in
        if accepted = [] then (mk, 0)
        else (mk\<lparr>pm_contributions :=
                   AList.update oid (sorted_set (dict_list (pm_contributions mk) oid @ accepted)) (pm_contributions mk),
                 pm_contribution_owner := AList.update oid own (pm_contribution_owner mk)\<rparr>, length accepted))"

definition visible_pooled_order_ids :: "pool_market \<Rightarrow> string \<Rightarrow> string set" where
  "visible_pooled_order_ids mk h =
     fst ` set (filter (\<lambda>(oid, pool_ids). map_of (pm_contribution_owner mk) oid \<noteq> Some h
                          \<and> list_ex (member_of mk h) pool_ids) (pm_contributions mk))"

definition pool_of_order :: "pool_market \<Rightarrow> string \<Rightarrow> string \<Rightarrow> string option" where
  "pool_of_order mk oid viewer =
     (case sort (filter (member_of mk viewer) (dict_list (pm_contributions mk) oid)) of
        [] \<Rightarrow> None | c # _ \<Rightarrow> Some c)"

fun union_members :: "pool_market \<Rightarrow> string list \<Rightarrow> string set \<Rightarrow> string set" where
  "union_members mk [] acc = acc"
| "union_members mk (pid # pids) acc =
     union_members mk pids (case map_of (pm_pools mk) pid of None \<Rightarrow> acc | Some p \<Rightarrow> acc \<union> pool_members p)"

definition eligible_carriers :: "pool_market \<Rightarrow> string \<Rightarrow> string \<Rightarrow> string set" where
  "eligible_carriers mk oid own = union_members mk (dict_list (pm_contributions mk) oid) {own}"

definition is_contributed :: "pool_market \<Rightarrow> string \<Rightarrow> bool" where
  "is_contributed mk oid \<longleftrightarrow> dict_list (pm_contributions mk) oid \<noteq> []"

definition commit :: "award \<Rightarrow> pool_market \<Rightarrow> pool_market \<times> bool" where
  "commit a mk =
     (if aw_order_id a \<in> pm_committed_order_ids mk \<or> aw_truck_id a \<in> pm_committed_truck_ids mk then (mk, False)
      else (mk\<lparr>pm_committed_order_ids := insert (aw_order_id a) (pm_committed_order_ids mk),
               pm_committed_truck_ids := insert (aw_truck_id a) (pm_committed_truck_ids mk),
               pm_awards := pm_awards mk @ [a]\<rparr>, True))"

definition is_order_free :: "pool_market \<Rightarrow> string \<Rightarrow> bool" where
  "is_order_free mk oid \<longleftrightarrow> oid \<notin> pm_committed_order_ids mk"

definition is_truck_free :: "pool_market \<Rightarrow> string \<Rightarrow> bool" where
  "is_truck_free mk tid \<longleftrightarrow> tid \<notin> pm_committed_truck_ids mk"

definition awards :: "pool_market \<Rightarrow> award list" where
  "awards mk = pm_awards mk"

section \<open>Well-formed markets\<close>

text \<open>
  Pools are filed under their own id; every placement names an existing pool that its owner belongs
  to, each order's placements are listed once and in order; the committed ids are those of the awards,
  no order and no truck has two awards.
\<close>

definition pools_ok :: "(string, pool) dict \<Rightarrow> bool" where
  "pools_ok d \<longleftrightarrow> distinct (map fst d) \<and> (\<forall>pid p. map_of d pid = Some p \<longrightarrow> pool_id p = pid)"

definition contributions_ok :: "pool_market \<Rightarrow> bool" where
  "contributions_ok mk \<longleftrightarrow>
     distinct (map fst (pm_contributions mk)) \<and>
     (\<forall>oid pids. map_of (pm_contributions mk) oid = Some pids \<longrightarrow> pids \<noteq> [] \<and> sorted pids \<and> distinct pids \<and>
        (\<exists>own. map_of (pm_contribution_owner mk) oid = Some own \<and> (\<forall>pid\<in>set pids. member_of mk own pid)))"

definition ledger_ok :: "pool_market \<Rightarrow> bool" where
  "ledger_ok mk \<longleftrightarrow>
     pm_committed_order_ids mk = aw_order_id ` set (pm_awards mk) \<and>
     pm_committed_truck_ids mk = aw_truck_id ` set (pm_awards mk) \<and>
     distinct (map aw_order_id (pm_awards mk)) \<and> distinct (map aw_truck_id (pm_awards mk))"

definition market_ok :: "pool_market \<Rightarrow> bool" where
  "market_ok mk \<longleftrightarrow> pools_ok (pm_pools mk) \<and> contributions_ok mk \<and> ledger_ok mk"

section \<open>Lemmas on pools\<close>

lemma pools_ok_update: "pools_ok d \<Longrightarrow> pools_ok (AList.update (pool_id p) p d)"
  by (simp add: pools_ok_def distinct_update del: map_of_eq_Some_iff)

lemma pools_ok_collect: "pools_ok d \<Longrightarrow> pools_ok (collect_pools f vs d)"
  by (induction vs arbitrary: d) (simp_all add: pools_ok_update split: option.split)

lemma pools_ok_fold: "pools_ok d \<Longrightarrow> pools_ok (fold (\<lambda>p. AList.update (pool_id p) p) ps d)"
  by (induction ps arbitrary: d) (auto intro: pools_ok_update)

lemma pools_ok_Nil [simp]: "pools_ok []"
  by (simp add: pools_ok_def)

lemma pools_ok_entry: "pools_ok d \<Longrightarrow> (pid, p) \<in> set d \<Longrightarrow> pool_id p = pid"
  by (simp add: pools_ok_def)

lemma pools_ok_lookup: "pools_ok d \<Longrightarrow> p \<in> snd ` set d \<longleftrightarrow> map_of d (pool_id p) = Some p"
proof
  assume ok: "pools_ok d" and "p \<in> snd ` set d"
  then obtain pid where "(pid, p) \<in> set d" by auto
  with pools_ok_entry [OF ok this] ok show "map_of d (pool_id p) = Some p" by (simp add: pools_ok_def)
next
  assume "map_of d (pool_id p) = Some p"
  then show "p \<in> snd ` set d" by (metis map_of_SomeD image_eqI snd_conv)
qed

lemma pools_ok_ids: "pools_ok d \<Longrightarrow> map pool_id (map snd d) = map fst d"
  by (auto simp: pools_ok_entry)

lemma set_pools_by_id: "set (pools_by_id d) = snd ` set d"
  by (simp add: pools_by_id_def)

lemma pools_by_id_strict: "pools_ok d \<Longrightarrow> sorted_wrt (<) (map pool_id (pools_by_id d))"
proof -
  assume "pools_ok d"
  then have "distinct (map pool_id (map snd d))" by (subst pools_ok_ids) (auto simp: pools_ok_def)
  moreover have "mset (map pool_id (pools_by_id d)) = mset (map pool_id (map snd d))"
    by (simp add: pools_by_id_def multiset.map_comp)
  ultimately have "distinct (map pool_id (pools_by_id d))" by (metis mset_eq_imp_distinct_iff)
  then show ?thesis by (simp add: pools_by_id_def strict_sorted_iff)
qed

text \<open>The last item with a given id wins.\<close>

lemma collect_pools_lookup:
  "map_of (collect_pools f vs d) pid =
     (case List.find (\<lambda>p. pool_id p = pid) (rev (List.map_filter f vs)) of
        Some p \<Rightarrow> Some p | None \<Rightarrow> map_of d pid)"
proof (induction vs arbitrary: d)
  case (Cons v vs)
  show ?case
  proof (cases "f v")
    case None
    then show ?thesis by (simp add: List.map_filter_simps Cons)
  next
    case (Some p)
    have "List.find P (xs @ [p]) = (case List.find P xs of None \<Rightarrow> if P p then Some p else None | Some x \<Rightarrow> Some x)" for P xs
      by (induction xs) auto
    with Some show ?thesis by (simp add: List.map_filter_simps Cons split: option.split)
  qed
qed (simp add: List.map_filter_simps)

lemma str_items_set: "set (str_items vs) = {s. PyStr s \<in> set vs \<and> s \<noteq> []}"
  by (induction vs) (auto split: pyval.splits)

lemma pool_from_entry_wf: "pool_from_entry v = Some p \<Longrightarrow> pool_id p \<noteq> [] \<and> 2 \<le> card (pool_members p) \<and> [] \<notin> pool_members p"
  by (cases v) (auto simp: Let_def str_items_set split: pyval.splits if_splits)

lemma pool_from_edge_wf: "pool_from_edge v = Some p \<Longrightarrow> pool_id p \<noteq> [] \<and> 2 \<le> card (pool_members p) \<and> [] \<notin> pool_members p"
  by (cases v rule: pool_from_edge.cases) (auto simp: derived_pool_id_def derived_pool_prefix_def split: if_splits)

text \<open>The items a structure offers, and how each is read.\<close>

definition structure_items :: "(string, pyval) dict \<Rightarrow> pool list" where
  "structure_items st =
     (case py_get st ''pools'' of
        PyList raw \<Rightarrow> List.map_filter pool_from_entry raw
      | _ \<Rightarrow> (case py_get st ''edges'' of PyList es \<Rightarrow> List.map_filter pool_from_edge es | _ \<Rightarrow> []))"

lemma collected_pools: "p \<in> set (pools_by_id (collect_pools f vs [])) \<longleftrightarrow>
    List.find (\<lambda>q. pool_id q = pool_id p) (rev (List.map_filter f vs)) = Some p"
  by (simp add: set_pools_by_id pools_ok_lookup [OF pools_ok_collect] collect_pools_lookup split: option.split)

lemma pools_from_structure_items:
  "p \<in> set (pools_from_structure (PyDict st)) \<longleftrightarrow>
     List.find (\<lambda>q. pool_id q = pool_id p) (rev (structure_items st)) = Some p"
  by (cases "py_get st ''pools''"; cases "py_get st ''edges''")
    (simp_all add: structure_items_def collected_pools List.map_filter_simps)

lemma pools_from_structure_strict: "sorted_wrt (<) (map pool_id (pools_from_structure v))"
proof (cases v)
  case (PyDict st)
  then show ?thesis
    by (cases "py_get st ''pools''"; cases "py_get st ''edges''") (simp_all add: pools_by_id_strict pools_ok_collect)
qed simp_all

lemma structure_items_wf: "p \<in> set (structure_items st) \<Longrightarrow> pool_id p \<noteq> [] \<and> 2 \<le> card (pool_members p) \<and> [] \<notin> pool_members p"
  by (auto simp: structure_items_def List.map_filter_def dest: pool_from_entry_wf pool_from_edge_wf split: pyval.splits)

section \<open>Lemmas on the market\<close>

lemma member_of_cong [market_simps]:
  "member_of (mk\<lparr>pm_contributions := c\<rparr>) = member_of mk"
  "member_of (mk\<lparr>pm_contribution_owner := w\<rparr>) = member_of mk"
  by (simp_all add: member_of_def fun_eq_iff)

lemma commit_frame [market_simps]:
  "pm_pools (fst (commit a mk)) = pm_pools mk"
  "pm_contributions (fst (commit a mk)) = pm_contributions mk"
  "pm_contribution_owner (fst (commit a mk)) = pm_contribution_owner mk"
  "member_of (fst (commit a mk)) = member_of mk"
  by (auto simp: commit_def member_of_def fun_eq_iff)

lemma contribute_frame [market_simps]:
  "pm_pools (fst (contribute oid own pids mk)) = pm_pools mk"
  "pm_committed_order_ids (fst (contribute oid own pids mk)) = pm_committed_order_ids mk"
  "pm_committed_truck_ids (fst (contribute oid own pids mk)) = pm_committed_truck_ids mk"
  "pm_awards (fst (contribute oid own pids mk)) = pm_awards mk"
  "member_of (fst (contribute oid own pids mk)) = member_of mk"
  by (auto simp: contribute_def Let_def member_of_def fun_eq_iff)

lemma market_ok_new: "market_ok (new_market ps)"
  by (simp add: market_ok_def new_market_def pools_ok_fold contributions_ok_def ledger_ok_def)

lemma ledger_ok_contribute: "ledger_ok (fst (contribute oid own pids mk)) = ledger_ok mk"
  by (simp add: ledger_ok_def market_simps)

lemma contributions_ok_commit: "contributions_ok (fst (commit a mk)) = contributions_ok mk"
  by (simp add: contributions_ok_def market_simps)

lemma ledger_ok_commit: "ledger_ok mk \<Longrightarrow> ledger_ok (fst (commit a mk))"
  by (auto simp: commit_def ledger_ok_def)

lemma contributions_okI:
  assumes "distinct (map fst c)"
    and "\<And>oid pids. map_of c oid = Some pids \<Longrightarrow> pids \<noteq> [] \<and> sorted pids \<and> distinct pids \<and>
        (\<exists>own. map_of w oid = Some own \<and> (\<forall>pid\<in>set pids. member_of mk own pid))"
  shows "contributions_ok (mk\<lparr>pm_contributions := c, pm_contribution_owner := w\<rparr>)"
proof -
  let ?m = "mk\<lparr>pm_contributions := c, pm_contribution_owner := w\<rparr>"
  have m: "member_of ?m = member_of mk" "pm_contributions ?m = c" "pm_contribution_owner ?m = w"
    by (simp_all add: market_simps)
  show ?thesis unfolding contributions_ok_def m using assms by blast
qed

lemma contributions_ok_contribute:
  assumes "contributions_ok mk" shows "contributions_ok (fst (contribute oid own pids mk))"
proof (cases "(case map_of (pm_contribution_owner mk) oid of None \<Rightarrow> False | Some r \<Rightarrow> r \<noteq> own) \<or> filter (member_of mk own) pids = []")
  case True
  then have "fst (contribute oid own pids mk) = mk" by (auto simp: contribute_def Let_def)
  then show ?thesis using assms by simp
next
  case False
  let ?acc = "filter (member_of mk own) pids"
  let ?new = "sorted_set (dict_list (pm_contributions mk) oid @ ?acc)"
  have eq: "fst (contribute oid own pids mk) = mk\<lparr>pm_contributions := AList.update oid ?new (pm_contributions mk),
      pm_contribution_owner := AList.update oid own (pm_contribution_owner mk)\<rparr>"
    using False by (simp add: contribute_def Let_def)
  have own: "map_of (pm_contribution_owner mk) oid \<in> {None, Some own}"
    using False by (auto split: option.splits)
  have "member_of mk own pid" if pid: "pid \<in> set (dict_list (pm_contributions mk) oid)" for pid
  proof -
    obtain ps where ps: "map_of (pm_contributions mk) oid = Some ps" "pid \<in> set ps"
      using pid by (rule dict_listE)
    then obtain w where "map_of (pm_contribution_owner mk) oid = Some w" "member_of mk w pid"
      using assms unfolding contributions_ok_def by blast
    then show ?thesis using own by auto
  qed
  moreover have "?new \<noteq> []" using False by (metis append_is_Nil_conv set_empty set_sorted_set)
  ultimately have new: "?new \<noteq> [] \<and> sorted ?new \<and> distinct ?new \<and> (\<forall>pid\<in>set ?new. member_of mk own pid)"
    by auto
  have old: "pids' \<noteq> [] \<and> sorted pids' \<and> distinct pids' \<and>
      (\<exists>w. map_of (pm_contribution_owner mk) o' = Some w \<and> (\<forall>pid\<in>set pids'. member_of mk w pid))"
    if "map_of (pm_contributions mk) o' = Some pids'" for o' pids'
    using assms that unfolding contributions_ok_def by blast
  have "distinct (map fst (pm_contributions mk))" using assms by (simp add: contributions_ok_def)
  then have dist: "distinct (map fst (AList.update oid ?new (pm_contributions mk)))" by (rule distinct_update)
  have all: "pids' \<noteq> [] \<and> sorted pids' \<and> distinct pids' \<and>
      (\<exists>w. map_of (AList.update oid own (pm_contribution_owner mk)) o' = Some w \<and> (\<forall>pid\<in>set pids'. member_of mk w pid))"
    if "map_of (AList.update oid ?new (pm_contributions mk)) o' = Some pids'" for o' pids'
  proof (cases "o' = oid")
    case True
    then have p: "pids' = ?new" and w: "map_of (AList.update oid own (pm_contribution_owner mk)) o' = Some own"
      using that by simp_all
    show ?thesis unfolding p using new w by (intro conjI exI [of _ own]) (elim conjE, assumption)+
  next
    case False
    then have "map_of (pm_contributions mk) o' = Some pids'" using that by (simp only: map_of_update if_False)
    from old [OF this] show ?thesis using False by (simp only: map_of_update if_False simp_thms)
  qed
  from contributions_okI [OF dist all] show ?thesis unfolding eq .
qed

text \<open>Who sees an order, in terms of owner and membership.\<close>

lemma visible_iff:
  assumes "contributions_ok mk"
  shows "oid \<in> visible_pooled_order_ids mk h \<longleftrightarrow>
    map_of (pm_contribution_owner mk) oid \<noteq> Some h \<and> (\<exists>pid\<in>set (dict_list (pm_contributions mk) oid). member_of mk h pid)"
proof -
  have d: "distinct (map fst (pm_contributions mk))" using assms by (simp add: contributions_ok_def)
  have "oid \<in> visible_pooled_order_ids mk h \<longleftrightarrow> (\<exists>pids. (oid, pids) \<in> set (pm_contributions mk) \<and>
      map_of (pm_contribution_owner mk) oid \<noteq> Some h \<and> list_ex (member_of mk h) pids)"
    by (force simp: visible_pooled_order_ids_def)
  also have "\<dots> \<longleftrightarrow> (\<exists>pids. map_of (pm_contributions mk) oid = Some pids \<and>
      map_of (pm_contribution_owner mk) oid \<noteq> Some h \<and> list_ex (member_of mk h) pids)"
    using d by simp
  also have "\<dots> \<longleftrightarrow> map_of (pm_contribution_owner mk) oid \<noteq> Some h \<and>
      (\<exists>pid\<in>set (dict_list (pm_contributions mk) oid). member_of mk h pid)"
    by (cases "map_of (pm_contributions mk) oid") (auto simp: dict_list_def list_ex_iff)
  finally show ?thesis .
qed

lemma pool_of_order_spec:
  "pool_of_order mk oid h = Some pid \<longleftrightarrow>
     pid \<in> set (dict_list (pm_contributions mk) oid) \<and> member_of mk h pid \<and>
     (\<forall>q\<in>set (dict_list (pm_contributions mk) oid). member_of mk h q \<longrightarrow> pid \<le> q)"
proof -
  let ?c = "filter (member_of mk h) (dict_list (pm_contributions mk) oid)"
  show ?thesis
  proof (cases "sort ?c")
    case Nil
    then have "?c = []" by (metis set_empty set_sort)
    then show ?thesis using Nil by (auto simp: pool_of_order_def filter_empty_conv)
  next
    case (Cons c cs)
    then have set: "set ?c = set (c # cs)" by (metis set_sort)
    have "sorted (c # cs)" by (metis Cons sorted_sort)
    then have min: "\<forall>q\<in>set ?c. c \<le> q" unfolding set by auto
    have "c \<in> set ?c" unfolding set by simp
    with min Cons show ?thesis by (auto simp: pool_of_order_def intro: antisym)
  qed
qed

lemma union_members_iff:
  "h \<in> union_members mk pids acc \<longleftrightarrow> h \<in> acc \<or> (\<exists>pid\<in>set pids. member_of mk h pid)"
  by (induction mk pids acc rule: union_members.induct) (auto simp: member_of_def split: option.splits)

lemma eligible_iff:
  "h \<in> eligible_carriers mk oid own \<longleftrightarrow> h = own \<or> (\<exists>pid\<in>set (dict_list (pm_contributions mk) oid). member_of mk h pid)"
  by (simp add: eligible_carriers_def union_members_iff)

section \<open>The ledger contract\<close>

locale allocation_ledger =
  fixes book_in :: "'a \<Rightarrow> 's \<Rightarrow> 's \<times> bool"
    and ord :: "'a \<Rightarrow> 'o"
    and trk :: "'a \<Rightarrow> 't"
    and ofree :: "'s \<Rightarrow> 'o \<Rightarrow> bool"
    and tfree :: "'s \<Rightarrow> 't \<Rightarrow> bool"
    and booked :: "'s \<Rightarrow> 'a list"
    and inv :: "'s \<Rightarrow> bool"
  assumes accept: "inv s \<Longrightarrow> ofree s (ord a) \<Longrightarrow> tfree s (trk a) \<Longrightarrow>
      snd (book_in a s) \<and> inv (fst (book_in a s)) \<and> booked (fst (book_in a s)) = booked s @ [a]"
    and reject: "inv s \<Longrightarrow> \<not> (ofree s (ord a) \<and> tfree s (trk a)) \<Longrightarrow> book_in a s = (s, False)"
    and order_free_iff: "inv s \<Longrightarrow> ofree s x \<longleftrightarrow> x \<notin> ord ` set (booked s)"
    and truck_free_iff: "inv s \<Longrightarrow> tfree s y \<longleftrightarrow> y \<notin> trk ` set (booked s)"
begin

lemma book_in_inv: "inv s \<Longrightarrow> inv (fst (book_in a s))"
  using accept reject by (metis fst_conv)

lemma fold_inv: "inv s \<Longrightarrow> inv (fold (\<lambda>a s. fst (book_in a s)) as s)"
  by (induction as arbitrary: s) (auto intro: book_in_inv)

text \<open>A batch without a common order or truck, all of them free, is accepted as a whole.\<close>

lemma fold_accepts:
  "inv s \<Longrightarrow> distinct (map ord as) \<Longrightarrow> distinct (map trk as) \<Longrightarrow>
     (\<forall>a\<in>set as. ofree s (ord a) \<and> tfree s (trk a)) \<Longrightarrow>
     booked (fold (\<lambda>a s. fst (book_in a s)) as s) = booked s @ as"
proof (induction as arbitrary: s)
  case (Cons a as)
  let ?s = "fst (book_in a s)"
  have s: "inv ?s" "booked ?s = booked s @ [a]" using accept [OF Cons.prems(1)] Cons.prems(4) by auto
  have "ofree ?s (ord b) \<and> tfree ?s (trk b)" if "b \<in> set as" for b
    using Cons.prems that order_free_iff truck_free_iff s by (auto simp: image_iff)
  then have "booked (fold (\<lambda>a s. fst (book_in a s)) as ?s) = booked ?s @ as"
    using Cons.IH [OF s(1)] Cons.prems(2,3) by simp
  then show ?case using s(2) by simp
qed simp

text \<open>Whatever is offered, the book only grows, and every offer not booked conflicts with the book.\<close>

lemma fold_offers:
  "inv s \<Longrightarrow> \<exists>bs. booked (fold (\<lambda>a s. fst (book_in a s)) as s) = booked s @ bs \<and> subseq bs as \<and>
     (\<forall>a\<in>set as. a \<in> set bs \<or> ord a \<in> ord ` set (booked s @ bs) \<or> trk a \<in> trk ` set (booked s @ bs))"
proof (induction as arbitrary: s)
  case (Cons a as)
  let ?s = "fst (book_in a s)"
  obtain bs where bs: "booked (fold (\<lambda>a s. fst (book_in a s)) as ?s) = booked ?s @ bs" "subseq bs as"
      "\<forall>b\<in>set as. b \<in> set bs \<or> ord b \<in> ord ` set (booked ?s @ bs) \<or> trk b \<in> trk ` set (booked ?s @ bs)"
    using Cons.IH [OF book_in_inv [OF Cons.prems]] by blast
  show ?case
  proof (cases "ofree s (ord a) \<and> tfree s (trk a)")
    case True
    then have "booked ?s = booked s @ [a]" using accept Cons.prems by blast
    then show ?thesis using bs by (intro exI [of _ "a # bs"]) auto
  next
    case False
    then have "?s = s" using reject Cons.prems by (metis fst_conv)
    then show ?thesis using bs False order_free_iff truck_free_iff Cons.prems
      by (intro exI [of _ bs]) auto
  qed
qed simp

lemma booked_distinct_step:
  assumes "inv s" "distinct (map ord (booked s))" "distinct (map trk (booked s))"
  shows "distinct (map ord (booked (fst (book_in a s))))" "distinct (map trk (booked (fst (book_in a s))))"
  using assms accept [of s a] reject [of s a] order_free_iff truck_free_iff
  by (cases "ofree s (ord a) \<and> tfree s (trk a)"; simp)+

end

interpretation ledger: allocation_ledger commit aw_order_id aw_truck_id is_order_free is_truck_free awards market_ok
proof
  fix mk and a :: award assume ok: "market_ok mk" and "is_order_free mk (aw_order_id a)" "is_truck_free mk (aw_truck_id a)"
  then show "snd (commit a mk) \<and> market_ok (fst (commit a mk)) \<and> awards (fst (commit a mk)) = awards mk @ [a]"
    by (simp add: market_ok_def contributions_ok_commit ledger_ok_commit market_simps)
      (simp add: commit_def is_order_free_def is_truck_free_def awards_def)
qed (auto simp: commit_def is_order_free_def is_truck_free_def awards_def market_ok_def ledger_ok_def)

section \<open>Properties\<close>

inductive market_reachable :: "pool_market \<Rightarrow> bool" where
  built: "market_reachable (market_from_structure st)"
| contributes: "market_reachable mk \<Longrightarrow> market_reachable (fst (contribute oid own pids mk))"
| commits: "market_reachable mk \<Longrightarrow> market_reachable (fst (commit a mk))"

lemma market_reachable_ok: "market_reachable mk \<Longrightarrow> market_ok mk"
proof (induction rule: market_reachable.induct)
  case (built st)
  then show ?case by (simp add: market_from_structure_def market_ok_new)
next
  case (contributes mk oid own pids)
  then show ?case
    by (simp add: market_ok_def contributions_ok_contribute ledger_ok_contribute) (simp add: contribute_frame)
next
  case (commits mk a)
  show ?case by (rule ledger.book_in_inv) (rule commits.IH)
qed

text \<open>
  Pools read from a cooperation structure: the result is strictly ordered by id, every pool has a
  non-empty id and at least two members with non-empty names, of several entries with the same
  id the last one counts and nothing else is lost, and when the structure has a list of pools, even an empty one,
  its edges do not matter.
\<close>

theorem pools_from_structure_spec:
  "sorted_wrt (<) (map pool_id (pools_from_structure v)) \<and>
   (\<forall>p\<in>set (pools_from_structure v). pool_id p \<noteq> [] \<and> 2 \<le> card (pool_members p) \<and> [] \<notin> pool_members p) \<and>
   (p \<in> set (pools_from_structure (PyDict st)) \<longleftrightarrow>
      (\<exists>ys zs. structure_items st = ys @ p # zs \<and> (\<forall>q\<in>set zs. pool_id q \<noteq> pool_id p))) \<and>
   (py_get st ''pools'' = PyList raw \<longrightarrow>
      pools_from_structure (PyDict (AList.update ''edges'' e st)) = pools_from_structure (PyDict st))"
proof -
  have found: "List.find P (rev xs) = Some x \<longleftrightarrow> (\<exists>ys zs. xs = ys @ x # zs \<and> P x \<and> (\<forall>q\<in>set zs. \<not> P q))" for P xs and x :: pool
  proof
    assume "List.find P (rev xs) = Some x"
    then obtain i where i: "i < length xs" "P (rev xs ! i)" "x = rev xs ! i" "\<forall>j<i. \<not> P (rev xs ! j)"
      by (auto simp: find_Some_iff)
    have "rev xs = take i (rev xs) @ x # drop (Suc i) (rev xs)" using i id_take_nth_drop [of i "rev xs"] by simp
    then have "xs = rev (drop (Suc i) (rev xs)) @ x # rev (take i (rev xs))"
      by (metis append.assoc append_Cons append_Nil rev.simps(2) rev_append rev_rev_ident)
    moreover have "\<forall>q\<in>set (take i (rev xs)). \<not> P q" using i by (auto simp: set_conv_nth)
    ultimately show "\<exists>ys zs. xs = ys @ x # zs \<and> P x \<and> (\<forall>q\<in>set zs. \<not> P q)" using i(2,3) by (metis set_rev)
  next
    assume "\<exists>ys zs. xs = ys @ x # zs \<and> P x \<and> (\<forall>q\<in>set zs. \<not> P q)"
    then obtain ys zs where x: "xs = ys @ x # zs" "P x" "\<forall>q\<in>set zs. \<not> P q" by blast
    have "List.find P (us @ x # vs) = Some x" if "\<forall>q\<in>set us. \<not> P q" for us vs
      using that x(2) by (induction us) auto
    from this [of "rev zs" "rev ys"] x show "List.find P (rev xs) = Some x" by simp
  qed
  have "pool_id p \<noteq> [] \<and> 2 \<le> card (pool_members p) \<and> [] \<notin> pool_members p" if "p \<in> set (pools_from_structure v)" for p
  proof (cases v)
    case (PyDict st)
    with that have "p \<in> set (structure_items st)"
      unfolding PyDict pools_from_structure_items by (auto dest!: find_SomeD)
    then show ?thesis by (rule structure_items_wf)
  qed (use that in simp_all)
  moreover have "py_get (AList.update ''edges'' e st) ''pools'' = py_get st ''pools''" by (simp add: py_get_def)
  ultimately show ?thesis
    unfolding pools_from_structure_items found by (auto simp: pools_from_structure_strict)
qed

theorem pools_from_structure_spec_witness:
  "pools_from_structure (PyDict (AList.update ''edges'' (PyList [PyList [PyStr ''a'', PyStr ''b'']]) [(''pools'', PyList [])])) = []"
proof -
  have "pools_from_structure (PyDict [(''pools'', PyList [])]) = []"
    by (simp add: py_get_def pools_by_id_def)
  then show ?thesis
    using pools_from_structure_spec [of PyNone undefined "[(''pools'', PyList [])]" "[]" "PyList [PyList [PyStr ''a'', PyStr ''b'']]"]
    by (simp add: py_get_def)
qed

text \<open>
  Edges between hauliers get derived pool ids that join the two names with a plus sign. Names
  that contain a plus sign can collide: two different edges then end up in one pool, and the pair
  of hauliers of the first edge shares nothing.
\<close>

theorem derived_pool_ids_collide:
  "pools_from_structure (PyDict [(''edges'', PyList [PyList [PyStr ''a'', PyStr ''b+c''], PyList [PyStr ''a+b'', PyStr ''c'']])])
     = [\<lparr>pool_id = ''p:a+b+c'', pool_members = {''a+b'', ''c''}\<rparr>]"
  by (simp add: py_get_def pools_by_id_def derived_pool_id_def derived_pool_prefix_def sorted_set_def)

text \<open>
  C6. Every market that contributions and commits can produce is well formed: an order is placed only
  in existing pools its recorded owner belongs to, the owner never changes, and no order and no truck
  is committed twice.
\<close>

theorem market_invariant:
  assumes "market_reachable mk"
  shows "(\<forall>oid pid. pid \<in> set (dict_list (pm_contributions mk) oid) \<longrightarrow>
      (\<exists>own. map_of (pm_contribution_owner mk) oid = Some own \<and> member_of mk own pid)) \<and>
    (\<forall>oid own. map_of (pm_contribution_owner mk) oid = Some own \<longrightarrow>
      map_of (pm_contribution_owner (fst (contribute oid own' pids mk))) oid = Some own \<and>
      (own' \<noteq> own \<longrightarrow> contribute oid own' pids mk = (mk, 0))) \<and>
    distinct (map aw_order_id (awards mk)) \<and> distinct (map aw_truck_id (awards mk)) \<and>
    (\<forall>oid. is_order_free mk oid \<longleftrightarrow> oid \<notin> aw_order_id ` set (awards mk)) \<and>
    (\<forall>tid. is_truck_free mk tid \<longleftrightarrow> tid \<notin> aw_truck_id ` set (awards mk))"
proof -
  have ok: "market_ok mk" using assms by (rule market_reachable_ok)
  have "\<exists>own. map_of (pm_contribution_owner mk) oid = Some own \<and> member_of mk own pid"
    if pid: "pid \<in> set (dict_list (pm_contributions mk) oid)" for oid pid
  proof -
    obtain ps where "map_of (pm_contributions mk) oid = Some ps" "pid \<in> set ps"
      using pid by (rule dict_listE)
    then show ?thesis using ok unfolding market_ok_def contributions_ok_def by blast
  qed
  moreover have "map_of (pm_contribution_owner (fst (contribute oid own' pids mk))) oid = Some own \<and>
      (own' \<noteq> own \<longrightarrow> contribute oid own' pids mk = (mk, 0))"
    if "map_of (pm_contribution_owner mk) oid = Some own" for oid own
    using that by (auto simp: contribute_def Let_def)
  ultimately show ?thesis
    using ok ledger.order_free_iff [OF ok] ledger.truck_free_iff [OF ok]
    by (simp add: market_ok_def ledger_ok_def awards_def)
qed

text \<open>A market with one pool of two hauliers and one order placed in it.\<close>

definition demo_market :: pool_market where
  "demo_market = fst (contribute ''o1'' ''a'' [''p1'', ''nope'']
     (market_from_structure (PyDict [(''pools'', PyList [PyDict [(''id'', PyStr ''p1''),
        (''members'', PyList [PyStr ''a'', PyStr ''b''])]])])))"

lemma demo_market_reachable: "market_reachable demo_market"
  unfolding demo_market_def by (intro market_reachable.intros)

lemma demo_market_eq:
  "demo_market = \<lparr>pm_pools = [(''p1'', \<lparr>pool_id = ''p1'', pool_members = {''a'', ''b''}\<rparr>)],
     pm_contributions = [(''o1'', [''p1''])], pm_contribution_owner = [(''o1'', ''a'')],
     pm_committed_order_ids = {}, pm_committed_truck_ids = {}, pm_awards = []\<rparr>"
  by (simp add: demo_market_def market_from_structure_def new_market_def py_get_def pools_by_id_def contribute_def
      member_of_def Let_def sorted_set_def dict_list_def)

theorem market_invariant_witness:
  "(\<exists>own. map_of (pm_contribution_owner demo_market) ''o1'' = Some own \<and> member_of demo_market own ''p1'') \<and>
   contribute ''o1'' ''b'' [''p1''] demo_market = (demo_market, 0)"
proof -
  have a: "map_of (pm_contribution_owner demo_market) ''o1'' = Some ''a''"
    and p: "''p1'' \<in> set (dict_list (pm_contributions demo_market) ''o1'')"
    by (simp_all add: demo_market_eq dict_list_def)
  note inv = market_invariant [OF demo_market_reachable, of "''b''" "[''p1'']"]
  have "\<exists>own. map_of (pm_contribution_owner demo_market) ''o1'' = Some own \<and> member_of demo_market own ''p1''"
    using inv [THEN conjunct1] p by blast
  moreover have "contribute ''o1'' ''b'' [''p1''] demo_market = (demo_market, 0)"
    using inv [THEN conjunct2, THEN conjunct1, rule_format, OF a] by simp
  ultimately show ?thesis ..
qed

text \<open>
  Visibility, the pool through which an order is seen, and the carriers allowed to take it agree:
  a haulier sees an order exactly when somebody else contributed it to a pool the haulier belongs
  to; then the pool reported is the least such pool, and for every order with a recorded
  owner the eligible carriers are the owner and exactly the hauliers that see the order.
\<close>

theorem visibility_coherent:
  assumes "market_reachable mk"
  shows "(oid \<in> visible_pooled_order_ids mk h \<longleftrightarrow>
      (\<exists>own. map_of (pm_contribution_owner mk) oid = Some own \<and> own \<noteq> h \<and>
        (\<exists>pid\<in>set (dict_list (pm_contributions mk) oid). member_of mk h pid))) \<and>
    (oid \<in> visible_pooled_order_ids mk h \<longrightarrow>
      pool_of_order mk oid h = Some (Min {pid \<in> set (dict_list (pm_contributions mk) oid). member_of mk h pid})) \<and>
    (map_of (pm_contribution_owner mk) oid = Some own \<longrightarrow>
      (h \<in> eligible_carriers mk oid own \<longleftrightarrow> h = own \<or> oid \<in> visible_pooled_order_ids mk h))"
proof -
  have c: "contributions_ok mk" using market_reachable_ok [OF assms] by (simp add: market_ok_def)
  let ?S = "{pid \<in> set (dict_list (pm_contributions mk) oid). member_of mk h pid}"
  have "\<exists>own. map_of (pm_contribution_owner mk) oid = Some own" if "dict_list (pm_contributions mk) oid \<noteq> []"
    using that c unfolding contributions_ok_def dict_list_def by (cases "map_of (pm_contributions mk) oid") (simp, blast)
  then have vis: "oid \<in> visible_pooled_order_ids mk h \<longleftrightarrow>
      (\<exists>own. map_of (pm_contribution_owner mk) oid = Some own \<and> own \<noteq> h \<and>
        (\<exists>pid\<in>set (dict_list (pm_contributions mk) oid). member_of mk h pid))"
    unfolding visible_iff [OF c] by (metis empty_iff empty_set option.inject)
  moreover have "pool_of_order mk oid h = Some (Min ?S)" if "oid \<in> visible_pooled_order_ids mk h"
  proof -
    have "finite ?S" "?S \<noteq> {}" using that by (auto simp: visible_iff [OF c])
    then show ?thesis using Min_in [of ?S] Min_le [of ?S] unfolding pool_of_order_spec by blast
  qed
  ultimately show ?thesis by (auto simp: eligible_iff)
qed

theorem visibility_coherent_witness:
  "pool_of_order demo_market ''o1'' ''b'' = Some ''p1'' \<and> ''b'' \<in> eligible_carriers demo_market ''o1'' ''a''"
proof -
  have "''o1'' \<in> visible_pooled_order_ids demo_market ''b''"
    by (simp add: demo_market_eq visible_pooled_order_ids_def member_of_def)
  moreover have "{pid \<in> set (dict_list (pm_contributions demo_market) ''o1''). member_of demo_market ''b'' pid} = {''p1''}"
    by (auto simp: demo_market_eq dict_list_def member_of_def)
  moreover have "map_of (pm_contribution_owner demo_market) ''o1'' = Some ''a''" by (simp add: demo_market_eq)
  ultimately show ?thesis
    using visibility_coherent [OF demo_market_reachable, of "''o1''" "''b''" "''a''"] by simp
qed

end
