(* ===== verification/Greedy_Sweep.thy ===== *)
theory Greedy_Sweep
  imports OR_Prelude
begin

text \<open>
  The contract of a greedy sweep. Two places of the program walk a ranked list of claims, each of
  which uses up an order and a truck, and keep a claim when both are still free: the arbitration of bids and the
  greedy solver. The locale states what such a walk guarantees; what follows for a ranked list is proved
  once here and used through the interpretations in the theories of the two components.
\<close>

locale ranked_sweep =
  fixes kept :: "'b list \<Rightarrow> 'b list"
    and ordk :: "'b \<Rightarrow> 'o"
    and trkk :: "'b \<Rightarrow> 't"
    and live :: "'b \<Rightarrow> bool"
  assumes kept_subseq: "subseq (kept xs) xs"
    and kept_live: "x \<in> set (kept xs) \<Longrightarrow> live x"
    and kept_orders: "distinct (map ordk (kept xs))"
    and kept_trucks: "distinct (map trkk (kept xs))"
    and kept_maximal: "xs = ys @ x # zs \<Longrightarrow> live x \<Longrightarrow>
      \<exists>y\<in>set (ys @ [x]). y \<in> set (kept xs) \<and> (ordk y = ordk x \<or> trkk y = trkk x)"
begin

lemma kept_subset: "set (kept xs) \<subseteq> set xs"
  by (auto elim: list_emb_set [OF kept_subseq])

text \<open>No live claim loses except to a kept claim that ranks no worse and uses the same order or truck.\<close>

lemma no_blocking_claim:
  assumes "sorted (map key xs)" and "x \<in> set xs" and "live x"
  shows "\<exists>y\<in>set (kept xs). (ordk y = ordk x \<or> trkk y = trkk x) \<and> key y \<le> key x"
proof -
  obtain ys zs where xs: "xs = ys @ x # zs" using in_set_splits [OF assms(2)] by blast
  then obtain y where y: "y \<in> set (ys @ [x])" "y \<in> set (kept xs)" "ordk y = ordk x \<or> trkk y = trkk x"
    using kept_maximal [OF xs assms(3)] by blast
  have "key y \<le> key x" using sorted_map_prefix_le [OF assms(1) [unfolded xs] y(1)] .
  with y show ?thesis by blast
qed

lemma no_blocking_sorted:
  fixes key :: "'b \<Rightarrow> 'k::linorder"
  assumes "x \<in> set bids" and "live x"
  shows "\<exists>y\<in>set (kept (sort_key key bids)). (ordk y = ordk x \<or> trkk y = trkk x) \<and> key y \<le> key x"
  using assms by (intro no_blocking_claim) simp_all

text \<open>
  A sweep never leaves more than half of what is possible on the table: any set of live claims that
  is free of conflicts has at most twice as many claims as the sweep keeps.
\<close>

lemma kept_half_of_any_matching:
  assumes M: "set M \<subseteq> set xs" "\<forall>x\<in>set M. live x" "distinct (map ordk M)" "distinct (map trkk M)"
  shows "length M \<le> 2 * length (kept xs)"
proof -
  let ?O = "ordk ` set (kept xs)" and ?T = "trkk ` set (kept xs)"
  let ?A = "{x \<in> set M. ordk x \<in> ?O}" and ?B = "{x \<in> set M. trkk x \<in> ?T}"
  have "x \<in> ?A \<union> ?B" if "x \<in> set M" for x
  proof -
    obtain ys zs where "xs = ys @ x # zs" using M(1) \<open>x \<in> set M\<close> in_set_splits by (metis subsetD)
    from kept_maximal [OF this] M(2) \<open>x \<in> set M\<close> show ?thesis by (auto simp: image_iff) metis+
  qed
  then have "set M = ?A \<union> ?B" by blast
  then have "card (set M) \<le> card ?A + card ?B" by (metis card_Un_le)
  moreover have "card ?A \<le> card ?O"
  proof (rule card_inj_on_le)
    show "inj_on ordk ?A" using M(3) by (auto simp: distinct_map inj_on_def)
  qed auto
  moreover have "card ?B \<le> card ?T"
  proof (rule card_inj_on_le)
    show "inj_on trkk ?B" using M(4) by (auto simp: distinct_map inj_on_def)
  qed auto
  moreover have "card ?O \<le> length (kept xs)" "card ?T \<le> length (kept xs)"
    by (metis card_length length_map list.set_map)+
  moreover have "card (set M) = length M" using M(3) by (simp add: distinct_card distinct_map)
  ultimately show ?thesis by linarith
qed

end

end
