(* ===== verification/Market_Arbitration.thy ===== *)
theory Market_Arbitration
  imports Market_Pools Greedy_Sweep
begin

text \<open>
  Arbitration of bids (\<open>assignment/arbitration.py\<close>, \<open>assignment/tiebreak.py\<close>): the shared tie-break, the
  sweep over ranked bids and the four registered rules. The digest \<open>blake2b\<close> is a parameter of the model;
  no theorem needs more of it than that it is a function. The locale \<open>arbitration_contract\<close> is what
  the planner relies on when it commits the awards of a rule.
\<close>

section \<open>Tie-break\<close>

text \<open>\<open>blake payload\<close> is the 8-byte digest read as an integer.\<close>

definition stable_tiebreak :: "(string \<Rightarrow> nat) \<Rightarrow> int \<Rightarrow> string list \<Rightarrow> nat" where
  "stable_tiebreak blake seed parts = blake (join_str ''|'' (int_str seed # parts))"

definition pair_tiebreak :: "(string \<Rightarrow> nat) \<Rightarrow> int \<Rightarrow> string \<Rightarrow> string \<Rightarrow> nat" where
  "pair_tiebreak blake seed oid tid = stable_tiebreak blake seed [oid, tid]"

definition bid_tiebreak :: "(string \<Rightarrow> nat) \<Rightarrow> int \<Rightarrow> bid \<Rightarrow> nat" where
  "bid_tiebreak blake seed b = stable_tiebreak blake seed [bid_order_id b, bid_haulier_id b, bid_truck_id b]"

definition identity_key :: "bid \<Rightarrow> string \<times> string \<times> string" where
  "identity_key b = (bid_order_id b, bid_truck_id b, bid_haulier_id b)"

definition cost_rank :: "bid \<Rightarrow> nat \<times> real" where
  "cost_rank b = (if is_fin (bid_cost_km b) then (0, fin_val (bid_cost_km b)) else (1, 0))"

section \<open>The sweep\<close>

definition award_of :: "(string \<Rightarrow> string option) \<Rightarrow> bid \<Rightarrow> award" where
  "award_of owner_of b =
     \<lparr>aw_order_id = bid_order_id b, aw_truck_id = bid_truck_id b, aw_carrier_haulier_id = bid_haulier_id b,
      aw_owner_haulier_id = owner_of (bid_order_id b), aw_cost_km = bid_cost_km b, aw_pool_id = bid_pool_id b,
      aw_round = bid_round b\<rparr>"

fun sweep_from :: "pool_market \<Rightarrow> (string \<Rightarrow> string option) \<Rightarrow> bid list \<Rightarrow> string set \<Rightarrow> string set \<Rightarrow> award list" where
  "sweep_from mk owner_of [] taken_orders taken_trucks = []"
| "sweep_from mk owner_of (b # bs) taken_orders taken_trucks =
     (if bid_order_id b \<in> taken_orders \<or> bid_truck_id b \<in> taken_trucks
      then sweep_from mk owner_of bs taken_orders taken_trucks
      else if \<not> is_order_free mk (bid_order_id b) \<or> \<not> is_truck_free mk (bid_truck_id b)
      then sweep_from mk owner_of bs taken_orders taken_trucks
      else award_of owner_of b #
        sweep_from mk owner_of bs (insert (bid_order_id b) taken_orders) (insert (bid_truck_id b) taken_trucks))"

definition sweep :: "pool_market \<Rightarrow> (string \<Rightarrow> string option) \<Rightarrow> bid list \<Rightarrow> award list" where
  "sweep mk owner_of ranked = sweep_from mk owner_of ranked {} {}"

section \<open>The rules\<close>

definition lowest_cost_key :: "(string \<Rightarrow> nat) \<Rightarrow> int \<Rightarrow> bid \<Rightarrow> (nat \<times> real) \<times> nat \<times> string \<times> string \<times> string" where
  "lowest_cost_key blake seed b = (cost_rank b, bid_tiebreak blake seed b, identity_key b)"

definition owner_first_key ::
    "(string \<Rightarrow> nat) \<Rightarrow> int \<Rightarrow> (string \<Rightarrow> string option) \<Rightarrow> bid \<Rightarrow> nat \<times> (nat \<times> real) \<times> nat \<times> string \<times> string \<times> string" where
  "owner_first_key blake seed owner_of b =
     (if Some (bid_haulier_id b) = owner_of (bid_order_id b) then 0 else 1, lowest_cost_key blake seed b)"

text \<open>The owners' own cheapest finite bids, built by one pass over the bids.\<close>

fun reserve_from :: "(string \<Rightarrow> string option) \<Rightarrow> bid list \<Rightarrow> (string, real) dict \<Rightarrow> (string, real) dict" where
  "reserve_from owner_of [] reserve = reserve"
| "reserve_from owner_of (b # bs) reserve =
     reserve_from owner_of bs
       (if Some (bid_haulier_id b) = owner_of (bid_order_id b) \<and> is_fin (bid_cost_km b)
        then (case map_of reserve (bid_order_id b) of
                None \<Rightarrow> AList.update (bid_order_id b) (fin_val (bid_cost_km b)) reserve
              | Some current \<Rightarrow>
                  if fin_val (bid_cost_km b) < current
                  then AList.update (bid_order_id b) (fin_val (bid_cost_km b)) reserve else reserve)
        else reserve)"

definition benefit :: "(string, real) dict \<Rightarrow> bid \<Rightarrow> real option" where
  "benefit reserve b =
     (case map_of reserve (bid_order_id b) of
        None \<Rightarrow> None
      | Some own_reserve \<Rightarrow> if is_fin (bid_cost_km b) then Some (own_reserve - fin_val (bid_cost_km b)) else None)"

definition highest_benefit_key ::
    "(string \<Rightarrow> nat) \<Rightarrow> int \<Rightarrow> (string, real) dict \<Rightarrow> bid \<Rightarrow> nat \<times> (real \<times> real) \<times> nat \<times> string \<times> string \<times> string" where
  "highest_benefit_key blake seed reserve b =
     (case benefit reserve b of
        None \<Rightarrow> (1, (case cost_rank b of (k, c) \<Rightarrow> (real k, c)), bid_tiebreak blake seed b, identity_key b)
      | Some v \<Rightarrow> (0, (- v, 0), bid_tiebreak blake seed b, identity_key b))"

datatype arbitration_rule = LowestCostRule | OwnerFirstRule | HighestBenefitRule | RandomAwardRule

definition canonical_key :: "(string \<Rightarrow> nat) \<Rightarrow> int \<Rightarrow> bid \<Rightarrow> nat \<times> string \<times> string \<times> string" where
  "canonical_key blake seed b = (bid_tiebreak blake seed b, identity_key b)"

text \<open>The ranked list each rule sweeps, with the next state of the generator.\<close>

fun ranked_bids ::
    "arbitration_rule \<Rightarrow> (string \<Rightarrow> nat) \<Rightarrow> int \<Rightarrow> (string \<Rightarrow> string option) \<Rightarrow> 'r rng_ops \<Rightarrow> bid list \<Rightarrow> 'r \<Rightarrow> bid list \<times> 'r" where
  "ranked_bids LowestCostRule blake seed owner_of g bids r = (sort_key (lowest_cost_key blake seed) bids, r)"
| "ranked_bids OwnerFirstRule blake seed owner_of g bids r = (sort_key (owner_first_key blake seed owner_of) bids, r)"
| "ranked_bids HighestBenefitRule blake seed owner_of g bids r =
     (sort_key (highest_benefit_key blake seed (reserve_from owner_of bids [])) bids, r)"
| "ranked_bids RandomAwardRule blake seed owner_of g bids r =
     rng_shuffle g r (sort_key (canonical_key blake seed) bids)"

definition resolve ::
    "arbitration_rule \<Rightarrow> (string \<Rightarrow> nat) \<Rightarrow> int \<Rightarrow> (string \<Rightarrow> string option) \<Rightarrow> 'r rng_ops
     \<Rightarrow> pool_market \<Rightarrow> bid list \<Rightarrow> 'r \<Rightarrow> award list \<times> 'r" where
  "resolve rule blake seed owner_of g mk bids r =
     (case ranked_bids rule blake seed owner_of g bids r of (ranked, r') \<Rightarrow> (sweep mk owner_of ranked, r'))"

definition arbitration_registry :: "(string, arbitration_rule) dict" where
  "arbitration_registry =
     [(''LowestCost'', LowestCostRule), (''OwnerFirst'', OwnerFirstRule),
      (''HighestBenefit'', HighestBenefitRule), (''RandomAward'', RandomAwardRule)]"

definition get_arbitration_rule :: "string option \<Rightarrow> arbitration_rule" where
  "get_arbitration_rule name =
     (let key = (case name of None \<Rightarrow> ''LowestCost'' | Some n \<Rightarrow> if n = [] then ''LowestCost'' else n) in
      case map_of arbitration_registry key of None \<Rightarrow> LowestCostRule | Some rule \<Rightarrow> rule)"

section \<open>The sweep keeps its contract\<close>

text \<open>An award carries everything of the bid that won it.\<close>

definition bid_of :: "award \<Rightarrow> bid" where
  "bid_of a = \<lparr>bid_haulier_id = aw_carrier_haulier_id a, bid_order_id = aw_order_id a, bid_truck_id = aw_truck_id a,
     bid_cost_km = aw_cost_km a, bid_pool_id = aw_pool_id a, bid_round = aw_round a\<rparr>"

lemma bid_of_award_of [simp]: "bid_of (award_of owner_of b) = b"
  by (simp add: bid_of_def award_of_def)

lemma bid_of_sel [simp]:
  "bid_order_id (bid_of a) = aw_order_id a" "bid_truck_id (bid_of a) = aw_truck_id a"
  "bid_haulier_id (bid_of a) = aw_carrier_haulier_id a" "bid_cost_km (bid_of a) = aw_cost_km a"
  by (simp_all add: bid_of_def)

definition bid_live :: "pool_market \<Rightarrow> bid \<Rightarrow> bool" where
  "bid_live mk b \<longleftrightarrow> is_order_free mk (bid_order_id b) \<and> is_truck_free mk (bid_truck_id b)"

lemma sweep_from_awards: "a \<in> set (sweep_from mk w bs os ts) \<Longrightarrow> a = award_of w (bid_of a)"
  by (induction mk w bs os ts rule: sweep_from.induct) (auto split: if_splits)

lemma sweep_from_subseq: "subseq (map bid_of (sweep_from mk w bs os ts)) bs"
  by (induction mk w bs os ts rule: sweep_from.induct) auto

lemma sweep_from_live:
  "a \<in> set (sweep_from mk w bs os ts) \<Longrightarrow>
     bid_live mk (bid_of a) \<and> aw_order_id a \<notin> os \<and> aw_truck_id a \<notin> ts"
  by (induction mk w bs os ts rule: sweep_from.induct) (auto simp: bid_live_def award_of_def split: if_splits)

lemma sweep_from_distinct:
  "distinct (map aw_order_id (sweep_from mk w bs os ts)) \<and> distinct (map aw_truck_id (sweep_from mk w bs os ts))"
proof (induction mk w bs os ts rule: sweep_from.induct)
  case (2 mk w b bs os ts)
  have fresh: "aw_order_id a \<noteq> bid_order_id b \<and> aw_truck_id a \<noteq> bid_truck_id b"
    if "a \<in> set (sweep_from mk w bs (insert (bid_order_id b) os) (insert (bid_truck_id b) ts))" for a
    using sweep_from_live [OF that] by auto
  then have "bid_order_id b \<notin> aw_order_id ` set (sweep_from mk w bs (insert (bid_order_id b) os) (insert (bid_truck_id b) ts))"
    "bid_truck_id b \<notin> aw_truck_id ` set (sweep_from mk w bs (insert (bid_order_id b) os) (insert (bid_truck_id b) ts))"
    by (metis imageE)+
  with 2 show ?case by (simp add: award_of_def)
qed simp

lemma sweep_from_maximal:
  "bs = ys @ x # zs \<Longrightarrow> bid_live mk x \<Longrightarrow> bid_order_id x \<in> os \<or> bid_truck_id x \<in> ts \<or>
     (\<exists>y\<in>set (ys @ [x]). y \<in> bid_of ` set (sweep_from mk w bs os ts) \<and>
        (bid_order_id y = bid_order_id x \<or> bid_truck_id y = bid_truck_id x))"
proof (induction ys arbitrary: bs os ts)
  case Nil
  then show ?case by (auto simp: bid_live_def)
next
  case (Cons y ys)
  let ?tl = "ys @ x # zs"
  show ?case
  proof (cases "bid_order_id y \<in> os \<or> bid_truck_id y \<in> ts \<or> \<not> bid_live mk y")
    case True
    then have "sweep_from mk w bs os ts = sweep_from mk w ?tl os ts" using Cons.prems by (auto simp: bid_live_def)
    with Cons.IH [of ?tl os ts] Cons.prems show ?thesis by auto
  next
    case False
    then have eq: "sweep_from mk w bs os ts = award_of w y # sweep_from mk w ?tl (insert (bid_order_id y) os) (insert (bid_truck_id y) ts)"
      using Cons.prems by (auto simp: bid_live_def)
    from Cons.IH [of ?tl "insert (bid_order_id y) os" "insert (bid_truck_id y) ts"] Cons.prems
    show ?thesis unfolding eq by auto
  qed
qed

interpretation arbsweep: ranked_sweep "\<lambda>bs. map bid_of (sweep mk w bs)" bid_order_id bid_truck_id "bid_live mk"
  for mk w
proof
  fix xs :: "bid list"
  show "subseq (map bid_of (sweep mk w xs)) xs" by (simp add: sweep_def sweep_from_subseq)
  show "bid_live mk x" if "x \<in> set (map bid_of (sweep mk w xs))" for x
    using that sweep_from_live by (auto simp: sweep_def)
  show "distinct (map bid_order_id (map bid_of (sweep mk w xs)))" "distinct (map bid_truck_id (map bid_of (sweep mk w xs)))"
    using sweep_from_distinct [of mk w xs "{}" "{}"] by (simp_all add: sweep_def comp_def)
next
  fix xs ys zs and x :: bid
  assume "xs = ys @ x # zs" "bid_live mk x"
  from sweep_from_maximal [OF this, of "{}" "{}" w]
  show "\<exists>y\<in>set (ys @ [x]). y \<in> set (map bid_of (sweep mk w xs)) \<and> (bid_order_id y = bid_order_id x \<or> bid_truck_id y = bid_truck_id x)"
    by (simp add: sweep_def)
qed

section \<open>The contract the planner relies on\<close>

locale arbitration_contract =
  fixes rule :: "pool_market \<Rightarrow> bid list \<Rightarrow> 'r \<Rightarrow> award list \<times> 'r"
    and owner :: "string \<Rightarrow> string option"
  assumes from_bids: "a \<in> set (fst (rule mk bids r)) \<Longrightarrow> bid_of a \<in> set bids \<and> a = award_of owner (bid_of a)"
    and awards_free: "a \<in> set (fst (rule mk bids r)) \<Longrightarrow> is_order_free mk (aw_order_id a) \<and> is_truck_free mk (aw_truck_id a)"
    and awards_disjoint: "distinct (map aw_order_id (fst (rule mk bids r))) \<and> distinct (map aw_truck_id (fst (rule mk bids r)))"
    and awards_some: "b \<in> set bids \<Longrightarrow> bid_live mk b \<Longrightarrow> fst (rule mk bids r) \<noteq> []"
begin

text \<open>The market accepts every award of a rule.\<close>

lemma commits_all: "market_ok mk \<Longrightarrow>
    awards (fold (\<lambda>a mk. fst (commit a mk)) (fst (rule mk bids r)) mk) = awards mk @ fst (rule mk bids r)"
  using awards_free awards_disjoint by (intro ledger.fold_accepts) auto

lemma no_live_bid: "fst (rule mk bids r) = [] \<Longrightarrow> b \<in> set bids \<Longrightarrow> \<not> bid_live mk b"
  using awards_some by blast

end

text \<open>Any ranking of the bids leads to a rule that keeps the contract.\<close>

lemma swept_rule_contract:
  assumes "\<And>bids r. set (fst (rank bids r)) = set bids"
  shows "arbitration_contract (\<lambda>mk bids r. (sweep mk w (fst (rank bids r)), r' bids r)) w"
proof
  fix a mk bids r
  assume "a \<in> set (fst (sweep mk w (fst (rank bids r)), r' bids r))"
  then have a: "a \<in> set (sweep mk w (fst (rank bids r)))" by simp
  then have "bid_of a \<in> set (fst (rank bids r))" using arbsweep.kept_subset [of mk w "fst (rank bids r)"] by auto
  then show "bid_of a \<in> set bids \<and> a = award_of w (bid_of a)"
    using a assms sweep_from_awards by (auto simp: sweep_def)
  have "bid_live mk (bid_of a)" using arbsweep.kept_live [of "bid_of a" mk w "fst (rank bids r)"] a by simp
  then show "is_order_free mk (aw_order_id a) \<and> is_truck_free mk (aw_truck_id a)" by (simp add: bid_live_def)
next
  fix mk bids r
  show "distinct (map aw_order_id (fst (sweep mk w (fst (rank bids r)), r' bids r))) \<and>
      distinct (map aw_truck_id (fst (sweep mk w (fst (rank bids r)), r' bids r)))"
    using sweep_from_distinct by (simp add: sweep_def)
next
  fix b bids mk r
  assume "b \<in> set bids" "bid_live mk b"
  then obtain ys zs where "fst (rank bids r) = ys @ b # zs" using in_set_splits assms by metis
  from arbsweep.kept_maximal [OF this \<open>bid_live mk b\<close>, of w]
  show "fst (sweep mk w (fst (rank bids r)), r' bids r) \<noteq> []" by auto
qed

lemma set_ranked_bids: "rng_ok g \<Longrightarrow> set (fst (ranked_bids rule blake seed w g bids r)) = set bids"
  by (cases rule) (simp_all add: rng_shuffle_set)

lemma resolve_eq: "resolve rule blake seed w g mk bids r =
    (sweep mk w (fst (ranked_bids rule blake seed w g bids r)), snd (ranked_bids rule blake seed w g bids r))"
  by (simp add: resolve_def split_beta)

lemma resolve_keeps_contract:
  assumes "\<And>bids r. set (fst (ranked_bids rule blake seed w g bids r)) = set bids"
  shows "arbitration_contract (resolve rule blake seed w g) w"
proof -
  have "resolve rule blake seed w g = (\<lambda>mk bids r.
      (sweep mk w (fst (ranked_bids rule blake seed w g bids r)), snd (ranked_bids rule blake seed w g bids r)))"
    by (simp add: fun_eq_iff resolve_eq)
  then show ?thesis
    using swept_rule_contract [of "\<lambda>bids r. ranked_bids rule blake seed w g bids r" w] assms by simp
qed

lemma resolve_contract: "rng_ok g \<Longrightarrow> arbitration_contract (resolve rule blake seed w g) w"
  by (rule resolve_keeps_contract) (rule set_ranked_bids)

interpretation lowest_cost: arbitration_contract "resolve LowestCostRule blake seed w g" w for blake seed w g
  by (rule resolve_keeps_contract) simp

interpretation owner_first: arbitration_contract "resolve OwnerFirstRule blake seed w g" w for blake seed w g
  by (rule resolve_keeps_contract) simp

interpretation highest_benefit: arbitration_contract "resolve HighestBenefitRule blake seed w g" w for blake seed w g
  by (rule resolve_keeps_contract) simp

section \<open>Ranking lemmas\<close>

text \<open>The reserve of an order is the least finite cost its owner bid.\<close>

definition owner_costs :: "(string \<Rightarrow> string option) \<Rightarrow> bid list \<Rightarrow> string \<Rightarrow> real set" where
  "owner_costs w bids oid =
     (fin_val \<circ> bid_cost_km) ` {b \<in> set bids. bid_order_id b = oid \<and> Some (bid_haulier_id b) = w oid \<and> is_fin (bid_cost_km b)}"

lemma reserve_from_lookup:
  "map_of (reserve_from w bids d) oid =
     (let S = owner_costs w bids oid in
      case map_of d oid of
        None \<Rightarrow> if S = {} then None else Some (Min S)
      | Some c \<Rightarrow> Some (Min (insert c S)))"
proof (induction bids arbitrary: d)
  case Nil
  then show ?case by (simp add: owner_costs_def split: option.split)
next
  case (Cons b bids)
  let ?S = "owner_costs w bids oid"
  have fin: "finite ?S" by (simp add: owner_costs_def)
  show ?case
  proof (cases "bid_order_id b = oid \<and> Some (bid_haulier_id b) = w oid \<and> is_fin (bid_cost_km b)")
    case True
    then have S: "owner_costs w (b # bids) oid = insert (fin_val (bid_cost_km b)) ?S" by (auto simp: owner_costs_def)
    show ?thesis unfolding S using True fin
      by (cases "map_of d oid") (auto simp: Cons Let_def min_def insert_commute Min_insert2 intro!: Min_eqI)
  next
    case False
    then have S: "owner_costs w (b # bids) oid = ?S" by (auto simp: owner_costs_def)
    show ?thesis unfolding S using False by (auto simp: Cons Let_def split: option.split)
  qed
qed

lemma reserve_perm: "set bids = set bids' \<Longrightarrow> map_of (reserve_from w bids []) = map_of (reserve_from w bids' [])"
  by (simp add: fun_eq_iff reserve_from_lookup owner_costs_def)

lemma inj_on_key: "inj_on identity_key S \<Longrightarrow> (\<And>b. identity_key b = p (key b)) \<Longrightarrow> inj_on key S"
  by (metis inj_on_def)

lemma key_identity:
  assumes "inj_on identity_key S"
  shows "inj_on (lowest_cost_key blake seed) S" "inj_on (owner_first_key blake seed w) S"
    "inj_on (highest_benefit_key blake seed d) S" "inj_on (canonical_key blake seed) S"
proof -
  show "inj_on (lowest_cost_key blake seed) S"
    by (rule inj_on_key [OF assms, of "\<lambda>k. snd (snd k)"]) (simp add: lowest_cost_key_def)
  show "inj_on (owner_first_key blake seed w) S"
    by (rule inj_on_key [OF assms, of "\<lambda>k. snd (snd (snd k))"]) (simp add: owner_first_key_def lowest_cost_key_def)
  show "inj_on (highest_benefit_key blake seed d) S"
    by (rule inj_on_key [OF assms, of "\<lambda>k. snd (snd (snd k))"]) (simp add: highest_benefit_key_def split: option.split)
  show "inj_on (canonical_key blake seed) S"
    by (rule inj_on_key [OF assms, of snd]) (simp add: canonical_key_def)
qed

lemma ranked_bids_perm:
  assumes "mset bids = mset bids'" and "inj_on identity_key (set bids)"
  shows "ranked_bids rule blake seed w g bids r = ranked_bids rule blake seed w g bids' r"
proof -
  have "set bids = set bids'" using assms(1) by (rule mset_eq_setD)
  then have "map_of (reserve_from w bids []) = map_of (reserve_from w bids' [])" by (rule reserve_perm)
  then have "benefit (reserve_from w bids []) = benefit (reserve_from w bids' [])"
    by (simp add: benefit_def fun_eq_iff)
  then have key: "highest_benefit_key blake seed (reserve_from w bids []) = highest_benefit_key blake seed (reserve_from w bids' [])"
    by (simp add: highest_benefit_key_def fun_eq_iff)
  show ?thesis
    using sort_key_perm [OF assms(1) key_identity(1) [OF assms(2)]] sort_key_perm [OF assms(1) key_identity(2) [OF assms(2)]]
      sort_key_perm [OF assms(1) key_identity(3) [OF assms(2)]] sort_key_perm [OF assms(1) key_identity(4) [OF assms(2)]]
    by (cases rule) (simp_all add: key)
qed

lemma lex_le_fst: "(a, b) \<le> (c, d) \<Longrightarrow> a \<le> (c :: 'a :: linorder)" for b d :: "'b :: linorder"
  by (auto simp: less_eq_prod_def)

lemma key_le_cost: "lowest_cost_key blake seed a \<le> lowest_cost_key blake seed b \<Longrightarrow> cost_rank a \<le> cost_rank b"
  unfolding lowest_cost_key_def by (rule lex_le_fst)

section \<open>Properties\<close>

text \<open>
  C8. Awards are safe for every registered rule and every generator of random numbers: each award is one of
  the bids, with the owner looked up for its order, on an order and a truck that are still free; no
  two awards share an order or a truck; the market accepts all of them; and as long as
  some bid is on a free order and a free truck there is at least one award.
\<close>

theorem resolve_safe:
  assumes "rng_ok g" and "market_ok mk" and "resolve rule blake seed owner_of g mk bids r = (out, r')"
  shows "(\<forall>a\<in>set out. bid_of a \<in> set bids \<and> aw_owner_haulier_id a = owner_of (aw_order_id a) \<and>
      is_order_free mk (aw_order_id a) \<and> is_truck_free mk (aw_truck_id a)) \<and>
    distinct (map aw_order_id out) \<and> distinct (map aw_truck_id out) \<and>
    awards (fold (\<lambda>a mk. fst (commit a mk)) out mk) = awards mk @ out \<and>
    (out = [] \<longrightarrow> (\<forall>b\<in>set bids. \<not> bid_live mk b))"
proof -
  note rule = resolve_contract [OF assms(1), of rule blake seed owner_of]
  have out: "out = fst (resolve rule blake seed owner_of g mk bids r)" by (simp add: assms(3))
  have "aw_owner_haulier_id a = owner_of (aw_order_id a)" if "a = award_of owner_of (bid_of a)" for a
    by (subst that) (simp add: award_of_def)
  then show ?thesis
    using arbitration_contract.from_bids [OF rule, of _ mk bids r] arbitration_contract.awards_free [OF rule, of _ mk bids r]
      arbitration_contract.awards_disjoint [OF rule, of mk bids r] arbitration_contract.commits_all [OF rule assms(2), of bids r]
      arbitration_contract.no_live_bid [OF rule, of mk bids r]
    unfolding out by blast
qed

text \<open>Two hauliers bid for the one pooled order.\<close>

definition bid_a :: bid where
  "bid_a = \<lparr>bid_haulier_id = ''a'', bid_order_id = ''o1'', bid_truck_id = ''t1'', bid_cost_km = Fin 7, bid_pool_id = None, bid_round = 0\<rparr>"

definition bid_b :: bid where
  "bid_b = \<lparr>bid_haulier_id = ''b'', bid_order_id = ''o1'', bid_truck_id = ''t2'', bid_cost_km = Fin 3, bid_pool_id = Some ''p1'', bid_round = 0\<rparr>"

lemma demo_market_free [simp]: "is_order_free demo_market x" "is_truck_free demo_market y"
  by (simp_all add: demo_market_eq is_order_free_def is_truck_free_def)

theorem resolve_safe_witness:
  "\<exists>out r'. resolve RandomAwardRule (\<lambda>s. length s) 5 (\<lambda>x. Some ''a'') id_rng demo_market [bid_a, bid_b] () = (out, r') \<and>
     awards (fold (\<lambda>a mk. fst (commit a mk)) out demo_market) = out"
proof -
  obtain out r' where r: "resolve RandomAwardRule (\<lambda>s. length s) 5 (\<lambda>x. Some ''a'') id_rng demo_market [bid_a, bid_b] () = (out, r')"
    by (metis surj_pair)
  have "awards demo_market = []" by (simp add: demo_market_eq awards_def)
  with resolve_safe [OF id_rng_ok market_reachable_ok [OF demo_market_reachable] r] r show ?thesis by auto
qed

text \<open>
  Order independence. When no two bids have the same order, truck and haulier, every registered rule
  returns the same awards, in the same order, for every permutation of the bids (and for the random rule
  leaves the generator in the same state).
\<close>

theorem resolve_order_independent:
  assumes "mset bids = mset bids'" and "inj_on identity_key (set bids)"
  shows "resolve rule blake seed owner_of g mk bids r = resolve rule blake seed owner_of g mk bids' r"
  using ranked_bids_perm [OF assms, of rule blake seed owner_of g r] by (simp add: resolve_def)

theorem resolve_order_independent_witness:
  "resolve HighestBenefitRule (\<lambda>s. 0) 5 (\<lambda>x. Some ''a'') id_rng demo_market [bid_a, bid_b] () =
   resolve HighestBenefitRule (\<lambda>s. 0) 5 (\<lambda>x. Some ''a'') id_rng demo_market [bid_b, bid_a] ()"
  by (rule resolve_order_independent) (simp_all add: bid_a_def bid_b_def identity_key_def add_mset_commute)

text \<open>
  Without that condition the outcome does depend on the order of the list: two bids of one haulier
  for the same order and truck at the same cost, seen through different pools, tie in every component of the
  rank, so the pool recorded on the award is that of whichever bid came first.
\<close>

theorem resolve_order_dependent:
  "fst (resolve LowestCostRule blake seed owner_of g demo_market [bid_b, bid_b\<lparr>bid_pool_id := Some ''p2''\<rparr>] r) \<noteq>
   fst (resolve LowestCostRule blake seed owner_of g demo_market [bid_b\<lparr>bid_pool_id := Some ''p2''\<rparr>, bid_b] r)"
proof -
  have "lowest_cost_key blake seed (bid_b\<lparr>bid_pool_id := Some ''p2''\<rparr>) = lowest_cost_key blake seed bid_b"
    by (simp add: lowest_cost_key_def cost_rank_def bid_tiebreak_def identity_key_def)
  then show ?thesis by (simp add: resolve_def sweep_def award_of_def) (simp add: bid_b_def)
qed



end
