(* ===== verification/Match_Constraints.thy ===== *)
theory Match_Constraints
  imports Market_Pools
begin

text \<open>
  Which truck may take which order, and at what cost (\<open>assignment/constraints.py\<close>). A document is a record
  of the fields the code reads; ids, names and sizes are text and coordinates are numbers. Trigonometry is
  that of the real numbers.
\<close>

section \<open>Documents\<close>

text \<open>A field that may be absent, null or present.\<close>

datatype 'a jfield = Absent | Null | Val 'a

fun jget :: "'a jfield \<Rightarrow> 'a option" where
  "jget (Val v) = Some v"
| "jget _ = None"

fun jget_or :: "'a jfield \<Rightarrow> 'a \<Rightarrow> 'a option" where
  "jget_or (Val v) dflt = Some v"
| "jget_or Null dflt = None"
| "jget_or Absent dflt = Some dflt"

text \<open>A location: something that is no GeoJSON object with a coordinate list, or its coordinate list.\<close>

datatype raw_loc = NoLoc | Loc "real list"

type_synonym point = "real \<times> real"

record entity =
  e_id :: "string option"
  e_haulier_id :: "string option"
  e_prof_haulier_id :: "string option"

record truck_doc = entity +
  t_state :: "string option"
  t_current_loc :: raw_loc
  t_last_known_loc :: raw_loc
  t_init_loc :: raw_loc
  t_last_dropoff_loc :: raw_loc
  t_home_facility_name :: "string option"
  t_last_dropoff_facility_name :: "string option"
  t_truck_size :: "string jfield"
  t_restricted_areas :: "string list"

record order_doc = entity +
  o_pickup_loc :: raw_loc
  o_dropoff_loc :: raw_loc
  o_prof_pickup_loc :: raw_loc
  o_prof_dropoff_loc :: raw_loc
  o_pickup_facility_name :: "string option"
  o_dropoff_facility_name :: "string option"
  o_prof_order_size :: "string option"
  o_order_size :: "string option"

record facility_cfg =
  f_name :: "string jfield"
  f_lat :: "real jfield"
  f_lon :: "real jfield"

section \<open>Geometry\<close>

fun as_point :: "raw_loc \<Rightarrow> point option" where
  "as_point (Loc (lon # lat # rest)) = Some (lon, lat)"
| "as_point _ = None"

definition radians :: "real \<Rightarrow> real" where
  "radians d = d * pi / 180"

definition haversine_h :: "point \<Rightarrow> point \<Rightarrow> real" where
  "haversine_h a b =
     (let lon1 = radians (fst a); lat1 = radians (snd a); lon2 = radians (fst b); lat2 = radians (snd b);
          dlon = lon2 - lon1; dlat = lat2 - lat1
      in (sin (dlat / 2))\<^sup>2 + cos lat1 * cos lat2 * (sin (dlon / 2))\<^sup>2)"

definition haversine_km :: "point \<Rightarrow> point \<Rightarrow> real" where
  "haversine_km a b = 2 * 6371 * arcsin (min 1 (sqrt (haversine_h a b)))"

definition haversine_seconds :: "point \<Rightarrow> point \<Rightarrow> real \<Rightarrow> real option" where
  "haversine_seconds a b assumed_kmh =
     (let dist_m = 2 * 6371000 * arcsin (min 1 (sqrt (haversine_h a b)))
      in if assumed_kmh \<le> 0 then None else Some (dist_m / (1000 * assumed_kmh / 3600)))"

section \<open>Facilities and anchors\<close>

definition default_facilities :: "(string \<times> real \<times> real) list" where
  "default_facilities = [(''pickup_terminal_a'', 1290 / 1000, 103850 / 1000), (''dropoff_terminal_b'', 1330 / 1000, 103930 / 1000)]"

text \<open>Name, latitude and longitude of each configured facility, with defaults for absent fields.\<close>

definition configured_facilities :: "facility_cfg list \<Rightarrow> (string option \<times> real option \<times> real option) list" where
  "configured_facilities facilities =
     (if facilities = [] then map (\<lambda>(n, la, lo). (Some n, Some la, Some lo)) default_facilities
      else map (\<lambda>(idx, item). case default_facilities ! (idx mod length default_facilities) of
             (n, la, lo) \<Rightarrow> (jget_or (f_name item) n, jget_or (f_lat item) la, jget_or (f_lon item) lo))
           (enumerate 0 facilities))"

definition facility_center_by_name :: "facility_cfg list \<Rightarrow> string option \<Rightarrow> point option" where
  "facility_center_by_name facilities name =
     (case name of
        None \<Rightarrow> None
      | Some n \<Rightarrow>
          if n = [] then None
          else case List.find (\<lambda>(m, la, lo). m = Some n) (configured_facilities facilities) of
            Some (m, Some la, Some lo) \<Rightarrow> Some (lo, la)
          | _ \<Rightarrow> None)"

fun first_point :: "raw_loc list \<Rightarrow> point option" where
  "first_point [] = None"
| "first_point (l # ls) = (case as_point l of Some p \<Rightarrow> Some p | None \<Rightarrow> first_point ls)"

definition truck_anchor_loc :: "facility_cfg list \<Rightarrow> truck_doc \<Rightarrow> point option" where
  "truck_anchor_loc facilities t =
     (case first_point [t_current_loc t, t_last_known_loc t, t_init_loc t] of
        Some p \<Rightarrow> Some p
      | None \<Rightarrow> facility_center_by_name facilities (t_home_facility_name t))"

definition order_pickup_loc :: "order_doc \<Rightarrow> point option" where
  "order_pickup_loc ord = first_point [o_pickup_loc ord, o_prof_pickup_loc ord]"

definition order_dropoff_loc :: "order_doc \<Rightarrow> point option" where
  "order_dropoff_loc ord = first_point [o_dropoff_loc ord, o_prof_dropoff_loc ord]"

definition estimate_reposition_duration_seconds :: "facility_cfg list \<Rightarrow> truck_doc \<Rightarrow> order_doc \<Rightarrow> real option" where
  "estimate_reposition_duration_seconds facilities t ord =
     (case truck_anchor_loc facilities t of
        None \<Rightarrow> None
      | Some a \<Rightarrow> (case order_pickup_loc ord of None \<Rightarrow> None | Some p \<Rightarrow> haversine_seconds a p 40))"

definition truck_last_dropoff_loc :: "truck_doc \<Rightarrow> point option" where
  "truck_last_dropoff_loc t = as_point (t_last_dropoff_loc t)"

definition truck_last_dropoff_facility :: "truck_doc \<Rightarrow> string option" where
  "truck_last_dropoff_facility t = (if t_last_dropoff_facility_name t = Some [] then None else t_last_dropoff_facility_name t)"

section \<open>Cost\<close>

definition param_or :: "(string, real) dict \<Rightarrow> string \<Rightarrow> real \<Rightarrow> real" where
  "param_or params k dflt = (case map_of params k of None \<Rightarrow> dflt | Some v \<Rightarrow> v)"

definition is_dual_cycle :: "(string, real) dict \<Rightarrow> truck_doc \<Rightarrow> order_doc \<Rightarrow> point \<Rightarrow> bool" where
  "is_dual_cycle params t ord pickup =
     (case (truck_last_dropoff_facility t, o_pickup_facility_name ord) of
        (Some last_fac, Some pickup_fac) \<Rightarrow> last_fac = pickup_fac \<or>
          (case truck_last_dropoff_loc t of
             None \<Rightarrow> False | Some l \<Rightarrow> haversine_km l pickup \<le> param_or params ''dual_cycle_radius_km'' (1 / 2))
      | _ \<Rightarrow>
          (case truck_last_dropoff_loc t of
             None \<Rightarrow> False | Some l \<Rightarrow> haversine_km l pickup \<le> param_or params ''dual_cycle_radius_km'' (1 / 2)))"

definition assignment_cost :: "facility_cfg list \<Rightarrow> truck_doc \<Rightarrow> order_doc \<Rightarrow> (string, real) dict \<Rightarrow> pyfloat" where
  "assignment_cost facilities t ord params =
     (case (order_pickup_loc ord, truck_anchor_loc facilities t) of
        (Some pickup, Some anchor) \<Rightarrow>
          (let base_km = haversine_km anchor pickup;
               bonus_km = param_or params ''dual_cycle_bonus_km'' 5;
               cost = base_km - (if is_dual_cycle params t ord pickup then bonus_km else 0)
           in Fin (max 0 cost))
      | _ \<Rightarrow> PInf)"

section \<open>Hauliers and feasibility\<close>

definition haulier_of :: "'a entity_scheme \<Rightarrow> string option" where
  "haulier_of e =
     (let hid = (case e_haulier_id e of None \<Rightarrow> e_prof_haulier_id e | Some h \<Rightarrow> Some h)
      in if hid = Some [] then None else hid)"

definition haulier_matches :: "truck_doc \<Rightarrow> order_doc \<Rightarrow> bool" where
  "haulier_matches t ord =
     (case (haulier_of t, haulier_of ord) of (Some a, Some b) \<Rightarrow> a = b | _ \<Rightarrow> False)"

definition order_size_of :: "order_doc \<Rightarrow> string" where
  "order_size_of ord =
     (case o_prof_order_size ord of
        Some (c # cs) \<Rightarrow> c # cs
      | _ \<Rightarrow> (case o_order_size ord of Some (c # cs) \<Rightarrow> c # cs | _ \<Rightarrow> ''1x20''))"

definition size_compatible :: "truck_doc \<Rightarrow> order_doc \<Rightarrow> bool" where
  "size_compatible t ord \<longleftrightarrow>
     \<not> (jget_or (t_truck_size t) ''20ft'' = Some ''20ft'' \<and> order_size_of ord \<in> {''2x20'', ''2x20ft'', ''40ft''})"

definition restricted_area_blocks :: "truck_doc \<Rightarrow> order_doc \<Rightarrow> bool" where
  "restricted_area_blocks t ord \<longleftrightarrow>
     t_restricted_areas t \<noteq> [] \<and>
     list_ex (\<lambda>name. case name of None \<Rightarrow> False | Some n \<Rightarrow> n \<noteq> [] \<and> n \<in> set (t_restricted_areas t))
       [o_pickup_facility_name ord, o_dropoff_facility_name ord]"

definition within_max_reposition_seconds ::
    "facility_cfg list \<Rightarrow> truck_doc \<Rightarrow> order_doc \<Rightarrow> pyval \<Rightarrow> bool" where
  "within_max_reposition_seconds facilities t ord max_seconds =
     (case (if max_seconds = PyNone then Inl TypeError else py_float max_seconds) of
        Inl _ \<Rightarrow> True
      | Inr cap \<Rightarrow>
          py_le cap (Fin 0) \<or>
          (case estimate_reposition_duration_seconds facilities t ord of None \<Rightarrow> True | Some eta \<Rightarrow> py_le (Fin eta) cap))"

definition pair_allowed_ignoring_haulier ::
    "facility_cfg list \<Rightarrow> pyval \<Rightarrow> truck_doc \<Rightarrow> order_doc \<Rightarrow> bool" where
  "pair_allowed_ignoring_haulier facilities max_travel_time_pickup t ord \<longleftrightarrow>
     size_compatible t ord \<and> \<not> restricted_area_blocks t ord \<and>
     within_max_reposition_seconds facilities t ord max_travel_time_pickup"

definition pair_allowed :: "facility_cfg list \<Rightarrow> pyval \<Rightarrow> truck_doc \<Rightarrow> order_doc \<Rightarrow> bool" where
  "pair_allowed facilities max_travel_time_pickup t ord \<longleftrightarrow>
     haulier_matches t ord \<and> pair_allowed_ignoring_haulier facilities max_travel_time_pickup t ord"

section \<open>Cooperation structures\<close>

text \<open>\<open>{s.get("id"): s ...}\<close>: later structures with the same id replace earlier ones.\<close>

fun dict_structs :: "pyval list \<Rightarrow> (pyval, pyval) dict \<Rightarrow> (pyval, pyval) dict" where
  "dict_structs [] by_id = by_id"
| "dict_structs (v # vs) by_id =
     dict_structs vs (case v of PyDict s \<Rightarrow> AList.update (py_get s ''id'') (PyDict s) by_id | _ \<Rightarrow> by_id)"

definition active_cooperation_structure :: "(string, pyval) dict \<Rightarrow> pyval" where
  "active_cooperation_structure profile =
     (case py_get profile ''cooperation'' of
        PyDict coop \<Rightarrow>
          (case py_get coop ''structures'' of
             PyList structures \<Rightarrow>
               (case map_of (dict_structs structures []) (py_get coop ''active'') of None \<Rightarrow> PyNone | Some s \<Rightarrow> s)
           | _ \<Rightarrow> PyNone)
      | _ \<Rightarrow> PyNone)"

text \<open>Partner lists hold haulier ids, which are text.\<close>

fun partner_ids :: "pyval list \<Rightarrow> string list" where
  "partner_ids [] = []"
| "partner_ids (v # vs) = (case v of PyStr s \<Rightarrow> s # partner_ids vs | _ \<Rightarrow> partner_ids vs)"

definition share_adjacency :: "pyval \<Rightarrow> (string, string set) dict" where
  "share_adjacency structure =
     (case structure of
        PyDict st \<Rightarrow>
          (case py_get st ''adjacency'' of
             PyDict adj \<Rightarrow> List.map_filter (\<lambda>(k, v). case v of PyList ps \<Rightarrow> Some (k, set (partner_ids ps)) | _ \<Rightarrow> None) adj
           | _ \<Rightarrow> [])
      | _ \<Rightarrow> [])"

definition share_eligible :: "truck_doc \<Rightarrow> order_doc \<Rightarrow> (string, string set) dict \<Rightarrow> bool" where
  "share_eligible t ord adjacency =
     (case (haulier_of t, haulier_of ord) of
        (Some th, Some oh) \<Rightarrow> th \<noteq> oh \<and> oh \<in> (case map_of adjacency th of None \<Rightarrow> {} | Some s \<Rightarrow> s)
      | _ \<Rightarrow> False)"

definition filter_assignable_trucks ::
    "truck_doc list \<Rightarrow> string set \<Rightarrow> bool \<Rightarrow> bool \<Rightarrow> string \<Rightarrow> truck_doc list" where
  "filter_assignable_trucks trucks busy respect_online reject_busy online_state =
     filter (\<lambda>t. case e_id t of
         None \<Rightarrow> False
       | Some tid \<Rightarrow> \<not> (respect_online \<and> t_state t \<noteq> Some online_state) \<and> \<not> (reject_busy \<and> tid \<in> busy)) trucks"

text \<open>The pools of a structure as plain entries: id and sorted members.\<close>

fun pool_entry :: "pyval \<Rightarrow> (string \<times> string list) option" where
  "pool_entry (PyDict entry) =
     (case py_get entry ''id'' of
        PyStr pid \<Rightarrow>
          if pid = [] then None
          else (case py_get entry ''members'' of
                  PyList members_raw \<Rightarrow>
                    (let members = sorted_set (str_items members_raw)
                     in if length members < 2 then None else Some (pid, members))
                | _ \<Rightarrow> None)
      | _ \<Rightarrow> None)"
| "pool_entry _ = None"

definition pools_of_structure :: "pyval \<Rightarrow> (string \<times> string list) list" where
  "pools_of_structure structure =
     (case structure of
        PyDict st \<Rightarrow> (case py_get st ''pools'' of PyList raw \<Rightarrow> List.map_filter pool_entry raw | _ \<Rightarrow> [])
      | _ \<Rightarrow> [])"

section \<open>Lemmas\<close>

lemma haversine_h_cos:
  "haversine_h a b = (1 - (cos (radians (snd a)) * cos (radians (snd b)) * cos (radians (fst b) - radians (fst a))
     + sin (radians (snd a)) * sin (radians (snd b)))) / 2"
proof -
  have half: "(sin (x / 2))\<^sup>2 = (1 - cos x) / 2" for x :: real
    using cos_double_sin [of "x / 2"] by simp
  show ?thesis
    unfolding haversine_h_def Let_def half cos_diff by (simp add: field_simps)
qed

text \<open>The haversine of two points is the half of one minus the cosine of the angle between them.\<close>

lemma haversine_h_range: "0 \<le> haversine_h a b" "haversine_h a b \<le> 1"
proof -
  let ?p = "radians (snd a)" and ?q = "radians (snd b)" and ?d = "radians (fst b) - radians (fst a)"
  let ?c = "cos ?p * cos ?q" and ?s = "sin ?p * sin ?q"
  have "\<bar>?c * cos ?d\<bar> \<le> \<bar>?c\<bar>" by (simp add: abs_mult mult_left_le)
  moreover have "\<bar>?c + ?s\<bar> \<le> 1" using abs_cos_le_one [of "?p - ?q"] by (simp only: cos_diff)
  moreover have "\<bar>?c - ?s\<bar> \<le> 1" using abs_cos_le_one [of "?p + ?q"] by (simp only: cos_add)
  ultimately have "-1 \<le> ?c * cos ?d + ?s" "?c * cos ?d + ?s \<le> 1" by (auto simp: abs_le_iff)
  then show "0 \<le> haversine_h a b" "haversine_h a b \<le> 1" by (simp_all add: haversine_h_cos)
qed

lemma haversine_h_sym: "haversine_h a b = haversine_h b a"
  unfolding haversine_h_cos by (simp add: cos_diff mult.commute)

lemma haversine_km_range: "0 \<le> haversine_km a b" "haversine_km a b \<le> 6371 * pi"
proof -
  let ?x = "sqrt (haversine_h a b)"
  have x: "0 \<le> ?x" "?x \<le> 1" using haversine_h_range [of a b] by simp_all
  then have "arcsin 0 \<le> arcsin ?x" "arcsin ?x \<le> arcsin 1" by (intro arcsin_le_arcsin; linarith)+
  then show "0 \<le> haversine_km a b" "haversine_km a b \<le> 6371 * pi"
    using x by (simp_all add: haversine_km_def)
qed

section \<open>Properties\<close>

text \<open>
  The distance is well defined for all coordinates, latitudes beyond the poles included: the argument
  of the square root is between 0 and 1, so the clamp at 1 never changes it in exact arithmetic; the
  distance lies between 0 and half the circumference of the earth, does not depend on the direction and is 0 from
  a point to itself.
\<close>

theorem haversine_distance:
  "0 \<le> haversine_h a b \<and> min 1 (sqrt (haversine_h a b)) = sqrt (haversine_h a b) \<and>
   0 \<le> haversine_km a b \<and> haversine_km a b \<le> 6371 * pi \<and>
   haversine_km a b = haversine_km b a \<and> haversine_km a a = 0"
proof -
  have "haversine_h a a = 0" by (simp add: haversine_h_def)
  then show ?thesis
    using haversine_h_range [of a b] haversine_km_range [of a b] haversine_h_sym [of a b]
    by (simp add: haversine_km_def)
qed

text \<open>
  The cost of a pair is infinite exactly when the pickup or the truck's anchor is unknown. Otherwise it is
  finite, never negative, the repositioning distance itself when the pair is no dual cycle, and the distance less
  the bonus, but at least 0, when it is. With a bonus that is not negative it never exceeds the distance.
\<close>

theorem assignment_cost_spec:
  "(assignment_cost facilities t ord params = PInf \<longleftrightarrow>
      order_pickup_loc ord = None \<or> truck_anchor_loc facilities t = None) \<and>
   (order_pickup_loc ord = Some p \<and> truck_anchor_loc facilities t = Some a \<longrightarrow>
     (\<exists>c. assignment_cost facilities t ord params = Fin c \<and> 0 \<le> c \<and>
        (\<not> is_dual_cycle params t ord p \<longrightarrow> c = haversine_km a p) \<and>
        (is_dual_cycle params t ord p \<longrightarrow> c = max 0 (haversine_km a p - param_or params ''dual_cycle_bonus_km'' 5)) \<and>
        (0 \<le> param_or params ''dual_cycle_bonus_km'' 5 \<longrightarrow> c \<le> haversine_km a p)))"
  using haversine_km_range(1) by (auto simp: assignment_cost_def Let_def split: option.splits)

text \<open>A truck and an order at the same place.\<close>

definition demo_truck :: truck_doc where
  "demo_truck = \<lparr>e_id = Some ''t1'', e_haulier_id = Some ''a'', e_prof_haulier_id = None, t_state = Some ''online'',
     t_current_loc = Loc [104, 1], t_last_known_loc = NoLoc, t_init_loc = NoLoc, t_last_dropoff_loc = NoLoc,
     t_home_facility_name = None, t_last_dropoff_facility_name = None, t_truck_size = Absent, t_restricted_areas = []\<rparr>"

definition demo_order :: order_doc where
  "demo_order = \<lparr>e_id = Some ''o1'', e_haulier_id = None, e_prof_haulier_id = Some ''a'', o_pickup_loc = Loc [104, 1],
     o_dropoff_loc = NoLoc, o_prof_pickup_loc = NoLoc, o_prof_dropoff_loc = NoLoc, o_pickup_facility_name = None,
     o_dropoff_facility_name = None, o_prof_order_size = None, o_order_size = None\<rparr>"

theorem assignment_cost_spec_witness:
  "\<exists>c. assignment_cost [] demo_truck demo_order [] = Fin c \<and> 0 \<le> c \<and> c \<le> haversine_km (104, 1) (104, 1)"
  using assignment_cost_spec [of "[]" demo_truck demo_order "[]" "(104, 1)" "(104, 1)"]
  by (auto simp: demo_truck_def demo_order_def order_pickup_loc_def truck_anchor_loc_def param_or_def)

text \<open>
  The haulier rules fail closed. An own-haulier pair is allowed only when both ids are known, non-empty and
  equal; a shared pair is eligible only when both are known, differ, and the order's haulier is listed as a
  partner of the truck's haulier; no pair is both. An unsuitable size, a restricted facility or a
  repositioning time above a positive limit rules a pair out whatever the hauliers.
\<close>

theorem haulier_rules_fail_closed:
  "(pair_allowed facilities cap t ord \<longleftrightarrow>
      (\<exists>h. haulier_of t = Some h \<and> haulier_of ord = Some h \<and> h \<noteq> []) \<and> pair_allowed_ignoring_haulier facilities cap t ord) \<and>
   (share_eligible t ord adj \<longleftrightarrow>
      (\<exists>h k s. haulier_of t = Some h \<and> haulier_of ord = Some k \<and> h \<noteq> [] \<and> k \<noteq> [] \<and> h \<noteq> k \<and>
         map_of adj h = Some s \<and> k \<in> s)) \<and>
   \<not> (pair_allowed facilities cap t ord \<and> share_eligible t ord adj) \<and>
   (pair_allowed_ignoring_haulier facilities (PyFloat (Fin m)) t ord \<and> 0 < m \<and> truck_anchor_loc facilities t = Some a \<and>
      order_pickup_loc ord = Some p \<longrightarrow> haversine_km a p * 90 \<le> m)"
proof -
  have ne: "haulier_of e \<noteq> Some []" for e :: "'x entity_scheme"
    by (simp add: haulier_of_def Let_def)
  have "haversine_km a p * 90 \<le> m"
    if "pair_allowed_ignoring_haulier facilities (PyFloat (Fin m)) t ord" "0 < m" "truck_anchor_loc facilities t = Some a" "order_pickup_loc ord = Some p"
    using that by (auto simp: pair_allowed_ignoring_haulier_def within_max_reposition_seconds_def
        estimate_reposition_duration_seconds_def haversine_seconds_def haversine_km_def py_le_def Let_def)
  then show ?thesis
    by (auto simp: pair_allowed_def haulier_matches_def share_eligible_def haulier_of_def Let_def
        split: option.splits if_splits)
qed

theorem haulier_rules_fail_closed_witness:
  "pair_allowed [] PyNone demo_truck demo_order \<and> \<not> share_eligible demo_truck demo_order [(''a'', {''a''})]"
proof -
  have "pair_allowed_ignoring_haulier [] PyNone demo_truck demo_order"
    by (simp add: pair_allowed_ignoring_haulier_def size_compatible_def order_size_of_def demo_truck_def demo_order_def
        restricted_area_blocks_def within_max_reposition_seconds_def)
  moreover have "haulier_of demo_truck = Some ''a''" "haulier_of demo_order = Some ''a''"
    by (simp_all add: haulier_of_def demo_truck_def demo_order_def)
  ultimately show ?thesis
    using haulier_rules_fail_closed [of "[]" PyNone demo_truck demo_order "[(''a'', {''a''})]" 1 "(0, 0)" "(0, 0)"] by auto
qed

lemma sorted_set_list: "sorted_set xs = sorted_list_of_set (set xs)"
  by (simp add: sorted_set_def sorted_list_of_set_sort_remdups)

lemma pool_entry_eq: "pool_entry v = map_option (\<lambda>p. (pool_id p, sorted_list_of_set (pool_members p))) (pool_from_entry v)"
  by (cases v) (auto simp: Let_def sorted_set_list split: pyval.split)

text \<open>
  The two readers of a structure's pools agree: the plain entries are, in the order of the document, the pools
  that the market reads from it, each with its id and its members in sorted order. (The market then keeps
  the last of several pools with one id.)
\<close>

theorem pools_of_structure_agrees:
  assumes "py_get st ''pools'' = PyList raw"
  shows "pools_of_structure (PyDict st) = map (\<lambda>p. (pool_id p, sorted_list_of_set (pool_members p))) (structure_items st)"
proof -
  have "List.map_filter pool_entry vs =
      map (\<lambda>p. (pool_id p, sorted_list_of_set (pool_members p))) (List.map_filter pool_from_entry vs)" for vs
    by (induction vs) (simp_all add: List.map_filter_simps pool_entry_eq split: option.split)
  then show ?thesis by (simp add: pools_of_structure_def structure_items_def assms)
qed

theorem pools_of_structure_agrees_witness:
  "pools_of_structure (PyDict [(''pools'', PyList [PyDict [(''id'', PyStr ''p1''), (''members'', PyList [PyStr ''b'', PyStr ''a''])]])]) =
     [(''p1'', [''a'', ''b''])]"
proof -
  let ?st = "[(''pools'', PyList [PyDict [(''id'', PyStr ''p1''), (''members'', PyList [PyStr ''b'', PyStr ''a''])]])]"
  have "structure_items ?st = [\<lparr>pool_id = ''p1'', pool_members = {''b'', ''a''}\<rparr>]"
    by (simp add: structure_items_def py_get_def List.map_filter_simps)
  moreover have "sorted_list_of_set {''b'', ''a''} = [''a'', ''b'']"
    by (simp add: sorted_list_of_set_insert_remove insert_Diff_if)
  ultimately show ?thesis using pools_of_structure_agrees [of ?st] by (simp add: py_get_def)
qed

end
