(* ===== verification/Match_Solver.thy ===== *)
theory Match_Solver
  imports Market_Arbitration Match_Constraints
begin

text \<open>
  The assignment solvers (\<open>assignment/solver/\<close>): the greedy nearest-pair solver with its two ways of breaking
  ties, and the random baseline. A cost function may return a value that \<open>float\<close> rejects with a TypeError,
  which is \<open>None\<close>; the greedy solver reads it as an unknown cost. Solver state (generator, tie-break seed) is passed in.
\<close>

type_synonym pair = "truck_doc \<times> order_doc"

section \<open>Greedy nearest\<close>

record scored_pair =
  sp_cost :: pyfloat
  sp_missing :: nat
  sp_truck :: truck_doc
  sp_order :: order_doc

definition score :: "(truck_doc \<Rightarrow> order_doc \<Rightarrow> pyfloat option) \<Rightarrow> pair \<Rightarrow> scored_pair" where
  "score cost = (\<lambda>(t, ord).
     let c = (case cost t ord of None \<Rightarrow> PInf | Some c \<Rightarrow> c)
     in if is_fin c then \<lparr>sp_cost = c, sp_missing = 0, sp_truck = t, sp_order = ord\<rparr>
        else \<lparr>sp_cost = PInf, sp_missing = 1, sp_truck = t, sp_order = ord\<rparr>)"

text \<open>\<open>str(doc.get("_id"))\<close>.\<close>

definition id_text :: "'a entity_scheme \<Rightarrow> string" where
  "id_text e = (case e_id e of None \<Rightarrow> ''None'' | Some s \<Rightarrow> s)"

definition cost_key :: "scored_pair \<Rightarrow> pyfloat \<times> nat" where
  "cost_key row = (sp_cost row, sp_missing row)"

definition total_key :: "(string \<Rightarrow> nat) \<Rightarrow> int \<Rightarrow> scored_pair \<Rightarrow> (pyfloat \<times> nat) \<times> nat" where
  "total_key blake seed row = (cost_key row, pair_tiebreak blake seed (id_text (sp_order row)) (id_text (sp_truck row)))"

fun greedy_from :: "scored_pair list \<Rightarrow> string option set \<Rightarrow> string option set \<Rightarrow> pair list" where
  "greedy_from [] used_trucks used_orders = []"
| "greedy_from (row # rows) used_trucks used_orders =
     (if e_id (sp_truck row) \<in> used_trucks \<or> e_id (sp_order row) \<in> used_orders
      then greedy_from rows used_trucks used_orders
      else (sp_truck row, sp_order row) #
        greedy_from rows (insert (e_id (sp_truck row)) used_trucks) (insert (e_id (sp_order row)) used_orders))"

text \<open>The rows in the order the sweep visits them: shuffled and sorted, or sorted with the tie-break.\<close>

definition rank_rows ::
    "(string \<Rightarrow> nat) \<Rightarrow> int option \<Rightarrow> 'r rng_ops \<Rightarrow> 'r \<Rightarrow> scored_pair list \<Rightarrow> scored_pair list \<times> 'r" where
  "rank_rows blake tiebreak_seed g r scored =
     (case tiebreak_seed of
        None \<Rightarrow> (case rng_shuffle g r scored of (shuffled, r') \<Rightarrow> (sort_key cost_key shuffled, r'))
      | Some seed \<Rightarrow> (sort_key (total_key blake seed) scored, r))"

definition solve_pairs ::
    "(string \<Rightarrow> nat) \<Rightarrow> int option \<Rightarrow> 'r rng_ops \<Rightarrow> (truck_doc \<Rightarrow> order_doc \<Rightarrow> pyfloat option)
     \<Rightarrow> pair list \<Rightarrow> 'r \<Rightarrow> pair list \<times> 'r" where
  "solve_pairs blake tiebreak_seed g cost candidate_pairs r =
     (let scored = map (score cost) candidate_pairs in
      if scored = [] then ([], r)
      else case rank_rows blake tiebreak_seed g r scored of (rows, r') \<Rightarrow> (greedy_from rows {} {}, r'))"

definition feasible_pairs ::
    "truck_doc list \<Rightarrow> order_doc list \<Rightarrow> (truck_doc \<Rightarrow> order_doc \<Rightarrow> bool) \<Rightarrow> pair list" where
  "feasible_pairs trucks orders pair_ok =
     concat (map (\<lambda>t. map (\<lambda>ord. (t, ord)) (filter (pair_ok t) orders)) trucks)"

definition greedy_solve ::
    "(string \<Rightarrow> nat) \<Rightarrow> int option \<Rightarrow> 'r rng_ops \<Rightarrow> truck_doc list \<Rightarrow> order_doc list
     \<Rightarrow> (truck_doc \<Rightarrow> order_doc \<Rightarrow> bool) \<Rightarrow> (truck_doc \<Rightarrow> order_doc \<Rightarrow> pyfloat option) \<Rightarrow> 'r \<Rightarrow> pair list \<times> 'r" where
  "greedy_solve blake tiebreak_seed g trucks orders pair_ok cost r =
     (if trucks = [] \<or> orders = [] then ([], r)
      else solve_pairs blake tiebreak_seed g cost (feasible_pairs trucks orders pair_ok) r)"

section \<open>Random assignment\<close>

fun random_from ::
    "'r rng_ops \<Rightarrow> truck_doc list \<Rightarrow> (truck_doc \<Rightarrow> order_doc \<Rightarrow> bool) \<Rightarrow> order_doc list \<Rightarrow> string option set
     \<Rightarrow> 'r \<Rightarrow> pair list \<times> 'r" where
  "random_from g trucks pair_ok [] used r = ([], r)"
| "random_from g trucks pair_ok (ord # orders) used r =
     (let candidates = filter (\<lambda>t. e_id t \<notin> used \<and> pair_ok t ord) trucks in
      if candidates = [] then random_from g trucks pair_ok orders used r
      else case rng_shuffle g r candidates of
        (shuffled, r') \<Rightarrow>
          (let chosen = hd shuffled in
           case random_from g trucks pair_ok orders (insert (e_id chosen) used) r' of
             (out, r'') \<Rightarrow> ((chosen, ord) # out, r'')))"

definition random_solve ::
    "'r rng_ops \<Rightarrow> truck_doc list \<Rightarrow> order_doc list \<Rightarrow> (truck_doc \<Rightarrow> order_doc \<Rightarrow> bool) \<Rightarrow> 'r \<Rightarrow> pair list \<times> 'r" where
  "random_solve g trucks orders pair_ok r =
     (case rng_shuffle g r orders of (shuffled, r') \<Rightarrow> random_from g trucks pair_ok shuffled {} r')"

section \<open>The registry\<close>

datatype solver = RandomAssignment | GreedyNearest

definition solver_registry :: "(string, solver) dict" where
  "solver_registry = [(''RandomAssignment'', RandomAssignment), (''GreedyNearest'', GreedyNearest)]"

definition get_solver :: "string option \<Rightarrow> solver" where
  "get_solver name =
     (let key = (case name of None \<Rightarrow> ''RandomAssignment'' | Some n \<Rightarrow> if n = [] then ''RandomAssignment'' else n) in
      case map_of solver_registry key of None \<Rightarrow> RandomAssignment | Some s \<Rightarrow> s)"

definition solve ::
    "solver \<Rightarrow> (string \<Rightarrow> nat) \<Rightarrow> int option \<Rightarrow> 'r rng_ops \<Rightarrow> truck_doc list \<Rightarrow> order_doc list
     \<Rightarrow> (truck_doc \<Rightarrow> order_doc \<Rightarrow> bool) \<Rightarrow> (truck_doc \<Rightarrow> order_doc \<Rightarrow> pyfloat option) \<Rightarrow> 'r \<Rightarrow> pair list \<times> 'r" where
  "solve s blake tiebreak_seed g trucks orders pair_ok cost r =
     (case s of
        RandomAssignment \<Rightarrow> random_solve g trucks orders pair_ok r
      | GreedyNearest \<Rightarrow> greedy_solve blake tiebreak_seed g trucks orders pair_ok cost r)"

section \<open>The greedy sweep keeps the sweep contract\<close>

definition row_truck :: "scored_pair \<Rightarrow> string option" where
  "row_truck row = e_id (sp_truck row)"

definition row_order :: "scored_pair \<Rightarrow> string option" where
  "row_order row = e_id (sp_order row)"

text \<open>The rows behind the pairs the sweep returns.\<close>

fun kept_rows :: "scored_pair list \<Rightarrow> string option set \<Rightarrow> string option set \<Rightarrow> scored_pair list" where
  "kept_rows [] ts os = []"
| "kept_rows (row # rows) ts os =
     (if row_truck row \<in> ts \<or> row_order row \<in> os then kept_rows rows ts os
      else row # kept_rows rows (insert (row_truck row) ts) (insert (row_order row) os))"

lemma greedy_from_rows: "greedy_from rows ts os = map (\<lambda>row. (sp_truck row, sp_order row)) (kept_rows rows ts os)"
  by (induction rows ts os rule: greedy_from.induct) (simp_all add: row_truck_def row_order_def)

lemma kept_rows_subseq: "subseq (kept_rows rows ts os) rows"
  by (induction rows ts os rule: kept_rows.induct) auto

lemma kept_rows_fresh: "x \<in> set (kept_rows rows ts os) \<Longrightarrow> row_truck x \<notin> ts \<and> row_order x \<notin> os"
  by (induction rows ts os rule: kept_rows.induct) (auto split: if_splits)

lemma kept_rows_distinct:
  "distinct (map row_order (kept_rows rows ts os)) \<and> distinct (map row_truck (kept_rows rows ts os))"
proof (induction rows ts os rule: kept_rows.induct)
  case (2 row rows ts os)
  have "row_truck row \<notin> row_truck ` set (kept_rows rows (insert (row_truck row) ts) (insert (row_order row) os))"
    "row_order row \<notin> row_order ` set (kept_rows rows (insert (row_truck row) ts) (insert (row_order row) os))"
    by (metis imageE insertCI kept_rows_fresh)+
  with 2 show ?case by simp
qed simp

lemma kept_rows_maximal:
  "rows = ys @ x # zs \<Longrightarrow> row_truck x \<in> ts \<or> row_order x \<in> os \<or>
     (\<exists>y\<in>set (ys @ [x]). y \<in> set (kept_rows rows ts os) \<and> (row_order y = row_order x \<or> row_truck y = row_truck x))"
proof (induction ys arbitrary: rows ts os)
  case (Cons y ys)
  let ?tl = "ys @ x # zs"
  show ?case
  proof (cases "row_truck y \<in> ts \<or> row_order y \<in> os")
    case True
    then have "kept_rows rows ts os = kept_rows ?tl ts os" using Cons.prems by simp
    with Cons.IH [of ?tl ts os] show ?thesis by auto
  next
    case False
    then have eq: "kept_rows rows ts os = y # kept_rows ?tl (insert (row_truck y) ts) (insert (row_order y) os)"
      using Cons.prems by simp
    from Cons.IH [of ?tl "insert (row_truck y) ts" "insert (row_order y) os"] show ?thesis unfolding eq by auto
  qed
qed auto

interpretation greedy: ranked_sweep "\<lambda>rows. kept_rows rows {} {}" row_order row_truck "\<lambda>row. True"
proof
  fix xs
  show "subseq (kept_rows xs {} {}) xs" by (rule kept_rows_subseq)
  show "distinct (map row_order (kept_rows xs {} {}))" "distinct (map row_truck (kept_rows xs {} {}))"
    by (simp_all add: kept_rows_distinct)
next
  fix xs ys zs and x :: scored_pair
  assume "xs = ys @ x # zs"
  from kept_rows_maximal [OF this, of "{}" "{}"]
  show "\<exists>y\<in>set (ys @ [x]). y \<in> set (kept_rows xs {} {}) \<and> (row_order y = row_order x \<or> row_truck y = row_truck x)"
    by simp
qed simp

section \<open>The contract of a solver\<close>

text \<open>What the assignment agent relies on: feasible pairs from the input, no truck and no order twice.\<close>

locale assignment_solver =
  fixes slv :: "truck_doc list \<Rightarrow> order_doc list \<Rightarrow> (truck_doc \<Rightarrow> order_doc \<Rightarrow> bool)
      \<Rightarrow> (truck_doc \<Rightarrow> order_doc \<Rightarrow> pyfloat option) \<Rightarrow> 'r \<Rightarrow> pair list \<times> 'r"
  assumes sound: "(t, ord) \<in> set (fst (slv trucks orders ok cost r)) \<Longrightarrow> t \<in> set trucks \<and> ord \<in> set orders \<and> ok t ord"
    and trucks_once: "distinct (map (e_id \<circ> fst) (fst (slv trucks orders ok cost r)))"
    and orders_once: "distinct (map e_id orders) \<Longrightarrow> distinct (map (e_id \<circ> snd) (fst (slv trucks orders ok cost r)))"
begin

lemma no_more_than_trucks: "length (fst (slv trucks orders ok cost r)) \<le> card (e_id ` set trucks)"
proof -
  let ?out = "fst (slv trucks orders ok cost r)"
  have "length ?out = card ((e_id \<circ> fst) ` set ?out)"
    using trucks_once [of trucks orders ok cost r] by (metis distinct_card length_map list.set_map)
  also have "\<dots> \<le> card (e_id ` set trucks)"
    using sound [where trucks = trucks and orders = orders and ok = ok and cost = cost and r = r]
    by (intro card_mono) (auto simp: image_iff)
  finally show ?thesis .
qed

end

lemma set_rank_rows: "rng_ok g \<Longrightarrow> set (fst (rank_rows blake seed g r rows)) = set rows"
  by (auto simp: rank_rows_def split_beta rng_shuffle_set split: option.split)

lemma sorted_rank_rows: "sorted (map cost_key (fst (rank_rows blake seed g r rows)))"
proof (cases seed)
  case None
  then show ?thesis by (simp add: rank_rows_def split_beta)
next
  case (Some s)
  have "sorted (map (total_key blake s) (sort_key (total_key blake s) rows))" by simp
  then have "sorted (map fst (map (total_key blake s) (sort_key (total_key blake s) rows)))"
    by (rule sorted_map_mono) (auto simp: mono_on_def less_eq_prod_def)
  then show ?thesis by (simp add: Some rank_rows_def total_key_def comp_def)
qed

lemma solve_pairs_rows:
  "fst (solve_pairs blake seed g cost ps r) =
     (if ps = [] then []
      else map (\<lambda>row. (sp_truck row, sp_order row)) (kept_rows (fst (rank_rows blake seed g r (map (score cost) ps))) {} {}))"
  by (simp add: solve_pairs_def greedy_from_rows split_beta)

lemma score_pair [simp]: "sp_truck (score cost p) = fst p" "sp_order (score cost p) = snd p"
  by (simp_all add: score_def split_beta Let_def)

lemma solve_pairs_subset:
  assumes "\<And>rows. set (fst (rank_rows blake seed g r rows)) \<subseteq> set rows"
  shows "set (fst (solve_pairs blake seed g cost ps r)) \<subseteq> set ps"
proof
  fix p assume "p \<in> set (fst (solve_pairs blake seed g cost ps r))"
  then obtain row where row: "p = (sp_truck row, sp_order row)"
      "row \<in> set (kept_rows (fst (rank_rows blake seed g r (map (score cost) ps))) {} {})"
    by (auto simp: solve_pairs_rows split: if_splits)
  then have "row \<in> set (map (score cost) ps)" using greedy.kept_subset assms by blast
  then show "p \<in> set ps" using row(1) by auto
qed

lemma solve_pairs_disjoint:
  "distinct (map (e_id \<circ> fst) (fst (solve_pairs blake seed g cost ps r)))"
  "distinct (map (e_id \<circ> snd) (fst (solve_pairs blake seed g cost ps r)))"
  using greedy.kept_trucks greedy.kept_orders by (simp_all add: solve_pairs_rows comp_def row_truck_def [abs_def] row_order_def [abs_def])

lemma feasible_pairs_iff: "(t, ord) \<in> set (feasible_pairs trucks orders ok) \<longleftrightarrow> t \<in> set trucks \<and> ord \<in> set orders \<and> ok t ord"
  by (auto simp: feasible_pairs_def)

lemma greedy_solver_contract:
  assumes "\<And>r rows. set (fst (rank_rows blake seed g r rows)) \<subseteq> set rows"
  shows "assignment_solver (greedy_solve blake seed g)"
proof
  fix t ord trucks orders ok cost r
  assume "(t, ord) \<in> set (fst (greedy_solve blake seed g trucks orders ok cost r))"
  then have "(t, ord) \<in> set (fst (solve_pairs blake seed g cost (feasible_pairs trucks orders ok) r))"
    by (auto simp: greedy_solve_def split: if_splits)
  then show "t \<in> set trucks \<and> ord \<in> set orders \<and> ok t ord"
    using solve_pairs_subset [OF assms] feasible_pairs_iff by blast
qed (simp_all add: greedy_solve_def solve_pairs_disjoint)

interpretation greedy_total: assignment_solver "greedy_solve blake (Some seed) g" for blake seed g
  by (rule greedy_solver_contract) (simp add: rank_rows_def)

lemma random_from_sound:
  assumes "rng_ok g"
  shows "(\<forall>(t, ord)\<in>set (fst (random_from g trucks ok orders used r)). t \<in> set trucks \<and> ord \<in> set orders \<and> ok t ord \<and> e_id t \<notin> used) \<and>
    distinct (map (e_id \<circ> fst) (fst (random_from g trucks ok orders used r))) \<and>
    subseq (map snd (fst (random_from g trucks ok orders used r))) orders"
proof (induction orders arbitrary: used r)
  case (Cons ord orders)
  let ?cand = "filter (\<lambda>t. e_id t \<notin> used \<and> ok t ord) trucks"
  show ?case
  proof (cases "?cand = []")
    case True
    have "random_from g trucks ok (ord # orders) used r = random_from g trucks ok orders used r"
      using True by (simp add: Let_def)
    then show ?thesis using Cons.IH [of used r] by auto
  next
    case False
    obtain shuffled r' where sh: "rng_shuffle g r ?cand = (shuffled, r')" by (metis surj_pair)
    have set: "set shuffled = set ?cand" using rng_shuffle_set [OF assms, of r ?cand] sh by simp
    with False have "shuffled \<noteq> []" by (metis set_empty)
    then have ch: "hd shuffled \<in> set ?cand" using set hd_in_set by blast
    obtain out r'' where out: "random_from g trucks ok orders (insert (e_id (hd shuffled)) used) r' = (out, r'')"
      by (metis surj_pair)
    have eq: "random_from g trucks ok (ord # orders) used r = ((hd shuffled, ord) # out, r'')"
      unfolding random_from.simps Let_def using False by (simp only: if_False sh out prod.case)
    have ih: "\<forall>(t, ord)\<in>set out. t \<in> set trucks \<and> ord \<in> set orders \<and> ok t ord \<and> e_id t \<notin> insert (e_id (hd shuffled)) used"
      "distinct (map (e_id \<circ> fst) out)" "subseq (map snd out) orders"
      using Cons.IH [of "insert (e_id (hd shuffled)) used" r'] unfolding out by (simp_all add: comp_def)
    have "e_id (hd shuffled) \<notin> (e_id \<circ> fst) ` set out" using ih(1) by auto
    then show ?thesis unfolding eq using ih ch by (auto simp: comp_def)
  qed
qed simp

lemma random_solver_contract: "rng_ok g \<Longrightarrow> assignment_solver (\<lambda>trucks orders ok cost. random_solve g trucks orders ok)"
proof
  fix t ord trucks ok r and orders :: "order_doc list" and cost :: "truck_doc \<Rightarrow> order_doc \<Rightarrow> pyfloat option"
  assume g: "rng_ok g"
  obtain sh r' where sh: "rng_shuffle g r orders = (sh, r')" by (metis surj_pair)
  have perm: "mset sh = mset orders" using rng_shuffle_mset [OF g, of r orders] sh by simp
  have out: "fst (random_solve g trucks orders ok r) = fst (random_from g trucks ok sh {} r')" by (simp add: random_solve_def sh)
  note snd = random_from_sound [OF g, of trucks ok sh "{}" r']
  show "t \<in> set trucks \<and> ord \<in> set orders \<and> ok t ord" if "(t, ord) \<in> set (fst (random_solve g trucks orders ok r))"
    using that snd mset_eq_setD [OF perm] unfolding out by blast
  show "distinct (map (e_id \<circ> fst) (fst (random_solve g trucks orders ok r)))" using snd unfolding out by blast
  assume "distinct (map e_id orders)"
  then have "distinct (map e_id sh)" using perm by (metis mset_eq_imp_distinct_iff mset_map)
  moreover have "subseq (map e_id (map snd (fst (random_from g trucks ok sh {} r')))) (map e_id sh)"
    using snd by (intro subseq_map) blast
  ultimately show "distinct (map (e_id \<circ> snd) (fst (random_solve g trucks orders ok r)))"
    unfolding out map_map by (rule distinct_subseq [rotated])
qed

lemma solve_contract: "rng_ok g \<Longrightarrow> assignment_solver (solve s blake seed g)"
proof (cases s)
  case RandomAssignment
  assume "rng_ok g"
  then show ?thesis using random_solver_contract [of g] by (simp add: RandomAssignment solve_def [abs_def])
next
  case GreedyNearest
  assume "rng_ok g"
  then have "assignment_solver (greedy_solve blake seed g)"
    by (intro greedy_solver_contract) (simp add: set_rank_rows)
  then show ?thesis by (simp add: GreedyNearest solve_def [abs_def])
qed

section \<open>Properties\<close>

text \<open>
  Every registered solver, with any generator of random numbers and any way of breaking ties, returns only
  feasible pairs of the given trucks and orders and never uses a truck twice, nor an order, when the orders
  have different ids; the number of pairs is bounded by the number of trucks.
\<close>

theorem solve_sound:
  assumes "rng_ok g" and "solve s blake seed g trucks orders pair_ok cost r = (out, r')"
  shows "(\<forall>(t, ord)\<in>set out. t \<in> set trucks \<and> ord \<in> set orders \<and> pair_ok t ord) \<and>
    distinct (map (e_id \<circ> fst) out) \<and> (distinct (map e_id orders) \<longrightarrow> distinct (map (e_id \<circ> snd) out)) \<and>
    length out \<le> card (e_id ` set trucks)"
proof -
  note contract = solve_contract [OF assms(1), of s blake seed]
  have out: "out = fst (solve s blake seed g trucks orders pair_ok cost r)" by (simp add: assms(2))
  show ?thesis unfolding out
    using assignment_solver.sound [OF contract, of _ _ trucks orders pair_ok cost r]
      assignment_solver.trucks_once [OF contract, of trucks orders pair_ok cost r]
      assignment_solver.orders_once [OF contract, of orders trucks pair_ok cost r]
      assignment_solver.no_more_than_trucks [OF contract, of trucks orders pair_ok cost r]
    by blast
qed

theorem solve_sound_witness:
  "\<exists>out r'. solve RandomAssignment (\<lambda>s. 0) None id_rng [demo_truck] [demo_order] (\<lambda>t ord. True) (\<lambda>t ord. None) () = (out, r') \<and>
     length out \<le> card (e_id ` set [demo_truck])"
proof -
  obtain out r' where "solve RandomAssignment (\<lambda>s. 0) None id_rng [demo_truck] [demo_order] (\<lambda>t ord. True) (\<lambda>t ord. None) () = (out, r')"
    by (metis surj_pair)
  with solve_sound [OF id_rng_ok this] show ?thesis by blast
qed

text \<open>
  C12. The greedy solver leaves no blocking pair: for every candidate pair there is a chosen pair with the same
  order or the same truck that costs no more, where unknown costs rank last. It chooses at least half as many pairs as
  any conflict-free choice of candidates.
\<close>

theorem solve_pairs_no_blocking_pair:
  assumes "rng_ok g" and "p \<in> set ps"
  shows "(\<exists>q\<in>set (fst (solve_pairs blake seed g cost ps r)).
      (e_id (snd q) = e_id (snd p) \<or> e_id (fst q) = e_id (fst p)) \<and>
      cost_key (score cost q) \<le> cost_key (score cost p)) \<and>
    (set M \<subseteq> set ps \<and> distinct (map (e_id \<circ> fst) M) \<and> distinct (map (e_id \<circ> snd) M) \<longrightarrow>
      length M \<le> 2 * length (fst (solve_pairs blake seed g cost ps r)))"
proof (intro conjI impI)
  let ?rows = "fst (rank_rows blake seed g r (map (score cost) ps))"
  have set: "set ?rows = score cost ` set ps" using set_rank_rows [OF assms(1)] by simp
  then have "score cost p \<in> set ?rows" using assms(2) by blast
  from greedy.no_blocking_claim [OF sorted_rank_rows this TrueI] obtain row where row: "row \<in> set (kept_rows ?rows {} {})"
      "row_order row = row_order (score cost p) \<or> row_truck row = row_truck (score cost p)"
      "cost_key row \<le> cost_key (score cost p)"
    by (elim bexE conjE) (rule that)
  obtain q where q: "row = score cost q" using row(1) greedy.kept_subset set by blast
  have "q = (sp_truck row, sp_order row)" by (simp add: q)
  then have "q \<in> set (fst (solve_pairs blake seed g cost ps r))"
    using row(1) assms(2) unfolding solve_pairs_rows by auto
  moreover have "e_id (snd q) = e_id (snd p) \<or> e_id (fst q) = e_id (fst p)" "cost_key (score cost q) \<le> cost_key (score cost p)"
    using row(2,3) by (simp_all add: q row_order_def row_truck_def)
  ultimately show "\<exists>q\<in>set (fst (solve_pairs blake seed g cost ps r)).
      (e_id (snd q) = e_id (snd p) \<or> e_id (fst q) = e_id (fst p)) \<and> cost_key (score cost q) \<le> cost_key (score cost p)"
    by blast
next
  let ?rows = "fst (rank_rows blake seed g r (map (score cost) ps))"
  assume M: "set M \<subseteq> set ps \<and> distinct (map (e_id \<circ> fst) M) \<and> distinct (map (e_id \<circ> snd) M)"
  have "length (map (score cost) M) \<le> 2 * length (kept_rows ?rows {} {})"
  proof (rule greedy.kept_half_of_any_matching)
    show "set (map (score cost) M) \<subseteq> set ?rows" using M set_rank_rows [OF assms(1)] by auto
  qed (use M in \<open>simp_all add: comp_def row_order_def row_truck_def\<close>)
  moreover have "ps \<noteq> []" using assms(2) by auto
  ultimately show "length M \<le> 2 * length (fst (solve_pairs blake seed g cost ps r))" by (simp add: solve_pairs_rows)
qed

theorem solve_pairs_no_blocking_pair_witness:
  "\<exists>q\<in>set (fst (solve_pairs (\<lambda>s. 0) (Some 7) id_rng (\<lambda>t ord. Some (Fin 2)) [(demo_truck, demo_order)] ())).
     e_id (snd q) = Some ''o1'' \<or> e_id (fst q) = Some ''t1''"
  using solve_pairs_no_blocking_pair [OF id_rng_ok, of "(demo_truck, demo_order)" "[(demo_truck, demo_order)]" "\<lambda>s. 0"
      "Some 7" "\<lambda>t ord. Some (Fin 2)" "()" "[]"]
  by (auto simp: demo_truck_def demo_order_def)

text \<open>
  On the pooled path the result does not depend on the order in which the candidate pairs are listed, provided
  the tie-break tells the pairs apart.
\<close>

theorem solve_pairs_order_independent:
  assumes "mset ps = mset ps'"
    and "inj_on (\<lambda>p. pair_tiebreak blake seed (id_text (snd p)) (id_text (fst p))) (set ps)"
  shows "solve_pairs blake (Some seed) g cost ps r = solve_pairs blake (Some seed) g cost ps' r"
proof -
  have "inj_on (total_key blake seed) (score cost ` set ps)"
    using assms(2) by (auto simp: inj_on_def total_key_def)
  then have "sort_key (total_key blake seed) (map (score cost) ps) = sort_key (total_key blake seed) (map (score cost) ps')"
    using assms(1) by (intro sort_key_perm) (simp_all add: mset_map)
  moreover have "ps = [] \<longleftrightarrow> ps' = []" using assms(1) by auto
  ultimately show ?thesis by (simp add: solve_pairs_def rank_rows_def)
qed

theorem solve_pairs_order_independent_witness:
  "solve_pairs length (Some 7) id_rng (\<lambda>t ord. None) [(demo_truck, demo_order), (demo_truck\<lparr>e_id := Some ''t10''\<rparr>, demo_order)] () =
   solve_pairs length (Some 7) id_rng (\<lambda>t ord. None) [(demo_truck\<lparr>e_id := Some ''t10''\<rparr>, demo_order), (demo_truck, demo_order)] ()"
  by (rule solve_pairs_order_independent)
    (simp_all add: pair_tiebreak_def stable_tiebreak_def id_text_def demo_truck_def demo_order_def)

text \<open>
  The tie-break does not always tell pairs apart. It digests the ids joined by a bar, so ids that contain a
  bar can give two different pairs the same text; at equal cost the pair that is listed first then comes first.
\<close>

theorem pair_tiebreak_not_injective:
  "pair_tiebreak blake seed ''a|b'' ''c'' = pair_tiebreak blake seed ''a'' ''b|c'' \<and>
   fst (solve_pairs blake (Some seed) g (\<lambda>t ord. None)
     [(demo_truck\<lparr>e_id := Some ''c''\<rparr>, demo_order\<lparr>e_id := Some ''a|b''\<rparr>), (demo_truck\<lparr>e_id := Some ''b|c''\<rparr>, demo_order\<lparr>e_id := Some ''a''\<rparr>)] r) \<noteq>
   fst (solve_pairs blake (Some seed) g (\<lambda>t ord. None)
     [(demo_truck\<lparr>e_id := Some ''b|c''\<rparr>, demo_order\<lparr>e_id := Some ''a''\<rparr>), (demo_truck\<lparr>e_id := Some ''c''\<rparr>, demo_order\<lparr>e_id := Some ''a|b''\<rparr>)] r)"
  by (simp add: pair_tiebreak_def stable_tiebreak_def solve_pairs_def rank_rows_def total_key_def cost_key_def score_def id_text_def
      demo_truck_def demo_order_def)

end
