(* ===== verification/Market_Policies.thy ===== *)
theory Market_Policies
  imports Match_Solver
begin

text \<open>
  What a company decides in the market: which of its orders it offers to which of its pools
  (\<open>assignment/policy/offer.py\<close>) and which pooled pairs it bids on (\<open>assignment/policy/claim.py\<close>). A cost
  that is no number is \<open>None\<close>, as in the solvers; policy parameters are decoded JSON.
\<close>

type_synonym cost_fn = "truck_doc \<Rightarrow> order_doc \<Rightarrow> pyfloat option"

section \<open>Offers\<close>

definition own_orders :: "string \<Rightarrow> order_doc list \<Rightarrow> (string \<times> order_doc) list" where
  "own_orders h orders =
     List.map_filter (\<lambda>ord. case e_id ord of
         None \<Rightarrow> None
       | Some oid \<Rightarrow> if oid = [] then None
           else (case haulier_of ord of
                   Some w \<Rightarrow> if w \<noteq> h then None else Some (oid, ord)
                 | None \<Rightarrow> Some (oid, ord))) orders"

fun cheapest_from :: "cost_fn \<Rightarrow> order_doc \<Rightarrow> truck_doc list \<Rightarrow> pyfloat \<Rightarrow> pyfloat" where
  "cheapest_from cost ord [] best = best"
| "cheapest_from cost ord (t # ts) best =
     cheapest_from cost ord ts
       (case cost t ord of None \<Rightarrow> best | Some c \<Rightarrow> if py_lt c best then c else best)"

definition cheapest_feasible_cost :: "order_doc \<Rightarrow> truck_doc list \<Rightarrow> cost_fn \<Rightarrow> pyfloat" where
  "cheapest_feasible_cost ord trucks cost = cheapest_from cost ord trucks PInf"

datatype offer_policy = OfferAllPolicy | OfferNonePolicy | OfferSparePolicy

text \<open>\<open>{oid: list(pool_ids) for ...}\<close>.\<close>

definition offer_each :: "string list \<Rightarrow> string list \<Rightarrow> (string, string list) dict" where
  "offer_each oids pool_ids = fold (\<lambda>oid. AList.update oid pool_ids) oids []"

definition keep_below :: "(string, pyval) dict \<Rightarrow> pyfloat" where
  "keep_below params = (case py_float (py_get_or params ''keep_below_km'' (PyFloat PInf)) of Inl _ \<Rightarrow> PInf | Inr f \<Rightarrow> f)"

definition spare_orders :: "(string, pyval) dict \<Rightarrow> (string \<times> order_doc) list \<Rightarrow> truck_doc list \<Rightarrow> cost_fn \<Rightarrow> (string \<times> order_doc) list" where
  "spare_orders params own trucks cost =
     (let short = truthy (py_get_or params ''only_when_short'' (PyBool True)) \<and> length trucks < length own in
      filter (\<lambda>(oid, ord). short \<or>
        (let best = cheapest_feasible_cost ord trucks cost in best = PInf \<or> py_lt (keep_below params) best)) own)"

fun offer ::
    "offer_policy \<Rightarrow> (string, pyval) dict \<Rightarrow> cost_fn \<Rightarrow> string \<Rightarrow> order_doc list \<Rightarrow> truck_doc list \<Rightarrow> pool list
     \<Rightarrow> (string, string list) dict" where
  "offer OfferAllPolicy params cost h orders trucks pools =
     (let pool_ids = sort (map pool_id pools) in
      if pool_ids = [] then [] else offer_each (map fst (own_orders h orders)) pool_ids)"
| "offer OfferNonePolicy params cost h orders trucks pools = []"
| "offer OfferSparePolicy params cost h orders trucks pools =
     (let pool_ids = sort (map pool_id pools) in
      if pool_ids = [] then []
      else offer_each (map fst (spare_orders params (own_orders h orders) trucks cost)) pool_ids)"

definition offer_registry :: "(string, offer_policy) dict" where
  "offer_registry = [(''OfferAll'', OfferAllPolicy), (''OfferNone'', OfferNonePolicy), (''OfferSpare'', OfferSparePolicy)]"

definition get_offer_policy :: "string option \<Rightarrow> offer_policy" where
  "get_offer_policy name =
     (let key = (case name of None \<Rightarrow> ''OfferAll'' | Some n \<Rightarrow> if n = [] then ''OfferAll'' else n) in
      case map_of offer_registry key of None \<Rightarrow> OfferAllPolicy | Some p \<Rightarrow> p)"

section \<open>Claims\<close>

definition claim_ids :: "pair \<Rightarrow> (string \<times> string) option" where
  "claim_ids p = (case (e_id (fst p), e_id (snd p)) of
     (Some tid, Some oid) \<Rightarrow> if tid = [] \<or> oid = [] then None else Some (tid, oid)
   | _ \<Rightarrow> None)"

definition claim_cost_km :: "cost_fn \<Rightarrow> truck_doc \<Rightarrow> order_doc \<Rightarrow> pyfloat" where
  "claim_cost_km cost t ord = (case cost t ord of None \<Rightarrow> PInf | Some c \<Rightarrow> c)"

definition pair_bid :: "cost_fn \<Rightarrow> pool_market \<Rightarrow> string \<Rightarrow> int \<Rightarrow> pair \<Rightarrow> string \<times> string \<Rightarrow> bid" where
  "pair_bid cost mk h rnd p = (\<lambda>(tid, oid).
     \<lparr>bid_haulier_id = h, bid_order_id = oid, bid_truck_id = tid, bid_cost_km = claim_cost_km cost (fst p) (snd p),
      bid_pool_id = pool_of_order mk oid h, bid_round = rnd\<rparr>)"

datatype claim_policy = ClaimAllPlannedPolicy | ClaimNonePolicy | ClaimIfGainExceedsPolicy

definition min_gain :: "(string, pyval) dict \<Rightarrow> pyfloat" where
  "min_gain params = (case py_float (py_get_or params ''min_gain_km'' (PyFloat (Fin 0))) of Inl _ \<Rightarrow> Fin 0 | Inr f \<Rightarrow> f)"

fun best_own_from :: "cost_fn \<Rightarrow> truck_doc \<Rightarrow> order_doc list \<Rightarrow> pyfloat \<Rightarrow> pyfloat" where
  "best_own_from cost t [] best = best"
| "best_own_from cost t (ord # ords) best =
     best_own_from cost t ords (if py_lt (claim_cost_km cost t ord) best then claim_cost_km cost t ord else best)"

definition claim_gain :: "cost_fn \<Rightarrow> pair list \<Rightarrow> pair \<Rightarrow> pyfloat" where
  "claim_gain cost own_pairs p =
     (if own_pairs = [] then PInf
      else py_sub (best_own_from cost (fst p) (map snd own_pairs) PInf) (claim_cost_km cost (fst p) (snd p)))"

fun bids ::
    "claim_policy \<Rightarrow> (string, pyval) dict \<Rightarrow> cost_fn \<Rightarrow> string \<Rightarrow> pair list \<Rightarrow> pair list \<Rightarrow> pool_market \<Rightarrow> int \<Rightarrow> bid list" where
  "bids ClaimAllPlannedPolicy params cost h pooled_pairs own_pairs mk rnd =
     List.map_filter (\<lambda>p. map_option (pair_bid cost mk h rnd p) (claim_ids p)) pooled_pairs"
| "bids ClaimNonePolicy params cost h pooled_pairs own_pairs mk rnd = []"
| "bids ClaimIfGainExceedsPolicy params cost h pooled_pairs own_pairs mk rnd =
     List.map_filter (\<lambda>p. case claim_ids p of
         None \<Rightarrow> None
       | Some ids \<Rightarrow> if py_lt (claim_gain cost own_pairs p) (min_gain params) then None
                     else Some (pair_bid cost mk h rnd p ids)) pooled_pairs"

definition claim_registry :: "(string, claim_policy) dict" where
  "claim_registry = [(''ClaimAllPlanned'', ClaimAllPlannedPolicy), (''ClaimNone'', ClaimNonePolicy),
     (''ClaimIfGainExceeds'', ClaimIfGainExceedsPolicy)]"

definition get_claim_policy :: "string option \<Rightarrow> claim_policy" where
  "get_claim_policy name =
     (let key = (case name of None \<Rightarrow> ''ClaimAllPlanned'' | Some n \<Rightarrow> if n = [] then ''ClaimAllPlanned'' else n) in
      case map_of claim_registry key of None \<Rightarrow> ClaimAllPlannedPolicy | Some p \<Rightarrow> p)"

section \<open>The contracts the market host relies on\<close>

text \<open>An offer names own orders and own pools only, so the validation of the host drops nothing.\<close>

locale offer_contract =
  fixes off :: "string \<Rightarrow> order_doc list \<Rightarrow> truck_doc list \<Rightarrow> pool list \<Rightarrow> (string, string list) dict"
  assumes offered_orders: "map_of (off h orders trucks pools) oid = Some pids \<Longrightarrow>
      \<exists>ord\<in>set orders. e_id ord = Some oid \<and> oid \<noteq> [] \<and> (haulier_of ord = None \<or> haulier_of ord = Some h)"
    and offered_pools: "map_of (off h orders trucks pools) oid = Some pids \<Longrightarrow> set pids = pool_id ` set pools"
begin

lemma contributed_in_full:
  assumes "market_ok mk" and "map_of (off h orders trucks (pools_for mk h)) oid = Some pids"
    and "map_of (pm_contribution_owner mk) oid \<in> {None, Some h}"
  shows "snd (contribute oid h pids mk) = length pids"
proof -
  have "member_of mk h pid" if pid: "pid \<in> set pids" for pid
  proof -
    obtain p where p: "p \<in> set (pools_for mk h)" "pid = pool_id p" using offered_pools [OF assms(2)] pid by auto
    then have "map_of (pm_pools mk) pid = Some p" "h \<in> pool_members p"
      using assms(1) pools_ok_lookup [of "pm_pools mk" p] by (auto simp: pools_for_def market_ok_def)
    then show ?thesis by (simp add: member_of_def)
  qed
  then have "filter (member_of mk h) pids = pids" by simp
  then show ?thesis using assms(3) by (auto simp: contribute_def Let_def)
qed

end

text \<open>Bids come from the pairs offered to the policy, in their order and at the company's own cost.\<close>

locale claim_contract =
  fixes cost :: cost_fn
    and clm :: "string \<Rightarrow> pair list \<Rightarrow> pair list \<Rightarrow> pool_market \<Rightarrow> int \<Rightarrow> bid list"
  assumes bids_from_pairs: "\<exists>qs. subseq qs pooled \<and> (\<forall>p\<in>set qs. claim_ids p \<noteq> None) \<and>
      clm h pooled own mk rnd = map (\<lambda>p. pair_bid cost mk h rnd p (the (claim_ids p))) qs"
begin

lemma bid_origin: "b \<in> set (clm h pooled own mk rnd) \<Longrightarrow>
    bid_haulier_id b = h \<and> (\<exists>t ord. (t, ord) \<in> set pooled \<and> e_id t = Some (bid_truck_id b) \<and> e_id ord = Some (bid_order_id b) \<and>
      bid_cost_km b = claim_cost_km cost t ord \<and> bid_pool_id b = pool_of_order mk (bid_order_id b) h)"
proof -
  assume b: "b \<in> set (clm h pooled own mk rnd)"
  obtain qs where qs: "subseq qs pooled" "\<forall>p\<in>set qs. claim_ids p \<noteq> None"
      "clm h pooled own mk rnd = map (\<lambda>p. pair_bid cost mk h rnd p (the (claim_ids p))) qs"
    using bids_from_pairs by blast
  with b obtain p where p: "p \<in> set qs" "b = pair_bid cost mk h rnd p (the (claim_ids p))" by auto
  then obtain tid oid where ids: "claim_ids p = Some (tid, oid)" using qs(2) by auto
  have "p \<in> set pooled" using p(1) qs(1) by (auto elim: list_emb_set)
  then show ?thesis using p(2) ids
    by (auto simp: pair_bid_def claim_ids_def split: option.splits if_splits intro!: exI [of _ "fst p"] exI [of _ "snd p"])
qed

text \<open>The precondition of the direct award of private orders: a company's bids use each truck once.\<close>

lemma bids_truck_disjoint:
  assumes "distinct (map (e_id \<circ> fst) pooled)"
  shows "distinct (map bid_truck_id (clm h pooled own mk rnd))"
proof -
  obtain qs where qs: "subseq qs pooled" "\<forall>p\<in>set qs. claim_ids p \<noteq> None"
      "clm h pooled own mk rnd = map (\<lambda>p. pair_bid cost mk h rnd p (the (claim_ids p))) qs"
    using bids_from_pairs by blast
  have "distinct (map (e_id \<circ> fst) qs)" using distinct_subseq [OF subseq_map [OF qs(1)]] assms by blast
  moreover have "map (e_id \<circ> fst) qs = map Some (map bid_truck_id (clm h pooled own mk rnd))"
    using qs(2) by (auto simp: qs(3) pair_bid_def claim_ids_def split: option.splits if_splits)
  ultimately have "distinct (map Some (map bid_truck_id (clm h pooled own mk rnd)))" by metis
  then show ?thesis by (subst (asm) distinct_map) (rule conjunct1)
qed

end

section \<open>The shipped policies keep the contracts\<close>

lemma offer_each_lookup: "map_of (offer_each oids pids) oid = (if oid \<in> set oids then Some pids else None)"
proof -
  have "map_of (fold (\<lambda>x. AList.update x pids) oids d) oid = (if oid \<in> set oids then Some pids else map_of d oid)" for d
    by (induction oids arbitrary: d) auto
  then show ?thesis by (simp add: offer_each_def)
qed

lemma own_orders_iff:
  "(oid, ord) \<in> set (own_orders h orders) \<longleftrightarrow>
     ord \<in> set orders \<and> e_id ord = Some oid \<and> oid \<noteq> [] \<and> (haulier_of ord = None \<or> haulier_of ord = Some h)"
  by (induction orders) (auto simp: own_orders_def List.map_filter_simps split: option.splits)

lemma spare_subset: "set (spare_orders params own trucks cost) \<subseteq> set own"
  by (auto simp: spare_orders_def Let_def)

interpretation offers: offer_contract "offer policy params cost" for policy params cost
proof
  fix h orders trucks pools oid pids
  assume a: "map_of (offer policy params cost h orders trucks pools) oid = Some pids"
  then have "oid \<in> fst ` set (own_orders h orders)"
    using spare_subset [of params "own_orders h orders" trucks cost]
    by (cases policy) (auto simp: Let_def offer_each_lookup split: if_splits)
  then show "\<exists>ord\<in>set orders. e_id ord = Some oid \<and> oid \<noteq> [] \<and> (haulier_of ord = None \<or> haulier_of ord = Some h)"
    by (auto simp: own_orders_iff)
  show "set pids = pool_id ` set pools"
    using a by (cases policy) (auto simp: Let_def offer_each_lookup split: if_splits)
qed

lemma in_map_filter: "x \<in> set (List.map_filter f xs) \<longleftrightarrow> (\<exists>p\<in>set xs. f p = Some x)"
  by (induction xs) (auto simp: List.map_filter_simps split: option.split)

lemma map_filter_subseq:
  "\<exists>qs. subseq qs ps \<and> (\<forall>p\<in>set qs. f p \<noteq> None) \<and> List.map_filter f ps = map (\<lambda>p. the (f p)) qs"
proof (induction ps)
  case (Cons p ps)
  then obtain qs where qs: "subseq qs ps" "\<forall>p\<in>set qs. f p \<noteq> None" "List.map_filter f ps = map (\<lambda>p. the (f p)) qs" by blast
  show ?case
  proof (cases "f p")
    case None
    then show ?thesis using qs by (intro exI [of _ qs]) (auto simp: List.map_filter_simps)
  next
    case (Some v)
    then show ?thesis using qs by (intro exI [of _ "p # qs"]) (auto simp: List.map_filter_simps)
  qed
qed (simp add: List.map_filter_simps)

interpretation claims: claim_contract cost "bids policy params cost" for policy params cost
proof
  fix pooled own h mk rnd
  let ?all = "\<lambda>p. map_option (pair_bid cost mk h rnd p) (claim_ids p)"
    and ?gain = "\<lambda>p. case claim_ids p of None \<Rightarrow> None | Some ids \<Rightarrow>
      if py_lt (claim_gain cost own p) (min_gain params) then None else Some (pair_bid cost mk h rnd p ids)"
  show "\<exists>qs. subseq qs pooled \<and> (\<forall>p\<in>set qs. claim_ids p \<noteq> None) \<and>
      bids policy params cost h pooled own mk rnd = map (\<lambda>p. pair_bid cost mk h rnd p (the (claim_ids p))) qs"
  proof (cases policy)
    case ClaimAllPlannedPolicy
    obtain qs where qs: "subseq qs pooled" "\<forall>p\<in>set qs. ?all p \<noteq> None" "List.map_filter ?all pooled = map (\<lambda>p. the (?all p)) qs"
      using map_filter_subseq [of pooled ?all] by (elim exE conjE) (rule that)
    have "the (?all p) = pair_bid cost mk h rnd p (the (claim_ids p))" if "p \<in> set qs" for p
      using qs(2) that by (cases "claim_ids p") auto
    then show ?thesis using qs ClaimAllPlannedPolicy by (intro exI [of _ qs]) auto
  next
    case ClaimIfGainExceedsPolicy
    obtain qs where qs: "subseq qs pooled" "\<forall>p\<in>set qs. ?gain p \<noteq> None" "List.map_filter ?gain pooled = map (\<lambda>p. the (?gain p)) qs"
      using map_filter_subseq [of pooled ?gain] by (elim exE conjE) (rule that)
    have "claim_ids p \<noteq> None \<and> the (?gain p) = pair_bid cost mk h rnd p (the (claim_ids p))" if "p \<in> set qs" for p
      using qs(2) that by (cases "claim_ids p") (auto split: if_splits)
    moreover from this have "map (\<lambda>p. the (?gain p)) qs = map (\<lambda>p. pair_bid cost mk h rnd p (the (claim_ids p))) qs"
      by (intro map_cong refl) blast
    ultimately show ?thesis using qs(1,3) ClaimIfGainExceedsPolicy by (intro exI [of _ qs]) (simp only: bids.simps, blast)
  qed (auto intro: exI [of _ "[]"])
qed

section \<open>Lemmas on costs\<close>

lemma cheapest_from_le: "cheapest_from cost ord ts best = PInf \<longleftrightarrow> best = PInf \<and> (\<forall>t\<in>set ts. cost t ord \<in> {None, Some PInf, Some NaN})"
proof (induction ts arbitrary: best)
  case (Cons t ts)
  have "(case cost t ord of None \<Rightarrow> best | Some c \<Rightarrow> if py_lt c best then c else best) = PInf \<longleftrightarrow>
      best = PInf \<and> cost t ord \<in> {None, Some PInf, Some NaN}"
  proof (cases "cost t ord")
    case (Some c)
    then show ?thesis by (cases c; cases best) auto
  qed simp
  then show ?case by (simp add: Cons)
qed simp

section \<open>Properties\<close>

text \<open>
  The shipped offer policies stay within their rights: an offer names only orders of the company's own list that are
  not marked as someone else's, each to exactly the company's pools, so the market accepts every placement. Offering all
  offers every such order; offering spare orders offers all of them when the company is short of trucks, and
  otherwise exactly those that no truck of the company can serve at a known cost or whose cheapest cost exceeds
  the limit.
\<close>

theorem offer_policies_spec:
  "(map_of (offer policy params cost h orders trucks pools) oid = Some pids \<longrightarrow>
      (\<exists>ord\<in>set orders. e_id ord = Some oid \<and> haulier_of ord \<in> {None, Some h}) \<and> set pids = pool_id ` set pools) \<and>
   (market_ok mk \<and> map_of (offer policy params cost h orders trucks (pools_for mk h)) oid = Some pids \<and>
      map_of (pm_contribution_owner mk) oid \<in> {None, Some h} \<longrightarrow> snd (contribute oid h pids mk) = length pids) \<and>
   (pools \<noteq> [] \<longrightarrow>
      dom (map_of (offer OfferAllPolicy params cost h orders trucks pools)) = fst ` set (own_orders h orders) \<and>
      (map_of (offer OfferSparePolicy params cost h orders trucks pools) oid \<noteq> None \<longleftrightarrow>
        (\<exists>ord. (oid, ord) \<in> set (own_orders h orders) \<and>
          (truthy (py_get_or params ''only_when_short'' (PyBool True)) \<and> length trucks < length (own_orders h orders) \<or>
           (\<forall>t\<in>set trucks. cost t ord \<in> {None, Some PInf, Some NaN}) \<or>
           py_lt (keep_below params) (cheapest_feasible_cost ord trucks cost)))))"
proof (intro conjI impI)
  assume "map_of (offer policy params cost h orders trucks pools) oid = Some pids"
  from offers.offered_orders [OF this] offers.offered_pools [OF this]
  show "\<exists>ord\<in>set orders. e_id ord = Some oid \<and> haulier_of ord \<in> {None, Some h}" "set pids = pool_id ` set pools"
    by auto
next
  assume "market_ok mk \<and> map_of (offer policy params cost h orders trucks (pools_for mk h)) oid = Some pids \<and>
      map_of (pm_contribution_owner mk) oid \<in> {None, Some h}"
  then show "snd (contribute oid h pids mk) = length pids"
    by (elim conjE) (rule offers.contributed_in_full)
next
  assume "pools \<noteq> []"
  then have ids: "sort (map pool_id pools) \<noteq> []" by (metis length_0_conv length_map length_sort)
  show "dom (map_of (offer OfferAllPolicy params cost h orders trucks pools)) = fst ` set (own_orders h orders)"
    using ids by (auto simp: Let_def offer_each_lookup dom_def split: if_splits)
  show "map_of (offer OfferSparePolicy params cost h orders trucks pools) oid \<noteq> None \<longleftrightarrow>
        (\<exists>ord. (oid, ord) \<in> set (own_orders h orders) \<and>
          (truthy (py_get_or params ''only_when_short'' (PyBool True)) \<and> length trucks < length (own_orders h orders) \<or>
           (\<forall>t\<in>set trucks. cost t ord \<in> {None, Some PInf, Some NaN}) \<or>
           py_lt (keep_below params) (cheapest_feasible_cost ord trucks cost)))"
    using ids unfolding offer.simps Let_def
    by (simp add: offer_each_lookup spare_orders_def Let_def cheapest_feasible_cost_def cheapest_from_le image_iff Bex_def)
qed

theorem offer_policies_spec_witness:
  "dom (map_of (offer OfferAllPolicy [] (\<lambda>t ord. None) ''a'' [demo_order] [] [\<lparr>pool_id = ''p1'', pool_members = {''a'', ''b''}\<rparr>]))
     = fst ` set (own_orders ''a'' [demo_order])"
  using offer_policies_spec [of OfferAllPolicy "[]" "\<lambda>t ord. None" "''a''" "[demo_order]" "[]" "[\<lparr>pool_id = ''p1'', pool_members = {''a'', ''b''}\<rparr>]"
      "''x''" "[]" demo_market]
  by blast

text \<open>
  The shipped claim policies bid only on pairs the company planned, with its own truck and its own cost, seen
  through a pool of its own, and with no truck in two bids when the plan uses each truck once. Raising the minimal gain never
  adds a bid, and without own work to compare with the gain policy bids like the default one.
\<close>

theorem claim_policies_spec:
  "(b \<in> set (bids policy params cost h pooled own mk rnd) \<longrightarrow>
      bid_haulier_id b = h \<and> (\<exists>t ord. (t, ord) \<in> set pooled \<and> e_id t = Some (bid_truck_id b) \<and> e_id ord = Some (bid_order_id b) \<and>
        bid_cost_km b = claim_cost_km cost t ord \<and> bid_pool_id b = pool_of_order mk (bid_order_id b) h)) \<and>
   (distinct (map (e_id \<circ> fst) pooled) \<longrightarrow> distinct (map bid_truck_id (bids policy params cost h pooled own mk rnd))) \<and>
   (min_gain params = Fin x \<and> min_gain params' = Fin y \<and> x \<le> y \<longrightarrow>
      set (bids ClaimIfGainExceedsPolicy params' cost h pooled own mk rnd) \<subseteq>
      set (bids ClaimIfGainExceedsPolicy params cost h pooled own mk rnd)) \<and>
   bids ClaimIfGainExceedsPolicy params cost h pooled [] mk rnd = bids ClaimAllPlannedPolicy params cost h pooled own mk rnd"
proof (intro conjI impI)
  assume "b \<in> set (bids policy params cost h pooled own mk rnd)"
  from claims.bid_origin [OF this] show "bid_haulier_id b = h"
    "\<exists>t ord. (t, ord) \<in> set pooled \<and> e_id t = Some (bid_truck_id b) \<and> e_id ord = Some (bid_order_id b) \<and>
        bid_cost_km b = claim_cost_km cost t ord \<and> bid_pool_id b = pool_of_order mk (bid_order_id b) h"
    by blast+
next
  assume "distinct (map (e_id \<circ> fst) pooled)"
  then show "distinct (map bid_truck_id (bids policy params cost h pooled own mk rnd))" by (rule claims.bids_truck_disjoint)
next
  assume m: "min_gain params = Fin x \<and> min_gain params' = Fin y \<and> x \<le> y"
  have "py_lt v (Fin x) \<Longrightarrow> py_lt v (Fin y)" for v using m by (cases v) auto
  then have "py_lt (claim_gain cost own p) (min_gain params) \<Longrightarrow> py_lt (claim_gain cost own p) (min_gain params')" for p
    using m by simp
  then show "set (bids ClaimIfGainExceedsPolicy params' cost h pooled own mk rnd) \<subseteq>
      set (bids ClaimIfGainExceedsPolicy params cost h pooled own mk rnd)"
    unfolding bids.simps subset_iff in_map_filter
    by (fastforce split: option.splits if_splits)
next
  have "\<not> py_lt PInf v" for v by (cases v) auto
  then show "bids ClaimIfGainExceedsPolicy params cost h pooled [] mk rnd = bids ClaimAllPlannedPolicy params cost h pooled own mk rnd"
    by (simp add: claim_gain_def map_option_case [abs_def] cong: option.case_cong)
qed

theorem claim_policies_spec_witness:
  "distinct (map bid_truck_id (bids ClaimAllPlannedPolicy [] (\<lambda>t ord. Some (Fin 1)) ''a'' [(demo_truck, demo_order)] [] demo_market 1))"
  using claim_policies_spec [of bid_a ClaimAllPlannedPolicy "[]" "\<lambda>t ord. Some (Fin 1)" "''a''" "[(demo_truck, demo_order)]" "[]"
      demo_market 1 0 "[]" 0]
  by simp

text \<open>
  A pair whose cost is unknown, for a company whose own alternatives all have unknown cost, has no gain at all
  (the difference of two infinities is no number), and yet it is bid on whatever the minimal gain is.
\<close>

theorem claim_bids_without_gain:
  assumes "own \<noteq> []" and "\<forall>q\<in>set own. cost t (snd q) \<in> {None, Some PInf, Some NaN}" and "cost t ord \<in> {None, Some PInf}"
    and "claim_ids (t, ord) \<noteq> None"
  shows "claim_gain cost own (t, ord) = NaN \<and>
    bids ClaimIfGainExceedsPolicy params cost h [(t, ord)] own mk rnd = bids ClaimAllPlannedPolicy params cost h [(t, ord)] own mk rnd"
proof -
  have "best_own_from cost t ords PInf = PInf" if "\<forall>x\<in>set ords. cost t x \<in> {None, Some PInf, Some NaN}" for ords
    using that by (induction ords) (auto simp: claim_cost_km_def)
  from this [of "map snd own"] have "claim_gain cost own (t, ord) = NaN"
    using assms(1-3) by (auto simp: claim_gain_def claim_cost_km_def)
  then show ?thesis using assms(4) by (auto simp: List.map_filter_simps)
qed

theorem claim_bids_without_gain_witness:
  "bids ClaimIfGainExceedsPolicy [(''min_gain_km'', PyInt 1000)] (\<lambda>t ord. None) ''a'' [(demo_truck, demo_order)] [(demo_truck, demo_order)] demo_market 1 =
   bids ClaimAllPlannedPolicy [(''min_gain_km'', PyInt 1000)] (\<lambda>t ord. None) ''a'' [(demo_truck, demo_order)] [(demo_truck, demo_order)] demo_market 1"
proof -
  have "claim_ids (demo_truck, demo_order) \<noteq> None" by (simp add: claim_ids_def demo_truck_def demo_order_def)
  from claim_bids_without_gain [OF _ _ _ this, of "[(demo_truck, demo_order)]" "\<lambda>t ord. None"] show ?thesis by simp
qed

end
