(* ===== verification/Spatial_Index.thy ===== *)
theory Spatial_Index
  imports Match_Constraints
begin

text \<open>
  Candidate generation by a uniform grid (\<open>assignment/spatial.py\<close>): trucks are bucketed by cell, and for
  an order the rings of cells around its pickup are searched outwards until enough trucks are found. A cell size of
  zero, on which the code divides by zero, is outside the model.
\<close>

section \<open>Cells and rings\<close>

type_synonym cell = "int \<times> int"

definition cell_of :: "real \<Rightarrow> real \<Rightarrow> real \<Rightarrow> cell" where
  "cell_of lon lat cell_deg = (\<lfloor>lat / cell_deg\<rfloor>, \<lfloor>lon / cell_deg\<rfloor>)"

definition ring :: "cell \<Rightarrow> int \<Rightarrow> cell list" where
  "ring center r = (case center of (cy, cx) \<Rightarrow>
     if r = 0 then [center]
     else concat (map (\<lambda>dx. [(cy - r, cx + dx), (cy + r, cx + dx)]) [- r..r])
        @ concat (map (\<lambda>dy. [(cy + dy, cx - r), (cy + dy, cx + r)]) [- r + 1..r - 1]))"

definition chebyshev :: "cell \<Rightarrow> cell \<Rightarrow> int" where
  "chebyshev a b = max \<bar>fst a - fst b\<bar> \<bar>snd a - snd b\<bar>"

section \<open>The index\<close>

record truck_index =
  ix_cell_deg :: real
  ix_grid :: "(cell, truck_doc list) dict"
  ix_unplaced :: "truck_doc list"

definition add_truck :: "facility_cfg list \<Rightarrow> truck_doc \<Rightarrow> truck_index \<Rightarrow> truck_index" where
  "add_truck facilities t ix =
     (case truck_anchor_loc facilities t of
        None \<Rightarrow> ix\<lparr>ix_unplaced := ix_unplaced ix @ [t]\<rparr>
      | Some (lon, lat) \<Rightarrow> ix\<lparr>ix_grid := dict_append (cell_of lon lat (ix_cell_deg ix)) t (ix_grid ix)\<rparr>)"

definition new_index :: "facility_cfg list \<Rightarrow> real \<Rightarrow> truck_doc list \<Rightarrow> truck_index" where
  "new_index facilities cell_deg trucks =
     fold (add_truck facilities) trucks \<lparr>ix_cell_deg = cell_deg, ix_grid = [], ix_unplaced = []\<rparr>"

text \<open>The trucks of one ring, cell by cell.\<close>

definition ring_trucks :: "truck_index \<Rightarrow> cell \<Rightarrow> int \<Rightarrow> truck_doc list" where
  "ring_trucks ix center r = concat (map (dict_list (ix_grid ix)) (ring center r))"

function expand :: "truck_index \<Rightarrow> cell \<Rightarrow> int \<Rightarrow> int \<Rightarrow> int \<Rightarrow> truck_doc list \<Rightarrow> truck_doc list" where
  "expand ix center cap max_rings r out =
     (if r \<le> max_rings \<and> int (length out) < cap
      then expand ix center cap max_rings (r + 1) (out @ ring_trucks ix center r)
      else out)"
  by pat_completeness auto
termination
  by (relation "measure (\<lambda>(ix, center, cap, max_rings, r, out). nat (max_rings + 1 - r))") auto

declare expand.simps [simp del]

definition nearby :: "truck_index \<Rightarrow> real \<Rightarrow> real \<Rightarrow> int \<Rightarrow> int \<Rightarrow> truck_doc list" where
  "nearby ix lon lat cap max_rings =
     (let out = expand ix (cell_of lon lat (ix_cell_deg ix)) cap max_rings 0 [];
          out' = (if int (length out) < cap \<and> ix_unplaced ix \<noteq> [] then out @ ix_unplaced ix else out)
      in take (nat cap) out')"

text \<open>\<open>xs[:n]\<close> for any integer \<open>n\<close>.\<close>

definition slice_to :: "int \<Rightarrow> 'a list \<Rightarrow> 'a list" where
  "slice_to n xs = (if 0 \<le> n then take (nat n) xs else take (nat (int (length xs) + n)) xs)"

definition candidates_for ::
    "facility_cfg list \<Rightarrow> truck_index \<Rightarrow> truck_doc list \<Rightarrow> int \<Rightarrow> int \<Rightarrow> order_doc \<Rightarrow> truck_doc list" where
  "candidates_for facilities ix trucks per_order max_rings ord =
     (case order_pickup_loc ord of
        None \<Rightarrow> slice_to per_order trucks
      | Some (lon, lat) \<Rightarrow> nearby ix lon lat per_order max_rings)"

definition iter_candidate_pairs ::
    "facility_cfg list \<Rightarrow> truck_doc list \<Rightarrow> order_doc list \<Rightarrow> (truck_doc \<Rightarrow> order_doc \<Rightarrow> bool)
     \<Rightarrow> real \<Rightarrow> int \<Rightarrow> int \<Rightarrow> (truck_doc \<times> order_doc) list" where
  "iter_candidate_pairs facilities trucks orders pair_ok cell_deg per_order max_rings =
     (if trucks = [] \<or> orders = [] then []
      else let ix = new_index facilities cell_deg trucks in
        concat (map (\<lambda>ord. map (\<lambda>t. (t, ord))
            (filter (\<lambda>t. pair_ok t ord) (candidates_for facilities ix trucks per_order max_rings ord))) orders))"

section \<open>Lemmas\<close>

lemma ring_set: "0 \<le> r \<Longrightarrow> set (ring c r) = {d. chebyshev c d = r}"
proof -
  assume r: "0 \<le> r"
  obtain cy cx where c: "c = (cy, cx)" by (cases c)
  have "d \<in> set (ring c r) \<longleftrightarrow> chebyshev c d = r" for d
  proof (cases "r = 0")
    case True
    then show ?thesis by (cases d) (auto simp: ring_def c chebyshev_def)
  next
    case False
    obtain y x where d: "d = (y, x)" by (cases d)
    have "d \<in> set (ring c r) \<longleftrightarrow>
        (\<bar>y - cy\<bar> = r \<and> \<bar>x - cx\<bar> \<le> r) \<or> (\<bar>x - cx\<bar> = r \<and> \<bar>y - cy\<bar> < r)"
    proof -
      have "(\<exists>dx\<in>{- r..r}. d = (cy - r, cx + dx) \<or> d = (cy + r, cx + dx)) \<longleftrightarrow> \<bar>y - cy\<bar> = r \<and> \<bar>x - cx\<bar> \<le> r"
        using r unfolding d by (auto simp: abs_if intro!: bexI [of _ "x - cx"] split: if_splits)
      moreover have "(\<exists>dy\<in>{- r + 1..r - 1}. d = (cy + dy, cx - r) \<or> d = (cy + dy, cx + r)) \<longleftrightarrow> \<bar>x - cx\<bar> = r \<and> \<bar>y - cy\<bar> < r"
        using r unfolding d by (auto simp: abs_if intro!: bexI [of _ "y - cy"] split: if_splits)
      ultimately show ?thesis using False by (simp add: ring_def c)
    qed
    then show ?thesis using r by (auto simp: c d chebyshev_def max_def)
  qed
  then show ?thesis by blast
qed

lemma distinct_concat_pairs:
  assumes "distinct xs" and "inj_on f (set xs)" and "inj_on g (set xs)" and "f ` set xs \<inter> g ` set xs = {}"
  shows "distinct (concat (map (\<lambda>x. [f x, g x]) xs))"
  using assms
proof (induction xs)
  case (Cons x xs)
  have "set (concat (map (\<lambda>x. [f x, g x]) xs)) = f ` set xs \<union> g ` set xs" by auto
  moreover have "f x \<notin> f ` set xs" "g x \<notin> g ` set xs" "f x \<noteq> g x" "f x \<notin> g ` set xs" "g x \<notin> f ` set xs"
    using Cons.prems by auto
  moreover have "distinct (concat (map (\<lambda>x. [f x, g x]) xs))"
    using Cons.prems by (intro Cons.IH) (auto simp: inj_on_insert)
  ultimately show ?case by simp
qed simp

lemma distinct_ring: "0 \<le> r \<Longrightarrow> distinct (ring c r)"
proof -
  assume r: "0 \<le> r"
  obtain cy cx where c: "c = (cy, cx)" by (cases c)
  show ?thesis
  proof (cases "r = 0")
    case True
    then show ?thesis by (simp add: ring_def c)
  next
    case False
    have "distinct (concat (map (\<lambda>dx. [(cy - r, cx + dx), (cy + r, cx + dx)]) [- r..r]))"
      using False r by (intro distinct_concat_pairs) (auto simp: inj_on_def)
    moreover have "distinct (concat (map (\<lambda>dy. [(cy + dy, cx - r), (cy + dy, cx + r)]) [- r + 1..r - 1]))"
      using False r by (intro distinct_concat_pairs) (auto simp: inj_on_def)
    ultimately show ?thesis using False r by (auto simp: ring_def c)
  qed
qed

text \<open>The index holds every truck once, in its cell or among the unplaced.\<close>

definition cell_of_truck :: "facility_cfg list \<Rightarrow> real \<Rightarrow> truck_doc \<Rightarrow> cell option" where
  "cell_of_truck facilities cell_deg t = map_option (\<lambda>(lon, lat). cell_of lon lat cell_deg) (truck_anchor_loc facilities t)"

lemma add_truck_fields:
  "ix_cell_deg (add_truck fs t ix) = ix_cell_deg ix"
  "ix_unplaced (add_truck fs t ix) = ix_unplaced ix @ (if truck_anchor_loc fs t = None then [t] else [])"
  "dict_list (ix_grid (add_truck fs t ix)) c =
     dict_list (ix_grid ix) c @ (if cell_of_truck fs (ix_cell_deg ix) t = Some c then [t] else [])"
  by (cases "truck_anchor_loc fs t"; auto simp: add_truck_def cell_of_truck_def dict_append_list)+

lemma fold_add_truck:
  "ix_cell_deg (fold (add_truck fs) ts ix) = ix_cell_deg ix"
  "ix_unplaced (fold (add_truck fs) ts ix) = ix_unplaced ix @ filter (\<lambda>t. truck_anchor_loc fs t = None) ts"
  "dict_list (ix_grid (fold (add_truck fs) ts ix)) c =
      dict_list (ix_grid ix) c @ filter (\<lambda>t. cell_of_truck fs (ix_cell_deg ix) t = Some c) ts"
  by (induction ts arbitrary: ix) (simp_all add: add_truck_fields)

lemma new_index_eq:
  "ix_cell_deg (new_index fs d ts) = d"
  "ix_unplaced (new_index fs d ts) = filter (\<lambda>t. truck_anchor_loc fs t = None) ts"
  "dict_list (ix_grid (new_index fs d ts)) c = filter (\<lambda>t. cell_of_truck fs d t = Some c) ts"
  by (simp_all add: new_index_def fold_add_truck)

text \<open>Everything the search would find without a cap, ring by ring.\<close>

definition rings_upto :: "truck_index \<Rightarrow> cell \<Rightarrow> int \<Rightarrow> int \<Rightarrow> truck_doc list" where
  "rings_upto ix center r max_rings = concat (map (ring_trucks ix center) [r..max_rings])"

lemma rings_upto_rec: "rings_upto ix c r m = (if r \<le> m then ring_trucks ix c r @ rings_upto ix c (r + 1) m else [])"
  by (simp add: rings_upto_def upto_rec1)

lemma expand_take:
  "take (nat cap) (expand ix c cap m r out) = take (nat cap) (out @ rings_upto ix c r m) \<and>
   (int (length (expand ix c cap m r out)) < cap \<longrightarrow> expand ix c cap m r out = out @ rings_upto ix c r m)"
proof (induction ix c cap m r out rule: expand.induct)
  case (1 ix c cap m r out)
  show ?case
  proof (cases "r \<le> m \<and> int (length out) < cap")
    case True
    have e: "expand ix c cap m r out = expand ix c cap m (r + 1) (out @ ring_trucks ix c r)"
      using True by (subst expand.simps) simp
    have u: "rings_upto ix c r m = ring_trucks ix c r @ rings_upto ix c (r + 1) m"
      using True by (subst rings_upto_rec) simp
    show ?thesis using "1.IH" [OF True] unfolding e u by simp
  next
    case False
    have e: "expand ix c cap m r out = out" using False by (subst expand.simps) auto
    show ?thesis
    proof (cases "r \<le> m")
      case True
      with False have "nat cap \<le> length out" by linarith
      then show ?thesis unfolding e by auto
    next
      case False
      then have "rings_upto ix c r m = []" by (subst rings_upto_rec) simp
      then show ?thesis unfolding e by simp
    qed
  qed
qed

lemma nearby_closed:
  "nearby ix lon lat cap m = take (nat cap) (rings_upto ix (cell_of lon lat (ix_cell_deg ix)) 0 m @ ix_unplaced ix)"
proof -
  let ?o = "expand ix (cell_of lon lat (ix_cell_deg ix)) cap m 0 []"
    and ?r = "rings_upto ix (cell_of lon lat (ix_cell_deg ix)) 0 m"
  have t: "take (nat cap) ?o = take (nat cap) ?r" and l: "int (length ?o) < cap \<longrightarrow> ?o = ?r"
    using expand_take [of cap ix "cell_of lon lat (ix_cell_deg ix)" m 0 "[]"] by simp_all
  show ?thesis
  proof (cases "int (length ?o) < cap")
    case True
    then show ?thesis using l by (simp add: nearby_def Let_def)
  next
    case False
    then have "length (take (nat cap) ?o) = nat cap" by simp
    then have "nat cap \<le> length ?r" unfolding t by simp
    then show ?thesis using False t by (simp add: nearby_def Let_def)
  qed
qed

section \<open>Properties\<close>

text \<open>
  A ring is exactly the set of cells at the given Chebyshev distance from the centre, each listed once.
\<close>

theorem ring_exact:
  assumes "0 \<le> r" shows "distinct (ring c r) \<and> set (ring c r) = {d. chebyshev c d = r}"
  using assms by (simp add: distinct_ring ring_set)

theorem ring_exact_witness: "distinct (ring (0, 0) 2) \<and> set (ring (0, 0) 2) = {d. chebyshev (0, 0) d = 2}"
  by (rule ring_exact) simp

text \<open>
  The capped search is the prefix of the uncapped one: it returns the first \<open>cap\<close> trucks of the list
  that has the trucks of ring 0, then ring 1 and so on up to the last ring, and after them the trucks without a
  position. So whenever a truck within reach is left out, the search returned \<open>cap\<close> trucks and each of them lies in
  a ring that is no farther away than the truck left out.
\<close>

theorem nearby_nearest_rings_first:
  fixes facilities cell_deg trucks
  defines "ix \<equiv> new_index facilities cell_deg trucks"
  assumes "0 \<le> cap" and "t \<in> set trucks" and "cell_of_truck facilities cell_deg t = Some c"
    and "chebyshev (cell_of lon lat cell_deg) c \<le> max_rings" and "t \<notin> set (nearby ix lon lat cap max_rings)"
  shows "length (nearby ix lon lat cap max_rings) = nat cap \<and>
    (\<forall>u\<in>set (nearby ix lon lat cap max_rings). u \<in> set trucks \<and>
       (\<exists>c'. cell_of_truck facilities cell_deg u = Some c' \<and>
          chebyshev (cell_of lon lat cell_deg) c' \<le> chebyshev (cell_of lon lat cell_deg) c))"
proof -
  let ?ctr = "cell_of lon lat cell_deg" and ?d = "chebyshev (cell_of lon lat cell_deg) c"
  have d0: "0 \<le> ?d" by (simp add: chebyshev_def)
  let ?R = "\<lambda>a b. rings_upto ix ?ctr a b"
  have near: "nearby ix lon lat cap max_rings = take (nat cap) (?R 0 max_rings @ ix_unplaced ix)"
    using nearby_closed by (simp add: ix_def new_index_eq)
  have split: "?R 0 max_rings = ?R 0 ?d @ ?R (?d + 1) max_rings"
    using d0 assms(5) by (simp add: rings_upto_def upto_split2 [of 0 ?d max_rings])
  have mem: "u \<in> set (ring_trucks ix ?ctr r) \<longleftrightarrow>
      u \<in> set trucks \<and> (\<exists>c'. cell_of_truck facilities cell_deg u = Some c' \<and> chebyshev ?ctr c' = r)" if "0 \<le> r" for u r
    using that by (auto simp: ring_trucks_def ring_set ix_def new_index_eq)
  have "t \<in> set (ring_trucks ix ?ctr ?d)" using mem [OF d0, of t] assms(3,4) by blast
  then have "t \<in> set (?R 0 ?d)" using d0 by (auto simp: rings_upto_def intro!: bexI [of _ ?d])
  then have full: "nat cap \<le> length (?R 0 ?d)"
    using assms(6) unfolding near split by (metis append.assoc in_set_conv_decomp linorder_le_cases set_append Un_iff take_all_iff take_append)
  then have "nearby ix lon lat cap max_rings = take (nat cap) (?R 0 ?d)" unfolding near split by simp
  moreover have "u \<in> set trucks \<and> (\<exists>c'. cell_of_truck facilities cell_deg u = Some c' \<and> chebyshev ?ctr c' \<le> ?d)"
    if "u \<in> set (?R 0 ?d)" for u
    using that mem by (force simp: rings_upto_def)
  ultimately show ?thesis using full by (auto dest: in_set_takeD)
qed

theorem nearby_nearest_rings_first_witness:
  "length (nearby (new_index [] 1 [demo_truck]) 104 1 0 0) = nat 0"
proof -
  have "cell_of_truck [] 1 demo_truck = Some (cell_of 104 1 1)"
    by (simp add: cell_of_truck_def truck_anchor_loc_def demo_truck_def)
  moreover have "chebyshev (cell_of 104 1 1) (cell_of 104 1 1) \<le> 0" by (simp add: chebyshev_def)
  moreover have "demo_truck \<notin> set (nearby (new_index [] 1 [demo_truck]) 104 1 0 0)" by (simp add: nearby_def)
  ultimately show ?thesis using nearby_nearest_rings_first [of 0 demo_truck "[demo_truck]" "[]" 1 _ 104 1 0] by simp
qed

lemma candidates_for_subset: "set (candidates_for facilities (new_index facilities cell_deg trucks) trucks per_order max_rings ord) \<subseteq> set trucks"
proof -
  define ix where "ix = new_index facilities cell_deg trucks"
  have "u \<in> set trucks" if "u \<in> set (ring_trucks ix c r)" for u c r
    using that by (auto simp: ring_trucks_def ix_def new_index_eq)
  moreover have "set (ix_unplaced ix) \<subseteq> set trucks" by (auto simp: ix_def new_index_eq)
  ultimately have "set (rings_upto ix c 0 m @ ix_unplaced ix) \<subseteq> set trucks" for c m
    unfolding rings_upto_def set_append set_concat set_map by blast
  then have "set (nearby ix lon lat c m) \<subseteq> set trucks" for lon lat c m
    unfolding nearby_closed by (meson set_take_subset subset_trans)
  then show ?thesis
    by (auto simp: candidates_for_def slice_to_def ix_def split: option.split dest: in_set_takeD)
qed

lemma iter_candidate_pairs_set:
  "(t, ord) \<in> set (iter_candidate_pairs facilities trucks orders pair_ok cell_deg per_order max_rings) \<Longrightarrow>
   t \<in> set trucks \<and> ord \<in> set orders \<and> pair_ok t ord"
  using candidates_for_subset by (fastforce simp: iter_candidate_pairs_def Let_def split: if_splits)

text \<open>
  Candidate pairs are sound: every pair is a truck and an order of the input that the feasibility test
  accepts, and each order takes part in at most \<open>per_order\<close> pairs when orders are listed once.
\<close>

theorem iter_candidate_pairs_sound:
  assumes "0 \<le> per_order" and "distinct orders"
  shows "(\<forall>(t, ord)\<in>set (iter_candidate_pairs facilities trucks orders pair_ok cell_deg per_order max_rings).
       t \<in> set trucks \<and> ord \<in> set orders \<and> pair_ok t ord) \<and>
    length (filter (\<lambda>p. snd p = ord) (iter_candidate_pairs facilities trucks orders pair_ok cell_deg per_order max_rings))
      \<le> nat per_order"
proof -
  define ix where "ix = new_index facilities cell_deg trucks"
  let ?cand = "candidates_for facilities ix trucks per_order max_rings"
  have len: "length (?cand x) \<le> nat per_order" for x
    using assms(1) by (auto simp: candidates_for_def slice_to_def nearby_closed split: option.split)
  let ?pairs = "\<lambda>x. map (\<lambda>t. (t, x)) (filter (\<lambda>t. pair_ok t x) (?cand x))"
  have one: "length (filter (\<lambda>p. snd p = ord) (?pairs x)) \<le> (if x = ord then nat per_order else 0)" for x
    using len [of x] by (auto simp: filter_map o_def intro: order_trans [OF length_filter_le])
  have "length (filter (\<lambda>p. snd p = ord) (concat (map ?pairs xs))) \<le> (if ord \<in> set xs then nat per_order else 0)"
    if "distinct xs" for xs
    using that
  proof (induction xs)
    case (Cons x xs)
    then show ?case using one [of x] by (auto split: if_splits)
  qed simp
  from this [OF assms(2)] have "length (filter (\<lambda>p. snd p = ord) (concat (map ?pairs orders))) \<le> nat per_order"
    by (auto split: if_splits)
  then have "length (filter (\<lambda>p. snd p = ord) (iter_candidate_pairs facilities trucks orders pair_ok cell_deg per_order max_rings))
      \<le> nat per_order"
    by (auto simp: iter_candidate_pairs_def Let_def ix_def)
  then show ?thesis using iter_candidate_pairs_set by blast
qed

theorem iter_candidate_pairs_sound_witness:
  "length (filter (\<lambda>p. snd p = demo_order)
     (iter_candidate_pairs [] [demo_truck, demo_truck] [demo_order] (\<lambda>t ord. True) 1 1 3)) \<le> nat 1"
  using iter_candidate_pairs_sound [of 1 "[demo_order]" "[]" "[demo_truck, demo_truck]" "\<lambda>t ord. True" 1 3 demo_order] by simp

end
