(* ===== verification/Pooled_Planner.thy ===== *)
theory Pooled_Planner
  imports Market_Policies Spatial_Index
begin

text \<open>
  The host of the pooled market (\<open>assignment/pooled_planner.py\<close>): contribution, bidding rounds until a round
  commits nothing, arbitration, commitment, the accounting of shared hauls and the assertions at the end. The company
  decisions (offer, claim, solver) and the arbitration rule are components of the context, as in the code; a policy or
  a solver may raise, which is \<open>None\<close> or \<open>OfferRaised\<close>. The generator of random numbers is threaded through.
\<close>

section \<open>Market configuration\<close>

definition default_max_rounds :: int where "default_max_rounds = 20"
definition max_rounds_ceiling :: int where "max_rounds_ceiling = 100"

record role_cfg =
  role_type :: string
  role_params :: "(string, pyval) dict"

record market_cfg =
  mc_offer :: role_cfg
  mc_claim :: role_cfg
  mc_arbitration :: role_cfg
  mc_max_rounds :: int

text \<open>\<open>str(v)\<close> of a role type, which is text; a truthy value of another type is outside the model.\<close>

definition role_of :: "(string, pyval) dict \<Rightarrow> string \<Rightarrow> string \<Rightarrow> role_cfg" where
  "role_of market name default_type =
     (case py_get market name of
        PyDict raw \<Rightarrow>
          \<lparr>role_type = (case py_get raw ''type'' of PyStr t \<Rightarrow> if t \<noteq> [] then t else default_type | _ \<Rightarrow> default_type),
           role_params = (case py_get raw ''params'' of PyDict p \<Rightarrow> p | _ \<Rightarrow> [])\<rparr>
      | _ \<Rightarrow> \<lparr>role_type = default_type, role_params = []\<rparr>)"

definition clamp_rounds :: "int \<Rightarrow> int" where
  "clamp_rounds n = max 1 (min max_rounds_ceiling n)"

definition market_block :: "pyval \<Rightarrow> (string, pyval) dict" where
  "market_block planner =
     (case planner of
        PyDict p \<Rightarrow> (case py_get p ''market'' of PyDict m \<Rightarrow> m | _ \<Rightarrow> [])
      | _ \<Rightarrow> [])"

definition resolve_market_config :: "pyval \<Rightarrow> py_error + market_cfg" where
  "resolve_market_config planner =
     (let market = market_block planner;
          cfg = (\<lambda>n. \<lparr>mc_offer = role_of market ''offer'' ''OfferAll'', mc_claim = role_of market ''claim'' ''ClaimAllPlanned'',
                      mc_arbitration = role_of market ''arbitration'' ''LowestCost'', mc_max_rounds = clamp_rounds n\<rparr>)
      in case py_int (py_get_or market ''max_rounds'' (PyInt default_max_rounds)) of
           Inr n \<Rightarrow> Inr (cfg n)
         | Inl TypeError \<Rightarrow> Inr (cfg default_max_rounds)
         | Inl ValueError \<Rightarrow> Inr (cfg default_max_rounds)
         | Inl e \<Rightarrow> Inl e)"

section \<open>Context and result\<close>

datatype offer_outcome = OfferRaised | OfferNotDict | Offered "(string, string list) dict"

record 'r planner_ctx =
  cx_solve_pairs :: "(pair list \<Rightarrow> 'r \<Rightarrow> pair list option \<times> 'r) option"
  cx_solve :: "truck_doc list \<Rightarrow> order_doc list \<Rightarrow> (truck_doc \<Rightarrow> order_doc \<Rightarrow> bool) \<Rightarrow> 'r \<Rightarrow> pair list option \<times> 'r"
  cx_offer :: "string \<Rightarrow> order_doc list \<Rightarrow> truck_doc list \<Rightarrow> pool list \<Rightarrow> 'r \<Rightarrow> offer_outcome \<times> 'r"
  cx_claim :: "string \<Rightarrow> pair list \<Rightarrow> pair list \<Rightarrow> pool_market \<Rightarrow> int \<Rightarrow> 'r \<Rightarrow> bid list option \<times> 'r"
  cx_arbitrate :: "(string \<Rightarrow> string option) \<Rightarrow> pool_market \<Rightarrow> bid list \<Rightarrow> 'r \<Rightarrow> award list \<times> 'r"
  cx_max_rounds :: int
  cx_pair_allowed_own :: "truck_doc \<Rightarrow> order_doc \<Rightarrow> bool"
  cx_pair_allowed_pooled :: "truck_doc \<Rightarrow> order_doc \<Rightarrow> bool"
  cx_cost :: cost_fn
  cx_rng :: "'r rng_ops"
  cx_facilities :: "facility_cfg list"
  cx_cell_deg :: real
  cx_per_order :: int
  cx_max_rings :: int
  cx_use_spatial :: bool
  cx_max_trucks_per_haulier :: int

record share_tag =
  st_owner_haulier_id :: "string option"
  st_carrier_haulier_id :: string
  st_benefit_km :: "real option"
  st_pool_id :: "string option"
  st_awarded_cost_km :: "real option"
  st_owner_reserve_km :: "pyfloat option"
  st_market_round :: int

record market_result =
  mr_assignment :: "pair list"
  mr_share_tags :: "(string \<times> string, share_tag) dict"
  mr_rounds_used :: int
  mr_converged :: bool
  mr_candidate_pairs_round1 :: nat
  mr_candidate_pairs_total :: nat

type_synonym fleet = "(string, truck_doc list) dict"
type_synonym workload = "(string, order_doc list) dict"

section \<open>Accounting helpers\<close>

fun reserve_scan :: "(truck_doc \<Rightarrow> order_doc \<Rightarrow> bool) \<Rightarrow> cost_fn \<Rightarrow> string set \<Rightarrow> order_doc \<Rightarrow> truck_doc list
    \<Rightarrow> pyfloat option \<Rightarrow> pyfloat option" where
  "reserve_scan ok cost committed ord [] best = best"
| "reserve_scan ok cost committed ord (t # ts) best =
     (if id_text t \<in> committed \<or> \<not> ok t ord then reserve_scan ok cost committed ord ts best
      else case cost t ord of
        None \<Rightarrow> reserve_scan ok cost committed ord ts best
      | Some c \<Rightarrow>
          if c = PInf \<or> c = NaN then reserve_scan ok cost committed ord ts best
          else reserve_scan ok cost committed ord ts
                 (case best of None \<Rightarrow> Some c | Some b \<Rightarrow> if py_lt c b then Some c else Some b))"

definition owner_reserve_km :: "order_doc \<Rightarrow> truck_doc list \<Rightarrow> string set \<Rightarrow> (truck_doc \<Rightarrow> order_doc \<Rightarrow> bool) \<Rightarrow> cost_fn
    \<Rightarrow> pyfloat option" where
  "owner_reserve_km ord owner_trucks committed ok cost = reserve_scan ok cost committed ord owner_trucks None"

definition finite_or_none :: "pyfloat \<Rightarrow> real option" where
  "finite_or_none f = (if is_fin f then Some (fin_val f) else None)"

text \<open>\<open>round(x, 3)\<close>: to the nearest thousandth, ties to the even one.\<close>

definition round3 :: "real \<Rightarrow> real" where
  "round3 x = (let y = x * 1000; f = \<lfloor>y\<rfloor>; d = y - of_int f in
     of_int (if d < 1 / 2 then f else if 1 / 2 < d then f + 1 else if even f then f else f + 1) / 1000)"

fun round3_fl :: "pyfloat \<Rightarrow> pyfloat" where
  "round3_fl (Fin x) = Fin (round3 x)"
| "round3_fl f = f"

section \<open>Candidates of a round\<close>

definition carrier_groups :: "pool_market \<Rightarrow> (string, string) dict \<Rightarrow> order_doc list \<Rightarrow> (string list, order_doc list) dict" where
  "carrier_groups mk owner_by free_orders =
     group_into (\<lambda>ord. case map_of owner_by (id_text ord) of
         None \<Rightarrow> None
       | Some w \<Rightarrow> if w = [] then None
           else Some (sorted_list_of_set (eligible_carriers mk (id_text ord) w))) free_orders []"

definition round_allowed :: "(string \<Rightarrow> truck_doc \<Rightarrow> order_doc \<Rightarrow> bool) \<Rightarrow> truck_doc \<Rightarrow> order_doc \<Rightarrow> bool" where
  "round_allowed pair_allowed_for t ord = (case haulier_of t of None \<Rightarrow> False | Some c \<Rightarrow> pair_allowed_for c t ord)"

definition group_pairs ::
    "'r planner_ctx \<Rightarrow> (string \<Rightarrow> truck_doc \<Rightarrow> order_doc \<Rightarrow> bool) \<Rightarrow> fleet \<Rightarrow> string list \<Rightarrow> order_doc list \<Rightarrow> pair list" where
  "group_pairs ctx pair_allowed_for free_trucks carriers group_orders =
     (let union_trucks = concat (map (dict_list free_trucks) carriers) in
      if union_trucks = [] then []
      else iter_candidate_pairs (cx_facilities ctx) union_trucks group_orders (round_allowed pair_allowed_for)
             (cx_cell_deg ctx) (cx_per_order ctx) (cx_max_rings ctx))"

definition build_round_candidates ::
    "'r planner_ctx \<Rightarrow> (string \<Rightarrow> truck_doc \<Rightarrow> order_doc \<Rightarrow> bool) \<Rightarrow> pool_market \<Rightarrow> (string, string) dict
     \<Rightarrow> fleet \<Rightarrow> order_doc list \<Rightarrow> (string, pair list) dict" where
  "build_round_candidates ctx pair_allowed_for mk owner_by free_trucks free_orders =
     (let groups = carrier_groups mk owner_by free_orders in
      group_into (\<lambda>p. haulier_of (fst p))
        (concat (map (\<lambda>carriers. group_pairs ctx pair_allowed_for free_trucks carriers (dict_list groups carriers))
           (sort (map fst groups)))) [])"

definition solve_company ::
    "'r planner_ctx \<Rightarrow> truck_doc list \<Rightarrow> order_doc list \<Rightarrow> (truck_doc \<Rightarrow> order_doc \<Rightarrow> bool) \<Rightarrow> pair list \<Rightarrow> 'r
     \<Rightarrow> pair list option \<times> 'r" where
  "solve_company ctx trucks orders ok prebuilt r =
     (case (if cx_use_spatial ctx then cx_solve_pairs ctx else None) of
        Some sp \<Rightarrow> if prebuilt = [] then (Some [], r) else sp prebuilt r
      | None \<Rightarrow>
          if trucks = [] \<or> orders = [] then (Some [], r)
          else if int (length trucks) > cx_max_trucks_per_haulier ctx
          then if cx_max_trucks_per_haulier ctx < 0 then (None, r)
               else (case rng_sample (cx_rng ctx) r trucks (nat (cx_max_trucks_per_haulier ctx)) of
                  (bt, r') \<Rightarrow> cx_solve ctx bt orders ok r')
          else cx_solve ctx trucks orders ok r)"

section \<open>Inputs of a tick\<close>

record tick_input =
  ti_trucks :: fleet
  ti_orders :: workload
  ti_company_ids :: "string list"
  ti_orders_by_id :: "(string, order_doc) dict"
  ti_owner_by_id :: "(string, string) dict"
  ti_trucks_by_id :: "(string, truck_doc) dict"

definition index_orders :: "workload \<Rightarrow> (string \<times> order_doc) list" where
  "index_orders orders_by_haulier =
     concat (map (\<lambda>h. map (\<lambda>ord. (h, ord)) (dict_list orders_by_haulier h))
       (filter (\<lambda>h. h \<noteq> []) (sort (map fst orders_by_haulier))))"

definition tick_input_of :: "fleet \<Rightarrow> workload \<Rightarrow> tick_input" where
  "tick_input_of trucks_by_haulier orders_by_haulier =
     \<lparr>ti_trucks = trucks_by_haulier, ti_orders = orders_by_haulier,
      ti_company_ids = sorted_set (filter (\<lambda>h. h \<noteq> []) (map fst trucks_by_haulier @ map fst orders_by_haulier)),
      ti_orders_by_id = fold (\<lambda>(h, ord). AList.update (id_text ord) ord) (index_orders orders_by_haulier) [],
      ti_owner_by_id = fold (\<lambda>(h, ord). AList.update (id_text ord) h) (index_orders orders_by_haulier) [],
      ti_trucks_by_id = fold (\<lambda>t. AList.update (id_text t) t)
        (concat (map (dict_list trucks_by_haulier) (filter (\<lambda>h. h \<noteq> []) (sort (map fst trucks_by_haulier))))) []\<rparr>"

definition owner_of :: "tick_input \<Rightarrow> string \<Rightarrow> string option" where
  "owner_of ti oid = map_of (ti_owner_by_id ti) oid"

definition input_order_ids :: "tick_input \<Rightarrow> string list" where
  "input_order_ids ti = map fst (ti_orders_by_id ti)"

section \<open>Step 4: contribution\<close>

definition place_offer :: "tick_input \<Rightarrow> string \<Rightarrow> (string, string list) dict \<Rightarrow> pool_market \<Rightarrow> pool_market" where
  "place_offer ti h contribution mk =
     fold (\<lambda>oid mk. if owner_of ti oid \<noteq> Some h then mk else fst (contribute oid h (dict_list contribution oid) mk))
       (sorted_set (map fst contribution)) mk"

definition contribute_company ::
    "'r planner_ctx \<Rightarrow> tick_input \<Rightarrow> string \<Rightarrow> pool_market \<times> 'r \<Rightarrow> pool_market \<times> 'r" where
  "contribute_company ctx ti h = (\<lambda>(mk, r).
     let pools = pools_for mk h; own = dict_list (ti_orders ti) h in
     if pools = [] \<or> own = [] then (mk, r)
     else case cx_offer ctx h own (dict_list (ti_trucks ti) h) pools r of
       (Offered d, r') \<Rightarrow> (place_offer ti h d mk, r')
     | (_, r') \<Rightarrow> (mk, r'))"

definition contribution_step :: "'r planner_ctx \<Rightarrow> tick_input \<Rightarrow> pool_market \<times> 'r \<Rightarrow> pool_market \<times> 'r" where
  "contribution_step ctx ti s = (if is_empty (fst s) then s else fold (contribute_company ctx ti) (ti_company_ids ti) s)"

section \<open>Step 5: bidding rounds\<close>

definition pair_allowed_for :: "'r planner_ctx \<Rightarrow> string \<Rightarrow> truck_doc \<Rightarrow> order_doc \<Rightarrow> bool" where
  "pair_allowed_for ctx carrier t ord =
     (if haulier_of ord = Some carrier then cx_pair_allowed_own ctx t ord else cx_pair_allowed_pooled ctx t ord)"

definition free_trucks_by_haulier :: "tick_input \<Rightarrow> pool_market \<Rightarrow> fleet" where
  "free_trucks_by_haulier ti mk =
     map (\<lambda>(h, ts). (h, filter (\<lambda>t. is_truck_free mk (id_text t)) ts)) (filter (\<lambda>(h, ts). h \<noteq> []) (ti_trucks ti))"

definition free_orders :: "tick_input \<Rightarrow> pool_market \<Rightarrow> order_doc list" where
  "free_orders ti mk =
     List.map_filter (map_of (ti_orders_by_id ti)) (filter (is_order_free mk) (sort (input_order_ids ti)))"

definition round_candidates :: "'r planner_ctx \<Rightarrow> tick_input \<Rightarrow> pool_market \<Rightarrow> (string, pair list) dict" where
  "round_candidates ctx ti mk =
     (if cx_use_spatial ctx \<and> cx_solve_pairs ctx \<noteq> None
      then build_round_candidates ctx (pair_allowed_for ctx) mk (ti_owner_by_id ti) (free_trucks_by_haulier ti mk) (free_orders ti mk)
      else [])"

text \<open>The orders a company plans over: its own free ones, then the pooled ones it sees.\<close>

definition candidate_orders :: "tick_input \<Rightarrow> pool_market \<Rightarrow> string \<Rightarrow> order_doc list" where
  "candidate_orders ti mk h =
     filter (\<lambda>ord. is_order_free mk (id_text ord)) (dict_list (ti_orders ti) h) @
     List.map_filter (map_of (ti_orders_by_id ti))
       (filter (is_order_free mk) (sorted_list_of_set (visible_pooled_order_ids mk h)))"

definition private_award :: "string \<Rightarrow> int \<Rightarrow> pair \<Rightarrow> pyfloat \<Rightarrow> award" where
  "private_award h rnd p c =
     \<lparr>aw_order_id = id_text (snd p), aw_truck_id = id_text (fst p), aw_carrier_haulier_id = h,
      aw_owner_haulier_id = Some h, aw_cost_km = c, aw_pool_id = None, aw_round = rnd\<rparr>"

fun commit_private :: "cost_fn \<Rightarrow> string \<Rightarrow> int \<Rightarrow> pair list \<Rightarrow> pool_market \<Rightarrow> nat \<Rightarrow> py_error + (pool_market \<times> nat)" where
  "commit_private cost h rnd [] mk n = Inr (mk, n)"
| "commit_private cost h rnd (p # ps) mk n =
     (case cost (fst p) (snd p) of
        None \<Rightarrow> Inl TypeError
      | Some c \<Rightarrow>
          (case commit (private_award h rnd p c) mk of
             (mk', ok) \<Rightarrow> commit_private cost h rnd ps mk' (if ok then Suc n else n)))"

record 'r round_state =
  rs_market :: pool_market
  rs_rng :: 'r
  rs_bids :: "bid list"
  rs_private :: nat

definition own_pair :: "tick_input \<Rightarrow> string \<Rightarrow> pair \<Rightarrow> bool" where
  "own_pair ti h p \<longleftrightarrow> owner_of ti (id_text (snd p)) = Some h"

definition contributed_pair :: "pool_market \<Rightarrow> pair \<Rightarrow> bool" where
  "contributed_pair mk p \<longleftrightarrow> is_contributed mk (id_text (snd p))"

text \<open>One company's turn: plan, split the plan in three, commit private work, bid for the rest.\<close>

definition company_step ::
    "'r planner_ctx \<Rightarrow> tick_input \<Rightarrow> int \<Rightarrow> fleet \<Rightarrow> (string, pair list) dict \<Rightarrow> string \<Rightarrow> 'r round_state
     \<Rightarrow> py_error + 'r round_state" where
  "company_step ctx ti rnd free_trucks cands h st =
     (let own_trucks = dict_list free_trucks h; mk = rs_market st; orders = candidate_orders ti mk h in
      if own_trucks = [] \<or> orders = [] then Inr st
      else case solve_company ctx own_trucks orders (pair_allowed_for ctx h) (dict_list cands h) (rs_rng st) of
        (None, r) \<Rightarrow> Inr (st\<lparr>rs_rng := r\<rparr>)
      | (Some result, r) \<Rightarrow>
          (let own_private = filter (\<lambda>p. own_pair ti h p \<and> \<not> contributed_pair mk p) result;
               own_contributed = filter (\<lambda>p. own_pair ti h p \<and> contributed_pair mk p) result;
               foreign = filter (\<lambda>p. \<not> own_pair ti h p) result;
               pooled = own_contributed @ foreign
           in case commit_private (cx_cost ctx) h rnd own_private mk (rs_private st) of
                Inl e \<Rightarrow> Inl e
              | Inr (mk', n) \<Rightarrow>
                  if pooled = [] then Inr (st\<lparr>rs_market := mk', rs_rng := r, rs_private := n\<rparr>)
                  else case cx_claim ctx h pooled (own_private @ own_contributed) mk' rnd r of
                    (None, r') \<Rightarrow> Inr (st\<lparr>rs_market := mk', rs_rng := r', rs_private := n\<rparr>)
                  | (Some bs, r') \<Rightarrow>
                      Inr (st\<lparr>rs_market := mk', rs_rng := r', rs_private := n, rs_bids := rs_bids st @ bs\<rparr>)))"

fun companies_step ::
    "'r planner_ctx \<Rightarrow> tick_input \<Rightarrow> int \<Rightarrow> fleet \<Rightarrow> (string, pair list) dict \<Rightarrow> string list \<Rightarrow> 'r round_state
     \<Rightarrow> py_error + 'r round_state" where
  "companies_step ctx ti rnd free_trucks cands [] st = Inr st"
| "companies_step ctx ti rnd free_trucks cands (h # hs) st =
     (case company_step ctx ti rnd free_trucks cands h st of
        Inl e \<Rightarrow> Inl e
      | Inr st' \<Rightarrow> companies_step ctx ti rnd free_trucks cands hs st')"

text \<open>Commit the awards; an award of an order its carrier cannot see is blocked.\<close>

fun commit_awards :: "award list \<Rightarrow> pool_market \<Rightarrow> bool \<Rightarrow> pool_market \<times> bool" where
  "commit_awards [] mk any = (mk, any)"
| "commit_awards (a # as) mk any =
     (if Some (aw_carrier_haulier_id a) \<noteq> aw_owner_haulier_id a \<and>
         pool_of_order mk (aw_order_id a) (aw_carrier_haulier_id a) = None
      then commit_awards as mk any
      else case commit a mk of (mk', ok) \<Rightarrow> commit_awards as mk' (any \<or> ok))"

text \<open>One round: the new market and generator, and whether anything was committed (if not, the auction has converged).\<close>

definition market_round ::
    "'r planner_ctx \<Rightarrow> tick_input \<Rightarrow> int \<Rightarrow> (string, pair list) dict \<Rightarrow> pool_market \<times> 'r
     \<Rightarrow> py_error + (pool_market \<times> 'r) \<times> bool" where
  "market_round ctx ti rnd cands = (\<lambda>(mk, r).
     case companies_step ctx ti rnd (free_trucks_by_haulier ti mk) cands (ti_company_ids ti)
            \<lparr>rs_market = mk, rs_rng = r, rs_bids = [], rs_private = 0\<rparr> of
       Inl e \<Rightarrow> Inl e
     | Inr st \<Rightarrow>
         if rs_bids st = [] \<and> rs_private st = 0 then Inr ((rs_market st, rs_rng st), False)
         else case cx_arbitrate ctx (owner_of ti) (rs_market st) (rs_bids st) (rs_rng st) of
           (aws, r') \<Rightarrow>
             (case commit_awards aws (rs_market st) (rs_private st \<noteq> 0) of
                (mk', any) \<Rightarrow> Inr ((mk', r'), any)))"

record round_log =
  rl_rounds_used :: int
  rl_converged :: bool
  rl_pairs1 :: nat
  rl_pairs_total :: nat

fun run_rounds ::
    "'r planner_ctx \<Rightarrow> tick_input \<Rightarrow> int list \<Rightarrow> pool_market \<times> 'r \<Rightarrow> round_log \<Rightarrow> py_error + (pool_market \<times> 'r) \<times> round_log" where
  "run_rounds ctx ti [] s lg = Inr (s, lg)"
| "run_rounds ctx ti (rnd # rnds) s lg =
     (if \<not> list_ex (is_order_free (fst s)) (input_order_ids ti) then Inr (s, lg\<lparr>rl_converged := True\<rparr>)
      else
        let cands = round_candidates ctx ti (fst s);
            n = sum_list (map (length \<circ> snd) cands);
            lg' = lg\<lparr>rl_rounds_used := rnd, rl_pairs_total := rl_pairs_total lg + n,
                       rl_pairs1 := (if rnd = 1 then n else rl_pairs1 lg)\<rparr>
        in case market_round ctx ti rnd cands s of
             Inl e \<Rightarrow> Inl e
           | Inr (s', any) \<Rightarrow>
               if any then run_rounds ctx ti rnds s' lg' else Inr (s', lg'\<lparr>rl_converged := True\<rparr>))"

section \<open>Step 6 and 7: accounting and assertions\<close>

definition tag_of :: "'r planner_ctx \<Rightarrow> tick_input \<Rightarrow> string set \<Rightarrow> award \<Rightarrow> order_doc \<Rightarrow> share_tag" where
  "tag_of ctx ti committed a ord =
     (let reserve = owner_reserve_km ord (case aw_owner_haulier_id a of None \<Rightarrow> [] | Some w \<Rightarrow> dict_list (ti_trucks ti) w)
             committed (cx_pair_allowed_own ctx) (cx_cost ctx);
          awarded_cost = finite_or_none (aw_cost_km a);
          benefit = (case (reserve, awarded_cost) of
              (Some rv, Some c) \<Rightarrow> finite_or_none (py_sub rv (Fin c)) | _ \<Rightarrow> None)
      in \<lparr>st_owner_haulier_id = aw_owner_haulier_id a, st_carrier_haulier_id = aw_carrier_haulier_id a,
          st_benefit_km = map_option round3 benefit, st_pool_id = aw_pool_id a,
          st_awarded_cost_km = map_option round3 awarded_cost,
          st_owner_reserve_km = map_option round3_fl reserve, st_market_round = aw_round a\<rparr>)"

fun account ::
    "'r planner_ctx \<Rightarrow> tick_input \<Rightarrow> string set \<Rightarrow> award list \<Rightarrow> pair list \<Rightarrow> (string \<times> string, share_tag) dict
     \<Rightarrow> pair list \<times> (string \<times> string, share_tag) dict" where
  "account ctx ti committed [] asg tags = (asg, tags)"
| "account ctx ti committed (a # as) asg tags =
     (case (map_of (ti_trucks_by_id ti) (aw_truck_id a), map_of (ti_orders_by_id ti) (aw_order_id a)) of
        (Some t, Some ord) \<Rightarrow>
          if Some (aw_carrier_haulier_id a) = aw_owner_haulier_id a
          then account ctx ti committed as (asg @ [(t, ord)]) tags
          else account ctx ti committed as (asg @ [(t, ord)])
                 (AList.update (aw_truck_id a, aw_order_id a) (tag_of ctx ti committed a ord) tags)
      | _ \<Rightarrow> account ctx ti committed as asg tags)"

text \<open>The assertions I-P1, I-P2 and I-P3.\<close>

definition invariants_hold :: "tick_input \<Rightarrow> award list \<Rightarrow> bool" where
  "invariants_hold ti aws \<longleftrightarrow>
     set (map aw_order_id aws) \<subseteq> set (input_order_ids ti) \<and>
     distinct (map aw_order_id aws) \<and> distinct (map aw_truck_id aws) \<and>
     list_all (\<lambda>a. aw_owner_haulier_id a = owner_of ti (aw_order_id a)) aws"

definition run_pooled_market ::
    "'r planner_ctx \<Rightarrow> fleet \<Rightarrow> workload \<Rightarrow> pool_market \<Rightarrow> 'r \<Rightarrow> py_error + (market_result \<times> pool_market \<times> 'r)" where
  "run_pooled_market ctx trucks_by_haulier orders_by_haulier mk r =
     (let ti = tick_input_of trucks_by_haulier orders_by_haulier;
          max_rounds = clamp_rounds (if cx_max_rounds ctx = 0 then default_max_rounds else cx_max_rounds ctx)
      in case run_rounds ctx ti [1..max_rounds] (contribution_step ctx ti (mk, r))
                \<lparr>rl_rounds_used = 0, rl_converged = False, rl_pairs1 = 0, rl_pairs_total = 0\<rparr> of
           Inl e \<Rightarrow> Inl e
         | Inr ((mk', r'), lg) \<Rightarrow>
             (case account ctx ti (set (map aw_truck_id (awards mk'))) (awards mk') [] [] of
                (asg, tags) \<Rightarrow>
                  if \<not> invariants_hold ti (awards mk') then Inl AssertionError
                  else Inr (\<lparr>mr_assignment = asg, mr_share_tags = tags, mr_rounds_used = rl_rounds_used lg,
                             mr_converged = rl_converged lg, mr_candidate_pairs_round1 = rl_pairs1 lg,
                             mr_candidate_pairs_total = rl_pairs_total lg\<rparr>, mk', r')))"

end
