(* ===== verification/Pooled_Market.thy ===== *)
theory Pooled_Market
  imports Pooled_Planner
begin

text \<open>
  What the pooled market guarantees. The central invariant holds after the contributions and after every round, for
  arbitrary company policies and solvers and for every arbitration rule that keeps its contract; it implies the assertions
  of the code, so they never fire. Progress of the rounds is counted in free orders.
\<close>

section \<open>The invariant\<close>

definition award_ok :: "tick_input \<Rightarrow> pool_market \<Rightarrow> award \<Rightarrow> bool" where
  "award_ok ti mk a \<longleftrightarrow> aw_owner_haulier_id a = owner_of ti (aw_order_id a) \<and> owner_of ti (aw_order_id a) \<noteq> None \<and>
     (Some (aw_carrier_haulier_id a) = aw_owner_haulier_id a \<or> pool_of_order mk (aw_order_id a) (aw_carrier_haulier_id a) \<noteq> None)"

definition plan_inv :: "tick_input \<Rightarrow> pool_market \<Rightarrow> bool" where
  "plan_inv ti mk \<longleftrightarrow> market_ok mk \<and>
     (\<forall>oid w. map_of (pm_contribution_owner mk) oid = Some w \<longrightarrow> owner_of ti oid = Some w) \<and>
     (\<forall>a\<in>set (awards mk). award_ok ti mk a)"

lemma pool_of_order_commit [market_simps]: "pool_of_order (fst (commit a mk)) = pool_of_order mk"
  by (simp add: pool_of_order_def fun_eq_iff market_simps)

lemma award_ok_commit [market_simps]: "award_ok ti (fst (commit a mk)) = award_ok ti mk"
  by (simp add: award_ok_def fun_eq_iff market_simps)

lemma awards_commit: "market_ok mk \<Longrightarrow> set (awards (fst (commit a mk))) \<subseteq> insert a (set (awards mk))"
  by (auto simp: commit_def awards_def split: if_splits)

lemma plan_inv_commit: "plan_inv ti mk \<Longrightarrow> award_ok ti mk a \<Longrightarrow> plan_inv ti (fst (commit a mk))"
  using awards_commit [of mk a] ledger.book_in_inv [of mk a] by (auto simp: plan_inv_def market_simps)

lemma visible_owner:
  assumes "plan_inv ti mk" and "pool_of_order mk oid h \<noteq> None"
  shows "owner_of ti oid \<noteq> None"
proof -
  obtain pid where "pid \<in> set (dict_list (pm_contributions mk) oid)" using assms(2) pool_of_order_spec by blast
  then obtain ps where "map_of (pm_contributions mk) oid = Some ps" by (rule dict_listE)
  then obtain w where "map_of (pm_contribution_owner mk) oid = Some w"
    using assms(1) unfolding plan_inv_def market_ok_def contributions_ok_def by blast
  then show ?thesis using assms(1) unfolding plan_inv_def by blast
qed

section \<open>Contribution\<close>

lemma plan_inv_contribute:
  assumes "plan_inv ti mk" and "awards mk = []" and "owner_of ti oid = Some h"
  shows "plan_inv ti (fst (contribute oid h pids mk)) \<and> awards (fst (contribute oid h pids mk)) = []"
proof -
  let ?mk = "fst (contribute oid h pids mk)"
  have "awards ?mk = []" using assms(2) by (simp add: awards_def contribute_frame)
  moreover have "market_ok ?mk"
    using assms(1) by (simp add: plan_inv_def market_ok_def contributions_ok_contribute ledger_ok_contribute contribute_frame(1))
  moreover have "owner_of ti x = Some w" if "map_of (pm_contribution_owner ?mk) x = Some w" for x w
  proof (cases "x = oid \<and> map_of (pm_contribution_owner mk) x \<noteq> Some w")
    case True
    then have "w = h" using that by (auto simp: contribute_def Let_def split: if_splits)
    then show ?thesis using True assms(3) by simp
  next
    case False
    then have "map_of (pm_contribution_owner mk) x = Some w"
      using that by (cases "x = oid") (auto simp: contribute_def Let_def split: if_splits)
    then show ?thesis using assms(1) unfolding plan_inv_def by blast
  qed
  ultimately show ?thesis by (simp add: plan_inv_def)
qed

lemma plan_inv_place:
  assumes "plan_inv ti mk" and "awards mk = []"
  shows "plan_inv ti (place_offer ti h d mk) \<and> awards (place_offer ti h d mk) = []"
proof -
  let ?f = "\<lambda>oid mk. if owner_of ti oid \<noteq> Some h then mk else fst (contribute oid h (dict_list d oid) mk)"
  have "plan_inv ti (fold ?f oids mk) \<and> awards (fold ?f oids mk) = []" if "plan_inv ti mk" "awards mk = []" for oids mk
    using that
  proof (induction oids arbitrary: mk)
    case (Cons x xs)
    have "plan_inv ti (?f x mk) \<and> awards (?f x mk) = []" using plan_inv_contribute Cons.prems by auto
    then show ?case using Cons.IH [of "?f x mk"] by simp
  qed simp
  then show ?thesis using assms by (simp add: place_offer_def)
qed

lemma plan_inv_contribution_step:
  assumes "plan_inv ti mk" and "awards mk = []"
  shows "plan_inv ti (fst (contribution_step ctx ti (mk, r))) \<and> awards (fst (contribution_step ctx ti (mk, r))) = []"
proof -
  have one: "plan_inv ti (fst (contribute_company ctx ti h s)) \<and> awards (fst (contribute_company ctx ti h s)) = []"
    if "plan_inv ti (fst s)" "awards (fst s) = []" for h s
    using that plan_inv_place
    by (auto simp: contribute_company_def split_beta Let_def split: prod.split offer_outcome.split)
  have "plan_inv ti (fst (fold (contribute_company ctx ti) hs s)) \<and> awards (fst (fold (contribute_company ctx ti) hs s)) = []"
    if "plan_inv ti (fst s)" "awards (fst s) = []" for hs s
    using that
  proof (induction hs arbitrary: s)
    case (Cons h hs)
    then show ?case using one [OF Cons.prems, of h] by simp
  qed simp
  then show ?thesis using assms by (simp add: contribution_step_def)
qed

section \<open>Progress\<close>

definition free_count :: "tick_input \<Rightarrow> pool_market \<Rightarrow> nat" where
  "free_count ti mk = card {oid \<in> set (input_order_ids ti). is_order_free mk oid}"

lemma free_count_le: "free_count ti mk \<le> length (input_order_ids ti)"
proof -
  have "free_count ti mk \<le> card (set (input_order_ids ti))" unfolding free_count_def by (rule card_mono) auto
  also have "\<dots> \<le> length (input_order_ids ti)" by (rule card_length)
  finally show ?thesis .
qed

text \<open>Every owner belongs to an input order.\<close>

lemma owner_input: "owner_of (tick_input_of ts os) oid \<noteq> None \<longleftrightarrow> oid \<in> set (input_order_ids (tick_input_of ts os))"
proof -
  have "dom (map_of (fold (\<lambda>(h, ord). AList.update (id_text ord) (f h ord)) xs d)) =
      dom (map_of d) \<union> (\<lambda>(h, ord). id_text ord) ` set xs" for f :: "string \<Rightarrow> order_doc \<Rightarrow> 'v" and xs d
    by (induction xs arbitrary: d) (auto simp: dom_update)
  from this [of "\<lambda>h ord. h"] this [of "\<lambda>h ord. ord"]
  have "dom (map_of (ti_owner_by_id (tick_input_of ts os))) = dom (map_of (ti_orders_by_id (tick_input_of ts os)))"
    by (simp add: tick_input_of_def)
  then show ?thesis by (metis owner_of_def input_order_ids_def domIff dom_map_of_conv_image_fst list.set_map)
qed

lemma commit_true_progress:
  assumes "snd (commit a mk)" and "aw_order_id a \<in> set (input_order_ids ti)"
  shows "free_count ti (fst (commit a mk)) < free_count ti mk"
proof -
  have free: "is_order_free mk (aw_order_id a)" using assms(1) by (auto simp: commit_def is_order_free_def split: if_splits)
  have "{oid \<in> set (input_order_ids ti). is_order_free (fst (commit a mk)) oid} =
      {oid \<in> set (input_order_ids ti). is_order_free mk oid} - {aw_order_id a}"
    using assms(1) by (auto simp: commit_def is_order_free_def split: if_splits)
  then show ?thesis unfolding free_count_def using assms(2) free by (simp add: card_Diff1_less del: card_Diff_insert)
qed

lemma commit_false_same: "\<not> snd (commit a mk) \<Longrightarrow> fst (commit a mk) = mk"
  by (auto simp: commit_def split: if_splits)

text \<open>A commitment of an award that is in order keeps the invariant and, if accepted, uses up a free order.\<close>

lemma commit_progress:
  assumes "plan_inv (tick_input_of ts os) mk" and "award_ok (tick_input_of ts os) mk a"
  shows "free_count (tick_input_of ts os) (fst (commit a mk)) + (if snd (commit a mk) then 1 else 0)
    \<le> free_count (tick_input_of ts os) mk"
proof (cases "snd (commit a mk)")
  case True
  moreover have "aw_order_id a \<in> set (input_order_ids (tick_input_of ts os))"
    using assms(2) owner_input by (auto simp: award_ok_def)
  ultimately show ?thesis using commit_true_progress by fastforce
next
  case False
  then show ?thesis by (simp add: commit_false_same)
qed

section \<open>Rounds\<close>

lemma commit_private_inv:
  assumes "plan_inv (tick_input_of ts os) mk" and "\<forall>p\<in>set ps. own_pair (tick_input_of ts os) h p"
    and "commit_private cost h rnd ps mk n = Inr (mk', n')"
  shows "plan_inv (tick_input_of ts os) mk' \<and>
    free_count (tick_input_of ts os) mk' + n' \<le> free_count (tick_input_of ts os) mk + n"
  using assms
proof (induction ps arbitrary: mk n)
  case (Cons p ps)
  let ?ti = "tick_input_of ts os"
  obtain c where c: "cost (fst p) (snd p) = Some c" using Cons.prems(3) by (auto split: option.splits)
  let ?a = "private_award h rnd p c" and ?n = "if snd (commit (private_award h rnd p c) mk) then Suc n else n"
  have ok: "award_ok ?ti mk ?a" using Cons.prems(2) by (simp add: award_ok_def private_award_def own_pair_def)
  have rest: "commit_private cost h rnd ps (fst (commit ?a mk)) ?n = Inr (mk', n')"
    using Cons.prems(3) c by (simp add: split_beta)
  show ?case
    using Cons.IH [OF plan_inv_commit [OF Cons.prems(1) ok] _ rest] Cons.prems(2) commit_progress [OF Cons.prems(1) ok]
    by (auto split: if_splits)
qed simp

lemma company_step_inv:
  assumes "plan_inv (tick_input_of ts os) (rs_market st)" and "company_step ctx (tick_input_of ts os) rnd ft cands h st = Inr st'"
  shows "plan_inv (tick_input_of ts os) (rs_market st') \<and>
    free_count (tick_input_of ts os) (rs_market st') + rs_private st' \<le> free_count (tick_input_of ts os) (rs_market st) + rs_private st"
proof -
  let ?ti = "tick_input_of ts os"
  consider (same) "rs_market st' = rs_market st" "rs_private st' = rs_private st"
    | (plan) ps where "\<forall>p\<in>set ps. own_pair ?ti h p"
        "commit_private (cx_cost ctx) h rnd ps (rs_market st) (rs_private st) = Inr (rs_market st', rs_private st')"
  proof -
    let ?sc = "solve_company ctx (dict_list ft h) (candidate_orders ?ti (rs_market st) h) (pair_allowed_for ctx h)
        (dict_list cands h) (rs_rng st)"
    let ?priv = "\<lambda>result. filter (\<lambda>p. own_pair ?ti h p \<and> \<not> contributed_pair (rs_market st) p) result"
    show ?thesis
    proof (cases "dict_list ft h = [] \<or> candidate_orders ?ti (rs_market st) h = [] \<or> fst ?sc = None")
      case True
      then show ?thesis using assms(2) same
        by (cases ?sc) (auto simp: company_step_def Let_def split: if_splits)
    next
      case False
      then obtain result r where r: "?sc = (Some result, r)" by (cases ?sc) auto
      obtain mk' n where c: "commit_private (cx_cost ctx) h rnd (?priv result) (rs_market st) (rs_private st) = Inr (mk', n)"
        using assms(2) False r by (auto simp: company_step_def Let_def split: sum.splits)
      then have "rs_market st' = mk' \<and> rs_private st' = n"
        using assms(2) False r by (auto simp: company_step_def Let_def split: if_splits prod.splits option.splits)
      then show ?thesis using plan [of "?priv result"] c by simp
    qed
  qed
  then show ?thesis
  proof cases
    case same
    then show ?thesis using assms(1) by simp
  next
    case (plan ps)
    then show ?thesis using commit_private_inv [OF assms(1)] by blast
  qed
qed

lemma companies_step_inv:
  "plan_inv (tick_input_of ts os) (rs_market st) \<Longrightarrow> companies_step ctx (tick_input_of ts os) rnd ft cands hs st = Inr st' \<Longrightarrow>
   plan_inv (tick_input_of ts os) (rs_market st') \<and>
   free_count (tick_input_of ts os) (rs_market st') + rs_private st' \<le> free_count (tick_input_of ts os) (rs_market st) + rs_private st"
proof (induction hs arbitrary: st)
  case (Cons h hs)
  then obtain st1 where st1: "company_step ctx (tick_input_of ts os) rnd ft cands h st = Inr st1"
      "companies_step ctx (tick_input_of ts os) rnd ft cands hs st1 = Inr st'"
    by (auto split: sum.splits)
  show ?case using company_step_inv [OF Cons.prems(1) st1(1)] Cons.IH [OF _ st1(2)] by linarith
qed simp

text \<open>An award of a rule that passes the check of the host is in order.\<close>

lemma checked_award_ok:
  assumes "plan_inv ti mk" and "aw_owner_haulier_id a = owner_of ti (aw_order_id a)"
    and "\<not> (Some (aw_carrier_haulier_id a) \<noteq> aw_owner_haulier_id a \<and> pool_of_order mk (aw_order_id a) (aw_carrier_haulier_id a) = None)"
  shows "award_ok ti mk a"
proof (cases "Some (aw_carrier_haulier_id a) = aw_owner_haulier_id a")
  case True
  then have "owner_of ti (aw_order_id a) = Some (aw_carrier_haulier_id a)" using assms(2) by simp
  then show ?thesis using assms(2) by (simp add: award_ok_def)
next
  case False
  then show ?thesis using assms visible_owner [OF assms(1)] by (auto simp: award_ok_def)
qed

lemma commit_awards_inv:
  assumes "plan_inv (tick_input_of ts os) mk" and "\<forall>a\<in>set as. aw_owner_haulier_id a = owner_of (tick_input_of ts os) (aw_order_id a)"
    and "commit_awards as mk any = (mk', any')"
  shows "plan_inv (tick_input_of ts os) mk' \<and> free_count (tick_input_of ts os) mk' \<le> free_count (tick_input_of ts os) mk \<and>
    (any' \<longrightarrow> any \<or> free_count (tick_input_of ts os) mk' < free_count (tick_input_of ts os) mk)"
  using assms
proof (induction as arbitrary: mk any)
  case (Cons a as)
  let ?blocked = "Some (aw_carrier_haulier_id a) \<noteq> aw_owner_haulier_id a \<and>
      pool_of_order mk (aw_order_id a) (aw_carrier_haulier_id a) = None"
  show ?case
  proof (cases ?blocked)
    case True
    then show ?thesis using Cons.IH [OF Cons.prems(1), of any] Cons.prems(2,3) by simp
  next
    case False
    have ok: "award_ok (tick_input_of ts os) mk a" using checked_award_ok [OF Cons.prems(1) _ False] Cons.prems(2) by simp
    have rest: "commit_awards as (fst (commit a mk)) (any \<or> snd (commit a mk)) = (mk', any')"
      using Cons.prems(3) False by (simp add: split_beta)
    show ?thesis
      using Cons.IH [OF plan_inv_commit [OF Cons.prems(1) ok] _ rest] Cons.prems(2) commit_progress [OF Cons.prems(1) ok]
      by (auto split: if_splits)
  qed
qed simp

lemma market_round_inv:
  assumes arb: "arbitration_contract (cx_arbitrate ctx (owner_of (tick_input_of ts os))) (owner_of (tick_input_of ts os))"
    and inv: "plan_inv (tick_input_of ts os) (fst s)" and r: "market_round ctx (tick_input_of ts os) rnd cands s = Inr (s', any)"
  shows "plan_inv (tick_input_of ts os) (fst s') \<and>
    (any \<longrightarrow> free_count (tick_input_of ts os) (fst s') < free_count (tick_input_of ts os) (fst s))"
proof -
  let ?ti = "tick_input_of ts os"
  let ?st0 = "\<lparr>rs_market = fst s, rs_rng = snd s, rs_bids = [], rs_private = 0\<rparr>"
  obtain st where st: "companies_step ctx ?ti rnd (free_trucks_by_haulier ?ti (fst s)) cands (ti_company_ids ?ti) ?st0 = Inr st"
    using r by (auto simp: market_round_def split_beta split: sum.splits)
  have c: "plan_inv ?ti (rs_market st)" "free_count ?ti (rs_market st) + rs_private st \<le> free_count ?ti (fst s)"
    using companies_step_inv [OF _ st] inv by auto
  show ?thesis
  proof (cases "rs_bids st = [] \<and> rs_private st = 0")
    case True
    then show ?thesis using r st c by (auto simp: market_round_def split_beta)
  next
    case False
    obtain aws r' where aws: "cx_arbitrate ctx (owner_of ?ti) (rs_market st) (rs_bids st) (rs_rng st) = (aws, r')"
      by (metis surj_pair)
    have own: "\<forall>a\<in>set aws. aw_owner_haulier_id a = owner_of ?ti (aw_order_id a)"
    proof
      fix a assume "a \<in> set aws"
      then have "a = award_of (owner_of ?ti) (bid_of a)"
        using arbitration_contract.from_bids [OF arb, of a "rs_market st" "rs_bids st" "rs_rng st"] aws by simp
      then show "aw_owner_haulier_id a = owner_of ?ti (aw_order_id a)" by (metis award.select_convs(4) award_of_def bid_of_sel(1))
    qed
    obtain mk' any' where ca: "commit_awards aws (rs_market st) (rs_private st \<noteq> 0) = (mk', any')" by (metis surj_pair)
    have "s' = (mk', r')" "any = any'" using r st False aws ca by (auto simp: market_round_def split_beta)
    then show ?thesis using commit_awards_inv [OF c(1) own ca] c(2) by auto
  qed
qed

lemma run_rounds_inv:
  assumes arb: "arbitration_contract (cx_arbitrate ctx (owner_of (tick_input_of ts os))) (owner_of (tick_input_of ts os))"
  shows "plan_inv (tick_input_of ts os) (fst s) \<Longrightarrow> run_rounds ctx (tick_input_of ts os) rnds s lg = Inr (s', lg') \<Longrightarrow>
    plan_inv (tick_input_of ts os) (fst s') \<and>
    (free_count (tick_input_of ts os) (fst s) < length rnds \<longrightarrow> rl_converged lg')"
proof (induction rnds arbitrary: s lg)
  case (Cons rnd rnds)
  let ?ti = "tick_input_of ts os" and ?cands = "round_candidates ctx (tick_input_of ts os) (fst s)"
  show ?case
  proof (cases "list_ex (is_order_free (fst s)) (input_order_ids ?ti)")
    case False
    then show ?thesis using Cons.prems by auto
  next
    case True
    obtain s1 any where s1: "market_round ctx ?ti rnd ?cands s = Inr (s1, any)"
      using Cons.prems(2) True by (auto simp: Let_def split: sum.splits)
    note inv = market_round_inv [OF arb Cons.prems(1) s1]
    show ?thesis
    proof (cases any)
      case True
      then obtain lg1 where "run_rounds ctx ?ti rnds s1 lg1 = Inr (s', lg')"
        using Cons.prems(2) s1 \<open>list_ex (is_order_free (fst s)) (input_order_ids ?ti)\<close> by (auto simp: Let_def)
      then show ?thesis using Cons.IH [of s1 lg1] inv True by auto
    next
      case False
      then have "s' = s1" "rl_converged lg'"
        using Cons.prems(2) s1 \<open>list_ex (is_order_free (fst s)) (input_order_ids ?ti)\<close> by (auto simp: Let_def)
      then show ?thesis using inv by simp
    qed
  qed
qed simp

section \<open>Accounting\<close>

definition award_pair :: "tick_input \<Rightarrow> award \<Rightarrow> pair option" where
  "award_pair ti a = (case (map_of (ti_trucks_by_id ti) (aw_truck_id a), map_of (ti_orders_by_id ti) (aw_order_id a)) of
     (Some t, Some ord) \<Rightarrow> Some (t, ord) | _ \<Rightarrow> None)"

lemma account_assignment: "fst (account ctx ti committed aws asg tags) = asg @ List.map_filter (award_pair ti) aws"
proof (induction aws arbitrary: asg tags)
  case (Cons a aws)
  show ?case
  proof (cases "award_pair ti a")
    case None
    then have "account ctx ti committed (a # aws) asg tags = account ctx ti committed aws asg tags"
      by (auto simp: award_pair_def split: option.splits)
    then show ?thesis using Cons None by (simp add: List.map_filter_simps)
  next
    case (Some p)
    then obtain t ord where p: "p = (t, ord)" "map_of (ti_trucks_by_id ti) (aw_truck_id a) = Some t"
        "map_of (ti_orders_by_id ti) (aw_order_id a) = Some ord"
      by (auto simp: award_pair_def split: option.splits)
    then obtain tags1 where "account ctx ti committed (a # aws) asg tags = account ctx ti committed aws (asg @ [p]) tags1"
      by (cases "Some (aw_carrier_haulier_id a) = aw_owner_haulier_id a") auto
    then show ?thesis using Cons.IH [of "asg @ [p]" tags1] Some by (simp add: List.map_filter_simps)
  qed
qed (simp add: List.map_filter_simps)

lemma truck_index_lookup:
  assumes "map_of (ti_trucks_by_id (tick_input_of ts os)) tid = Some t"
  shows "id_text t = tid \<and> (\<exists>h. h \<noteq> [] \<and> t \<in> set (dict_list ts h))"
proof -
  let ?all = "concat (map (dict_list ts) (filter (\<lambda>h. h \<noteq> []) (sort (map fst ts))))"
  have "List.find (\<lambda>t. id_text t = tid) (rev ?all) = Some t"
    using assms by (simp add: tick_input_of_def lookup_fold_update split: option.splits)
  from find_SomeD [OF this] show ?thesis by auto
qed

lemma order_index_lookup:
  assumes "map_of (ti_orders_by_id (tick_input_of ts os)) oid = Some ord"
  shows "id_text ord = oid \<and> (\<exists>h. owner_of (tick_input_of ts os) oid = Some h \<and> h \<noteq> [] \<and> ord \<in> set (dict_list os h))"
proof -
  obtain h where f: "List.find (\<lambda>p. id_text (snd p) = oid) (rev (index_orders os)) = Some (h, ord)"
    using assms by (auto simp: tick_input_of_def case_prod_unfold lookup_fold_update split: option.splits)
  then have "owner_of (tick_input_of ts os) oid = Some h"
    by (simp add: tick_input_of_def owner_of_def case_prod_unfold lookup_fold_update)
  moreover have "id_text ord = oid" "h \<noteq> []" "ord \<in> set (dict_list os h)"
    using find_SomeD [OF f] by (auto simp: index_orders_def)
  ultimately show ?thesis by blast
qed

lemma fresh_plan_inv: "plan_inv ti (market_from_structure st) \<and> awards (market_from_structure st) = []"
  by (simp add: plan_inv_def market_from_structure_def market_ok_new) (simp add: new_market_def awards_def)

lemma run_pooled_market_cases:
  assumes arb: "arbitration_contract (cx_arbitrate ctx (owner_of (tick_input_of ts os))) (owner_of (tick_input_of ts os))"
    and "run_pooled_market ctx ts os (market_from_structure st) r = Inr (result, mk', r')"
  shows "plan_inv (tick_input_of ts os) mk' \<and> mr_assignment result = List.map_filter (award_pair (tick_input_of ts os)) (awards mk') \<and>
    (int (length (input_order_ids (tick_input_of ts os))) < clamp_rounds (if cx_max_rounds ctx = 0 then default_max_rounds else cx_max_rounds ctx)
       \<longrightarrow> mr_converged result)"
proof -
  let ?ti = "tick_input_of ts os" and ?m = "clamp_rounds (if cx_max_rounds ctx = 0 then default_max_rounds else cx_max_rounds ctx)"
  let ?s0 = "contribution_step ctx ?ti (market_from_structure st, r)"
  let ?lg0 = "\<lparr>rl_rounds_used = 0, rl_converged = False, rl_pairs1 = 0, rl_pairs_total = 0\<rparr>"
  obtain mk1 r1 lg where run1: "run_rounds ctx ?ti [1..?m] ?s0 ?lg0 = Inr ((mk1, r1), lg)"
    using assms(2) unfolding run_pooled_market_def Let_def
    by (cases "run_rounds ctx ?ti [1..?m] ?s0 ?lg0") auto
  obtain asg tags where acc: "account ctx ?ti (set (map aw_truck_id (awards mk1))) (awards mk1) [] [] = (asg, tags)"
    by (metis surj_pair)
  have eq: "run_pooled_market ctx ts os (market_from_structure st) r =
      (if \<not> invariants_hold ?ti (awards mk1) then Inl AssertionError
       else Inr (\<lparr>mr_assignment = asg, mr_share_tags = tags, mr_rounds_used = rl_rounds_used lg,
                  mr_converged = rl_converged lg, mr_candidate_pairs_round1 = rl_pairs1 lg,
                  mr_candidate_pairs_total = rl_pairs_total lg\<rparr>, mk1, r1))"
    unfolding run_pooled_market_def Let_def run1 by (simp only: sum.case prod.case acc)
  have "mk1 = mk'" and res: "mr_assignment result = asg" "mr_converged result = rl_converged lg"
    using assms(2) unfolding eq by (auto split: if_splits)
  then have run: "run_rounds ctx ?ti [1..?m] ?s0 ?lg0 = Inr ((mk', r1), lg)" using run1 by simp
  have "plan_inv ?ti (fst ?s0)"
    by (rule plan_inv_contribution_step [THEN conjunct1, OF fresh_plan_inv [THEN conjunct1] fresh_plan_inv [THEN conjunct2]])
  note inv = run_rounds_inv [OF arb this run]
  have "free_count ?ti (fst ?s0) \<le> length (input_order_ids ?ti)" by (rule free_count_le)
  moreover have "asg = List.map_filter (award_pair ?ti) (awards mk1)"
    using account_assignment [of ctx ?ti "set (map aw_truck_id (awards mk1))" "awards mk1" "[]" "[]"] acc by simp
  ultimately show ?thesis using inv res \<open>mk1 = mk'\<close> by (auto simp: clamp_rounds_def)
qed

section \<open>Errors\<close>

lemma commit_private_error: "commit_private cost h rnd ps mk n = Inl e \<Longrightarrow> e = TypeError"
  by (induction ps arbitrary: mk n) (auto split: option.splits prod.splits)

lemma company_step_error:
  assumes "company_step ctx ti rnd ft cands h st = Inl e"
  shows "e = TypeError"
proof -
  let ?sc = "solve_company ctx (dict_list ft h) (candidate_orders ti (rs_market st) h) (pair_allowed_for ctx h)
      (dict_list cands h) (rs_rng st)"
  obtain result r where sc: "?sc = (Some result, r)"
    using assms by (cases ?sc) (auto simp: company_step_def Let_def split: if_splits option.splits)
  show ?thesis
  proof (rule ccontr)
    assume ne: "e \<noteq> TypeError"
    let ?cp = "commit_private (cx_cost ctx) h rnd (filter (\<lambda>p. own_pair ti h p \<and> \<not> contributed_pair (rs_market st) p) result)
        (rs_market st) (rs_private st)"
    have "?cp \<noteq> Inl e" using commit_private_error ne by blast
    then show False using assms sc
      by (cases ?cp) (auto simp: company_step_def Let_def split: if_splits option.splits prod.splits)
  qed
qed

lemma companies_step_error: "companies_step ctx ti rnd ft cands hs st = Inl e \<Longrightarrow> e = TypeError"
  by (induction hs arbitrary: st) (auto dest: company_step_error split: sum.splits)

lemma market_round_error:
  assumes "market_round ctx ti rnd cands s = Inl e"
  shows "e = TypeError"
proof -
  let ?c = "companies_step ctx ti rnd (free_trucks_by_haulier ti (fst s)) cands (ti_company_ids ti)
      \<lparr>rs_market = fst s, rs_rng = snd s, rs_bids = [], rs_private = 0\<rparr>"
  have "?c = Inl e"
    using assms by (cases ?c) (auto simp: market_round_def split_beta split: if_splits)
  then show ?thesis by (rule companies_step_error)
qed

lemma run_rounds_error: "run_rounds ctx ti rnds s lg = Inl e \<Longrightarrow> e = TypeError"
proof (induction rnds arbitrary: s lg)
  case (Cons rnd rnds)
  then show ?case
    by (cases "market_round ctx ti rnd (round_candidates ctx ti (fst s)) s")
      (auto simp: Let_def dest: market_round_error split: if_splits)
qed simp

lemma plan_inv_asserts:
  assumes "plan_inv (tick_input_of ts os) mk"
  shows "invariants_hold (tick_input_of ts os) (awards mk)"
proof -
  have "award_ok (tick_input_of ts os) mk a" if "a \<in> set (awards mk)" for a using assms that by (simp add: plan_inv_def)
  then have "aw_order_id a \<in> set (input_order_ids (tick_input_of ts os)) \<and>
      aw_owner_haulier_id a = owner_of (tick_input_of ts os) (aw_order_id a)" if "a \<in> set (awards mk)" for a
    using that owner_input unfolding award_ok_def by blast
  moreover have "distinct (map aw_order_id (awards mk)) \<and> distinct (map aw_truck_id (awards mk))"
    using assms by (simp add: plan_inv_def market_ok_def ledger_ok_def awards_def)
  ultimately show ?thesis by (auto simp: invariants_hold_def list_all_iff)
qed

lemma map_filter_distinct:
  assumes "distinct (map k xs)" and "\<And>x y. f x = Some y \<Longrightarrow> g y = k x"
  shows "distinct (map g (List.map_filter f xs))"
proof -
  have sub: "g y \<in> set (map k xs)" if "y \<in> set (List.map_filter f xs)" for y xs
    using assms(2) that by (fastforce simp: List.map_filter_def)
  show ?thesis using assms
  proof (induction xs)
    case (Cons x xs)
    then show ?case using sub [of _ xs] by (cases "f x") (force simp: List.map_filter_simps)+
  qed (simp add: List.map_filter_simps)
qed

lemma award_pair_keys: "award_pair (tick_input_of ts os) a = Some p \<Longrightarrow> id_text (fst p) = aw_truck_id a \<and> id_text (snd p) = aw_order_id a \<and>
    (\<exists>h. h \<noteq> [] \<and> fst p \<in> set (dict_list ts h)) \<and> (\<exists>h. h \<noteq> [] \<and> snd p \<in> set (dict_list os h))"
  using truck_index_lookup order_index_lookup by (fastforce simp: award_pair_def split: option.splits)

lemma pooled_market_error:
  assumes arb: "arbitration_contract (cx_arbitrate ctx (owner_of (tick_input_of ts os))) (owner_of (tick_input_of ts os))"
    and e: "run_pooled_market ctx ts os (market_from_structure st) r = Inl e"
  shows "e = TypeError"
proof -
  let ?ti = "tick_input_of ts os" and ?m = "clamp_rounds (if cx_max_rounds ctx = 0 then default_max_rounds else cx_max_rounds ctx)"
  let ?s0 = "contribution_step ctx ?ti (market_from_structure st, r)"
  let ?run = "run_rounds ctx ?ti [1..?m] ?s0 \<lparr>rl_rounds_used = 0, rl_converged = False, rl_pairs1 = 0, rl_pairs_total = 0\<rparr>"
  have p0: "plan_inv ?ti (fst ?s0)"
    by (rule plan_inv_contribution_step [THEN conjunct1, OF fresh_plan_inv [THEN conjunct1] fresh_plan_inv [THEN conjunct2]])
  show ?thesis
  proof (cases ?run)
    case (Inl e')
    then have "e = e'" using e by (simp add: run_pooled_market_def Let_def)
    then show ?thesis using run_rounds_error [OF Inl] by simp
  next
    case (Inr out)
    obtain mk' r' lg where out: "out = ((mk', r'), lg)" by (metis surj_pair)
    have "invariants_hold ?ti (awards mk')"
      using plan_inv_asserts run_rounds_inv [OF arb p0 Inr [unfolded out]] by simp
    then show ?thesis using e Inr out by (simp add: run_pooled_market_def Let_def split_beta)
  qed
qed

section \<open>Reserve and tags\<close>

definition reserve_costs :: "(truck_doc \<Rightarrow> order_doc \<Rightarrow> bool) \<Rightarrow> cost_fn \<Rightarrow> string set \<Rightarrow> order_doc \<Rightarrow> truck_doc list \<Rightarrow> pyfloat set" where
  "reserve_costs ok cost committed ord ts =
     {c. \<exists>t\<in>set ts. id_text t \<notin> committed \<and> ok t ord \<and> cost t ord = Some c \<and> c \<noteq> PInf \<and> c \<noteq> NaN}"

lemma reserve_costs_finite [simp]: "finite (reserve_costs ok cost committed ord ts)"
  by (rule finite_subset [of _ "the ` (\<lambda>t. cost t ord) ` set ts"]) (force simp: reserve_costs_def)+

lemma reserve_costs_Cons: "reserve_costs ok cost committed ord (t # ts) =
    (if id_text t \<in> committed \<or> \<not> ok t ord \<or> cost t ord \<in> {None, Some PInf, Some NaN} then {} else {the (cost t ord)})
      \<union> reserve_costs ok cost committed ord ts"
  by (cases "cost t ord") (auto simp: reserve_costs_def)

lemma Min_insert_min: "finite R \<Longrightarrow> Min (insert a (insert c R)) = Min (insert (min c a) (R :: 'a::linorder set))"
  by (cases "R = {}") (simp_all add: min.commute min.left_commute)

lemma reserve_scan_Min:
  "best \<noteq> Some NaN \<Longrightarrow> reserve_scan ok cost committed ord ts best =
     (let S = set_option best \<union> reserve_costs ok cost committed ord ts in if S = {} then None else Some (Min S))"
proof (induction ts arbitrary: best)
  case Nil
  then show ?case by (cases best) (simp_all add: reserve_costs_def)
next
  case (Cons t ts)
  show ?case
  proof (cases "id_text t \<in> committed \<or> \<not> ok t ord \<or> cost t ord \<in> {None, Some PInf, Some NaN}")
    case True
    then show ?thesis using Cons.IH [OF Cons.prems] by (auto simp: reserve_costs_Cons)
  next
    case False
    then obtain c where c: "cost t ord = Some c" "c \<noteq> NaN" "c \<noteq> PInf" by auto
    let ?R = "reserve_costs ok cost committed ord ts"
    show ?thesis
    proof (cases best)
      case None
      then show ?thesis using Cons.IH [of "Some c"] False c by (simp add: reserve_costs_Cons Let_def)
    next
      case (Some b)
      have m: "(if py_lt c b then c else b) = min c b" using Cons.prems Some c(2) by (auto simp: py_lt_less min_def)
      have "reserve_scan ok cost committed ord (t # ts) best = reserve_scan ok cost committed ord ts (Some (min c b))"
        using False c Some by (simp flip: m)
      also have "\<dots> = Some (Min (insert (min c b) ?R))"
        using Cons.IH [of "Some (min c b)"] Cons.prems Some c(2) by (simp add: min_def)
      also have "\<dots> = Some (Min (insert b (insert c ?R)))" by (simp only: Min_insert_min reserve_costs_finite)
      also have "insert b (insert c ?R) = set_option best \<union> reserve_costs ok cost committed ord (t # ts)"
        using False c Some by (auto simp: reserve_costs_Cons)
      finally show ?thesis using Some by (simp only: Let_def) simp
    qed
  qed
qed

section \<open>Properties\<close>

text \<open>
  C3. A tick of the pooled market is safe, whatever the offer policy, the claim policy and the solver of the companies do,
  for each of the shipped arbitration rules: the assertions I-P1 to I-P3 of the code never fire (the only
  exception that escapes is the TypeError of a cost that is no number), no carrier is awarded an order it neither owns nor
  sees through a pool, and the assignment gives each truck and each order at most once, all of them from the inputs.
\<close>

theorem pooled_market_safe:
  assumes "rng_ok g" and "cx_arbitrate ctx = (\<lambda>owner. resolve rule blake seed owner g)"
  shows "case run_pooled_market ctx trucks orders (market_from_structure st) r of
      Inl e \<Rightarrow> e = TypeError
    | Inr (result, mk', r') \<Rightarrow>
        invariants_hold (tick_input_of trucks orders) (awards mk') \<and>
        (\<forall>a\<in>set (awards mk'). Some (aw_carrier_haulier_id a) = aw_owner_haulier_id a \<or>
           pool_of_order mk' (aw_order_id a) (aw_carrier_haulier_id a) \<noteq> None) \<and>
        distinct (map (id_text \<circ> fst) (mr_assignment result)) \<and> distinct (map (id_text \<circ> snd) (mr_assignment result)) \<and>
        (\<forall>(t, ord)\<in>set (mr_assignment result).
           (\<exists>h. h \<noteq> [] \<and> t \<in> set (dict_list trucks h)) \<and> (\<exists>h. h \<noteq> [] \<and> ord \<in> set (dict_list orders h)))"
proof (cases "run_pooled_market ctx trucks orders (market_from_structure st) r")
  case (Inl e)
  then show ?thesis using pooled_market_error [OF _ Inl] resolve_contract [OF assms(1)] assms(2) by simp
next
  case (Inr res)
  obtain result mk' r' where res: "res = (result, mk', r')" by (cases res)
  let ?ti = "tick_input_of trucks orders"
  have "arbitration_contract (cx_arbitrate ctx (owner_of ?ti)) (owner_of ?ti)"
    using resolve_contract [OF assms(1)] assms(2) by simp
  note run = run_pooled_market_cases [OF this Inr [unfolded res]]
  have inv: "invariants_hold ?ti (awards mk')" using run plan_inv_asserts by blast
  have asg: "mr_assignment result = List.map_filter (award_pair ?ti) (awards mk')" using run by blast
  have "distinct (map (id_text \<circ> fst) (mr_assignment result))"
    unfolding asg by (rule map_filter_distinct [where k = aw_truck_id]) (use inv award_pair_keys in \<open>auto simp: invariants_hold_def\<close>)
  moreover have "distinct (map (id_text \<circ> snd) (mr_assignment result))"
    unfolding asg by (rule map_filter_distinct [where k = aw_order_id]) (use inv award_pair_keys in \<open>auto simp: invariants_hold_def\<close>)
  moreover have "\<forall>(t, ord)\<in>set (mr_assignment result).
      (\<exists>h. h \<noteq> [] \<and> t \<in> set (dict_list trucks h)) \<and> (\<exists>h. h \<noteq> [] \<and> ord \<in> set (dict_list orders h))"
    unfolding asg using award_pair_keys by (fastforce simp: List.map_filter_def)
  moreover have "\<forall>a\<in>set (awards mk'). Some (aw_carrier_haulier_id a) = aw_owner_haulier_id a \<or>
      pool_of_order mk' (aw_order_id a) (aw_carrier_haulier_id a) \<noteq> None"
    using run unfolding plan_inv_def award_ok_def by blast
  ultimately show ?thesis using inv by (simp add: Inr res)
qed

text \<open>One company with one truck and one order, the greedy solver and the default rule.\<close>

definition demo_ctx :: "int \<Rightarrow> unit planner_ctx" where
  "demo_ctx n =
     \<lparr>cx_solve_pairs = None,
      cx_solve = (\<lambda>ts os ok r. case solve GreedyNearest (\<lambda>s. 0) (Some 7) id_rng ts os ok (\<lambda>t ord. Some (Fin 2)) r of (out, r') \<Rightarrow> (Some out, r')),
      cx_offer = (\<lambda>h os ts ps r. (Offered (offer OfferAllPolicy [] (\<lambda>t ord. Some (Fin 2)) h os ts ps), r)),
      cx_claim = (\<lambda>h pooled own mk rnd r. (Some (bids ClaimAllPlannedPolicy [] (\<lambda>t ord. Some (Fin 2)) h pooled own mk rnd), r)),
      cx_arbitrate = (\<lambda>owner. resolve LowestCostRule (\<lambda>s. 0) 7 owner id_rng),
      cx_max_rounds = n, cx_pair_allowed_own = (\<lambda>t ord. True), cx_pair_allowed_pooled = (\<lambda>t ord. True),
      cx_cost = (\<lambda>t ord. Some (Fin 2)), cx_rng = id_rng, cx_facilities = [], cx_cell_deg = 1, cx_per_order = 40,
      cx_max_rings = 8, cx_use_spatial = False, cx_max_trucks_per_haulier = 500\<rparr>"

definition demo_award :: award where
  "demo_award = \<lparr>aw_order_id = ''o1'', aw_truck_id = ''t1'', aw_carrier_haulier_id = ''a'', aw_owner_haulier_id = Some ''a'',
     aw_cost_km = Fin 2, aw_pool_id = None, aw_round = 1\<rparr>"

abbreviation demo_tick :: tick_input where
  "demo_tick \<equiv> tick_input_of [(''a'', [demo_truck])] [(''a'', [demo_order])]"

lemma demo_ids [simp]: "id_text demo_truck = ''t1''" "id_text demo_order = ''o1''" "e_id demo_truck = Some ''t1''" "e_id demo_order = Some ''o1''"
  by (simp_all add: id_text_def demo_truck_def demo_order_def)

lemma demo_tick_eq: "demo_tick = \<lparr>ti_trucks = [(''a'', [demo_truck])], ti_orders = [(''a'', [demo_order])], ti_company_ids = [''a''],
    ti_orders_by_id = [(''o1'', demo_order)], ti_owner_by_id = [(''o1'', ''a'')], ti_trucks_by_id = [(''t1'', demo_truck)]\<rparr>"
  by (simp add: tick_input_of_def index_orders_def dict_list_def sorted_set_def)

lemma demo_ctx_sel [simp]:
  "cx_use_spatial (demo_ctx n) = False" "cx_solve_pairs (demo_ctx n) = None" "cx_max_rounds (demo_ctx n) = n"
  "cx_cost (demo_ctx n) = (\<lambda>t ord. Some (Fin 2))" "cx_max_trucks_per_haulier (demo_ctx n) = 500"
  "cx_arbitrate (demo_ctx n) = (\<lambda>owner. resolve LowestCostRule (\<lambda>s. 0) 7 owner id_rng)"
  "pair_allowed_for (demo_ctx n) h t ord = True"
  by (simp_all add: demo_ctx_def pair_allowed_for_def)

lemma demo_solve: "cx_solve (demo_ctx n) [demo_truck] [demo_order] (pair_allowed_for (demo_ctx n) h) () = (Some [(demo_truck, demo_order)], ())"
  by (simp add: demo_ctx_def solve_def greedy_solve_def feasible_pairs_def solve_pairs_def rank_rows_def score_def pair_allowed_for_def)

lemma demo_round: "market_round (demo_ctx n) demo_tick rnd cands (new_market [], ()) =
    Inr ((fst (commit (demo_award\<lparr>aw_round := rnd\<rparr>) (new_market [])), ()), True)"
  by (simp add: market_round_def demo_tick_eq demo_award_def company_step_def free_trucks_by_haulier_def dict_list_def
      new_market_def is_truck_free_def candidate_orders_def is_order_free_def visible_pooled_order_ids_def List.map_filter_simps
      solve_company_def demo_solve
      own_pair_def owner_of_def contributed_pair_def is_contributed_def private_award_def commit_def resolve_def sweep_def Let_def)

lemma demo_run:
  assumes "n = 1 \<or> n = 2"
  shows "run_pooled_market (demo_ctx n) [(''a'', [demo_truck])] [(''a'', [demo_order])] (market_from_structure PyNone) () =
    Inr (\<lparr>mr_assignment = [(demo_truck, demo_order)], mr_share_tags = [], mr_rounds_used = 1, mr_converged = (n = 2),
          mr_candidate_pairs_round1 = 0, mr_candidate_pairs_total = 0\<rparr>, fst (commit demo_award (new_market [])), ())"
proof -
  let ?mk = "fst (commit demo_award (new_market []))"
  have r: "[1..clamp_rounds n] = (if n = 1 then [1] else [1, 2])"
    using assms by (auto simp: clamp_rounds_def max_rounds_ceiling_def upto.simps)
  have mk: "market_from_structure PyNone = new_market []" by (simp add: market_from_structure_def)
  have c: "contribution_step (demo_ctx n) demo_tick (new_market [], ()) = (new_market [], ())"
    by (simp add: contribution_step_def is_empty_def new_market_def pools_by_id_def)
  have free: "list_ex (is_order_free (new_market [])) (input_order_ids demo_tick)"
    "\<not> list_ex (is_order_free ?mk) (input_order_ids demo_tick)"
    by (simp_all add: demo_tick_eq input_order_ids_def is_order_free_def new_market_def commit_def demo_award_def)
  have aw: "awards ?mk = [demo_award]" by (simp add: commit_def new_market_def awards_def demo_award_def)
  have "run_rounds (demo_ctx n) demo_tick [1..clamp_rounds n] (new_market [], ())
      \<lparr>rl_rounds_used = 0, rl_converged = False, rl_pairs1 = 0, rl_pairs_total = 0\<rparr> =
      Inr ((?mk, ()), \<lparr>rl_rounds_used = 1, rl_converged = (n = 2), rl_pairs1 = 0, rl_pairs_total = 0\<rparr>)"
    using assms free unfolding r by (auto simp: round_candidates_def demo_round demo_award_def)
  moreover have "invariants_hold demo_tick [demo_award]"
    by (simp add: invariants_hold_def demo_tick_eq input_order_ids_def owner_of_def demo_award_def)
  moreover have "account (demo_ctx n) demo_tick S [demo_award] [] [] = ([(demo_truck, demo_order)], [])" for S
    by (simp add: demo_tick_eq demo_award_def)
  ultimately show ?thesis using assms by (auto simp: run_pooled_market_def Let_def mk c aw)
qed

theorem pooled_market_safe_witness:
  "case run_pooled_market (demo_ctx 2) [(''a'', [demo_truck])] [(''a'', [demo_order])] (market_from_structure PyNone) () of
     Inl e \<Rightarrow> e = TypeError
   | Inr (result, mk', r') \<Rightarrow> mr_assignment result = [(demo_truck, demo_order)] \<and> invariants_hold demo_tick (awards mk')"
proof -
  from pooled_market_safe [OF id_rng_ok demo_ctx_sel(6) [of 2], of "[(''a'', [demo_truck])]" "[(''a'', [demo_order])]" PyNone "()"]
  show ?thesis by (simp add: demo_run)
qed

text \<open>
  C9. The auction terminates by itself: when there are fewer orders than rounds allowed, some round commits nothing (or no
  order is left) before the backstop binds, so the tick ends converged; every round before took at least one order.
\<close>

theorem pooled_market_converges:
  assumes "rng_ok g" and "cx_arbitrate ctx = (\<lambda>owner. resolve rule blake seed owner g)"
    and "int (length (input_order_ids (tick_input_of trucks orders))) <
      clamp_rounds (if cx_max_rounds ctx = 0 then default_max_rounds else cx_max_rounds ctx)"
    and "run_pooled_market ctx trucks orders (market_from_structure st) r = Inr (result, mk', r')"
  shows "mr_converged result"
  using run_pooled_market_cases [OF _ assms(4)] resolve_contract [OF assms(1)] assms(2,3) by simp

theorem pooled_market_converges_witness:
  "case run_pooled_market (demo_ctx 2) [(''a'', [demo_truck])] [(''a'', [demo_order])] (market_from_structure PyNone) () of
     Inl e \<Rightarrow> False | Inr (result, mk', r') \<Rightarrow> mr_converged result"
proof -
  have "int (length (input_order_ids demo_tick)) <
      clamp_rounds (if cx_max_rounds (demo_ctx 2) = 0 then default_max_rounds else cx_max_rounds (demo_ctx 2))"
    by (simp add: demo_tick_eq input_order_ids_def clamp_rounds_def max_rounds_ceiling_def)
  then show ?thesis using pooled_market_converges [OF id_rng_ok demo_ctx_sel(6) _ demo_run [of 2]] by (simp add: demo_run)
qed

text \<open>
  The backstop warning can be a false alarm: with one round allowed, one truck and one order, the round allocates
  the only order, nothing is left free, and yet the tick is reported as not converged.
\<close>

theorem backstop_false_alarm:
  "\<exists>result mk'. run_pooled_market (demo_ctx 1) [(''a'', [demo_truck])] [(''a'', [demo_order])] (market_from_structure PyNone) () =
       Inr (result, mk', ()) \<and>
     filter (is_order_free mk') (input_order_ids demo_tick) = [] \<and> mr_assignment result = [(demo_truck, demo_order)] \<and>
     \<not> mr_converged result"
  using demo_run [of 1]
  by (simp add: demo_tick_eq input_order_ids_def is_order_free_def commit_def new_market_def demo_award_def)

text \<open>
  The owner's reserve is the least cost, by the order of floats, among its trucks that are still uncommitted, may
  carry the order and have a cost that is a number other than plus infinity; it is absent exactly when there is none.
\<close>

theorem owner_reserve_km_spec:
  "owner_reserve_km ord ts committed ok cost =
     (let S = {c. \<exists>t\<in>set ts. id_text t \<notin> committed \<and> ok t ord \<and> cost t ord = Some c \<and> c \<noteq> PInf \<and> c \<noteq> NaN}
      in if S = {} then None else Some (Min S))"
  using reserve_scan_Min [of None ok cost committed ord ts] by (simp add: owner_reserve_km_def reserve_costs_def)

text \<open>
  The market configuration is total up to one hole: the number of rounds lands between 1 and 100 whatever
  is configured, a missing or malformed block means the three default roles, and the only exception that escapes is the
  OverflowError of an infinite number of rounds.
\<close>

theorem resolve_market_config_spec:
  "(case resolve_market_config planner of
      Inr cfg \<Rightarrow> 1 \<le> mc_max_rounds cfg \<and> mc_max_rounds cfg \<le> 100 \<and>
        (market_block planner = [] \<longrightarrow> cfg = \<lparr>mc_offer = \<lparr>role_type = ''OfferAll'', role_params = []\<rparr>,
           mc_claim = \<lparr>role_type = ''ClaimAllPlanned'', role_params = []\<rparr>,
           mc_arbitration = \<lparr>role_type = ''LowestCost'', role_params = []\<rparr>, mc_max_rounds = 20\<rparr>)
    | Inl e \<Rightarrow> e = OverflowError) \<and>
   (resolve_market_config planner = Inl OverflowError \<longleftrightarrow>
      py_get_or (market_block planner) ''max_rounds'' (PyInt 20) \<in> {PyFloat PInf, PyFloat NInf})"
proof -
  let ?v = "py_get_or (market_block planner) ''max_rounds'' (PyInt default_max_rounds)"
  have e: "py_int ?v = Inl e \<Longrightarrow> e \<in> {TypeError, ValueError, OverflowError} \<and>
      (e = OverflowError \<longleftrightarrow> ?v \<in> {PyFloat PInf, PyFloat NInf})" for e
    by (cases ?v) (auto split: pyfloat.splits option.splits)
  have i: "py_int ?v = Inr n \<Longrightarrow> ?v \<notin> {PyFloat PInf, PyFloat NInf}" for n by auto
  have d: "market_block planner = [] \<Longrightarrow> py_int ?v = Inr 20 \<and> role_of (market_block planner) n dt = \<lparr>role_type = dt, role_params = []\<rparr>" for n dt
    by (simp add: role_of_def py_get_def py_get_or_def default_max_rounds_def)
  have b: "1 \<le> clamp_rounds n" "clamp_rounds n \<le> 100" "clamp_rounds 20 = 20" for n
    by (auto simp: clamp_rounds_def max_rounds_ceiling_def)
  show ?thesis
  proof (cases "py_int ?v")
    case (Inl x)
    then show ?thesis using e [OF Inl] d b
      by (cases x) (auto simp: resolve_market_config_def Let_def default_max_rounds_def)
  next
    case (Inr n)
    then show ?thesis using i [OF Inr] d b by (auto simp: resolve_market_config_def Let_def default_max_rounds_def)
  qed
qed

theorem resolve_market_config_spec_witness:
  "(case resolve_market_config (PyDict [(''market'', PyDict [(''max_rounds'', PyInt 500)])]) of
      Inr cfg \<Rightarrow> mc_max_rounds cfg = 100 | Inl e \<Rightarrow> False) \<and>
   resolve_market_config (PyDict [(''market'', PyDict [(''max_rounds'', PyFloat PInf)])]) = Inl OverflowError"
proof
  let ?p = "PyDict [(''market'', PyDict [(''max_rounds'', PyInt 500)])]"
  show "case resolve_market_config ?p of Inr cfg \<Rightarrow> mc_max_rounds cfg = 100 | Inl e \<Rightarrow> False"
    using resolve_market_config_spec [of ?p]
    by (simp add: resolve_market_config_def market_block_def py_get_def py_get_or_def clamp_rounds_def max_rounds_ceiling_def Let_def)
  show "resolve_market_config (PyDict [(''market'', PyDict [(''max_rounds'', PyFloat PInf)])]) = Inl OverflowError"
    using resolve_market_config_spec [of "PyDict [(''market'', PyDict [(''max_rounds'', PyFloat PInf)])]"]
    by (simp add: market_block_def py_get_def py_get_or_def)
qed

end
