(* ===== verification/Pooled_Deals.thy ===== *)
theory Pooled_Deals
  imports Pooled_Market
begin

text \<open>
  Feasibility in the pooled market. When the solver and the claim policy are honest (they return pairs they were given, and bid for
  such pairs), every award joins a truck of the carrier's own fleet with an order of the inputs, and the
  pair is one the carrier is allowed to serve.
\<close>

section \<open>Honest companies\<close>

definition honest_planner :: "'r planner_ctx \<Rightarrow> bool" where
  "honest_planner ctx \<longleftrightarrow> rng_ok (cx_rng ctx) \<and>
     (\<forall>bt ords ok r. \<forall>out\<in>set_option (fst (cx_solve ctx bt ords ok r)). \<forall>(t, ord)\<in>set out. t \<in> set bt \<and> ord \<in> set ords \<and> ok t ord) \<and>
     (\<forall>sp\<in>set_option (cx_solve_pairs ctx). \<forall>ps r. \<forall>out\<in>set_option (fst (sp ps r)). set out \<subseteq> set ps) \<and>
     (\<forall>h pooled own mk rnd r. \<forall>bs\<in>set_option (fst (cx_claim ctx h pooled own mk rnd r)). \<forall>b\<in>set bs.
        bid_haulier_id b = h \<and> (\<exists>(t, ord)\<in>set pooled. bid_truck_id b = id_text t \<and> bid_order_id b = id_text ord)) \<and>
     (\<forall>w. arbitration_contract (cx_arbitrate ctx w) w)"

lemma honest_solve:
  assumes "honest_planner ctx" and "cx_solve ctx bt ords ok r = (Some out, r')" and "(t, ord) \<in> set out"
  shows "t \<in> set bt \<and> ord \<in> set ords \<and> ok t ord"
proof -
  have all: "\<forall>bt ords ok r. \<forall>out\<in>set_option (fst (cx_solve ctx bt ords ok r)). \<forall>(t, ord)\<in>set out. t \<in> set bt \<and> ord \<in> set ords \<and> ok t ord"
    using assms(1) unfolding honest_planner_def by (elim conjE)
  have "out \<in> set_option (fst (cx_solve ctx bt ords ok r))" using assms(2) by simp
  from bspec [OF all [THEN spec, THEN spec, THEN spec, THEN spec] this] show ?thesis using assms(3) by blast
qed

lemma honest_solve_pairs:
  assumes "honest_planner ctx" and "cx_solve_pairs ctx = Some sp" and "sp ps r = (Some out, r')"
  shows "set out \<subseteq> set ps"
proof -
  have all: "\<forall>sp\<in>set_option (cx_solve_pairs ctx). \<forall>ps r. \<forall>out\<in>set_option (fst (sp ps r)). set out \<subseteq> set ps"
    using assms(1) unfolding honest_planner_def by (elim conjE)
  have "sp \<in> set_option (cx_solve_pairs ctx)" "out \<in> set_option (fst (sp ps r))" using assms(2,3) by simp_all
  from bspec [OF bspec [OF all this(1), THEN spec, THEN spec] this(2)] show ?thesis .
qed

lemma honest_claim:
  assumes "honest_planner ctx" and "cx_claim ctx h pooled own mk rnd r = (Some bs, r')" and "b \<in> set bs"
  shows "bid_haulier_id b = h \<and> (\<exists>t ord. (t, ord) \<in> set pooled \<and> bid_truck_id b = id_text t \<and> bid_order_id b = id_text ord)"
proof -
  have "bs \<in> set_option (fst (cx_claim ctx h pooled own mk rnd r))" using assms(2) by simp
  then have "bid_haulier_id b = h \<and> (\<exists>(t, ord)\<in>set pooled. bid_truck_id b = id_text t \<and> bid_order_id b = id_text ord)"
    using assms(1,3) unfolding honest_planner_def by blast
  then show ?thesis by blast
qed

lemma honest_arbitration: "honest_planner ctx \<Longrightarrow> arbitration_contract (cx_arbitrate ctx w) w"
  by (simp add: honest_planner_def)

section \<open>Deals\<close>

text \<open>A pair that company \<open>h\<close> may serve with a truck of its fleet.\<close>

definition deal_pair :: "'r planner_ctx \<Rightarrow> fleet \<Rightarrow> workload \<Rightarrow> string \<Rightarrow> pair \<Rightarrow> bool" where
  "deal_pair ctx ts os h p \<longleftrightarrow> fst p \<in> set (dict_list ts h) \<and> (\<exists>w. w \<noteq> [] \<and> snd p \<in> set (dict_list os w)) \<and>
     pair_allowed_for ctx h (fst p) (snd p)"

definition deal :: "'r planner_ctx \<Rightarrow> fleet \<Rightarrow> workload \<Rightarrow> string \<Rightarrow> string \<Rightarrow> string \<Rightarrow> bool" where
  "deal ctx ts os h tid oid \<longleftrightarrow> (\<exists>p. deal_pair ctx ts os h p \<and> id_text (fst p) = tid \<and> id_text (snd p) = oid)"

definition deals :: "'r planner_ctx \<Rightarrow> fleet \<Rightarrow> workload \<Rightarrow> (string, pool) dict \<Rightarrow> pool_market \<Rightarrow> bool" where
  "deals ctx ts os P mk \<longleftrightarrow> pm_pools mk = P \<and> (\<forall>a\<in>set (awards mk). deal ctx ts os (aw_carrier_haulier_id a) (aw_truck_id a) (aw_order_id a))"

definition bid_deals :: "'r planner_ctx \<Rightarrow> fleet \<Rightarrow> workload \<Rightarrow> bid list \<Rightarrow> bool" where
  "bid_deals ctx ts os bs \<longleftrightarrow> (\<forall>b\<in>set bs. deal ctx ts os (bid_haulier_id b) (bid_truck_id b) (bid_order_id b))"

lemma deal_pairD: "deal_pair ctx ts os h p \<Longrightarrow> deal ctx ts os h (id_text (fst p)) (id_text (snd p))"
  unfolding deal_def by (rule exI [of _ p]) simp

lemma deals_commit: "deals ctx ts os P mk \<Longrightarrow> deal ctx ts os (aw_carrier_haulier_id a) (aw_truck_id a) (aw_order_id a) \<Longrightarrow>
    deals ctx ts os P (fst (commit a mk))"
  by (auto simp: deals_def commit_def awards_def market_simps)

section \<open>What a company plans over\<close>

lemma free_trucks_subset:
  "set (dict_list (free_trucks_by_haulier (tick_input_of ts os) mk) h) \<subseteq> set (dict_list ts h)"
proof -
  have "map_of (map (\<lambda>(h, ts). (h, f ts)) (filter (\<lambda>(h, ts). h \<noteq> []) d)) h = (if h = [] then None else map_option f (map_of d h))"
    for f :: "truck_doc list \<Rightarrow> truck_doc list" and d
    by (induction d) auto
  from this [of _ ts] show ?thesis
    by (cases "map_of ts h") (auto simp: dict_list_def free_trucks_by_haulier_def tick_input_of_def)
qed

lemma indexed_order: "map_of (ti_orders_by_id (tick_input_of ts os)) oid = Some ord \<Longrightarrow> \<exists>w. w \<noteq> [] \<and> ord \<in> set (dict_list os w)"
  using order_index_lookup [of ts os oid ord] by blast

lemma candidate_orders_input:
  "h \<noteq> [] \<Longrightarrow> ord \<in> set (candidate_orders (tick_input_of ts os) mk h) \<Longrightarrow> \<exists>w. w \<noteq> [] \<and> ord \<in> set (dict_list os w)"
  using indexed_order by (auto simp: candidate_orders_def List.map_filter_def tick_input_of_def)

lemma free_orders_input:
  "ord \<in> set (free_orders (tick_input_of ts os) mk) \<Longrightarrow> \<exists>w. w \<noteq> [] \<and> ord \<in> set (dict_list os w)"
  using indexed_order by (auto simp: free_orders_def List.map_filter_def)

lemma round_candidates_deals:
  assumes fleet: "\<And>h t. t \<in> set (dict_list ts h) \<Longrightarrow> haulier_of t = Some h"
    and p: "p \<in> set (dict_list (round_candidates ctx (tick_input_of ts os) mk) h)"
  shows "deal_pair ctx ts os h p"
proof -
  let ?ti = "tick_input_of ts os"
  let ?groups = "carrier_groups mk (ti_owner_by_id ?ti) (free_orders ?ti mk)"
  have h: "haulier_of (fst p) = Some h"
    and "p \<in> set (concat (map (\<lambda>carriers. group_pairs ctx (pair_allowed_for ctx) (free_trucks_by_haulier ?ti mk) carriers (dict_list ?groups carriers))
           (sort (map fst ?groups))))"
    using p by (auto simp: round_candidates_def build_round_candidates_def Let_def group_into_list split: if_splits)
  then obtain carriers where "p \<in> set (group_pairs ctx (pair_allowed_for ctx) (free_trucks_by_haulier ?ti mk) carriers (dict_list ?groups carriers))"
    by auto
  then have "(fst p, snd p) \<in> set (iter_candidate_pairs (cx_facilities ctx) (concat (map (dict_list (free_trucks_by_haulier ?ti mk)) carriers))
      (dict_list ?groups carriers) (round_allowed (pair_allowed_for ctx)) (cx_cell_deg ctx) (cx_per_order ctx) (cx_max_rings ctx))"
    by (auto simp: group_pairs_def Let_def split: if_splits)
  from iter_candidate_pairs_set [OF this]
  have t: "fst p \<in> set (concat (map (dict_list (free_trucks_by_haulier ?ti mk)) carriers))"
    and ord: "snd p \<in> set (dict_list ?groups carriers)" and ok: "round_allowed (pair_allowed_for ctx) (fst p) (snd p)" by blast+
  obtain c where "fst p \<in> set (dict_list ts c)" using t free_trucks_subset by fastforce
  then have "fst p \<in> set (dict_list ts h)" using fleet [of "fst p" c] h by simp
  moreover have "snd p \<in> set (free_orders ?ti mk)" using ord by (auto simp: carrier_groups_def group_into_list)
  ultimately show ?thesis using ok h free_orders_input by (auto simp: deal_pair_def round_allowed_def)
qed

lemma solve_company_deals:
  assumes honest: "honest_planner ctx" and sc: "solve_company ctx trucks orders (pair_allowed_for ctx h) prebuilt r = (Some out, r')"
    and "set trucks \<subseteq> set (dict_list ts h)" and "\<forall>ord\<in>set orders. \<exists>w. w \<noteq> [] \<and> ord \<in> set (dict_list os w)"
    and "\<forall>p\<in>set prebuilt. deal_pair ctx ts os h p"
  shows "\<forall>p\<in>set out. deal_pair ctx ts os h p"
proof (cases "if cx_use_spatial ctx then cx_solve_pairs ctx else None")
  case (Some sp)
  then have "out = [] \<or> sp prebuilt r = (Some out, r')" "cx_solve_pairs ctx = Some sp"
    using sc by (auto simp: solve_company_def split: if_splits)
  then show ?thesis using honest_solve_pairs [OF honest] assms(5) by fastforce
next
  case None
  have deal: "deal_pair ctx ts os h p"
    if bt: "set bt \<subseteq> set trucks" and run: "cx_solve ctx bt orders (pair_allowed_for ctx h) r1 = (Some out, r')" and p: "p \<in> set out" for bt r1 p
    using honest_solve [OF honest run, of "fst p" "snd p"] bt p assms(3,4) by (auto simp: deal_pair_def)
  let ?m = "cx_max_trucks_per_haulier ctx"
  let ?smp = "rng_sample (cx_rng ctx) r trucks (nat ?m)"
  consider "out = []" | "int (length trucks) > ?m" "0 \<le> ?m" "cx_solve ctx (fst ?smp) orders (pair_allowed_for ctx h) (snd ?smp) = (Some out, r')"
    | "cx_solve ctx trucks orders (pair_allowed_for ctx h) r = (Some out, r')"
    using sc None by (auto simp: solve_company_def split_beta split: if_splits)
  then show ?thesis
  proof cases
    case 2
    have "set (fst ?smp) \<subseteq> set trucks"
      using honest 2 by (intro rng_sample_subset) (auto simp: honest_planner_def)
    then show ?thesis using deal 2(3) by blast
  next
    case 3
    then show ?thesis using deal [of trucks r] by blast
  qed simp
qed

section \<open>Rounds\<close>

lemma commit_private_deals:
  "deals ctx ts os P mk \<Longrightarrow> \<forall>p\<in>set ps. deal_pair ctx ts os h p \<Longrightarrow> commit_private cost h rnd ps mk n = Inr (mk', n') \<Longrightarrow> deals ctx ts os P mk'"
proof (induction ps arbitrary: mk n)
  case (Cons p ps)
  obtain c where c: "cost (fst p) (snd p) = Some c" using Cons.prems(3) by (auto split: option.splits)
  let ?a = "private_award h rnd p c"
  have "deal ctx ts os (aw_carrier_haulier_id ?a) (aw_truck_id ?a) (aw_order_id ?a)"
    using Cons.prems(2) by (simp add: private_award_def deal_pairD)
  then have "deals ctx ts os P (fst (commit ?a mk))" using deals_commit [OF Cons.prems(1)] by blast
  then show ?case using Cons.IH [of "fst (commit ?a mk)"] Cons.prems c by (simp add: split_beta)
qed simp

lemma company_step_deals:
  assumes honest: "honest_planner ctx" and "h \<noteq> []" and d: "deals ctx ts os P (rs_market st)" "bid_deals ctx ts os (rs_bids st)"
    and trucks: "set (dict_list ft h) \<subseteq> set (dict_list ts h)" and cands: "\<forall>p\<in>set (dict_list cands h). deal_pair ctx ts os h p"
    and step: "company_step ctx (tick_input_of ts os) rnd ft cands h st = Inr st'"
  shows "deals ctx ts os P (rs_market st') \<and> bid_deals ctx ts os (rs_bids st')"
proof -
  let ?ti = "tick_input_of ts os"
  let ?sc = "solve_company ctx (dict_list ft h) (candidate_orders ?ti (rs_market st) h) (pair_allowed_for ctx h) (dict_list cands h) (rs_rng st)"
  let ?priv = "\<lambda>result. filter (\<lambda>p. own_pair ?ti h p \<and> \<not> contributed_pair (rs_market st) p) result"
  let ?contr = "\<lambda>result. filter (\<lambda>p. own_pair ?ti h p \<and> contributed_pair (rs_market st) p) result"
  let ?pooled = "\<lambda>result. ?contr result @ filter (\<lambda>p. \<not> own_pair ?ti h p) result"
  show ?thesis
  proof (cases "dict_list ft h = [] \<or> candidate_orders ?ti (rs_market st) h = [] \<or> fst ?sc = None")
    case True
    then have "rs_market st' = rs_market st \<and> rs_bids st' = rs_bids st"
      using step by (cases ?sc) (auto simp: company_step_def Let_def split: if_splits)
    then show ?thesis using d by simp
  next
    case False
    then obtain result r where r: "?sc = (Some result, r)" by (cases ?sc) auto
    have planned: "\<forall>p\<in>set result. deal_pair ctx ts os h p"
      by (rule solve_company_deals [OF honest r trucks _ cands]) (use candidate_orders_input [OF \<open>h \<noteq> []\<close>] in blast)
    obtain mk' n where c: "commit_private (cx_cost ctx) h rnd (?priv result) (rs_market st) (rs_private st) = Inr (mk', n)"
      using step False r by (auto simp: company_step_def Let_def split: sum.splits)
    have priv: "deals ctx ts os P mk'" by (rule commit_private_deals [OF d(1) _ c]) (use planned in simp)
    let ?clm = "cx_claim ctx h (?pooled result) (?priv result @ ?contr result) mk' rnd r"
    have "rs_market st' = mk'" and bids: "rs_bids st' = rs_bids st \<or> (\<exists>bs. fst ?clm = Some bs \<and> rs_bids st' = rs_bids st @ bs)"
      using step False r c by (auto simp: company_step_def Let_def split: if_splits prod.splits option.splits)
    moreover have "bid_deals ctx ts os bs" if bs: "fst ?clm = Some bs" for bs
      unfolding bid_deals_def
    proof
      fix b assume "b \<in> set bs"
      have "?clm = (Some bs, snd ?clm)" using bs by (simp add: prod_eq_iff)
      from honest_claim [OF honest this \<open>b \<in> set bs\<close>] obtain t ord
        where "bid_haulier_id b = h" "(t, ord) \<in> set result" "bid_truck_id b = id_text t" "bid_order_id b = id_text ord" by auto
      then show "deal ctx ts os (bid_haulier_id b) (bid_truck_id b) (bid_order_id b)"
        using deal_pairD [of ctx ts os h "(t, ord)"] planned by simp
    qed
    ultimately show ?thesis using priv d(2) by (auto simp: bid_deals_def)
  qed
qed

lemma companies_step_deals:
  assumes honest: "honest_planner ctx" and trucks: "\<And>h. set (dict_list ft h) \<subseteq> set (dict_list ts h)"
    and cands: "\<And>h. \<forall>p\<in>set (dict_list cands h). deal_pair ctx ts os h p"
  shows "[] \<notin> set hs \<Longrightarrow> deals ctx ts os P (rs_market st) \<Longrightarrow> bid_deals ctx ts os (rs_bids st) \<Longrightarrow>
    companies_step ctx (tick_input_of ts os) rnd ft cands hs st = Inr st' \<Longrightarrow>
    deals ctx ts os P (rs_market st') \<and> bid_deals ctx ts os (rs_bids st')"
proof (induction hs arbitrary: st)
  case (Cons h hs)
  then obtain st1 where st1: "company_step ctx (tick_input_of ts os) rnd ft cands h st = Inr st1"
      "companies_step ctx (tick_input_of ts os) rnd ft cands hs st1 = Inr st'"
    by (auto split: sum.splits)
  have "h \<noteq> []" using Cons.prems(1) by auto
  from company_step_deals [OF honest this Cons.prems(2,3) trucks cands st1(1)] show ?case
    using Cons.IH [OF _ _ _ st1(2)] Cons.prems(1) by simp
qed simp

lemma commit_awards_deals:
  "deals ctx ts os P mk \<Longrightarrow> \<forall>a\<in>set as. deal ctx ts os (aw_carrier_haulier_id a) (aw_truck_id a) (aw_order_id a) \<Longrightarrow>
   deals ctx ts os P (fst (commit_awards as mk any))"
  by (induction as arbitrary: mk any) (simp_all add: split_beta deals_commit)

text \<open>The fleets are grouped by the haulier of the truck.\<close>

definition own_fleets :: "fleet \<Rightarrow> bool" where
  "own_fleets ts \<longleftrightarrow> (\<forall>h. \<forall>t\<in>set (dict_list ts h). haulier_of t = Some h)"

lemma round_candidates_off: "dict_list (round_candidates ctx ti mk) h = [] \<or> cx_use_spatial ctx"
  by (simp add: round_candidates_def dict_list_def)

lemma market_round_deals:
  assumes honest: "honest_planner ctx" and fleets: "own_fleets ts" and d: "deals ctx ts os P (fst s)"
    and r: "market_round ctx (tick_input_of ts os) rnd (round_candidates ctx (tick_input_of ts os) (fst s)) s = Inr (s', any)"
  shows "deals ctx ts os P (fst s')"
proof -
  let ?ti = "tick_input_of ts os"
  let ?st0 = "\<lparr>rs_market = fst s, rs_rng = snd s, rs_bids = [], rs_private = 0\<rparr>"
  let ?cands = "round_candidates ctx ?ti (fst s)"
  obtain st where st: "companies_step ctx ?ti rnd (free_trucks_by_haulier ?ti (fst s)) ?cands (ti_company_ids ?ti) ?st0 = Inr st"
    using r by (auto simp: market_round_def split_beta split: sum.splits)
  have ids: "[] \<notin> set (ti_company_ids ?ti)" by (simp add: tick_input_of_def)
  have cands: "\<forall>p\<in>set (dict_list ?cands h). deal_pair ctx ts os h p" for h
    using round_candidates_deals [of ts _ ctx os "fst s" h] fleets by (auto simp: own_fleets_def)
  have st_deals: "deals ctx ts os P (rs_market st)" and bid_deals: "bid_deals ctx ts os (rs_bids st)"
    using companies_step_deals [OF honest free_trucks_subset cands ids _ _ st] d by (simp_all add: bid_deals_def)
  show ?thesis
  proof (cases "rs_bids st = [] \<and> rs_private st = 0")
    case True
    then show ?thesis using r st st_deals by (auto simp: market_round_def split_beta)
  next
    case False
    obtain aws r' where aws: "cx_arbitrate ctx (owner_of ?ti) (rs_market st) (rs_bids st) (rs_rng st) = (aws, r')"
      by (metis surj_pair)
    have "deal ctx ts os (aw_carrier_haulier_id a) (aw_truck_id a) (aw_order_id a)" if "a \<in> set aws" for a
    proof -
      have "bid_of a \<in> set (rs_bids st)"
        using arbitration_contract.from_bids [OF honest_arbitration [OF honest], of a "owner_of ?ti" "rs_market st" "rs_bids st" "rs_rng st"] aws that
        by simp
      then show ?thesis using bid_deals by (fastforce simp: bid_deals_def)
    qed
    then have "deals ctx ts os P (fst (commit_awards aws (rs_market st) (rs_private st \<noteq> 0)))" using commit_awards_deals [OF st_deals] by blast
    moreover have "fst s' = fst (commit_awards aws (rs_market st) (rs_private st \<noteq> 0))"
      using r st False aws by (auto simp: market_round_def split_beta)
    ultimately show ?thesis by simp
  qed
qed

lemma run_rounds_deals:
  assumes honest: "honest_planner ctx" and fleets: "own_fleets ts"
  shows "deals ctx ts os P (fst s) \<Longrightarrow> run_rounds ctx (tick_input_of ts os) rnds s lg = Inr (s', lg') \<Longrightarrow> deals ctx ts os P (fst s')"
proof (induction rnds arbitrary: s lg)
  case (Cons rnd rnds)
  let ?r = "market_round ctx (tick_input_of ts os) rnd (round_candidates ctx (tick_input_of ts os) (fst s)) s"
  have "deals ctx ts os P (fst s1)" if "?r = Inr (s1, any)" for s1 any
    by (rule market_round_deals [OF honest fleets Cons.prems(1) that])
  then show ?case using Cons.prems Cons.IH by (cases ?r) (auto simp: Let_def split: if_splits)
qed simp

section \<open>A whole run\<close>

lemma contribution_step_pools: "pm_pools (fst (contribution_step ctx ti s)) = pm_pools (fst s)"
proof -
  have place: "pm_pools (place_offer ti h d mk) = pm_pools mk" for h d mk
  proof -
    have "pm_pools (fold (\<lambda>oid mk. if owner_of ti oid \<noteq> Some h then mk else fst (contribute oid h (dict_list d oid) mk)) oids mk) = pm_pools mk" for oids
      by (induction oids arbitrary: mk) (auto simp: contribute_frame)
    then show ?thesis by (simp add: place_offer_def)
  qed
  have "pm_pools (fst (contribute_company ctx ti h s)) = pm_pools (fst s)" for h s
    by (auto simp: contribute_company_def split_beta Let_def place split: prod.split offer_outcome.split)
  then have "pm_pools (fst (fold (contribute_company ctx ti) hs s)) = pm_pools (fst s)" for hs
    by (induction hs arbitrary: s) auto
  then show ?thesis by (simp add: contribution_step_def)
qed

lemma run_pooled_market_deals:
  assumes honest: "honest_planner ctx" and fleets: "own_fleets ts"
    and run: "run_pooled_market ctx ts os (market_from_structure st) r = Inr (result, mk', r')"
  shows "deals ctx ts os (pm_pools (market_from_structure st)) mk'"
proof -
  let ?ti = "tick_input_of ts os" and ?m = "clamp_rounds (if cx_max_rounds ctx = 0 then default_max_rounds else cx_max_rounds ctx)"
  let ?s0 = "contribution_step ctx ?ti (market_from_structure st, r)"
  let ?lg0 = "\<lparr>rl_rounds_used = 0, rl_converged = False, rl_pairs1 = 0, rl_pairs_total = 0\<rparr>"
  obtain mk1 r1 lg where run1: "run_rounds ctx ?ti [1..?m] ?s0 ?lg0 = Inr ((mk1, r1), lg)"
    using run unfolding run_pooled_market_def Let_def by (cases "run_rounds ctx ?ti [1..?m] ?s0 ?lg0") auto
  then have "mk1 = mk'" using run unfolding run_pooled_market_def Let_def by (auto split: prod.splits if_splits)
  moreover have "awards (fst ?s0) = []"
    by (rule plan_inv_contribution_step [THEN conjunct2, OF fresh_plan_inv [THEN conjunct1] fresh_plan_inv [THEN conjunct2]])
  then have "deals ctx ts os (pm_pools (market_from_structure st)) (fst ?s0)"
    using contribution_step_pools [of ctx ?ti "(market_from_structure st, r)"] by (simp add: deals_def)
  ultimately show ?thesis using run_rounds_deals [OF honest fleets _ run1] by simp
qed

text \<open>Both hauliers of an award across companies sit in one pool.\<close>

lemma award_pooled:
  assumes inv: "plan_inv ti mk" and "a \<in> set (awards mk)" and "owner_of ti (aw_order_id a) = Some w" and "aw_carrier_haulier_id a \<noteq> w"
  shows "\<exists>pid. member_of mk (aw_carrier_haulier_id a) pid \<and> member_of mk w pid"
proof -
  let ?oid = "aw_order_id a"
  have ok: "contributions_ok mk" and own: "\<forall>oid w. map_of (pm_contribution_owner mk) oid = Some w \<longrightarrow> owner_of ti oid = Some w"
    using inv by (simp_all add: plan_inv_def market_ok_def)
  have "award_ok ti mk a" using inv assms(2) by (simp add: plan_inv_def)
  then obtain pid where "pool_of_order mk ?oid (aw_carrier_haulier_id a) = Some pid" using assms(3,4) by (auto simp: award_ok_def)
  then have pid: "pid \<in> set (dict_list (pm_contributions mk) ?oid)" "member_of mk (aw_carrier_haulier_id a) pid"
    unfolding pool_of_order_spec by blast+
  then obtain ps where ps: "map_of (pm_contributions mk) ?oid = Some ps" by (rule_tac dict_listE)
  then obtain x where x: "map_of (pm_contribution_owner mk) ?oid = Some x" "\<forall>pid\<in>set ps. member_of mk x pid"
    using ok unfolding contributions_ok_def by blast
  have "x = w" using own x(1) assms(3) by simp
  then show ?thesis using x(2) ps pid by (auto simp: dict_list_def)
qed

lemma id_text_inj: "distinct (map id_text xs) \<Longrightarrow> x \<in> set xs \<Longrightarrow> y \<in> set xs \<Longrightarrow> id_text x = id_text y \<Longrightarrow> x = y"
  by (auto simp: distinct_map dest: inj_onD)

lemma pooled_assignment_deals:
  assumes honest: "honest_planner ctx" and ts: "ts = group_into haulier_of candidates []" and os: "os = group_into haulier_of orders []"
    and ids: "distinct (map id_text candidates)" "distinct (map id_text orders)"
    and run: "run_pooled_market ctx ts os (market_from_structure st) r = Inr (result, mk', r')"
    and p: "(t, ord) \<in> set (mr_assignment result)"
  shows "\<exists>c w. haulier_of t = Some c \<and> haulier_of ord = Some w \<and> t \<in> set candidates \<and> ord \<in> set orders \<and> pair_allowed_for ctx c t ord \<and>
    (c = w \<or> (\<exists>pid. member_of (market_from_structure st) c pid \<and> member_of (market_from_structure st) w pid))"
proof -
  let ?ti = "tick_input_of ts os" and ?mk0 = "market_from_structure st"
  have fleet: "t \<in> set (dict_list ts h) \<longleftrightarrow> t \<in> set candidates \<and> haulier_of t = Some h" for t h by (simp add: ts group_into_list)
  have work: "ord \<in> set (dict_list os h) \<longleftrightarrow> ord \<in> set orders \<and> haulier_of ord = Some h" for ord h by (simp add: os group_into_list)
  have "own_fleets ts" using fleet by (simp add: own_fleets_def)
  note deals = run_pooled_market_deals [OF honest this run]
  note cases = run_pooled_market_cases [OF honest_arbitration [OF honest] run]
  have inv: "plan_inv ?ti mk'" using cases by blast
  obtain a where a: "a \<in> set (awards mk')" "award_pair ?ti a = Some (t, ord)"
    using p cases by (auto simp: List.map_filter_def)
  have idx: "map_of (ti_trucks_by_id ?ti) (aw_truck_id a) = Some t" "map_of (ti_orders_by_id ?ti) (aw_order_id a) = Some ord"
    using a(2) by (auto simp: award_pair_def split: option.splits)
  obtain w where w: "owner_of ?ti (aw_order_id a) = Some w" "ord \<in> set (dict_list os w)" "id_text ord = aw_order_id a"
    using order_index_lookup [OF idx(2)] by blast
  obtain h where h: "t \<in> set (dict_list ts h)" "id_text t = aw_truck_id a" using truck_index_lookup [OF idx(1)] by blast
  let ?c = "aw_carrier_haulier_id a"
  have "deal ctx ts os ?c (aw_truck_id a) (aw_order_id a)" using deals a(1) by (simp add: deals_def)
  then obtain q where q: "deal_pair ctx ts os ?c q" "id_text (fst q) = aw_truck_id a" "id_text (snd q) = aw_order_id a"
    unfolding deal_def by blast
  have "fst q = t" using q h fleet by (intro id_text_inj [OF ids(1)]) (auto simp: deal_pair_def)
  moreover have "snd q = ord" using q w work by (intro id_text_inj [OF ids(2)]) (auto simp: deal_pair_def)
  ultimately have "haulier_of t = Some ?c" "t \<in> set candidates" "pair_allowed_for ctx ?c t ord"
    using q(1) fleet by (simp_all add: deal_pair_def)
  moreover have "haulier_of ord = Some w" "ord \<in> set orders" using w work by simp_all
  moreover have "?c = w \<or> (\<exists>pid. member_of ?mk0 ?c pid \<and> member_of ?mk0 w pid)"
  proof -
    have "member_of mk' = member_of ?mk0" using deals by (simp add: deals_def member_of_def fun_eq_iff)
    then show ?thesis using award_pooled [OF inv a(1) w(1)] by auto
  qed
  ultimately show ?thesis by blast
qed

end
