(* ===== verification/Assignment_Reads.thy ===== *)
theory Assignment_Reads
  imports Match_Constraints
begin

text \<open>
  The reads of the assignment service (\<open>assignment/manager.py\<close>): one aggregation request where the server offers it,
  otherwise page after page until an empty one. A request that fails raises. The server is a record of the answers to
  each kind of request; nothing is assumed of it except where a theorem says so. A read that never ends is \<open>None\<close>.
\<close>

section \<open>Paging\<close>

partial_function (option) paged_from ::
    "(nat \<Rightarrow> py_error + 'a list) \<Rightarrow> nat option \<Rightarrow> nat \<Rightarrow> 'a list \<Rightarrow> (py_error + 'a list) option" where
  "paged_from get max_results page items =
     (case get page of
        Inl e \<Rightarrow> Some (Inl e)
      | Inr batch \<Rightarrow>
          if batch = [] then Some (Inr items)
          else if max_results \<noteq> None \<and> the max_results \<le> length (items @ batch)
          then Some (Inr (take (the max_results) (items @ batch)))
          else paged_from get max_results (Suc page) (items @ batch))"

definition paged_where ::
    "(nat \<Rightarrow> nat \<Rightarrow> py_error + 'a list) \<Rightarrow> nat \<Rightarrow> nat option \<Rightarrow> (py_error + 'a list) option" where
  "paged_where get page_size max_results =
     paged_from (get (case max_results of Some m \<Rightarrow> if m \<noteq> 0 then m else page_size | None \<Rightarrow> page_size)) max_results 1 []"

text \<open>One aggregation request; after a failure it is never tried again.\<close>

definition try_aggregate_items :: "bool option \<Rightarrow> py_error + 'a list \<Rightarrow> 'a list option \<times> bool option" where
  "try_aggregate_items enabled response =
     (if enabled = Some False then (None, enabled)
      else case response of Inl e \<Rightarrow> (None, Some False) | Inr items \<Rightarrow> (Some items, Some True))"

section \<open>The reads\<close>

type_synonym haul_row = "string option"

record rest_server =
  sv_online_batch :: "py_error + truck_doc list"
  sv_trucks :: "bool \<Rightarrow> nat \<Rightarrow> nat \<Rightarrow> py_error + truck_doc list"
  sv_unassigned_batch :: "nat \<Rightarrow> py_error + order_doc list"
  sv_unassigned :: "nat \<Rightarrow> nat \<Rightarrow> py_error + order_doc list"
  sv_active_truck_ids :: "py_error + haul_row list"
  sv_active_trips :: "nat \<Rightarrow> nat \<Rightarrow> py_error + haul_row list"
  sv_open_order_ids :: "py_error + haul_row list"
  sv_open_trips :: "nat \<Rightarrow> nat \<Rightarrow> py_error + haul_row list"

record read_cfg =
  rc_page_size :: nat
  rc_max_orders_per_tick :: nat

definition read_cfg_of :: "(string, pyval) dict \<Rightarrow> py_error + read_cfg" where
  "read_cfg_of profile =
     (case (py_int (py_get_or profile ''assignment_page_size'' (PyInt 500)),
            py_int (py_get_or profile ''max_orders_per_tick'' (PyInt 500))) of
        (Inl e, _) \<Rightarrow> Inl e
      | (_, Inl e) \<Rightarrow> Inl e
      | (Inr a, Inr b) \<Rightarrow> Inr \<lparr>rc_page_size = nat (max 1 a), rc_max_orders_per_tick = nat (max 1 b)\<rparr>)"

definition online_state_name :: string where "online_state_name = ''online''"

definition list_trucks :: "rest_server \<Rightarrow> read_cfg \<Rightarrow> bool \<Rightarrow> bool option \<Rightarrow> (py_error + truck_doc list) option \<times> bool option" where
  "list_trucks sv cfg online_only enabled =
     (case (if online_only then try_aggregate_items enabled (sv_online_batch sv) else (None, enabled)) of
        (Some batch, en) \<Rightarrow> (Some (Inr batch), en)
      | (None, en) \<Rightarrow> (paged_where (sv_trucks sv online_only) (rc_page_size cfg) None, en))"

definition list_unassigned_orders :: "rest_server \<Rightarrow> read_cfg \<Rightarrow> bool option \<Rightarrow> (py_error + order_doc list) option \<times> bool option" where
  "list_unassigned_orders sv cfg enabled =
     (case try_aggregate_items enabled (sv_unassigned_batch sv (rc_max_orders_per_tick cfg)) of
        (Some batch, en) \<Rightarrow> (Some (Inr batch), en)
      | (None, en) \<Rightarrow> (paged_where (sv_unassigned sv) (rc_page_size cfg) (Some (rc_max_orders_per_tick cfg)), en))"

text \<open>The ids named by trip rows, empty ones dropped.\<close>

definition row_ids :: "haul_row list \<Rightarrow> string list" where
  "row_ids rows = List.map_filter (\<lambda>r. if r = Some [] then None else r) rows"

text \<open>Both trip reads swallow the failure of the paged request.\<close>

definition trip_ids :: "py_error + haul_row list \<Rightarrow> (nat \<Rightarrow> nat \<Rightarrow> py_error + haul_row list) \<Rightarrow> read_cfg \<Rightarrow> bool option
    \<Rightarrow> string list option \<times> bool option" where
  "trip_ids aggregate paged cfg enabled =
     (case try_aggregate_items enabled aggregate of
        (Some rows, en) \<Rightarrow> (Some (row_ids rows), en)
      | (None, en) \<Rightarrow>
          (map_option (\<lambda>res. case res of Inl e \<Rightarrow> [] | Inr rows \<Rightarrow> row_ids rows) (paged_where paged (rc_page_size cfg) None), en))"

definition active_haul_truck_ids :: "rest_server \<Rightarrow> read_cfg \<Rightarrow> bool option \<Rightarrow> string list option \<times> bool option" where
  "active_haul_truck_ids sv = trip_ids (sv_active_truck_ids sv) (sv_active_trips sv)"

definition order_ids_with_open_haul :: "rest_server \<Rightarrow> read_cfg \<Rightarrow> bool option \<Rightarrow> string list option \<times> bool option" where
  "order_ids_with_open_haul sv = trip_ids (sv_open_order_ids sv) (sv_open_trips sv)"

section \<open>Facility ids\<close>

text \<open>
  \<open>resolve_facility_resource_id\<close>: a cached lookup; the answer of the server is the list of ids of the matching facilities,
  and only a lookup that found something is cached.
\<close>

definition resolve_facility_resource_id ::
    "(string \<Rightarrow> py_error + string option list) \<Rightarrow> string option \<Rightarrow> (string, string option) dict
     \<Rightarrow> string option \<times> (string, string option) dict" where
  "resolve_facility_resource_id lookup name cache =
     (case name of
        None \<Rightarrow> (None, cache)
      | Some key \<Rightarrow>
          if key = [] then (None, cache)
          else (case map_of cache key of
                  Some out \<Rightarrow> (out, cache)
                | None \<Rightarrow>
                    (case lookup key of
                       Inl e \<Rightarrow> (None, cache)
                     | Inr [] \<Rightarrow> (None, cache)
                     | Inr (fid # _) \<Rightarrow> (fid, AList.update key fid cache))))"

section \<open>Lemmas\<close>

text \<open>The page a server gives of a collection, when it serves \<open>k\<close> items per page.\<close>

definition page_of :: "nat \<Rightarrow> 'a list \<Rightarrow> nat \<Rightarrow> 'a list" where
  "page_of k xs page = take k (drop ((page - 1) * k) xs)"

lemma take_pages: "0 < page \<Longrightarrow> take ((page - 1) * k) xs @ page_of k xs page = take (page * k) xs"
proof (cases page)
  case (Suc n)
  then show ?thesis using take_add [of "n * k" k xs] by (simp add: page_of_def add.commute)
qed simp

lemma paged_from_complete:
  assumes "0 < k" and "\<And>p. get p = Inr (page_of k xs p)" and "0 < page"
    and "max_results \<noteq> None \<Longrightarrow> length (take ((page - 1) * k) xs) < the max_results"
  shows "paged_from get max_results page (take ((page - 1) * k) xs) =
    Some (Inr (case max_results of None \<Rightarrow> xs | Some m \<Rightarrow> take m xs))"
  using assms(3,4)
proof (induction "length xs - (page - 1) * k" arbitrary: page rule: less_induct)
  case less
  let ?items = "take ((page - 1) * k) xs" and ?batch = "page_of k xs page"
  have split: "?items @ ?batch = take (page * k) xs" using take_pages less.prems(1) by blast
  have step: "paged_from get max_results page ?items =
      (if ?batch = [] then Some (Inr ?items)
       else if max_results \<noteq> None \<and> the max_results \<le> length (take (page * k) xs)
       then Some (Inr (take (the max_results) (take (page * k) xs)))
       else paged_from get max_results (Suc page) (take (page * k) xs))"
    by (subst paged_from.simps) (simp only: assms(2) split sum.case)
  show ?case
  proof (cases "?batch = []")
    case True
    then have "?items = xs" using assms(1) by (auto simp: page_of_def)
    then show ?thesis using step True less.prems(2) by (cases max_results) auto
  next
    case False
    then have more: "(page - 1) * k < length xs" by (auto simp: page_of_def)
    show ?thesis
    proof (cases "max_results \<noteq> None \<and> the max_results \<le> length (take (page * k) xs)")
      case True
      then show ?thesis using step False by (auto simp: min_def split: if_splits)
    next
      case False
      have "length xs - (Suc page - 1) * k < length xs - (page - 1) * k"
        using more assms(1) less.prems(1) by (cases page) auto
      from less.hyps [OF this] show ?thesis using step False \<open>?batch \<noteq> []\<close> by auto
    qed
  qed
qed

section \<open>Properties\<close>

text \<open>
  C36. Paging is complete and ends: against a server that serves a fixed collection in pages of any positive size, even one
  smaller than requested, a paged read returns the whole collection, and a limited one exactly its first items.
\<close>

theorem paged_where_complete:
  assumes "0 < k" and "\<forall>size page. get size page = Inr (page_of k xs page)"
    and "max_results \<noteq> Some 0"
  shows "paged_where get page_size max_results = Some (Inr (case max_results of None \<Rightarrow> xs | Some m \<Rightarrow> take m xs))"
proof -
  let ?size = "case max_results of Some m \<Rightarrow> if m \<noteq> 0 then m else page_size | None \<Rightarrow> page_size"
  have "get ?size p = Inr (page_of k xs p)" for p using assms(2) by blast
  moreover have "max_results \<noteq> None \<Longrightarrow> 0 < the max_results" using assms(3) by (cases max_results) auto
  ultimately show ?thesis using paged_from_complete [of k "get ?size" xs 1 max_results] assms(1) by (simp add: paged_where_def)
qed

theorem paged_where_complete_witness:
  "paged_where (\<lambda>size page. Inr (page_of 2 [''a'', ''b'', ''c''] page)) 500 None = Some (Inr [''a'', ''b'', ''c''])"
  using paged_where_complete [of 2 "\<lambda>size page. Inr (page_of 2 [''a'', ''b'', ''c''] page)" "[''a'', ''b'', ''c'']" None 500]
  by simp

end
