(* ===== verification/Assignment_Agent.thy ===== *)
theory Assignment_Agent
  imports Pooled_Market Assignment_Reads
begin

text \<open>
  The assignment agent (\<open>assignment/app.py\<close>): a tick reads trucks and orders, matches them per connected component of
  the cooperation structure or through the pooled market, keeps the collaboration tags and the round statistics, and
  publishes each assignment to its truck. Solver parameters are numbers; the opt-in rebate book is not part of a tick here, since no
  shipped solver reads it.
\<close>

section \<open>Configuration of a tick\<close>

definition known_topology :: "string \<Rightarrow> string" where
  "known_topology topology =
     (if topology = ''two-stage'' then ''pooled''
      else if topology \<in> {''partitioned'', ''pooled''} then topology else ''partitioned'')"

definition resolved_topology :: "(pyval \<Rightarrow> string) \<Rightarrow> (string, pyval) dict \<Rightarrow> py_error + string" where
  "resolved_topology str_of prof =
     (case py_get prof ''planner'' of
        PyDict planner \<Rightarrow>
          (let v = py_get planner ''topology'' in Inr (known_topology (if truthy v then str_of v else ''partitioned'')))
      | v \<Rightarrow> if truthy v then Inl AttributeError else Inr ''partitioned'')"

record tick_cfg =
  tc_respect_online :: bool
  tc_reject_busy :: bool
  tc_max_pickup :: pyval
  tc_max_trucks :: int
  tc_use_spatial :: bool
  tc_cell_deg :: real
  tc_per_order :: int
  tc_max_rings :: int

text \<open>A cell size that is not a finite number is rejected here; the code would fail later or put every truck in one cell.\<close>

definition cell_deg_of :: "pyval \<Rightarrow> py_error + real" where
  "cell_deg_of v = (case py_float v of Inl e \<Rightarrow> Inl e | Inr f \<Rightarrow> if is_fin f then Inr (fin_val f) else Inl ValueError)"

definition tick_cfg_of :: "(string, pyval) dict \<Rightarrow> py_error + tick_cfg" where
  "tick_cfg_of prof =
     (case py_int (py_get_or prof ''max_trucks_per_haulier'' (PyInt 500)) of
        Inl e \<Rightarrow> Inl e
      | Inr max_trucks \<Rightarrow>
     (case cell_deg_of (py_get_or prof ''spatial_cell_deg'' (PyFloat (Fin (2 / 100)))) of
        Inl e \<Rightarrow> Inl e
      | Inr cell_deg \<Rightarrow>
     (case py_int (py_get_or prof ''spatial_candidates_per_order'' (PyInt 40)) of
        Inl e \<Rightarrow> Inl e
      | Inr per_order \<Rightarrow>
     (case py_int (py_get_or prof ''spatial_max_rings'' (PyInt 8)) of
        Inl e \<Rightarrow> Inl e
      | Inr max_rings \<Rightarrow>
          Inr \<lparr>tc_respect_online = truthy (py_get_or prof ''respect_truck_online_state'' (PyBool True)),
               tc_reject_busy = truthy (py_get_or prof ''reject_if_active_haul_trip'' (PyBool True)),
               tc_max_pickup = py_get prof ''max_travel_time_pickup'',
               tc_max_trucks = max 1 max_trucks,
               tc_use_spatial = truthy (py_get_or prof ''use_spatial_matching'' (PyBool True)),
               tc_cell_deg = cell_deg, tc_per_order = max 1 per_order, tc_max_rings = max 0 max_rings\<rparr>))))"

definition tick_seed :: "(string \<Rightarrow> nat) \<Rightarrow> string \<Rightarrow> int \<Rightarrow> int" where
  "tick_seed blake run_id time_step = int (blake (run_id @ ''|'' @ int_str time_step))"

section \<open>State of the agent\<close>

text \<open>The collaboration tag of a shared assignment, as the two topologies write it.\<close>

datatype collab_tag =
    PartitionTag string string "pyfloat option"
  | PooledTag share_tag

record round_stats =
  rt_ticks :: nat
  rt_ticks_in_horizon :: nat
  rt_ticks_drain :: nat
  rt_ticks_idle :: nat
  rt_auction_ticks :: nat
  rt_rounds_sum :: int
  rt_rounds_min :: "int option"
  rt_rounds_max :: "int option"
  rt_truncated :: nat
  rt_backstop :: "int option"
  rt_warned :: bool
  rt_cand_round1 :: nat
  rt_cand_total :: nat
  rt_last_pushed_max :: "int option"

record agent_state =
  ag_share_tags :: "(string \<times> string, collab_tag) dict"
  ag_round_stats :: "round_stats option"
  ag_warned_haulier_block :: bool
  ag_aggregates_enabled :: "bool option"
  ag_patches :: nat

definition initial_agent :: agent_state where
  "initial_agent = \<lparr>ag_share_tags = [], ag_round_stats = None, ag_warned_haulier_block = False,
     ag_aggregates_enabled = None, ag_patches = 0\<rparr>"

section \<open>Round statistics\<close>

definition fresh_stats :: round_stats where
  "fresh_stats = \<lparr>rt_ticks = 0, rt_ticks_in_horizon = 0, rt_ticks_drain = 0, rt_ticks_idle = 0, rt_auction_ticks = 0,
     rt_rounds_sum = 0, rt_rounds_min = None, rt_rounds_max = None, rt_truncated = 0, rt_backstop = None, rt_warned = False,
     rt_cand_round1 = 0, rt_cand_total = 0, rt_last_pushed_max = None\<rparr>"

text \<open>Whether the statistics are due to be pushed, and the marker of the last push; \<open>ag_patches\<close> counts the pushes.\<close>

definition patch_round_stats :: "bool \<Rightarrow> agent_state \<Rightarrow> agent_state" where
  "patch_round_stats force ag =
     (case ag_round_stats ag of
        None \<Rightarrow> ag
      | Some s \<Rightarrow>
          if rt_ticks s = 0 then ag
          else if \<not> force \<and> rt_rounds_max s = rt_last_pushed_max s \<and> rt_ticks s mod 5 \<noteq> 0 then ag
          else ag\<lparr>ag_round_stats := Some (s\<lparr>rt_last_pushed_max := rt_rounds_max s\<rparr>), ag_patches := Suc (ag_patches ag)\<rparr>)"

definition min_opt :: "int option \<Rightarrow> int \<Rightarrow> int option" where
  "min_opt m r = Some (case m of None \<Rightarrow> r | Some k \<Rightarrow> min k r)"

definition max_opt :: "int option \<Rightarrow> int \<Rightarrow> int option" where
  "max_opt m r = Some (case m of None \<Rightarrow> r | Some k \<Rightarrow> max k r)"

definition count_tick :: "market_result \<Rightarrow> int option \<Rightarrow> int option \<Rightarrow> int option \<Rightarrow> round_stats \<Rightarrow> round_stats" where
  "count_tick result max_rounds horizon time_step s =
     (let r = mr_rounds_used result;
          drain = (case (horizon, time_step) of (Some h, Some t) \<Rightarrow> h \<noteq> 0 \<and> h \<le> t | _ \<Rightarrow> False)
      in s\<lparr>rt_cand_round1 := rt_cand_round1 s + mr_candidate_pairs_round1 result,
           rt_cand_total := rt_cand_total s + mr_candidate_pairs_total result,
           rt_backstop := (case max_rounds of None \<Rightarrow> rt_backstop s | Some m \<Rightarrow> Some m),
           rt_ticks := Suc (rt_ticks s),
           rt_ticks_drain := (if drain then Suc (rt_ticks_drain s) else rt_ticks_drain s),
           rt_ticks_in_horizon := (if drain then rt_ticks_in_horizon s else Suc (rt_ticks_in_horizon s)),
           rt_auction_ticks := (if 1 \<le> r then Suc (rt_auction_ticks s) else rt_auction_ticks s),
           rt_rounds_sum := (if 1 \<le> r then rt_rounds_sum s + r else rt_rounds_sum s),
           rt_rounds_min := (if 1 \<le> r then min_opt (rt_rounds_min s) r else rt_rounds_min s),
           rt_ticks_idle := (if 1 \<le> r then rt_ticks_idle s else Suc (rt_ticks_idle s)),
           rt_rounds_max := max_opt (rt_rounds_max s) r,
           rt_truncated := (if mr_converged result then rt_truncated s else Suc (rt_truncated s))\<rparr>)"

definition record_round_stats :: "market_result \<Rightarrow> int option \<Rightarrow> int option \<Rightarrow> int option \<Rightarrow> agent_state \<Rightarrow> agent_state" where
  "record_round_stats result max_rounds horizon time_step ag =
     (let s = count_tick result max_rounds horizon time_step
            (case ag_round_stats ag of None \<Rightarrow> fresh_stats | Some s \<Rightarrow> s);
          ag' = ag\<lparr>ag_round_stats := Some s\<rparr>
      in if mr_converged result then ag'
         else let ag'' = patch_round_stats True ag'
              in ag''\<lparr>ag_round_stats := map_option (\<lambda>s. s\<lparr>rt_warned := True\<rparr>) (ag_round_stats ag'')\<rparr>)"

text \<open>\<open>close\<close> pushes the statistics once more.\<close>

definition close_agent :: "agent_state \<Rightarrow> agent_state" where
  "close_agent ag = patch_round_stats True ag"

text \<open>The summary written to the run record.\<close>

record stats_summary =
  sm_ticks :: nat
  sm_ticks_in_horizon :: nat
  sm_ticks_drain :: nat
  sm_ticks_idle :: nat
  sm_auction_ticks :: nat
  sm_rounds_min :: "int option"
  sm_rounds_mean :: "real option"
  sm_rounds_max :: "int option"
  sm_truncated :: nat
  sm_backstop :: "int option"
  sm_cand_round1 :: nat
  sm_cand_total :: nat

definition round_stats_summary :: "round_stats option \<Rightarrow> stats_summary" where
  "round_stats_summary so =
     (let s = (case so of None \<Rightarrow> fresh_stats | Some s \<Rightarrow> if rt_ticks s = 0 then fresh_stats else s) in
      \<lparr>sm_ticks = rt_ticks s, sm_ticks_in_horizon = rt_ticks_in_horizon s, sm_ticks_drain = rt_ticks_drain s,
       sm_ticks_idle = rt_ticks_idle s, sm_auction_ticks = rt_auction_ticks s, sm_rounds_min = rt_rounds_min s,
       sm_rounds_mean = (if rt_auction_ticks s = 0 then None
                         else Some (round3 (of_int (rt_rounds_sum s) / of_nat (rt_auction_ticks s)))),
       sm_rounds_max = rt_rounds_max s, sm_truncated = rt_truncated s, sm_backstop = rt_backstop s,
       sm_cand_round1 = rt_cand_round1 s, sm_cand_total = rt_cand_total s\<rparr>)"

section \<open>Pooled topology\<close>

record 'r agent_env =
  en_run_id :: string
  en_solver :: solver
  en_solver_params :: "(string, real) dict"
  en_facilities :: "facility_cfg list"
  en_blake :: "string \<Rightarrow> nat"
  en_rng :: "'r rng_ops"
  en_seed_rng :: "int \<Rightarrow> 'r"
  en_horizon :: "int option"
  en_str_of :: "pyval \<Rightarrow> string"

definition env_cost :: "'r agent_env \<Rightarrow> truck_doc \<Rightarrow> order_doc \<Rightarrow> pyfloat" where
  "env_cost env t ord = assignment_cost (en_facilities env) t ord (en_solver_params env)"

definition pooled_ctx :: "'r agent_env \<Rightarrow> tick_cfg \<Rightarrow> market_cfg \<Rightarrow> int \<Rightarrow> 'r planner_ctx" where
  "pooled_ctx env cfg mc seed =
     (let cost = (\<lambda>t ord. Some (env_cost env t ord)) in
      \<lparr>cx_solve_pairs = (case en_solver env of
           GreedyNearest \<Rightarrow> Some (\<lambda>ps r. case solve_pairs (en_blake env) (Some seed) (en_rng env) cost ps r of (out, r') \<Rightarrow> (Some out, r'))
         | RandomAssignment \<Rightarrow> None),
       cx_solve = (\<lambda>ts os ok r. case solve (en_solver env) (en_blake env) (Some seed) (en_rng env) ts os ok cost r of (out, r') \<Rightarrow> (Some out, r')),
       cx_offer = (\<lambda>h os ts ps r. (Offered (offer (get_offer_policy (Some (role_type (mc_offer mc)))) (role_params (mc_offer mc)) cost h os ts ps), r)),
       cx_claim = (\<lambda>h pooled own mk rnd r. (Some (bids (get_claim_policy (Some (role_type (mc_claim mc)))) (role_params (mc_claim mc)) cost h pooled own mk rnd), r)),
       cx_arbitrate = (\<lambda>owner. resolve (get_arbitration_rule (Some (role_type (mc_arbitration mc)))) (en_blake env) seed owner (en_rng env)),
       cx_max_rounds = mc_max_rounds mc,
       cx_pair_allowed_own = pair_allowed (en_facilities env) (tc_max_pickup cfg),
       cx_pair_allowed_pooled = pair_allowed_ignoring_haulier (en_facilities env) (tc_max_pickup cfg),
       cx_cost = cost, cx_rng = en_rng env, cx_facilities = en_facilities env, cx_cell_deg = tc_cell_deg cfg,
       cx_per_order = tc_per_order cfg, cx_max_rings = tc_max_rings cfg, cx_use_spatial = tc_use_spatial cfg,
       cx_max_trucks_per_haulier = tc_max_trucks cfg\<rparr>)"

definition by_haulier :: "'a entity_scheme list \<Rightarrow> (string, 'a entity_scheme list) dict" where
  "by_haulier xs = group_into haulier_of xs []"

definition assign_pooled ::
    "'r agent_env \<Rightarrow> tick_cfg \<Rightarrow> (string, pyval) dict \<Rightarrow> int \<Rightarrow> truck_doc list \<Rightarrow> order_doc list \<Rightarrow> agent_state
     \<Rightarrow> py_error + (pair list \<times> agent_state)" where
  "assign_pooled env cfg prof time_step candidates orders ag =
     (case resolve_market_config (py_get prof ''planner'') of
        Inl e \<Rightarrow> Inl e
      | Inr mc \<Rightarrow>
          (let seed = tick_seed (en_blake env) (en_run_id env) time_step;
               market = market_from_structure (active_cooperation_structure prof)
           in case run_pooled_market (pooled_ctx env cfg mc seed) (by_haulier candidates) (by_haulier orders) market (en_seed_rng env seed) of
                Inl e \<Rightarrow> Inl e
              | Inr (result, _, _) \<Rightarrow>
                  Inr (mr_assignment result,
                       patch_round_stats False
                         (record_round_stats result (Some (mc_max_rounds mc)) (en_horizon env) (Some time_step)
                           (ag\<lparr>ag_share_tags := map (\<lambda>(k, tag). (k, PooledTag tag)) (mr_share_tags result)\<rparr>)))))"

section \<open>Partitioned topology\<close>

text \<open>
  Haulier ids in components are text. A components entry that is a number, on which the code raises, is
  outside the model.
\<close>

definition component_members :: "pyval \<Rightarrow> string list" where
  "component_members v = (case v of PyList ms \<Rightarrow> if 1 < length ms then partner_ids ms else [] | _ \<Rightarrow> [])"

definition component_of :: "pyval \<Rightarrow> (string, nat) dict" where
  "component_of st =
     (case st of
        PyDict d \<Rightarrow>
          if share_adjacency st = [] then []
          else (case py_get d ''components'' of
                  PyList cs \<Rightarrow> fold (\<lambda>(idx, v). fold (\<lambda>hid. AList.update hid idx) (component_members v)) (List.enumerate 0 cs) []
                | _ \<Rightarrow> [])
      | _ \<Rightarrow> [])"

datatype partition_key = Component nat | Haulier string

definition partition_key_of :: "(string, nat) dict \<Rightarrow> string option \<Rightarrow> partition_key option" where
  "partition_key_of parts haulier_id =
     map_option (\<lambda>hid. case map_of parts hid of Some i \<Rightarrow> Component i | None \<Rightarrow> Haulier hid) haulier_id"

definition partition_allowed ::
    "facility_cfg list \<Rightarrow> pyval \<Rightarrow> (string, string set) dict \<Rightarrow> truck_doc \<Rightarrow> order_doc \<Rightarrow> bool" where
  "partition_allowed facs max_pickup adj t ord =
     (if haulier_matches t ord then pair_allowed facs max_pickup t ord
      else if adj \<noteq> [] \<and> share_eligible t ord adj then pair_allowed_ignoring_haulier facs max_pickup t ord
      else False)"

definition serves :: "(string, string set) dict \<Rightarrow> string \<Rightarrow> string \<Rightarrow> bool" where
  "serves adj th oh \<longleftrightarrow> th = oh \<or> oh \<in> (case map_of adj th of None \<Rightarrow> {} | Some s \<Rightarrow> s)"

definition bucket_pairs :: "'r agent_env \<Rightarrow> tick_cfg \<Rightarrow> (string, string set) dict \<Rightarrow> truck_doc list \<Rightarrow> order_doc list \<Rightarrow> pair list" where
  "bucket_pairs env cfg adj bucket_trucks bucket_orders =
     concat (map (\<lambda>(oh, group).
         iter_candidate_pairs (en_facilities env)
           (filter (\<lambda>t. case haulier_of t of None \<Rightarrow> False | Some th \<Rightarrow> serves adj th oh) bucket_trucks)
           group (partition_allowed (en_facilities env) (tc_max_pickup cfg) adj)
           (tc_cell_deg cfg) (tc_per_order cfg) (tc_max_rings cfg))
       (by_haulier bucket_orders))"

definition solve_bucket ::
    "'r agent_env \<Rightarrow> tick_cfg \<Rightarrow> (string, string set) dict \<Rightarrow> truck_doc list \<Rightarrow> order_doc list \<Rightarrow> 'r \<Rightarrow> pair list \<times> 'r" where
  "solve_bucket env cfg adj bucket_trucks bucket_orders r =
     (let cost = (\<lambda>t ord. Some (env_cost env t ord)); ok = partition_allowed (en_facilities env) (tc_max_pickup cfg) adj in
      if tc_use_spatial cfg \<and> en_solver env = GreedyNearest
      then solve_pairs (en_blake env) None (en_rng env) cost (bucket_pairs env cfg adj bucket_trucks bucket_orders) r
      else if tc_max_trucks cfg < int (length bucket_trucks)
      then (case rng_sample (en_rng env) r bucket_trucks (nat (tc_max_trucks cfg)) of
              (bt, r') \<Rightarrow> solve (en_solver env) (en_blake env) None (en_rng env) bt bucket_orders ok cost r')
      else solve (en_solver env) (en_blake env) None (en_rng env) bucket_trucks bucket_orders ok cost r)"

text \<open>The owner's best own truck still free after the solve, and the signed benefit of a shared match.\<close>

definition own_costs :: "'r agent_env \<Rightarrow> tick_cfg \<Rightarrow> (string, string set) dict \<Rightarrow> truck_doc list \<Rightarrow> pair list \<Rightarrow> order_doc \<Rightarrow> string \<Rightarrow> pyfloat list" where
  "own_costs env cfg adj bucket_trucks result ord o_haulier =
     map (\<lambda>t. env_cost env t ord)
       (filter (\<lambda>t. id_text t \<notin> set (map (id_text \<circ> fst) result) \<and> haulier_of t = Some o_haulier \<and>
          partition_allowed (en_facilities env) (tc_max_pickup cfg) adj t ord) bucket_trucks)"

definition partition_tag :: "'r agent_env \<Rightarrow> tick_cfg \<Rightarrow> (string, string set) dict \<Rightarrow> truck_doc list \<Rightarrow> pair list \<Rightarrow> pair
    \<Rightarrow> ((string \<times> string) \<times> collab_tag) option" where
  "partition_tag env cfg adj bucket_trucks result p =
     (case (haulier_of (fst p), haulier_of (snd p)) of
        (Some th, Some oh) \<Rightarrow>
          if th = oh then None
          else (let finite = filter (\<lambda>c. c \<noteq> PInf) (own_costs env cfg adj bucket_trucks result (snd p) oh) in
                Some ((id_text (fst p), id_text (snd p)),
                  PartitionTag oh th (if finite = [] then None
                    else Some (round3_fl (py_sub (Min (set finite)) (env_cost env (fst p) (snd p)))))))
      | _ \<Rightarrow> None)"

definition add_tags :: "((string \<times> string) \<times> collab_tag) list \<Rightarrow> (string \<times> string, collab_tag) dict \<Rightarrow> (string \<times> string, collab_tag) dict" where
  "add_tags new tags = fold (\<lambda>(k, v). AList.update k v) new tags"

fun solve_buckets ::
    "'r agent_env \<Rightarrow> tick_cfg \<Rightarrow> (string, string set) dict \<Rightarrow> (partition_key, truck_doc list) dict
     \<Rightarrow> (partition_key, order_doc list) dict \<Rightarrow> pair list \<Rightarrow> (string \<times> string, collab_tag) dict \<Rightarrow> 'r
     \<Rightarrow> (pair list \<times> (string \<times> string, collab_tag) dict) \<times> 'r" where
  "solve_buckets env cfg adj truck_buckets [] asg tags r = ((asg, tags), r)"
| "solve_buckets env cfg adj truck_buckets ((key, bucket_orders) # rest) asg tags r =
     (let bucket_trucks = dict_list truck_buckets key in
      if bucket_trucks = [] then solve_buckets env cfg adj truck_buckets rest asg tags r
      else case solve_bucket env cfg adj bucket_trucks bucket_orders r of
        (result, r') \<Rightarrow>
          solve_buckets env cfg adj truck_buckets rest (asg @ result)
            (add_tags (List.map_filter (partition_tag env cfg adj bucket_trucks result) result) tags) r')"

definition assign_partitioned ::
    "'r agent_env \<Rightarrow> tick_cfg \<Rightarrow> (string, pyval) dict \<Rightarrow> truck_doc list \<Rightarrow> order_doc list \<Rightarrow> agent_state \<Rightarrow> 'r
     \<Rightarrow> (pair list \<times> agent_state) \<times> 'r" where
  "assign_partitioned env cfg prof candidates orders ag r =
     (let st = active_cooperation_structure prof; adj = share_adjacency st; parts = component_of st;
          key = (\<lambda>h. partition_key_of parts h)
      in case solve_buckets env cfg adj (group_into (key \<circ> haulier_of) candidates []) (group_into (key \<circ> haulier_of) orders []) [] [] r of
           ((asg, tags), r') \<Rightarrow>
             ((asg, ag\<lparr>ag_share_tags := tags,
                ag_warned_haulier_block := ag_warned_haulier_block ag \<or> (candidates \<noteq> [] \<and> orders \<noteq> [] \<and> asg = [])\<rparr>), r'))"

section \<open>A tick\<close>

text \<open>\<open>assign\<close>: \<open>None\<close> when a read never ends; otherwise the exception that escapes or the assignment.\<close>

definition assign ::
    "'r agent_env \<Rightarrow> rest_server \<Rightarrow> read_cfg \<Rightarrow> (string, pyval) dict \<Rightarrow> int \<Rightarrow> agent_state \<Rightarrow> 'r
     \<Rightarrow> (py_error + (pair list \<times> agent_state) \<times> 'r) option" where
  "assign env sv rcfg prof time_step ag0 r =
     (let ag = ag0\<lparr>ag_share_tags := []\<rparr> in
      case tick_cfg_of prof of
        Inl e \<Rightarrow> Some (Inl e)
      | Inr cfg \<Rightarrow>
     (case list_trucks sv rcfg (tc_respect_online cfg) (ag_aggregates_enabled ag) of
        (None, _) \<Rightarrow> None
      | (Some (Inl e), _) \<Rightarrow> Some (Inl e)
      | (Some (Inr trucks), en1) \<Rightarrow>
     (case list_unassigned_orders sv rcfg en1 of
        (None, _) \<Rightarrow> None
      | (Some (Inl e), _) \<Rightarrow> Some (Inl e)
      | (Some (Inr all_orders), en2) \<Rightarrow>
     (case order_ids_with_open_haul sv rcfg en2 of
        (None, _) \<Rightarrow> None
      | (Some claimed, en3) \<Rightarrow>
     (case (if tc_reject_busy cfg then active_haul_truck_ids sv rcfg en3 else (Some [], en3)) of
        (None, _) \<Rightarrow> None
      | (Some busy, en4) \<Rightarrow>
          (let orders = filter (\<lambda>ord. id_text ord \<notin> set claimed) all_orders;
               candidates = filter_assignable_trucks trucks (set busy) (tc_respect_online cfg) (tc_reject_busy cfg) online_state_name;
               ag' = ag\<lparr>ag_aggregates_enabled := en4\<rparr>
           in case resolved_topology (en_str_of env) prof of
                Inl e \<Rightarrow> Some (Inl e)
              | Inr topology \<Rightarrow>
                  if topology = ''pooled''
                  then Some (case assign_pooled env cfg prof time_step candidates orders ag' of
                         Inl e \<Rightarrow> Inl e | Inr out \<Rightarrow> Inr (out, r))
                  else Some (Inr (assign_partitioned env cfg prof candidates orders ag' r))))))))"

section \<open>Publication\<close>

record haul_payload =
  hp_topic :: string
  hp_order :: order_doc
  hp_pickup_loc :: raw_loc
  hp_dropoff_loc :: raw_loc
  hp_pickup_facility :: "string option"
  hp_dropoff_facility :: "string option"
  hp_truck_id :: string
  hp_shared :: bool
  hp_owner :: "string option"
  hp_carrier :: "string option"
  hp_benefit_km :: "pyfloat option"
  hp_pool_id :: "string option"
  hp_awarded_cost_km :: "real option"
  hp_owner_reserve_km :: "pyfloat option"
  hp_market_round :: "int option"

definition loc_or :: "raw_loc \<Rightarrow> raw_loc \<Rightarrow> raw_loc" where
  "loc_or a b = (if a = NoLoc then b else a)"

definition payload_of :: "string \<Rightarrow> string option \<times> string option \<Rightarrow> collab_tag option \<Rightarrow> string \<Rightarrow> order_doc \<Rightarrow> haul_payload" where
  "payload_of run_id facs tag tid ord =
     (let base = \<lparr>hp_topic = run_id @ ''/'' @ tid, hp_order = ord,
            hp_pickup_loc = loc_or (o_pickup_loc ord) (o_prof_pickup_loc ord),
            hp_dropoff_loc = loc_or (o_dropoff_loc ord) (o_prof_dropoff_loc ord),
            hp_pickup_facility = fst facs, hp_dropoff_facility = snd facs, hp_truck_id = tid, hp_shared = (tag \<noteq> None),
            hp_owner = None, hp_carrier = None, hp_benefit_km = None, hp_pool_id = None, hp_awarded_cost_km = None,
            hp_owner_reserve_km = None, hp_market_round = None\<rparr>
      in case tag of
           None \<Rightarrow> base
         | Some (PartitionTag own carrier benefit_km) \<Rightarrow> base\<lparr>hp_owner := Some own, hp_carrier := Some carrier, hp_benefit_km := benefit_km\<rparr>
         | Some (PooledTag t) \<Rightarrow> base\<lparr>hp_owner := st_owner_haulier_id t, hp_carrier := Some (st_carrier_haulier_id t),
             hp_benefit_km := map_option Fin (st_benefit_km t), hp_pool_id := st_pool_id t,
             hp_awarded_cost_km := st_awarded_cost_km t, hp_owner_reserve_km := st_owner_reserve_km t,
             hp_market_round := Some (st_market_round t)\<rparr>)"

fun publish ::
    "string \<Rightarrow> (string \<Rightarrow> py_error + string option list) \<Rightarrow> (string \<times> string, collab_tag) dict \<Rightarrow> pair list
     \<Rightarrow> (string, string option) dict \<Rightarrow> haul_payload list \<times> (string, string option) dict" where
  "publish run_id lookup tags [] cache = ([], cache)"
| "publish run_id lookup tags ((t, ord) # ps) cache =
     (case e_id t of
        None \<Rightarrow> publish run_id lookup tags ps cache
      | Some tid \<Rightarrow>
          if tid = [] then publish run_id lookup tags ps cache
          else (case resolve_facility_resource_id lookup (o_pickup_facility_name ord) cache of
             (pf, cache1) \<Rightarrow>
               (case resolve_facility_resource_id lookup (o_dropoff_facility_name ord) cache1 of
                  (df, cache2) \<Rightarrow>
                    (case publish run_id lookup tags ps cache2 of
                       (out, cache') \<Rightarrow>
                         (payload_of run_id (pf, df) (map_of tags (tid, id_text ord)) tid ord # out, cache')))))"

end
