(* ===== verification/Assignment_Tick.thy ===== *)
theory Assignment_Tick
  imports Assignment_Agent
begin

text \<open>
  What a tick of the assignment agent guarantees, in the partitioned topology (one planner per connected component of the
  cooperation structure) and in the pooled one, and what its statistics mean.
\<close>

section \<open>Groups\<close>

lemma group_entry:
  assumes "(k, g) \<in> set (group_into f xs [])"
  shows "g = filter (\<lambda>x. f x = Some k) xs"
proof -
  have "distinct (map fst (group_into f xs []))" by (rule group_into_distinct) simp
  then have "map_of (group_into f xs []) k = Some g" using assms by (simp del: map_of_eq_Some_iff add: map_of_is_SomeI)
  then have "dict_list (group_into f xs []) k = g" by (simp add: dict_list_def)
  then show ?thesis by (simp add: group_into_list)
qed

lemma group_keys_distinct: "distinct (map fst (group_into f xs []))"
  by (rule group_into_distinct) simp

section \<open>One bucket\<close>

lemma partition_allowedD: "partition_allowed facs cap adj t ord \<Longrightarrow>
    pair_allowed_ignoring_haulier facs cap t ord \<and> (haulier_matches t ord \<or> share_eligible t ord adj)"
  by (simp add: partition_allowed_def pair_allowed_def split: if_splits)

lemma bucket_pairs_sound:
  assumes "(t, ord) \<in> set (bucket_pairs env cfg adj ts os)"
  shows "t \<in> set ts \<and> ord \<in> set os \<and> partition_allowed (en_facilities env) (tc_max_pickup cfg) adj t ord"
proof -
  obtain oh g where g: "(oh, g) \<in> set (by_haulier os)"
    and p: "(t, ord) \<in> set (iter_candidate_pairs (en_facilities env)
           (filter (\<lambda>t. case haulier_of t of None \<Rightarrow> False | Some th \<Rightarrow> serves adj th oh) ts)
           g (partition_allowed (en_facilities env) (tc_max_pickup cfg) adj) (tc_cell_deg cfg) (tc_per_order cfg) (tc_max_rings cfg))"
    using assms by (auto simp: bucket_pairs_def)
  from iter_candidate_pairs_set [OF p] group_entry [OF g [unfolded by_haulier_def]] show ?thesis by auto
qed

lemma solve_bucket_sound:
  assumes g: "rng_ok (en_rng env)" and out: "solve_bucket env cfg adj ts os r = (out, r1)"
  shows "(\<forall>(t, ord)\<in>set out. t \<in> set ts \<and> ord \<in> set os \<and> partition_allowed (en_facilities env) (tc_max_pickup cfg) adj t ord) \<and>
    distinct (map (e_id \<circ> fst) out) \<and> (distinct (map e_id os) \<longrightarrow> distinct (map (e_id \<circ> snd) out))"
proof -
  let ?cost = "\<lambda>t ord. Some (env_cost env t ord)" and ?ok = "partition_allowed (en_facilities env) (tc_max_pickup cfg) adj"
  let ?smp = "rng_sample (en_rng env) r ts (nat (tc_max_trucks cfg))"
  note slv = solve_contract [OF g, of "en_solver env" "en_blake env" None]
  have o: "out = fst (solve_bucket env cfg adj ts os r)" by (simp add: out)
  consider (pairs) "out = fst (solve_pairs (en_blake env) None (en_rng env) ?cost (bucket_pairs env cfg adj ts os) r)"
    | (solve) bt r' where "set bt \<subseteq> set ts"
        "out = fst (solve (en_solver env) (en_blake env) None (en_rng env) bt os ?ok ?cost r')"
  proof (cases "tc_use_spatial cfg \<and> en_solver env = GreedyNearest")
    case True
    then show ?thesis using pairs by (simp add: o solve_bucket_def Let_def)
  next
    case spatial: False
    show ?thesis
    proof (cases "tc_max_trucks cfg < int (length ts)")
      case True
      then have "set (fst ?smp) \<subseteq> set ts" by (intro rng_sample_subset [OF g]) simp
      then show ?thesis using solve [of "fst ?smp" "snd ?smp"] spatial True by (auto simp: o solve_bucket_def Let_def split_beta)
    next
      case False
      then show ?thesis using solve [of ts r] spatial by (auto simp: o solve_bucket_def Let_def)
    qed
  qed
  then show ?thesis
  proof cases
    case pairs
    have "set out \<subseteq> set (bucket_pairs env cfg adj ts os)"
      unfolding pairs by (rule solve_pairs_subset) (simp add: set_rank_rows [OF g])
    then have "\<forall>(t, ord)\<in>set out. t \<in> set ts \<and> ord \<in> set os \<and> ?ok t ord" using bucket_pairs_sound by blast
    then show ?thesis unfolding pairs by (intro conjI impI solve_pairs_disjoint)
  next
    case (solve bt r')
    then show ?thesis
      using assignment_solver.sound [OF slv, of _ _ bt os ?ok ?cost r'] assignment_solver.trucks_once [OF slv, of bt os ?ok ?cost r']
        assignment_solver.orders_once [OF slv, of os bt ?ok ?cost r'] by blast
  qed
qed

section \<open>All buckets\<close>

text \<open>A match across hauliers, and the keys under which it is tagged.\<close>

definition cross_pair :: "pair \<Rightarrow> bool" where
  "cross_pair p \<longleftrightarrow> haulier_of (fst p) \<noteq> None \<and> haulier_of (snd p) \<noteq> None \<and> haulier_of (fst p) \<noteq> haulier_of (snd p)"

definition pair_ids :: "pair \<Rightarrow> string \<times> string" where
  "pair_ids p = (id_text (fst p), id_text (snd p))"

lemma partition_tag_iff: "(\<exists>v. partition_tag env cfg adj ts res p = Some (k, v)) \<longleftrightarrow> cross_pair p \<and> k = pair_ids p"
  by (auto simp: partition_tag_def cross_pair_def pair_ids_def Let_def split: option.splits)

lemma add_tags_dom: "dom (map_of (add_tags new tags)) = fst ` set new \<union> dom (map_of tags)"
  unfolding add_tags_def by (induction new arbitrary: tags) (auto simp: dom_update)

lemma bucket_tags_dom:
  "fst ` set (List.map_filter (partition_tag env cfg adj ts res) res) = pair_ids ` {p \<in> set res. cross_pair p}"
proof -
  have "k \<in> fst ` set (List.map_filter (partition_tag env cfg adj ts res) res) \<longleftrightarrow> k \<in> pair_ids ` {p \<in> set res. cross_pair p}" for k
  proof -
    have "k \<in> fst ` set (List.map_filter (partition_tag env cfg adj ts res) res) \<longleftrightarrow>
        (\<exists>p\<in>set res. \<exists>v. partition_tag env cfg adj ts res p = Some (k, v))"
      by (force simp: List.map_filter_def image_iff)
    then show ?thesis unfolding partition_tag_iff by blast
  qed
  then show ?thesis by blast
qed

lemma solve_buckets_sound:
  assumes g: "rng_ok (en_rng env)" and run: "solve_buckets env cfg adj tb obs asg tags r = ((asg', tags'), r')"
    and apart: "\<forall>k k'. k \<noteq> k' \<longrightarrow> e_id ` set (dict_list tb k) \<inter> e_id ` set (dict_list tb k') = {}"
    and obs: "distinct (map fst obs)" "distinct (concat (map (map e_id \<circ> snd) obs))"
  shows "\<exists>new. asg' = asg @ new \<and> dom (map_of tags') = dom (map_of tags) \<union> pair_ids ` {p \<in> set new. cross_pair p} \<and>
    (\<forall>(t, ord)\<in>set new. (\<exists>(k, os)\<in>set obs. t \<in> set (dict_list tb k) \<and> ord \<in> set os) \<and>
       partition_allowed (en_facilities env) (tc_max_pickup cfg) adj t ord) \<and>
    distinct (map (e_id \<circ> fst) new) \<and> distinct (map (e_id \<circ> snd) new)"
  using run obs
proof (induction obs arbitrary: asg tags r)
  case (Cons ko obs)
  obtain k os where ko: "ko = (k, os)" by (cases ko)
  have obs: "distinct (map fst obs)" "distinct (concat (map (map e_id \<circ> snd) obs))" using Cons.prems(2,3) by (simp_all add: comp_def)
  show ?case
  proof (cases "dict_list tb k = []")
    case True
    then have run: "solve_buckets env cfg adj tb obs asg tags r = ((asg', tags'), r')" using Cons.prems(1) by (simp add: ko)
    obtain new where new: "asg' = asg @ new" "dom (map_of tags') = dom (map_of tags) \<union> pair_ids ` {p \<in> set new. cross_pair p}"
        "distinct (map (e_id \<circ> fst) new)" "distinct (map (e_id \<circ> snd) new)"
      and sound: "\<forall>(t, ord)\<in>set new. (\<exists>(k, os)\<in>set obs. t \<in> set (dict_list tb k) \<and> ord \<in> set os) \<and>
        partition_allowed (en_facilities env) (tc_max_pickup cfg) adj t ord"
      using Cons.IH [OF run obs] by (elim exE conjE) (rule that)
    have "\<forall>(t, ord)\<in>set new. (\<exists>(k, os)\<in>set (ko # obs). t \<in> set (dict_list tb k) \<and> ord \<in> set os) \<and>
        partition_allowed (en_facilities env) (tc_max_pickup cfg) adj t ord" using sound by auto
    with new show ?thesis by (intro exI [of _ new]) blast
  next
    case False
    obtain res r1 where res: "solve_bucket env cfg adj (dict_list tb k) os r = (res, r1)" by (metis surj_pair)
    let ?tags = "add_tags (List.map_filter (partition_tag env cfg adj (dict_list tb k) res) res) tags"
    have rest: "solve_buckets env cfg adj tb obs (asg @ res) ?tags r1 = ((asg', tags'), r')"
      using Cons.prems(1) False res by (simp add: ko Let_def)
    obtain new where new: "asg' = (asg @ res) @ new" "dom (map_of tags') = dom (map_of ?tags) \<union> pair_ids ` {p \<in> set new. cross_pair p}"
      and sound: "\<forall>(t, ord)\<in>set new. (\<exists>(k, os)\<in>set obs. t \<in> set (dict_list tb k) \<and> ord \<in> set os) \<and>
        partition_allowed (en_facilities env) (tc_max_pickup cfg) adj t ord"
      and dis: "distinct (map (e_id \<circ> fst) new)" "distinct (map (e_id \<circ> snd) new)"
      using Cons.IH [OF rest obs] by (elim exE conjE) (rule that)
    note s = solve_bucket_sound [OF g res]
    have od: "distinct (map e_id os)" using Cons.prems(3) by (simp add: ko)
    have "(e_id \<circ> fst) ` set res \<inter> (e_id \<circ> fst) ` set new = {}"
    proof -
      have "e_id (fst p) \<noteq> e_id (fst q)" if "p \<in> set res" "q \<in> set new" for p q
      proof -
        obtain k' os' where "(k', os') \<in> set obs" "fst q \<in> set (dict_list tb k')"
          using bspec [OF sound \<open>q \<in> set new\<close>] by (cases q) auto
        moreover then have "k' \<noteq> k" using Cons.prems(2) by (auto simp: ko image_iff)
        moreover have "fst p \<in> set (dict_list tb k)" using bspec [OF s [THEN conjunct1] \<open>p \<in> set res\<close>] by (cases p) auto
        ultimately show ?thesis using apart by blast
      qed
      then show ?thesis by auto
    qed
    moreover have "(e_id \<circ> snd) ` set res \<inter> (e_id \<circ> snd) ` set new = {}"
    proof -
      let ?ids = "set (concat (map (map e_id \<circ> snd) obs))"
      have a: "e_id (snd p) \<in> set (map e_id os)" if "p \<in> set res" for p
        using bspec [OF s [THEN conjunct1] that] by (cases p) auto
      have b: "e_id (snd q) \<in> ?ids" if q: "q \<in> set new" for q
      proof -
        obtain k' os' where "(k', os') \<in> set obs" "snd q \<in> set os'" using bspec [OF sound q] by (cases q) auto
        then show ?thesis by (auto intro!: bexI [of _ "(k', os')"])
      qed
      have "set (map e_id os) \<inter> ?ids = {}" using Cons.prems(3) by (simp add: ko)
      moreover have "(e_id \<circ> snd) ` set res \<subseteq> set (map e_id os)" "(e_id \<circ> snd) ` set new \<subseteq> ?ids"
        by (intro image_subsetI, simp only: comp_apply a b)+
      ultimately show ?thesis by blast
    qed
    ultimately have "distinct (map (e_id \<circ> fst) (res @ new))" "distinct (map (e_id \<circ> snd) (res @ new))"
      using s [THEN conjunct2] od dis by (simp_all only: map_append distinct_append set_map)
    moreover have "\<forall>(t, ord)\<in>set (res @ new). (\<exists>(k, os)\<in>set (ko # obs). t \<in> set (dict_list tb k) \<and> ord \<in> set os) \<and>
        partition_allowed (en_facilities env) (tc_max_pickup cfg) adj t ord"
    proof -
      have "\<forall>(t, ord)\<in>set res. (\<exists>(k, os)\<in>set (ko # obs). t \<in> set (dict_list tb k) \<and> ord \<in> set os) \<and>
          partition_allowed (en_facilities env) (tc_max_pickup cfg) adj t ord" using s [THEN conjunct1] by (auto simp: ko)
      moreover have "\<forall>(t, ord)\<in>set new. (\<exists>(k, os)\<in>set (ko # obs). t \<in> set (dict_list tb k) \<and> ord \<in> set os) \<and>
          partition_allowed (en_facilities env) (tc_max_pickup cfg) adj t ord" using sound by auto
      ultimately show ?thesis unfolding set_append by blast
    qed
    moreover have "dom (map_of tags') = dom (map_of tags) \<union> pair_ids ` {p \<in> set (res @ new). cross_pair p}"
    proof -
      have "{p \<in> set (res @ new). cross_pair p} = {p \<in> set res. cross_pair p} \<union> {p \<in> set new. cross_pair p}" by auto
      then show ?thesis unfolding new(2) add_tags_dom bucket_tags_dom by (simp add: image_Un Un_ac)
    qed
    moreover have "asg' = asg @ (res @ new)" using new(1) by simp
    ultimately show ?thesis by (intro exI [of _ "res @ new"] conjI)
  qed
qed simp

lemma group_ids_apart:
  assumes "distinct (map e_id xs)" and "k \<noteq> k'"
  shows "e_id ` set (dict_list (group_into f xs []) k) \<inter> e_id ` set (dict_list (group_into f xs []) k') = {}"
proof -
  have inj: "inj_on e_id (set xs)" using assms(1) by (simp add: distinct_map)
  have "e_id x \<noteq> e_id y" if "x \<in> set (dict_list (group_into f xs []) k)" "y \<in> set (dict_list (group_into f xs []) k')" for x y
    using that assms(2) inj_onD [OF inj, of x y] by (auto simp: group_into_list)
  then show ?thesis by blast
qed

lemma distinct_grouped_ids:
  assumes "distinct (map e_id xs)"
  shows "distinct (concat (map (map e_id \<circ> snd) (group_into f xs [])))"
proof -
  let ?g = "group_into f xs []"
  have "inj_on e_id (set xs)" using assms by (simp add: distinct_map)
  have sub: "snd p = filter (\<lambda>x. f x = Some (fst p)) xs" if "p \<in> set ?g" for p using group_entry [of "fst p" "snd p"] that by simp
  have "distinct (concat (map (map e_id \<circ> snd) ps))" if "set ps \<subseteq> set ?g" "distinct (map fst ps)" for ps
    using that
  proof (induction ps)
    case (Cons p ps)
    have "distinct (map e_id (snd p))" using sub [of p] Cons.prems(1) assms by (simp add: distinct_map_filter)
    moreover have "e_id x \<noteq> e_id y" if "x \<in> set (snd p)" "q \<in> set ps" "y \<in> set (snd q)" for x q y
    proof -
      have "f x = Some (fst p)" "x \<in> set xs" "f y = Some (fst q)" "y \<in> set xs"
        using that sub [of p] sub [of q] Cons.prems(1) by auto
      moreover have "fst p \<noteq> fst q" using that(2) Cons.prems(2) by auto
      ultimately show ?thesis using inj_onD [OF \<open>inj_on e_id (set xs)\<close>, of x y] by auto
    qed
    then have "set (map e_id (snd p)) \<inter> set (concat (map (map e_id \<circ> snd) ps)) = {}" by auto
    ultimately show ?case using Cons.IH Cons.prems by simp
  qed simp
  then show ?thesis using group_keys_distinct by blast
qed

section \<open>A small agent\<close>

text \<open>An agent with the greedy solver, no facilities, and the generator that never shuffles.\<close>

definition demo_env :: "solver \<Rightarrow> unit agent_env" where
  "demo_env s =
     \<lparr>en_run_id = ''run'', en_solver = s, en_solver_params = [], en_facilities = [], en_blake = (\<lambda>s. 0), en_rng = id_rng,
      en_seed_rng = (\<lambda>n. ()), en_horizon = None, en_str_of = (\<lambda>v. [])\<rparr>"

definition demo_cfg :: tick_cfg where
  "demo_cfg = \<lparr>tc_respect_online = True, tc_reject_busy = True, tc_max_pickup = PyNone, tc_max_trucks = 500, tc_use_spatial = False,
     tc_cell_deg = 1, tc_per_order = 40, tc_max_rings = 8\<rparr>"

section \<open>Properties\<close>

text \<open>
  C2. The partitioned topology produces a feasible matching, with either solver: no truck and no order is used twice, within a
  bucket or across buckets; every match is between an assignable truck and an open order that fit physically and are of
  the same haulier or of partners by an edge of the cooperation structure; and exactly the matches across
  hauliers carry a collaboration tag.
\<close>

theorem partitioned_assignment_sound:
  assumes "rng_ok (en_rng env)" and "distinct (map e_id candidates)" and "distinct (map e_id orders)"
    and "assign_partitioned env cfg prof candidates orders ag r = ((asg, ag'), r')"
  shows "distinct (map (e_id \<circ> fst) asg) \<and> distinct (map (e_id \<circ> snd) asg) \<and>
    (\<forall>(t, ord)\<in>set asg. t \<in> set candidates \<and> ord \<in> set orders \<and>
       pair_allowed_ignoring_haulier (en_facilities env) (tc_max_pickup cfg) t ord \<and>
       (haulier_matches t ord \<or> share_eligible t ord (share_adjacency (active_cooperation_structure prof)))) \<and>
    dom (map_of (ag_share_tags ag')) = {(id_text t, id_text ord) | t ord. (t, ord) \<in> set asg \<and> \<not> haulier_matches t ord}"
proof -
  let ?st = "active_cooperation_structure prof"
  let ?adj = "share_adjacency ?st" and ?key = "partition_key_of (component_of ?st) \<circ> haulier_of"
  let ?key' = "partition_key_of (component_of ?st) \<circ> haulier_of"
  let ?tb = "group_into ?key candidates []" and ?obs = "group_into ?key' orders []"
  obtain tags where run: "solve_buckets env cfg ?adj ?tb ?obs [] [] r = ((asg, tags), r')" and tags: "ag_share_tags ag' = tags"
    using assms(4) by (auto simp: assign_partitioned_def Let_def comp_def split: prod.splits)
  have apart: "\<forall>k k'. k \<noteq> k' \<longrightarrow> e_id ` set (dict_list ?tb k) \<inter> e_id ` set (dict_list ?tb k') = {}"
    by (intro allI impI group_ids_apart assms(2))
  obtain new where new: "asg = [] @ new" "dom (map_of tags) = dom (map_of ([] :: (string \<times> string, collab_tag) dict)) \<union> pair_ids ` {p \<in> set new. cross_pair p}"
    and sound: "\<forall>(t, ord)\<in>set new. (\<exists>(k, os)\<in>set ?obs. t \<in> set (dict_list ?tb k) \<and> ord \<in> set os) \<and>
      partition_allowed (en_facilities env) (tc_max_pickup cfg) ?adj t ord"
    and dis: "distinct (map (e_id \<circ> fst) new)" "distinct (map (e_id \<circ> snd) new)"
    using solve_buckets_sound [OF assms(1) run apart group_keys_distinct distinct_grouped_ids [OF assms(3)]]
    by (elim exE conjE) (rule that)
  have pair: "t \<in> set candidates \<and> ord \<in> set orders \<and> partition_allowed (en_facilities env) (tc_max_pickup cfg) ?adj t ord"
    if "(t, ord) \<in> set asg" for t ord
  proof -
    have m: "(\<exists>(k, os)\<in>set ?obs. t \<in> set (dict_list ?tb k) \<and> ord \<in> set os) \<and>
        partition_allowed (en_facilities env) (tc_max_pickup cfg) ?adj t ord" using bspec [OF sound, of "(t, ord)"] that new(1) by simp
    then obtain k os where "(k, os) \<in> set ?obs" "t \<in> set (dict_list ?tb k)" "ord \<in> set os" by blast
    then have "t \<in> set candidates" "ord \<in> set orders" using group_entry [of k os ?key' orders] by (auto simp: group_into_list)
    with m show ?thesis by blast
  qed
  have cross: "cross_pair (t, ord) \<longleftrightarrow> \<not> haulier_matches t ord" if "(t, ord) \<in> set asg" for t ord
    using pair [OF that] by (auto simp: cross_pair_def haulier_matches_def partition_allowed_def share_eligible_def split: option.splits if_splits)
  have "dom (map_of tags) = {(id_text t, id_text ord) | t ord. (t, ord) \<in> set asg \<and> \<not> haulier_matches t ord}"
  proof -
    have "pair_ids ` {p \<in> set new. cross_pair p} = {(id_text t, id_text ord) | t ord. (t, ord) \<in> set asg \<and> cross_pair (t, ord)}"
      using new(1) by (force simp: pair_ids_def)
    also have "\<dots> = {(id_text t, id_text ord) | t ord. (t, ord) \<in> set asg \<and> \<not> haulier_matches t ord}"
      by (rule Collect_cong) (use cross in blast)
    finally show ?thesis using new(2) by simp
  qed
  moreover have "\<forall>(t, ord)\<in>set asg. t \<in> set candidates \<and> ord \<in> set orders \<and>
       pair_allowed_ignoring_haulier (en_facilities env) (tc_max_pickup cfg) t ord \<and>
       (haulier_matches t ord \<or> share_eligible t ord ?adj)"
    using pair partition_allowedD by blast
  ultimately show ?thesis using dis new(1) tags by simp
qed

theorem partitioned_assignment_sound_witness:
  "\<exists>asg ag' r'. assign_partitioned (demo_env GreedyNearest) demo_cfg [] [demo_truck] [demo_order] initial_agent () = ((asg, ag'), r') \<and>
     distinct (map (e_id \<circ> fst) asg) \<and> (\<forall>(t, ord)\<in>set asg. t = demo_truck \<and> ord = demo_order)"
proof -
  obtain asg ag' r' where run: "assign_partitioned (demo_env GreedyNearest) demo_cfg [] [demo_truck] [demo_order] initial_agent () = ((asg, ag'), r')"
    by (metis surj_pair)
  have "rng_ok (en_rng (demo_env GreedyNearest))" by (simp add: demo_env_def id_rng_ok)
  from partitioned_assignment_sound [OF this _ _ run] run show ?thesis by auto
qed

section \<open>Benefit of a shared match\<close>

text \<open>A truck of the owner that the solve left free and that may serve the order.\<close>

definition free_own :: "'r agent_env \<Rightarrow> tick_cfg \<Rightarrow> (string, string set) dict \<Rightarrow> truck_doc list \<Rightarrow> pair list \<Rightarrow> order_doc \<Rightarrow> string \<Rightarrow> truck_doc \<Rightarrow> bool" where
  "free_own env cfg adj ts result ord oh u \<longleftrightarrow> u \<in> set ts \<and> id_text u \<notin> set (map (id_text \<circ> fst) result) \<and> haulier_of u = Some oh \<and>
     partition_allowed (en_facilities env) (tc_max_pickup cfg) adj u ord"

lemma set_own_costs: "set (own_costs env cfg adj ts result ord oh) = {env_cost env u ord | u. free_own env cfg adj ts result ord oh u}"
  by (auto simp: own_costs_def free_own_def)

lemma env_cost_cases: "env_cost env t ord = PInf \<or> (\<exists>c. env_cost env t ord = Fin c)"
  by (auto simp: env_cost_def assignment_cost_def Let_def split: option.splits)

text \<open>
  The benefit on the tag of a shared match in the partitioned topology. It is absent exactly when the owner is left
  without a free truck of known cost; otherwise, when the chosen truck's cost is known, it is the smallest cost of such a truck less
  the chosen one, to the metre. A match of unknown cost, which the random solver may choose, gets the benefit minus infinity.
\<close>

theorem partition_benefit_spec:
  assumes "haulier_of t = Some th" and "haulier_of ord = Some oh" and "th \<noteq> oh"
  shows "\<exists>b. partition_tag env cfg adj ts result (t, ord) = Some ((id_text t, id_text ord), PartitionTag oh th b) \<and>
    (b = None \<longleftrightarrow> (\<forall>u. free_own env cfg adj ts result ord oh u \<longrightarrow> env_cost env u ord = PInf)) \<and>
    (\<forall>c. b \<noteq> None \<and> env_cost env t ord = Fin c \<longrightarrow>
       (\<exists>u m. free_own env cfg adj ts result ord oh u \<and> env_cost env u ord = Fin m \<and> b = Some (Fin (round3 (m - c))) \<and>
         (\<forall>v k. free_own env cfg adj ts result ord oh v \<and> env_cost env v ord = Fin k \<longrightarrow> m \<le> k))) \<and>
    (b \<noteq> None \<and> env_cost env t ord = PInf \<longrightarrow> b = Some NInf)"
proof -
  let ?own = "own_costs env cfg adj ts result ord oh" and ?free = "free_own env cfg adj ts result ord oh"
  let ?fin = "filter (\<lambda>c. c \<noteq> PInf) ?own"
  let ?b = "if ?fin = [] then None else Some (round3_fl (py_sub (Min (set ?fin)) (env_cost env t ord)))"
  have tag: "partition_tag env cfg adj ts result (t, ord) = Some ((id_text t, id_text ord), PartitionTag oh th ?b)"
    using assms by (simp add: partition_tag_def Let_def)
  have known: "set ?fin = {Fin m | m. \<exists>u. ?free u \<and> env_cost env u ord = Fin m}"
    using env_cost_cases [of env _ ord] by (auto simp: set_own_costs) metis+
  have none: "?b = None \<longleftrightarrow> (\<forall>u. ?free u \<longrightarrow> env_cost env u ord = PInf)"
    by (auto simp: filter_empty_conv set_own_costs)
  have least: "\<exists>u m. ?free u \<and> env_cost env u ord = Fin m \<and> Min (set ?fin) = Fin m \<and> (\<forall>v k. ?free v \<and> env_cost env v ord = Fin k \<longrightarrow> m \<le> k)"
    if ne: "?fin \<noteq> []"
  proof -
    have "Min (set ?fin) \<in> set ?fin" using ne by (metis List.finite_set Min_in set_empty)
    then obtain u m where um: "?free u" "env_cost env u ord = Fin m" "Min (set ?fin) = Fin m" unfolding known by blast
    have "m \<le> k" if v: "?free v \<and> env_cost env v ord = Fin k" for v k
    proof -
      have "Fin k \<in> set ?fin" using v unfolding known by blast
      then have "Min (set ?fin) \<le> Fin k" by (intro Min_le) auto
      then show ?thesis using um(3) by simp
    qed
    then show ?thesis using um by blast
  qed
  show ?thesis
  proof (intro exI [of _ ?b] conjI allI impI tag none)
    fix c assume c: "?b \<noteq> None \<and> env_cost env t ord = Fin c"
    then have ne: "?fin \<noteq> []" by (simp split: if_splits)
    from least [OF this] c ne show "\<exists>u m. ?free u \<and> env_cost env u ord = Fin m \<and> ?b = Some (Fin (round3 (m - c))) \<and>
         (\<forall>v k. ?free v \<and> env_cost env v ord = Fin k \<longrightarrow> m \<le> k)" by (elim exE conjE) (intro exI conjI, assumption+, simp, assumption)
  next
    assume c: "?b \<noteq> None \<and> env_cost env t ord = PInf"
    then have ne: "?fin \<noteq> []" by (simp split: if_splits)
    from least [OF this] c ne show "?b = Some NInf" by (elim exE conjE) simp
  qed
qed

text \<open>A truck without a known place takes an order that a truck of the owner could have served.\<close>

definition lost_truck :: truck_doc where "lost_truck = demo_truck\<lparr>t_current_loc := NoLoc\<rparr>"
definition owner_truck :: truck_doc where "owner_truck = demo_truck\<lparr>e_id := Some ''t2'', e_haulier_id := Some ''b''\<rparr>"
definition foreign_order :: order_doc where "foreign_order = demo_order\<lparr>e_prof_haulier_id := Some ''b''\<rparr>"

theorem partition_benefit_spec_witness:
  "partition_tag (demo_env RandomAssignment) demo_cfg [(''a'', {''b''})] [lost_truck, owner_truck] [(lost_truck, foreign_order)]
     (lost_truck, foreign_order) = Some ((''t1'', ''o1''), PartitionTag ''b'' ''a'' (Some NInf))"
proof -
  let ?env = "demo_env RandomAssignment" and ?free = "free_own (demo_env RandomAssignment) demo_cfg [(''a'', {''b''})]
      [lost_truck, owner_truck] [(lost_truck, foreign_order)] foreign_order ''b''"
  have h: "haulier_of lost_truck = Some ''a''" "haulier_of foreign_order = Some ''b''" "haulier_of owner_truck = Some ''b''"
    by (simp_all add: haulier_of_def lost_truck_def owner_truck_def foreign_order_def demo_truck_def demo_order_def)
  have ids: "id_text lost_truck = ''t1''" "id_text foreign_order = ''o1''" "id_text owner_truck = ''t2''"
    by (simp_all add: id_text_def lost_truck_def owner_truck_def foreign_order_def demo_truck_def demo_order_def)
  have lost: "env_cost ?env lost_truck foreign_order = PInf"
    by (simp add: env_cost_def assignment_cost_def demo_env_def order_pickup_loc_def truck_anchor_loc_def facility_center_by_name_def
        lost_truck_def foreign_order_def demo_truck_def demo_order_def)
  have own: "env_cost ?env owner_truck foreign_order \<noteq> PInf"
    by (simp add: env_cost_def assignment_cost_def demo_env_def order_pickup_loc_def truck_anchor_loc_def Let_def
        owner_truck_def foreign_order_def demo_truck_def demo_order_def)
  have "partition_allowed [] PyNone [(''a'', {''b''})] owner_truck foreign_order"
    by (simp add: partition_allowed_def haulier_matches_def h pair_allowed_def pair_allowed_ignoring_haulier_def size_compatible_def
        restricted_area_blocks_def within_max_reposition_seconds_def)
      (simp add: order_size_of_def owner_truck_def foreign_order_def demo_truck_def demo_order_def)
  then have free: "?free owner_truck" by (simp add: free_own_def h ids demo_env_def demo_cfg_def)
  from partition_benefit_spec [OF h(1,2), of ?env demo_cfg "[(''a'', {''b''})]" "[lost_truck, owner_truck]" "[(lost_truck, foreign_order)]"]
  show ?thesis using free own lost unfolding ids by auto
qed

section \<open>Statistics of the rounds\<close>

text \<open>What a pooled tick hands to the statistics, and the bookkeeping of a run of ticks.\<close>

type_synonym tick_record = "market_result \<times> int option \<times> int option \<times> int option"

definition book_tick :: "tick_record \<Rightarrow> agent_state \<Rightarrow> agent_state" where
  "book_tick x ag = (case x of (result, max_rounds, horizon, time_step) \<Rightarrow>
     patch_round_stats False (record_round_stats result max_rounds horizon time_step ag))"

definition rounds_of :: "tick_record \<Rightarrow> int" where "rounds_of x = mr_rounds_used (fst x)"
definition converged_tick :: "tick_record \<Rightarrow> bool" where "converged_tick x = mr_converged (fst x)"
definition drain_tick :: "tick_record \<Rightarrow> bool" where
  "drain_tick x = (case x of (_, _, Some h, Some t) \<Rightarrow> h \<noteq> 0 \<and> h \<le> t | _ \<Rightarrow> False)"

definition auction_rounds :: "tick_record list \<Rightarrow> int list" where
  "auction_rounds xs = filter (\<lambda>r. 1 \<le> r) (map rounds_of xs)"

definition stats_of :: "tick_record list \<Rightarrow> round_stats \<Rightarrow> bool" where
  "stats_of xs s \<longleftrightarrow>
     rt_ticks s = length xs \<and> rt_ticks_drain s = length (filter drain_tick xs) \<and>
     rt_ticks_in_horizon s = length (filter (\<lambda>x. \<not> drain_tick x) xs) \<and>
     rt_ticks_idle s = length xs - length (auction_rounds xs) \<and> rt_auction_ticks s = length (auction_rounds xs) \<and>
     rt_rounds_sum s = sum_list (auction_rounds xs) \<and>
     rt_rounds_min s = (if auction_rounds xs = [] then None else Some (Min (set (auction_rounds xs)))) \<and>
     rt_rounds_max s = (if xs = [] then None else Some (Max (set (map rounds_of xs)))) \<and>
     rt_truncated s = length (filter (\<lambda>x. \<not> converged_tick x) xs)"

lemma auction_rounds_le: "length (auction_rounds xs) \<le> length xs"
  unfolding auction_rounds_def by (metis length_filter_le length_map)

lemma stats_of_count:
  assumes "stats_of xs s"
  shows "stats_of (xs @ [(result, m, h, t)]) (count_tick result m h t s)"
proof -
  have le: "length (auction_rounds xs) \<le> length xs" by (rule auction_rounds_le)
  have ar: "auction_rounds (xs @ [(result, m, h, t)]) = auction_rounds xs @ (if 1 \<le> mr_rounds_used result then [mr_rounds_used result] else [])"
    by (simp add: auction_rounds_def rounds_of_def)
  have dr: "drain_tick (result, m, h, t) \<longleftrightarrow> (case (h, t) of (Some h, Some t) \<Rightarrow> h \<noteq> 0 \<and> h \<le> t | _ \<Rightarrow> False)"
    by (simp add: drain_tick_def split: option.splits)
  show ?thesis using assms le unfolding stats_of_def count_tick_def Let_def dr ar
    by (simp add: min_opt_def max_opt_def min.commute max.commute converged_tick_def rounds_of_def dr Suc_diff_le)
qed

lemma stats_of_push: "stats_of xs (s\<lparr>rt_last_pushed_max := m\<rparr>) = stats_of xs s" "stats_of xs (s\<lparr>rt_warned := w\<rparr>) = stats_of xs s"
  by (simp_all add: stats_of_def)

definition booked :: "tick_record list \<Rightarrow> agent_state \<Rightarrow> bool" where
  "booked xs ag \<longleftrightarrow> (case ag_round_stats ag of None \<Rightarrow> xs = [] | Some s \<Rightarrow> stats_of xs s) \<and>
     length (filter (\<lambda>x. \<not> converged_tick x) xs) \<le> ag_patches ag"

lemma patch_round_stats_booked: "booked xs ag \<Longrightarrow> booked xs (patch_round_stats force ag) \<and> ag_patches ag \<le> ag_patches (patch_round_stats force ag)"
  by (auto simp: booked_def patch_round_stats_def stats_of_push split: option.splits)

lemma book_tick_booked:
  assumes "booked xs ag"
  shows "booked (xs @ [x]) (book_tick x ag)"
proof -
  obtain result m h t where x: "x = (result, m, h, t)" by (cases x)
  let ?s = "count_tick result m h t (case ag_round_stats ag of None \<Rightarrow> fresh_stats | Some s \<Rightarrow> s)"
  have "stats_of xs (case ag_round_stats ag of None \<Rightarrow> fresh_stats | Some s \<Rightarrow> s)"
    using assms by (auto simp: booked_def stats_of_def fresh_stats_def auction_rounds_def split: option.splits)
  then have s: "stats_of (xs @ [x]) ?s" unfolding x by (rule stats_of_count)
  then have ticks: "rt_ticks ?s \<noteq> 0" by (simp add: stats_of_def)
  have "booked (xs @ [x]) (record_round_stats result m h t ag)"
  proof (cases "mr_converged result")
    case True
    then show ?thesis using assms s by (simp add: record_round_stats_def Let_def booked_def converged_tick_def x)
  next
    case False
    then show ?thesis using assms s ticks
      by (simp add: record_round_stats_def Let_def booked_def converged_tick_def x patch_round_stats_def stats_of_push)
  qed
  then show ?thesis using patch_round_stats_booked by (simp add: book_tick_def x)
qed

lemma fold_booked: "booked xs (fold book_tick xs initial_agent)"
proof (induction xs rule: rev_induct)
  case (snoc x xs)
  then show ?case using book_tick_booked [OF snoc] by simp
qed (simp add: booked_def initial_agent_def)

lemma round3_bounds: "of_int k \<le> x \<Longrightarrow> of_int k \<le> round3 x" "x \<le> of_int k \<Longrightarrow> round3 x \<le> of_int k"
proof -
  let ?f = "\<lfloor>x * 1000\<rfloor>"
  have cases: "round3 x = of_int ?f / 1000 \<or> (round3 x = of_int (?f + 1) / 1000 \<and> of_int ?f < x * 1000)"
    by (auto simp: round3_def Let_def)
  show "of_int k \<le> round3 x" if lo: "of_int k \<le> x"
  proof -
    have "1000 * k \<le> ?f" using lo by (simp add: le_floor_iff)
    then have "real_of_int (1000 * k) \<le> real_of_int ?f" by (simp only: of_int_le_iff)
    then show ?thesis using cases by auto
  qed
  show "round3 x \<le> of_int k" if hi: "x \<le> of_int k"
  proof (cases "round3 x = of_int ?f / 1000")
    case True
    have "real_of_int ?f \<le> x * 1000" by simp
    then show ?thesis using True hi by linarith
  next
    case False
    then have r: "round3 x = of_int (?f + 1) / 1000" "of_int ?f < x * 1000" using cases by blast+
    then have "real_of_int ?f < real_of_int (1000 * k)" using hi by simp
    then have "?f + 1 \<le> 1000 * k" by (simp only: of_int_less_iff)
    then have "real_of_int (?f + 1) \<le> real_of_int (1000 * k)" by (simp only: of_int_le_iff)
    then show ?thesis using r(1) by simp
  qed
qed

lemma mean_bounds:
  assumes "ys \<noteq> []"
  shows "of_int (Min (set ys)) \<le> real_of_int (sum_list ys) / length ys \<and> real_of_int (sum_list ys) / length ys \<le> of_int (Max (set ys))"
proof -
  have "int (length ys) * lo \<le> sum_list ys" if "\<forall>y\<in>set ys. lo \<le> y" for lo :: int using that by (induction ys) (auto simp: algebra_simps)
  moreover have "sum_list ys \<le> int (length ys) * hi" if "\<forall>y\<in>set ys. y \<le> hi" for hi :: int using that by (induction ys) (auto simp: algebra_simps)
  ultimately have "int (length ys) * Min (set ys) \<le> sum_list ys" "sum_list ys \<le> int (length ys) * Max (set ys)" by simp_all
  then have "real_of_int (int (length ys) * Min (set ys)) \<le> real_of_int (sum_list ys)"
    "real_of_int (sum_list ys) \<le> real_of_int (int (length ys) * Max (set ys))" by (simp_all only: of_int_le_iff)
  moreover have "0 < real (length ys)" using assms by simp
  ultimately show ?thesis by (simp add: field_simps)
qed

text \<open>
  C35. The incremental statistics of the auction equal what the whole history of ticks says, whatever the pushes in between:
  the number of ticks, of drain and in-horizon ticks, of ticks with an auction, the extremes and the mean of the rounds (over auction ticks,
  rounded to thousandths and between the extremes), and the ticks cut short by the backstop, each of which has been pushed.
\<close>

theorem round_stats_meaning:
  "let ag = fold book_tick xs initial_agent; sm = round_stats_summary (ag_round_stats ag); rs = auction_rounds xs in
     sm_ticks sm = length xs \<and> sm_ticks sm = sm_ticks_in_horizon sm + sm_ticks_drain sm \<and>
     sm_ticks sm = sm_ticks_idle sm + sm_auction_ticks sm \<and> sm_ticks_drain sm = length (filter drain_tick xs) \<and>
     sm_auction_ticks sm = length rs \<and>
     sm_rounds_min sm = (if rs = [] then None else Some (Min (set rs))) \<and>
     sm_rounds_max sm = (if xs = [] then None else Some (Max (set (map rounds_of xs)))) \<and>
     (case sm_rounds_mean sm of
        None \<Rightarrow> rs = []
      | Some m \<Rightarrow> m = round3 (of_int (sum_list rs) / length rs) \<and> of_int (Min (set rs)) \<le> m \<and> m \<le> of_int (Max (set rs))) \<and>
     sm_truncated sm = length (filter (\<lambda>x. \<not> converged_tick x) xs) \<and> sm_truncated sm \<le> ag_patches ag"
proof -
  let ?ag = "fold book_tick xs initial_agent"
  have b: "booked xs ?ag" by (rule fold_booked)
  let ?s = "case ag_round_stats ?ag of None \<Rightarrow> fresh_stats | Some s \<Rightarrow> if rt_ticks s = 0 then fresh_stats else s"
  have "stats_of xs ?s"
    using b by (auto simp: booked_def stats_of_def fresh_stats_def auction_rounds_def split: option.splits)
  moreover have "round_stats_summary (ag_round_stats ?ag) = round_stats_summary (Some ?s)"
    by (simp add: round_stats_summary_def fresh_stats_def split: option.splits)
  ultimately obtain s where s: "stats_of xs s" and sm: "round_stats_summary (ag_round_stats ?ag) = round_stats_summary (Some s)" by blast
  have fresh: "rt_ticks s = 0 \<Longrightarrow> stats_of xs fresh_stats"
    using s by (simp add: stats_of_def fresh_stats_def auction_rounds_def)
  define z where "z = (if rt_ticks s = 0 then fresh_stats else s)"
  have z: "stats_of xs z" using s fresh by (simp add: z_def)
  have "length xs = length (filter (\<lambda>x. \<not> drain_tick x) xs) + length (filter drain_tick xs)"
    using sum_length_filter_compl [of drain_tick xs] by simp
  moreover have "of_int (Min (set (auction_rounds xs))) \<le> round3 (of_int (sum_list (auction_rounds xs)) / length (auction_rounds xs)) \<and>
      round3 (of_int (sum_list (auction_rounds xs)) / length (auction_rounds xs)) \<le> of_int (Max (set (auction_rounds xs)))"
    if "auction_rounds xs \<noteq> []"
    using mean_bounds [OF that] round3_bounds by blast
  ultimately show ?thesis
    using z b auction_rounds_le [of xs] unfolding Let_def sm unfolding round_stats_summary_def option.case Let_def z_def [symmetric]
    by (cases "auction_rounds xs = []") (simp_all add: Let_def stats_of_def booked_def)
qed

end
