(* ===== verification/Pooled_Tick.thy ===== *)
theory Pooled_Tick
  imports Pooled_Deals Assignment_Tick
begin

text \<open>
  What a tick of the assignment agent guarantees in the pooled topology: the shipped solvers, claim policies and
  arbitration rules are honest, so the market assigns only feasible pairs, within a haulier or within a pool.
\<close>

section \<open>The context of the agent\<close>

lemma id_text_Some: "e_id x = Some i \<Longrightarrow> id_text x = i"
  by (simp add: id_text_def)

lemma pooled_ctx_honest:
  assumes g: "rng_ok (en_rng env)"
  shows "honest_planner (pooled_ctx env cfg mc seed)"
proof -
  let ?ctx = "pooled_ctx env cfg mc seed"
  let ?solve = "solve (en_solver env) (en_blake env) (Some seed) (en_rng env)"
  let ?cost = "\<lambda>t ord. Some (env_cost env t ord)"
  let ?claim = "bids (get_claim_policy (Some (role_type (mc_claim mc)))) (role_params (mc_claim mc)) ?cost"
  have s: "t \<in> set bt \<and> ord \<in> set ords \<and> ok t ord" if "(t, ord) \<in> set (fst (?solve bt ords ok ?cost r))" for bt ords ok r t ord
    using assignment_solver.sound [OF solve_contract [OF g] that] .
  have "\<forall>bt ords ok r. \<forall>out\<in>set_option (fst (cx_solve ?ctx bt ords ok r)). \<forall>(t, ord)\<in>set out. t \<in> set bt \<and> ord \<in> set ords \<and> ok t ord"
  proof (intro allI ballI)
    fix bt ords ok r out p
    assume "out \<in> set_option (fst (cx_solve ?ctx bt ords ok r))" and p: "p \<in> set out"
    then have "out = fst (?solve bt ords ok ?cost r)" by (simp add: pooled_ctx_def Let_def split_beta)
    then show "case p of (t, ord) \<Rightarrow> t \<in> set bt \<and> ord \<in> set ords \<and> ok t ord" using s p by (cases p) blast
  qed
  moreover have "\<forall>sp\<in>set_option (cx_solve_pairs ?ctx). \<forall>ps r. \<forall>out\<in>set_option (fst (sp ps r)). set out \<subseteq> set ps"
  proof (intro ballI allI)
    fix sp ps r out
    assume "sp \<in> set_option (cx_solve_pairs ?ctx)" and "out \<in> set_option (fst (sp ps r))"
    then have "out = fst (solve_pairs (en_blake env) (Some seed) (en_rng env) ?cost ps r)"
      by (auto simp: pooled_ctx_def Let_def split_beta split: solver.splits)
    then show "set out \<subseteq> set ps" using solve_pairs_subset [of "en_blake env" "Some seed" "en_rng env" r ?cost ps] set_rank_rows [OF g] by simp
  qed
  moreover have "\<forall>h pooled own mk rnd r. \<forall>bs\<in>set_option (fst (cx_claim ?ctx h pooled own mk rnd r)). \<forall>b\<in>set bs.
      bid_haulier_id b = h \<and> (\<exists>(t, ord)\<in>set pooled. bid_truck_id b = id_text t \<and> bid_order_id b = id_text ord)"
  proof (intro allI ballI)
    fix h pooled own mk rnd r bs b
    assume "bs \<in> set_option (fst (cx_claim ?ctx h pooled own mk rnd r))" and "b \<in> set bs"
    then have "b \<in> set (?claim h pooled own mk rnd)" by (simp add: pooled_ctx_def Let_def)
    from claims.bid_origin [OF this] obtain t ord where "bid_haulier_id b = h" and in_pooled: "(t, ord) \<in> set pooled"
      and ids: "e_id t = Some (bid_truck_id b)" "e_id ord = Some (bid_order_id b)" by blast
    then show "bid_haulier_id b = h \<and> (\<exists>(t, ord)\<in>set pooled. bid_truck_id b = id_text t \<and> bid_order_id b = id_text ord)"
      using ids [THEN id_text_Some] by (intro conjI bexI [OF _ in_pooled]) simp_all
  qed
  moreover have "\<forall>w. arbitration_contract (cx_arbitrate ?ctx w) w"
    using resolve_contract [OF g] by (simp add: pooled_ctx_def Let_def)
  moreover have "rng_ok (cx_rng ?ctx)" using g by (simp add: pooled_ctx_def Let_def)
  ultimately show ?thesis unfolding honest_planner_def by blast
qed

lemma pooled_ctx_allowed: "pair_allowed_for (pooled_ctx env cfg mc seed) c t ord \<Longrightarrow> haulier_of t = Some c \<Longrightarrow>
    pair_allowed_ignoring_haulier (en_facilities env) (tc_max_pickup cfg) t ord"
  by (auto simp: pair_allowed_for_def pooled_ctx_def Let_def pair_allowed_def split: if_splits)

lemma member_of_structure:
  assumes "member_of (market_from_structure st) h pid"
  shows "\<exists>p\<in>set (pools_from_structure st). pool_id p = pid \<and> h \<in> pool_members p"
proof -
  obtain p where p: "map_of (pm_pools (market_from_structure st)) pid = Some p" "h \<in> pool_members p"
    using assms by (auto simp: member_of_def split: option.splits)
  then have "List.find (\<lambda>p. pool_id p = pid) (rev (pools_from_structure st)) = Some p"
    by (simp add: market_from_structure_def new_market_def lookup_fold_update split: option.splits)
  from find_SomeD [OF this] p(2) show ?thesis by auto
qed

lemma structure_pool_unique: "p \<in> set (pools_from_structure st) \<Longrightarrow> q \<in> set (pools_from_structure st) \<Longrightarrow> pool_id p = pool_id q \<Longrightarrow> p = q"
  using pools_from_structure_strict [of st] by (auto simp: strict_sorted_iff distinct_map dest: inj_onD)

section \<open>No exception\<close>

text \<open>The cost of the agent is a number for every pair, so the one exception of the market cannot arise.\<close>

lemma commit_private_total:
  assumes "\<And>t ord. cost t ord \<noteq> None"
  shows "commit_private cost h rnd ps mk n \<noteq> Inl e"
proof (induction ps arbitrary: mk n)
  case (Cons p ps)
  obtain c where "cost (fst p) (snd p) = Some c" using assms [of "fst p" "snd p"] by auto
  then show ?case using Cons.IH by (simp add: split_beta)
qed simp

lemma company_step_total:
  assumes "\<And>t ord. cx_cost ctx t ord \<noteq> None"
  shows "company_step ctx ti rnd ft cands h st \<noteq> Inl e"
proof -
  let ?sc = "solve_company ctx (dict_list ft h) (candidate_orders ti (rs_market st) h) (pair_allowed_for ctx h)
      (dict_list cands h) (rs_rng st)"
  show ?thesis
  proof (cases "fst ?sc")
    case None
    then show ?thesis by (cases ?sc) (auto simp: company_step_def Let_def)
  next
    case (Some result)
    let ?cp = "commit_private (cx_cost ctx) h rnd (filter (\<lambda>p. own_pair ti h p \<and> \<not> contributed_pair (rs_market st) p) result)
        (rs_market st) (rs_private st)"
    obtain mk' n where "?cp = Inr (mk', n)" using commit_private_total [OF assms] by (cases ?cp) auto
    then show ?thesis using Some by (cases ?sc) (auto simp: company_step_def Let_def split: option.splits prod.splits)
  qed
qed

lemma companies_step_total:
  assumes "\<And>t ord. cx_cost ctx t ord \<noteq> None"
  shows "companies_step ctx ti rnd ft cands hs st \<noteq> Inl e"
  using company_step_total [OF assms] by (induction hs arbitrary: st) (auto split: sum.splits)

lemma market_round_total:
  assumes "\<And>t ord. cx_cost ctx t ord \<noteq> None"
  shows "market_round ctx ti rnd cands s \<noteq> Inl e"
proof -
  let ?c = "companies_step ctx ti rnd (free_trucks_by_haulier ti (fst s)) cands (ti_company_ids ti)
      \<lparr>rs_market = fst s, rs_rng = snd s, rs_bids = [], rs_private = 0\<rparr>"
  obtain st where "?c = Inr st" using companies_step_total [OF assms] by (cases ?c) auto
  then show ?thesis by (auto simp: market_round_def split_beta)
qed

lemma run_rounds_total:
  assumes "\<And>t ord. cx_cost ctx t ord \<noteq> None"
  shows "run_rounds ctx ti rnds s lg \<noteq> Inl e"
proof (induction rnds arbitrary: s lg)
  case (Cons rnd rnds)
  let ?r = "market_round ctx ti rnd (round_candidates ctx ti (fst s)) s"
  obtain s1 any where "?r = Inr (s1, any)" using market_round_total [OF assms] by (cases ?r) auto
  then show ?case using Cons.IH by (auto simp: Let_def)
qed simp

lemma pooled_market_total:
  assumes cost: "\<And>t ord. cx_cost ctx t ord \<noteq> None" and honest: "honest_planner ctx"
  shows "run_pooled_market ctx ts os (market_from_structure st) r \<noteq> Inl e"
proof
  let ?ti = "tick_input_of ts os" and ?m = "clamp_rounds (if cx_max_rounds ctx = 0 then default_max_rounds else cx_max_rounds ctx)"
  let ?s0 = "contribution_step ctx ?ti (market_from_structure st, r)"
  let ?run = "run_rounds ctx ?ti [1..?m] ?s0 \<lparr>rl_rounds_used = 0, rl_converged = False, rl_pairs1 = 0, rl_pairs_total = 0\<rparr>"
  assume e: "run_pooled_market ctx ts os (market_from_structure st) r = Inl e"
  obtain mk' r' lg where out: "?run = Inr ((mk', r'), lg)" using run_rounds_total [OF cost] by (cases ?run) auto
  have "plan_inv ?ti (fst ?s0)"
    by (rule plan_inv_contribution_step [THEN conjunct1, OF fresh_plan_inv [THEN conjunct1] fresh_plan_inv [THEN conjunct2]])
  then have "invariants_hold ?ti (awards mk')"
    using plan_inv_asserts run_rounds_inv [OF honest_arbitration [OF honest] _ out] by simp
  then show False using e out by (simp add: run_pooled_market_def Let_def split_beta)
qed

section \<open>Properties\<close>



end
