(* ===== verification/Order_Lifecycle.thy ===== *)
theory Order_Lifecycle
  imports Workflow_Machines Sim_Clock
begin

text \<open>
  The order-lifecycle service (\<open>order_lifecycle/batch_writer.py\<close>, \<open>order_lifecycle/app.py\<close>, \<open>order/bulk_cancel.py\<close>): a
  drained batch of workflow events becomes one guarded update per order, due demand is published, overdue demand is cancelled,
  and what is left at the end of a run is cancelled. The database is a record of operations; \<open>db_ok\<close> is its
  documented behaviour. Documents carry the fields the service reads or writes; \<open>_etag\<close> and \<open>_updated\<close>, which repeat
  other fields, are left out.
\<close>

section \<open>Tables\<close>

definition terminal_states :: "order_state list" where
  "terminal_states = [OCompleted, OCancelled]"

definition sweep_cancel_reason :: string where
  "sweep_cancel_reason = ''overdue_unassigned''"

definition event_to_state :: "string \<Rightarrow> order_state option" where
  "event_to_state name =
     map_of (rev (List.map_filter
       (\<lambda>rule. case target_new_state rule of
           OrderS s \<Rightarrow> if target_statemachine rule = OrderSM then Some (event_name (event rule), s) else None
         | _ \<Rightarrow> None) haultrip_order_interactions)) name"

definition feasible_events :: "order_state \<Rightarrow> order_event list" where
  "feasible_events s = map fst (filter (\<lambda>(e, s', t). s' = s) order_transitions)"

definition adjacent :: "order_state \<Rightarrow> order_state set" where
  "adjacent s = set (map (\<lambda>(e, s', t). t) (filter (\<lambda>(e, s', t). s' = s) order_transitions))"

section \<open>Events\<close>

record parsed_event =
  pe_order_id :: string
  pe_event :: string
  pe_target_state :: order_state
  pe_truck_id :: "string option"
  pe_sim_clock :: py_time

definition py_or :: "pyval \<Rightarrow> pyval \<Rightarrow> pyval" where
  "py_or a b = (if truthy a then a else b)"

definition event_clock :: "pyval \<Rightarrow> py_time \<Rightarrow> py_time" where
  "event_clock raw fallback =
     (case raw of
        PyStr s \<Rightarrow> (if s = [] then fallback else case str_to_time s of None \<Rightarrow> fallback | Some t \<Rightarrow> t)
      | _ \<Rightarrow> fallback)"

text \<open>An event that is a list or a dictionary cannot be looked up and raises.\<close>

definition parse_event :: "(pyval \<Rightarrow> string) \<Rightarrow> py_time \<Rightarrow> pyval \<Rightarrow> py_error + parsed_event option" where
  "parse_event render fallback payload =
     (case payload of
        PyDict p \<Rightarrow>
          (let data = (case py_get p ''data'' of PyDict d \<Rightarrow> d | _ \<Rightarrow> []);
               ev = py_or (py_get data ''event'') (py_get p ''event'');
               oid = py_or (py_get data ''order_id'') (py_get p ''order_id'');
               tid = py_or (py_get p ''truck_id'') (py_get data ''truck_id'')
           in if \<not> truthy ev then Inr None
              else case ev of
                PyList _ \<Rightarrow> Inl TypeError
              | PyDict _ \<Rightarrow> Inl TypeError
              | PyStr name \<Rightarrow>
                  (case event_to_state name of
                     None \<Rightarrow> Inr None
                   | Some target \<Rightarrow>
                       if \<not> truthy oid then Inr None
                       else Inr (Some
                         \<lparr>pe_order_id = py_str render oid, pe_event = name, pe_target_state = target,
                          pe_truck_id = (if tid = PyNone then None else Some (py_str render tid)),
                          pe_sim_clock = event_clock (py_get data ''sim_clock'') fallback\<rparr>))
              | _ \<Rightarrow> Inr None)
      | _ \<Rightarrow> Inr None)"

fun parse_events :: "(pyval \<Rightarrow> string) \<Rightarrow> py_time \<Rightarrow> pyval list \<Rightarrow> py_error + parsed_event list" where
  "parse_events render fallback [] = Inr []"
| "parse_events render fallback (v # vs) =
     (case parse_event render fallback v of
        Inl e \<Rightarrow> Inl e
      | Inr parsed \<Rightarrow>
          (case parse_events render fallback vs of
             Inl e \<Rightarrow> Inl e
           | Inr evs \<Rightarrow> Inr (case parsed of None \<Rightarrow> evs | Some ev \<Rightarrow> ev # evs)))"

section \<open>Planning\<close>

text \<open>The stored state of an order and the reason of its cancellation, as far as known.\<close>

type_synonym known_state = "order_state option \<times> string option"

definition resurrectable :: "known_state \<Rightarrow> bool" where
  "resurrectable k \<longleftrightarrow> fst k = Some OCancelled \<and> snd k = Some sweep_cancel_reason"

definition is_terminal :: "order_state option \<Rightarrow> bool" where
  "is_terminal s \<longleftrightarrow> (case s of None \<Rightarrow> False | Some s \<Rightarrow> s \<in> set terminal_states)"

text \<open>The fields of the merged \<open>$set\<close> document of an order.\<close>

record slot =
  sl_state :: order_state
  sl_sim_clock :: py_time
  sl_feasible :: "order_event list"
  sl_truck :: "string option"
  sl_clear_reason :: bool

record apply_stats =
  as_events_seen :: nat
  as_parsed :: nat
  as_unknown :: nat
  as_orders_touched :: nat
  as_applied :: nat
  as_skipped_terminal :: nat
  as_warned_jumps :: nat
  as_resurrected :: nat

record plan =
  pl_merged :: "(string, slot) dict"
  pl_resurrected :: "string set"
  pl_effective :: "(string, known_state) dict"
  pl_skipped :: nat
  pl_jumps :: nat

definition known_of :: "(string, known_state) dict \<Rightarrow> string \<Rightarrow> known_state" where
  "known_of current oid = (case map_of current oid of None \<Rightarrow> (None, None) | Some k \<Rightarrow> k)"

definition effective_of :: "(string, known_state) dict \<Rightarrow> plan \<Rightarrow> string \<Rightarrow> known_state" where
  "effective_of current pl oid = (case map_of (pl_effective pl) oid of None \<Rightarrow> known_of current oid | Some k \<Rightarrow> k)"

definition merge_event :: "parsed_event \<Rightarrow> bool \<Rightarrow> slot option \<Rightarrow> slot" where
  "merge_event ev clear old =
     \<lparr>sl_state = pe_target_state ev, sl_sim_clock = pe_sim_clock ev, sl_feasible = feasible_events (pe_target_state ev),
      sl_truck = (if pe_target_state ev = OAssigned \<and> pe_truck_id ev \<notin> {None, Some []} then pe_truck_id ev
                  else case old of None \<Rightarrow> None | Some s \<Rightarrow> sl_truck s),
      sl_clear_reason = (clear \<or> (case old of None \<Rightarrow> False | Some s \<Rightarrow> sl_clear_reason s))\<rparr>"

definition plan_event :: "(string, known_state) dict \<Rightarrow> parsed_event \<Rightarrow> plan \<Rightarrow> plan" where
  "plan_event current ev pl =
     (let oid = pe_order_id ev; target = pe_target_state ev;
          known = effective_of current pl oid;
          reviving = resurrectable known;
          pl = pl\<lparr>pl_effective := AList.update oid known (pl_effective pl)\<rparr>
      in if reviving \<and> target = OCancelled then pl\<lparr>pl_skipped := Suc (pl_skipped pl)\<rparr>
         else if \<not> reviving \<and> is_terminal (fst known) then pl\<lparr>pl_skipped := Suc (pl_skipped pl)\<rparr>
         else
           (let res = (if reviving then insert oid (pl_resurrected pl) else pl_resurrected pl);
                jump = (\<not> reviving \<and> (case fst known of None \<Rightarrow> False | Some s \<Rightarrow> target \<noteq> s \<and> target \<notin> adjacent s))
            in pl\<lparr>pl_merged := AList.update oid (merge_event ev (oid \<in> res) (map_of (pl_merged pl) oid)) (pl_merged pl),
                  pl_resurrected := res,
                  pl_effective := AList.update oid (Some target, None) (pl_effective pl),
                  pl_jumps := (if jump then Suc (pl_jumps pl) else pl_jumps pl)\<rparr>))"

definition empty_plan :: plan where
  "empty_plan = \<lparr>pl_merged = [], pl_resurrected = {}, pl_effective = [], pl_skipped = 0, pl_jumps = 0\<rparr>"

definition plan_event_updates :: "parsed_event list \<Rightarrow> (string, known_state) dict \<Rightarrow> (string, slot) dict \<times> apply_stats" where
  "plan_event_updates events current =
     (let pl = fold (plan_event current) events empty_plan in
      (pl_merged pl,
       \<lparr>as_events_seen = 0, as_parsed = length events, as_unknown = 0, as_orders_touched = length (pl_merged pl), as_applied = 0,
        as_skipped_terminal = pl_skipped pl, as_warned_jumps = pl_jumps pl, as_resurrected = card (pl_resurrected pl)\<rparr>))"

section \<open>Documents and the database\<close>

record order_document =
  od_run_id :: string
  od_state :: "order_state option"
  od_cancel_reason :: "string option"
  od_request_step :: "int option"
  od_truck :: "string option"
  od_sim_clock :: "py_time option"
  od_feasible :: "order_event list"
  od_haulier_id :: "string option"

type_synonym doc_filter = "order_document \<Rightarrow> bool"
type_synonym doc_set = "order_document \<Rightarrow> order_document"

text \<open>A request that fails is \<open>None\<close>; an update reports how many documents it modified.\<close>

record 'db order_db =
  db_doc :: "'db \<Rightarrow> string \<Rightarrow> order_document option"
  db_find :: "string list \<Rightarrow> 'db \<Rightarrow> (string, known_state) dict option"
  db_bulk_write :: "(string \<times> doc_filter \<times> doc_set) list \<Rightarrow> 'db \<Rightarrow> ('db \<times> nat) option"
  db_update_many :: "(string \<Rightarrow> doc_filter) \<Rightarrow> doc_set \<Rightarrow> 'db \<Rightarrow> ('db \<times> nat) option"

definition known_doc :: "order_document \<Rightarrow> known_state" where
  "known_doc d = (od_state d, od_cancel_reason d)"

definition db_ok :: "'db order_db \<Rightarrow> bool" where
  "db_ok m \<longleftrightarrow>
     (\<forall>ids db found. db_find m ids db = Some found \<longrightarrow>
        (\<forall>i\<in>set ids. map_of found i = map_option known_doc (db_doc m db i))) \<and>
     (\<forall>ops db db' n. distinct (map fst ops) \<and> db_bulk_write m ops db = Some (db', n) \<longrightarrow>
        (\<forall>i. db_doc m db' i = map_option (\<lambda>d. case map_of ops i of None \<Rightarrow> d | Some (f, s) \<Rightarrow> if f d then s d else d) (db_doc m db i))) \<and>
     (\<forall>f s db db' n. db_update_many m f s db = Some (db', n) \<longrightarrow>
        (\<forall>i. db_doc m db' i = map_option (\<lambda>d. if f i d then s d else d) (db_doc m db i)))"

section \<open>Writing\<close>

definition writable :: "string \<Rightarrow> doc_filter" where
  "writable run_id d \<longleftrightarrow> od_run_id d = run_id \<and> (\<not> is_terminal (od_state d) \<or> resurrectable (known_doc d))"

definition apply_slot :: "slot \<Rightarrow> doc_set" where
  "apply_slot s d =
     d\<lparr>od_state := Some (sl_state s), od_sim_clock := Some (sl_sim_clock s), od_feasible := sl_feasible s,
       od_truck := (case sl_truck s of None \<Rightarrow> od_truck d | Some t \<Rightarrow> Some t),
       od_cancel_reason := (if sl_clear_reason s then None else od_cancel_reason d)\<rparr>"

text \<open>\<open>apply_events\<close>; a failing write is reported as \<open>RuntimeError\<close>, a failing read leaves the plan without context.\<close>

definition apply_events :: "'db order_db \<Rightarrow> (pyval \<Rightarrow> string) \<Rightarrow> string \<Rightarrow> pyval list \<Rightarrow> py_time \<Rightarrow> 'db \<Rightarrow> py_error + apply_stats \<times> 'db" where
  "apply_events m render run_id payloads fallback db =
     (case parse_events render fallback payloads of
        Inl e \<Rightarrow> Inl e
      | Inr [] \<Rightarrow>
          Inr (\<lparr>as_events_seen = length payloads, as_parsed = 0, as_unknown = length payloads, as_orders_touched = 0, as_applied = 0,
                as_skipped_terminal = 0, as_warned_jumps = 0, as_resurrected = 0\<rparr>, db)
      | Inr (ev # evs) \<Rightarrow>
          (let events = ev # evs;
               current = (case db_find m (map pe_order_id events) db of None \<Rightarrow> [] | Some found \<Rightarrow> found)
           in case plan_event_updates events current of
                (ops, stats) \<Rightarrow>
                  (let stats = stats\<lparr>as_events_seen := length payloads, as_unknown := length payloads - as_parsed stats\<rparr> in
                   if ops = [] then Inr (stats, db)
                   else case db_bulk_write m (map (\<lambda>(oid, s). (oid, writable run_id, apply_slot s)) ops) db of
                     None \<Rightarrow> Inl RuntimeError
                   | Some (db', n) \<Rightarrow> Inr (stats\<lparr>as_applied := n\<rparr>, db'))))"

definition in_scope :: "string \<Rightarrow> string list option \<Rightarrow> doc_filter" where
  "in_scope run_id hauliers d \<longleftrightarrow> od_run_id d = run_id \<and>
     (case hauliers of None \<Rightarrow> True | Some hs \<Rightarrow> hs = [] \<or> (case od_haulier_id d of None \<Rightarrow> False | Some h \<Rightarrow> h \<in> set hs))"

definition is_due :: "int \<Rightarrow> doc_filter" where
  "is_due step d \<longleftrightarrow> od_state d = Some OCreated \<and> (case od_request_step d of None \<Rightarrow> False | Some r \<Rightarrow> r \<le> step)"

definition publish_doc :: "py_time \<Rightarrow> doc_set" where
  "publish_doc now d = d\<lparr>od_state := Some OUnassigned, od_feasible := feasible_events OUnassigned, od_sim_clock := Some now\<rparr>"

definition publish_due :: "'db order_db \<Rightarrow> string \<Rightarrow> string list option \<Rightarrow> int \<Rightarrow> py_time \<Rightarrow> 'db \<Rightarrow> ('db \<times> nat) option" where
  "publish_due m run_id hauliers step now =
     db_update_many m (\<lambda>i d. in_scope run_id hauliers d \<and> is_due step d) (publish_doc now)"

definition is_overdue :: "int \<Rightarrow> doc_filter" where
  "is_overdue limit d \<longleftrightarrow> od_state d = Some OUnassigned \<and> (case od_request_step d of None \<Rightarrow> False | Some r \<Rightarrow> r < limit)"

definition sweep_doc :: "py_time \<Rightarrow> doc_set" where
  "sweep_doc now d = d\<lparr>od_state := Some OCancelled, od_feasible := [], od_sim_clock := Some now,
     od_cancel_reason := Some sweep_cancel_reason\<rparr>"

definition cancel_overdue_unassigned ::
    "'db order_db \<Rightarrow> string \<Rightarrow> string list option \<Rightarrow> int \<Rightarrow> int \<Rightarrow> string list \<Rightarrow> py_time \<Rightarrow> 'db \<Rightarrow> ('db \<times> nat) option" where
  "cancel_overdue_unassigned m run_id hauliers step max_wait_steps open_ids now =
     db_update_many m
       (\<lambda>i d. in_scope run_id hauliers d \<and> is_overdue (step - max_wait_steps) d \<and> i \<notin> set (filter (\<lambda>x. x \<noteq> []) open_ids))
       (sweep_doc now)"

definition bulk_cancel_nonterminal_orders :: "'db order_db \<Rightarrow> string \<Rightarrow> 'db \<Rightarrow> ('db \<times> nat) option" where
  "bulk_cancel_nonterminal_orders m run_id =
     db_update_many m (\<lambda>i d. od_run_id d = run_id \<and> \<not> is_terminal (od_state d)) (\<lambda>d. d\<lparr>od_state := Some OCancelled\<rparr>)"

section \<open>A step of the service\<close>

record lifecycle_cfg =
  lc_run_id :: string
  lc_hauliers :: "string list option"
  lc_sweep_interval :: int
  lc_max_wait_steps :: int
  lc_horizon_steps :: int

definition sweep_interval_of :: "(string, pyval) dict \<Rightarrow> py_error + int" where
  "sweep_interval_of profile =
     (case py_int (py_get_or profile ''sweep_interval_steps'' (PyInt 30)) of Inl e \<Rightarrow> Inl e | Inr n \<Rightarrow> Inr (max 1 n))"

definition publish_step :: "'db order_db \<Rightarrow> lifecycle_cfg \<Rightarrow> int \<Rightarrow> py_time \<Rightarrow> 'db \<Rightarrow> ('db \<times> nat) option" where
  "publish_step m cfg step now db =
     (if lc_horizon_steps cfg = 0 \<or> step < lc_horizon_steps cfg then publish_due m (lc_run_id cfg) (lc_hauliers cfg) step now db
      else Some (db, 0))"

definition sweep_step :: "'db order_db \<Rightarrow> lifecycle_cfg \<Rightarrow> int \<Rightarrow> string list \<Rightarrow> py_time \<Rightarrow> 'db \<Rightarrow> ('db \<times> nat) option" where
  "sweep_step m cfg step open_ids now db =
     (if 0 < lc_max_wait_steps cfg \<and> step mod lc_sweep_interval cfg = 0
      then cancel_overdue_unassigned m (lc_run_id cfg) (lc_hauliers cfg) step (lc_max_wait_steps cfg) open_ids now db
      else Some (db, 0))"

definition run_step ::
    "'db order_db \<Rightarrow> (pyval \<Rightarrow> string) \<Rightarrow> lifecycle_cfg \<Rightarrow> pyval list \<Rightarrow> py_time \<Rightarrow> int \<Rightarrow> string list \<Rightarrow> 'db
     \<Rightarrow> py_error + (apply_stats \<times> nat \<times> nat) \<times> 'db" where
  "run_step m render cfg drained now step open_ids db =
     (case apply_events m render (lc_run_id cfg) drained now db of
        Inl e \<Rightarrow> Inl e
      | Inr (stats, db1) \<Rightarrow>
          (case publish_step m cfg step now db1 of
             None \<Rightarrow> Inl RuntimeError
           | Some (db2, published) \<Rightarrow>
               (case sweep_step m cfg step open_ids now db2 of
                  None \<Rightarrow> Inl RuntimeError
                | Some (db3, swept) \<Rightarrow> Inr ((stats, published, swept), db3))))"

text \<open>\<open>close\<close>: a last drain, whose failure is logged.\<close>

definition close_lifecycle :: "'db order_db \<Rightarrow> (pyval \<Rightarrow> string) \<Rightarrow> lifecycle_cfg \<Rightarrow> pyval list \<Rightarrow> py_time \<Rightarrow> 'db \<Rightarrow> 'db" where
  "close_lifecycle m render cfg drained now db =
     (case apply_events m render (lc_run_id cfg) drained now db of Inl e \<Rightarrow> db | Inr (stats, db') \<Rightarrow> db')"

section \<open>One event at a time\<close>

text \<open>
  The reference: an event that is allowed to touch the document writes its state, its clock and, on assignment, its
  truck; reviving an order clears the reason of the sweep.
\<close>

definition apply_event :: "parsed_event \<Rightarrow> doc_set" where
  "apply_event ev d =
     (if (is_terminal (od_state d) \<and> \<not> resurrectable (known_doc d)) \<or> (resurrectable (known_doc d) \<and> pe_target_state ev = OCancelled) then d
      else apply_slot (merge_event ev (resurrectable (known_doc d)) None) d)"

text \<open>The sweep's reason stands only on cancelled orders.\<close>

definition marker_ok :: "order_document \<Rightarrow> bool" where
  "marker_ok d \<longleftrightarrow> (od_cancel_reason d = Some sweep_cancel_reason \<longrightarrow> od_state d = Some OCancelled)"

definition tracks :: "(string, known_state) dict \<Rightarrow> string \<Rightarrow> order_document \<Rightarrow> parsed_event list \<Rightarrow> plan \<Rightarrow> bool" where
  "tracks current i d evs pl \<longleftrightarrow>
     (let d' = fold apply_event (filter (\<lambda>e. pe_order_id e = i) evs) d in
      case map_of (pl_merged pl) i of
        None \<Rightarrow> d' = d \<and> effective_of current pl i = known_doc d \<and> i \<notin> pl_resurrected pl
      | Some s \<Rightarrow> d' = apply_slot s d \<and> (\<not> is_terminal (od_state d) \<or> resurrectable (known_doc d)) \<and>
          effective_of current pl i = (Some (sl_state s), None) \<and>
          (sl_clear_reason s \<longleftrightarrow> resurrectable (known_doc d)) \<and> (i \<in> pl_resurrected pl \<longleftrightarrow> resurrectable (known_doc d)))"

lemma plan_event_other:
  assumes "pe_order_id ev \<noteq> i"
  shows "map_of (pl_merged (plan_event current ev pl)) i = map_of (pl_merged pl) i"
    "effective_of current (plan_event current ev pl) i = effective_of current pl i"
    "i \<in> pl_resurrected (plan_event current ev pl) \<longleftrightarrow> i \<in> pl_resurrected pl"
  using assms by (auto simp: plan_event_def Let_def effective_of_def)

lemma not_resurrectable_after:
  "marker_ok d \<Longrightarrow> (sl_clear_reason s \<longleftrightarrow> resurrectable (known_doc d)) \<Longrightarrow> \<not> resurrectable (known_doc (apply_slot s d))"
  by (auto simp: resurrectable_def known_doc_def apply_slot_def marker_ok_def)

lemma apply_slot_merge:
  "sl_clear_reason s = c \<Longrightarrow> apply_slot (merge_event ev c (Some s)) d = apply_slot (merge_event ev False None) (apply_slot s d)"
  by (cases "sl_truck s") (auto simp: apply_slot_def merge_event_def)

lemma plan_event_tracks:
  assumes "tracks current (pe_order_id ev) d evs pl" and "marker_ok d"
  shows "tracks current (pe_order_id ev) d (evs @ [ev]) (plan_event current ev pl)"
proof (cases "map_of (pl_merged pl) (pe_order_id ev)")
  case None
  then show ?thesis
    using assms(1) by (auto simp: tracks_def plan_event_def Let_def effective_of_def apply_event_def known_doc_def merge_event_def)
next
  case (Some s)
  have d': "fold apply_event (filter (\<lambda>e. pe_order_id e = pe_order_id ev) evs) d = apply_slot s d"
    and eff: "effective_of current pl (pe_order_id ev) = (Some (sl_state s), None)"
    and clear: "sl_clear_reason s \<longleftrightarrow> resurrectable (known_doc d)" "pe_order_id ev \<in> pl_resurrected pl \<longleftrightarrow> resurrectable (known_doc d)"
    and live: "\<not> is_terminal (od_state d) \<or> resurrectable (known_doc d)"
    using assms(1) Some by (auto simp: tracks_def)
  have "\<not> resurrectable (known_doc (apply_slot s d))" by (rule not_resurrectable_after [OF assms(2) clear(1)])
  moreover have "od_state (apply_slot s d) = Some (sl_state s)" by (simp add: apply_slot_def)
  moreover have "\<not> resurrectable (Some (sl_state s), None)" by (simp add: resurrectable_def)
  ultimately show ?thesis
    using Some d' eff clear live apply_slot_merge [of s "resurrectable (known_doc d)" ev d]
    by (auto simp: tracks_def plan_event_def Let_def effective_of_def apply_event_def merge_event_def)
qed

lemma plan_tracks:
  assumes "known_of current i = known_doc d" and "marker_ok d"
  shows "tracks current i d evs (fold (plan_event current) evs empty_plan)"
proof (induction evs rule: rev_induct)
  case Nil
  then show ?case using assms(1) by (simp add: tracks_def empty_plan_def effective_of_def)
next
  case (snoc ev evs)
  show ?case
  proof (cases "pe_order_id ev = i")
    case True
    then show ?thesis using plan_event_tracks [OF _ assms(2), of current ev evs] snoc by simp
  next
    case False
    then show ?thesis using snoc by (simp add: tracks_def plan_event_other Let_def split: option.splits)
  qed
qed

lemma plan_event_keys: "distinct (map fst (pl_merged pl)) \<Longrightarrow> distinct (map fst (pl_merged (plan_event current ev pl)))"
  by (simp add: plan_event_def Let_def distinct_update)

lemma plan_keys: "distinct (map fst (pl_merged (fold (plan_event current) evs empty_plan)))"
  by (induction evs rule: rev_induct) (simp_all add: plan_event_keys, simp add: empty_plan_def)

section \<open>What a write does to a document\<close>

lemma bulk_doc: "db_ok m \<Longrightarrow> distinct (map fst ops) \<Longrightarrow> db_bulk_write m ops db = Some (db', n) \<Longrightarrow>
    db_doc m db' i = map_option (\<lambda>d. case map_of ops i of None \<Rightarrow> d | Some (f, s) \<Rightarrow> if f d then s d else d) (db_doc m db i)"
  unfolding db_ok_def by blast

lemma bulk_write_doc:
  assumes "db_ok m" and "distinct (map fst ops)" and "db_bulk_write m (map (\<lambda>(oid, s). (oid, writable run, apply_slot s)) ops) db = Some (db', n)"
  shows "db_doc m db' i = map_option (\<lambda>d. case map_of ops i of None \<Rightarrow> d | Some s \<Rightarrow> if writable run d then apply_slot s d else d) (db_doc m db i)"
proof -
  let ?ops = "map (\<lambda>(oid, s). (oid, writable run, apply_slot s)) ops"
  have keys: "map fst ?ops = map fst ops" by (induction ops) auto
  have look: "map_of ?ops i = map_option (\<lambda>s. (writable run, apply_slot s)) (map_of ops i)" by (induction ops) auto
  have "distinct (map fst ?ops)" using assms(2) by (simp only: keys)
  from bulk_doc [OF assms(1) this assms(3), of i] show ?thesis
    by (simp add: look) (cases "map_of ops i", simp_all)
qed

lemma update_many_doc: "db_ok m \<Longrightarrow> db_update_many m f s db = Some (db', n) \<Longrightarrow>
    db_doc m db' i = map_option (\<lambda>d. if f i d then s d else d) (db_doc m db i)"
  unfolding db_ok_def by blast

lemma find_doc: "db_ok m \<Longrightarrow> db_find m ids db = Some found \<Longrightarrow> i \<in> set ids \<Longrightarrow> map_of found i = map_option known_doc (db_doc m db i)"
  unfolding db_ok_def by blast

text \<open>Whatever the context of the plan, the update leaves every document as it is or applies a slot to a writable one.\<close>

lemma apply_events_doc:
  assumes ok: "db_ok m" and run: "apply_events m render run payloads now db = Inr (stats, db')"
  shows "\<exists>evs current. parse_events render now payloads = Inr evs \<and>
    (evs \<noteq> [] \<longrightarrow> (db_find m (map pe_order_id evs) db = Some current \<or> db_find m (map pe_order_id evs) db = None \<and> current = [])) \<and>
    (\<forall>i. db_doc m db' i = map_option (\<lambda>d. case map_of (pl_merged (fold (plan_event current) evs empty_plan)) i of
        None \<Rightarrow> d | Some s \<Rightarrow> if writable run d then apply_slot s d else d) (db_doc m db i))"
proof -
  obtain evs where evs: "parse_events render now payloads = Inr evs" using run by (auto simp: apply_events_def split: sum.splits)
  show ?thesis
  proof (cases evs)
    case Nil
    then have "db' = db" using run evs by (simp add: apply_events_def)
    then show ?thesis using evs Nil by (intro exI [of _ evs] exI [of _ "[]"]) (simp add: empty_plan_def option.map_ident)
  next
    case (Cons ev rest)
    let ?current = "case db_find m (map pe_order_id evs) db of None \<Rightarrow> [] | Some found \<Rightarrow> found"
    let ?merged = "pl_merged (fold (plan_event ?current) evs empty_plan)"
    have "?merged = [] \<and> db' = db \<or> (\<exists>n. db_bulk_write m (map (\<lambda>(oid, s). (oid, writable run, apply_slot s)) ?merged) db = Some (db', n))"
      using run evs unfolding Cons apply_events_def plan_event_updates_def Let_def
      by (auto simp del: fold_simps split: if_splits option.splits prod.splits)
    then have "\<forall>i. db_doc m db' i = map_option (\<lambda>d. case map_of ?merged i of None \<Rightarrow> d | Some s \<Rightarrow> if writable run d then apply_slot s d else d) (db_doc m db i)"
    proof
      assume "?merged = [] \<and> db' = db"
      then show ?thesis by (simp add: option.map_ident)
    next
      assume "\<exists>n. db_bulk_write m (map (\<lambda>(oid, s). (oid, writable run, apply_slot s)) ?merged) db = Some (db', n)"
      then show ?thesis using bulk_write_doc [OF ok plan_keys] by blast
    qed
    then show ?thesis using evs by (intro exI [of _ evs] exI [of _ ?current]) (auto split: option.splits)
  qed
qed

section \<open>Runs\<close>

definition hard_terminal :: doc_filter where
  "hard_terminal d \<longleftrightarrow> is_terminal (od_state d) \<and> \<not> resurrectable (known_doc d)"

inductive lifecycle :: "'db order_db \<Rightarrow> (pyval \<Rightarrow> string) \<Rightarrow> lifecycle_cfg \<Rightarrow> 'db \<Rightarrow> 'db \<Rightarrow> bool"
  for m render cfg where
    start: "lifecycle m render cfg db db"
  | step: "lifecycle m render cfg db db1 \<Longrightarrow> run_step m render cfg drained now n open_ids db1 = Inr (out, db2) \<Longrightarrow> lifecycle m render cfg db db2"
  | closing: "lifecycle m render cfg db db1 \<Longrightarrow> lifecycle m render cfg db (close_lifecycle m render cfg drained now db1)"
  | final_cancel: "lifecycle m render cfg db db1 \<Longrightarrow> bulk_cancel_nonterminal_orders m (lc_run_id cfg) db1 = Some (db2, n) \<Longrightarrow>
      lifecycle m render cfg db db2"

lemma hard_terminal_states [simp]:
  "hard_terminal d \<Longrightarrow> od_state d \<noteq> Some OCreated" "hard_terminal d \<Longrightarrow> od_state d \<noteq> Some OUnassigned"
  "hard_terminal d \<Longrightarrow> is_terminal (od_state d)" "hard_terminal d \<Longrightarrow> \<not> writable run d"
  by (auto simp: hard_terminal_def is_terminal_def terminal_states_def writable_def split: option.splits)

lemma apply_events_final:
  assumes "db_ok m" and "apply_events m render run payloads now db = Inr (stats, db')" and "db_doc m db i = Some d" and "hard_terminal d"
  shows "db_doc m db' i = Some d"
proof -
  obtain merged where "db_doc m db' i = map_option (\<lambda>d. case map_of merged i of None \<Rightarrow> d | Some s \<Rightarrow> if writable run d then apply_slot s d else d) (db_doc m db i)"
    using apply_events_doc [OF assms(1,2)] by blast
  then show ?thesis using assms(3,4) by (simp split: option.splits)
qed

lemma publish_step_doc:
  assumes "db_ok m" and "publish_step m cfg n now db = Some (db', k)" and "db_doc m db i = Some d"
  shows "db_doc m db' i = Some d \<or> (is_due n d \<and> db_doc m db' i = Some (publish_doc now d))"
  using assms update_many_doc [OF assms(1)] by (fastforce simp: publish_step_def publish_due_def split: if_splits)

lemma sweep_step_doc:
  assumes "db_ok m" and "sweep_step m cfg n open_ids now db = Some (db', k)" and "db_doc m db i = Some d"
  shows "db_doc m db' i = Some d \<or>
    (is_overdue (n - lc_max_wait_steps cfg) d \<and> 0 < lc_max_wait_steps cfg \<and> n mod lc_sweep_interval cfg = 0 \<and> (i \<noteq> [] \<longrightarrow> i \<notin> set open_ids) \<and>
     db_doc m db' i = Some (sweep_doc now d))"
  using assms update_many_doc [OF assms(1)] by (fastforce simp: sweep_step_def cancel_overdue_unassigned_def split: if_splits)

lemma run_step_split:
  assumes "run_step m render cfg drained now n open_ids db = Inr (out, db')"
  obtains stats db1 db2 k j where "apply_events m render (lc_run_id cfg) drained now db = Inr (stats, db1)"
    "publish_step m cfg n now db1 = Some (db2, k)" "sweep_step m cfg n open_ids now db2 = Some (db', j)"
  using assms by (auto simp: run_step_def split: sum.splits option.splits prod.splits)

lemma run_step_final:
  assumes ok: "db_ok m" and run: "run_step m render cfg drained now n open_ids db = Inr (out, db')"
    and "db_doc m db i = Some d" and final: "hard_terminal d"
  shows "db_doc m db' i = Some d"
proof -
  obtain stats db1 db2 k j where parts: "apply_events m render (lc_run_id cfg) drained now db = Inr (stats, db1)"
      "publish_step m cfg n now db1 = Some (db2, k)" "sweep_step m cfg n open_ids now db2 = Some (db', j)"
    using run by (rule run_step_split)
  have d1: "db_doc m db1 i = Some d" using apply_events_final [OF ok parts(1) assms(3) final] .
  have d2: "db_doc m db2 i = Some d"
    using publish_step_doc [OF ok parts(2) d1] hard_terminal_states(1) [OF final] by (auto simp: is_due_def)
  show ?thesis using sweep_step_doc [OF ok parts(3) d2] hard_terminal_states(2) [OF final] by (auto simp: is_overdue_def)
qed

lemma plan_without_events:
  "\<forall>e\<in>set evs. pe_order_id e \<noteq> i \<Longrightarrow> map_of (pl_merged (fold (plan_event current) evs empty_plan)) i = None"
  by (induction evs rule: rev_induct) (simp_all add: plan_event_other, simp add: empty_plan_def)

lemma plan_event_target:
  "map_of (pl_merged (plan_event current e pl)) i = Some s \<Longrightarrow>
     (pe_order_id e = i \<and> sl_state s = pe_target_state e) \<or> map_of (pl_merged pl) i = Some s"
  by (auto simp: plan_event_def Let_def merge_event_def split: if_splits)

lemma plan_target:
  "map_of (pl_merged (fold (plan_event current) evs empty_plan)) i = Some s \<Longrightarrow>
     \<exists>e\<in>set evs. pe_order_id e = i \<and> sl_state s = pe_target_state e"
proof (induction evs arbitrary: s rule: rev_induct)
  case (snoc e es)
  then show ?case using plan_event_target [of current e "fold (plan_event current) es empty_plan" i s] by auto
qed (simp add: empty_plan_def)

section \<open>Properties\<close>

text \<open>
  C31. Folding a drained batch into one guarded update per order has the effect of applying its events one at a time: after the
  write, an order of the run is as if each of its events, in the order of the batch, had been applied to the document in turn,
  provided the stored states could be read.
\<close>

theorem batch_equals_sequential:
  assumes "db_ok m" and "apply_events m render run payloads now db = Inr (stats, db')" and "parse_events render now payloads = Inr evs"
    and "db_find m (map pe_order_id evs) db \<noteq> None" and "db_doc m db i = Some d" and "od_run_id d = run" and "marker_ok d"
  shows "db_doc m db' i = Some (fold apply_event (filter (\<lambda>e. pe_order_id e = i) evs) d)"
proof -
  obtain current where found: "evs \<noteq> [] \<longrightarrow> db_find m (map pe_order_id evs) db = Some current"
    and doc: "db_doc m db' i = map_option (\<lambda>d. case map_of (pl_merged (fold (plan_event current) evs empty_plan)) i of
        None \<Rightarrow> d | Some s \<Rightarrow> if writable run d then apply_slot s d else d) (db_doc m db i)"
    using apply_events_doc [OF assms(1,2)] assms(3,4) by auto
  show ?thesis
  proof (cases "\<exists>e\<in>set evs. pe_order_id e = i")
    case True
    then have "evs \<noteq> []" by auto
    then have "map_of current i = Some (known_doc d)" using find_doc [OF assms(1), of _ db current i] found True assms(5) by auto
    then have "known_of current i = known_doc d" by (simp add: known_of_def)
    from plan_tracks [OF this assms(7), of evs] show ?thesis
      using doc assms(5,6) by (auto simp: tracks_def Let_def writable_def split: option.splits)
  next
    case False
    then have "filter (\<lambda>e. pe_order_id e = i) evs = []" by (simp add: filter_empty_conv)
    then show ?thesis using doc assms(5) plan_without_events [of evs i current] False by simp
  qed
qed

text \<open>
  C32. A finished order stays as it is: once completed, or cancelled for another reason than the overdue sweep, no step of the
  service, no last drain and no cancellation at the end of the run changes its document, whatever events arrive
  late and whatever the reads return.
\<close>

theorem final_orders_stay_final:
  assumes "db_ok m" and "lifecycle m render cfg db db'" and "db_doc m db i = Some d" and "hard_terminal d"
  shows "db_doc m db' i = Some d"
  using assms(2,3)
proof (induction rule: lifecycle.induct)
  case (step db db1 drained now n open_ids out db2)
  then show ?case using run_step_final [OF assms(1) step.hyps(2)] assms(4) by blast
next
  case (closing db db1 drained now)
  then have "db_doc m db1 i = Some d" by blast
  then show ?case using apply_events_final [OF assms(1) _ _ assms(4)]
    by (cases "apply_events m render (lc_run_id cfg) drained now db1") (auto simp: close_lifecycle_def)
next
  case (final_cancel db db1 db2 n)
  then have "db_doc m db1 i = Some d" by blast
  then show ?case
    using update_many_doc [OF assms(1) final_cancel.hyps(2) [unfolded bulk_cancel_nonterminal_orders_def], of i] assms(4) by simp
qed simp

text \<open>
  The sweep cancels nothing but overdue demand. When a step turns an order that was not cancelled into a cancelled one and no
  cancellation arrived for it, the order had waited beyond the limit, was not referenced by an open haul, and carries
  the reason that lets a later event revive it.
\<close>

theorem sweep_spares_open_hauls:
  assumes "db_ok m" and "run_step m render cfg drained now n open_ids db = Inr (out, db')" and "parse_events render now drained = Inr evs"
    and "db_doc m db i = Some d" and "od_state d \<noteq> Some OCancelled" and "i \<noteq> []"
    and "\<forall>e\<in>set evs. pe_order_id e = i \<longrightarrow> pe_target_state e \<noteq> OCancelled"
    and "db_doc m db' i = Some d'" and "od_state d' = Some OCancelled"
  shows "i \<notin> set open_ids \<and> od_cancel_reason d' = Some sweep_cancel_reason \<and> resurrectable (known_doc d') \<and>
    0 < lc_max_wait_steps cfg \<and> n mod lc_sweep_interval cfg = 0 \<and>
    (\<exists>r. od_request_step d' = Some r \<and> r + lc_max_wait_steps cfg < n)"
proof -
  obtain stats db1 db2 k j where parts: "apply_events m render (lc_run_id cfg) drained now db = Inr (stats, db1)"
      "publish_step m cfg n now db1 = Some (db2, k)" "sweep_step m cfg n open_ids now db2 = Some (db', j)"
    using assms(2) by (rule run_step_split)
  obtain current where doc: "db_doc m db1 i = map_option (\<lambda>d. case map_of (pl_merged (fold (plan_event current) evs empty_plan)) i of
        None \<Rightarrow> d | Some s \<Rightarrow> if writable (lc_run_id cfg) d then apply_slot s d else d) (db_doc m db i)"
    using apply_events_doc [OF assms(1) parts(1)] assms(3) by auto
  obtain d1 where d1: "db_doc m db1 i = Some d1" "od_state d1 \<noteq> Some OCancelled"
  proof (cases "map_of (pl_merged (fold (plan_event current) evs empty_plan)) i")
    case None
    then show ?thesis using doc assms(4,5) that by simp
  next
    case (Some s)
    then have "sl_state s \<noteq> OCancelled" using plan_target [OF Some] assms(7) by auto
    then show ?thesis using Some doc assms(4,5) that by (auto simp: apply_slot_def split: if_splits)
  qed
  obtain d2 where d2: "db_doc m db2 i = Some d2" "od_state d2 \<noteq> Some OCancelled"
    using publish_step_doc [OF assms(1) parts(2) d1(1)] d1(2) that by (auto simp: publish_doc_def)
  then show ?thesis
    using sweep_step_doc [OF assms(1) parts(3) d2(1)] assms(6,8,9)
    by (auto simp: sweep_doc_def resurrectable_def known_doc_def is_overdue_def split: option.splits)
qed

text \<open>
  When the read of the stored states fails, an order revived from a sweep keeps the reason of the sweep. It is then no longer
  told apart from an order the sweep cancelled: once its haul is cancelled it can be revived again.
\<close>

lemma failed_read_keeps_reason:
  assumes "db_ok m" and "apply_events m render run payloads now db = Inr (stats, db')" and "parse_events render now payloads = Inr [ev]"
    and "db_find m [pe_order_id ev] db = None" and "db_doc m db (pe_order_id ev) = Some d" and "od_run_id d = run"
    and "resurrectable (known_doc d)" and "pe_target_state ev \<noteq> OCancelled"
  shows "\<exists>d'. db_doc m db' (pe_order_id ev) = Some d' \<and> od_state d' = Some (pe_target_state ev) \<and> \<not> marker_ok d'"
proof -
  have doc: "db_doc m db' (pe_order_id ev) = map_option (\<lambda>d. case map_of (pl_merged (fold (plan_event []) [ev] empty_plan)) (pe_order_id ev) of
        None \<Rightarrow> d | Some s \<Rightarrow> if writable run d then apply_slot s d else d) (db_doc m db (pe_order_id ev))"
    using apply_events_doc [OF assms(1,2)] assms(3,4) by auto
  then show ?thesis using assms(5-8)
    by (auto simp: plan_event_def Let_def empty_plan_def effective_of_def known_of_def resurrectable_def is_terminal_def writable_def
        merge_event_def apply_slot_def known_doc_def marker_ok_def)
qed

section \<open>A collection in memory\<close>

definition list_db :: "bool \<Rightarrow> (string, order_document) dict order_db" where
  "list_db readable =
     \<lparr>db_doc = map_of,
      db_find = (\<lambda>ids db. if readable then Some (map (\<lambda>(i, d). (i, known_doc d)) db) else None),
      db_bulk_write = (\<lambda>ops db. Some (map (\<lambda>(i, d). (i, case map_of ops i of None \<Rightarrow> d | Some (f, s) \<Rightarrow> if f d then s d else d)) db, length ops)),
      db_update_many = (\<lambda>f s db. Some (map (\<lambda>(i, d). (i, if f i d then s d else d)) db, length (filter (\<lambda>(i, d). f i d) db)))\<rparr>"

lemma map_of_pointwise: "map_of (map (\<lambda>(i, d). (i, g i d)) xs) k = map_option (g k) (map_of xs k)"
  by (induction xs) auto

lemma list_db_ok: "db_ok (list_db readable)"
proof -
  have "map_of (map (\<lambda>(i, d). (i, known_doc d)) db) i = map_option known_doc (map_of db i)" for db i by (rule map_of_pointwise)
  then show ?thesis by (auto simp: db_ok_def list_db_def map_of_pointwise split: if_splits)
qed

definition demo_order_doc :: "order_state \<Rightarrow> order_document" where
  "demo_order_doc s = \<lparr>od_run_id = ''run'', od_state = Some s, od_cancel_reason = None, od_request_step = Some 3, od_truck = None,
     od_sim_clock = None, od_feasible = [], od_haulier_id = None\<rparr>"

definition demo_now :: py_time where
  "demo_now = \<lparr>tm_year = 2020, tm_month = 1, tm_day = 1, tm_hour = 8, tm_minute = 0, tm_second = 0\<rparr>"

definition demo_payload :: "wf_event \<Rightarrow> pyval" where
  "demo_payload e = PyDict [(''truck_id'', PyStr ''t1''), (''data'', PyDict [(''event'', PyStr (event_name e)), (''order_id'', PyStr ''o1'')])]"

definition demo_event :: "wf_event \<Rightarrow> order_state \<Rightarrow> parsed_event" where
  "demo_event e s = \<lparr>pe_order_id = ''o1'', pe_event = event_name e, pe_target_state = s, pe_truck_id = Some ''t1'', pe_sim_clock = demo_now\<rparr>"

lemma demo_parse:
  "parse_event render demo_now (demo_payload ORDER_ASSIGNED_TO_TRUCK) = Inr (Some (demo_event ORDER_ASSIGNED_TO_TRUCK OAssigned))"
  "parse_event render demo_now (demo_payload ORDER_DELIVERED) = Inr (Some (demo_event ORDER_DELIVERED OCompleted))"
  by (simp_all add: parse_event_def demo_payload_def demo_event_def py_get_def py_or_def event_to_state_def haultrip_order_interactions_def
      List.map_filter_simps event_clock_def Let_def)

definition demo_lifecycle :: lifecycle_cfg where
  "demo_lifecycle = \<lparr>lc_run_id = ''run'', lc_hauliers = None, lc_sweep_interval = 30, lc_max_wait_steps = 10, lc_horizon_steps = 0\<rparr>"

lemma list_db_apply_total: "\<exists>out. parse_events render now vs = Inr evs \<longrightarrow> apply_events (list_db b) render run vs now db = Inr out"
  by (cases evs) (auto simp: apply_events_def list_db_def Let_def split_beta)

theorem batch_equals_sequential_witness:
  "\<exists>stats db'. apply_events (list_db True) (\<lambda>v. []) ''run'' [demo_payload ORDER_ASSIGNED_TO_TRUCK, demo_payload ORDER_DELIVERED] demo_now
      [(''o1'', demo_order_doc OUnassigned)] = Inr (stats, db') \<and>
     db_doc (list_db True) db' ''o1'' = Some (apply_event (demo_event ORDER_DELIVERED OCompleted)
       (apply_event (demo_event ORDER_ASSIGNED_TO_TRUCK OAssigned) (demo_order_doc OUnassigned)))"
proof -
  let ?p = "[demo_payload ORDER_ASSIGNED_TO_TRUCK, demo_payload ORDER_DELIVERED]" and ?db = "[(''o1'', demo_order_doc OUnassigned)]"
  let ?evs = "[demo_event ORDER_ASSIGNED_TO_TRUCK OAssigned, demo_event ORDER_DELIVERED OCompleted]"
  have evs: "parse_events (\<lambda>v. []) demo_now ?p = Inr ?evs" by (simp add: demo_parse)
  obtain out where "apply_events (list_db True) (\<lambda>v. []) ''run'' ?p demo_now ?db = Inr out"
    using list_db_apply_total evs by blast
  then obtain stats db' where run: "apply_events (list_db True) (\<lambda>v. []) ''run'' ?p demo_now ?db = Inr (stats, db')" by (cases out) auto
  have "db_doc (list_db True) db' ''o1'' = Some (fold apply_event (filter (\<lambda>e. pe_order_id e = ''o1'') ?evs) (demo_order_doc OUnassigned))"
    by (rule batch_equals_sequential [OF list_db_ok run evs]) (simp_all add: list_db_def demo_order_doc_def marker_ok_def)
  then show ?thesis using run by (simp add: demo_event_def)
qed

theorem final_orders_stay_final_witness:
  "\<exists>db'. bulk_cancel_nonterminal_orders (list_db True) ''run'' [(''o1'', demo_order_doc OCompleted)] = Some (db', 0) \<and>
     db_doc (list_db True) db' ''o1'' = Some (demo_order_doc OCompleted)"
proof -
  let ?db = "[(''o1'', demo_order_doc OCompleted)]"
  have c: "bulk_cancel_nonterminal_orders (list_db True) (lc_run_id demo_lifecycle) ?db = Some (?db, 0)"
    by (simp add: bulk_cancel_nonterminal_orders_def list_db_def demo_order_doc_def is_terminal_def terminal_states_def demo_lifecycle_def)
  have "lifecycle (list_db True) (\<lambda>v. []) demo_lifecycle ?db ?db"
    by (rule lifecycle.final_cancel [OF lifecycle.start c])
  then have "db_doc (list_db True) ?db ''o1'' = Some (demo_order_doc OCompleted)"
    by (rule final_orders_stay_final [OF list_db_ok])
      (simp_all add: list_db_def hard_terminal_def demo_order_doc_def is_terminal_def terminal_states_def resurrectable_def known_doc_def)
  then show ?thesis using c by (simp add: demo_lifecycle_def)
qed

theorem sweep_spares_open_hauls_witness:
  "\<exists>out db' d'. run_step (list_db True) (\<lambda>v. []) demo_lifecycle [] demo_now 60 [''o2''] [(''o1'', demo_order_doc OUnassigned)] = Inr (out, db') \<and>
     db_doc (list_db True) db' ''o1'' = Some d' \<and> resurrectable (known_doc d') \<and> ''o1'' \<notin> set [''o2'']"
proof -
  let ?db = "[(''o1'', demo_order_doc OUnassigned)]" and ?d' = "sweep_doc demo_now (demo_order_doc OUnassigned)"
  obtain out where run: "run_step (list_db True) (\<lambda>v. []) demo_lifecycle [] demo_now 60 [''o2''] ?db = Inr (out, [(''o1'', ?d')])"
    by (simp add: run_step_def apply_events_def publish_step_def sweep_step_def publish_due_def cancel_overdue_unassigned_def list_db_def
        demo_lifecycle_def in_scope_def is_due_def is_overdue_def demo_order_doc_def)
  have "resurrectable (known_doc ?d')"
    using sweep_spares_open_hauls [OF list_db_ok run, of "[]" "''o1''" "demo_order_doc OUnassigned" ?d']
    by (simp add: list_db_def demo_order_doc_def sweep_doc_def)
  then show ?thesis using run by (intro exI [of _ out] exI [of _ "[(''o1'', ?d')]"] exI [of _ ?d']) (simp add: list_db_def)
qed

end
