(* ===== verification/Task_Supervisor.thy ===== *)
theory Task_Supervisor
  imports OR_Prelude
begin

text \<open>
  The supervised tasks of the data plane (\<open>apps/dataplane/supervisor.py\<close>): a runner thread calls the task function again and again with a
  growing pause, a watchdog abandons a thread that has stopped making progress and starts another one, and the health of a task is judged from
  what its current thread has recorded. Threads interleave freely: every lock section of the runner is one event, and a history is a list of events.
  Times are milliseconds of the monotonic clock.
\<close>

section \<open>Tasks and their runner threads\<close>

record task_cfg =
  tc_backoff_initial :: int
  tc_backoff_max :: int
  tc_heartbeat_timeout :: int
  tc_reset_after :: int
  tc_unhealthy_after :: int
  tc_stall_timeout :: int
  tc_restart_on_stall :: bool

definition reset_after_default :: int where "reset_after_default = 60000"
definition unhealthy_after_default :: int where "unhealthy_after_default = 3"

text \<open>The configuration with the default arguments.\<close>

definition default_cfg :: "int \<Rightarrow> int option \<Rightarrow> bool \<Rightarrow> task_cfg" where
  "default_cfg heartbeat_timeout stall restart =
     \<lparr>tc_backoff_initial = 500, tc_backoff_max = 30000, tc_heartbeat_timeout = heartbeat_timeout, tc_reset_after = reset_after_default,
      tc_unhealthy_after = unhealthy_after_default,
      tc_stall_timeout = (case stall of Some t \<Rightarrow> t | None \<Rightarrow> max (3 * heartbeat_timeout) 1000), tc_restart_on_stall = restart\<rparr>"

text \<open>
  Where a runner thread stands in \<open>_runner\<close>: at the loop head, before its round is recorded, before its liveness mark, inside the task function, after it,
  after the accounting, in its pause, on its way out, ended.
\<close>

datatype runner_at = LoopHead | NewRound | FirstMark | InTask | AfterTask | Accounted | Sleeping | Leaving | Exited

text \<open>The locals of a runner; \<open>rn_calls\<close> counts its calls of the task function and is not part of the code.\<close>

record runner =
  rn_at :: runner_at
  rn_backoff :: int
  rn_round :: int
  rn_calls :: nat

text \<open>A thread is named by the generation it was started for.\<close>

record task =
  tk_stop :: bool
  tk_thread :: "nat option"
  tk_active :: "nat option"
  tk_generation :: nat
  tk_runners :: "nat \<Rightarrow> runner option"
  tk_started_at :: "int option"
  tk_round_started :: "int option"
  tk_last_heartbeat :: "int option"
  tk_last_progress :: "int option"
  tk_restarts :: nat
  tk_failures :: nat
  tk_abandoned :: nat
  tk_last_error :: "string option"
  tk_join_failed :: bool
  tk_finished :: bool
  tk_backoffs :: "int list"

definition new_task :: task where
  "new_task =
     \<lparr>tk_stop = False, tk_thread = None, tk_active = None, tk_generation = 0, tk_runners = (\<lambda>g. None), tk_started_at = None, tk_round_started = None,
      tk_last_heartbeat = None, tk_last_progress = None, tk_restarts = 0, tk_failures = 0, tk_abandoned = 0, tk_last_error = None,
      tk_join_failed = False, tk_finished = False, tk_backoffs = []\<rparr>"

section \<open>Liveness\<close>

definition heartbeat :: "int \<Rightarrow> nat \<Rightarrow> task \<Rightarrow> task" where
  "heartbeat now g tk = (if tk_active tk \<noteq> Some g then tk else tk\<lparr>tk_last_heartbeat := Some now, tk_last_progress := Some now\<rparr>)"

definition mark_alive :: "int \<Rightarrow> nat \<Rightarrow> task \<Rightarrow> task" where
  "mark_alive now g tk = (if tk_active tk \<noteq> Some g then tk else tk\<lparr>tk_last_heartbeat := Some now\<rparr>)"

text \<open>What the thread of generation \<open>g\<close> reads when it asks whether to stop.\<close>

definition stopping :: "nat \<Rightarrow> task \<Rightarrow> bool" where
  "stopping g tk \<longleftrightarrow> tk_stop tk \<or> g \<noteq> tk_generation tk"

definition alive :: "task \<Rightarrow> bool" where
  "alive tk = (case tk_thread tk of None \<Rightarrow> False | Some g \<Rightarrow> (case tk_runners tk g of None \<Rightarrow> False | Some r \<Rightarrow> rn_at r \<noteq> Exited))"

text \<open>The reference point of freshness: progress of the task function if it ever reported any, else the runner's mark.\<close>

definition last_sign :: "task \<Rightarrow> int option" where
  "last_sign tk = (case tk_last_progress tk of Some t \<Rightarrow> Some t | None \<Rightarrow> tk_last_heartbeat tk)"

definition stalled :: "task_cfg \<Rightarrow> int \<Rightarrow> task \<Rightarrow> bool" where
  "stalled cfg now tk =
     (if tk_stop tk then False else if \<not> alive tk then False
      else (case last_sign tk of None \<Rightarrow> False | Some t \<Rightarrow> tc_stall_timeout cfg < now - t))"

definition attempt_settled :: "task_cfg \<Rightarrow> int \<Rightarrow> task \<Rightarrow> bool" where
  "attempt_settled cfg now tk = (case tk_round_started tk of None \<Rightarrow> False | Some t \<Rightarrow> tc_reset_after cfg \<le> now - t)"

definition task_healthy :: "task_cfg \<Rightarrow> int \<Rightarrow> task \<Rightarrow> bool" where
  "task_healthy cfg now tk =
     (if tk_join_failed tk then False
      else if tk_stop tk \<and> tk_finished tk then True
      else if \<not> alive tk then False
      else if 0 < tc_unhealthy_after cfg \<and> tc_unhealthy_after cfg \<le> int (tk_failures tk) \<and> \<not> attempt_settled cfg now tk then False
      else (case last_sign tk of None \<Rightarrow> False | Some t \<Rightarrow> now - t \<le> tc_heartbeat_timeout cfg))"

record task_status =
  ts_name :: string
  ts_alive :: bool
  ts_healthy :: bool
  ts_started_at :: "int option"
  ts_last_heartbeat :: "int option"
  ts_restarts :: nat
  ts_last_error :: "string option"
  ts_failures :: nat
  ts_stalled :: bool

definition status_of :: "task_cfg \<Rightarrow> int \<Rightarrow> string \<Rightarrow> task \<Rightarrow> task_status" where
  "status_of cfg now name tk =
     \<lparr>ts_name = name, ts_alive = alive tk, ts_healthy = task_healthy cfg now tk, ts_started_at = tk_started_at tk,
      ts_last_heartbeat = tk_last_heartbeat tk, ts_restarts = tk_restarts tk, ts_last_error = tk_last_error tk, ts_failures = tk_failures tk,
      ts_stalled = stalled cfg now tk\<rparr>"

section \<open>Lifecycle\<close>

definition spawn :: "task_cfg \<Rightarrow> task \<Rightarrow> task" where
  "spawn cfg tk =
     (let g = tk_generation tk + 1
      in tk\<lparr>tk_generation := g, tk_thread := Some g, tk_active := Some g,
            tk_runners := (tk_runners tk)(g \<mapsto> \<lparr>rn_at = LoopHead, rn_backoff = tc_backoff_initial cfg, rn_round = 0, rn_calls = 0\<rparr>)\<rparr>)"

definition start_task :: "task_cfg \<Rightarrow> int \<Rightarrow> task \<Rightarrow> task" where
  "start_task cfg now tk =
     (if alive tk then tk
      else spawn cfg (tk\<lparr>tk_stop := False, tk_finished := False, tk_join_failed := False, tk_started_at := Some now, tk_last_heartbeat := Some now,
                         tk_last_progress := None, tk_round_started := None, tk_failures := 0\<rparr>))"

definition restart_stalled :: "task_cfg \<Rightarrow> int \<Rightarrow> task \<Rightarrow> bool \<times> task" where
  "restart_stalled cfg now tk =
     (if \<not> tc_restart_on_stall cfg then (False, tk)
      else if tk_stop tk \<or> \<not> stalled cfg now tk then (False, tk)
      else (True, spawn cfg (tk\<lparr>tk_abandoned := tk_abandoned tk + 1, tk_restarts := tk_restarts tk + 1,
                                 tk_last_error := Some ''stalled: thread abandoned and restarted'', tk_last_heartbeat := Some now,
                                 tk_last_progress := None, tk_finished := False\<rparr>)))"

text \<open>\<open>stop\<close> signals and joins; a thread that is still there when the join gives up is reported.\<close>

definition signal_stop :: "task \<Rightarrow> task" where
  "signal_stop tk = tk\<lparr>tk_stop := True\<rparr>"

definition join_task :: "task \<Rightarrow> task" where
  "join_task tk = (if alive tk then tk\<lparr>tk_join_failed := True, tk_last_error := Some ''task did not stop in time''\<rparr> else tk)"

section \<open>The runner\<close>

text \<open>How a call of the task function ends; an exception that is no \<open>Exception\<close> ends the thread.\<close>

datatype ending = Raised string | Returned | Killed

definition set_runner :: "nat \<Rightarrow> runner \<Rightarrow> task \<Rightarrow> task" where
  "set_runner g r tk = tk\<lparr>tk_runners := (tk_runners tk)(g \<mapsto> r)\<rparr>"

definition note_error :: "nat \<Rightarrow> string \<Rightarrow> task \<Rightarrow> task" where
  "note_error g s tk = (if g = tk_generation tk then tk\<lparr>tk_last_error := Some s\<rparr> else tk)"

definition round_settled :: "task_cfg \<Rightarrow> int \<Rightarrow> runner \<Rightarrow> bool" where
  "round_settled cfg now r \<longleftrightarrow> tc_reset_after cfg \<le> now - rn_round r"

definition runner_step :: "task_cfg \<Rightarrow> int \<Rightarrow> ending \<Rightarrow> nat \<Rightarrow> task \<Rightarrow> task" where
  "runner_step cfg now ending g tk =
     (case tk_runners tk g of
        None \<Rightarrow> tk
      | Some r \<Rightarrow>
          (case rn_at r of
             LoopHead \<Rightarrow>
               set_runner g (r\<lparr>rn_at := (if tk_stop tk then Leaving else if g \<noteq> tk_generation tk then Exited else NewRound)\<rparr>) tk
           | NewRound \<Rightarrow>
               set_runner g (r\<lparr>rn_at := FirstMark, rn_round := now\<rparr>) (if g = tk_generation tk then tk\<lparr>tk_round_started := Some now\<rparr> else tk)
           | FirstMark \<Rightarrow> set_runner g (r\<lparr>rn_at := InTask, rn_calls := rn_calls r + 1\<rparr>) (mark_alive now g tk)
           | InTask \<Rightarrow>
               (case ending of
                  Killed \<Rightarrow> set_runner g (r\<lparr>rn_at := Exited\<rparr>) tk
                | Raised s \<Rightarrow> set_runner g (r\<lparr>rn_at := AfterTask\<rparr>) (note_error g s tk)
                | Returned \<Rightarrow>
                    if tk_stop tk then set_runner g (r\<lparr>rn_at := Leaving\<rparr>) tk
                    else set_runner g (r\<lparr>rn_at := AfterTask\<rparr>) (note_error g ''task function returned while stop was not requested'' tk))
           | AfterTask \<Rightarrow>
               (if tk_stop tk then set_runner g (r\<lparr>rn_at := Leaving\<rparr>) tk
                else if g \<noteq> tk_generation tk then set_runner g (r\<lparr>rn_at := Exited\<rparr>) tk
                else set_runner g (r\<lparr>rn_at := Accounted, rn_backoff := (if round_settled cfg now r then tc_backoff_initial cfg else rn_backoff r)\<rparr>)
                  (tk\<lparr>tk_restarts := tk_restarts tk + 1, tk_round_started := None,
                      tk_failures := (if round_settled cfg now r then 0 else tk_failures tk + 1)\<rparr>))
           | Accounted \<Rightarrow>
               (let tk1 = mark_alive now g tk in set_runner g (r\<lparr>rn_at := Sleeping\<rparr>) (tk1\<lparr>tk_backoffs := tk_backoffs tk1 @ [rn_backoff r]\<rparr>))
           | Sleeping \<Rightarrow>
               (if tk_stop tk then set_runner g (r\<lparr>rn_at := Leaving\<rparr>) tk
                else set_runner g (r\<lparr>rn_at := LoopHead, rn_backoff := min (rn_backoff r * 2) (tc_backoff_max cfg)\<rparr>) tk)
           | Leaving \<Rightarrow> set_runner g (r\<lparr>rn_at := Exited\<rparr>) (if g = tk_generation tk then tk\<lparr>tk_finished := True\<rparr> else tk)
           | Exited \<Rightarrow> tk))"

text \<open>Everything that can happen to a task; a heartbeat comes from a thread that is inside the task function.\<close>

datatype task_event = Run nat int ending | Beat nat int | StartTask int | SignalStop | JoinTask | Watch int

definition in_task :: "nat \<Rightarrow> task \<Rightarrow> bool" where
  "in_task g tk = (case tk_runners tk g of None \<Rightarrow> False | Some r \<Rightarrow> rn_at r = InTask)"

fun task_do :: "task_cfg \<Rightarrow> task_event \<Rightarrow> task \<Rightarrow> task" where
  "task_do cfg (Run g now e) tk = runner_step cfg now e g tk"
| "task_do cfg (Beat g now) tk = (if in_task g tk then heartbeat now g tk else tk)"
| "task_do cfg (StartTask now) tk = start_task cfg now tk"
| "task_do cfg SignalStop tk = signal_stop tk"
| "task_do cfg JoinTask tk = join_task tk"
| "task_do cfg (Watch now) tk = snd (restart_stalled cfg now tk)"

definition task_after :: "task_cfg \<Rightarrow> task_event list \<Rightarrow> task" where
  "task_after cfg es = fold (task_do cfg) es new_task"

section \<open>The supervisor\<close>

type_synonym supervisor = "(string, task_cfg \<times> task) dict"

definition sup_add :: "string \<Rightarrow> task_cfg \<Rightarrow> supervisor \<Rightarrow> supervisor" where
  "sup_add name cfg reg = AList.update name (cfg, new_task) reg"

definition start_all :: "int \<Rightarrow> supervisor \<Rightarrow> supervisor" where
  "start_all now reg = map (\<lambda>(n, c, tk). (n, c, start_task c now tk)) reg"

definition stop_all :: "supervisor \<Rightarrow> supervisor" where
  "stop_all reg = map (\<lambda>(n, c, tk). (n, c, join_task (signal_stop tk))) (map (\<lambda>(n, c, tk). (n, c, signal_stop tk)) reg)"

fun watchdog_tick :: "int \<Rightarrow> supervisor \<Rightarrow> string list \<times> supervisor" where
  "watchdog_tick now [] = ([], [])"
| "watchdog_tick now ((n, c, tk) # reg) =
     (case (restart_stalled c now tk, watchdog_tick now reg) of
        ((b, tk'), (names, reg')) \<Rightarrow> (if b then n # names else names, (n, c, tk') # reg'))"

definition stalled_tasks :: "int \<Rightarrow> supervisor \<Rightarrow> string list" where
  "stalled_tasks now reg = map fst (filter (\<lambda>(n, c, tk). stalled c now tk) reg)"

definition statuses :: "int \<Rightarrow> supervisor \<Rightarrow> task_status list" where
  "statuses now reg = map (\<lambda>(n, c, tk). status_of c now n tk) reg"

definition sup_healthy :: "int \<Rightarrow> supervisor \<Rightarrow> bool" where
  "sup_healthy now reg = list_all (\<lambda>(n, c, tk). task_healthy c now tk) reg"

text \<open>The tasks of the service: only the frame sweep and the archive task may run beside an abandoned thread of theirs.\<close>

definition build_tasks :: "bool \<Rightarrow> supervisor \<Rightarrow> supervisor" where
  "build_tasks http reg =
     (if reg \<noteq> [] then reg
      else
        (let plain = default_cfg 30000 None False; restarted = default_cfg 30000 None True;
             s = sup_add ''watchdog'' plain (sup_add ''reconcile'' restarted (sup_add ''frames'' restarted (sup_add ''consumer'' plain [])))
         in if http then sup_add ''health-http'' plain s else s))"

section \<open>Threads of a task\<close>

lemma set_runner_fields [simp]:
  "tk_stop (set_runner g r tk) = tk_stop tk" "tk_thread (set_runner g r tk) = tk_thread tk" "tk_active (set_runner g r tk) = tk_active tk"
  "tk_generation (set_runner g r tk) = tk_generation tk" "tk_runners (set_runner g r tk) = (tk_runners tk)(g \<mapsto> r)"
  "tk_started_at (set_runner g r tk) = tk_started_at tk" "tk_round_started (set_runner g r tk) = tk_round_started tk"
  "tk_last_heartbeat (set_runner g r tk) = tk_last_heartbeat tk" "tk_last_progress (set_runner g r tk) = tk_last_progress tk"
  "tk_restarts (set_runner g r tk) = tk_restarts tk" "tk_failures (set_runner g r tk) = tk_failures tk" "tk_abandoned (set_runner g r tk) = tk_abandoned tk"
  "tk_last_error (set_runner g r tk) = tk_last_error tk" "tk_join_failed (set_runner g r tk) = tk_join_failed tk"
  "tk_finished (set_runner g r tk) = tk_finished tk" "tk_backoffs (set_runner g r tk) = tk_backoffs tk"
  by (simp_all add: set_runner_def)

lemma note_error_fields [simp]:
  "tk_stop (note_error g s tk) = tk_stop tk" "tk_thread (note_error g s tk) = tk_thread tk" "tk_active (note_error g s tk) = tk_active tk"
  "tk_generation (note_error g s tk) = tk_generation tk" "tk_runners (note_error g s tk) = tk_runners tk" "tk_failures (note_error g s tk) = tk_failures tk"
  "tk_backoffs (note_error g s tk) = tk_backoffs tk"
  by (simp_all add: note_error_def)

lemma mark_alive_fields [simp]:
  "tk_stop (mark_alive now g tk) = tk_stop tk" "tk_thread (mark_alive now g tk) = tk_thread tk" "tk_active (mark_alive now g tk) = tk_active tk"
  "tk_generation (mark_alive now g tk) = tk_generation tk" "tk_runners (mark_alive now g tk) = tk_runners tk" "tk_failures (mark_alive now g tk) = tk_failures tk"
  "tk_backoffs (mark_alive now g tk) = tk_backoffs tk"
  by (simp_all add: mark_alive_def)

lemma heartbeat_fields [simp]:
  "tk_stop (heartbeat now g tk) = tk_stop tk" "tk_thread (heartbeat now g tk) = tk_thread tk" "tk_active (heartbeat now g tk) = tk_active tk"
  "tk_generation (heartbeat now g tk) = tk_generation tk" "tk_runners (heartbeat now g tk) = tk_runners tk" "tk_failures (heartbeat now g tk) = tk_failures tk"
  "tk_backoffs (heartbeat now g tk) = tk_backoffs tk"
  by (simp_all add: heartbeat_def)

lemma signal_stop_fields [simp]:
  "tk_thread (signal_stop tk) = tk_thread tk" "tk_active (signal_stop tk) = tk_active tk" "tk_generation (signal_stop tk) = tk_generation tk"
  "tk_runners (signal_stop tk) = tk_runners tk" "tk_failures (signal_stop tk) = tk_failures tk" "tk_backoffs (signal_stop tk) = tk_backoffs tk"
  by (simp_all add: signal_stop_def)

lemma join_task_fields [simp]:
  "tk_stop (join_task tk) = tk_stop tk" "tk_thread (join_task tk) = tk_thread tk" "tk_active (join_task tk) = tk_active tk"
  "tk_generation (join_task tk) = tk_generation tk" "tk_runners (join_task tk) = tk_runners tk" "tk_failures (join_task tk) = tk_failures tk"
  "tk_backoffs (join_task tk) = tk_backoffs tk"
  by (simp_all add: join_task_def)

lemma spawn_fields [simp]:
  "tk_thread (spawn cfg tk) = Some (tk_generation tk + 1)" "tk_active (spawn cfg tk) = Some (tk_generation tk + 1)"
  "tk_generation (spawn cfg tk) = tk_generation tk + 1"
  "tk_runners (spawn cfg tk) = (tk_runners tk)(tk_generation tk + 1 \<mapsto> \<lparr>rn_at = LoopHead, rn_backoff = tc_backoff_initial cfg, rn_round = 0, rn_calls = 0\<rparr>)"
  "tk_failures (spawn cfg tk) = tk_failures tk" "tk_backoffs (spawn cfg tk) = tk_backoffs tk" "tk_stop (spawn cfg tk) = tk_stop tk"
  by (simp_all add: spawn_def Let_def)

text \<open>A runner touches its own entry among the threads and no generation.\<close>

lemma runner_step_threads [simp]:
  "tk_thread (runner_step cfg now e g tk) = tk_thread tk" "tk_active (runner_step cfg now e g tk) = tk_active tk"
  "tk_generation (runner_step cfg now e g tk) = tk_generation tk" "h \<noteq> g \<Longrightarrow> tk_runners (runner_step cfg now e g tk) h = tk_runners tk h"
  "tk_runners (runner_step cfg now e g tk) h = None \<longleftrightarrow> tk_runners tk h = None" "tk_stop (runner_step cfg now e g tk) = tk_stop tk"
  by (auto simp: runner_step_def Let_def split: option.splits runner_at.splits ending.splits)

text \<open>How the point of a runner moves: once out it stays out.\<close>

lemma runner_step_exited: "tk_runners tk g = Some r \<Longrightarrow> rn_at r = Exited \<Longrightarrow> runner_step cfg now e g tk = tk"
  by (simp add: runner_step_def)

text \<open>The current generation owns the thread and is the newest one.\<close>

definition task_ok :: "task \<Rightarrow> bool" where
  "task_ok tk \<longleftrightarrow> tk_thread tk = (if tk_generation tk = 0 then None else Some (tk_generation tk)) \<and> tk_active tk = tk_thread tk \<and>
     (\<forall>g. tk_runners tk g \<noteq> None \<longleftrightarrow> 1 \<le> g \<and> g \<le> tk_generation tk)"

lemma task_okD:
  assumes "task_ok tk" shows "tk_active tk = tk_thread tk" "tk_thread tk = (if tk_generation tk = 0 then None else Some (tk_generation tk))"
    "tk_runners tk g \<noteq> None \<longleftrightarrow> 1 \<le> g \<and> g \<le> tk_generation tk"
  using assms by (simp_all add: task_ok_def)

lemma task_ok_new: "task_ok new_task"
  by (simp add: task_ok_def new_task_def)

lemma task_ok_spawn: "task_ok tk \<Longrightarrow> task_ok (spawn cfg tk)"
  by (auto simp: task_ok_def)

lemma task_ok_threads:
  assumes "task_ok tk" "tk_thread tk' = tk_thread tk" "tk_active tk' = tk_active tk" "tk_generation tk' = tk_generation tk"
    "\<And>g. tk_runners tk' g = None \<longleftrightarrow> tk_runners tk g = None"
  shows "task_ok tk'"
  using assms(1) unfolding task_ok_def assms(2-4) assms(5) .

lemma task_ok_do: "task_ok tk \<Longrightarrow> task_ok (task_do cfg ev tk)"
proof (cases ev)
  case (StartTask now)
  then show "task_ok tk \<Longrightarrow> ?thesis" by (auto simp: start_task_def intro!: task_ok_spawn) (auto simp: task_ok_def)
next
  case (Watch now)
  then show "task_ok tk \<Longrightarrow> ?thesis" by (auto simp: restart_stalled_def intro!: task_ok_spawn) (auto simp: task_ok_def)
qed (auto intro: task_ok_threads)

lemma task_ok_fold: "task_ok tk \<Longrightarrow> task_ok (fold (task_do cfg) es tk)"
  by (induction es arbitrary: tk) (simp_all add: task_ok_do)

lemma task_ok_after: "task_ok (task_after cfg es)"
  by (simp add: task_after_def task_ok_fold task_ok_new)

lemma alive_iff: "task_ok tk \<Longrightarrow> alive tk \<longleftrightarrow> (\<exists>r. tk_runners tk (tk_generation tk) = Some r \<and> rn_at r \<noteq> Exited)"
  using task_okD(3) [of tk 0] by (auto simp: alive_def task_okD split: option.splits)

section \<open>One thread where the task must not be duplicated\<close>

definition single :: "task \<Rightarrow> bool" where
  "single tk \<longleftrightarrow> (\<forall>g r. tk_runners tk g = Some r \<and> rn_at r \<noteq> Exited \<longrightarrow> g = tk_generation tk)"

lemma single_run: "single tk \<Longrightarrow> single (runner_step cfg now e g tk)"
  unfolding single_def
proof (intro allI impI, elim conjE)
  fix h r
  assume s: "\<forall>g r. tk_runners tk g = Some r \<and> rn_at r \<noteq> Exited \<longrightarrow> g = tk_generation tk"
    and r: "tk_runners (runner_step cfg now e g tk) h = Some r" "rn_at r \<noteq> Exited"
  show "h = tk_generation (runner_step cfg now e g tk)"
  proof (cases "h = g")
    case False
    then show ?thesis using s r by simp
  next
    case True
    obtain r0 where "tk_runners tk g = Some r0" using r True runner_step_threads(5) [of cfg now e g tk g] by fastforce
    moreover from this have "rn_at r0 \<noteq> Exited" using r True runner_step_exited by fastforce
    ultimately show ?thesis using s True by simp
  qed
qed

lemma single_do: "\<not> tc_restart_on_stall cfg \<Longrightarrow> task_ok tk \<Longrightarrow> single tk \<Longrightarrow> single (task_do cfg ev tk)"
proof (cases ev)
  case (StartTask now)
  then show "\<not> tc_restart_on_stall cfg \<Longrightarrow> task_ok tk \<Longrightarrow> single tk \<Longrightarrow> ?thesis"
    by (auto simp: start_task_def alive_iff single_def)
qed (auto simp: single_run restart_stalled_def, simp_all add: single_def)

text \<open>
  C25. A task that has not opted in to being respawned never has two threads: whatever the interleaving of its threads, the watchdog, starts and
  stops, two threads that have not ended are the same, so two threads never poll the one Kafka client.
\<close>

theorem single_runner_thread:
  assumes "\<not> tc_restart_on_stall cfg" and "tk_runners (task_after cfg es) g = Some r" and "rn_at r \<noteq> Exited"
    and "tk_runners (task_after cfg es) h = Some q" and "rn_at q \<noteq> Exited"
  shows "g = h"
proof -
  have "task_ok tk \<Longrightarrow> single tk \<Longrightarrow> single (fold (task_do cfg) es tk)" for tk
    using assms(1) by (induction es arbitrary: tk) (simp_all add: task_ok_do single_do)
  from this [OF task_ok_new] have "single (task_after cfg es)" by (simp add: task_after_def single_def new_task_def)
  then show ?thesis using assms(2-) unfolding single_def by metis
qed

definition demo_events :: "task_event list" where
  "demo_events = [StartTask 0, Run 1 1 Returned, Run 1 2 Returned, Run 1 3 Returned, Beat 1 4, Watch 200000, StartTask 200001]"

definition demo_task :: "bool \<Rightarrow> task" where
  "demo_task restart = task_after (default_cfg 30000 None restart) demo_events"

theorem single_runner_thread_witness:
  "\<exists>r. tk_runners (demo_task False) 1 = Some r \<and> rn_at r = InTask \<and> (\<forall>h q. tk_runners (demo_task False) h = Some q \<and> rn_at q \<noteq> Exited \<longrightarrow> h = 1)"
proof -
  have at: "map_option rn_at (tk_runners (demo_task False) 1) = Some InTask" by code_simp
  then obtain r where r: "tk_runners (demo_task False) 1 = Some r" "rn_at r = InTask" by auto
  have "\<not> tc_restart_on_stall (default_cfg 30000 None False)" by (simp add: default_cfg_def)
  from single_runner_thread [OF this, of demo_events, folded demo_task_def] r show ?thesis by fastforce
qed

section \<open>An abandoned thread\<close>

text \<open>The calls a superseded thread may still make: one, if it was already past the check.\<close>

definition calls_left :: "runner \<Rightarrow> nat" where
  "calls_left r = rn_calls r + (if rn_at r \<in> {NewRound, FirstMark} then 1 else 0)"

lemma superseded_run:
  assumes "tk_runners tk g = Some r" "g \<noteq> tk_generation tk"
  shows "\<exists>r'. tk_runners (runner_step cfg now e g tk) g = Some r' \<and> calls_left r' \<le> calls_left r"
  using assms by (auto simp: runner_step_def Let_def calls_left_def split: runner_at.splits ending.splits)

lemma superseded_do:
  assumes "task_ok tk" "tk_runners tk g = Some r" "g \<noteq> tk_generation tk"
  shows "\<exists>r'. tk_runners (task_do cfg ev tk) g = Some r' \<and> calls_left r' \<le> calls_left r \<and> g \<noteq> tk_generation (task_do cfg ev tk)"
proof -
  have g: "g < tk_generation tk" using task_okD(3) [OF assms(1), of g] assms(2,3) by fastforce
  show ?thesis
  proof (cases ev)
    case (Run h now e)
    then show ?thesis using superseded_run [OF assms(2,3)] assms(2,3) by (cases "h = g") auto
  qed (use assms g in \<open>auto simp: start_task_def restart_stalled_def\<close>)
qed

lemma superseded_fold:
  assumes "task_ok tk" "tk_runners tk g = Some r" "g \<noteq> tk_generation tk"
  shows "\<exists>r'. tk_runners (fold (task_do cfg) es tk) g = Some r' \<and> calls_left r' \<le> calls_left r \<and> g \<noteq> tk_generation (fold (task_do cfg) es tk)"
  using assms
proof (induction es arbitrary: tk r)
  case (Cons ev es)
  obtain r1 where r1: "tk_runners (task_do cfg ev tk) g = Some r1" "calls_left r1 \<le> calls_left r" "g \<noteq> tk_generation (task_do cfg ev tk)"
    using superseded_do [OF Cons.prems] by blast
  from Cons.IH [OF task_ok_do [OF Cons.prems(1)] r1(1,3)] r1(2) show ?case by fastforce
qed simp

text \<open>The fields from which the status of a task is computed.\<close>

lemma superseded_fields:
  assumes "g \<noteq> tk_generation tk" "tk_active tk = tk_thread tk" "tk_thread tk \<noteq> Some g"
  shows "tk_join_failed (runner_step cfg now e g tk) = tk_join_failed tk" "tk_finished (runner_step cfg now e g tk) = tk_finished tk"
    "tk_started_at (runner_step cfg now e g tk) = tk_started_at tk" "tk_round_started (runner_step cfg now e g tk) = tk_round_started tk"
    "tk_last_heartbeat (runner_step cfg now e g tk) = tk_last_heartbeat tk" "tk_last_progress (runner_step cfg now e g tk) = tk_last_progress tk"
    "tk_restarts (runner_step cfg now e g tk) = tk_restarts tk" "tk_failures (runner_step cfg now e g tk) = tk_failures tk"
    "tk_last_error (runner_step cfg now e g tk) = tk_last_error tk"
  using assms by (auto simp: runner_step_def Let_def mark_alive_def note_error_def split: option.splits runner_at.splits ending.splits)

lemma superseded_status:
  assumes "task_ok tk" "g \<noteq> tk_generation tk"
  shows "status_of cfg t name (runner_step cfg now e g tk) = status_of cfg t name tk"
proof -
  have th: "tk_active tk = tk_thread tk" "tk_thread tk \<noteq> Some g" using assms task_okD [OF assms(1)] by (auto split: if_splits)
  note f = superseded_fields [OF assms(2) th]
  have "alive (runner_step cfg now e g tk) = alive tk" using th(2) by (auto simp: alive_def split: option.splits)
  moreover have "last_sign (runner_step cfg now e g tk) = last_sign tk" by (simp only: last_sign_def f)
  moreover have "attempt_settled cfg t (runner_step cfg now e g tk) = attempt_settled cfg t tk" by (simp only: attempt_settled_def f)
  ultimately show ?thesis by (simp only: status_of_def task_healthy_def stalled_def f runner_step_threads)
qed

text \<open>
  C26. A thread the watchdog has abandoned is out for good: in every later state it is told to stop, it enters the task function at most
  once more, and nothing it does, a late heartbeat included, changes what is reported about the task.
\<close>

theorem abandoned_thread_is_mute:
  assumes "tk_runners (task_after cfg es) g = Some r" and "g \<noteq> tk_generation (task_after cfg es)"
  shows "stopping g (task_after cfg (es @ later)) \<and>
    (\<exists>r'. tk_runners (task_after cfg (es @ later)) g = Some r' \<and> rn_calls r' \<le> rn_calls r + 1) \<and>
    status_of cfg t name (task_after cfg (es @ later @ [Run g now e])) = status_of cfg t name (task_after cfg (es @ later)) \<and>
    task_after cfg (es @ later @ [Beat g now]) = task_after cfg (es @ later)"
proof -
  let ?tk = "task_after cfg (es @ later)"
  have ok: "task_ok ?tk" by (rule task_ok_after)
  obtain r' where r': "tk_runners ?tk g = Some r'" "calls_left r' \<le> calls_left r" "g \<noteq> tk_generation ?tk"
    using superseded_fold [OF task_ok_after assms, where es = later and cfg = cfg] by (auto simp: task_after_def)
  have "task_after cfg (es @ later @ [Run g now e]) = runner_step cfg now e g ?tk" "task_after cfg (es @ later @ [Beat g now]) = task_do cfg (Beat g now) ?tk"
    by (simp_all add: task_after_def)
  moreover have "tk_active ?tk \<noteq> Some g" using task_okD(1,2) [OF ok] r'(3) by simp
  moreover have "rn_calls r' \<le> rn_calls r + 1" using r'(2) by (simp add: calls_left_def split: if_splits)
  ultimately show ?thesis using r' superseded_status [OF ok r'(3)] by (simp add: stopping_def heartbeat_def)
qed

theorem abandoned_thread_is_mute_witness:
  "1 \<noteq> tk_generation (demo_task True) \<and> stopping 1 (demo_task True) \<and>
   (\<exists>r. tk_runners (demo_task True) 1 = Some r \<and> rn_at r = InTask)"
proof -
  have "map_option rn_at (tk_runners (demo_task True) 1) = Some InTask" by code_simp
  then obtain r where r: "tk_runners (demo_task True) 1 = Some r" "rn_at r = InTask" by auto
  have "tk_generation (demo_task True) = 2" by code_simp
  then have g: "1 \<noteq> tk_generation (demo_task True)" by simp
  from abandoned_thread_is_mute [of "default_cfg 30000 None True" demo_events 1 r "[]", folded demo_task_def] r g
  show ?thesis by (simp add: demo_task_def)
qed

section \<open>Health is the history of the attempts\<close>

text \<open>The attempts of the current threads that ended, newest first: did each last long enough to count as settled. A start forgets them.\<close>

definition ends_attempt :: "nat \<Rightarrow> task \<Rightarrow> runner option" where
  "ends_attempt g tk =
     (case tk_runners tk g of None \<Rightarrow> None | Some r \<Rightarrow> if rn_at r = AfterTask \<and> \<not> tk_stop tk \<and> g = tk_generation tk then Some r else None)"

definition note_attempt :: "task_cfg \<Rightarrow> task_event \<Rightarrow> task \<times> bool list \<Rightarrow> task \<times> bool list" where
  "note_attempt cfg ev p =
     (task_do cfg ev (fst p),
      (case ev of
         Run g now e \<Rightarrow> (case ends_attempt g (fst p) of None \<Rightarrow> snd p | Some r \<Rightarrow> round_settled cfg now r # snd p)
       | StartTask now \<Rightarrow> (if alive (fst p) then snd p else [])
       | _ \<Rightarrow> snd p))"

definition attempts :: "task_cfg \<Rightarrow> task_event list \<Rightarrow> bool list" where
  "attempts cfg es = snd (fold (note_attempt cfg) es (new_task, []))"

lemma fst_note_attempt: "fst (fold (note_attempt cfg) es p) = fold (task_do cfg) es (fst p)"
  by (induction es arbitrary: p) (simp_all add: note_attempt_def)

lemma attempts_snoc:
  "attempts cfg (es @ [ev]) = snd (note_attempt cfg ev (task_after cfg es, attempts cfg es))"
proof -
  have "fold (note_attempt cfg) es (new_task, []) = (task_after cfg es, attempts cfg es)"
    by (rule prod_eqI) (simp_all add: fst_note_attempt task_after_def attempts_def)
  then show ?thesis by (simp add: attempts_def)
qed

lemma task_after_snoc: "task_after cfg (es @ [ev]) = task_do cfg ev (task_after cfg es)"
  by (simp add: task_after_def)

lemma runner_step_failures:
  "tk_failures (runner_step cfg now e g tk) =
     (case ends_attempt g tk of None \<Rightarrow> tk_failures tk | Some r \<Rightarrow> if round_settled cfg now r then 0 else tk_failures tk + 1)"
proof (cases "tk_runners tk g")
  case (Some r)
  then show ?thesis
    by (cases "rn_at r"; cases e) (simp_all add: runner_step_def ends_attempt_def Let_def)
qed (simp add: runner_step_def ends_attempt_def)

lemma failures_are_attempts: "tk_failures (task_after cfg es) = length (takeWhile Not (attempts cfg es))"
proof (induction es rule: rev_induct)
  case Nil
  then show ?case by (simp add: task_after_def attempts_def new_task_def)
next
  case (snoc ev es)
  show ?case
  proof (cases ev)
    case (Run g now e)
    then show ?thesis using snoc by (simp add: task_after_snoc attempts_snoc note_attempt_def runner_step_failures split: option.splits)
  next
    case (StartTask now)
    then show ?thesis using snoc by (simp add: task_after_snoc attempts_snoc note_attempt_def start_task_def)
  next
    case (Watch now)
    then show ?thesis using snoc by (simp add: task_after_snoc attempts_snoc note_attempt_def restart_stalled_def)
  qed (use snoc in \<open>simp_all add: task_after_snoc attempts_snoc note_attempt_def\<close>)
qed


section \<open>Pauses\<close>

lemma doubling_step: "0 \<le> (m :: int) \<Longrightarrow> min (min (b * 2 ^ n) m * 2) m = min (b * 2 ^ Suc n) m"
  by (auto simp: min_def algebra_simps)

definition pause :: "task_cfg \<Rightarrow> nat \<Rightarrow> int" where
  "pause cfg n = min (tc_backoff_initial cfg * 2 ^ n) (tc_backoff_max cfg)"

text \<open>One thread, and the pause it holds is the one due next; while it sleeps, the one it sleeps for.\<close>

definition pauses_ok :: "task_cfg \<Rightarrow> task \<Rightarrow> bool" where
  "pauses_ok cfg tk \<longleftrightarrow> tk_generation tk = 1 \<and> tk_backoffs tk = map (pause cfg) [0..<length (tk_backoffs tk)] \<and>
     (\<forall>r. tk_runners tk 1 = Some r \<longrightarrow>
        (if rn_at r = Sleeping then tk_backoffs tk \<noteq> [] \<and> rn_backoff r = pause cfg (length (tk_backoffs tk) - 1)
         else rn_at r \<in> {Leaving, Exited} \<or> rn_backoff r = pause cfg (length (tk_backoffs tk))))"

lemma pauses_ok_frame:
  "pauses_ok cfg tk \<Longrightarrow> tk_generation tk' = tk_generation tk \<Longrightarrow> tk_backoffs tk' = tk_backoffs tk \<Longrightarrow> tk_runners tk' = tk_runners tk \<Longrightarrow> pauses_ok cfg tk'"
  unfolding pauses_ok_def by metis

lemma pauses_ok_run:
  assumes "pauses_ok cfg tk" "g = 1" "0 \<le> tc_backoff_max cfg" "\<And>r. ends_attempt g tk = Some r \<Longrightarrow> \<not> round_settled cfg now r"
  shows "pauses_ok cfg (runner_step cfg now e g tk)"
proof (cases "tk_runners tk g")
  case None
  then show ?thesis using assms(1) by (simp add: runner_step_def)
next
  case (Some r)
  have d: "min (pause cfg (n - Suc 0) * 2) (tc_backoff_max cfg) = pause cfg n" if "0 < n" for n
    using that doubling_step [OF assms(3)] by (cases n) (simp_all add: pause_def)
  show ?thesis
  proof (cases "rn_at r")
    case InTask
    then show ?thesis using Some assms(1,2) by (cases e) (simp_all add: runner_step_def pauses_ok_def)
  next
    case AfterTask
    then show ?thesis using Some assms by (simp add: runner_step_def pauses_ok_def ends_attempt_def)
  next
    case Accounted
    then show ?thesis using Some assms(1,2) by (simp add: runner_step_def pauses_ok_def Let_def)
  next
    case Sleeping
    then show ?thesis using Some assms(1,2) d by (simp add: runner_step_def pauses_ok_def)
  qed (use Some assms(1,2) in \<open>simp_all add: runner_step_def pauses_ok_def\<close>)
qed

lemma pauses_ok_do:
  assumes ok: "pauses_ok cfg tk" "task_ok tk" and m: "0 \<le> tc_backoff_max cfg"
    and ev: "\<And>t. ev \<noteq> StartTask t" "\<And>t. ev \<noteq> Watch t" and quick: "True \<notin> set (snd (note_attempt cfg ev (tk, outs)))"
  shows "pauses_ok cfg (task_do cfg ev tk)"
proof (cases ev)
  case (Run g now e)
  show ?thesis
  proof (cases "g = 1")
    case True
    have "\<not> round_settled cfg now r" if "ends_attempt g tk = Some r" for r using quick that Run by (simp add: note_attempt_def)
    from pauses_ok_run [OF ok(1) True m this] show ?thesis by (simp add: Run)
  next
    case False
    then have "tk_runners tk g = None" using task_okD(3) [OF ok(2), of g] ok(1) by (cases "tk_runners tk g") (auto simp: pauses_ok_def)
    then show ?thesis using ok(1) Run by (simp add: runner_step_def)
  qed
qed (use ok(1) ev in \<open>auto intro: pauses_ok_frame\<close>)

lemma attempt_kept: "(\<And>t. ev \<noteq> StartTask t) \<Longrightarrow> set (snd p) \<subseteq> set (snd (note_attempt cfg ev p))"
  by (cases ev) (auto simp: note_attempt_def split: option.splits)

lemma attempts_kept:
  "\<forall>ev \<in> set es. (\<forall>t. ev \<noteq> StartTask t) \<and> (\<forall>t. ev \<noteq> Watch t) \<Longrightarrow> set outs \<subseteq> set (snd (fold (note_attempt cfg) es (tk, outs)))"
proof (induction es arbitrary: tk outs)
  case (Cons ev es)
  obtain tk1 outs1 where n: "note_attempt cfg ev (tk, outs) = (tk1, outs1)" by fastforce
  have "set outs \<subseteq> set outs1" using attempt_kept [of ev "(tk, outs)" cfg] Cons.prems n by simp
  then show ?case using Cons.IH [of outs1 tk1] Cons.prems n by simp
qed simp

lemma pauses_ok_fold:
  assumes "pauses_ok cfg tk" "task_ok tk" "0 \<le> tc_backoff_max cfg" "\<forall>ev \<in> set es. (\<forall>t. ev \<noteq> StartTask t) \<and> (\<forall>t. ev \<noteq> Watch t)"
    "True \<notin> set (snd (fold (note_attempt cfg) es (tk, outs)))"
  shows "pauses_ok cfg (fold (task_do cfg) es tk)"
  using assms
proof (induction es arbitrary: tk outs)
  case (Cons ev es)
  obtain tk1 outs1 where n: "note_attempt cfg ev (tk, outs) = (tk1, outs1)" by fastforce
  have tk1: "tk1 = task_do cfg ev tk" using n by (simp add: note_attempt_def)
  have "True \<notin> set outs1" using Cons.prems(4,5) attempts_kept [of es outs1 cfg tk1] n by auto
  then have "pauses_ok cfg tk1" unfolding tk1 using Cons.prems n by (intro pauses_ok_do [where outs = outs]) auto
  then show ?case using Cons.IH [of tk1 outs1] Cons.prems n task_ok_do tk1 by auto
qed simp


definition crash_round :: "task_event list" where
  "crash_round = [Run 1 1 Returned, Run 1 2 Returned, Run 1 3 Returned, Run 1 4 (Raised ''x''), Run 1 5 Returned, Run 1 6 Returned, Run 1 7 Returned]"


section \<open>The watchdog\<close>

lemma watchdog_tick_entry:
  "(n, c, tk) \<in> set reg \<Longrightarrow> (n, c, snd (restart_stalled c now tk)) \<in> set (snd (watchdog_tick now reg)) \<and>
     (fst (restart_stalled c now tk) \<longrightarrow> n \<in> set (fst (watchdog_tick now reg)))"
  by (induction now reg rule: watchdog_tick.induct) (auto split: prod.splits)

text \<open>After a tick a respawned task has a new thread with a fresh reference point, so it is not stalled.\<close>

lemma respawned_not_stalled:
  assumes "fst (restart_stalled cfg now tk)" "0 \<le> tc_stall_timeout cfg"
  shows "\<not> stalled cfg now (snd (restart_stalled cfg now tk)) \<and> alive (snd (restart_stalled cfg now tk)) \<and>
    tk_generation (snd (restart_stalled cfg now tk)) = tk_generation tk + 1"
  using assms by (auto simp: restart_stalled_def stalled_def last_sign_def alive_def spawn_def Let_def split: if_splits)

end
