(* ===== verification/Kafka_Consumer.thy ===== *)
theory Kafka_Consumer
  imports OR_Prelude "HOL-Library.Word"
begin

text \<open>
  The ingest consumer of the data plane (\<open>apps/dataplane/ingest/consumer.py\<close>): routing of records to handlers, the rule that moves
  the commit points, the flush that gates every commit, and the rewind of blocked partitions. Times are milliseconds of the monotonic
  clock and arguments; the Kafka client enters as the answers it gives.
\<close>

section \<open>Topics and records\<close>

definition logical_topics :: "string list" where
  "logical_topics = [''run_status'', ''kpi'', ''kpi_breakdown'', ''trip_geo'', ''facility_stream'', ''perf'']"

text \<open>The broker names of the logical topics, as \<open>apps/config.py\<close> sets them.\<close>

definition logical_to_topic :: "(string, string) dict" where
  "logical_to_topic =
     [(''run_status'', ''run_status''), (''kpi'', ''kpi_stream''), (''kpi_breakdown'', ''kpi_breakdown_stream''),
      (''trip_geo'', ''trip_geo_stream''), (''facility_stream'', ''facility_stream''), (''perf'', ''perf_stream'')]"

definition topic_to_logical :: "(string, string) dict" where
  "topic_to_logical = map (\<lambda>(l, b). (b, l)) logical_to_topic"

type_synonym partition_key = "string \<times> int"
type_synonym bytes = "8 word list"

datatype msg_error = PartitionEof | BrokerError

datatype msg_key = NoKey | KeyBytes bytes | KeyText string

text \<open>A record as the client reports it; a partition or offset it cannot report is \<open>None\<close>.\<close>

record message =
  ms_error :: "msg_error option"
  ms_topic :: string
  ms_partition :: "int option"
  ms_offset :: "int option"
  ms_key :: msg_key
  ms_value :: bytes

definition coords :: "message \<Rightarrow> (partition_key \<times> int) option" where
  "coords msg = (case (ms_partition msg, ms_offset msg) of (Some p, Some off) \<Rightarrow> Some ((ms_topic msg, p), off) | _ \<Rightarrow> None)"

text \<open>\<open>utf8\<close> decodes bytes, with \<open>None\<close> for malformed ones.\<close>

definition decode_key :: "(bytes \<Rightarrow> string option) \<Rightarrow> msg_key \<Rightarrow> string option" where
  "decode_key utf8 key = (case key of NoKey \<Rightarrow> None | KeyBytes b \<Rightarrow> utf8 b | KeyText s \<Rightarrow> Some s)"

section \<open>Handlers\<close>

text \<open>
  What a handler does with a record: it ends, cleanly or by raising, and on the way it may report a discard, ask for a flush through the consumer
  or ask which topics are blocked. \<open>'e\<close> is the state of the service the handlers write to.
\<close>

datatype 'e handling =
    Finished bool 'e
  | Discard string "'e handling"
  | AskFlush 'e "bool \<Rightarrow> 'e \<Rightarrow> 'e handling"
  | AskBlocked "string set \<Rightarrow> 'e handling"

text \<open>The collaborators of a consumer: decoders, handlers, the deferred write and the topics it serves.\<close>

record 'e wiring =
  wi_utf8 :: "bytes \<Rightarrow> string option"
  wi_loads :: "bytes \<Rightarrow> pyval option"
  wi_handlers :: "string \<Rightarrow> (string \<Rightarrow> (string, pyval) dict \<Rightarrow> 'e \<Rightarrow> 'e handling) option"
  wi_flush :: "('e \<Rightarrow> bool \<times> 'e) option"
  wi_flush_topics :: "string list"
  wi_commit_interval :: int

definition flush_topics :: "'e wiring \<Rightarrow> string set" where
  "flush_topics w = (\<lambda>t. case map_of logical_to_topic t of None \<Rightarrow> t | Some b \<Rightarrow> b) ` set (wi_flush_topics w)"

section \<open>The state of the consumer\<close>

record 'e consumer =
  cs_env :: 'e
  cs_open :: bool
  cs_commit_at :: "(partition_key, int) dict"
  cs_max_seen :: "(partition_key, int) dict"
  cs_committed :: "(partition_key, int) dict"
  cs_commit_moved_at :: "(partition_key, int) dict"
  cs_flush_floor :: "(partition_key, int) dict"
  cs_blocked :: "(partition_key, int) dict"
  cs_last_seek_at :: "(partition_key, int) dict"
  cs_untracked :: nat
  cs_last_commit_at :: int
  cs_last_message_at :: "int option"
  cs_discards :: nat
  cs_last_discard_at :: "int option"
  cs_counts :: "(string, nat) dict"
  cs_by_topic :: "(string, nat) dict"

definition new_consumer :: "'e \<Rightarrow> 'e consumer" where
  "new_consumer e =
     \<lparr>cs_env = e, cs_open = False, cs_commit_at = [], cs_max_seen = [], cs_committed = [], cs_commit_moved_at = [], cs_flush_floor = [],
      cs_blocked = [], cs_last_seek_at = [], cs_untracked = 0, cs_last_commit_at = 0, cs_last_message_at = None, cs_discards = 0,
      cs_last_discard_at = None,
      cs_counts = map (\<lambda>k. (k, 0)) [''messages'', ''handler_errors'', ''decode_errors'', ''kafka_errors'', ''eof'', ''unknown_topic'',
        ''missing_key'', ''empty_value'', ''no_handler'', ''commits'', ''commit_errors''],
      cs_by_topic = map (\<lambda>l. (l, 0)) logical_topics\<rparr>"

definition seek_backoff :: int where "seek_backoff = 5000"
definition poll_batch :: nat where "poll_batch = 200"

definition discard_counts :: "string list" where
  "discard_counts = [''decode_errors'', ''missing_key'', ''empty_value'', ''unknown_topic'', ''no_handler'', ''handler_errors'']"

definition get_or :: "'v \<Rightarrow> ('k, 'v) dict \<Rightarrow> 'k \<Rightarrow> 'v" where
  "get_or d m k = (case map_of m k of None \<Rightarrow> d | Some v \<Rightarrow> v)"

definition bump_count :: "int \<Rightarrow> string \<Rightarrow> bool \<Rightarrow> 'e consumer \<Rightarrow> 'e consumer" where
  "bump_count now name discard st =
     (let st1 = st\<lparr>cs_counts := AList.update name (get_or 0 (cs_counts st) name + 1) (cs_counts st)\<rparr>
      in if discard \<or> name \<in> set discard_counts then st1\<lparr>cs_discards := cs_discards st1 + 1, cs_last_discard_at := Some now\<rparr> else st1)"

definition note_discard :: "int \<Rightarrow> string \<Rightarrow> 'e consumer \<Rightarrow> 'e consumer" where
  "note_discard now reason = bump_count now reason True"

text \<open>Subscribing: the client is kept only when it subscribed, else the exception leaves the state as it was.\<close>

definition ensure_consumer :: "bool \<Rightarrow> 'e consumer \<Rightarrow> bool \<times> 'e consumer" where
  "ensure_consumer subscribes st = (if cs_open st then (True, st) else if subscribes then (True, st\<lparr>cs_open := True\<rparr>) else (False, st))"

definition close_consumer :: "'e consumer \<Rightarrow> 'e consumer" where
  "close_consumer st = st\<lparr>cs_open := False\<rparr>"

section \<open>The offset rule\<close>

definition see_offset :: "partition_key \<Rightarrow> int \<Rightarrow> 'e consumer \<Rightarrow> 'e consumer" where
  "see_offset key offset st =
     (if get_or (-1) (cs_max_seen st) key < offset then st\<lparr>cs_max_seen := AList.update key offset (cs_max_seen st)\<rparr> else st)"

text \<open>The first record of a partition, or one below its commit point, sets the point to its offset.\<close>

definition follow_down :: "int \<Rightarrow> partition_key \<Rightarrow> int \<Rightarrow> 'e consumer \<Rightarrow> 'e consumer" where
  "follow_down now key offset st =
     (if (case map_of (cs_commit_at st) key of None \<Rightarrow> True | Some nxt \<Rightarrow> offset < nxt)
      then st\<lparr>cs_commit_at := AList.update key offset (cs_commit_at st), cs_commit_moved_at := AList.update key now (cs_commit_moved_at st),
              cs_flush_floor := (if offset < get_or (offset + 1) (cs_flush_floor st) key
                                 then AList.update key offset (cs_flush_floor st) else cs_flush_floor st)\<rparr>
      else st)"

definition note_offset :: "int \<Rightarrow> partition_key \<times> int \<Rightarrow> bool \<Rightarrow> 'e consumer \<Rightarrow> 'e consumer" where
  "note_offset now c ok st =
     (case c of (key, offset) \<Rightarrow>
        (let st1 = follow_down now key offset (see_offset key offset st)
         in if ok \<and> (map_of (cs_commit_at st1) key = Some offset \<or> map_of (cs_blocked st1) key = None)
            then st1\<lparr>cs_commit_at := AList.update key (offset + 1) (cs_commit_at st1), cs_commit_moved_at := AList.update key now (cs_commit_moved_at st1),
                     cs_blocked := AList.delete key (cs_blocked st1)\<rparr>
            else if \<not> ok
            then st1\<lparr>cs_blocked := (if map_of (cs_blocked st1) key = None then AList.update key offset (cs_blocked st1) else cs_blocked st1)\<rparr>
            else st1))"

definition safe_offsets :: "'e consumer \<Rightarrow> (partition_key \<times> int) list" where
  "safe_offsets st = sort (filter (\<lambda>(key, nxt). get_or (-1) (cs_committed st) key < nxt) (cs_commit_at st))"

definition blocked_topics :: "'e consumer \<Rightarrow> string set" where
  "blocked_topics st = (\<lambda>(t, p). case map_of topic_to_logical t of None \<Rightarrow> t | Some l \<Rightarrow> l) ` fst ` set (cs_blocked st)"

section \<open>Rewinds\<close>

text \<open>\<open>seeks key offset\<close>: does the client take the seek. The result lists the seeks it took.\<close>

fun seek_back :: "(partition_key \<Rightarrow> int \<Rightarrow> bool) \<Rightarrow> int \<Rightarrow> (partition_key, int) dict \<Rightarrow> 'e consumer \<Rightarrow> (partition_key \<times> int) list \<times> 'e consumer" where
  "seek_back seeks now [] st = ([], st)"
| "seek_back seeks now ((key, point) # rest) st =
     (if now - get_or 0 (cs_last_seek_at st) key < seek_backoff \<or> \<not> seeks key point then seek_back seeks now rest st
      else (case seek_back seeks now rest (bump_count now ''seek_back'' False (st\<lparr>cs_last_seek_at := AList.update key now (cs_last_seek_at st)\<rparr>)) of
              (done, st1) \<Rightarrow> ((key, point) # done, st1)))"

definition rewind_blocked :: "(partition_key \<Rightarrow> int \<Rightarrow> bool) \<Rightarrow> int \<Rightarrow> 'e consumer \<Rightarrow> (partition_key \<times> int) list \<times> 'e consumer" where
  "rewind_blocked seeks now st = (if cs_open st then seek_back seeks now (cs_blocked st) st else ([], st))"

section \<open>The flush\<close>

definition rolls_back :: "'e wiring \<Rightarrow> 'e consumer \<Rightarrow> partition_key \<Rightarrow> int \<Rightarrow> bool" where
  "rolls_back w st key nxt \<longleftrightarrow> get_or nxt (cs_flush_floor st) key < nxt \<and> (flush_topics w = {} \<or> fst key \<in> flush_topics w)"

text \<open>The points a failed flush takes back, and the partitions it blocks.\<close>

definition rolled_back :: "'e wiring \<Rightarrow> 'e consumer \<Rightarrow> 'e consumer" where
  "rolled_back w st =
     st\<lparr>cs_commit_at := map (\<lambda>(key, nxt). (key, if rolls_back w st key nxt then get_or nxt (cs_flush_floor st) key else nxt)) (cs_commit_at st),
        cs_blocked := fold (\<lambda>(key, nxt) blocked.
            if rolls_back w st key nxt \<and> map_of blocked key = None then AList.update key (get_or nxt (cs_flush_floor st) key) blocked else blocked)
          (cs_commit_at st) (cs_blocked st)\<rparr>"

definition flush_writes :: "'e wiring \<Rightarrow> (partition_key \<Rightarrow> int \<Rightarrow> bool) \<Rightarrow> int \<Rightarrow> 'e consumer \<Rightarrow> bool \<times> (partition_key \<times> int) list \<times> 'e consumer" where
  "flush_writes w seeks now st =
     (case wi_flush w of
        None \<Rightarrow> (True, [], st)
      | Some flush \<Rightarrow>
          (case flush (cs_env st) of
             (True, e) \<Rightarrow> (True, [], st\<lparr>cs_env := e, cs_flush_floor := cs_commit_at st\<rparr>)
           | (False, e) \<Rightarrow>
               (case rewind_blocked seeks now (rolled_back w (bump_count now ''handler_errors'' False (st\<lparr>cs_env := e\<rparr>))) of
                  (done, st1) \<Rightarrow> (False, done, st1))))"

section \<open>Messages\<close>

text \<open>
  Running a handler. Beside its outcome the result lists what it did to the client on the way: each flush with its answer and the seeks it made.
\<close>

primrec run_handling :: "'e wiring \<Rightarrow> (partition_key \<Rightarrow> int \<Rightarrow> bool) \<Rightarrow> int \<Rightarrow> 'e handling \<Rightarrow> 'e consumer
    \<Rightarrow> bool \<times> (bool \<times> (partition_key \<times> int) list) list \<times> 'e consumer" where
  "run_handling w seeks now (Finished ok e) = (\<lambda>st. (ok, [], st\<lparr>cs_env := e\<rparr>))"
| "run_handling w seeks now (Discard reason h) = (\<lambda>st. run_handling w seeks now h (note_discard now reason st))"
| "run_handling w seeks now (AskFlush e k) =
     (\<lambda>st. case flush_writes w seeks now (st\<lparr>cs_env := e\<rparr>) of
        (b, done, st1) \<Rightarrow> (case run_handling w seeks now (k b (cs_env st1)) st1 of (ok, fs, st2) \<Rightarrow> (ok, (b, done) # fs, st2)))"
| "run_handling w seeks now (AskBlocked k) = (\<lambda>st. run_handling w seeks now (k (blocked_topics st)) st)"

text \<open>What becomes of a record: it is thrown away for a reason, or a handler has to take it.\<close>

definition classify :: "'e wiring \<Rightarrow> message \<Rightarrow> string + (string \<times> string \<times> (string, pyval) dict \<times> (string \<Rightarrow> (string, pyval) dict \<Rightarrow> 'e \<Rightarrow> 'e handling))" where
  "classify w msg =
     (case map_of topic_to_logical (ms_topic msg) of
        None \<Rightarrow> Inl ''unknown_topic''
      | Some logical \<Rightarrow>
          (case decode_key (wi_utf8 w) (ms_key msg) of
             None \<Rightarrow> Inl ''missing_key''
           | Some run \<Rightarrow>
               if run = [] then Inl ''missing_key''
               else if ms_value msg = [] then Inl ''empty_value''
               else (case wi_loads w (ms_value msg) of
                  Some (PyDict payload) \<Rightarrow>
                    (case wi_handlers w logical of None \<Rightarrow> Inl ''no_handler'' | Some h \<Rightarrow> Inr (logical, run, payload, h))
                | _ \<Rightarrow> Inl ''decode_errors'')))"

text \<open>
  \<open>handle_message\<close>: whether a handler ran cleanly and whether the offset may be passed, with the flushes made while handling.
\<close>

definition route :: "'e wiring \<Rightarrow> (partition_key \<Rightarrow> int \<Rightarrow> bool) \<Rightarrow> int \<Rightarrow> message \<Rightarrow> 'e consumer
    \<Rightarrow> (bool \<times> bool) \<times> (bool \<times> (partition_key \<times> int) list) list \<times> 'e consumer" where
  "route w seeks now msg st =
     (case classify w msg of
        Inl reason \<Rightarrow> ((False, True), [], bump_count now reason False st)
      | Inr (logical, run, payload, h) \<Rightarrow>
          (let st1 = st\<lparr>cs_counts := AList.update ''messages'' (get_or 0 (cs_counts st) ''messages'' + 1) (cs_counts st),
                        cs_by_topic := AList.update logical (get_or 0 (cs_by_topic st) logical + 1) (cs_by_topic st), cs_last_message_at := Some now\<rparr>
           in (case run_handling w seeks now (h run payload (cs_env st1)) st1 of
                 (True, fs, st2) \<Rightarrow> ((True, True), fs, st2)
               | (False, fs, st2) \<Rightarrow> ((False, False), fs, bump_count now ''handler_errors'' False st2))))"

definition handle_message :: "'e wiring \<Rightarrow> (partition_key \<Rightarrow> int \<Rightarrow> bool) \<Rightarrow> int \<Rightarrow> message \<Rightarrow> 'e consumer
    \<Rightarrow> (bool \<times> bool) \<times> (bool \<times> (partition_key \<times> int) list) list \<times> 'e consumer" where
  "handle_message w seeks now msg st =
     (case ms_error msg of
        Some PartitionEof \<Rightarrow> ((False, False), [], bump_count now ''eof'' False st)
      | Some BrokerError \<Rightarrow> ((False, False), [], bump_count now ''kafka_errors'' False st)
      | None \<Rightarrow>
          (case route w seeks now msg st of
             ((ok, committable), fs, st1) \<Rightarrow>
               ((ok, committable), fs,
                (case coords msg of None \<Rightarrow> st1\<lparr>cs_untracked := cs_untracked st1 + 1\<rparr> | Some c \<Rightarrow> note_offset now c committable st1))))"

section \<open>Commits\<close>

datatype commit_call = NoCommit | CommitOffsets "(partition_key \<times> int) list" | CommitBlind

text \<open>\<open>accepts\<close>: does the client take the commit. The result has the call made and the seeks of a failed flush.\<close>

definition commit_safe ::
  "'e wiring \<Rightarrow> (partition_key \<Rightarrow> int \<Rightarrow> bool) \<Rightarrow> bool \<Rightarrow> int \<Rightarrow> bool \<Rightarrow> 'e consumer
   \<Rightarrow> (bool \<times> commit_call) \<times> (bool \<times> (partition_key \<times> int) list) \<times> 'e consumer" where
  "commit_safe w seeks accepts now force st =
     (case flush_writes w seeks now st of
        (False, done, st1) \<Rightarrow> ((False, NoCommit), (False, done), st1)
      | (True, done, st1) \<Rightarrow>
          (if \<not> cs_open st1 \<or> \<not> force \<and> now - cs_last_commit_at st1 < wi_commit_interval w then ((False, NoCommit), (True, done), st1)
           else
             (let offsets = safe_offsets st1; call = (if offsets = [] then CommitBlind else CommitOffsets offsets)
              in if offsets = [] \<and> cs_untracked st1 = 0 then ((False, NoCommit), (True, done), st1)
                 else if \<not> accepts then ((False, call), (True, done), (bump_count now ''commit_errors'' False st1)\<lparr>cs_last_commit_at := now\<rparr>)
                 else ((True, call), (True, done),
                   (bump_count now ''commits'' False
                     (st1\<lparr>cs_committed := fold (\<lambda>(key, off). AList.update key off) offsets (cs_committed st1)\<rparr>))\<lparr>cs_last_commit_at := now, cs_untracked := 0\<rparr>))))"

text \<open>One round of the poll loop, with the records the polls returned before the first empty one.\<close>

definition drain_batch :: "'e wiring \<Rightarrow> (partition_key \<Rightarrow> int \<Rightarrow> bool) \<Rightarrow> int \<Rightarrow> message list \<Rightarrow> 'e consumer \<Rightarrow> 'e consumer" where
  "drain_batch w seeks now msgs st = fold (\<lambda>msg st. snd (snd (handle_message w seeks now msg st))) (take poll_batch msgs) st"

definition poll_round :: "'e wiring \<Rightarrow> (partition_key \<Rightarrow> int \<Rightarrow> bool) \<Rightarrow> bool \<Rightarrow> int \<Rightarrow> message list \<Rightarrow> 'e consumer \<Rightarrow> 'e consumer" where
  "poll_round w seeks accepts now msgs st =
     snd (rewind_blocked seeks now (snd (snd (commit_safe w seeks accepts now False (drain_batch w seeks now msgs st)))))"

section \<open>Figures\<close>

definition commit_lag :: "'e consumer \<Rightarrow> (partition_key \<times> int) list" where
  "commit_lag st = map (\<lambda>(key, seen). (key, seen + 1 - get_or seen (cs_commit_at st) key)) (cs_max_seen st)"

definition commit_stuck :: "int \<Rightarrow> 'e consumer \<Rightarrow> int option" where
  "commit_stuck now st =
     (let ages = map (\<lambda>(key, behind). now - get_or now (cs_commit_moved_at st) key) (filter (\<lambda>(key, behind). 0 < behind) (commit_lag st))
      in if ages = [] then None else Some (max 0 (Max (set ages))))"

end
