(* ===== verification/Broker_Lag.thy ===== *)
theory Broker_Lag
  imports Kafka_Consumer
begin

text \<open>
  The backlog figures of the ingest consumer (\<open>_refresh_broker_lag\<close>, \<open>_poll_bookkeeping\<close> of \<open>apps/dataplane/ingest/consumer.py\<close>): how many records
  the broker holds past the position of each partition, which partitions could not be measured, and for how many refreshes the backlog has
  refused to fall. The watermark lookups of the client are a parameter that may fail per partition.
\<close>

section \<open>The figures\<close>

record lag_state =
  lg_lag :: "(partition_key, int) dict"
  lg_unknown :: nat
  lg_base :: "(partition_key, int) dict"
  lg_at :: int
  lg_floor :: "int option"
  lg_rising :: nat
  lg_msgs :: nat
  lg_assigned :: nat
  lg_assignment_at :: int
  lg_last_assigned :: "partition_key list option"

definition new_lag_state :: lag_state where
  "new_lag_state =
     \<lparr>lg_lag = [], lg_unknown = 0, lg_base = [], lg_at = 0, lg_floor = None, lg_rising = 0, lg_msgs = 0, lg_assigned = 0, lg_assignment_at = 0,
      lg_last_assigned = None\<rparr>"

definition broker_lag_refresh :: int where "broker_lag_refresh = 5000"
definition assignment_refresh :: int where "assignment_refresh = 1000"
definition broker_lag_rise :: int where "broker_lag_rise = 1000"

text \<open>The partitions to measure: the tracked ones and the assigned ones.\<close>

definition lag_keys :: "partition_key list option \<Rightarrow> 'e consumer \<Rightarrow> partition_key list" where
  "lag_keys assigned st = remdups (map fst (cs_commit_at st) @ (case assigned of None \<Rightarrow> [] | Some ks \<Rightarrow> ks))"

definition position_of :: "'e consumer \<Rightarrow> partition_key \<Rightarrow> int option" where
  "position_of st key = (case map_of (cs_committed st) key of Some off \<Rightarrow> Some off | None \<Rightarrow> map_of (cs_commit_at st) key)"

text \<open>One partition: the head of its log if the lookup answers; where no position is known the first head seen stands in for it.\<close>

definition measure_key :: "(partition_key \<Rightarrow> int option) \<Rightarrow> lag_state \<Rightarrow> 'e consumer \<Rightarrow> partition_key
    \<Rightarrow> (partition_key, int) dict \<times> (partition_key, int) dict \<times> nat \<Rightarrow> (partition_key, int) dict \<times> (partition_key, int) dict \<times> nat" where
  "measure_key heads lg st key acc =
     (case acc of (lag, bases, unknown) \<Rightarrow>
        (case heads key of
           None \<Rightarrow> ((case map_of (lg_lag lg) key of None \<Rightarrow> lag | Some n \<Rightarrow> AList.update key n lag), bases, unknown + 1)
         | Some newest \<Rightarrow>
             (case (case position_of st key of Some p \<Rightarrow> Some p | None \<Rightarrow> map_of (lg_base lg) key) of
                Some p \<Rightarrow> (AList.update key (max 0 (newest - p)) lag, bases, unknown)
              | None \<Rightarrow> (AList.update key 0 lag, AList.update key newest bases, unknown))))"

text \<open>The trend: the floor is the lowest total since the backlog last fell, and a refresh far above it counts.\<close>

definition lag_trend :: "int \<Rightarrow> bool \<Rightarrow> int option \<times> nat \<Rightarrow> int option \<times> nat" where
  "lag_trend backlog consuming fr =
     (if backlog \<le> 0 \<or> \<not> consuming then (None, 0)
      else (case fst fr of
              None \<Rightarrow> (Some backlog, 0)
            | Some low \<Rightarrow>
                if backlog < low then (Some backlog, 0)
                else if broker_lag_rise \<le> backlog - low then (Some low, snd fr + 1) else (Some low, 0)))"

definition total_lag :: "(partition_key, int) dict \<Rightarrow> int" where
  "total_lag lag = sum_list (map snd lag)"

definition refresh_broker_lag :: "(partition_key \<Rightarrow> int option) \<Rightarrow> int \<Rightarrow> partition_key list option \<Rightarrow> 'e consumer \<Rightarrow> lag_state \<Rightarrow> lag_state" where
  "refresh_broker_lag heads now assigned st lg =
     (if \<not> cs_open st \<or> now - lg_at lg < broker_lag_refresh then lg
      else
        (case fold (measure_key heads lg st) (lag_keys assigned st) ([], [], 0) of
           (lag, bases, unknown) \<Rightarrow>
             (let msgs = get_or 0 (cs_counts st) ''messages'';
                  fr = lag_trend (total_lag lag) (lg_msgs lg < msgs) (lg_floor lg, lg_rising lg)
              in lg\<lparr>lg_at := now, lg_lag := lag, lg_unknown := unknown, lg_base := fold (\<lambda>(k, v). AList.update k v) bases (lg_base lg),
                    lg_msgs := msgs, lg_floor := fst fr, lg_rising := snd fr\<rparr>)))"

text \<open>The assignment the client reports, \<open>None\<close> when the call fails.\<close>

definition poll_bookkeeping :: "int \<Rightarrow> partition_key list option \<Rightarrow> lag_state \<Rightarrow> lag_state" where
  "poll_bookkeeping now assignment lg =
     (if now - lg_assignment_at lg < assignment_refresh then lg
      else lg\<lparr>lg_assignment_at := now, lg_last_assigned := assignment,
              lg_assigned := (case assignment of None \<Rightarrow> lg_assigned lg | Some ks \<Rightarrow> length ks)\<rparr>)"

section \<open>The trend is the history of the totals\<close>

text \<open>
  The reference: over the refreshes since the backlog was last empty or nothing was read, the floor is the least total, and the streak is the number of last
  refreshes at or above the least total before them by the threshold.
\<close>

fun streak :: "int list \<Rightarrow> nat" where
  "streak [] = 0"
| "streak [t] = 0"
| "streak (t # u # ts) = (if Min (set (u # ts)) + broker_lag_rise \<le> t then Suc (streak (u # ts)) else 0)"

text \<open>The totals of the current episode, newest first.\<close>

definition episode :: "(int \<times> bool) \<Rightarrow> int list \<Rightarrow> int list" where
  "episode tc ts = (if fst tc \<le> 0 \<or> \<not> snd tc then [] else fst tc # ts)"

definition trend_of :: "int list \<Rightarrow> int option \<times> nat" where
  "trend_of ts = (if ts = [] then None else Some (Min (set ts)), streak ts)"

lemma lag_trend_episode: "lag_trend t c (trend_of ts) = trend_of (episode (t, c) ts)"
proof (cases ts)
  case Nil
  then show ?thesis by (simp add: lag_trend_def trend_of_def episode_def)
next
  case (Cons u us)
  define low where "low = Min (set ts)"
  have "trend_of ts = (Some low, streak ts)" using Cons by (simp add: trend_of_def low_def)
  moreover have "streak (t # ts) = (if low + broker_lag_rise \<le> t then Suc (streak ts) else 0)" using Cons by (simp add: low_def)
  moreover have "Min (insert t (set ts)) = min t low" unfolding low_def by (rule Min_insert) (simp_all add: Cons)
  ultimately show ?thesis by (auto simp: lag_trend_def trend_of_def episode_def min_def broker_lag_rise_def)
qed

text \<open>
  The verdict on a growing backlog is the history of the totals: after any sequence of refreshes the floor is the least total of the current
  episode (since the backlog was last empty or a refresh found nothing read), and the streak counts exactly the last refreshes that stood at least a
  thousand records above the least total before them.
\<close>

theorem lag_trend_meaning:
  "fold (\<lambda>(t, c). lag_trend t c) refreshes (None, 0) = trend_of (fold episode refreshes [])"
proof -
  have "fold (\<lambda>(t, c). lag_trend t c) refreshes (trend_of ts) = trend_of (fold episode refreshes ts)" for ts
    by (induction refreshes arbitrary: ts) (auto simp: lag_trend_episode)
  from this [of "[]"] show ?thesis by (simp add: trend_of_def)
qed

text \<open>A partition that cannot be measured is unknown and keeps its last figure; it is never counted as empty.\<close>

lemma measure_key_unknown:
  "heads key = None \<Longrightarrow> map_of (lg_lag lg) key = Some n \<Longrightarrow>
   measure_key heads lg st key (lag, bases, unknown) = (AList.update key n lag, bases, unknown + 1)"
  by (simp add: measure_key_def)

end
