(* ===== verification/Frame_Codec.thy ===== *)
theory Frame_Codec
  imports OR_Prelude "HOL-Library.Word"
begin

text \<open>
  The binary wire contract of position frames (\<open>apps/dataplane/contract/frame.py\<close>): a 24-byte little-endian header and five
  packed arrays. Arrays are typed lists; a 64-bit float is its bit pattern, which the codec copies unread. The JSON
  twin goes through a third-party serializer and is left out.
\<close>

section \<open>State codes\<close>

definition state_names :: "string list" where
  "state_names =
     [''unknown'', ''idle'', ''created'', ''assigned'', ''repositioning_to_pickup'', ''queued_for_pickup'', ''at_pickup_gate'',
      ''loaded_in_transit'', ''queued_for_dropoff'', ''at_dropoff_gate'', ''completed'', ''cancelled'']"

definition state_codes :: "(string, nat) dict" where
  "state_codes = zip state_names [0..<length state_names]"

fun state_code :: "pyval \<Rightarrow> nat" where
  "state_code (PyBool b) = (if b then 1 else 0)"
| "state_code (PyInt i) = (if 0 \<le> i \<and> i < int (length state_names) then nat i else 0)"
| "state_code (PyStr s) = (case map_of state_codes s of None \<Rightarrow> 0 | Some c \<Rightarrow> c)"
| "state_code _ = 0"

definition state_name :: "int \<Rightarrow> string" where
  "state_name code = (if 0 \<le> code \<and> code < int (length state_names) then state_names ! nat code else ''unknown'')"

section \<open>Bytes\<close>

type_synonym byte = "8 word"

fun le_bytes :: "nat \<Rightarrow> nat \<Rightarrow> byte list" where
  "le_bytes 0 n = []"
| "le_bytes (Suc k) n = word_of_nat (n mod 256) # le_bytes k (n div 256)"

fun le_value :: "byte list \<Rightarrow> nat" where
  "le_value [] = 0"
| "le_value (b # bs) = unat b + 256 * le_value bs"

definition pack_array :: "nat \<Rightarrow> 'w::len word list \<Rightarrow> byte list" where
  "pack_array width xs = concat (map (\<lambda>x. le_bytes width (unat x)) xs)"

text \<open>\<open>np.frombuffer(buf, dtype, count, offset)\<close>.\<close>

definition unpack_array :: "nat \<Rightarrow> nat \<Rightarrow> nat \<Rightarrow> byte list \<Rightarrow> 'w::len word list" where
  "unpack_array width n offset buf = map (\<lambda>i. word_of_nat (le_value (take width (drop (offset + width * i) buf)))) [0..<n]"

section \<open>Frames\<close>

datatype frame_error = FrameError | FrameVersionMismatch int int | FrameDecodeError | StructError

definition frame_magic :: "byte list" where "frame_magic = [0x4F, 0x52, 0x44, 0x50]"
definition frame_version :: int where "frame_version = 1"
definition header_size :: nat where "header_size = 24"
definition kind_keyframe :: int where "kind_keyframe = 0"
definition kind_delta :: int where "kind_delta = 1"

record frame =
  fr_frame_idx :: int
  fr_sim_time_ms :: "64 word"
  fr_lng :: "64 word list"
  fr_lat :: "64 word list"
  fr_slot :: "32 word list"
  fr_state :: "8 word list"
  fr_haulier :: "8 word list"
  fr_kind :: int
  fr_version :: int

definition frame_n :: "frame \<Rightarrow> nat" where
  "frame_n f = length (fr_lng f)"

text \<open>The check of \<open>Frame.__post_init__\<close>.\<close>

definition make_frame :: "frame \<Rightarrow> frame_error + frame" where
  "make_frame f =
     (if length (fr_lat f) = frame_n f \<and> length (fr_slot f) = frame_n f \<and> length (fr_state f) = frame_n f \<and>
         length (fr_haulier f) = frame_n f
      then Inr f else Inl FrameError)"

definition fits :: "nat \<Rightarrow> int \<Rightarrow> bool" where
  "fits width i \<longleftrightarrow> 0 \<le> i \<and> i < 256 ^ width"

definition pack_header :: "frame \<Rightarrow> frame_error + byte list" where
  "pack_header f =
     (if fits 2 (fr_version f) \<and> fits 1 (fr_kind f) \<and> fits 4 (fr_frame_idx f) \<and> fits 4 (int (frame_n f))
      then Inr (frame_magic @ le_bytes 2 (nat (fr_version f)) @ le_bytes 1 (nat (fr_kind f)) @ le_bytes 1 0 @
                le_bytes 4 (nat (fr_frame_idx f)) @ le_bytes 4 (frame_n f) @ le_bytes 8 (unat (fr_sim_time_ms f)))
      else Inl StructError)"

definition encode :: "frame \<Rightarrow> frame_error + byte list" where
  "encode f =
     (case pack_header f of
        Inl e \<Rightarrow> Inl e
      | Inr header \<Rightarrow>
          Inr (header @ pack_array 8 (fr_lng f) @ pack_array 8 (fr_lat f) @ pack_array 4 (fr_slot f) @
               pack_array 1 (fr_state f) @ pack_array 1 (fr_haulier f)))"

definition byte_slice :: "nat \<Rightarrow> nat \<Rightarrow> byte list \<Rightarrow> byte list" where
  "byte_slice i k buf = take k (drop i buf)"

definition decode :: "byte list \<Rightarrow> frame_error + frame" where
  "decode buf =
     (if length buf < header_size then Inl FrameDecodeError
      else
        (let version = int (le_value (byte_slice 4 2 buf)); kind = int (le_value (byte_slice 6 1 buf));
             idx = le_value (byte_slice 8 4 buf); n = le_value (byte_slice 12 4 buf); t = le_value (byte_slice 16 8 buf)
         in if byte_slice 0 4 buf \<noteq> frame_magic then Inl FrameDecodeError
            else if version \<noteq> frame_version then Inl (FrameVersionMismatch frame_version version)
            else if kind \<notin> {kind_keyframe, kind_delta} then Inl FrameDecodeError
            else if length buf \<noteq> header_size + 22 * n then Inl FrameDecodeError
            else make_frame
              \<lparr>fr_frame_idx = int idx, fr_sim_time_ms = word_of_nat t,
               fr_lng = unpack_array 8 n header_size buf,
               fr_lat = unpack_array 8 n (header_size + 8 * n) buf,
               fr_slot = unpack_array 4 n (header_size + 16 * n) buf,
               fr_state = unpack_array 1 n (header_size + 20 * n) buf,
               fr_haulier = unpack_array 1 n (header_size + 21 * n) buf,
               fr_kind = kind, fr_version = version\<rparr>))"

section \<open>Lemmas on bytes\<close>

lemma length_le_bytes [simp]: "length (le_bytes k n) = k"
  by (induction k arbitrary: n) simp_all

lemma unat_byte: "unat (word_of_nat (n mod 256) :: byte) = n mod 256"
  by (simp add: unat_of_nat take_bit_nat_def)

lemma le_value_bytes: "le_value (le_bytes k n) = n mod 256 ^ k"
proof (induction k arbitrary: n)
  case (Suc k)
  have "n mod 256 + 256 * (n div 256 mod 256 ^ k) = n mod 256 ^ Suc k"
    by (simp only: power_Suc mod_mult2_eq add.commute)
  then show ?case using Suc by (simp only: le_bytes.simps le_value.simps unat_byte)
qed simp

lemma le_value_less: "le_value bs < 256 ^ length bs"
proof (induction bs)
  case (Cons b bs)
  have "unat b < 256" using unsigned_less [of b] by simp
  then show ?case using Cons by simp
qed simp

lemma le_bytes_value: "length bs = k \<Longrightarrow> le_bytes k (le_value bs) = bs"
proof (induction bs arbitrary: k)
  case (Cons b bs)
  have b: "unat b < 256" using unsigned_less [of b] by simp
  obtain k' where "k = Suc k'" using Cons.prems by (cases k) auto
  then show ?case using Cons b by simp
qed simp

lemma le_value_unat: "256 ^ k = (2 :: nat) ^ LENGTH('w::len) \<Longrightarrow> le_value (le_bytes k (unat (x :: 'w word))) = unat x"
  using unsigned_less [of x] by (simp add: le_value_bytes)

lemma length_pack_array [simp]: "length (pack_array width xs) = width * length xs"
  by (induction xs) (simp_all add: pack_array_def)

lemma pack_array_Cons: "pack_array width (x # xs) = le_bytes width (unat x) @ pack_array width xs"
  by (simp add: pack_array_def)

lemma take_drop_pack:
  "i < length xs \<Longrightarrow> take width (drop (width * i) (pack_array width xs @ rest)) = le_bytes width (unat (xs ! i))"
proof (induction xs arbitrary: i)
  case (Cons x xs)
  then show ?case by (cases i) (simp_all add: pack_array_Cons)
qed simp

lemma unpack_pack:
  assumes "256 ^ width = (2 :: nat) ^ LENGTH('w::len)" and "length pre = off"
  shows "unpack_array width (length xs) off (pre @ pack_array width xs @ rest) = (xs :: 'w word list)"
proof (rule nth_equalityI)
  fix i assume "i < length (unpack_array width (length xs) off (pre @ pack_array width xs @ rest) :: 'w word list)"
  then have i: "i < length xs" by (simp add: unpack_array_def)
  have "take width (drop (off + width * i) (pre @ pack_array width xs @ rest)) = le_bytes width (unat (xs ! i))"
    using take_drop_pack [OF i, of width rest] assms(2) by (simp flip: drop_drop)
  then show "(unpack_array width (length xs) off (pre @ pack_array width xs @ rest) :: 'w word list) ! i = xs ! i"
    using i le_value_unat [OF assms(1), of "xs ! i"] by (simp add: unpack_array_def)
qed (simp add: unpack_array_def)

lemma length_unpack_array [simp]: "length (unpack_array width n off buf) = n"
  by (simp add: unpack_array_def)

lemma byte_slice_append: "byte_slice i k buf @ byte_slice (i + k) l buf = byte_slice i (k + l) buf"
  by (simp add: byte_slice_def take_add add.commute)

lemma byte_slice_join: "j = i + k \<Longrightarrow> m = k + l \<Longrightarrow> byte_slice i k buf @ byte_slice j l buf = byte_slice i m buf"
  by (simp only: byte_slice_append)

lemma pack_unpack:
  assumes "256 ^ width = (2 :: nat) ^ LENGTH('w::len)" and "off + width * n \<le> length buf"
  shows "pack_array width (unpack_array width n off buf :: 'w word list) = byte_slice off (width * n) buf"
  using assms(2)
proof (induction n)
  case (Suc n)
  let ?x = "take width (drop (off + width * n) buf)"
  have l: "length ?x = width" using Suc.prems by simp
  have "le_value ?x < 2 ^ LENGTH('w)" using le_value_less [of ?x] l assms(1) by simp
  then have "unat (word_of_nat (le_value ?x) :: 'w word) = le_value ?x" by (simp add: unat_of_nat take_bit_nat_def)
  then have "pack_array width (unpack_array width (Suc n) off buf :: 'w word list) =
      pack_array width (unpack_array width n off buf :: 'w word list) @ ?x"
    using le_bytes_value [OF l] by (simp add: unpack_array_def pack_array_def)
  then have "pack_array width (unpack_array width (Suc n) off buf :: 'w word list) =
      byte_slice off (width * n) buf @ byte_slice (off + width * n) width buf"
    using Suc by (simp add: byte_slice_def)
  also have "\<dots> = byte_slice off (width * n + width) buf" by (rule byte_slice_append)
  finally show ?case by (simp only: mult_Suc_right add.commute [of width])
qed (simp add: unpack_array_def pack_array_def byte_slice_def)

lemma array_parts:
  assumes "length h = 24" and "length lat = n" "length slt = n" "length st = n" "length hl = n" "length lng = n"
  defines "buf \<equiv> h @ pack_array 8 lng @ pack_array 8 lat @ pack_array 4 slt @ pack_array 1 st @ pack_array 1 hl"
  shows "unpack_array 8 n 24 buf = (lng :: 64 word list)" "unpack_array 8 n (24 + 8 * n) buf = (lat :: 64 word list)"
    "unpack_array 4 n (24 + 16 * n) buf = (slt :: 32 word list)" "unpack_array 1 n (24 + 20 * n) buf = (st :: 8 word list)"
    "unpack_array 1 n (24 + 21 * n) buf = (hl :: 8 word list)" "length buf = 24 + 22 * n"
proof -
  note up = unpack_pack [where 'w = 64, of 8] unpack_pack [where 'w = 32, of 4] unpack_pack [where 'w = 8, of 1]
  show "unpack_array 8 n 24 buf = lng"
    using up(1) [of h 24 lng "pack_array 8 lat @ pack_array 4 slt @ pack_array 1 st @ pack_array 1 hl"] assms by simp
  show "unpack_array 8 n (24 + 8 * n) buf = lat"
    using up(1) [of "h @ pack_array 8 lng" "24 + 8 * n" lat "pack_array 4 slt @ pack_array 1 st @ pack_array 1 hl"] assms by simp
  show "unpack_array 4 n (24 + 16 * n) buf = slt"
    using up(2) [of "h @ pack_array 8 lng @ pack_array 8 lat" "24 + 16 * n" slt "pack_array 1 st @ pack_array 1 hl"] assms by simp
  show "unpack_array 1 n (24 + 20 * n) buf = st"
    using up(3) [of "h @ pack_array 8 lng @ pack_array 8 lat @ pack_array 4 slt" "24 + 20 * n" st "pack_array 1 hl"] assms by simp
  show "unpack_array 1 n (24 + 21 * n) buf = hl"
    using up(3) [of "h @ pack_array 8 lng @ pack_array 8 lat @ pack_array 4 slt @ pack_array 1 st" "24 + 21 * n" hl "[]"] assms by simp
  show "length buf = 24 + 22 * n" using assms by simp
qed

text \<open>A frame the codec accepts.\<close>

definition frame_ok :: "frame \<Rightarrow> bool" where
  "frame_ok f \<longleftrightarrow> make_frame f = Inr f \<and> fr_version f = frame_version \<and> fr_kind f \<in> {kind_keyframe, kind_delta} \<and>
     fits 4 (fr_frame_idx f) \<and> fits 4 (int (frame_n f))"

lemma header_slices:
  fixes v k i n t :: nat
  defines "h \<equiv> frame_magic @ le_bytes 2 v @ le_bytes 1 k @ le_bytes 1 0 @ le_bytes 4 i @ le_bytes 4 n @ le_bytes 8 t"
  shows "byte_slice 0 4 (h @ rest) = frame_magic" "byte_slice 4 2 (h @ rest) = le_bytes 2 v" "byte_slice 6 1 (h @ rest) = le_bytes 1 k"
    "byte_slice 8 4 (h @ rest) = le_bytes 4 i" "byte_slice 12 4 (h @ rest) = le_bytes 4 n" "byte_slice 16 8 (h @ rest) = le_bytes 8 t" "length h = 24"
  by (simp_all add: h_def byte_slice_def frame_magic_def del: le_bytes.simps)

lemma fits_mod: "fits k i \<Longrightarrow> nat i mod 256 ^ k = nat i"
  by (auto simp: fits_def nat_less_iff intro!: mod_less)

lemma encode_parts:
  assumes "encode f = Inr buf"
  obtains "fits 2 (fr_version f)" "fits 1 (fr_kind f)" "fits 4 (fr_frame_idx f)" "fits 4 (int (frame_n f))"
    "buf = (frame_magic @ le_bytes 2 (nat (fr_version f)) @ le_bytes 1 (nat (fr_kind f)) @ le_bytes 1 0 @
       le_bytes 4 (nat (fr_frame_idx f)) @ le_bytes 4 (frame_n f) @ le_bytes 8 (unat (fr_sim_time_ms f))) @
       pack_array 8 (fr_lng f) @ pack_array 8 (fr_lat f) @ pack_array 4 (fr_slot f) @ pack_array 1 (fr_state f) @ pack_array 1 (fr_haulier f)"
  using assms by (auto simp: encode_def pack_header_def split: if_splits)

lemma le_bytes_zero: "le_bytes 1 0 = [0]"
  by (simp add: One_nat_def)

lemma header_of_slices:
  assumes "24 \<le> length buf"
  shows "(byte_slice 0 4 buf @ byte_slice 4 2 buf @ byte_slice 6 1 buf @ [0] @ byte_slice 8 4 buf @ byte_slice 12 4 buf @ byte_slice 16 8 buf) @
    drop 24 buf = buf[7 := 0]"
proof -
  have "byte_slice 0 4 buf @ byte_slice 4 2 buf @ byte_slice 6 1 buf = byte_slice 0 7 buf"
    by (simp only: byte_slice_join [of 4 0 4 6 2] byte_slice_join [of 6 0 6 7 1] flip: append_assoc)
  moreover have "byte_slice 8 4 buf @ byte_slice 12 4 buf @ byte_slice 16 8 buf = byte_slice 8 16 buf"
    using byte_slice_append [of 8 4 buf 4] byte_slice_append [of 8 8 buf 8] by (simp flip: append_assoc)
  moreover have "byte_slice 8 16 buf @ drop 24 buf = drop 8 buf"
    using append_take_drop_id [of 16 "drop 8 buf"] by (simp add: byte_slice_def)
  moreover have "byte_slice 0 7 buf @ 0 # drop 8 buf = buf[7 := 0]"
    using assms by (simp add: upd_conv_take_nth_drop byte_slice_def)
  ultimately show ?thesis by (metis append.assoc append_Cons append_Nil)
qed

lemma body_of_slices:
  assumes "length buf = 24 + 22 * n"
  shows "pack_array 8 (unpack_array 8 n 24 buf :: 64 word list) @ pack_array 8 (unpack_array 8 n (24 + 8 * n) buf :: 64 word list) @
    pack_array 4 (unpack_array 4 n (24 + 16 * n) buf :: 32 word list) @ pack_array 1 (unpack_array 1 n (24 + 20 * n) buf :: 8 word list) @
    pack_array 1 (unpack_array 1 n (24 + 21 * n) buf :: 8 word list) = drop 24 buf"
proof -
  have "byte_slice (24 + 20 * n) n buf @ byte_slice (24 + 21 * n) n buf = byte_slice (24 + 20 * n) (2 * n) buf"
    by (rule byte_slice_join) simp_all
  moreover have "byte_slice (24 + 16 * n) (4 * n) buf @ byte_slice (24 + 20 * n) (2 * n) buf = byte_slice (24 + 16 * n) (6 * n) buf"
    by (rule byte_slice_join) simp_all
  moreover have "byte_slice (24 + 8 * n) (8 * n) buf @ byte_slice (24 + 16 * n) (6 * n) buf = byte_slice (24 + 8 * n) (14 * n) buf"
    by (rule byte_slice_join) simp_all
  moreover have "byte_slice 24 (8 * n) buf @ byte_slice (24 + 8 * n) (14 * n) buf = byte_slice 24 (22 * n) buf"
    by (rule byte_slice_join) simp_all
  moreover have "byte_slice 24 (22 * n) buf = drop 24 buf" using assms by (simp add: byte_slice_def)
  ultimately show ?thesis using assms by (simp add: pack_unpack)
qed

section \<open>Properties\<close>

text \<open>
  C37. The binary codec loses nothing: encoding a frame of the current version and of a known kind gives a
  buffer of 24 bytes and 22 per truck, and decoding it gives the frame back, bit for bit; a frame that is well formed encodes.
\<close>

theorem frame_round_trip:
  assumes "frame_ok f"
  shows "\<exists>buf. encode f = Inr buf \<and> length buf = 24 + 22 * frame_n f \<and> decode buf = Inr f"
proof -
  have v: "fr_version f = 1" and k: "fr_kind f \<in> {0, 1}" and i: "fits 4 (fr_frame_idx f)" and n: "fits 4 (int (frame_n f))"
    and len: "length (fr_lat f) = frame_n f" "length (fr_slot f) = frame_n f" "length (fr_state f) = frame_n f" "length (fr_haulier f) = frame_n f"
    using assms by (auto simp: frame_ok_def frame_version_def kind_keyframe_def kind_delta_def make_frame_def split: if_splits)
  have small: "fits 2 (fr_version f)" "fits 1 (fr_kind f)" using v k by (auto simp: fits_def)
  let ?h = "frame_magic @ le_bytes 2 (nat (fr_version f)) @ le_bytes 1 (nat (fr_kind f)) @ le_bytes 1 0 @
      le_bytes 4 (nat (fr_frame_idx f)) @ le_bytes 4 (frame_n f) @ le_bytes 8 (unat (fr_sim_time_ms f))"
  let ?body = "pack_array 8 (fr_lng f) @ pack_array 8 (fr_lat f) @ pack_array 4 (fr_slot f) @ pack_array 1 (fr_state f) @ pack_array 1 (fr_haulier f)"
  have enc: "encode f = Inr (?h @ ?body)" using small i n by (simp add: encode_def pack_header_def del: le_bytes.simps)
  note arrays = array_parts [OF header_slices(7) len frame_n_def [symmetric]]
  have t: "le_value (le_bytes 8 (unat (fr_sim_time_ms f))) = unat (fr_sim_time_ms f)" by (rule le_value_unat) simp
  have vals: "le_value (le_bytes 2 (nat (fr_version f))) = nat (fr_version f)" "le_value (le_bytes 1 (nat (fr_kind f))) = nat (fr_kind f)"
    "le_value (le_bytes 4 (nat (fr_frame_idx f))) = nat (fr_frame_idx f)" "le_value (le_bytes 4 (frame_n f)) = frame_n f"
    using fits_mod [OF small(1)] fits_mod [OF small(2)] fits_mod [OF i] fits_mod [OF n] by (simp_all only: le_value_bytes nat_int)
  have signs: "int (nat (fr_version f)) = fr_version f" "int (nat (fr_kind f)) = fr_kind f" "int (nat (fr_frame_idx f)) = fr_frame_idx f"
    using small i by (simp_all add: fits_def)
  have "make_frame f = Inr f" using assms by (simp add: frame_ok_def)
  then have "decode (?h @ ?body) = Inr f"
    unfolding decode_def header_slices vals t header_size_def arrays Let_def signs
    using v k by (cases f) (simp add: frame_version_def kind_keyframe_def kind_delta_def del: le_bytes.simps)
  then show ?thesis using enc arrays(6) by blast
qed

theorem frame_round_trip_witness:
  "encode \<lparr>fr_frame_idx = 258, fr_sim_time_ms = 7, fr_lng = [5], fr_lat = [6], fr_slot = [0], fr_state = [2], fr_haulier = [1],
     fr_kind = kind_keyframe, fr_version = frame_version\<rparr> =
   Inr [0x4F, 0x52, 0x44, 0x50, 1, 0, 0, 0, 2, 1, 0, 0, 1, 0, 0, 0, 7, 0, 0, 0, 0, 0, 0, 0, 5, 0, 0, 0, 0, 0, 0, 0, 6, 0, 0, 0, 0, 0, 0, 0,
     0, 0, 0, 0, 2, 1]" (is "encode ?f = Inr ?b")
proof -
  have "frame_ok ?f" by code_simp
  moreover have "encode ?f = Inr ?b" by code_simp
  ultimately show ?thesis using frame_round_trip [of ?f] by blast
qed

text \<open>
  C38. Decoding accepts nothing else: a buffer that decodes has the length its header announces and yields a well-formed frame of
  the current version, and encoding that frame gives the buffer back, up to the reserved byte, which
  is written as zero.
\<close>

theorem decode_well_formed:
  assumes "decode buf = Inr f"
  shows "frame_ok f \<and> length buf = 24 + 22 * frame_n f \<and> encode f = Inr (buf[7 := 0])"
proof -
  let ?n = "le_value (byte_slice 12 4 buf)"
  have len: "length buf = 24 + 22 * ?n" and magic: "byte_slice 0 4 buf = frame_magic"
    and v: "int (le_value (byte_slice 4 2 buf)) = 1" and k: "int (le_value (byte_slice 6 1 buf)) \<in> {0, 1}"
    and f: "f = \<lparr>fr_frame_idx = int (le_value (byte_slice 8 4 buf)), fr_sim_time_ms = word_of_nat (le_value (byte_slice 16 8 buf)),
               fr_lng = unpack_array 8 ?n 24 buf, fr_lat = unpack_array 8 ?n (24 + 8 * ?n) buf,
               fr_slot = unpack_array 4 ?n (24 + 16 * ?n) buf, fr_state = unpack_array 1 ?n (24 + 20 * ?n) buf,
               fr_haulier = unpack_array 1 ?n (24 + 21 * ?n) buf,
               fr_kind = int (le_value (byte_slice 6 1 buf)), fr_version = int (le_value (byte_slice 4 2 buf))\<rparr>"
    using assms by (auto simp: decode_def Let_def header_size_def frame_version_def kind_keyframe_def kind_delta_def make_frame_def split: if_splits)
  have n: "frame_n f = ?n" by (simp add: f frame_n_def)
  have len24: "24 \<le> length buf" using len by linarith
  have sl: "length (byte_slice i k buf) = k" if "i + k \<le> 24" for i k using that len24 by (simp add: byte_slice_def)
  have lt: "le_value (byte_slice i k buf) < 256 ^ k" if "i + k \<le> 24" for i k using le_value_less [of "byte_slice i k buf"] sl [OF that] by simp
  have fit: "fits 2 (fr_version f)" "fits 1 (fr_kind f)" "fits 4 (fr_frame_idx f)" "fits 4 (int (frame_n f))"
    using lt [of 4 2] lt [of 6 1] lt [of 8 4] lt [of 12 4] unfolding n by (simp_all add: fits_def f)
  have "make_frame f = Inr f" by (simp add: make_frame_def n) (simp add: f)
  then have ok: "frame_ok f" using fit v k by (simp add: frame_ok_def frame_version_def kind_keyframe_def kind_delta_def f)
  have "unat (fr_sim_time_ms f) = le_value (byte_slice 16 8 buf)"
    using lt [of 16 8] by (simp add: f unat_of_nat take_bit_nat_def)
  then have words: "le_bytes 2 (nat (fr_version f)) = byte_slice 4 2 buf" "le_bytes 1 (nat (fr_kind f)) = byte_slice 6 1 buf"
    "le_bytes 4 (nat (fr_frame_idx f)) = byte_slice 8 4 buf" "le_bytes 4 (frame_n f) = byte_slice 12 4 buf"
    "le_bytes 8 (unat (fr_sim_time_ms f)) = byte_slice 16 8 buf"
    unfolding n by (simp_all add: f le_bytes_value sl del: le_bytes.simps)
  have body: "pack_array 8 (fr_lng f) @ pack_array 8 (fr_lat f) @ pack_array 4 (fr_slot f) @ pack_array 1 (fr_state f) @
      pack_array 1 (fr_haulier f) = drop 24 buf"
    unfolding f frame.simps by (rule body_of_slices [OF len])
  have "encode f = Inr ((byte_slice 0 4 buf @ byte_slice 4 2 buf @ byte_slice 6 1 buf @ [0] @ byte_slice 8 4 buf @
      byte_slice 12 4 buf @ byte_slice 16 8 buf) @ drop 24 buf)"
    using fit unfolding encode_def pack_header_def words body magic by (simp add: le_bytes_zero)
  then have "encode f = Inr (buf[7 := 0])" by (simp only: header_of_slices [OF len24])
  then show ?thesis using ok len n by simp
qed

theorem decode_well_formed_witness:
  "\<exists>f. decode [0x4F, 0x52, 0x44, 0x50, 1, 0, 1, 9, 2, 1, 0, 0, 0, 0, 0, 0, 7, 0, 0, 0, 0, 0, 0, 0] = Inr f \<and> frame_ok f \<and>
     encode f = Inr [0x4F, 0x52, 0x44, 0x50, 1, 0, 1, 0, 2, 1, 0, 0, 0, 0, 0, 0, 7, 0, 0, 0, 0, 0, 0, 0]" (is "\<exists>f. decode ?b = _ \<and> _ \<and> _")
proof -
  have "decode ?b = Inr \<lparr>fr_frame_idx = 258, fr_sim_time_ms = 7, fr_lng = [], fr_lat = [], fr_slot = [], fr_state = [], fr_haulier = [],
      fr_kind = kind_delta, fr_version = frame_version\<rparr>" by code_simp
  note this decode_well_formed [OF this]
  then show ?thesis by auto
qed

text \<open>The round trip of a state name.\<close>

lemma state_name_code: "s \<in> set state_names \<Longrightarrow> state_name (int (state_code (PyStr s))) = s"
  by (auto simp: state_names_def state_codes_def state_name_def upt_rec)

end
