(* ===== verification/Run_Archive.thy ===== *)
theory Run_Archive
  imports Frame_Codec
begin

text \<open>
  The durable archive of a run (\<open>apps/dataplane/archive/mongo.py\<close>): what a dump copies out of the working set, the summary it leaves, and when a run
  still needs a dump. Documents of different runs have different ids, so the archive is modelled run by run. Every call on the database takes
  the next of a list of answers, so a dump may fail at any call, a batch after any part of it took effect. Stamps are the instants whose ISO
  texts the code compares; that text orders as the instants do.
\<close>

section \<open>Documents\<close>

record frame_doc =
  fd_frame_idx :: int
  fd_sim_time_ms :: "64 word"
  fd_n :: nat
  fd_lng :: "byte list"
  fd_lat :: "byte list"
  fd_slot :: "byte list"
  fd_state :: "byte list"
  fd_haulier :: "byte list"

definition frame_to_doc :: "frame \<Rightarrow> frame_doc" where
  "frame_to_doc f =
     \<lparr>fd_frame_idx = fr_frame_idx f, fd_sim_time_ms = fr_sim_time_ms f, fd_n = frame_n f, fd_lng = pack_array 8 (fr_lng f),
      fd_lat = pack_array 8 (fr_lat f), fd_slot = pack_array 4 (fr_slot f), fd_state = pack_array 1 (fr_state f), fd_haulier = pack_array 1 (fr_haulier f)\<rparr>"

text \<open>\<open>np.frombuffer\<close> without a count reads the whole buffer.\<close>

definition from_buffer :: "nat \<Rightarrow> byte list \<Rightarrow> 'w::len word list" where
  "from_buffer width buf = unpack_array width (length buf div width) 0 buf"

definition doc_to_frame :: "frame_doc \<Rightarrow> frame" where
  "doc_to_frame d =
     \<lparr>fr_frame_idx = fd_frame_idx d, fr_sim_time_ms = fd_sim_time_ms d, fr_lng = from_buffer 8 (fd_lng d), fr_lat = from_buffer 8 (fd_lat d),
      fr_slot = from_buffer 4 (fd_slot d), fr_state = from_buffer 1 (fd_state d), fr_haulier = from_buffer 1 (fd_haulier d),
      fr_kind = kind_keyframe, fr_version = frame_version\<rparr>"

text \<open>The ids of metric and breakdown documents. Clocks and scopes hold no bar.\<close>

definition kpi_id :: "string \<Rightarrow> string \<times> string \<Rightarrow> string" where
  "kpi_id run k = (case k of (metric, clock) \<Rightarrow> run @ ''|'' @ metric @ ''|'' @ clock)"

definition breakdown_id :: "string \<Rightarrow> string \<times> string \<times> string \<Rightarrow> string" where
  "breakdown_id run k = (case k of (scope, clock, entity) \<Rightarrow> run @ ''|'' @ scope @ ''|'' @ clock @ ''|'' @ entity)"

section \<open>The working set and the archive of a run\<close>

text \<open>Metric rows have a value, breakdown rows a row \<open>'b\<close>; both carry the stamp of their last write.\<close>

record 'b working_set =
  ws_frames :: "frame list"
  ws_kpi :: "(string \<times> string, pyfloat \<times> nat) dict"
  ws_breakdown :: "(string \<times> string \<times> string, 'b \<times> nat) dict"
  ws_meta :: "(string, pyval) dict option"
  ws_export :: "pyval option"

text \<open>Which reads of the store raise. The frames may raise after the given number of them.\<close>

record faults =
  fa_frames :: "nat option"
  fa_range :: bool
  fa_kpi_count :: bool
  fa_breakdown_count :: bool
  fa_kpi :: bool
  fa_breakdown :: bool
  fa_kpi_stamp :: bool
  fa_breakdown_stamp :: bool
  fa_meta :: bool
  fa_export :: bool

record summary =
  su_frame_count :: nat
  su_kpi_count :: nat
  su_breakdown_count :: nat
  su_frame_min :: "int option"
  su_frame_max :: "int option"
  su_complete :: bool
  su_reason :: string
  su_read_failed :: bool
  su_meta :: "(string, pyval) dict"
  su_kpi_stamp :: "nat option"
  su_breakdown_stamp :: "nat option"

record 'b run_archive =
  ra_frames :: "(int, frame_doc) dict"
  ra_kpi :: "(string, pyfloat) dict"
  ra_breakdown :: "(string, 'b) dict"
  ra_summary :: "summary option"

definition empty_archive :: "'b run_archive" where
  "empty_archive = \<lparr>ra_frames = [], ra_kpi = [], ra_breakdown = [], ra_summary = None\<rparr>"

section \<open>Calls on the database\<close>

text \<open>A refused batch has still written the documents at the given positions.\<close>

datatype answer = Accepts | Refuses "nat list"

datatype archive_error = Unavailable | Incomplete | StoreRaised

type_synonym ('b, 'a) call = "answer list \<times> 'b run_archive \<Rightarrow> (archive_error + 'a) \<times> answer list \<times> 'b run_archive"

definition done_with :: "'a \<Rightarrow> ('b, 'a) call" where
  "done_with x s = (Inr x, s)"

definition fails_with :: "archive_error \<Rightarrow> ('b, 'a) call" where
  "fails_with e s = (Inl e, s)"

definition and_then :: "('b, 'a) call \<Rightarrow> ('a \<Rightarrow> ('b, 'c) call) \<Rightarrow> ('b, 'c) call" where
  "and_then m k s = (case m s of (Inl e, s1) \<Rightarrow> (Inl e, s1) | (Inr x, s1) \<Rightarrow> k x s1)"

text \<open>A call without an answer left for it is accepted.\<close>

definition ask :: "(answer \<Rightarrow> 'b run_archive \<Rightarrow> (archive_error + 'a) \<times> 'b run_archive) \<Rightarrow> ('b, 'a) call" where
  "ask f s = (case s of (answers, a) \<Rightarrow>
     (case f (case answers of [] \<Rightarrow> Accepts | x # xs \<Rightarrow> x) a of (r, a1) \<Rightarrow> (r, tl answers, a1)))"

definition reading :: "('b run_archive \<Rightarrow> 'a) \<Rightarrow> ('b, 'a) call" where
  "reading f = ask (\<lambda>ans a. case ans of Accepts \<Rightarrow> (Inr (f a), a) | Refuses ks \<Rightarrow> (Inl Unavailable, a))"

section \<open>Writes\<close>

text \<open>Frames are inserted and a taken id is skipped; rows replace what is there.\<close>

definition put_new :: "'k \<times> 'd \<Rightarrow> ('k, 'd) dict \<Rightarrow> ('k, 'd) dict" where
  "put_new p c = (if map_of c (fst p) = None then c @ [p] else c)"

definition put :: "'k \<times> 'd \<Rightarrow> ('k, 'd) dict \<Rightarrow> ('k, 'd) dict" where
  "put p c = AList.update (fst p) (snd p) c"

definition new_ids :: "('k \<times> 'd) list \<Rightarrow> ('k, 'd) dict \<Rightarrow> nat" where
  "new_ids docs c = length (filter (\<lambda>p. map_of c (fst p) = None) docs)"

text \<open>One batch on one collection, given by how to read and write it in the archive.\<close>

definition write_batch ::
  "('b run_archive \<Rightarrow> ('k, 'd) dict) \<Rightarrow> (('k, 'd) dict \<Rightarrow> 'b run_archive \<Rightarrow> 'b run_archive) \<Rightarrow> ('k \<times> 'd \<Rightarrow> ('k, 'd) dict \<Rightarrow> ('k, 'd) dict)
   \<Rightarrow> ('k \<times> 'd) list \<Rightarrow> ('b, nat) call" where
  "write_batch get set_to op docs =
     (if docs = [] then done_with 0
      else ask (\<lambda>ans a. case ans of
             Accepts \<Rightarrow> (Inr (new_ids docs (get a)), set_to (fold op docs (get a)) a)
           | Refuses ks \<Rightarrow> (Inl Unavailable, set_to (fold op (nths docs (set ks)) (get a)) a)))"

definition insert_batch :: "(int \<times> frame_doc) list \<Rightarrow> ('b, nat) call" where
  "insert_batch = write_batch ra_frames (\<lambda>c a. a\<lparr>ra_frames := c\<rparr>) put_new"

definition replace_kpi :: "(string \<times> pyfloat) list \<Rightarrow> ('b, nat) call" where
  "replace_kpi = write_batch ra_kpi (\<lambda>c a. a\<lparr>ra_kpi := c\<rparr>) put"

definition replace_breakdown :: "(string \<times> 'b) list \<Rightarrow> ('b, nat) call" where
  "replace_breakdown = write_batch ra_breakdown (\<lambda>c a. a\<lparr>ra_breakdown := c\<rparr>) put"

text \<open>The full batches, and what is left over.\<close>

function full_batches :: "nat \<Rightarrow> 'a list \<Rightarrow> 'a list list \<times> 'a list" where
  "full_batches n xs =
     (if n = 0 \<or> length xs < n then ([], xs) else (case full_batches n (drop n xs) of (bs, rest) \<Rightarrow> (take n xs # bs, rest)))"
  by pat_completeness auto
termination by (relation "measure (\<lambda>(n, xs). length xs)") auto

declare full_batches.simps [simp del]

primrec write_all :: "('d list \<Rightarrow> ('b, nat) call) \<Rightarrow> 'd list list \<Rightarrow> ('b, nat) call" where
  "write_all op [] = done_with 0"
| "write_all op (b # bs) = and_then (op b) (\<lambda>n. and_then (write_all op bs) (\<lambda>k. done_with (n + k)))"

text \<open>Documents that come to an end or, if \<open>broken\<close>, raise after the last one: then the batch at hand is not written.\<close>

definition write_stream :: "nat \<Rightarrow> ('d list \<Rightarrow> ('b, nat) call) \<Rightarrow> bool \<Rightarrow> 'd list \<Rightarrow> ('b, nat) call" where
  "write_stream cap op broken docs =
     (case full_batches cap docs of
        (bs, rest) \<Rightarrow>
          and_then (write_all op bs) (\<lambda>n. if broken then fails_with StoreRaised else and_then (op rest) (\<lambda>k. done_with (n + k))))"

text \<open>The first document of each id.\<close>

fun first_of_id :: "'k set \<Rightarrow> ('k \<times> 'd) list \<Rightarrow> ('k \<times> 'd) list" where
  "first_of_id seen [] = []"
| "first_of_id seen (p # ps) = (if fst p \<in> seen then first_of_id seen ps else p # first_of_id (insert (fst p) seen) ps)"

definition write_frames :: "bool \<Rightarrow> frame list \<Rightarrow> ('b, nat) call" where
  "write_frames broken fs = write_stream 500 insert_batch broken (map (\<lambda>f. (fr_frame_idx f, frame_to_doc f)) fs)"

definition write_kpi_events :: "string \<Rightarrow> (string \<times> string, pyfloat \<times> nat) dict \<Rightarrow> ('b, nat) call" where
  "write_kpi_events run rows = write_stream 1000 replace_kpi False (first_of_id {} (map (\<lambda>(k, v, t). (kpi_id run k, v)) rows))"

definition write_breakdown_rows :: "string \<Rightarrow> (string \<times> string \<times> string, 'b \<times> nat) dict \<Rightarrow> ('b, nat) call" where
  "write_breakdown_rows run rows = write_stream 1000 replace_breakdown False (first_of_id {} (map (\<lambda>(k, v, t). (breakdown_id run k, v)) rows))"

section \<open>What is known of a run\<close>

definition non_terminal_statuses :: "string list" where
  "non_terminal_statuses = [''running'', ''in_progress'', ''inprogress'', ''pending'', ''started'']"

definition finished_status :: "(pyval \<Rightarrow> string) \<Rightarrow> pyval \<Rightarrow> bool" where
  "finished_status render s \<longleftrightarrow> truthy s \<and> map lower_char (strip (py_str render s)) \<notin> set non_terminal_statuses"

definition probe_run_meta :: "faults \<Rightarrow> 'b working_set \<Rightarrow> (string, pyval) dict" where
  "probe_run_meta fa ws = (if fa_meta fa then [] else case ws_meta ws of None \<Rightarrow> [] | Some d \<Rightarrow> d)"

definition run_is_terminal :: "(pyval \<Rightarrow> string) \<Rightarrow> faults \<Rightarrow> 'b working_set \<Rightarrow> bool" where
  "run_is_terminal render fa ws \<longleftrightarrow>
     finished_status render (py_get (probe_run_meta fa ws) ''status'') \<or>
     finished_status render (if fa_export fa then PyNone else case ws_export ws of None \<Rightarrow> PyNone | Some s \<Rightarrow> s)"

definition max_of :: "'a::linorder list \<Rightarrow> 'a option" where
  "max_of xs = (if xs = [] then None else Some (Max (set xs)))"

definition min_of :: "'a::linorder list \<Rightarrow> 'a option" where
  "min_of xs = (if xs = [] then None else Some (Min (set xs)))"

text \<open>How far the working set has got; an unknown figure is \<open>None\<close>. The stamp is the latest write of a table.\<close>

definition store_frame_max :: "faults \<Rightarrow> 'b working_set \<Rightarrow> int option" where
  "store_frame_max fa ws = (if fa_range fa then None else max_of (map fr_frame_idx (ws_frames ws)))"

definition store_kpi_count :: "faults \<Rightarrow> 'b working_set \<Rightarrow> nat option" where
  "store_kpi_count fa ws = (if fa_kpi_count fa then None else Some (length (ws_kpi ws)))"

definition store_breakdown_count :: "faults \<Rightarrow> 'b working_set \<Rightarrow> nat option" where
  "store_breakdown_count fa ws = (if fa_breakdown_count fa then None else Some (length (ws_breakdown ws)))"

definition stamp_of :: "bool \<Rightarrow> ('k, 'v \<times> nat) dict \<Rightarrow> nat option" where
  "stamp_of fault rows = (if fault then None else max_of (map (\<lambda>(k, v, t). t) rows))"

definition content_unchanged :: "nat option \<Rightarrow> nat option \<Rightarrow> bool" where
  "content_unchanged archived store =
     (case (store, archived) of (None, None) \<Rightarrow> True | (Some t, Some w) \<Rightarrow> t \<le> w | _ \<Rightarrow> False)"

definition already_whole :: "nat option \<Rightarrow> nat \<Rightarrow> bool" where
  "already_whole expected archived = (case expected of None \<Rightarrow> False | Some n \<Rightarrow> 0 < archived \<and> n \<le> archived)"

definition frame_stats :: "('b, nat \<times> int option \<times> int option) call" where
  "frame_stats =
     and_then (reading (\<lambda>a. length (ra_frames a))) (\<lambda>n.
       if n = 0 then done_with (0, None, None)
       else and_then (reading (\<lambda>a. min_of (map fst (ra_frames a)))) (\<lambda>lo.
              and_then (reading (\<lambda>a. max_of (map fst (ra_frames a)))) (\<lambda>hi. done_with (n, lo, hi))))"

section \<open>The dump\<close>

definition summary_meta_fields :: "string list" where
  "summary_meta_fields = [''haulier_codes'', ''slot_map'', ''n_trucks'', ''status'', ''first_seen'', ''last_seen'']"

definition meta_of :: "(string, pyval) dict \<Rightarrow> (string, pyval) dict" where
  "meta_of d = filter (\<lambda>(k, v). v \<noteq> PyNone) (map (\<lambda>k. (k, py_get d k)) summary_meta_fields)"

text \<open>The frames to write: when the archive holds a dense run from zero, those above it.\<close>

definition skip_upto :: "nat \<Rightarrow> int option \<Rightarrow> int option" where
  "skip_upto n hi = (case hi of None \<Rightarrow> None | Some m \<Rightarrow> if int n = m + 1 then Some m else None)"

definition selected :: "int option \<Rightarrow> frame list \<Rightarrow> frame list" where
  "selected skip fs = filter (\<lambda>f. case skip of None \<Rightarrow> True | Some m \<Rightarrow> \<not> fr_frame_idx f \<le> m) fs"

text \<open>\<open>$set\<close>: the fields of the new summary replace the old ones, and a field it does not have is kept.\<close>

definition set_summary :: "summary \<Rightarrow> summary option \<Rightarrow> summary" where
  "set_summary su old =
     (case old of
        None \<Rightarrow> su
      | Some o' \<Rightarrow>
          su\<lparr>su_meta := fold (\<lambda>(k, v). AList.update k v) (su_meta su) (su_meta o'),
             su_kpi_stamp := (case su_kpi_stamp su of None \<Rightarrow> su_kpi_stamp o' | Some t \<Rightarrow> Some t),
             su_breakdown_stamp := (case su_breakdown_stamp su of None \<Rightarrow> su_breakdown_stamp o' | Some t \<Rightarrow> Some t)\<rparr>)"

definition write_summary :: "summary \<Rightarrow> ('b, unit) call" where
  "write_summary su = ask (\<lambda>ans a. case ans of
     Accepts \<Rightarrow> (Inr (), a\<lparr>ra_summary := Some (set_summary su (ra_summary a))\<rparr>) | Refuses ks \<Rightarrow> (Inl Unavailable, a))"

definition dump_frames :: "faults \<Rightarrow> 'b working_set \<Rightarrow> ('b, nat) call" where
  "dump_frames fa ws =
     and_then frame_stats (\<lambda>(n, lo, hi).
       write_frames (fa_frames fa \<noteq> None)
         (selected (skip_upto n hi) (case fa_frames fa of None \<Rightarrow> ws_frames ws | Some k \<Rightarrow> take k (ws_frames ws))))"

definition dump_kpi :: "faults \<Rightarrow> string \<Rightarrow> 'b working_set \<Rightarrow> summary option \<Rightarrow> ('b, nat) call" where
  "dump_kpi fa run ws prior =
     and_then (reading (\<lambda>a. length (ra_kpi a))) (\<lambda>n.
       if already_whole (store_kpi_count fa ws) n \<and>
          content_unchanged (case prior of None \<Rightarrow> None | Some su \<Rightarrow> su_kpi_stamp su) (stamp_of (fa_kpi_stamp fa) (ws_kpi ws))
       then done_with 0
       else if fa_kpi fa then fails_with StoreRaised
       else write_kpi_events run (ws_kpi ws))"

text \<open>The result says whether the read of the breakdown rows failed.\<close>

definition dump_breakdown :: "faults \<Rightarrow> string \<Rightarrow> 'b working_set \<Rightarrow> summary option \<Rightarrow> ('b, bool) call" where
  "dump_breakdown fa run ws prior =
     and_then (reading (\<lambda>a. length (ra_breakdown a))) (\<lambda>n.
       if already_whole (store_breakdown_count fa ws) n \<and>
          content_unchanged (case prior of None \<Rightarrow> None | Some su \<Rightarrow> su_breakdown_stamp su) (stamp_of (fa_breakdown_stamp fa) (ws_breakdown ws))
       then done_with False
       else if fa_breakdown fa then done_with True
       else and_then (write_breakdown_rows run (ws_breakdown ws)) (\<lambda>k. done_with False))"

definition new_summary :: "faults \<Rightarrow> 'b working_set \<Rightarrow> bool \<Rightarrow> string \<Rightarrow> bool \<Rightarrow> nat \<times> int option \<times> int option \<Rightarrow> nat \<Rightarrow> nat \<Rightarrow> summary" where
  "new_summary fa ws terminal reason read_failed stats nk nb =
     \<lparr>su_frame_count = fst stats, su_kpi_count = nk, su_breakdown_count = nb, su_frame_min = fst (snd stats), su_frame_max = snd (snd stats),
      su_complete = (terminal \<and> \<not> read_failed), su_reason = reason, su_read_failed = read_failed,
      su_meta = meta_of (probe_run_meta fa ws), su_kpi_stamp = stamp_of (fa_kpi_stamp fa) (ws_kpi ws),
      su_breakdown_stamp = (if read_failed then None else stamp_of (fa_breakdown_stamp fa) (ws_breakdown ws))\<rparr>"

text \<open>The summary is written last and describes what the archive holds then.\<close>

definition close_dump :: "faults \<Rightarrow> 'b working_set \<Rightarrow> bool \<Rightarrow> string \<Rightarrow> bool \<Rightarrow> ('b, summary) call" where
  "close_dump fa ws terminal reason read_failed =
     and_then frame_stats (\<lambda>stats.
     and_then (reading (\<lambda>a. length (ra_kpi a))) (\<lambda>nk.
     and_then (reading (\<lambda>a. length (ra_breakdown a))) (\<lambda>nb.
       let su = new_summary fa ws terminal reason read_failed stats nk nb
       in and_then (write_summary su) (\<lambda>u. if read_failed then fails_with Incomplete else done_with su))))"

definition dump_run ::
  "(pyval \<Rightarrow> string) \<Rightarrow> faults \<Rightarrow> string \<Rightarrow> string \<Rightarrow> bool option \<Rightarrow> 'b working_set \<Rightarrow> ('b, summary) call" where
  "dump_run render fa run reason closing ws =
     (let terminal = (case closing of None \<Rightarrow> run_is_terminal render fa ws | Some c \<Rightarrow> c)
      in and_then (dump_frames fa ws) (\<lambda>inserted.
         and_then (reading ra_summary) (\<lambda>prior.
         and_then (dump_kpi fa run ws prior) (\<lambda>kpis.
         and_then (dump_breakdown fa run ws prior) (\<lambda>read_failed.
           close_dump fa ws terminal reason read_failed)))))"

section \<open>Pending runs\<close>

definition newer :: "nat option \<Rightarrow> nat option \<Rightarrow> bool" where
  "newer store archived = (case store of None \<Rightarrow> False | Some t \<Rightarrow> (case archived of None \<Rightarrow> True | Some w \<Rightarrow> w < t))"

definition moved_past :: "faults \<Rightarrow> 'b working_set \<Rightarrow> summary \<Rightarrow> bool" where
  "moved_past fa ws su \<longleftrightarrow>
     (case store_frame_max fa ws of None \<Rightarrow> False | Some m \<Rightarrow> (case su_frame_max su of None \<Rightarrow> True | Some w \<Rightarrow> w < m)) \<or>
     (case store_kpi_count fa ws of None \<Rightarrow> False | Some n \<Rightarrow> su_kpi_count su < n) \<or>
     (case store_breakdown_count fa ws of None \<Rightarrow> False | Some n \<Rightarrow> su_breakdown_count su < n) \<or>
     newer (stamp_of (fa_kpi_stamp fa) (ws_kpi ws)) (su_kpi_stamp su) \<or>
     newer (stamp_of (fa_breakdown_stamp fa) (ws_breakdown ws)) (su_breakdown_stamp su)"

definition run_is_pending :: "(pyval \<Rightarrow> string) \<Rightarrow> faults \<Rightarrow> 'b working_set \<Rightarrow> summary option \<Rightarrow> bool" where
  "run_is_pending render fa ws su =
     (case su of
        None \<Rightarrow> True
      | Some s \<Rightarrow> moved_past fa ws s \<or> (\<not> su_complete s \<and> run_is_terminal render fa ws))"

definition read_run_frames :: "'b run_archive \<Rightarrow> frame list" where
  "read_run_frames a = map (doc_to_frame \<circ> snd) (sort_key fst (ra_frames a))"

definition read_run_kpi :: "'b run_archive \<Rightarrow> (string, pyfloat) dict" where
  "read_run_kpi a = ra_kpi a"

section \<open>Frames read back\<close>

lemma from_buffer_pack [simp]:
  "256 ^ width = (2 :: nat) ^ LENGTH('w::len) \<Longrightarrow> 0 < width \<Longrightarrow> from_buffer width (pack_array width (xs :: 'w word list)) = xs"
  using unpack_pack [of width "[]" 0 xs "[]"] by (simp add: from_buffer_def)

lemma doc_to_frame_to_doc: "fr_kind f = kind_keyframe \<Longrightarrow> fr_version f = frame_version \<Longrightarrow> doc_to_frame (frame_to_doc f) = f"
  by (simp add: doc_to_frame_def frame_to_doc_def)

section \<open>Ids\<close>

lemma first_bar: "u @ CHR ''|'' # x = v @ CHR ''|'' # y \<Longrightarrow> CHR ''|'' \<notin> set u \<Longrightarrow> CHR ''|'' \<notin> set v \<Longrightarrow> u = v \<and> x = y"
proof (induction u arbitrary: v)
  case Nil
  then show ?case by (cases v) auto
next
  case (Cons c u)
  then show ?case by (cases v) auto
qed

lemma last_bar: "u @ CHR ''|'' # x = v @ CHR ''|'' # y \<Longrightarrow> CHR ''|'' \<notin> set x \<Longrightarrow> CHR ''|'' \<notin> set y \<Longrightarrow> u = v \<and> x = y"
  proof -
  assume a: "u @ CHR ''|'' # x = v @ CHR ''|'' # y" "CHR ''|'' \<notin> set x" "CHR ''|'' \<notin> set y"
  from arg_cong [OF a(1), of rev] have "rev x @ CHR ''|'' # rev u = rev y @ CHR ''|'' # rev v" by simp
  from first_bar [OF this] show ?thesis using a(2,3) by simp
qed

definition plain :: "string \<Rightarrow> bool" where
  "plain s \<longleftrightarrow> CHR ''|'' \<notin> set s"

lemma kpi_id_inj: "kpi_id run k = kpi_id run k' \<Longrightarrow> plain (snd k) \<Longrightarrow> plain (snd k') \<Longrightarrow> k = k'"
  by (cases k; cases k') (auto simp: kpi_id_def plain_def dest: last_bar)

lemma breakdown_id_inj:
  assumes "breakdown_id run k = breakdown_id run k'" "plain (fst k)" "plain (fst k')" "plain (fst (snd k))" "plain (fst (snd k'))"
  shows "k = k'"
proof -
  obtain a b c where k: "k = (a, b, c)" by (metis prod_cases3)
  obtain a' b' c' where k': "k' = (a', b', c')" by (metis prod_cases3)
  have "a @ CHR ''|'' # (b @ CHR ''|'' # c) = a' @ CHR ''|'' # (b' @ CHR ''|'' # c')" using assms(1) by (simp add: breakdown_id_def k k')
  from first_bar [OF this] have "a = a'" and bc: "b @ CHR ''|'' # c = b' @ CHR ''|'' # c'" using assms(2,3) by (simp_all add: plain_def k k')
  moreover from first_bar [OF bc] have "b = b'" "c = c'" using assms(4,5) by (simp_all add: plain_def k k')
  ultimately show ?thesis by (simp add: k k')
qed

section \<open>What a call keeps\<close>

text \<open>Started where \<open>P\<close> holds the call ends in \<open>Q\<close>, or raises in \<open>R\<close>.\<close>

definition holds :: "('b run_archive \<Rightarrow> bool) \<Rightarrow> ('b, 'a) call \<Rightarrow> ('a \<Rightarrow> 'b run_archive \<Rightarrow> bool) \<Rightarrow> ('b run_archive \<Rightarrow> bool) \<Rightarrow> bool" where
  "holds P m Q R \<longleftrightarrow> (\<forall>answers a. P a \<longrightarrow> (case m (answers, a) of (Inr x, rest, a1) \<Rightarrow> Q x a1 | (Inl e, rest, a1) \<Rightarrow> R a1))"

lemma holdsI:
  assumes "\<And>answers a r rest a1. P a \<Longrightarrow> m (answers, a) = (r, rest, a1) \<Longrightarrow> (case r of Inr x \<Rightarrow> Q x a1 | Inl e \<Rightarrow> R a1)"
  shows "holds P m Q R"
  unfolding holds_def
proof (intro allI impI)
  fix answers a
  assume "P a"
  moreover obtain r rest a1 where "m (answers, a) = (r, rest, a1)" by (metis prod_cases3)
  ultimately show "case m (answers, a) of (Inr x, rest, a1) \<Rightarrow> Q x a1 | (Inl e, rest, a1) \<Rightarrow> R a1"
    using assms [of a answers r rest a1] by (cases r) simp_all
qed

lemma holdsD: "holds P m Q R \<Longrightarrow> P a \<Longrightarrow> m (answers, a) = (r, rest, a1) \<Longrightarrow> (case r of Inr x \<Rightarrow> Q x a1 | Inl e \<Rightarrow> R a1)"
proof -
  assume h: "holds P m Q R" and p: "P a" and m: "m (answers, a) = (r, rest, a1)"
  from h [unfolded holds_def, rule_format, OF p, of answers] show ?thesis by (cases r) (simp_all add: m)
qed

lemma holds_then:
  assumes "holds P m Q R" and "\<And>x. holds (Q x) (k x) Q' R"
  shows "holds P (and_then m k) Q' R"
proof (rule holdsI)
  fix answers a r rest a1
  assume a: "P a" "and_then m k (answers, a) = (r, rest, a1)"
  obtain r1 as1 a2 where m: "m (answers, a) = (r1, as1, a2)" by (metis prod_cases3)
  note holdsD [OF assms(1) a(1) m]
  then show "case r of Inr x \<Rightarrow> Q' x a1 | Inl e \<Rightarrow> R a1"
    using a(2) m holdsD [OF assms(2)] by (cases r1) (auto simp: and_then_def)
qed

lemma holds_done: "(\<And>a. P a \<Longrightarrow> Q x a) \<Longrightarrow> holds P (done_with x) Q R"
  by (simp add: holds_def done_with_def)

lemma holds_fails: "(\<And>a. P a \<Longrightarrow> R a) \<Longrightarrow> holds P (fails_with e) Q R"
  by (simp add: holds_def fails_with_def)

lemma holds_reading: "(\<And>a. P a \<Longrightarrow> Q (f a) a) \<Longrightarrow> (\<And>a. P a \<Longrightarrow> R a) \<Longrightarrow> holds P (reading f) Q R"
  by (auto simp: holds_def reading_def ask_def split: answer.splits)

lemma holds_weaken: "holds P m Q R \<Longrightarrow> (\<And>a. P' a \<Longrightarrow> P a) \<Longrightarrow> (\<And>x a. Q x a \<Longrightarrow> Q' x a) \<Longrightarrow> (\<And>a. R a \<Longrightarrow> R' a) \<Longrightarrow> holds P' m Q' R'"
  by (fastforce simp: holds_def split: prod.splits sum.splits)

lemma holds_if: "(b \<Longrightarrow> holds P m Q R) \<Longrightarrow> (\<not> b \<Longrightarrow> holds P m' Q R) \<Longrightarrow> holds P (if b then m else m') Q R"
  by simp

lemma full_batches_all: "full_batches n xs = (bs, rest) \<Longrightarrow> concat bs @ rest = xs"
proof (induction n xs arbitrary: bs rest rule: full_batches.induct)
  case (1 n xs)
  show ?case
  proof (cases "n = 0 \<or> length xs < n")
    case False
    obtain bs' rest' where f: "full_batches n (drop n xs) = (bs', rest')" by fastforce
    then have "bs = take n xs # bs'" "rest = rest'" using "1.prems" False by (simp_all add: full_batches.simps [of n xs])
    then show ?thesis using "1.IH" [OF False f] by (metis append_take_drop_id append_assoc concat.simps(2))
  qed (use "1.prems" in \<open>simp add: full_batches.simps [of n xs]\<close>)
qed

text \<open>What a writer of batches promises: a batch of valid documents keeps the invariant whatever is answered, and when it is accepted its documents are there.\<close>

locale batch_writer =
  fixes op :: "'d list \<Rightarrow> ('b, nat) call" and inv :: "'b run_archive \<Rightarrow> bool" and has :: "'d set \<Rightarrow> 'b run_archive \<Rightarrow> bool" and valid :: "'d set"
  assumes batch: "set docs \<subseteq> valid \<Longrightarrow> holds (\<lambda>a. inv a \<and> has S a) (op docs) (\<lambda>n a. inv a \<and> has (S \<union> set docs) a) inv"
begin

lemma write_all_keeps:
  "set (concat bs) \<subseteq> valid \<Longrightarrow> holds (\<lambda>a. inv a \<and> has S a) (write_all op bs) (\<lambda>n a. inv a \<and> has (S \<union> set (concat bs)) a) inv"
proof (induction bs arbitrary: S)
  case Nil
  show ?case by (simp add: holds_done)
next
  case (Cons b bs)
  then show ?case unfolding write_all.simps
    by (intro holds_then [OF batch]) (auto intro!: holds_then [OF Cons.IH] holds_done simp: Un_assoc)
qed

lemma write_stream_keeps:
  assumes "set docs \<subseteq> valid"
  shows "holds (\<lambda>a. inv a \<and> has S a) (write_stream cap op broken docs) (\<lambda>n a. inv a \<and> \<not> broken \<and> has (S \<union> set docs) a) inv"
proof -
  obtain bs rest where f: "full_batches cap docs = (bs, rest)" by fastforce
  have d: "set docs = set (concat bs) \<union> set rest" using full_batches_all [OF f] by (metis set_append)
  then have v: "set (concat bs) \<subseteq> valid" "set rest \<subseteq> valid" using assms by auto
  show ?thesis unfolding write_stream_def f prod.case
  proof (intro holds_then [OF write_all_keeps [OF v(1)]] holds_if)
    show "holds (\<lambda>a. inv a \<and> has (S \<union> set (concat bs)) a) (fails_with StoreRaised) (\<lambda>n a. inv a \<and> \<not> broken \<and> has (S \<union> set docs) a) inv"
      by (rule holds_fails) simp
    show "\<not> broken \<Longrightarrow> holds (\<lambda>a. inv a \<and> has (S \<union> set (concat bs)) a) (and_then (op rest) (\<lambda>k. done_with (x + k)))
        (\<lambda>n a. inv a \<and> \<not> broken \<and> has (S \<union> set docs) a) inv" for x
      unfolding d Un_assoc [symmetric] by (intro holds_then [OF batch [OF v(2)]] holds_done) simp
  qed
qed

end

section \<open>Collections after a batch\<close>

declare map_of_eq_Some_iff [simp del] Some_eq_map_of_iff [simp del]

definition functional :: "('k \<times> 'd) set \<Rightarrow> bool" where
  "functional V \<longleftrightarrow> (\<forall>k d d'. (k, d) \<in> V \<longrightarrow> (k, d') \<in> V \<longrightarrow> d = d')"

lemma functionalD: "functional V \<Longrightarrow> (k, d) \<in> V \<Longrightarrow> (k, d') \<in> V \<Longrightarrow> d = d'"
  by (auto simp: functional_def)

lemma map_of_put: "map_of (put p c) i = (if i = fst p then Some (snd p) else map_of c i)"
  by (simp add: put_def update_conv')

lemma map_of_put_new: "map_of (put_new p c) i = (case map_of c i of Some d \<Rightarrow> Some d | None \<Rightarrow> if i = fst p then Some (snd p) else None)"
  by (auto simp: put_new_def map_add_def split: option.splits)

lemma fold_put_kept:
  "functional V \<Longrightarrow> set docs \<subseteq> V \<Longrightarrow> (i, d) \<in> V \<Longrightarrow> map_of c i = Some d \<Longrightarrow> map_of (fold put docs c) i = Some d"
proof (induction docs arbitrary: c)
  case (Cons p docs)
  then have "map_of (put p c) i = Some d" by (cases p) (auto simp: map_of_put dest: functionalD)
  then show ?case using Cons by simp
qed simp

lemma fold_put_in: "functional V \<Longrightarrow> set docs \<subseteq> V \<Longrightarrow> (i, d) \<in> set docs \<Longrightarrow> map_of (fold put docs c) i = Some d"
proof (induction docs arbitrary: c)
  case (Cons p docs)
  show ?case
  proof (cases "p = (i, d)")
    case True
    then have "map_of (put p c) i = Some d" by (simp add: map_of_put)
    then show ?thesis using fold_put_kept [of V docs i d "put p c"] Cons.prems True by auto
  qed (use Cons in auto)
qed simp

lemma fold_put_new_kept: "map_of c i = Some d \<Longrightarrow> map_of (fold put_new docs c) i = Some d"
  by (induction docs arbitrary: c) (simp_all add: map_of_put_new)

lemma fold_put_new_from: "map_of (fold put_new docs c) i = Some d \<Longrightarrow> map_of c i = Some d \<or> (i, d) \<in> set docs"
proof (induction docs arbitrary: c)
  case (Cons p docs)
  then show ?case by (cases p) (auto simp: map_of_put_new split: option.splits if_splits dest!: Cons.IH)
qed simp

lemma fold_put_new_in:
  "(i, d) \<in> set docs \<Longrightarrow> functional (set docs) \<Longrightarrow> (\<And>d'. map_of c i = Some d' \<Longrightarrow> d' = d) \<Longrightarrow> map_of (fold put_new docs c) i = Some d"
proof (induction docs arbitrary: c)
  case (Cons p docs)
  show ?case
  proof (cases "map_of c i = Some d \<or> p = (i, d)")
    case True
    then have "map_of (put_new p c) i = Some d" using Cons.prems(3) by (auto simp: map_of_put_new split: option.splits)
    then show ?thesis by (simp add: fold_put_new_kept)
  next
    case False
    then have n: "map_of c i = None" using Cons.prems(3) by (cases "map_of c i") auto
    have "fst p \<noteq> i" using Cons.prems(1,2) False by (cases p) (auto simp: functional_def)
    then have "map_of (put_new p c) i = None" using n by (simp add: map_of_put_new)
    moreover have "functional (set docs)" using Cons.prems(2) by (auto simp: functional_def)
    moreover have "(i, d) \<in> set docs" using Cons.prems(1) False by auto
    ultimately show ?thesis using Cons.IH [of "put_new p c"] by simp
  qed
qed simp

lemma fold_put_new_keys: "distinct (map fst c) \<Longrightarrow> distinct (map fst (fold put_new docs c)) \<and>
    fst ` set (fold put_new docs c) = fst ` set c \<union> fst ` set docs"
proof (induction docs arbitrary: c)
  case (Cons p docs)
  have "distinct (map fst (put_new p c))" "fst ` set (put_new p c) = insert (fst p) (fst ` set c)"
    using Cons.prems by (auto simp: put_new_def map_of_eq_None_iff split: if_splits)
  then show ?case using Cons.IH [of "put_new p c"] by auto
qed simp

section \<open>The archive against the working set\<close>

definition frame_docs :: "'b working_set \<Rightarrow> (int \<times> frame_doc) set" where
  "frame_docs ws = (\<lambda>f. (fr_frame_idx f, frame_to_doc f)) ` set (ws_frames ws)"

definition row_docs :: "('k \<Rightarrow> string) \<Rightarrow> ('k, 'v \<times> nat) dict \<Rightarrow> (string \<times> 'v) set" where
  "row_docs rid rows = (\<lambda>(k, v, t). (rid k, v)) ` set rows"

text \<open>Unique indices and keys, and ids that tell the keys apart.\<close>

definition ws_ok :: "'b working_set \<Rightarrow> bool" where
  "ws_ok ws \<longleftrightarrow> distinct (map fr_frame_idx (ws_frames ws)) \<and> (\<forall>f \<in> set (ws_frames ws). 0 \<le> fr_frame_idx f) \<and>
     distinct (map fst (ws_kpi ws)) \<and> (\<forall>k \<in> fst ` set (ws_kpi ws). plain (snd k)) \<and>
     distinct (map fst (ws_breakdown ws)) \<and> (\<forall>k \<in> fst ` set (ws_breakdown ws). plain (fst k) \<and> plain (fst (snd k)))"

lemma functional_frames: "ws_ok ws \<Longrightarrow> functional (frame_docs ws)"
  by (auto simp: ws_ok_def functional_def frame_docs_def distinct_map dest: inj_onD)

lemma functional_rows: "distinct (map fst rows) \<Longrightarrow> inj_on rid (fst ` set rows) \<Longrightarrow> functional (row_docs rid rows)"
  unfolding functional_def row_docs_def
proof (intro allI impI, clarify)
  fix k v t k' v' t'
  assume a: "distinct (map fst rows)" "inj_on rid (fst ` set rows)" "(k, v, t) \<in> set rows" "(k', v', t') \<in> set rows" "rid k = rid k'"
  then have "k = k'" by (metis inj_onD fst_conv image_eqI)
  then have "(v, t) = (v', t')" using a(1,3,4) by (metis eq_key_imp_eq_value)
  then show "v = v'" by simp
qed

lemma inj_kpi: "ws_ok ws \<Longrightarrow> inj_on (kpi_id run) (fst ` set (ws_kpi ws))"
proof (rule inj_onI)
  fix k k' assume "ws_ok ws" "k \<in> fst ` set (ws_kpi ws)" "k' \<in> fst ` set (ws_kpi ws)" "kpi_id run k = kpi_id run k'"
  then show "k = k'" using kpi_id_inj [of run k k'] unfolding ws_ok_def by blast
qed

lemma inj_breakdown: "ws_ok ws \<Longrightarrow> inj_on (breakdown_id run) (fst ` set (ws_breakdown ws))"
proof (rule inj_onI)
  fix k k' assume "ws_ok ws" "k \<in> fst ` set (ws_breakdown ws)" "k' \<in> fst ` set (ws_breakdown ws)" "breakdown_id run k = breakdown_id run k'"
  then show "k = k'" using breakdown_id_inj [of run k k'] unfolding ws_ok_def by blast
qed

lemma functional_kpi: "ws_ok ws \<Longrightarrow> functional (row_docs (kpi_id run) (ws_kpi ws))"
  by (intro functional_rows inj_kpi) (simp_all add: ws_ok_def)

lemma functional_breakdown: "ws_ok ws \<Longrightarrow> functional (row_docs (breakdown_id run) (ws_breakdown ws))"
  by (intro functional_rows inj_breakdown) (simp_all add: ws_ok_def)

text \<open>What the archive holds up to an index or a stamp.\<close>

definition frames_upto :: "'b working_set \<Rightarrow> (int, frame_doc) dict \<Rightarrow> int option \<Rightarrow> bool" where
  "frames_upto ws c hi \<longleftrightarrow> (\<forall>m. hi = Some m \<longrightarrow> m \<in> fst ` set c \<and>
     (\<forall>f \<in> set (ws_frames ws). fr_frame_idx f \<le> m \<longrightarrow> map_of c (fr_frame_idx f) = Some (frame_to_doc f)))"

definition rows_upto :: "('k \<Rightarrow> string) \<Rightarrow> ('k, 'v \<times> nat) dict \<Rightarrow> (string, 'v) dict \<Rightarrow> nat option \<Rightarrow> bool" where
  "rows_upto rid rows c stamp \<longleftrightarrow> (\<forall>w. stamp = Some w \<longrightarrow> (\<forall>(k, v, t) \<in> set rows. t \<le> w \<longrightarrow> map_of c (rid k) = Some v))"

definition summary_ok :: "string \<Rightarrow> 'b working_set \<Rightarrow> 'b run_archive \<Rightarrow> bool" where
  "summary_ok run ws a \<longleftrightarrow> (\<forall>su. ra_summary a = Some su \<longrightarrow> frames_upto ws (ra_frames a) (su_frame_max su) \<and>
     rows_upto (kpi_id run) (ws_kpi ws) (ra_kpi a) (su_kpi_stamp su) \<and>
     rows_upto (breakdown_id run) (ws_breakdown ws) (ra_breakdown a) (su_breakdown_stamp su))"

definition docs_dense :: "'b working_set \<Rightarrow> (int, frame_doc) dict \<Rightarrow> bool" where
  "docs_dense ws c \<longleftrightarrow> distinct (map fst c) \<and> (\<forall>i \<in> fst ` set c. 0 \<le> i) \<and>
     (\<forall>f \<in> set (ws_frames ws). \<forall>d. map_of c (fr_frame_idx f) = Some d \<longrightarrow> d = frame_to_doc f)"

definition archive_ok :: "string \<Rightarrow> 'b working_set \<Rightarrow> 'b run_archive \<Rightarrow> bool" where
  "archive_ok run ws a \<longleftrightarrow> ws_ok ws \<and> docs_dense ws (ra_frames a) \<and> summary_ok run ws a"

lemma docs_dense_put:
  assumes "ws_ok ws" "docs_dense ws c" "set docs \<subseteq> frame_docs ws" shows "docs_dense ws (fold put_new docs c)"
proof -
  have "map_of (fold put_new docs c) (fr_frame_idx f) = Some d \<Longrightarrow> d = frame_to_doc f" if "f \<in> set (ws_frames ws)" for f d
    using fold_put_new_from [of docs c "fr_frame_idx f" d] functionalD [OF functional_frames [OF assms(1)], of "fr_frame_idx f" d "frame_to_doc f"] that assms(2,3)
    by (auto simp: docs_dense_def frame_docs_def)
  moreover have "\<forall>i \<in> fst ` set docs. 0 \<le> i" using assms(1,3) by (auto simp: ws_ok_def frame_docs_def)
  ultimately show ?thesis using assms(2) fold_put_new_keys [of c docs] by (auto simp: docs_dense_def)
qed

lemma frames_upto_put: "frames_upto ws c hi \<Longrightarrow> distinct (map fst c) \<Longrightarrow> frames_upto ws (fold put_new docs c) hi"
  using fold_put_new_keys [of c docs] by (auto simp: frames_upto_def fold_put_new_kept)

lemma rows_upto_put:
  assumes "functional (row_docs rid rows)" "set docs \<subseteq> row_docs rid rows" "rows_upto rid rows c w"
  shows "rows_upto rid rows (fold put docs c) w"
  unfolding rows_upto_def
proof (intro allI impI ballI, clarify)
  fix u k v t
  assume "w = Some u" "(k, v, t) \<in> set rows" "t \<le> u"
  then have "map_of c (rid k) = Some v" "(rid k, v) \<in> row_docs rid rows" using assms(3) by (force simp: rows_upto_def row_docs_def)+
  then show "map_of (fold put docs c) (rid k) = Some v" using fold_put_kept [OF assms(1,2)] by blast
qed

section \<open>The three writers\<close>

definition has_docs :: "('b run_archive \<Rightarrow> ('k, 'd) dict) \<Rightarrow> ('k \<times> 'd) set \<Rightarrow> 'b run_archive \<Rightarrow> bool" where
  "has_docs get S a \<longleftrightarrow> (\<forall>(i, d) \<in> S. map_of (get a) i = Some d)"

lemma archive_ok_frames:
  "archive_ok run ws a \<Longrightarrow> set docs \<subseteq> frame_docs ws \<Longrightarrow> archive_ok run ws (a\<lparr>ra_frames := fold put_new docs (ra_frames a)\<rparr>)"
  by (auto simp: archive_ok_def summary_ok_def docs_dense_put intro!: frames_upto_put) (simp add: docs_dense_def)

lemma archive_ok_kpi:
  "archive_ok run ws a \<Longrightarrow> set docs \<subseteq> row_docs (kpi_id run) (ws_kpi ws) \<Longrightarrow> archive_ok run ws (a\<lparr>ra_kpi := fold put docs (ra_kpi a)\<rparr>)"
  by (auto simp: archive_ok_def summary_ok_def intro!: rows_upto_put functional_kpi)

lemma archive_ok_breakdown:
  "archive_ok run ws a \<Longrightarrow> set docs \<subseteq> row_docs (breakdown_id run) (ws_breakdown ws) \<Longrightarrow>
   archive_ok run ws (a\<lparr>ra_breakdown := fold put docs (ra_breakdown a)\<rparr>)"
  by (auto simp: archive_ok_def summary_ok_def intro!: rows_upto_put functional_breakdown)

lemma nths_subset: "set (nths xs A) \<subseteq> set xs"
  by (rule set_nths_subset)

lemma write_batch_keeps:
  assumes ok: "\<And>a docs. safe a \<Longrightarrow> set docs \<subseteq> valid \<Longrightarrow> safe (set_to (fold op docs (get a)) a)"
    and there: "\<And>a docs S. safe a \<Longrightarrow> has S a \<Longrightarrow> set docs \<subseteq> valid \<Longrightarrow> has (S \<union> set docs) (set_to (fold op docs (get a)) a)"
    and d: "set docs \<subseteq> valid"
  shows "holds (\<lambda>a. safe a \<and> has S a) (write_batch get set_to op docs) (\<lambda>n a. safe a \<and> has (S \<union> set docs) a) safe"
proof (cases "docs = []")
  case True
  then show ?thesis by (auto simp: write_batch_def intro!: holds_done)
next
  case False
  have "set (nths docs K) \<subseteq> valid" for K using d nths_subset [of docs K] by blast
  then show ?thesis using False ok there d
    by (auto simp: holds_def write_batch_def ask_def split: answer.splits list.splits)
qed

lemma insert_batch_keeps:
  assumes "set docs \<subseteq> frame_docs ws"
  shows "holds (\<lambda>a. archive_ok run ws a \<and> has_docs ra_frames S a) (insert_batch docs)
           (\<lambda>n a. archive_ok run ws a \<and> has_docs ra_frames (S \<union> set docs) a) (archive_ok run ws)"
  unfolding insert_batch_def
proof (rule write_batch_keeps [where valid = "frame_docs ws"])
  show "set docs \<subseteq> frame_docs ws" by (rule assms)
  show "archive_ok run ws a \<Longrightarrow> set docs \<subseteq> frame_docs ws \<Longrightarrow> archive_ok run ws (a\<lparr>ra_frames := fold put_new docs (ra_frames a)\<rparr>)" for a docs
    by (rule archive_ok_frames)
  fix a docs S
  assume a: "archive_ok run ws a" "has_docs ra_frames S a" "set docs \<subseteq> frame_docs ws"
  have f: "functional (set docs)" using functional_frames [of ws] a(1,3) by (auto simp: archive_ok_def functional_def)
  have "map_of (fold put_new docs (ra_frames a)) i = Some d" if mem: "(i, d) \<in> set docs" for i d
  proof (rule fold_put_new_in [OF mem f])
    obtain g where "g \<in> set (ws_frames ws)" "i = fr_frame_idx g" "d = frame_to_doc g" using a(3) mem by (auto simp: frame_docs_def)
    then show "map_of (ra_frames a) i = Some d' \<Longrightarrow> d' = d" for d' using a(1) by (simp add: archive_ok_def docs_dense_def)
  qed
  then show "has_docs ra_frames (S \<union> set docs) (a\<lparr>ra_frames := fold put_new docs (ra_frames a)\<rparr>)"
    using a(2) by (auto simp: has_docs_def fold_put_new_kept)
qed

lemma put_batch_keeps:
  assumes d: "set docs \<subseteq> row_docs rid rows" and f: "\<And>a. safe a \<Longrightarrow> functional (row_docs rid rows)"
    and ok: "\<And>a docs. safe a \<Longrightarrow> set docs \<subseteq> row_docs rid rows \<Longrightarrow> safe (set_to (fold put docs (get a)) a)"
    and get: "\<And>c a. get (set_to c a) = c" and S: "S \<subseteq> row_docs rid rows"
  shows "holds (\<lambda>a. safe a \<and> has_docs get S a) (write_batch get set_to put docs) (\<lambda>n a. safe a \<and> has_docs get (S \<union> set docs) a) safe"
proof -
  let ?has = "\<lambda>S a. S \<subseteq> row_docs rid rows \<and> has_docs get S a"
  have "holds (\<lambda>a. safe a \<and> ?has S a) (write_batch get set_to put docs) (\<lambda>n a. safe a \<and> ?has (S \<union> set docs) a) safe"
  proof (rule write_batch_keeps [where valid = "row_docs rid rows" and has = ?has])
    show "set docs \<subseteq> row_docs rid rows" by (rule d)
    show "safe a \<Longrightarrow> set docs \<subseteq> row_docs rid rows \<Longrightarrow> safe (set_to (fold put docs (get a)) a)" for a docs by (rule ok)
  next
    fix a docs S
    assume a: "safe a" "?has S a" "set docs \<subseteq> row_docs rid rows"
    have "map_of (fold put docs (get a)) i = Some v" if "(i, v) \<in> S \<union> set docs" for i v
    proof (cases "(i, v) \<in> set docs")
      case True
      then show ?thesis by (rule fold_put_in [OF f [OF a(1)] a(3)])
    next
      case False
      then have "map_of (get a) i = Some v" "(i, v) \<in> row_docs rid rows" using that a(2) by (auto simp: has_docs_def)
      then show ?thesis using fold_put_kept [OF f [OF a(1)] a(3)] by blast
    qed
    then show "?has (S \<union> set docs) (set_to (fold put docs (get a)) a)" using a(2,3) by (auto simp: has_docs_def get)
  qed
  then show ?thesis by (rule holds_weaken) (use S in auto)
qed

text \<open>The writers of metrics and breakdowns leave the frames and the summary; \<open>X\<close> is anything said of the parts they leave.\<close>

definition kpi_safe :: "string \<Rightarrow> 'b working_set \<Rightarrow> ('b run_archive \<Rightarrow> bool) \<Rightarrow> 'b run_archive \<Rightarrow> bool" where
  "kpi_safe run ws X a \<longleftrightarrow> archive_ok run ws a \<and> X (a\<lparr>ra_kpi := []\<rparr>)"

definition breakdown_safe :: "string \<Rightarrow> 'b working_set \<Rightarrow> ('b run_archive \<Rightarrow> bool) \<Rightarrow> 'b run_archive \<Rightarrow> bool" where
  "breakdown_safe run ws X a \<longleftrightarrow> archive_ok run ws a \<and> X (a\<lparr>ra_breakdown := []\<rparr>)"

lemma kpi_safe_put:
  "kpi_safe run ws X a \<Longrightarrow> set docs \<subseteq> row_docs (kpi_id run) (ws_kpi ws) \<Longrightarrow> kpi_safe run ws X (a\<lparr>ra_kpi := fold put docs (ra_kpi a)\<rparr>)"
  by (simp add: kpi_safe_def archive_ok_kpi)

lemma breakdown_safe_put:
  "breakdown_safe run ws X a \<Longrightarrow> set docs \<subseteq> row_docs (breakdown_id run) (ws_breakdown ws) \<Longrightarrow>
   breakdown_safe run ws X (a\<lparr>ra_breakdown := fold put docs (ra_breakdown a)\<rparr>)"
  by (simp add: breakdown_safe_def archive_ok_breakdown)

lemma safe_ws_ok: "kpi_safe run ws X a \<Longrightarrow> ws_ok ws" "breakdown_safe run ws X a \<Longrightarrow> ws_ok ws"
  by (simp_all add: kpi_safe_def breakdown_safe_def archive_ok_def)

definition has_rows :: "('k \<Rightarrow> string) \<Rightarrow> ('k, 'v \<times> nat) dict \<Rightarrow> ('b run_archive \<Rightarrow> (string, 'v) dict) \<Rightarrow> (string \<times> 'v) set \<Rightarrow> 'b run_archive \<Rightarrow> bool" where
  "has_rows rid rows get S a \<longleftrightarrow> S \<subseteq> row_docs rid rows \<and> has_docs get S a"

lemma holds_pull: "(S \<Longrightarrow> holds (\<lambda>a. P a \<and> A a) m Q R) \<Longrightarrow> holds (\<lambda>a. P a \<and> S \<and> A a) m Q R"
  by (auto simp: holds_def)

interpretation frame_writer: batch_writer insert_batch "archive_ok run ws" "has_docs ra_frames" "frame_docs ws" for run ws
  by unfold_locales (rule insert_batch_keeps)

interpretation kpi_writer: batch_writer replace_kpi "kpi_safe run ws X" "has_rows (kpi_id run) (ws_kpi ws) ra_kpi" "row_docs (kpi_id run) (ws_kpi ws)" for run ws X
proof unfold_locales
  fix docs :: "(string \<times> pyfloat) list" and S
  assume d: "set docs \<subseteq> row_docs (kpi_id run) (ws_kpi ws)"
  show "holds (\<lambda>a. kpi_safe run ws X a \<and> has_rows (kpi_id run) (ws_kpi ws) ra_kpi S a) (replace_kpi docs)
      (\<lambda>n a. kpi_safe run ws X a \<and> has_rows (kpi_id run) (ws_kpi ws) ra_kpi (S \<union> set docs) a) (kpi_safe run ws X)"
    unfolding has_rows_def replace_kpi_def
    by (rule holds_pull, rule holds_weaken, rule put_batch_keeps [OF d])
      (use d in \<open>auto simp: kpi_safe_put functional_kpi dest: safe_ws_ok\<close>)
qed

interpretation breakdown_writer: batch_writer replace_breakdown "breakdown_safe run ws X" "has_rows (breakdown_id run) (ws_breakdown ws) ra_breakdown"
    "row_docs (breakdown_id run) (ws_breakdown ws)" for run ws X
proof unfold_locales
  fix docs :: "(string \<times> 'a) list" and S
  assume d: "set docs \<subseteq> row_docs (breakdown_id run) (ws_breakdown ws)"
  show "holds (\<lambda>a. breakdown_safe run ws X a \<and> has_rows (breakdown_id run) (ws_breakdown ws) ra_breakdown S a) (replace_breakdown docs)
      (\<lambda>n a. breakdown_safe run ws X a \<and> has_rows (breakdown_id run) (ws_breakdown ws) ra_breakdown (S \<union> set docs) a) (breakdown_safe run ws X)"
    unfolding has_rows_def replace_breakdown_def
    by (rule holds_pull, rule holds_weaken, rule put_batch_keeps [OF d])
      (use d in \<open>auto simp: breakdown_safe_put functional_breakdown dest: safe_ws_ok\<close>)
qed

section \<open>The parts of a dump\<close>

definition all_frames :: "'b working_set \<Rightarrow> 'b run_archive \<Rightarrow> bool" where
  "all_frames ws a \<longleftrightarrow> (\<forall>f \<in> set (ws_frames ws). map_of (ra_frames a) (fr_frame_idx f) = Some (frame_to_doc f))"

lemma max_of_Some: "max_of xs = Some m \<Longrightarrow> m \<in> set xs \<and> (\<forall>x \<in> set xs. x \<le> m)"
  by (auto simp: max_of_def split: if_splits intro: Max_in)

lemma dense_skip:
  assumes "docs_dense ws c" "skip_upto (length c) (max_of (map fst c)) = Some m" "0 \<le> i" "i \<le> m"
  shows "i \<in> fst ` set c"
proof -
  have m: "max_of (map fst c) = Some m" "int (length c) = m + 1" using assms(2) by (auto simp: skip_upto_def split: option.splits if_splits)
  have "fst ` set c \<subseteq> {0..m}"
  proof
    fix j assume "j \<in> fst ` set c"
    then have "j \<in> set (map fst c)" "0 \<le> j" using assms(1) by (simp, unfold docs_dense_def) blast
    then show "j \<in> {0..m}" using max_of_Some [OF m(1)] by (metis atLeastAtMost_iff)
  qed
  moreover have "card (fst ` set c) = length c" using assms(1) by (metis distinct_card docs_dense_def length_map set_map)
  ultimately have "fst ` set c = {0..m}" using m(2) by (intro card_subset_eq) simp_all
  then show ?thesis using assms(3,4) by simp
qed

lemma frame_stats_holds:
  "(\<And>a. P a \<Longrightarrow> R a) \<Longrightarrow> holds P frame_stats (\<lambda>(n, lo, hi) a. P a \<and> n = length (ra_frames a) \<and> hi = max_of (map fst (ra_frames a))) R"
  unfolding frame_stats_def
  by (intro holds_then [where Q = "\<lambda>n a. P a \<and> n = length (ra_frames a)"] holds_if holds_reading
      holds_then [where Q = "\<lambda>hi a. P a \<and> x = length (ra_frames a) \<and> hi = max_of (map fst (ra_frames a))" for x]
      holds_then [where Q = "\<lambda>lo a. P a \<and> x = length (ra_frames a)" for x] holds_done)
    (auto simp: max_of_def)

lemma dump_frames_holds:
  "holds (archive_ok run ws) (dump_frames fa ws) (\<lambda>k a. archive_ok run ws a \<and> all_frames ws a) (archive_ok run ws)"
  unfolding dump_frames_def
proof (rule holds_then [OF frame_stats_holds], assumption, clarify)
  fix n lo hi
  let ?P = "\<lambda>a :: 'a run_archive. archive_ok run ws a \<and> n = length (ra_frames a) \<and> hi = max_of (map fst (ra_frames a))"
  let ?doc = "\<lambda>f. (fr_frame_idx f, frame_to_doc f)"
  let ?fs = "case fa_frames fa of None \<Rightarrow> ws_frames ws | Some k \<Rightarrow> take k (ws_frames ws)"
  let ?S = "?doc ` {f \<in> set (ws_frames ws). \<exists>m. skip_upto n hi = Some m \<and> fr_frame_idx f \<le> m}"
  have sub: "set (map ?doc (selected (skip_upto n hi) ?fs)) \<subseteq> frame_docs ws"
    by (auto simp: selected_def frame_docs_def split: option.splits dest: in_set_takeD)
  have S: "has_docs ra_frames ?S a" if "?P a" for a
    unfolding has_docs_def
  proof clarify
    fix f m
    assume f: "f \<in> set (ws_frames ws)" "skip_upto n hi = Some m" "fr_frame_idx f \<le> m"
    have ok: "docs_dense ws (ra_frames a)" "0 \<le> fr_frame_idx f" using that f(1) by (auto simp: archive_ok_def ws_ok_def)
    then have "fr_frame_idx f \<in> fst ` set (ra_frames a)" using dense_skip [OF ok(1) _ ok(2) f(3)] that f(2) by simp
    then obtain d where "map_of (ra_frames a) (fr_frame_idx f) = Some d" by (metis map_of_eq_None_iff not_None_eq)
    then show "map_of (ra_frames a) (fr_frame_idx f) = Some (frame_to_doc f)" using ok(1) f(1) by (simp add: docs_dense_def)
  qed
  have all: "all_frames ws a" if "has_docs ra_frames (?S \<union> set (map ?doc (selected (skip_upto n hi) ?fs))) a" "fa_frames fa = None" for a
    unfolding all_frames_def
  proof
    fix f assume f: "f \<in> set (ws_frames ws)"
    then have "?doc f \<in> ?S \<union> set (map ?doc (selected (skip_upto n hi) ?fs))"
      using that(2) by (cases "skip_upto n hi") (auto simp: selected_def)
    then show "map_of (ra_frames a) (fr_frame_idx f) = Some (frame_to_doc f)" using that(1) by (auto simp: has_docs_def)
  qed
  show "holds ?P (write_frames (fa_frames fa \<noteq> None) (selected (skip_upto n hi) ?fs)) (\<lambda>k a. archive_ok run ws a \<and> all_frames ws a) (archive_ok run ws)"
    unfolding write_frames_def
    by (rule holds_weaken [OF frame_writer.write_stream_keeps [OF sub, where S = ?S]]) (use S all in auto)
qed

lemma first_of_id_subset: "set (first_of_id A ps) \<subseteq> set ps"
  by (induction A ps rule: first_of_id.induct) auto

lemma first_of_id_keys: "functional (set ps) \<Longrightarrow> set ps \<subseteq> set (first_of_id A ps) \<union> {p. fst p \<in> A}"
proof (induction A ps rule: first_of_id.induct)
  case (2 A p ps)
  have f: "functional (set ps)" using "2.prems" by (auto simp: functional_def)
  show ?case
  proof (cases "fst p \<in> A")
    case True
    then show ?thesis using "2.IH"(1) [OF True f] by auto
  next
    case False
    have "q = p" if "q \<in> set ps" "fst q = fst p" for q 
    proof -
      have "(fst p, snd p) \<in> set (p # ps)" "(fst p, snd q) \<in> set (p # ps)" using that by (auto, metis prod.collapse)
      from functionalD [OF "2.prems" this] show "q = p" using that(2) by (simp add: prod_eq_iff)
    qed
    then have h: "q \<in> set (first_of_id (insert (fst p) A) ps) \<or> fst q \<in> A \<or> q = p" if "q \<in> set ps" for q
      using "2.IH"(2) [OF False f] that by blast
    show ?thesis
    proof
      fix q assume "q \<in> set (p # ps)"
      then show "q \<in> set (first_of_id A (p # ps)) \<union> {p. fst p \<in> A}" using h [of q] False by (cases "q = p") auto
    qed
  qed
qed simp

lemma first_of_id_all: "functional (set ps) \<Longrightarrow> set (first_of_id {} ps) = set ps"
  using first_of_id_subset [of "{}" ps] first_of_id_keys [of ps "{}"] by auto

lemma row_docs_set: "set (map (\<lambda>(k, v, t). (rid k, v)) rows) = row_docs rid rows"
  by (auto simp: row_docs_def)

text \<open>The stamp a summary carries after a dump: the one read from the store, or else the one it had.\<close>

definition kept_stamp :: "nat option \<Rightarrow> nat option \<Rightarrow> nat option" where
  "kept_stamp store old = (case store of None \<Rightarrow> old | Some t \<Rightarrow> Some t)"

lemma rows_upto_all: "has_docs get (row_docs rid rows) a \<Longrightarrow> rows_upto rid rows (get a) w"
  by (force simp: has_docs_def row_docs_def rows_upto_def)

lemma rows_upto_skipped:
  assumes "content_unchanged old store" "rows_upto rid rows c old" shows "rows_upto rid rows c (kept_stamp store old)"
  using assms by (fastforce simp: content_unchanged_def rows_upto_def kept_stamp_def split: option.splits)

lemma dump_kpi_holds:
  fixes ws :: "'b working_set"
  assumes X: "\<And>a. X (a\<lparr>ra_kpi := []\<rparr>) = X a" and prior: "\<And>a :: 'b run_archive. X a \<Longrightarrow> ra_summary a = prior"
  shows "holds (\<lambda>a. archive_ok run ws a \<and> X a) (dump_kpi fa run ws prior)
    (\<lambda>k a. archive_ok run ws a \<and> X a \<and>
       rows_upto (kpi_id run) (ws_kpi ws) (ra_kpi a) (kept_stamp (stamp_of (fa_kpi_stamp fa) (ws_kpi ws)) (case prior of None \<Rightarrow> None | Some su \<Rightarrow> su_kpi_stamp su)))
    (archive_ok run ws)"
proof -
  let ?old = "case prior of None \<Rightarrow> None | Some su \<Rightarrow> su_kpi_stamp su" and ?P = "\<lambda>a. archive_ok run ws a \<and> X a"
  let ?docs = "first_of_id {} (map (\<lambda>(k, v, t). (kpi_id run k, v)) (ws_kpi ws))"
  have old: "rows_upto (kpi_id run) (ws_kpi ws) (ra_kpi a) ?old" if "?P a" for a
    using that prior [of a] by (cases prior) (auto simp: archive_ok_def summary_ok_def rows_upto_def)
  have docs: "set ?docs = row_docs (kpi_id run) (ws_kpi ws)" if "ws_ok ws"
    by (rule first_of_id_all [of "map (\<lambda>(k, v, t). (kpi_id run k, v)) (ws_kpi ws)", unfolded row_docs_set, OF functional_kpi [OF that]])
  have "set ?docs \<subseteq> row_docs (kpi_id run) (ws_kpi ws)" using first_of_id_subset row_docs_set by metis
  note w = kpi_writer.write_stream_keeps [OF this, where S = "{}" and X = X]
  have written: "holds ?P (write_kpi_events run (ws_kpi ws)) (\<lambda>k a. archive_ok run ws a \<and> X a \<and> rows_upto (kpi_id run) (ws_kpi ws) (ra_kpi a) w) (archive_ok run ws)" for w
    unfolding write_kpi_events_def
    by (rule holds_weaken [OF w]) (auto simp: kpi_safe_def X has_rows_def has_docs_def [of _ "{}"] docs archive_ok_def intro: rows_upto_all)
  show ?thesis unfolding dump_kpi_def
    by (rule holds_then [OF holds_reading [where Q = "\<lambda>n. ?P"]], assumption, simp, intro holds_if holds_done holds_fails written)
      (auto intro: rows_upto_skipped old written)
qed

lemma dump_breakdown_holds:
  fixes ws :: "'b working_set"
  assumes X: "\<And>a. X (a\<lparr>ra_breakdown := []\<rparr>) = X a" and prior: "\<And>a :: 'b run_archive. X a \<Longrightarrow> ra_summary a = prior"
  shows "holds (\<lambda>a. archive_ok run ws a \<and> X a) (dump_breakdown fa run ws prior)
    (\<lambda>failed a. archive_ok run ws a \<and> X a \<and> (\<not> failed \<longrightarrow>
       rows_upto (breakdown_id run) (ws_breakdown ws) (ra_breakdown a)
         (kept_stamp (stamp_of (fa_breakdown_stamp fa) (ws_breakdown ws)) (case prior of None \<Rightarrow> None | Some su \<Rightarrow> su_breakdown_stamp su))))
    (archive_ok run ws)"
proof -
  let ?old = "case prior of None \<Rightarrow> None | Some su \<Rightarrow> su_breakdown_stamp su" and ?P = "\<lambda>a. archive_ok run ws a \<and> X a"
  let ?docs = "first_of_id {} (map (\<lambda>(k, v, t). (breakdown_id run k, v)) (ws_breakdown ws))"
  have old: "rows_upto (breakdown_id run) (ws_breakdown ws) (ra_breakdown a) ?old" if "?P a" for a
    using that prior [of a] by (cases prior) (auto simp: archive_ok_def summary_ok_def rows_upto_def)
  have docs: "set ?docs = row_docs (breakdown_id run) (ws_breakdown ws)" if "ws_ok ws"
    by (rule first_of_id_all [of "map (\<lambda>(k, v, t). (breakdown_id run k, v)) (ws_breakdown ws)", unfolded row_docs_set, OF functional_breakdown [OF that]])
  have "set ?docs \<subseteq> row_docs (breakdown_id run) (ws_breakdown ws)" using first_of_id_subset row_docs_set by metis
  note w = breakdown_writer.write_stream_keeps [OF this, where S = "{}" and X = X]
  have written: "holds ?P (write_breakdown_rows run (ws_breakdown ws))
      (\<lambda>k a. archive_ok run ws a \<and> X a \<and> rows_upto (breakdown_id run) (ws_breakdown ws) (ra_breakdown a) w) (archive_ok run ws)" for w
    unfolding write_breakdown_rows_def
    by (rule holds_weaken [OF w]) (auto simp: breakdown_safe_def X has_rows_def has_docs_def [of _ "{}"] docs archive_ok_def intro: rows_upto_all)
  show ?thesis unfolding dump_breakdown_def
    by (rule holds_then [OF holds_reading [where Q = "\<lambda>n. ?P"]], assumption, simp, intro holds_if holds_done holds_then [OF written])
      (auto intro: rows_upto_skipped old written)
qed

section \<open>A dump keeps the archive in step\<close>

text \<open>What is known of the archive and of the summary \<open>su\<close> a dump has computed, up to the write of the summary.\<close>

definition copied :: "faults \<Rightarrow> string \<Rightarrow> 'b working_set \<Rightarrow> bool \<Rightarrow> summary option \<Rightarrow> 'b run_archive \<Rightarrow> bool" where
  "copied fa run ws failed prior a \<longleftrightarrow> all_frames ws a \<and>
     rows_upto (kpi_id run) (ws_kpi ws) (ra_kpi a) (kept_stamp (stamp_of (fa_kpi_stamp fa) (ws_kpi ws)) (case prior of None \<Rightarrow> None | Some su \<Rightarrow> su_kpi_stamp su)) \<and>
     (\<not> failed \<longrightarrow> rows_upto (breakdown_id run) (ws_breakdown ws) (ra_breakdown a)
        (kept_stamp (stamp_of (fa_breakdown_stamp fa) (ws_breakdown ws)) (case prior of None \<Rightarrow> None | Some su \<Rightarrow> su_breakdown_stamp su)))"

definition describes :: "faults \<Rightarrow> 'b working_set \<Rightarrow> bool \<Rightarrow> bool \<Rightarrow> 'b run_archive \<Rightarrow> summary \<Rightarrow> bool" where
  "describes fa ws terminal failed a su \<longleftrightarrow> su_frame_max su = max_of (map fst (ra_frames a)) \<and> su_kpi_count su = length (ra_kpi a) \<and>
     su_breakdown_count su = length (ra_breakdown a) \<and> su_complete su = (terminal \<and> \<not> failed) \<and>
     su_kpi_stamp su = stamp_of (fa_kpi_stamp fa) (ws_kpi ws) \<and>
     su_breakdown_stamp su = (if failed then None else stamp_of (fa_breakdown_stamp fa) (ws_breakdown ws))"

lemma set_summary_fields [simp]:
  "su_frame_max (set_summary su old) = su_frame_max su" "su_kpi_count (set_summary su old) = su_kpi_count su"
  "su_breakdown_count (set_summary su old) = su_breakdown_count su" "su_complete (set_summary su old) = su_complete su"
  "su_kpi_stamp (set_summary su old) = kept_stamp (su_kpi_stamp su) (case old of None \<Rightarrow> None | Some o' \<Rightarrow> su_kpi_stamp o')"
  "su_breakdown_stamp (set_summary su old) = kept_stamp (su_breakdown_stamp su) (case old of None \<Rightarrow> None | Some o' \<Rightarrow> su_breakdown_stamp o')"
  by (simp_all add: set_summary_def kept_stamp_def split: option.splits)

lemma summary_written:
  assumes "archive_ok run ws a" "copied fa run ws failed (ra_summary a) a" "describes fa ws terminal failed a su"
  shows "archive_ok run ws (a\<lparr>ra_summary := Some (set_summary su (ra_summary a))\<rparr>)"
proof -
  have "frames_upto ws (ra_frames a) (su_frame_max su)" unfolding frames_upto_def
  proof (intro allI impI conjI)
    fix m assume "su_frame_max su = Some m"
    then show "m \<in> fst ` set (ra_frames a)" using max_of_Some [of "map fst (ra_frames a)" m] assms(3) by (simp add: describes_def)
  next
    show "\<forall>f \<in> set (ws_frames ws). fr_frame_idx f \<le> m \<longrightarrow> map_of (ra_frames a) (fr_frame_idx f) = Some (frame_to_doc f)" for m
      using assms(2) by (simp add: copied_def all_frames_def)
  qed
  moreover have "rows_upto (breakdown_id run) (ws_breakdown ws) (ra_breakdown a) (case ra_summary a of None \<Rightarrow> None | Some o' \<Rightarrow> su_breakdown_stamp o')"
    using assms(1) by (cases "ra_summary a") (auto simp: archive_ok_def summary_ok_def rows_upto_def)
  ultimately show ?thesis using assms unfolding archive_ok_def summary_ok_def copied_def describes_def
    by (cases failed) (auto simp: kept_stamp_def [of None])
qed

lemma copied_summary [simp]:
  "copied fa run ws failed prior (a\<lparr>ra_summary := x\<rparr>) = copied fa run ws failed prior a"
  "describes fa ws terminal failed (a\<lparr>ra_summary := x\<rparr>) su = describes fa ws terminal failed a su"
  by (simp_all add: copied_def all_frames_def describes_def)

lemma write_summary_holds:
  "holds (\<lambda>a. archive_ok run ws a \<and> copied fa run ws failed (ra_summary a) a \<and> describes fa ws terminal failed a su) (write_summary su)
     (\<lambda>u a. archive_ok run ws a \<and> (\<exists>prior. ra_summary a = Some (set_summary su prior) \<and> copied fa run ws failed prior a) \<and> describes fa ws terminal failed a su)
     (archive_ok run ws)"
  by (auto simp: holds_def write_summary_def ask_def split: answer.splits list.splits intro: summary_written)

lemma close_dump_holds:
  "holds (\<lambda>a. archive_ok run ws a \<and> copied fa run ws failed (ra_summary a) a) (close_dump fa ws terminal reason failed)
     (\<lambda>su a. archive_ok run ws a \<and> (\<exists>prior. ra_summary a = Some (set_summary su prior) \<and> copied fa run ws False prior a) \<and>
        describes fa ws terminal False a su)
     (archive_ok run ws)"
  unfolding close_dump_def Let_def
proof (rule holds_then [OF frame_stats_holds], simp)
  fix stats :: "nat \<times> int option \<times> int option"
  let ?P = "\<lambda>a. archive_ok run ws a \<and> copied fa run ws failed (ra_summary a) a \<and> snd (snd stats) = max_of (map fst (ra_frames a))"
  let ?Q = "\<lambda>su a. archive_ok run ws a \<and> (\<exists>prior. ra_summary a = Some (set_summary su prior) \<and> copied fa run ws False prior a) \<and>
      describes fa ws terminal False a su"
  let ?su = "new_summary fa ws terminal reason failed stats"
  have "holds ?P (and_then (reading (\<lambda>a. length (ra_kpi a))) (\<lambda>nk. and_then (reading (\<lambda>a. length (ra_breakdown a))) (\<lambda>nb.
      and_then (write_summary (?su nk nb)) (\<lambda>u. if failed then fails_with Incomplete else done_with (?su nk nb))))) ?Q (archive_ok run ws)"
  proof (rule holds_then [OF holds_reading [where Q = "\<lambda>nk a. ?P a \<and> nk = length (ra_kpi a)"]], simp, simp)
    fix nk
    show "holds (\<lambda>a. ?P a \<and> nk = length (ra_kpi a)) (and_then (reading (\<lambda>a. length (ra_breakdown a))) (\<lambda>nb.
        and_then (write_summary (?su nk nb)) (\<lambda>u. if failed then fails_with Incomplete else done_with (?su nk nb)))) ?Q (archive_ok run ws)"
    proof (rule holds_then [OF holds_reading [where Q = "\<lambda>nb a. (?P a \<and> nk = length (ra_kpi a)) \<and> nb = length (ra_breakdown a)"]], simp, simp)
      fix nb
      have "holds (\<lambda>a. (?P a \<and> nk = length (ra_kpi a)) \<and> nb = length (ra_breakdown a)) (write_summary (?su nk nb))
          (\<lambda>u a. archive_ok run ws a \<and> (\<exists>prior. ra_summary a = Some (set_summary (?su nk nb) prior) \<and> copied fa run ws failed prior a) \<and>
             describes fa ws terminal failed a (?su nk nb)) (archive_ok run ws)"
        by (rule holds_weaken [OF write_summary_holds [where terminal = terminal and failed = failed and ws = ws and fa = fa and run = run]])
            (auto simp: describes_def new_summary_def)
      then show "holds (\<lambda>a. (?P a \<and> nk = length (ra_kpi a)) \<and> nb = length (ra_breakdown a))
          (and_then (write_summary (?su nk nb)) (\<lambda>u. if failed then fails_with Incomplete else done_with (?su nk nb))) ?Q (archive_ok run ws)"
        by (rule holds_then) (intro holds_if holds_fails holds_done, auto)
    qed
  qed
  then show "holds (case stats of (n, lo, hi) \<Rightarrow> \<lambda>a. (archive_ok run ws a \<and> copied fa run ws failed (ra_summary a) a) \<and>
        n = length (ra_frames a) \<and> hi = max_of (map fst (ra_frames a)))
      (and_then (reading (\<lambda>a. length (ra_kpi a))) (\<lambda>nk. and_then (reading (\<lambda>a. length (ra_breakdown a))) (\<lambda>nb.
      and_then (write_summary (?su nk nb)) (\<lambda>u. if failed then fails_with Incomplete else done_with (?su nk nb))))) ?Q (archive_ok run ws)"
    by (rule holds_weaken) (auto split: prod.splits)
qed

definition terminal_for :: "(pyval \<Rightarrow> string) \<Rightarrow> faults \<Rightarrow> bool option \<Rightarrow> 'b working_set \<Rightarrow> bool" where
  "terminal_for render fa closing ws = (case closing of None \<Rightarrow> run_is_terminal render fa ws | Some c \<Rightarrow> c)"

lemma terminal_for_None [simp]: "terminal_for render fa None ws = run_is_terminal render fa ws"
  by (simp add: terminal_for_def)

lemma dump_run_holds:
  "holds (archive_ok run ws) (dump_run render fa run reason closing ws)
     (\<lambda>su a. archive_ok run ws a \<and> (\<exists>prior. ra_summary a = Some (set_summary su prior) \<and> copied fa run ws False prior a) \<and>
        describes fa ws (terminal_for render fa closing ws) False a su)
     (archive_ok run ws)"
  unfolding dump_run_def Let_def terminal_for_def [symmetric]
proof (rule holds_then [OF dump_frames_holds],
    rule holds_then [OF holds_reading [where Q = "\<lambda>prior a. archive_ok run ws a \<and> all_frames ws a \<and> ra_summary a = prior"]])
  fix k prior
  let ?X = "\<lambda>a. all_frames ws a \<and> ra_summary a = prior"
  let ?K = "\<lambda>a. rows_upto (kpi_id run) (ws_kpi ws) (ra_kpi a)
      (kept_stamp (stamp_of (fa_kpi_stamp fa) (ws_kpi ws)) (case prior of None \<Rightarrow> None | Some su \<Rightarrow> su_kpi_stamp su))"
  show "holds (\<lambda>a. archive_ok run ws a \<and> ?X a)
      (and_then (dump_kpi fa run ws prior) (\<lambda>kpis. and_then (dump_breakdown fa run ws prior) (close_dump fa ws (terminal_for render fa closing ws) reason)))
      (\<lambda>su a. archive_ok run ws a \<and> (\<exists>prior. ra_summary a = Some (set_summary su prior) \<and> copied fa run ws False prior a) \<and>
        describes fa ws (terminal_for render fa closing ws) False a su) (archive_ok run ws)"
  proof (rule holds_then [OF dump_kpi_holds])
    fix j
    have "holds (\<lambda>a. archive_ok run ws a \<and> ?X a \<and> ?K a) (dump_breakdown fa run ws prior)
        (\<lambda>failed a. archive_ok run ws a \<and> copied fa run ws failed (ra_summary a) a) (archive_ok run ws)"
      by (rule holds_weaken [OF dump_breakdown_holds [where X = "\<lambda>a. ?X a \<and> ?K a" and prior = prior and run = run]]) (auto simp: all_frames_def copied_def)
    from holds_then [OF this close_dump_holds]
    show "holds (\<lambda>a. archive_ok run ws a \<and> ?X a \<and> ?K a) (and_then (dump_breakdown fa run ws prior) (close_dump fa ws (terminal_for render fa closing ws) reason))
        (\<lambda>su a. archive_ok run ws a \<and> (\<exists>prior. ra_summary a = Some (set_summary su prior) \<and> copied fa run ws False prior a) \<and>
        describes fa ws (terminal_for render fa closing ws) False a su) (archive_ok run ws)" .
  qed (simp_all add: all_frames_def)
qed simp_all

section \<open>Histories of a run\<close>

definition no_faults :: faults where
  "no_faults = \<lparr>fa_frames = None, fa_range = False, fa_kpi_count = False, fa_breakdown_count = False, fa_kpi = False, fa_breakdown = False,
     fa_kpi_stamp = False, fa_breakdown_stamp = False, fa_meta = False, fa_export = False\<rparr>"

definition empty_set :: "'b working_set" where
  "empty_set = \<lparr>ws_frames = [], ws_kpi = [], ws_breakdown = [], ws_meta = None, ws_export = None\<rparr>"

text \<open>A write carries a later stamp than the last dump has recorded.\<close>

definition later_than :: "(summary \<Rightarrow> nat option) \<Rightarrow> 'b run_archive \<Rightarrow> nat \<Rightarrow> bool" where
  "later_than stamp a t \<longleftrightarrow> (\<forall>su w. ra_summary a = Some su \<longrightarrow> stamp su = Some w \<longrightarrow> w < t)"

text \<open>
  New frames have increasing indices, rows are written and revised, the store may forget the run, its records of the run's outcome change, and
  dumps are tried with any faults of the store and any answers of the database.
\<close>

inductive archive_step :: "(pyval \<Rightarrow> string) \<Rightarrow> string \<Rightarrow> 'b working_set \<times> 'b run_archive \<Rightarrow> 'b working_set \<times> 'b run_archive \<Rightarrow> bool"
  for render run where
  adds_frame: "0 \<le> fr_frame_idx f \<Longrightarrow> \<forall>i \<in> fr_frame_idx ` set (ws_frames ws) \<union> fst ` set (ra_frames a). i < fr_frame_idx f \<Longrightarrow>
     archive_step render run (ws, a) (ws\<lparr>ws_frames := ws_frames ws @ [f]\<rparr>, a)"
| puts_kpi: "plain (snd k) \<Longrightarrow> later_than su_kpi_stamp a t \<Longrightarrow> archive_step render run (ws, a) (ws\<lparr>ws_kpi := AList.update k (v, t) (ws_kpi ws)\<rparr>, a)"
| puts_breakdown: "plain (fst k) \<Longrightarrow> plain (fst (snd k)) \<Longrightarrow> later_than su_breakdown_stamp a t \<Longrightarrow>
     archive_step render run (ws, a) (ws\<lparr>ws_breakdown := AList.update k (v, t) (ws_breakdown ws)\<rparr>, a)"
| forgets: "archive_step render run (ws, a) (ws\<lparr>ws_frames := [], ws_kpi := [], ws_breakdown := []\<rparr>, a)"
| marks: "archive_step render run (ws, a) (ws\<lparr>ws_meta := meta, ws_export := outcome\<rparr>, a)"
| dumps: "dump_run render fa run reason closing ws (answers, a) = (r, rest, a') \<Longrightarrow> archive_step render run (ws, a) (ws, a')"

lemma rows_upto_write:
  assumes "distinct (map fst rows)" "rows_upto rid rows c stamp" "\<And>w. stamp = Some w \<Longrightarrow> w < t"
  shows "rows_upto rid (AList.update k (v, t) rows) c stamp"
  unfolding rows_upto_def
proof (intro allI impI, clarify)
  fix w k' v' t'
  assume w: "stamp = Some w" "(k', v', t') \<in> set (AList.update k (v, t) rows)" "t' \<le> w"
  have "distinct (map fst (AList.update k (v, t) rows))" using assms(1) by (simp add: distinct_update)
  then have "map_of (AList.update k (v, t) rows) k' = Some (v', t')" using w(2) by (rule map_of_is_SomeI)
  then have "map_of rows k' = Some (v', t')" using w(1,3) assms(3) by (fastforce simp: update_conv' split: if_splits)
  then show "map_of c (rid k') = Some v'" using assms(2) w(1,3) map_of_SomeD by (fastforce simp: rows_upto_def)
qed

lemma archive_ok_add_frame:
  assumes "archive_ok run ws a" "0 \<le> fr_frame_idx f" and above: "\<forall>i \<in> fr_frame_idx ` set (ws_frames ws) \<union> fst ` set (ra_frames a). i < fr_frame_idx f"
  shows "archive_ok run (ws\<lparr>ws_frames := ws_frames ws @ [f]\<rparr>) a"
proof -
  let ?ws = "ws\<lparr>ws_frames := ws_frames ws @ [f]\<rparr>"
  have new: "map_of (ra_frames a) (fr_frame_idx f) = None" using above by (auto simp: map_of_eq_None_iff)
  have "fr_frame_idx f \<notin> fr_frame_idx ` set (ws_frames ws)" using above by blast
  then have "ws_ok ?ws" using assms(1,2) by (simp add: archive_ok_def ws_ok_def)
  moreover have "docs_dense ?ws (ra_frames a)" using assms(1) new by (simp add: archive_ok_def docs_dense_def)
  moreover have "frames_upto ?ws (ra_frames a) hi" if "frames_upto ws (ra_frames a) hi" for hi
    unfolding frames_upto_def
  proof (intro allI impI)
    fix m assume hi: "hi = Some m"
    then have "m < fr_frame_idx f" using that above by (simp add: frames_upto_def)
    then show "m \<in> fst ` set (ra_frames a) \<and> (\<forall>g \<in> set (ws_frames ?ws). fr_frame_idx g \<le> m \<longrightarrow> map_of (ra_frames a) (fr_frame_idx g) = Some (frame_to_doc g))"
      using that hi by (simp add: frames_upto_def)
  qed
  ultimately show ?thesis using assms(1) by (simp add: archive_ok_def summary_ok_def)
qed

lemma archive_ok_put_kpi:
  assumes "archive_ok run ws a" "plain (snd k)" "later_than su_kpi_stamp a t"
  shows "archive_ok run (ws\<lparr>ws_kpi := AList.update k (v, t) (ws_kpi ws)\<rparr>) a"
proof -
  let ?ws = "ws\<lparr>ws_kpi := AList.update k (v, t) (ws_kpi ws)\<rparr>"
  have w: "ws_ok ?ws" "distinct (map fst (ws_kpi ws))" using assms(1,2) by (simp_all add: archive_ok_def ws_ok_def keys_update distinct_update)
  have "summary_ok run ?ws a" unfolding summary_ok_def
  proof (intro allI impI)
    fix su assume su: "ra_summary a = Some su"
    then have "rows_upto (kpi_id run) (AList.update k (v, t) (ws_kpi ws)) (ra_kpi a) (su_kpi_stamp su)"
      using assms(1,3) w(2) by (intro rows_upto_write) (auto simp: archive_ok_def summary_ok_def later_than_def)
    then show "frames_upto ?ws (ra_frames a) (su_frame_max su) \<and> rows_upto (kpi_id run) (ws_kpi ?ws) (ra_kpi a) (su_kpi_stamp su) \<and>
        rows_upto (breakdown_id run) (ws_breakdown ?ws) (ra_breakdown a) (su_breakdown_stamp su)"
      using assms(1) su by (simp add: archive_ok_def summary_ok_def frames_upto_def)
  qed
  then show ?thesis using assms(1) w(1) by (simp add: archive_ok_def docs_dense_def)
qed

lemma archive_ok_put_breakdown:
  assumes "archive_ok run ws a" "plain (fst k)" "plain (fst (snd k))" "later_than su_breakdown_stamp a t"
  shows "archive_ok run (ws\<lparr>ws_breakdown := AList.update k (v, t) (ws_breakdown ws)\<rparr>) a"
proof -
  let ?ws = "ws\<lparr>ws_breakdown := AList.update k (v, t) (ws_breakdown ws)\<rparr>"
  have w: "ws_ok ?ws" "distinct (map fst (ws_breakdown ws))" using assms(1-3) by (simp_all add: archive_ok_def ws_ok_def keys_update distinct_update)
  have "summary_ok run ?ws a" unfolding summary_ok_def
  proof (intro allI impI)
    fix su assume su: "ra_summary a = Some su"
    then have "rows_upto (breakdown_id run) (AList.update k (v, t) (ws_breakdown ws)) (ra_breakdown a) (su_breakdown_stamp su)"
      using assms(1,4) w(2) by (intro rows_upto_write) (auto simp: archive_ok_def summary_ok_def later_than_def)
    then show "frames_upto ?ws (ra_frames a) (su_frame_max su) \<and> rows_upto (kpi_id run) (ws_kpi ?ws) (ra_kpi a) (su_kpi_stamp su) \<and>
        rows_upto (breakdown_id run) (ws_breakdown ?ws) (ra_breakdown a) (su_breakdown_stamp su)"
      using assms(1) su by (simp add: archive_ok_def summary_ok_def frames_upto_def)
  qed
  then show ?thesis using assms(1) w(1) by (simp add: archive_ok_def docs_dense_def)
qed

lemma archive_ok_same:
  "ws_frames ws' = ws_frames ws \<Longrightarrow> ws_kpi ws' = ws_kpi ws \<Longrightarrow> ws_breakdown ws' = ws_breakdown ws \<Longrightarrow> archive_ok run ws' a = archive_ok run ws a"
  by (simp only: archive_ok_def summary_ok_def ws_ok_def docs_dense_def frames_upto_def)

lemma archive_ok_step: "archive_step render run (ws, a) (ws', a') \<Longrightarrow> archive_ok run ws a \<Longrightarrow> archive_ok run ws' a'"
proof (induction "(ws, a)" "(ws', a')" arbitrary: ws a ws' a' rule: archive_step.induct)
  case (adds_frame f ws a)
  then show ?case by (intro archive_ok_add_frame)
next
  case (puts_kpi k a t ws v)
  then show ?case by (intro archive_ok_put_kpi)
next
  case (puts_breakdown k a t ws v)
  then show ?case by (intro archive_ok_put_breakdown)
next
  case (forgets ws a)
  then show ?case unfolding archive_ok_def summary_ok_def
    by (simp add: ws_ok_def docs_dense_def frames_upto_def rows_upto_def)
next
  case (marks ws a outcome meta)
  have "ws_frames (ws\<lparr>ws_meta := meta, ws_export := outcome\<rparr>) = ws_frames ws" "ws_kpi (ws\<lparr>ws_meta := meta, ws_export := outcome\<rparr>) = ws_kpi ws"
    "ws_breakdown (ws\<lparr>ws_meta := meta, ws_export := outcome\<rparr>) = ws_breakdown ws" by simp_all
  from archive_ok_same [OF this] marks show ?case by blast
next
  case (dumps fa reason closing ws answers a r rest a')
  from holdsD [OF dump_run_holds dumps.prems dumps.hyps] show ?case by (cases r) simp_all
qed

lemma archive_ok_reached:
  assumes "(archive_step render run)\<^sup>*\<^sup>* (empty_set, empty_archive) (ws, a)" shows "archive_ok run ws a"
proof -
  have start: "archive_ok run empty_set empty_archive"
    by (simp add: archive_ok_def ws_ok_def docs_dense_def summary_ok_def empty_set_def empty_archive_def)
  have "archive_ok run (fst s) (snd s)" if "(archive_step render run)\<^sup>*\<^sup>* (empty_set, empty_archive) s" for s
    using that
  proof (induction rule: rtranclp_induct)
    case (step s s')
    then show ?case using archive_ok_step [of render run "fst s" "snd s" "fst s'" "snd s'"] by simp
  qed (simp add: start)
  from this [OF assms] show ?thesis by simp
qed

section \<open>Settled runs\<close>

lemma rows_whole:
  assumes "rows_upto rid rows c stamp" "\<not> newer (stamp_of False rows) stamp" "(k, v, t) \<in> set rows"
  shows "map_of c (rid k) = Some v"
proof -
  have t: "t \<in> set (map (\<lambda>(k, v, t). t) rows)" using assms(3) by force
  then obtain m where m: "stamp_of False rows = Some m" by (cases rows) (auto simp: stamp_of_def max_of_def)
  then have "t \<le> m" using t max_of_Some [of "map (\<lambda>(k, v, t). t) rows" m] by (auto simp: stamp_of_def)
  moreover obtain w where "stamp = Some w" "m \<le> w" using assms(2) m by (auto simp: newer_def split: option.splits)
  ultimately show ?thesis using assms(1,3) by (fastforce simp: rows_upto_def)
qed

lemma whole_when_settled:
  assumes "(archive_step render run)\<^sup>*\<^sup>* (empty_set, empty_archive) (ws, a)" and "\<not> run_is_pending render no_faults ws (ra_summary a)"
  shows "(\<forall>f \<in> set (ws_frames ws). map_of (ra_frames a) (fr_frame_idx f) = Some (frame_to_doc f)) \<and>
    (\<forall>(k, v, t) \<in> set (ws_kpi ws). map_of (ra_kpi a) (kpi_id run k) = Some v) \<and>
    (\<forall>(k, v, t) \<in> set (ws_breakdown ws). map_of (ra_breakdown a) (breakdown_id run k) = Some v)"
proof -
  have ok: "archive_ok run ws a" by (rule archive_ok_reached [OF assms(1)])
  obtain su where su: "ra_summary a = Some su" "\<not> moved_past no_faults ws su" using assms(2) by (auto simp: run_is_pending_def split: option.splits)
  have f: "map_of (ra_frames a) (fr_frame_idx f) = Some (frame_to_doc f)" if "f \<in> set (ws_frames ws)" for f
  proof -
    have mem: "fr_frame_idx f \<in> set (map fr_frame_idx (ws_frames ws))" using that by simp
    then obtain m where m: "max_of (map fr_frame_idx (ws_frames ws)) = Some m" by (cases "ws_frames ws") (auto simp: max_of_def)
    then obtain w where "su_frame_max su = Some w" "m \<le> w"
      using su(2) by (auto simp: moved_past_def store_frame_max_def no_faults_def split: option.splits)
    moreover have "fr_frame_idx f \<le> m" using max_of_Some [OF m] mem by blast
    ultimately show ?thesis using ok su(1) that by (fastforce simp: archive_ok_def summary_ok_def frames_upto_def)
  qed
  have "map_of (ra_kpi a) (kpi_id run k) = Some v" if "(k, v, t) \<in> set (ws_kpi ws)" for k v t
    using rows_whole [OF _ _ that, of "kpi_id run" "ra_kpi a" "su_kpi_stamp su"] ok su
    by (auto simp: archive_ok_def summary_ok_def moved_past_def no_faults_def)
  moreover have "map_of (ra_breakdown a) (breakdown_id run k) = Some v" if "(k, v, t) \<in> set (ws_breakdown ws)" for k v t
    using rows_whole [OF _ _ that, of "breakdown_id run" "ra_breakdown a" "su_breakdown_stamp su"] ok su
    by (auto simp: archive_ok_def summary_ok_def moved_past_def no_faults_def)
  ultimately show ?thesis using f by blast
qed

text \<open>
  C15. A run that no longer counts as pending is whole in the archive: over any history of writes, revisions, evictions and dumps that fail anywhere, every
  frame, metric and breakdown row the store holds is in the archive with its present content, and frames read back as they were.
\<close>

theorem settled_run_is_whole:
  assumes "(archive_step render run)\<^sup>*\<^sup>* (empty_set, empty_archive) (ws, a)" and "\<not> run_is_pending render no_faults ws (ra_summary a)"
  shows "(\<forall>f \<in> set (ws_frames ws). map_of (ra_frames a) (fr_frame_idx f) = Some (frame_to_doc f) \<and>
            (fr_kind f = kind_keyframe \<and> fr_version f = frame_version \<longrightarrow> f \<in> set (read_run_frames a))) \<and>
    (\<forall>(k, v, t) \<in> set (ws_kpi ws). map_of (ra_kpi a) (kpi_id run k) = Some v) \<and>
    (\<forall>(k, v, t) \<in> set (ws_breakdown ws). map_of (ra_breakdown a) (breakdown_id run k) = Some v)"
proof -
  note whole = whole_when_settled [OF assms]
  have "f \<in> set (read_run_frames a)" if "f \<in> set (ws_frames ws)" "fr_kind f = kind_keyframe" "fr_version f = frame_version" for f
  proof -
    have "map_of (ra_frames a) (fr_frame_idx f) = Some (frame_to_doc f)" using whole that(1) by blast
    from map_of_SomeD [OF this] show ?thesis using doc_to_frame_to_doc [OF that(2,3)] by (force simp: read_run_frames_def)
  qed
  then show ?thesis using whole by blast
qed

section \<open>A dump that goes through\<close>

text \<open>Without refusals the call ends with a result in \<open>Z\<close>.\<close>

definition goes :: "('b, 'a) call \<Rightarrow> ('a \<Rightarrow> bool) \<Rightarrow> bool" where
  "goes m Z \<longleftrightarrow> (\<forall>a. \<exists>x a'. m ([], a) = (Inr x, [], a') \<and> Z x)"

lemma goes_then: "goes m Z \<Longrightarrow> (\<And>x. Z x \<Longrightarrow> goes (k x) Z') \<Longrightarrow> goes (and_then m k) Z'"
  unfolding goes_def
proof
  fix a
  assume m: "\<forall>a. \<exists>x a'. m ([], a) = (Inr x, [], a') \<and> Z x" and k: "\<And>x. Z x \<Longrightarrow> \<forall>a. \<exists>y a'. k x ([], a) = (Inr y, [], a') \<and> Z' y"
  obtain x a1 where "m ([], a) = (Inr x, [], a1)" "Z x" using m by blast
  moreover from k [OF this(2)] obtain y a2 where "k x ([], a1) = (Inr y, [], a2)" "Z' y" by blast
  ultimately show "\<exists>y a'. and_then m k ([], a) = (Inr y, [], a') \<and> Z' y" by (simp add: and_then_def)
qed

lemma goes_done: "Z x \<Longrightarrow> goes (done_with x) Z"
  by (simp add: goes_def done_with_def)

lemma goes_reading: "(\<And>a. Z (f a)) \<Longrightarrow> goes (reading f) Z"
  by (simp add: goes_def reading_def ask_def)

lemma goes_summary: "Z () \<Longrightarrow> goes (write_summary su) Z"
  by (simp add: goes_def ask_def write_summary_def)

lemmas goes_basic = goes_done goes_reading goes_summary

lemma goes_batch: "goes (write_batch get set_to op docs) (\<lambda>n. True)"
  by (simp add: goes_def write_batch_def done_with_def ask_def)

lemma goes_all: "(\<And>docs. goes (op docs) (\<lambda>n. True)) \<Longrightarrow> goes (write_all op bs) (\<lambda>n. True)"
  by (induction bs) (auto intro!: goes_then goes_basic)

lemma goes_stream: "(\<And>docs. goes (op docs) (\<lambda>n. True)) \<Longrightarrow> goes (write_stream cap op False docs) (\<lambda>n. True)"
  by (cases "full_batches cap docs") (auto simp: write_stream_def intro!: goes_then goes_all goes_basic)

lemma goes_stats: "goes frame_stats (\<lambda>s. True)"
  by (auto simp: frame_stats_def intro!: goes_then [where Z = "\<lambda>n. True"] goes_basic)

lemma goes_dump: "goes (dump_run render no_faults run reason closing ws) (\<lambda>su. True)"
proof -
  have "goes (dump_frames no_faults ws) (\<lambda>n. True)"
    by (auto simp: dump_frames_def write_frames_def insert_batch_def no_faults_def intro!: goes_then [OF goes_stats] goes_stream goes_batch)
  moreover have "goes (dump_kpi no_faults run ws prior) (\<lambda>n. True)" for prior
    unfolding dump_kpi_def write_kpi_events_def replace_kpi_def
    by (rule goes_then [where Z = "\<lambda>n. True"]) (auto simp: no_faults_def intro!: goes_stream goes_batch goes_basic)
  moreover have "goes (dump_breakdown no_faults run ws prior) Not" for prior
    unfolding dump_breakdown_def write_breakdown_rows_def replace_breakdown_def
    by (rule goes_then [where Z = "\<lambda>n. True"]) (auto simp: no_faults_def intro!: goes_then [OF goes_stream [OF goes_batch]] goes_basic)
  moreover have "goes (close_dump no_faults ws terminal reason False) (\<lambda>su. True)" for terminal
    unfolding close_dump_def Let_def
    by (intro goes_then [OF goes_stats] goes_then [where Z = "\<lambda>n. True"] goes_basic) (auto intro: goes_basic)
  ultimately show ?thesis unfolding dump_run_def Let_def
    by (intro goes_then [where Z = "\<lambda>n. True"] goes_then [where Z = Not] goes_basic) auto
qed

lemma rows_count:
  assumes "distinct (map fst rows)" "inj_on rid (fst ` set rows)" "\<And>k v t. (k, v, t) \<in> set rows \<Longrightarrow> map_of c (rid k) = Some v"
  shows "length rows \<le> length c"
proof -
  have "rid ` fst ` set rows \<subseteq> fst ` set c"
  proof clarify
    fix k v t assume "(k, v, t) \<in> set rows"
    from map_of_SomeD [OF assms(3) [OF this]] show "rid (fst (k, v, t)) \<in> fst ` set c" by force
  qed
  then have "card (rid ` fst ` set rows) \<le> card (fst ` set c)" by (intro card_mono) simp_all
  also have "\<dots> \<le> length c" by (metis card_length length_map set_map)
  finally show ?thesis using assms(1,2) by (metis card_image distinct_card length_map set_map)
qed

lemma stamp_kept: "\<not> newer store (kept_stamp store old)"
  by (auto simp: newer_def kept_stamp_def split: option.splits)

lemma rows_upto_stamp:
  "rows_upto rid rows c (kept_stamp (stamp_of False rows) old) \<Longrightarrow> (k, v, t) \<in> set rows \<Longrightarrow> map_of c (rid k) = Some v"
  by (rule rows_whole [OF _ stamp_kept])

lemma clean_dump:
  assumes "(archive_step render run)\<^sup>*\<^sup>* (empty_set, empty_archive) (ws, a)" and "dump_run render no_faults run reason closing ws ([], a) = (r, rest, a')"
  shows "\<exists>su su'. r = Inr su \<and> ra_summary a' = Some su' \<and> su_complete su' = terminal_for render no_faults closing ws \<and>
    \<not> moved_past no_faults ws su'"
proof -
  obtain su where r: "r = Inr su" using goes_dump [of render run reason closing ws] assms(2) unfolding goes_def by (metis prod.inject)
  from holdsD [OF dump_run_holds archive_ok_reached [OF assms(1)] assms(2)] r obtain prior where
    ok: "archive_ok run ws a'" and su': "ra_summary a' = Some (set_summary su prior)" and c: "copied no_faults run ws False prior a'"
    and d: "describes no_faults ws (terminal_for render no_faults closing ws) False a' su" by auto
  have ws: "ws_ok ws" using ok by (simp add: archive_ok_def)
  have "length (ws_kpi ws) \<le> length (ra_kpi a')" using c ws
    by (intro rows_count [OF _ inj_kpi [OF ws, of run]] rows_upto_stamp) (auto simp: ws_ok_def copied_def no_faults_def)
  moreover have "length (ws_breakdown ws) \<le> length (ra_breakdown a')" using c ws
    by (intro rows_count [OF _ inj_breakdown [OF ws, of run]] rows_upto_stamp) (auto simp: ws_ok_def copied_def no_faults_def)
  moreover have "\<exists>w. max_of (map fst (ra_frames a')) = Some w \<and> m \<le> w" if m: "max_of (map fr_frame_idx (ws_frames ws)) = Some m" for m
  proof -
    obtain f where f: "f \<in> set (ws_frames ws)" "m = fr_frame_idx f" using max_of_Some [OF m] by auto
    then have "map_of (ra_frames a') m \<noteq> None" using c by (simp add: copied_def all_frames_def)
    then have mem: "m \<in> set (map fst (ra_frames a'))" by (simp add: map_of_eq_None_iff)
    then obtain w where w: "max_of (map fst (ra_frames a')) = Some w" by (cases "ra_frames a'") (auto simp: max_of_def)
    then show ?thesis using max_of_Some [OF w] mem by blast
  qed
  ultimately have "\<not> moved_past no_faults ws (set_summary su prior)"
    using d stamp_kept unfolding moved_past_def describes_def
    by (auto simp: store_frame_max_def store_kpi_count_def store_breakdown_count_def no_faults_def split: option.splits)
  then show ?thesis using r su' d by (auto simp: describes_def)
qed

text \<open>
  A dump that goes through settles its run: when neither the store nor the database refuses, it ends with a summary after which the run no longer
  counts as pending, and the summary closes the run exactly when the store knows it has finished.
\<close>

theorem clean_dump_settles:
  assumes "(archive_step render run)\<^sup>*\<^sup>* (empty_set, empty_archive) (ws, a)" and "dump_run render no_faults run reason None ws ([], a) = (r, rest, a')"
  shows "\<exists>su su'. r = Inr su \<and> ra_summary a' = Some su' \<and> su_complete su' = run_is_terminal render no_faults ws \<and>
    \<not> run_is_pending render no_faults ws (ra_summary a')"
  using clean_dump [OF assms] by (auto simp: run_is_pending_def terminal_for_def)

definition demo_frame :: frame where
  "demo_frame = \<lparr>fr_frame_idx = 0, fr_sim_time_ms = 0, fr_lng = [], fr_lat = [], fr_slot = [], fr_state = [], fr_haulier = [],
     fr_kind = kind_keyframe, fr_version = frame_version\<rparr>"

definition demo_set :: "nat working_set" where
  "demo_set = empty_set\<lparr>ws_frames := [demo_frame], ws_kpi := [((''m'', ''t''), Fin 1, 5)], ws_meta := Some [(''status'', PyStr ''x'')]\<rparr>"

definition demo_archive :: "nat run_archive" where
  "demo_archive = snd (snd (dump_run (\<lambda>v. []) no_faults ''r'' ''sweep'' None demo_set ([], empty_archive)))"

lemma demo_set_reached: "(archive_step (\<lambda>v. []) ''r'')\<^sup>*\<^sup>* (empty_set, empty_archive) (demo_set, empty_archive)"
proof -
  let ?s = "archive_step (\<lambda>v. []) ''r''" and ?w1 = "(empty_set :: nat working_set)\<lparr>ws_frames := [demo_frame]\<rparr>"
  have "?s (empty_set, empty_archive) (?w1, empty_archive)"
    using adds_frame [of demo_frame empty_set empty_archive] by (simp add: demo_frame_def empty_set_def empty_archive_def)
  moreover have "?s (?w1, empty_archive) (?w1\<lparr>ws_kpi := [((''m'', ''t''), Fin 1, 5)]\<rparr>, empty_archive)"
    using puts_kpi [of "(''m'', ''t'')" empty_archive 5 _ _ ?w1] by (simp add: empty_set_def plain_def later_than_def empty_archive_def)
  moreover have "?s (?w1\<lparr>ws_kpi := [((''m'', ''t''), Fin 1, 5)]\<rparr>, empty_archive) (demo_set, empty_archive)"
    using marks [of _ _ "?w1\<lparr>ws_kpi := [((''m'', ''t''), Fin 1, 5)]\<rparr>" empty_archive None "Some [(''status'', PyStr ''x'')]"]
    by (simp add: demo_set_def empty_set_def)
  ultimately show ?thesis by (blast intro: converse_rtranclp_into_rtranclp)
qed

theorem clean_dump_settles_witness:
  "\<exists>su'. ra_summary demo_archive = Some su' \<and> su_complete su' \<and> \<not> run_is_pending (\<lambda>v. []) no_faults demo_set (ra_summary demo_archive)"
proof -
  obtain r rest a' where d: "dump_run (\<lambda>v. []) no_faults ''r'' ''sweep'' None demo_set ([], empty_archive) = (r, rest, a')" by (metis prod_cases3)
  have "run_is_terminal (\<lambda>v. []) no_faults demo_set"
    by (simp add: run_is_terminal_def finished_status_def probe_run_meta_def no_faults_def demo_set_def empty_set_def py_get_def strip_def is_blank_def
        lower_char_def non_terminal_statuses_def)
  then show ?thesis using clean_dump_settles [OF demo_set_reached d] d by (auto simp: demo_archive_def)
qed

theorem settled_run_is_whole_witness:
  "\<not> run_is_pending (\<lambda>v. []) no_faults demo_set (ra_summary demo_archive) \<and> demo_frame \<in> set (read_run_frames demo_archive) \<and>
   map_of (ra_kpi demo_archive) (kpi_id ''r'' (''m'', ''t'')) = Some (Fin 1)"
proof -
  obtain r rest a' where d: "dump_run (\<lambda>v. []) no_faults ''r'' ''sweep'' None demo_set ([], empty_archive) = (r, rest, a')" by (metis prod_cases3)
  then have "archive_step (\<lambda>v. []) ''r'' (demo_set, empty_archive) (demo_set, demo_archive)" by (auto simp: demo_archive_def intro: dumps)
  with demo_set_reached have reached: "(archive_step (\<lambda>v. []) ''r'')\<^sup>*\<^sup>* (empty_set, empty_archive) (demo_set, demo_archive)" by (rule rtranclp.rtrancl_into_rtrancl)
  have p: "\<not> run_is_pending (\<lambda>v. []) no_faults demo_set (ra_summary demo_archive)"
    using clean_dump [OF demo_set_reached d] d by (auto simp: demo_archive_def run_is_pending_def)
  from settled_run_is_whole [OF reached p] show ?thesis using p by (simp add: demo_set_def demo_frame_def)
qed

end
