(* ===== verification/Archive_Tasks.thy ===== *)
theory Archive_Tasks
  imports Run_Archive
begin

text \<open>
  The archive side of the service (\<open>archive\<close>, \<open>dump_run\<close>, \<open>reconcile_once\<close> of \<open>apps/dataplane/service.py\<close>) and the sweep of the archive
  (\<open>reconcile\<close> of \<open>apps/dataplane/archive/mongo.py\<close>): the probe that connects the archive, the dump of a finished run, and the sweep that dumps
  every run whose archive is behind. Times are milliseconds.
\<close>

section \<open>Connecting\<close>

record probe =
  pb_connected :: bool
  pb_probing :: bool
  pb_at :: int
  pb_backoff :: int
  pb_count :: nat
  pb_available :: bool

definition probe_backoff_initial :: int where "probe_backoff_initial = 5000"
definition probe_backoff_max :: int where "probe_backoff_max = 300000"

definition new_probe :: probe where
  "new_probe = \<lparr>pb_connected = False, pb_probing = False, pb_at = 0, pb_backoff = probe_backoff_initial, pb_count = 0, pb_available = False\<rparr>"

datatype probe_start = Connected | Declined | Probing

text \<open>The probe talks to the database with no lock held, so it is two steps, and other calls come between.\<close>

definition begin_probe :: "int \<Rightarrow> probe \<Rightarrow> probe_start \<times> probe" where
  "begin_probe now p =
     (if pb_connected p then (Connected, p)
      else if pb_probing p then (Declined, p)
      else if now < pb_at p then (Declined, p)
      else (Probing, p\<lparr>pb_count := pb_count p + 1, pb_probing := True\<rparr>))"

definition end_probe :: "int \<Rightarrow> bool \<Rightarrow> probe \<Rightarrow> probe" where
  "end_probe now ok p =
     (if ok then p\<lparr>pb_connected := True, pb_available := True, pb_backoff := probe_backoff_initial, pb_probing := False\<rparr>
      else p\<lparr>pb_available := False, pb_at := now + pb_backoff p, pb_backoff := min (pb_backoff p * 2) probe_backoff_max, pb_probing := False\<rparr>)"

section \<open>Dumping a finished run\<close>

record 'b archives =
  ac_probe :: probe
  ac_sets :: "string \<Rightarrow> 'b working_set"
  ac_runs :: "string \<Rightarrow> 'b run_archive"
  ac_last_dump :: "int option"
  ac_pending :: "string list"
  ac_counters :: "(string, nat) dict"

definition count_archive :: "string \<Rightarrow> 'b archives \<Rightarrow> 'b archives" where
  "count_archive key st = st\<lparr>ac_counters := AList.update key ((case map_of (ac_counters st) key of None \<Rightarrow> 0 | Some k \<Rightarrow> k) + 1) (ac_counters st)\<rparr>"

definition set_available :: "bool \<Rightarrow> 'b archives \<Rightarrow> 'b archives" where
  "set_available b st = st\<lparr>ac_probe := (ac_probe st)\<lparr>pb_available := b\<rparr>\<rparr>"

text \<open>What the store remembers of the export; a write that fails is logged.\<close>

definition record_export_state :: "bool \<Rightarrow> string \<Rightarrow> string \<Rightarrow> 'b archives \<Rightarrow> 'b archives" where
  "record_export_state written run outcome st =
     (if written then count_archive ''export_state_writes'' (st\<lparr>ac_sets := (ac_sets st)(run := (ac_sets st run)\<lparr>ws_export := Some (PyStr outcome)\<rparr>)\<rparr>) else st)"

text \<open>\<open>blocked\<close>: the topics on which the ingest is stuck. A run dumped meanwhile is left open.\<close>

definition service_dump ::
  "(pyval \<Rightarrow> string) \<Rightarrow> faults \<Rightarrow> answer list \<Rightarrow> bool \<Rightarrow> int \<Rightarrow> string set \<Rightarrow> string \<Rightarrow> string \<Rightarrow> 'b archives \<Rightarrow> bool \<times> 'b archives" where
  "service_dump render fa answers written now blocked run reason st =
     (if \<not> pb_connected (ac_probe st) then (False, set_available False st)
      else
        (let stuck = blocked - {''run_status''} \<noteq> {}
         in (case dump_run render fa run reason (if stuck then Some False else None) (ac_sets st run) (answers, ac_runs st run) of
               (Inr su, rest, a) \<Rightarrow>
                 (let st1 = st\<lparr>ac_runs := (ac_runs st)(run := a)\<rparr>; st2 = (if stuck then count_archive ''dumps_left_open_blocked_ingest'' st1 else st1);
                      st3 = count_archive ''dumps_ok'' ((set_available True st2)\<lparr>ac_last_dump := Some now\<rparr>)
                  in (True, record_export_state written run ''exported'' st3))
             | (Inl e, rest, a) \<Rightarrow>
                 (let st1 = count_archive ''dumps_failed'' (set_available False (st\<lparr>ac_runs := (ac_runs st)(run := a)\<rparr>))
                  in (False, record_export_state written run ''error'' st1)))))"

section \<open>The sweep\<close>

definition pending_runs :: "(pyval \<Rightarrow> string) \<Rightarrow> (string \<Rightarrow> faults) \<Rightarrow> string list \<Rightarrow> 'b archives \<Rightarrow> string list" where
  "pending_runs render fas runs st = filter (\<lambda>r. run_is_pending render (fas r) (ac_sets st r) (ra_summary (ac_runs st r))) runs"

text \<open>One run of the sweep; a dump that raises is noted and the sweep goes on.\<close>

definition sweep_one ::
  "(pyval \<Rightarrow> string) \<Rightarrow> (string \<Rightarrow> faults) \<Rightarrow> (string \<Rightarrow> answer list) \<Rightarrow> string \<Rightarrow> string
   \<Rightarrow> (string list \<times> string list) \<times> 'b archives \<Rightarrow> (string list \<times> string list) \<times> 'b archives" where
  "sweep_one render fas answers reason run p =
     (case p of ((dumped, errors), st) \<Rightarrow>
        (case dump_run render (fas run) run reason None (ac_sets st run) (answers run, ac_runs st run) of
           (r, rest, a) \<Rightarrow>
             ((case r of Inr su \<Rightarrow> (dumped @ [run], errors) | Inl e \<Rightarrow> (dumped, errors @ [run])), st\<lparr>ac_runs := (ac_runs st)(run := a)\<rparr>)))"

text \<open>The runs that stay open are those without a closed summary.\<close>

definition reconcile ::
  "(pyval \<Rightarrow> string) \<Rightarrow> (string \<Rightarrow> faults) \<Rightarrow> (string \<Rightarrow> answer list) \<Rightarrow> string \<Rightarrow> string list \<Rightarrow> 'b archives
   \<Rightarrow> (string list \<times> string list \<times> string list) \<times> 'b archives" where
  "reconcile render fas answers reason candidates st =
     (case fold (sweep_one render fas answers reason) (pending_runs render fas candidates st) (([], []), st) of
        ((dumped, errors), st1) \<Rightarrow>
          ((dumped, errors, sorted_set (filter (\<lambda>r. case ra_summary (ac_runs st1 r) of None \<Rightarrow> True | Some su \<Rightarrow> \<not> su_complete su) candidates)), st1))"

text \<open>\<open>queue\<close> are the dumps still queued.\<close>

definition refresh_pending :: "string list \<Rightarrow> string list \<Rightarrow> 'b archives \<Rightarrow> 'b archives" where
  "refresh_pending queue extra st = st\<lparr>ac_pending := fold (\<lambda>r acc. if r \<in> set acc then acc else acc @ [r]) extra queue\<rparr>"

text \<open>
  Whether the first lookup of the summaries, the second one and the probe of the lag afterwards answer: \<open>reconcile\<close> raises when a lookup of the summaries
  does, and a probe that raises counts as no lag.
\<close>

record sweep_calls =
  sw_before :: bool
  sw_after :: bool
  sw_lag :: bool

definition reconcile_once ::
  "(pyval \<Rightarrow> string) \<Rightarrow> (string \<Rightarrow> faults) \<Rightarrow> (string \<Rightarrow> answer list) \<Rightarrow> sweep_calls \<Rightarrow> int \<Rightarrow> string list \<Rightarrow> string list \<Rightarrow> 'b archives \<Rightarrow> 'b archives" where
  "reconcile_once render fas answers sw now runs queue st =
     (if \<not> pb_connected (ac_probe st) \<or> \<not> sw_before sw then refresh_pending queue [] (set_available False st)
      else (case reconcile render fas answers ''sweep'' runs st of
              ((dumped, errors, open_runs), st1) \<Rightarrow>
                if \<not> sw_after sw then refresh_pending queue [] (set_available False st1)
                else
                  (let st2 = set_available True st1; st3 = (if dumped \<noteq> [] then st2\<lparr>ac_last_dump := Some now\<rparr> else st2)
                   in refresh_pending queue (if sw_lag sw then pending_runs render fas runs st3 else []) st3)))"

section \<open>A sweep settles every run\<close>

lemma sweep_one_state:
  assumes "dump_run render (fas run) run reason None (ac_sets st run) (answers run, ac_runs st run) = (r, rest, a)"
  shows "snd (sweep_one render fas answers reason run (de, st)) = st\<lparr>ac_runs := (ac_runs st)(run := a)\<rparr>"
  using assms by (cases de) (simp add: sweep_one_def)

lemma sweep_keeps_set: "ac_sets (snd (fold (sweep_one render fas answers reason) runs p)) = ac_sets (snd p)"
proof (induction runs arbitrary: p)
  case (Cons run runs)
  have "ac_sets (snd (sweep_one render fas answers reason run p)) = ac_sets (snd p)" by (auto simp: sweep_one_def split: prod.splits)
  then show ?case using Cons by simp
qed simp

lemma sweep_keeps_other: "run \<notin> set runs \<Longrightarrow> ac_runs (snd (fold (sweep_one render fas answers reason) runs p)) run = ac_runs (snd p) run"
proof (induction runs arbitrary: p)
  case (Cons r runs)
  have "ac_runs (snd (sweep_one render fas answers reason r p)) run = ac_runs (snd p) run" using Cons.prems by (auto simp: sweep_one_def split: prod.splits)
  then show ?case using Cons by simp
qed simp

text \<open>The sweep dumps a pending run once.\<close>

lemma sweep_dumps:
  assumes "run \<in> set runs" "distinct runs" "dump_run render (fas run) run reason None (ac_sets (snd p) run) (answers run, ac_runs (snd p) run) = (r, rest, a)"
  shows "ac_runs (snd (fold (sweep_one render fas answers reason) runs p)) run = a"
  using assms
proof (induction runs arbitrary: p)
  case (Cons r' runs)
  show ?case
  proof (cases "r' = run")
    case True
    then show ?thesis using Cons.prems sweep_one_state [of render fas run reason "snd p" answers r rest a "fst p"]
      by (simp add: sweep_keeps_other)
  next
    case False
    have "ac_sets (snd (sweep_one render fas answers reason r' p)) = ac_sets (snd p)" "ac_runs (snd (sweep_one render fas answers reason r' p)) run = ac_runs (snd p) run"
      using False by (auto simp: sweep_one_def split: prod.splits)
    then show ?thesis using Cons.IH [of "sweep_one render fas answers reason r' p"] Cons.prems False by simp
  qed
qed simp

text \<open>
  C18. A missed trigger costs delay, not data: after one sweep that meets no fault and no refusal no run of the store is pending, every row and frame the
  store holds of it is in the archive as it is now, whatever writes, evictions and broken dumps came before.
\<close>

theorem sweep_settles_all:
  assumes "\<forall>r \<in> set runs. (archive_step render r)\<^sup>*\<^sup>* (empty_set, empty_archive) (ac_sets st r, ac_runs st r)" and "distinct runs"
    and "reconcile render (\<lambda>r. no_faults) (\<lambda>r. []) reason runs st = (res, st')" and "run \<in> set runs"
  shows "\<not> run_is_pending render no_faults (ac_sets st' run) (ra_summary (ac_runs st' run)) \<and> ac_sets st' run = ac_sets st run \<and>
    (\<forall>f \<in> set (ws_frames (ac_sets st run)). map_of (ra_frames (ac_runs st' run)) (fr_frame_idx f) = Some (frame_to_doc f)) \<and>
    (\<forall>(k, v, t) \<in> set (ws_kpi (ac_sets st run)). map_of (ra_kpi (ac_runs st' run)) (kpi_id run k) = Some v) \<and>
    (\<forall>(k, v, t) \<in> set (ws_breakdown (ac_sets st run)). map_of (ra_breakdown (ac_runs st' run)) (breakdown_id run k) = Some v)"
proof -
  let ?fas = "\<lambda>r :: string. no_faults" and ?ans = "\<lambda>r :: string. [] :: answer list"
  let ?p = "(([], []), st)" and ?todo = "pending_runs render ?fas runs st"
  have st': "st' = snd (fold (sweep_one render ?fas ?ans reason) ?todo ?p)" using assms(3) by (auto simp: reconcile_def split: prod.splits)
  have sets: "ac_sets st' = ac_sets st" by (simp add: st' sweep_keeps_set)
  have reach: "(archive_step render run)\<^sup>*\<^sup>* (empty_set, empty_archive) (ac_sets st run, ac_runs st run)" using assms(1,4) by blast
  have "(archive_step render run)\<^sup>*\<^sup>* (empty_set, empty_archive) (ac_sets st' run, ac_runs st' run) \<and>
      \<not> run_is_pending render no_faults (ac_sets st' run) (ra_summary (ac_runs st' run))"
  proof (cases "run \<in> set ?todo")
    case True
    obtain r rest a where d: "dump_run render no_faults run reason None (ac_sets st run) ([], ac_runs st run) = (r, rest, a)" by (metis prod_cases3)
    then have a: "ac_runs st' run = a" using sweep_dumps [OF True, of render ?fas reason ?p ?ans r rest a] assms(2) by (simp add: st' pending_runs_def)
    have "archive_step render run (ac_sets st run, ac_runs st run) (ac_sets st run, a)" using d by (rule dumps)
    then show ?thesis using reach clean_dump [OF reach d] by (auto simp: a sets run_is_pending_def intro: rtranclp.rtrancl_into_rtrancl)
  next
    case False
    then have "ac_runs st' run = ac_runs st run" by (simp add: st' sweep_keeps_other)
    then show ?thesis using False reach assms(4) by (simp add: sets pending_runs_def)
  qed
  then show ?thesis using whole_when_settled [of render run "ac_sets st' run" "ac_runs st' run"] by (simp add: sets)
qed

definition demo_archives :: "nat archives" where
  "demo_archives = \<lparr>ac_probe = new_probe\<lparr>pb_connected := True\<rparr>, ac_sets = (\<lambda>r. demo_set), ac_runs = (\<lambda>r. empty_archive), ac_last_dump = None,
     ac_pending = [], ac_counters = []\<rparr>"

theorem sweep_settles_all_witness:
  "\<exists>res st'. reconcile (\<lambda>v. []) (\<lambda>r. no_faults) (\<lambda>r. []) ''sweep'' [''r''] demo_archives = (res, st') \<and>
     \<not> run_is_pending (\<lambda>v. []) no_faults demo_set (ra_summary (ac_runs st' ''r'')) \<and>
     map_of (ra_frames (ac_runs st' ''r'')) 0 = Some (frame_to_doc demo_frame)"
proof -
  obtain res st' where s: "reconcile (\<lambda>v. []) (\<lambda>r. no_faults) (\<lambda>r. []) ''sweep'' [''r''] demo_archives = (res, st')" by fastforce
  have "\<forall>r \<in> set [''r'']. (archive_step (\<lambda>v. []) r)\<^sup>*\<^sup>* (empty_set, empty_archive) (ac_sets demo_archives r, ac_runs demo_archives r)"
    using demo_set_reached by (simp add: demo_archives_def)
  note w = sweep_settles_all [OF this _ s, of "''r''", simplified]
  have "ac_sets st' ''r'' = demo_set" using w by (simp add: demo_archives_def)
  with w have "\<not> run_is_pending (\<lambda>v. []) no_faults demo_set (ra_summary (ac_runs st' ''r''))"
      "\<forall>f \<in> set (ws_frames demo_set). map_of (ra_frames (ac_runs st' ''r'')) (fr_frame_idx f) = Some (frame_to_doc f)"
    unfolding demo_archives_def by (simp_all del: split_paired_All)
  moreover have "demo_frame \<in> set (ws_frames demo_set)" "fr_frame_idx demo_frame = 0" by (simp_all add: demo_set_def demo_frame_def)
  ultimately show ?thesis using s by fastforce
qed

section \<open>The sweep does not ask whether the ingest is stuck\<close>

text \<open>
  A run dumped while another topic is stuck is left open, since it cannot be certified complete. The sweep takes the open summary of a finished run as
  pending and dumps it with the default closing, so the next sweep closes it although nothing was unstuck.
\<close>

lemma sweep_closes_stuck_run:
  assumes "(archive_step render run)\<^sup>*\<^sup>* (empty_set, empty_archive) (ac_sets st run, ac_runs st run)" and "pb_connected (ac_probe st)"
    and "blocked - {''run_status''} \<noteq> {}" and "run_is_terminal render no_faults (ac_sets st run)"
    and "service_dump render no_faults [] False now blocked run reason st = (b, st1)"
    and "reconcile render (\<lambda>r. no_faults) (\<lambda>r. []) why [run] st1 = (res, st2)"
  shows "b \<and> (\<exists>su. ra_summary (ac_runs st1 run) = Some su \<and> \<not> su_complete su) \<and> (\<exists>su. ra_summary (ac_runs st2 run) = Some su \<and> su_complete su)"
proof -
  obtain r rest a where d: "dump_run render no_faults run reason (Some False) (ac_sets st run) ([], ac_runs st run) = (r, rest, a)" by (metis prod_cases3)
  obtain su su' where su: "r = Inr su" "ra_summary a = Some su'" "\<not> su_complete su'"
    using clean_dump [OF assms(1) d] by (auto simp: terminal_for_def)
  have st1: "b" "ac_runs st1 run = a" "ac_sets st1 = ac_sets st"
    using assms(2,3,5) d su(1) by (auto simp: service_dump_def record_export_state_def count_archive_def set_available_def Let_def)
  have "archive_step render run (ac_sets st run, ac_runs st run) (ac_sets st1 run, ac_runs st1 run)" using d st1 by (auto intro: dumps)
  with assms(1) have reach: "(archive_step render run)\<^sup>*\<^sup>* (empty_set, empty_archive) (ac_sets st1 run, ac_runs st1 run)" by (rule rtranclp.rtrancl_into_rtrancl)
  have p: "pending_runs render (\<lambda>r. no_faults) [run] st1 = [run]" using su(2,3) assms(4) st1 by (simp add: pending_runs_def run_is_pending_def)
  obtain r2 rest2 a2 where d2: "dump_run render no_faults run why None (ac_sets st1 run) ([], ac_runs st1 run) = (r2, rest2, a2)" by (metis prod_cases3)
  have "ac_runs st2 run = a2" using assms(6) p d2 by (auto simp: reconcile_def sweep_one_def split: prod.splits)
  moreover have "\<exists>su. ra_summary a2 = Some su \<and> su_complete su" using clean_dump [OF reach d2] assms(4) st1(3) by (auto simp: terminal_for_def)
  ultimately show ?thesis using su st1 by auto
qed

section \<open>Probes\<close>

datatype probe_event = BeginProbe int | EndProbe int bool

definition probe_do :: "probe_event \<Rightarrow> probe \<Rightarrow> probe" where
  "probe_do ev p = (case ev of BeginProbe now \<Rightarrow> snd (begin_probe now p) | EndProbe now ok \<Rightarrow> if pb_probing p then end_probe now ok p else p)"

text \<open>The wait after a failed probe lies between five seconds and five minutes, and no probe begins while one runs or before the wait is over.\<close>

lemma probe_waits:
  assumes "pb_probing (fold probe_do evs new_probe)"
  shows "5000 \<le> pb_backoff (fold probe_do evs new_probe) \<and> pb_backoff (fold probe_do evs new_probe) \<le> 300000 \<and>
    fst (begin_probe t (fold probe_do evs new_probe)) \<noteq> Probing \<and>
    (t < now + pb_backoff (fold probe_do evs new_probe) \<longrightarrow> fst (begin_probe t (end_probe now False (fold probe_do evs new_probe))) = Declined)"
proof -
  have "5000 \<le> pb_backoff (fold probe_do evs p) \<and> pb_backoff (fold probe_do evs p) \<le> 300000 \<and> (pb_probing (fold probe_do evs p) \<longrightarrow> \<not> pb_connected (fold probe_do evs p))"
    if "5000 \<le> pb_backoff p \<and> pb_backoff p \<le> 300000 \<and> (pb_probing p \<longrightarrow> \<not> pb_connected p)" for p
    using that
  proof (induction evs arbitrary: p)
    case (Cons ev evs)
    have "5000 \<le> pb_backoff (probe_do ev p) \<and> pb_backoff (probe_do ev p) \<le> 300000 \<and> (pb_probing (probe_do ev p) \<longrightarrow> \<not> pb_connected (probe_do ev p))"
      using Cons.prems by (cases ev) (auto simp: probe_do_def begin_probe_def end_probe_def probe_backoff_initial_def probe_backoff_max_def min_def)
    then show ?case using Cons.IH by simp
  qed simp
  from this [of new_probe] show ?thesis using assms by (auto simp: new_probe_def probe_backoff_initial_def begin_probe_def end_probe_def)
qed

end
