(* ===== verification/Hot_Store.thy ===== *)
theory Hot_Store
  imports Frame_Codec
begin

text \<open>
  The packed position tier of the data plane (\<open>apps/dataplane/store/hot.py\<close>): one slab of arrays per resident run,
  eviction of the least recently written run, and the identity (frame counter, slots, haulier codes) that is parked on eviction
  and restored on revival. The lock serialises the operations, so each is one step; a clock reading is an argument.
  A run-time error leaves the store as the code leaves it: every operation returns the store beside its result.
\<close>

section \<open>Slabs\<close>

datatype hot_error = RunNotResident string | HotPy py_error | HotFrame frame_error

record slab =
  sl_capacity :: nat
  sl_lng :: "64 word list"
  sl_lat :: "64 word list"
  sl_state :: "8 word list"
  sl_haulier :: "8 word list"
  sl_written :: "bool list"
  sl_agent_to_slot :: "(string, int) dict"
  sl_slot_to_agent :: "string list"
  sl_n_active :: nat
  sl_frame_counter :: int
  sl_frames_emitted :: int
  sl_last_sim_time :: "64 word"
  sl_haulier_to_code :: "(string, int) dict"
  sl_next_code :: int
  sl_last_touched :: nat
  sl_last_update :: nat
  sl_update_count :: nat

record run_identity =
  id_frame_counter :: int
  id_frames_emitted :: int
  id_agent_to_slot :: "(string, int) dict"
  id_slot_to_agent :: "string list"
  id_haulier_to_code :: "(string, int) dict"
  id_next_code :: int
  id_last_sim_time :: "64 word"
  id_update_count :: nat

definition max_haulier_code :: int where "max_haulier_code = 255"

definition new_slab :: "int \<Rightarrow> nat \<Rightarrow> slab" where
  "new_slab capacity now =
     (let c = nat (max capacity 1)
      in \<lparr>sl_capacity = c, sl_lng = replicate c 0, sl_lat = replicate c 0, sl_state = replicate c 0, sl_haulier = replicate c 0,
          sl_written = replicate c False, sl_agent_to_slot = [], sl_slot_to_agent = [], sl_n_active = 0, sl_frame_counter = 0,
          sl_frames_emitted = 0, sl_last_sim_time = 0, sl_haulier_to_code = [], sl_next_code = 1, sl_last_touched = now,
          sl_last_update = now, sl_update_count = 0\<rparr>)"

text \<open>A copy of an array into a longer one.\<close>

definition widen :: "nat \<Rightarrow> 'a \<Rightarrow> 'a list \<Rightarrow> 'a list" where
  "widen n z xs = xs @ replicate (n - length xs) z"

definition grow :: "nat \<Rightarrow> slab \<Rightarrow> slab" where
  "grow min_capacity s =
     (let c = max (max (sl_capacity s * 2) min_capacity) 1
      in s\<lparr>sl_lng := widen c 0 (sl_lng s), sl_lat := widen c 0 (sl_lat s), sl_state := widen c 0 (sl_state s),
           sl_haulier := widen c 0 (sl_haulier s), sl_written := widen c False (sl_written s), sl_capacity := c\<rparr>)"

definition ensure_capacity :: "int \<Rightarrow> slab \<Rightarrow> slab" where
  "ensure_capacity slot s = (if int (sl_capacity s) \<le> slot then grow (nat (slot + 1)) s else s)"

definition slot_for :: "string \<Rightarrow> slab \<Rightarrow> int \<times> slab" where
  "slot_for agent s =
     (case map_of (sl_agent_to_slot s) agent of
        Some slot \<Rightarrow> (slot, s)
      | None \<Rightarrow>
          (let slot = int (sl_n_active s); s1 = ensure_capacity slot s
           in (slot, s1\<lparr>sl_agent_to_slot := AList.update agent slot (sl_agent_to_slot s1),
                        sl_slot_to_agent := sl_slot_to_agent s1 @ [agent], sl_n_active := sl_n_active s1 + 1\<rparr>)))"

definition code_for_haulier :: "string option \<Rightarrow> slab \<Rightarrow> int \<times> slab" where
  "code_for_haulier haulier s =
     (case haulier of
        None \<Rightarrow> (0, s)
      | Some h \<Rightarrow>
          (if h = [] then (0, s)
           else (case map_of (sl_haulier_to_code s) h of
             Some code \<Rightarrow> (code, s)
           | None \<Rightarrow>
               (let code = (if max_haulier_code < sl_next_code s then max_haulier_code else sl_next_code s);
                    next = (if max_haulier_code < sl_next_code s then sl_next_code s else sl_next_code s + 1)
                in (code, s\<lparr>sl_next_code := next, sl_haulier_to_code := AList.update h code (sl_haulier_to_code s)\<rparr>)))))"

text \<open>The position a Python index names in a sequence of \<open>n\<close> elements.\<close>

definition py_index :: "nat \<Rightarrow> int \<Rightarrow> nat option" where
  "py_index n i = (if 0 \<le> i \<and> i < int n then Some (nat i) else if i < 0 \<and> - i \<le> int n then Some (nat (int n + i)) else None)"

fun place_slots :: "(string, int) dict \<Rightarrow> string list \<Rightarrow> (string, int) dict \<Rightarrow> (py_error + string list) \<times> (string, int) dict" where
  "place_slots [] slots agents = (Inr slots, agents)"
| "place_slots ((agent, slot) # rest) slots agents =
     (case py_index (length slots) slot of
        None \<Rightarrow> (Inl IndexError, agents)
      | Some i \<Rightarrow> place_slots rest (slots[i := agent]) (AList.update agent slot agents))"

definition adopt_slot_map :: "(string, int) dict \<Rightarrow> slab \<Rightarrow> (py_error + unit) \<times> slab" where
  "adopt_slot_map slot_map s =
     (if slot_map = [] then (Inr (), s)
      else
        (let highest = Max (set (map snd slot_map)); s1 = ensure_capacity highest s
         in (case place_slots slot_map (replicate (nat (highest + 1)) []) (sl_agent_to_slot s1) of
               (Inl e, agents) \<Rightarrow> (Inl e, s1\<lparr>sl_agent_to_slot := agents\<rparr>)
             | (Inr slots, agents) \<Rightarrow>
                 (Inr (), s1\<lparr>sl_agent_to_slot := agents, sl_slot_to_agent := slots,
                             sl_n_active := nat (max (int (sl_n_active s1)) (highest + 1))\<rparr>))))"

definition adopt_haulier_codes :: "(string, int) dict \<Rightarrow> slab \<Rightarrow> slab" where
  "adopt_haulier_codes codes s =
     (if codes = [] then s
      else
        (let known = fold (\<lambda>(h, c). AList.update h c) codes (sl_haulier_to_code s);
             assigned = filter (\<lambda>c. c < max_haulier_code) (map snd known)
         in s\<lparr>sl_haulier_to_code := known,
              sl_next_code := max (sl_next_code s) (if assigned = [] then 1 else Max (set assigned) + 1)\<rparr>))"

definition identity_of :: "slab \<Rightarrow> run_identity" where
  "identity_of s =
     \<lparr>id_frame_counter = sl_frame_counter s, id_frames_emitted = sl_frames_emitted s, id_agent_to_slot = sl_agent_to_slot s,
      id_slot_to_agent = sl_slot_to_agent s, id_haulier_to_code = sl_haulier_to_code s, id_next_code = sl_next_code s,
      id_last_sim_time = sl_last_sim_time s, id_update_count = sl_update_count s\<rparr>"

section \<open>The store\<close>

text \<open>What the injected seed answers: it raises, or it returns a value.\<close>

datatype seed_answer = SeedRaises | SeedValue pyval

record hot_store =
  hs_max_runs :: nat
  hs_default_capacity :: int
  hs_runs :: "(string, slab) dict"
  hs_carryover :: "(string, run_identity) dict"
  hs_carryover_max :: nat
  hs_seed :: "(string \<Rightarrow> seed_answer) option"
  hs_seed_errors :: nat
  hs_evictions :: nat

definition new_hot_store :: "int \<Rightarrow> int \<Rightarrow> (string \<Rightarrow> seed_answer) option \<Rightarrow> int \<Rightarrow> hot_store" where
  "new_hot_store max_runs capacity seed carryover_runs =
     \<lparr>hs_max_runs = nat (max max_runs 1), hs_default_capacity = capacity, hs_runs = [], hs_carryover = [],
      hs_carryover_max = nat (max carryover_runs 0), hs_seed = seed, hs_seed_errors = 0, hs_evictions = 0\<rparr>"

definition set_frame_idx_seed :: "(string \<Rightarrow> seed_answer) option \<Rightarrow> hot_store \<Rightarrow> hot_store" where
  "set_frame_idx_seed fn st = st\<lparr>hs_seed := fn\<rparr>"

definition seed_failed :: "hot_store \<Rightarrow> hot_store" where
  "seed_failed st = st\<lparr>hs_seed_errors := hs_seed_errors st + 1\<rparr>"

definition seeded_frame_idx :: "string \<Rightarrow> hot_store \<Rightarrow> (hot_error + int) \<times> hot_store" where
  "seeded_frame_idx run st =
     (case hs_seed st of
        None \<Rightarrow> (Inr 0, st)
      | Some fn \<Rightarrow>
          (case fn run of
             SeedRaises \<Rightarrow> (Inr 0, seed_failed st)
           | SeedValue v \<Rightarrow>
               (if v = PyNone then (Inr 0, st)
                else (case py_int v of
                  Inr i \<Rightarrow> (Inr (max i 0), st)
                | Inl e \<Rightarrow> if e \<in> {TypeError, ValueError} then (Inr 0, seed_failed st) else (Inl (HotPy e), st)))))"

text \<open>Rebinding the slab of a run that is resident.\<close>

definition put_slab :: "string \<Rightarrow> slab \<Rightarrow> hot_store \<Rightarrow> hot_store" where
  "put_slab run s st = st\<lparr>hs_runs := AList.update run s (hs_runs st)\<rparr>"

definition touch_read :: "nat \<Rightarrow> slab \<Rightarrow> slab" where
  "touch_read now s = s\<lparr>sl_last_touched := now\<rparr>"

definition touch_write :: "nat \<Rightarrow> slab \<Rightarrow> slab" where
  "touch_write now s = s\<lparr>sl_last_touched := now, sl_last_update := now\<rparr>"

definition park :: "string \<Rightarrow> slab \<Rightarrow> hot_store \<Rightarrow> hot_store" where
  "park run s st =
     (if hs_carryover_max st = 0 then st
      else
        (let parked = AList.delete run (hs_carryover st) @ [(run, identity_of s)]
         in st\<lparr>hs_carryover := drop (length parked - hs_carryover_max st) parked\<rparr>))"

definition lru_victim :: "(string, slab) dict \<Rightarrow> string option" where
  "lru_victim runs =
     (if runs = [] then None
      else List.find (\<lambda>r. map_option sl_last_update (map_of runs r) = Some (Min ((\<lambda>r. sl_last_update (the (map_of runs r))) ` set (map fst runs))))
        (map fst runs))"

definition evict_slab :: "string \<Rightarrow> slab \<Rightarrow> hot_store \<Rightarrow> hot_store" where
  "evict_slab run s st =
     (let st1 = park run s (st\<lparr>hs_runs := AList.delete run (hs_runs st)\<rparr>) in st1\<lparr>hs_evictions := hs_evictions st1 + 1\<rparr>)"

text \<open>The loop of \<open>_evict_lru_locked\<close>; each round removes one slab, so the surplus bounds the rounds.\<close>

fun evict_rounds :: "nat \<Rightarrow> hot_store \<Rightarrow> hot_store" where
  "evict_rounds 0 st = st"
| "evict_rounds (Suc k) st =
     (case lru_victim (hs_runs st) of
        None \<Rightarrow> st
      | Some victim \<Rightarrow>
          (case map_of (hs_runs st) victim of None \<Rightarrow> st | Some s \<Rightarrow> evict_rounds k (evict_slab victim s st)))"

definition evict_lru :: "hot_store \<Rightarrow> hot_store" where
  "evict_lru st = evict_rounds (length (hs_runs st) - hs_max_runs st) st"

text \<open>Slots and codes of a new slab: an explicit argument wins, else what was parked.\<close>

definition restore_slots :: "(string, int) dict option \<Rightarrow> run_identity option \<Rightarrow> slab \<Rightarrow> (py_error + unit) \<times> slab" where
  "restore_slots slot_map parked s =
     (case slot_map of
        Some (e # es) \<Rightarrow> adopt_slot_map (e # es) s
      | _ \<Rightarrow>
          (case parked of
             None \<Rightarrow> (Inr (), s)
           | Some p \<Rightarrow>
               (Inr (), ensure_capacity (max (int (length (id_slot_to_agent p)) - 1) 0)
                  (s\<lparr>sl_agent_to_slot := id_agent_to_slot p, sl_slot_to_agent := id_slot_to_agent p,
                     sl_n_active := length (id_slot_to_agent p)\<rparr>))))"

definition restore_codes :: "(string, int) dict option \<Rightarrow> run_identity option \<Rightarrow> slab \<Rightarrow> slab" where
  "restore_codes codes parked s =
     (case codes of
        Some (e # es) \<Rightarrow> adopt_haulier_codes (e # es) s
      | _ \<Rightarrow>
          (case parked of
             None \<Rightarrow> s
           | Some p \<Rightarrow> s\<lparr>sl_haulier_to_code := id_haulier_to_code p, sl_next_code := id_next_code p\<rparr>))"

definition restore_counts :: "run_identity option \<Rightarrow> slab \<Rightarrow> slab" where
  "restore_counts parked s =
     (case parked of
        None \<Rightarrow> s
      | Some p \<Rightarrow> s\<lparr>sl_frames_emitted := id_frames_emitted p, sl_update_count := id_update_count p, sl_last_sim_time := id_last_sim_time p\<rparr>)"

definition create_slab ::
  "nat \<Rightarrow> string \<Rightarrow> int option \<Rightarrow> pyval \<Rightarrow> (string, int) dict option \<Rightarrow> (string, int) dict option \<Rightarrow> hot_store
   \<Rightarrow> (hot_error + unit) \<times> hot_store" where
  "create_slab now run capacity start slot_map codes st =
     (let s0 = new_slab (case capacity of Some c \<Rightarrow> if c = 0 then hs_default_capacity st else c | None \<Rightarrow> hs_default_capacity st) now;
          parked = map_of (hs_carryover st) run;
          st0 = st\<lparr>hs_carryover := AList.delete run (hs_carryover st)\<rparr>
      in (case restore_slots slot_map parked s0 of
            (Inl e, _) \<Rightarrow> (Inl (HotPy e), st0)
          | (Inr _, s1) \<Rightarrow>
              (let s2 = restore_codes codes parked s1
               in (case seeded_frame_idx run st0 of
                     (Inl e, st1) \<Rightarrow> (Inl e, st1)
                   | (Inr seeded, st1) \<Rightarrow>
                       (let s3 = restore_counts parked s2;
                            best = (case parked of None \<Rightarrow> seeded | Some p \<Rightarrow> max seeded (id_frame_counter p))
                        in (case (if start = PyNone then Inr best else map_sum id (\<lambda>i. max best (max i 0)) (py_int start)) of
                              Inl e \<Rightarrow> (Inl (HotPy e), st1)
                            | Inr counter \<Rightarrow>
                                (Inr (), evict_lru (put_slab run (s3\<lparr>sl_frame_counter := counter\<rparr>) st1))))))))"

section \<open>Operations\<close>

definition ensure_run ::
  "nat \<Rightarrow> string \<Rightarrow> int option \<Rightarrow> pyval \<Rightarrow> (string, int) dict option \<Rightarrow> (string, int) dict option \<Rightarrow> hot_store
   \<Rightarrow> (hot_error + unit) \<times> hot_store" where
  "ensure_run now run capacity start slot_map codes st =
     (case map_of (hs_runs st) run of
        Some s \<Rightarrow> (Inr (), put_slab run (touch_write now s) st)
      | None \<Rightarrow> create_slab now run capacity start slot_map codes st)"

text \<open>The run made resident and touched, as \<open>slot_for\<close> and \<open>update_position\<close> begin.\<close>

definition writable_slab :: "nat \<Rightarrow> string \<Rightarrow> hot_store \<Rightarrow> (hot_error + slab) \<times> hot_store" where
  "writable_slab now run st =
     (case ensure_run now run None PyNone None None st of
        (Inl e, st1) \<Rightarrow> (Inl e, st1)
      | (Inr _, st1) \<Rightarrow>
          (case map_of (hs_runs st1) run of
             None \<Rightarrow> (Inl (RunNotResident run), st1)
           | Some s \<Rightarrow> (Inr (touch_write now s), put_slab run (touch_write now s) st1)))"

definition hot_slot_for :: "nat \<Rightarrow> string \<Rightarrow> string \<Rightarrow> hot_store \<Rightarrow> (hot_error + int) \<times> hot_store" where
  "hot_slot_for now run agent st =
     (case writable_slab now run st of
        (Inl e, st1) \<Rightarrow> (Inl e, st1)
      | (Inr s, st1) \<Rightarrow> (case slot_for agent s of (slot, s1) \<Rightarrow> (Inr slot, put_slab run s1 st1)))"

record position =
  ps_lng :: "64 word"
  ps_lat :: "64 word"
  ps_state :: pyval
  ps_haulier :: "string option"
  ps_time :: "64 word"

definition store_position :: "nat \<Rightarrow> position \<Rightarrow> slab \<Rightarrow> slab" where
  "store_position i p s =
     (case code_for_haulier (ps_haulier p) s of
        (code, s1) \<Rightarrow>
          s1\<lparr>sl_lng := (sl_lng s1)[i := ps_lng p], sl_lat := (sl_lat s1)[i := ps_lat p],
             sl_state := (sl_state s1)[i := word_of_nat (state_code (ps_state p))],
             sl_haulier := (sl_haulier s1)[i := word_of_int code], sl_written := (sl_written s1)[i := True],
             sl_last_sim_time := ps_time p, sl_update_count := sl_update_count s1 + 1\<rparr>)"

definition update_position :: "nat \<Rightarrow> string \<Rightarrow> string \<Rightarrow> position \<Rightarrow> hot_store \<Rightarrow> (hot_error + int) \<times> hot_store" where
  "update_position now run agent p st =
     (case writable_slab now run st of
        (Inl e, st1) \<Rightarrow> (Inl e, st1)
      | (Inr s, st1) \<Rightarrow>
          (case slot_for agent s of
             (slot, s1) \<Rightarrow>
               (case py_index (sl_capacity s1) slot of
                  None \<Rightarrow> (Inl (HotPy IndexError), put_slab run s1 st1)
                | Some i \<Rightarrow> (Inr slot, put_slab run (store_position i p s1) st1))))"

definition frame_of :: "int \<Rightarrow> slab \<Rightarrow> frame" where
  "frame_of kind s =
     (let n = sl_n_active s; written = take n (sl_written s);
          idx = filter (\<lambda>i. written ! i) [0..<length written];
          pick = (if n \<noteq> 0 \<and> \<not> list_all id written then True else False)
      in \<lparr>fr_frame_idx = sl_frame_counter s, fr_sim_time_ms = sl_last_sim_time s,
          fr_lng = (if pick then map ((!) (sl_lng s)) idx else take n (sl_lng s)),
          fr_lat = (if pick then map ((!) (sl_lat s)) idx else take n (sl_lat s)),
          fr_slot = map word_of_nat (if pick then idx else [0..<n]),
          fr_state = (if pick then map ((!) (sl_state s)) idx else take n (sl_state s)),
          fr_haulier = (if pick then map ((!) (sl_haulier s)) idx else take n (sl_haulier s)),
          fr_kind = kind, fr_version = frame_version\<rparr>)"

definition snapshot :: "nat \<Rightarrow> string \<Rightarrow> int \<Rightarrow> hot_store \<Rightarrow> (hot_error + frame) \<times> hot_store" where
  "snapshot now run kind st =
     (case map_of (hs_runs st) run of
        None \<Rightarrow> (Inl (RunNotResident run), st)
      | Some s \<Rightarrow>
          (let s1 = touch_read now s
           in (case make_frame (frame_of kind s1) of
                 Inl e \<Rightarrow> (Inl (HotFrame e), put_slab run s1 st)
               | Inr f \<Rightarrow> (Inr f, put_slab run (s1\<lparr>sl_frame_counter := sl_frame_counter s1 + 1, sl_frames_emitted := sl_frames_emitted s1 + 1\<rparr>) st))))"

definition resident_runs :: "hot_store \<Rightarrow> string list" where
  "resident_runs st =
     rev (sort_key (\<lambda>r. case map_of (hs_runs st) r of Some s \<Rightarrow> (sl_last_update s, sl_last_touched s) | None \<Rightarrow> (0, 0)) (rev (map fst (hs_runs st))))"

definition evict :: "string \<Rightarrow> hot_store \<Rightarrow> bool \<times> hot_store" where
  "evict run st = (case map_of (hs_runs st) run of None \<Rightarrow> (False, st) | Some s \<Rightarrow> (True, evict_slab run s st))"

definition read_slab :: "(slab \<Rightarrow> 'a) \<Rightarrow> nat \<Rightarrow> string \<Rightarrow> hot_store \<Rightarrow> (hot_error + 'a) \<times> hot_store" where
  "read_slab f now run st =
     (case map_of (hs_runs st) run of
        None \<Rightarrow> (Inl (RunNotResident run), st)
      | Some s \<Rightarrow> (Inr (f s), put_slab run (touch_read now s) st))"

definition hot_haulier_codes :: "nat \<Rightarrow> string \<Rightarrow> hot_store \<Rightarrow> (hot_error + (string, int) dict) \<times> hot_store" where
  "hot_haulier_codes = read_slab sl_haulier_to_code"

definition hot_slot_map :: "nat \<Rightarrow> string \<Rightarrow> hot_store \<Rightarrow> (hot_error + (string, int) dict) \<times> hot_store" where
  "hot_slot_map = read_slab sl_agent_to_slot"

definition next_frame_idx :: "string \<Rightarrow> hot_store \<Rightarrow> hot_error + int" where
  "next_frame_idx run st = (case map_of (hs_runs st) run of None \<Rightarrow> Inl (RunNotResident run) | Some s \<Rightarrow> Inr (sl_frame_counter s))"

definition owner_of_value :: "(string, int) dict \<Rightarrow> int \<Rightarrow> string option" where
  "owner_of_value current v = map_option fst (List.find (\<lambda>(k, w). w = v) (rev current))"

fun non_clashing :: "(string, int) dict \<Rightarrow> (string, int) dict \<Rightarrow> (string, int) dict \<times> string list" where
  "non_clashing current [] = ([], [])"
| "non_clashing current ((key, v) # rest) =
     (case non_clashing current rest of
        (keep, clashes) \<Rightarrow>
          (case map_of current key of
             Some live \<Rightarrow> (keep, if live \<noteq> v then key # clashes else clashes)
           | None \<Rightarrow>
               (case owner_of_value current v of
                  Some owner \<Rightarrow> if owner \<noteq> key then (keep, key # clashes) else ((key, v) # keep, clashes)
                | None \<Rightarrow> ((key, v) # keep, clashes))))"

definition merge_slots :: "(string, int) dict option \<Rightarrow> slab \<Rightarrow> (py_error + unit) \<times> slab" where
  "merge_slots slot_map s =
     (case slot_map of
        Some (e # es) \<Rightarrow>
          (let mergeable = fst (non_clashing (sl_agent_to_slot s) (e # es))
           in if mergeable = [] then (Inr (), s)
              else adopt_slot_map (fold (\<lambda>(a, i). AList.update a i) mergeable (sl_agent_to_slot s)) s)
      | _ \<Rightarrow> (Inr (), s))"

definition merge_codes :: "(string, int) dict option \<Rightarrow> slab \<Rightarrow> slab" where
  "merge_codes codes s =
     (case codes of Some (e # es) \<Rightarrow> adopt_haulier_codes (fst (non_clashing (sl_haulier_to_code s) (e # es))) s | _ \<Rightarrow> s)"

definition raise_counter :: "pyval \<Rightarrow> slab \<Rightarrow> (py_error + unit) \<times> slab" where
  "raise_counter start s =
     (if start = PyNone then (Inr (), s)
      else (case py_int start of
        Inr i \<Rightarrow> (Inr (), s\<lparr>sl_frame_counter := max (sl_frame_counter s) i\<rparr>)
      | Inl e \<Rightarrow> if e \<in> {TypeError, ValueError} then (Inr (), s) else (Inl e, s)))"

definition seed_run_identity ::
  "nat \<Rightarrow> string \<Rightarrow> (string, int) dict option \<Rightarrow> (string, int) dict option \<Rightarrow> pyval \<Rightarrow> hot_store \<Rightarrow> (hot_error + bool) \<times> hot_store" where
  "seed_run_identity now run codes slot_map start st =
     (case map_of (hs_runs st) run of
        None \<Rightarrow> (case create_slab now run None start slot_map codes st of (r, st1) \<Rightarrow> (map_sum id (\<lambda>_. True) r, st1))
      | Some s \<Rightarrow>
          (case merge_slots slot_map (merge_codes codes s) of
             (Inl e, s1) \<Rightarrow> (Inl (HotPy e), put_slab run s1 st)
           | (Inr _, s1) \<Rightarrow>
               (case raise_counter start s1 of
                  (Inl e, s2) \<Rightarrow> (Inl (HotPy e), put_slab run s2 st)
                | (Inr _, s2) \<Rightarrow> (Inr True, put_slab run s2 st))))"

definition seed_haulier_codes :: "nat \<Rightarrow> string \<Rightarrow> (string, int) dict \<Rightarrow> hot_store \<Rightarrow> (hot_error + bool) \<times> hot_store" where
  "seed_haulier_codes now run codes = seed_run_identity now run (Some codes) None PyNone"

definition rollback_frame_idx :: "string \<Rightarrow> pyval \<Rightarrow> hot_store \<Rightarrow> (hot_error + bool) \<times> hot_store" where
  "rollback_frame_idx run frame_idx st =
     (case map_of (hs_runs st) run of
        None \<Rightarrow> (Inr False, st)
      | Some s \<Rightarrow>
          (case py_int frame_idx of
             Inl e \<Rightarrow> (if e \<in> {TypeError, ValueError} then (Inr False, st) else (Inl (HotPy e), st))
           | Inr idx \<Rightarrow>
               (if sl_frame_counter s \<noteq> idx + 1 then (Inr False, st)
                else (Inr True, put_slab run (s\<lparr>sl_frame_counter := idx, sl_frames_emitted := max (sl_frames_emitted s - 1) 0\<rparr>) st))))"

record hot_stats =
  hst_runs :: nat
  hst_trucks :: nat
  hst_frames :: int
  hst_updates :: nat
  hst_evictions :: nat
  hst_carryover :: nat
  hst_seed_errors :: nat

definition hot_stats_of :: "hot_store \<Rightarrow> hot_stats" where
  "hot_stats_of st =
     \<lparr>hst_runs = length (hs_runs st), hst_trucks = sum_list (map (\<lambda>(r, s). sl_n_active s) (hs_runs st)),
      hst_frames = sum_list (map (\<lambda>(r, s). sl_frames_emitted s) (hs_runs st)), hst_updates = sum_list (map (\<lambda>(r, s). sl_update_count s) (hs_runs st)),
      hst_evictions = hs_evictions st, hst_carryover = length (hs_carryover st), hst_seed_errors = hs_seed_errors st\<rparr>"

end
