(* ===== verification/Hot_Slabs.thy ===== *)
theory Hot_Slabs
  imports Hot_Store
begin

text \<open>
  Identities and invariants of the position tier (\<open>apps/dataplane/store/hot.py\<close>): eviction moves an identity and loses
  none, creation restores it, and slots and haulier codes stay unambiguous.
\<close>

section \<open>Identities\<close>

text \<open>
  What the store knows of a run, resident or parked. Eviction moves an identity from the slabs to the parked table; as
  long as the table has room for every run (\<open>store_ok\<close>) nothing is forgotten.
\<close>

definition known :: "hot_store \<Rightarrow> string \<Rightarrow> run_identity option" where
  "known st r = (case map_of (hs_runs st) r of Some s \<Rightarrow> Some (identity_of s) | None \<Rightarrow> map_of (hs_carryover st) r)"

definition store_ok :: "string set \<Rightarrow> hot_store \<Rightarrow> bool" where
  "store_ok R st \<longleftrightarrow> finite R \<and> card R \<le> hs_carryover_max st \<and> distinct (map fst (hs_runs st) @ map fst (hs_carryover st)) \<and>
     fst ` set (hs_runs st) \<subseteq> R \<and> fst ` set (hs_carryover st) \<subseteq> R"

lemma dict_notin: "map_of d k = None \<longleftrightarrow> k \<notin> fst ` set d"
  by (simp add: map_of_eq_None_iff)

lemma map_of_delete [simp]: "map_of (AList.delete k d) k' = (if k' = k then None else map_of d k')"
  by (simp add: delete_conv')

lemma keys_delete [simp]: "fst ` set (AList.delete k d) = fst ` set d - {k}"
  by (simp flip: dom_map_of_conv_image_fst add: delete_conv' )

lemma dict_in: "map_of d k = Some v \<Longrightarrow> k \<in> fst ` set d"
  using dict_notin [of d k] by fastforce

lemma update_keys_resident: "map_of d k = Some v \<Longrightarrow> map fst (AList.update k w d) = map fst d"
  using dict_in [of d k v] by (simp add: update_keys)

lemma put_slab_fields [simp]:
  "hs_carryover (put_slab r s st) = hs_carryover st" "hs_carryover_max (put_slab r s st) = hs_carryover_max st"
  "hs_max_runs (put_slab r s st) = hs_max_runs st" "hs_seed (put_slab r s st) = hs_seed st"
  "map_of (hs_runs (put_slab r s st)) r' = (if r' = r then Some s else map_of (hs_runs st) r')"
  by (simp_all add: put_slab_def)

lemma known_put [simp]: "known (put_slab r s st) r' = (if r' = r then Some (identity_of s) else known st r')"
  by (simp add: known_def split: option.splits)

lemma store_ok_put: "store_ok R st \<Longrightarrow> map_of (hs_runs st) r = Some s0 \<Longrightarrow> store_ok R (put_slab r s st)"
  unfolding store_ok_def by (auto simp: put_slab_def update_keys_resident keys_update dict_in)

lemma store_ok_new:
  assumes "store_ok R st" and "map_of (hs_runs st) r = None" and "map_of (hs_carryover st) r = None" and "r \<in> R"
  shows "store_ok R (put_slab r s st)"
  using assms unfolding store_ok_def by (auto simp: put_slab_def update_keys keys_update dict_notin)

lemma store_ok_unpark: "store_ok R st \<Longrightarrow> store_ok R (st\<lparr>hs_carryover := AList.delete r (hs_carryover st)\<rparr>)"
  unfolding store_ok_def by (simp add: delete_keys distinct_removeAll) blast

lemma evict_slab_ok:
  assumes ok: "store_ok R st" and run: "map_of (hs_runs st) r = Some s"
  shows "known (evict_slab r s st) = known st" and "store_ok R (evict_slab r s st)"
proof -
  let ?c = "AList.delete r (hs_carryover st) @ [(r, identity_of s)]"
  have parts: "finite R" "card R \<le> hs_carryover_max st" "distinct (map fst (hs_runs st) @ map fst (hs_carryover st))"
      "fst ` set (hs_runs st) \<subseteq> R" "fst ` set (hs_carryover st) \<subseteq> R"
    using ok unfolding store_ok_def by blast+
  have r: "r \<in> fst ` set (hs_runs st)" using dict_in [OF run] .
  then have fresh: "r \<notin> fst ` set (hs_carryover st)" using parts(3) by auto
  then have del: "AList.delete r (hs_carryover st) = hs_carryover st" by (simp add: delete_id)
  have keys: "set (map fst ?c) \<subseteq> R" "distinct (map fst ?c)" using parts r fresh by (auto simp: del)
  have "length ?c = card (set (map fst ?c))" using distinct_card [OF keys(2)] by simp
  then have room: "length ?c \<le> hs_carryover_max st" using card_mono [OF parts(1) keys(1)] parts(2) by simp
  then have ev: "evict_slab r s st = st\<lparr>hs_runs := AList.delete r (hs_runs st), hs_carryover := ?c, hs_evictions := hs_evictions st + 1\<rparr>"
    by (simp add: evict_slab_def park_def Let_def)
  show "known (evict_slab r s st) = known st"
  proof
    fix x
    show "known (evict_slab r s st) x = known st x"
    proof (cases "x = r")
      case True
      have "map_of (hs_carryover st) r = None" using fresh by (simp only: dict_notin not_False_eq_True)
      then show ?thesis using True run by (simp add: ev known_def del map_add_def)
    next
      case False
      then show ?thesis by (simp add: ev known_def del map_add_def split: option.splits)
    qed
  qed
  show "store_ok R (evict_slab r s st)"
    using parts r fresh unfolding store_ok_def by (auto simp: ev del delete_keys distinct_removeAll)
qed

lemma evict_rounds_ok: "store_ok R st \<Longrightarrow> known (evict_rounds k st) = known st \<and> store_ok R (evict_rounds k st)"
proof (induction k arbitrary: st)
  case (Suc k)
  then show ?case by (simp add: evict_slab_ok split: option.splits)
qed simp

lemmas evict_lru_ok = evict_rounds_ok [of R st "length (hs_runs st) - hs_max_runs st" for R st, folded evict_lru_def]

lemma seeded_fields:
  assumes "seeded_frame_idx run st = (x, st1)"
  shows "hs_runs st1 = hs_runs st" and "hs_carryover st1 = hs_carryover st" and "hs_carryover_max st1 = hs_carryover_max st"
    and "hs_max_runs st1 = hs_max_runs st" and "x = Inr i \<Longrightarrow> 0 \<le> i"
  using assms by (auto simp: seeded_frame_idx_def seed_failed_def split: option.splits seed_answer.splits if_splits sum.splits)

text \<open>What a created slab has kept of a parked identity.\<close>

definition extends :: "(string, int) dict \<Rightarrow> (string, int) dict \<Rightarrow> bool" where
  "extends d d' \<longleftrightarrow> (\<forall>k v. map_of d k = Some v \<longrightarrow> map_of d' k = Some v)"

lemma extends_refl [simp]: "extends d d"
  by (simp add: extends_def)

lemma ensure_capacity_fields [simp]:
  "sl_agent_to_slot (ensure_capacity i s) = sl_agent_to_slot s" "sl_slot_to_agent (ensure_capacity i s) = sl_slot_to_agent s"
  "sl_n_active (ensure_capacity i s) = sl_n_active s" "sl_frame_counter (ensure_capacity i s) = sl_frame_counter s"
  "sl_haulier_to_code (ensure_capacity i s) = sl_haulier_to_code s" "sl_next_code (ensure_capacity i s) = sl_next_code s"
  by (simp_all add: ensure_capacity_def grow_def Let_def)

lemma adopt_slot_map_fields:
  "adopt_slot_map m s = (r, s') \<Longrightarrow> sl_frame_counter s' = sl_frame_counter s \<and> sl_haulier_to_code s' = sl_haulier_to_code s \<and> sl_next_code s' = sl_next_code s"
  by (auto simp: adopt_slot_map_def Let_def split: if_splits prod.splits sum.splits)

lemma adopt_haulier_codes_fields [simp]:
  "sl_frame_counter (adopt_haulier_codes m s) = sl_frame_counter s" "sl_agent_to_slot (adopt_haulier_codes m s) = sl_agent_to_slot s"
  "sl_slot_to_agent (adopt_haulier_codes m s) = sl_slot_to_agent s" "sl_n_active (adopt_haulier_codes m s) = sl_n_active s"
  by (simp_all add: adopt_haulier_codes_def Let_def)

lemma restore_codes_fields [simp]:
  "sl_frame_counter (restore_codes m p s) = sl_frame_counter s" "sl_agent_to_slot (restore_codes m p s) = sl_agent_to_slot s"
  by (auto simp: restore_codes_def split: option.splits list.splits)

lemma restore_counts_fields [simp]:
  "sl_agent_to_slot (restore_counts p s) = sl_agent_to_slot s" "sl_haulier_to_code (restore_counts p s) = sl_haulier_to_code s"
  by (auto simp: restore_counts_def split: option.splits)

definition no_map :: "(string, int) dict option \<Rightarrow> bool" where
  "no_map m \<longleftrightarrow> m = None \<or> m = Some []"

lemma restore_slots_parked: "restore_slots m (Some p) s = (r, s1) \<Longrightarrow> no_map m \<Longrightarrow> sl_agent_to_slot s1 = id_agent_to_slot p"
  by (auto simp: restore_slots_def no_map_def)

lemma restore_codes_parked: "no_map m \<Longrightarrow> sl_haulier_to_code (restore_codes m (Some p) s) = id_haulier_to_code p"
  by (auto simp: restore_codes_def no_map_def)

text \<open>The steps of a creation that succeeds.\<close>

lemma create_slab_cases:
  assumes "create_slab now run capacity start slot_map codes st = (x, st')"
  obtains (failed) e st1 where "x = Inl e" "st' = st1" "hs_runs st1 = hs_runs st" "hs_carryover st1 = AList.delete run (hs_carryover st)"
      "hs_carryover_max st1 = hs_carryover_max st" "hs_max_runs st1 = hs_max_runs st"
    | (created) s0 s1 st1 seeded counter where "x = Inr ()"
      "restore_slots slot_map (map_of (hs_carryover st) run) s0 = (Inr (), s1)"
      "s0 = new_slab (case capacity of Some c \<Rightarrow> if c = 0 then hs_default_capacity st else c | None \<Rightarrow> hs_default_capacity st) now"
      "seeded_frame_idx run (st\<lparr>hs_carryover := AList.delete run (hs_carryover st)\<rparr>) = (Inr seeded, st1)"
      "seeded \<le> counter" "\<And>p. map_of (hs_carryover st) run = Some p \<Longrightarrow> id_frame_counter p \<le> counter"
      "\<And>i. py_int start = Inr i \<Longrightarrow> start \<noteq> PyNone \<Longrightarrow> i \<le> counter"
      "st' = evict_lru (put_slab run (restore_counts (map_of (hs_carryover st) run) (restore_codes codes (map_of (hs_carryover st) run) s1)
        \<lparr>sl_frame_counter := counter\<rparr>) st1)"
proof -
  let ?st0 = "st\<lparr>hs_carryover := AList.delete run (hs_carryover st)\<rparr>"
  let ?p = "map_of (hs_carryover st) run"
  let ?s0 = "new_slab (case capacity of Some c \<Rightarrow> if c = 0 then hs_default_capacity st else c | None \<Rightarrow> hs_default_capacity st) now"
  obtain r s1 where rs: "restore_slots slot_map ?p ?s0 = (r, s1)" by fastforce
  obtain y st1 where sd: "seeded_frame_idx run ?st0 = (y, st1)" by fastforce
  note sf = seeded_fields [OF sd]
  have st: "hs_runs st1 = hs_runs st" "hs_carryover st1 = AList.delete run (hs_carryover st)" "hs_carryover_max st1 = hs_carryover_max st"
    "hs_max_runs st1 = hs_max_runs st" using sf by simp_all
  show thesis
  proof (cases r)
    case (Inl e)
    then show thesis using assms rs by (intro failed [of "HotPy e" ?st0]) (auto simp: create_slab_def Let_def)
  next
    case (Inr u)
    show thesis
    proof (cases y)
      case y: (Inl e)
      then show thesis using assms rs sd Inr st by (intro failed [of e st1]) (simp_all add: create_slab_def Let_def)
    next
      case y: (Inr seeded)
      let ?best = "case ?p of None \<Rightarrow> seeded | Some p \<Rightarrow> max seeded (id_frame_counter p)"
      have best: "seeded \<le> ?best" "\<And>p. ?p = Some p \<Longrightarrow> id_frame_counter p \<le> ?best" by (auto split: option.splits)
      show thesis
      proof (cases "if start = PyNone then Inr ?best else map_sum id (\<lambda>i. max ?best (max i 0)) (py_int start)")
        case c: (Inl e)
        then show thesis using assms rs sd Inr y st by (intro failed [of "HotPy e" st1]) (simp_all add: create_slab_def Let_def)
      next
        case c: (Inr counter)
        then have counter: "?best \<le> counter" "\<And>i. py_int start = Inr i \<Longrightarrow> start \<noteq> PyNone \<Longrightarrow> i \<le> counter"
          by (cases "py_int start"; auto split: if_splits)+
        show thesis
          using assms rs sd Inr y c best counter by (intro created [of ?s0 s1 seeded st1 counter]) (auto simp: create_slab_def Let_def intro: order_trans)
      qed
    qed
  qed
qed

text \<open>A creation keeps the identity of every run: what was parked is restored, and its counter does not go down.\<close>

definition keeps :: "bool \<Rightarrow> bool \<Rightarrow> run_identity option \<Rightarrow> run_identity option \<Rightarrow> bool" where
  "keeps slots codes p q \<longleftrightarrow>
     (\<forall>i. p = Some i \<longrightarrow> (\<exists>j. q = Some j \<and> id_frame_counter i \<le> id_frame_counter j \<and>
        (slots \<longrightarrow> extends (id_agent_to_slot i) (id_agent_to_slot j)) \<and> (codes \<longrightarrow> extends (id_haulier_to_code i) (id_haulier_to_code j))))"

lemma keeps_refl [simp]: "keeps b c p p"
  by (simp add: keeps_def)

lemma create_slab_known:
  assumes "store_ok R st" and "map_of (hs_runs st) run = None" and "run \<in> R"
    and "create_slab now run capacity start slot_map codes st = (x, st')"
  shows "store_ok R st'" and "r \<noteq> run \<Longrightarrow> known st' r = known st r"
    and "x = Inr u \<Longrightarrow> keeps (no_map slot_map) (no_map codes) (known st run) (known st' run)"
    and "x = Inr u \<Longrightarrow> py_int start = Inr i \<Longrightarrow> start \<noteq> PyNone \<Longrightarrow> \<exists>q. known st' run = Some q \<and> i \<le> id_frame_counter q"
proof -
  let ?st0 = "st\<lparr>hs_carryover := AList.delete run (hs_carryover st)\<rparr>"
  let ?p = "map_of (hs_carryover st) run"
  have known: "known st run = ?p" using assms(2) by (simp add: known_def)
  have ok0: "store_ok R ?st0" using assms(1) by (rule store_ok_unpark)
  have "store_ok R st' \<and> (r \<noteq> run \<longrightarrow> known st' r = known st r) \<and>
    (x = Inr u \<longrightarrow> keeps (no_map slot_map) (no_map codes) (known st run) (known st' run) \<and>
       (py_int start = Inr i \<longrightarrow> start \<noteq> PyNone \<longrightarrow> (\<exists>q. known st' run = Some q \<and> i \<le> id_frame_counter q)))" for r u i
    using assms(4)
  proof (cases rule: create_slab_cases)
    case (failed e st1)
    then show ?thesis using ok0 by (auto simp: store_ok_def known_def split: option.splits)
  next
    case (created s0 s1 st1 seeded counter)
    let ?s = "restore_counts ?p (restore_codes codes ?p s1)\<lparr>sl_frame_counter := counter\<rparr>"
    note sf = seeded_fields [OF created(4)]
    have ok1: "store_ok R (put_slab run ?s st1)"
      using store_ok_new [of R st1 run ?s] ok0 sf assms(2,3) by (simp add: store_ok_def)
    have k: "known st' = known (put_slab run ?s st1)" "store_ok R st'" using evict_lru_ok [OF ok1] created(8) by auto
    have "keeps (no_map slot_map) (no_map codes) ?p (Some (identity_of ?s))"
      using created(2,6) restore_slots_parked [of slot_map _ s0 _ s1] restore_codes_parked [of codes _ s1]
      by (auto simp: keeps_def identity_of_def)
    moreover have "known st' run = Some (identity_of ?s)" using k(1) by simp
    moreover have "known st' r = known st r" if "r \<noteq> run"
      using that sf(1,2) unfolding k(1) by (simp add: known_def split: option.splits)
    moreover have "id_frame_counter (identity_of ?s) = counter" by (simp add: identity_of_def)
    ultimately show ?thesis using k(2) created(7) by (auto simp: known)
  qed
  then show "store_ok R st'" and "r \<noteq> run \<Longrightarrow> known st' r = known st r"
    and "x = Inr u \<Longrightarrow> keeps (no_map slot_map) (no_map codes) (known st run) (known st' run)"
    and "x = Inr u \<Longrightarrow> py_int start = Inr i \<Longrightarrow> start \<noteq> PyNone \<Longrightarrow> \<exists>q. known st' run = Some q \<and> i \<le> id_frame_counter q"
    by blast+
qed

section \<open>The invariant of slabs and identities\<close>

text \<open>
  A slot names one truck and a code below 255 one haulier; the arrays have the capacity of the slab, which is enough for every
  allocated slot.
\<close>

definition slots_ok :: "(string, int) dict \<Rightarrow> string list \<Rightarrow> bool" where
  "slots_ok agents slots \<longleftrightarrow>
     distinct (map fst agents) \<and> (slots \<noteq> [] \<longrightarrow> map_of agents (last slots) = Some (int (length slots) - 1)) \<and>
     (\<forall>a i. map_of agents a = Some i \<longrightarrow> 0 \<le> i \<and> i < int (length slots) \<and> slots ! nat i = a)"

definition codes_ok :: "(string, int) dict \<Rightarrow> int \<Rightarrow> bool" where
  "codes_ok codes next \<longleftrightarrow>
     distinct (map fst codes) \<and> 1 \<le> next \<and> next \<le> 256 \<and> (\<forall>h c. map_of codes h = Some c \<longrightarrow> 1 \<le> c \<and> c \<le> 255 \<and> (c < 255 \<longrightarrow> c < next)) \<and>
     (\<forall>h h' c. map_of codes h = Some c \<longrightarrow> map_of codes h' = Some c \<longrightarrow> c < 255 \<longrightarrow> h = h')"

definition arrays_ok :: "slab \<Rightarrow> bool" where
  "arrays_ok s \<longleftrightarrow> length (sl_lng s) = sl_capacity s \<and> length (sl_lat s) = sl_capacity s \<and> length (sl_state s) = sl_capacity s \<and>
     length (sl_haulier s) = sl_capacity s \<and> length (sl_written s) = sl_capacity s"

definition slab_ok :: "slab \<Rightarrow> bool" where
  "slab_ok s \<longleftrightarrow> slots_ok (sl_agent_to_slot s) (sl_slot_to_agent s) \<and> codes_ok (sl_haulier_to_code s) (sl_next_code s) \<and> arrays_ok s \<and>
     sl_n_active s = length (sl_slot_to_agent s) \<and> sl_n_active s \<le> sl_capacity s"

definition ident_ok :: "run_identity \<Rightarrow> bool" where
  "ident_ok p \<longleftrightarrow> slots_ok (id_agent_to_slot p) (id_slot_to_agent p) \<and> codes_ok (id_haulier_to_code p) (id_next_code p)"

definition slabs_ok :: "hot_store \<Rightarrow> bool" where
  "slabs_ok st \<longleftrightarrow> (\<forall>(r, s) \<in> set (hs_runs st). slab_ok s) \<and> (\<forall>(r, p) \<in> set (hs_carryover st). ident_ok p)"

text \<open>Maps the wiring may hand over.\<close>

definition valid_slots :: "(string, int) dict \<Rightarrow> bool" where
  "valid_slots m \<longleftrightarrow> distinct (map fst m) \<and> distinct (map snd m) \<and> (\<forall>i \<in> set (map snd m). 0 \<le> i)"

definition valid_codes :: "(string, int) dict \<Rightarrow> bool" where
  "valid_codes m \<longleftrightarrow> distinct (map fst m) \<and> (\<forall>c \<in> set (map snd m). 1 \<le> c \<and> c \<le> 255) \<and> distinct (filter (\<lambda>c. c < 255) (map snd m))"

lemma slab_ok_new: "slab_ok (new_slab c now)"
  by (simp add: slab_ok_def new_slab_def Let_def slots_ok_def codes_ok_def arrays_ok_def)

lemma length_widen: "length xs \<le> n \<Longrightarrow> length (widen n z xs) = n"
  by (simp add: widen_def)

lemma arrays_ok_grow:
  assumes "arrays_ok s" shows "arrays_ok (grow k s)"
proof -
  define c where "c = max (max (sl_capacity s * 2) k) 1"
  have "sl_capacity s \<le> c" unfolding c_def by linarith
  then show ?thesis using assms unfolding grow_def Let_def c_def [symmetric] by (simp add: arrays_ok_def length_widen)
qed

lemma arrays_ok_capacity: "arrays_ok s \<Longrightarrow> arrays_ok (ensure_capacity i s)"
  by (simp add: ensure_capacity_def arrays_ok_grow)

lemma capacity_ensured: "i < int (sl_capacity (ensure_capacity i s))" "sl_capacity s \<le> sl_capacity (ensure_capacity i s)"
  by (auto simp: ensure_capacity_def grow_def Let_def)

lemma slab_ok_capacity: "slab_ok s \<Longrightarrow> slab_ok (ensure_capacity i s)"
  using capacity_ensured(2) [of s i] by (simp add: slab_ok_def arrays_ok_capacity)

lemma slots_okD:
  assumes "slots_ok agents slots" and "map_of agents a = Some i"
  shows "0 \<le> i" and "nat i < length slots" and "slots ! nat i = a"
  using assms unfolding slots_ok_def by (auto simp: nat_less_iff simp del: map_of_eq_Some_iff)

lemma slots_ok_snoc:
  assumes "slots_ok agents slots" and "map_of agents a = None"
  shows "slots_ok (AList.update a (int (length slots)) agents) (slots @ [a])"
  unfolding slots_ok_def
proof (intro conjI allI impI)
  show "distinct (map fst (AList.update a (int (length slots)) agents))" using assms(1) by (simp add: slots_ok_def distinct_update)
  show "map_of (AList.update a (int (length slots)) agents) (last (slots @ [a])) = Some (int (length (slots @ [a])) - 1)" by simp
next
  fix b i assume "map_of (AList.update a (int (length slots)) agents) b = Some i"
  then consider "b = a" "i = int (length slots)" | "b \<noteq> a" "map_of agents b = Some i" by (auto split: if_splits)
  then have "0 \<le> i \<and> i < int (length slots) + 1 \<and> (slots @ [a]) ! nat i = b"
    using slots_okD [OF assms(1), of b i] by cases (auto simp: nth_append simp del: map_of_eq_Some_iff)
  then show "0 \<le> i" and "i < int (length (slots @ [a]))" and "(slots @ [a]) ! nat i = b" by auto
qed

lemma slab_ok_slot_for:
  assumes "slab_ok s" and "slot_for a s = (i, s')"
  shows "slab_ok s'" and "0 \<le> i \<and> i < int (sl_n_active s')" and "map_of (sl_agent_to_slot s') a = Some i"
    and "extends (sl_agent_to_slot s) (sl_agent_to_slot s')" and "sl_frame_counter s' = sl_frame_counter s"
    and "sl_haulier_to_code s' = sl_haulier_to_code s"
proof -
  have "slab_ok s' \<and> (0 \<le> i \<and> i < int (sl_n_active s')) \<and> map_of (sl_agent_to_slot s') a = Some i \<and> extends (sl_agent_to_slot s) (sl_agent_to_slot s') \<and>
    sl_frame_counter s' = sl_frame_counter s \<and> sl_haulier_to_code s' = sl_haulier_to_code s"
  proof (cases "map_of (sl_agent_to_slot s) a")
    case None
    let ?s1 = "ensure_capacity (int (sl_n_active s)) s"
    have s': "i = int (sl_n_active s)" "s' = ?s1\<lparr>sl_agent_to_slot := AList.update a i (sl_agent_to_slot s),
        sl_slot_to_agent := sl_slot_to_agent s @ [a], sl_n_active := sl_n_active s + 1\<rparr>"
      using assms(2) None by (auto simp: slot_for_def Let_def)
    have "arrays_ok s'" using assms(1) arrays_ok_capacity [of s] by (simp add: s' slab_ok_def arrays_ok_def)
    then show ?thesis using assms(1) None slots_ok_snoc [of "sl_agent_to_slot s" "sl_slot_to_agent s" a] capacity_ensured(1) [of "int (sl_n_active s)" s]
      by (auto simp: s' slab_ok_def extends_def)
  next
    case (Some k)
    then show ?thesis using assms by (auto simp: slot_for_def slab_ok_def slots_ok_def)
  qed
  then show "slab_ok s'" and "0 \<le> i \<and> i < int (sl_n_active s')" and "map_of (sl_agent_to_slot s') a = Some i"
    and "extends (sl_agent_to_slot s) (sl_agent_to_slot s')" and "sl_frame_counter s' = sl_frame_counter s"
    and "sl_haulier_to_code s' = sl_haulier_to_code s" by blast+
qed

lemma codes_ok_update:
  assumes "codes_ok codes next" and "map_of codes h = None" and "c = (if 255 < next then 255 else next)"
  shows "codes_ok (AList.update h c codes) (if 255 < next then next else next + 1)"
  using assms unfolding codes_ok_def by (auto simp: distinct_update simp del: map_of_eq_Some_iff split: if_splits) force+

lemma slab_ok_code:
  assumes "slab_ok s" and "code_for_haulier h s = (c, s')"
  shows "slab_ok s'" and "0 \<le> c \<and> c \<le> 255" and "extends (sl_haulier_to_code s) (sl_haulier_to_code s')"
    and "sl_agent_to_slot s' = sl_agent_to_slot s" and "sl_frame_counter s' = sl_frame_counter s" and "sl_n_active s' = sl_n_active s"
    and "sl_capacity s' = sl_capacity s" and "sl_slot_to_agent s' = sl_slot_to_agent s"
proof -
  have "slab_ok s' \<and> 0 \<le> c \<and> c \<le> 255 \<and> extends (sl_haulier_to_code s) (sl_haulier_to_code s')"
  proof (cases "\<exists>n. h = Some n \<and> n \<noteq> [] \<and> map_of (sl_haulier_to_code s) n = None")
    case True
    then obtain n where n: "h = Some n" "n \<noteq> []" "map_of (sl_haulier_to_code s) n = None" by blast
    note upd = codes_ok_update [OF _ n(3) refl, of "sl_next_code s"]
    have "1 \<le> sl_next_code s" using assms(1) by (simp add: slab_ok_def codes_ok_def)
    then show ?thesis using assms n upd
      by (auto simp: code_for_haulier_def max_haulier_code_def Let_def slab_ok_def arrays_ok_def extends_def split: if_splits)
  next
    case False
    then show ?thesis using assms by (force simp: code_for_haulier_def slab_ok_def codes_ok_def split: option.splits if_splits)
  qed
  then show "slab_ok s'" and "0 \<le> c \<and> c \<le> 255" and "extends (sl_haulier_to_code s) (sl_haulier_to_code s')" by blast+
  show "sl_agent_to_slot s' = sl_agent_to_slot s" and "sl_frame_counter s' = sl_frame_counter s" and "sl_n_active s' = sl_n_active s"
    and "sl_capacity s' = sl_capacity s" and "sl_slot_to_agent s' = sl_slot_to_agent s"
    using assms(2) by (auto simp: code_for_haulier_def Let_def split: option.splits if_splits)
qed

lemma place_slots_valid:
  assumes "valid_slots m" and "\<forall>i \<in> set (map snd m). i < int (length slots)"
  shows "\<exists>slots' agents'. place_slots m slots agents = (Inr slots', agents') \<and> length slots' = length slots \<and>
    (\<forall>(a, i) \<in> set m. slots' ! nat i = a) \<and> (\<forall>j. int j \<notin> set (map snd m) \<longrightarrow> slots' ! j = slots ! j) \<and>
    (\<forall>a. map_of agents' a = (case map_of m a of Some i \<Rightarrow> Some i | None \<Rightarrow> map_of agents a)) \<and>
    (distinct (map fst agents) \<longrightarrow> distinct (map fst agents'))"
  using assms
proof (induction m arbitrary: slots agents)
  case (Cons e m)
  obtain a i where e: "e = (a, i)" by fastforce
  have i: "0 \<le> i" "i < int (length slots)" "i \<notin> set (map snd m)" "a \<notin> set (map fst m)" "valid_slots m"
    using Cons.prems by (auto simp: e valid_slots_def)
  have step: "place_slots (e # m) slots agents = place_slots m (slots[nat i := a]) (AList.update a i agents)"
    using i by (simp add: e py_index_def)
  have lt: "\<forall>j \<in> set (map snd m). j < int (length (slots[nat i := a]))" using Cons.prems(2) by simp
  obtain slots' agents' where p: "place_slots m (slots[nat i := a]) (AList.update a i agents) = (Inr slots', agents')"
    and q: "length slots' = length slots" "\<forall>(b, k) \<in> set m. slots' ! nat k = b"
      "\<forall>j. int j \<notin> set (map snd m) \<longrightarrow> slots' ! j = (slots[nat i := a]) ! j"
      "\<forall>b. map_of agents' b = (case map_of m b of Some k \<Rightarrow> Some k | None \<Rightarrow> map_of (AList.update a i agents) b)"
      "distinct (map fst (AList.update a i agents)) \<longrightarrow> distinct (map fst agents')"
    using Cons.IH [OF i(5) lt, of "AList.update a i agents"] by auto
  have "map_of m a = None" using i(4) by (simp add: map_of_eq_None_iff)
  moreover have "slots' ! nat i = a" using q(3) i by simp
  ultimately show ?case using p q i step
    by (intro exI [of _ slots'] exI [of _ agents'] conjI) (auto simp: e distinct_update split: option.splits)
qed (simp add: valid_slots_def)

lemma slab_ok_adopt_slots:
  assumes s: "slab_ok s" and m: "valid_slots m" and sub: "extends (sl_agent_to_slot s) m"
    and r: "adopt_slot_map m s = (r, s')"
  shows "r = Inr ()" and "slab_ok s'" and "m \<noteq> [] \<Longrightarrow> map_of (sl_agent_to_slot s') = map_of m"
proof -
  have "r = Inr () \<and> slab_ok s' \<and> (m \<noteq> [] \<longrightarrow> map_of (sl_agent_to_slot s') = map_of m)"
  proof (cases "m = []")
    case False
    define h where "h = Max (set (map snd m))"
    let ?s1 = "ensure_capacity h s"
    have h: "\<forall>i \<in> set (map snd m). i \<le> h" by (simp add: h_def)
    have "h \<in> set (map snd m)" unfolding h_def using False by (intro Max_in) auto
    then have h0: "0 \<le> h" and hm: "h \<in> set (map snd m)" using m by (auto simp: valid_slots_def)
    obtain slots agents where p: "place_slots m (replicate (nat (h + 1)) []) (sl_agent_to_slot s) = (Inr slots, agents)"
      and q: "length slots = nat (h + 1)" "\<forall>(a, i) \<in> set m. slots ! nat i = a"
        "\<forall>a. map_of agents a = (case map_of m a of Some i \<Rightarrow> Some i | None \<Rightarrow> map_of (sl_agent_to_slot s) a)"
        "distinct (map fst (sl_agent_to_slot s)) \<longrightarrow> distinct (map fst agents)"
      using place_slots_valid [OF m, of "replicate (nat (h + 1)) []" "sl_agent_to_slot s"] h h0 by fastforce
    have agents: "map_of agents = map_of m"
    proof
      fix a show "map_of agents a = map_of m a"
        using q(3) sub by (cases "map_of m a"; cases "map_of (sl_agent_to_slot s) a") (simp_all add: extends_def)
    qed
    have res: "r = Inr ()" "s' = ?s1\<lparr>sl_agent_to_slot := agents, sl_slot_to_agent := slots, sl_n_active := nat (max (int (sl_n_active s)) (h + 1))\<rparr>"
      using r False p by (auto simp: adopt_slot_map_def Let_def h_def)
    have look: "map_of m a = Some i \<longleftrightarrow> (a, i) \<in> set m" for a i using m by (simp add: valid_slots_def)
    have old: "int (sl_n_active s) \<le> h + 1"
    proof (cases "sl_slot_to_agent s = []")
      case False
      then have "map_of m (last (sl_slot_to_agent s)) = Some (int (sl_n_active s) - 1)"
        using s sub by (simp add: slab_ok_def slots_ok_def extends_def del: map_of_eq_Some_iff)
      then have "int (sl_n_active s) - 1 \<in> set (map snd m)" unfolding look by force
      then show ?thesis using h by fastforce
    qed (use s h0 in \<open>simp add: slab_ok_def\<close>)
    obtain top where "map_of m top = Some h" using hm unfolding look by auto
    moreover have "slots ! nat h = top" using calculation q(2) unfolding look by auto
    moreover have "last slots = slots ! nat h" using q(1) h0 by (subst last_conv_nth) (auto simp: nat_add_distrib)
    moreover have "0 \<le> i \<and> i < h + 1 \<and> slots ! nat i = a" if "map_of m a = Some i" for a i
      using that h m q(2) unfolding look by (force simp: valid_slots_def)
    ultimately have "slots_ok agents slots" using q(1,4) s h0 unfolding slots_ok_def agents by (simp add: slab_ok_def slots_ok_def)
    then have "slab_ok s'" using s q(1) old h0 capacity_ensured(1) [of h s] arrays_ok_capacity [of s h]
      by (auto simp: res slab_ok_def arrays_ok_def)
    then show ?thesis using res agents by simp
  qed (use assms in \<open>auto simp: adopt_slot_map_def\<close>)
  then show "r = Inr ()" and "slab_ok s'" and "m \<noteq> [] \<Longrightarrow> map_of (sl_agent_to_slot s') = map_of m" by blast+
qed

lemma fold_update_fresh:
  "distinct (map fst (d @ m)) \<Longrightarrow> fold (\<lambda>(a, i). AList.update a i) m d = d @ m"
proof (induction m arbitrary: d)
  case (Cons e m)
  obtain a i where e: "e = (a, i)" by fastforce
  then have "a \<notin> fst ` set d" using Cons.prems by force
  then have "AList.update a i d = d @ [(a, i)]" by (induction d) auto
  then show ?case using Cons.IH [of "d @ [(a, i)]"] Cons.prems by (simp add: e)
qed simp

lemma owner_of_value_None: "owner_of_value d v = None \<longleftrightarrow> v \<notin> snd ` set d"
  by (force simp: owner_of_value_def find_None_iff)

lemma non_clashing_eq: "fst (non_clashing d m) = filter (\<lambda>(k, v). k \<notin> fst ` set d \<and> v \<notin> snd ` set d) m"
proof (induction m)
  case (Cons e m)
  obtain k v where e: "e = (k, v)" by fastforce
  obtain keep clashes where nc: "non_clashing d m = (keep, clashes)" by fastforce
  have own: "k \<in> fst ` set d" if "owner_of_value d v = Some k"
    using that by (force simp: owner_of_value_def dest!: find_SomeD)
  show ?case
  proof (cases "map_of d k")
    case None
    then have "k \<notin> fst ` set d" by (simp only: dict_notin not_False_eq_True)
    then show ?thesis using Cons None own owner_of_value_None [of d v]
      by (cases "owner_of_value d v") (auto simp: e nc)
  next
    case (Some w)
    then show ?thesis using Cons dict_in [OF Some] by (simp add: e nc)
  qed
qed simp

lemma valid_slots_append:
  assumes "valid_slots d" and "valid_slots m"
  shows "valid_slots (d @ fst (non_clashing d m))"
  using assms unfolding valid_slots_def non_clashing_eq by (auto simp: distinct_map_filter) force+

lemma valid_values: "slots_ok agents slots \<Longrightarrow> valid_slots agents"
proof -
  assume ok: "slots_ok agents slots"
  then have d: "distinct (map fst agents)" by (simp add: slots_ok_def)
  have pos: "0 \<le> i \<and> slots ! nat i = a" if "(a, i) \<in> set agents" for a i
    using slots_okD [OF ok, of a i] that d by simp
  have "inj_on snd (set agents)" using pos by (intro inj_onI) (metis prod.collapse)
  moreover have "distinct agents" using d by (simp add: distinct_map)
  ultimately show ?thesis using d pos by (auto simp: valid_slots_def distinct_map)
qed

lemma merge_slots_ok:
  assumes s: "slab_ok s" and m: "\<And>d. slot_map = Some d \<Longrightarrow> valid_slots d" and r: "merge_slots slot_map s = (r, s')"
  shows "r = Inr ()" and "slab_ok s'" and "extends (sl_agent_to_slot s) (sl_agent_to_slot s')"
proof -
  have "r = Inr () \<and> slab_ok s' \<and> extends (sl_agent_to_slot s) (sl_agent_to_slot s')"
  proof (cases "no_map slot_map")
    case False
    then obtain e es where d: "slot_map = Some (e # es)" unfolding no_map_def by (cases slot_map; cases "the slot_map") auto
    let ?cur = "sl_agent_to_slot s"
    let ?m = "fst (non_clashing ?cur (e # es))"
    have m': "valid_slots (e # es)" using m d by blast
    have cur: "valid_slots ?cur" using s by (auto simp: slab_ok_def intro: valid_values)
    have "valid_slots (?cur @ ?m)" by (rule valid_slots_append [OF cur m'])
    then have v: "valid_slots (fold (\<lambda>(a, i). AList.update a i) ?m ?cur)" "fold (\<lambda>(a, i). AList.update a i) ?m ?cur = ?cur @ ?m"
      using fold_update_fresh [of ?cur ?m] by (auto simp: valid_slots_def)
    have ext: "extends ?cur (?cur @ ?m)" by (simp add: extends_def map_add_def)
    show ?thesis
    proof (cases "?m = []")
      case False
      then have "adopt_slot_map (?cur @ ?m) s = (r, s')" using r v by (simp add: merge_slots_def d Let_def)
      note ad = slab_ok_adopt_slots [OF s v(1) [unfolded v(2)] ext this]
      then show ?thesis using ext False by (auto simp: extends_def)
    qed (use r s in \<open>simp add: merge_slots_def d Let_def\<close>)
  qed (use r s in \<open>auto simp: merge_slots_def no_map_def\<close>)
  then show "r = Inr ()" and "slab_ok s'" and "extends (sl_agent_to_slot s) (sl_agent_to_slot s')" by blast+
qed

lemma adopt_codes_ok:
  assumes s: "slab_ok s" and m: "valid_codes m" and fresh: "\<forall>(h, c) \<in> set m. h \<notin> fst ` set (sl_haulier_to_code s) \<and> c \<notin> snd ` set (sl_haulier_to_code s)"
  shows "slab_ok (adopt_haulier_codes m s)" and "extends (sl_haulier_to_code s) (sl_haulier_to_code (adopt_haulier_codes m s))"
proof -
  let ?cur = "sl_haulier_to_code s"
  have cur: "codes_ok ?cur (sl_next_code s)" using s by (simp add: slab_ok_def)
  moreover have "fst ` set ?cur \<inter> fst ` set m = {}" using fresh by fastforce
  ultimately have d: "distinct (map fst (?cur @ m))" using m by (simp add: codes_ok_def valid_codes_def)
  note eq = fold_update_fresh [OF d]
  define known where "known = ?cur @ m"
  define assigned where "assigned = filter (\<lambda>c. c < 255) (map snd known)"
  define nxt where "nxt = max (sl_next_code s) (if assigned = [] then 1 else Max (set assigned) + 1)"
  have look: "map_of known h = Some c \<longleftrightarrow> (h, c) \<in> set ?cur \<or> (h, c) \<in> set m" for h c
    using map_of_eq_Some_iff [OF d, of h c] unfolding known_def by auto
  have cur': "1 \<le> c \<and> c \<le> 255 \<and> (c < 255 \<longrightarrow> c < sl_next_code s)" if "(h, c) \<in> set ?cur" for h c
    using cur that unfolding codes_ok_def by (auto simp: codes_ok_def)
  have inj_cur: "h = h'" if "(h, c) \<in> set ?cur" "(h', c) \<in> set ?cur" "c < 255" for h h' c
    using cur that unfolding codes_ok_def by (metis map_of_eq_Some_iff)
  have inj_m: "h = h'" if "(h, c) \<in> set m" "(h', c) \<in> set m" "c < 255" for h h' c
  proof -
    have "distinct (map snd (filter (\<lambda>x. snd x < 255) m))" using m by (simp add: valid_codes_def filter_map o_def)
    then have "inj_on snd (set (filter (\<lambda>x. snd x < 255) m))" by (simp add: distinct_map)
    then have "(h, c) = (h', c)" using that by (intro inj_onD [of snd "set (filter (\<lambda>x. snd x < 255) m)"]) auto
    then show ?thesis by simp
  qed
  have rng: "1 \<le> c \<and> c \<le> 255" if "map_of known h = Some c" for h c
    using that cur' m unfolding look by (force simp: valid_codes_def)
  have below: "c < nxt" if "map_of known h = Some c" "c < 255" for h c
  proof -
    have "(h, c) \<in> set known" using that(1) by (rule map_of_SomeD)
    then have "c \<in> set assigned" using that(2) by (force simp: assigned_def)
    then have "c \<le> Max (set assigned)" and "assigned \<noteq> []" by auto
    then show ?thesis by (simp add: nxt_def)
  qed
  have "Max (set assigned) < 255" if "assigned \<noteq> []"
  proof -
    have "Max (set assigned) \<in> set assigned" using that by (intro Max_in) auto
    then show ?thesis by (simp add: assigned_def)
  qed
  then have "Max (set assigned) + 1 \<le> 256" if "assigned \<noteq> []" using that by fastforce
  moreover have "1 \<le> sl_next_code s" "sl_next_code s \<le> 256" using cur unfolding codes_ok_def by blast+
  ultimately have nx: "1 \<le> nxt \<and> nxt \<le> 256"
    unfolding nxt_def by (intro conjI max.boundedI order_trans [OF _ max.cobounded1]) (simp_all only: split: if_split, simp_all)
  have mixed: False if "(h, c) \<in> set ?cur" "(h', c) \<in> set m" for h h' c using that fresh by force
  have inj: "h = h'" if "map_of known h = Some c" "map_of known h' = Some c" "c < 255" for h h' c
    using that mixed inj_cur inj_m unfolding look by blast
  have ok: "codes_ok known nxt" unfolding codes_ok_def
  proof (intro conjI allI impI)
    show "distinct (map fst known)" using d unfolding known_def .
  qed (use nx rng below inj in blast)+
  have "slab_ok (adopt_haulier_codes m s) \<and> extends ?cur (sl_haulier_to_code (adopt_haulier_codes m s))"
  proof (cases "m = []")
    case False
    then have "adopt_haulier_codes m s = s\<lparr>sl_haulier_to_code := known, sl_next_code := nxt\<rparr>"
      unfolding adopt_haulier_codes_def Let_def eq known_def assigned_def nxt_def max_haulier_code_def by simp
    then show ?thesis using s ok by (simp add: slab_ok_def arrays_ok_def extends_def) (simp add: known_def map_add_def)
  qed (use s in \<open>simp add: adopt_haulier_codes_def\<close>)
  then show "slab_ok (adopt_haulier_codes m s)" and "extends ?cur (sl_haulier_to_code (adopt_haulier_codes m s))" by blast+
qed

lemma valid_codes_filter: "valid_codes m \<Longrightarrow> valid_codes (filter P m)"
  unfolding valid_codes_def
proof (elim conjE, intro conjI)
  assume "distinct (filter (\<lambda>c. c < 255) (map snd m))"
  then have "distinct (map snd (filter P (filter (\<lambda>x. snd x < 255) m)))" by (intro distinct_map_filter [of snd "filter (\<lambda>x. snd x < 255) m"]) (simp add: filter_map o_def)
  then show "distinct (filter (\<lambda>c. c < 255) (map snd (filter P m)))" by (simp add: filter_map o_def conj_commute)
qed (auto simp: distinct_map_filter)

lemma merge_codes_ok:
  assumes "slab_ok s" and "\<And>d. codes = Some d \<Longrightarrow> valid_codes d"
  shows "slab_ok (merge_codes codes s)" and "extends (sl_haulier_to_code s) (sl_haulier_to_code (merge_codes codes s))"
proof -
  have "slab_ok (merge_codes codes s) \<and> extends (sl_haulier_to_code s) (sl_haulier_to_code (merge_codes codes s))"
  proof (cases "no_map codes")
    case False
    then obtain e es where d: "codes = Some (e # es)" unfolding no_map_def by (cases codes; cases "the codes") auto
    let ?m = "fst (non_clashing (sl_haulier_to_code s) (e # es))"
    have "valid_codes ?m" using assms(2) [OF d] unfolding non_clashing_eq by (rule valid_codes_filter)
    moreover have "\<forall>(h, c) \<in> set ?m. h \<notin> fst ` set (sl_haulier_to_code s) \<and> c \<notin> snd ` set (sl_haulier_to_code s)"
      unfolding non_clashing_eq by auto
    ultimately show ?thesis using adopt_codes_ok [OF assms(1), of ?m] by (simp add: merge_codes_def d)
  qed (auto simp: merge_codes_def no_map_def assms(1))
  then show "slab_ok (merge_codes codes s)" and "extends (sl_haulier_to_code s) (sl_haulier_to_code (merge_codes codes s))" by blast+
qed

lemma slots_ok_shape: "slab_ok s \<Longrightarrow> slots_ok agents slots \<Longrightarrow> n = length slots \<Longrightarrow>
  slab_ok (ensure_capacity (max (int n - 1) 0) (s\<lparr>sl_agent_to_slot := agents, sl_slot_to_agent := slots, sl_n_active := n\<rparr>))"
  using capacity_ensured(1) [of "max (int n - 1) 0" "s\<lparr>sl_agent_to_slot := agents, sl_slot_to_agent := slots, sl_n_active := n\<rparr>"]
    arrays_ok_capacity [of "s\<lparr>sl_agent_to_slot := agents, sl_slot_to_agent := slots, sl_n_active := n\<rparr>"]
  by (simp add: slab_ok_def arrays_ok_def)

lemma restore_slots_ok:
  assumes s: "slab_ok s" "sl_agent_to_slot s = []" and "\<And>d. slot_map = Some d \<Longrightarrow> valid_slots d" and "\<And>p. parked = Some p \<Longrightarrow> ident_ok p"
    and "restore_slots slot_map parked s = (r, s')"
  shows "r = Inr ()" and "slab_ok s'" and "sl_haulier_to_code s' = sl_haulier_to_code s"
proof -
  have "r = Inr () \<and> slab_ok s' \<and> sl_haulier_to_code s' = sl_haulier_to_code s"
  proof (cases "no_map slot_map")
    case False
    then obtain e es where d: "slot_map = Some (e # es)" unfolding no_map_def by (cases slot_map; cases "the slot_map") auto
    then have ad: "adopt_slot_map (e # es) s = (r, s')" using assms(5) by (simp add: restore_slots_def)
    have "extends (sl_agent_to_slot s) (e # es)" by (simp add: s(2) extends_def)
    then show ?thesis using slab_ok_adopt_slots [OF s(1) assms(3) [OF d] _ ad] adopt_slot_map_fields [OF ad] by blast
  next
    case True
    show ?thesis
    proof (cases parked)
      case (Some p)
      then have "slots_ok (id_agent_to_slot p) (id_slot_to_agent p)" using assms(4) by (simp add: ident_ok_def)
      then show ?thesis using slots_ok_shape [OF s(1) _ refl] assms(5) True Some by (auto simp: restore_slots_def no_map_def)
    qed (use True assms in \<open>auto simp: restore_slots_def no_map_def\<close>)
  qed
  then show "r = Inr ()" and "slab_ok s'" and "sl_haulier_to_code s' = sl_haulier_to_code s" by blast+
qed

lemma restore_codes_ok:
  assumes s: "slab_ok s" "sl_haulier_to_code s = []" and "\<And>d. codes = Some d \<Longrightarrow> valid_codes d" and "\<And>p. parked = Some p \<Longrightarrow> ident_ok p"
  shows "slab_ok (restore_codes codes parked s)"
proof (cases "no_map codes")
  case False
  then obtain e es where d: "codes = Some (e # es)" unfolding no_map_def by (cases codes; cases "the codes") auto
  then show ?thesis using adopt_codes_ok [OF s(1) assms(3) [OF d]] s(2) by (simp add: restore_codes_def)
next
  case True
  then show ?thesis using assms by (auto simp: restore_codes_def no_map_def slab_ok_def arrays_ok_def ident_ok_def split: option.splits)
qed

lemma slab_ok_counts:
  "slab_ok s \<Longrightarrow> slab_ok (restore_counts p s)" "slab_ok s \<Longrightarrow> slab_ok (s\<lparr>sl_frame_counter := c\<rparr>)" "slab_ok s \<Longrightarrow> slab_ok (touch_write now s)"
  "slab_ok s \<Longrightarrow> slab_ok (touch_read now s)" "slab_ok s \<Longrightarrow> slab_ok (s\<lparr>sl_frame_counter := c, sl_frames_emitted := k\<rparr>)"
  by (auto simp: slab_ok_def arrays_ok_def restore_counts_def touch_write_def touch_read_def split: option.splits)

lemma identity_ok: "slab_ok s \<Longrightarrow> ident_ok (identity_of s)"
  by (simp add: slab_ok_def ident_ok_def identity_of_def)

lemma store_position_ok:
  assumes "slab_ok s"
  shows "slab_ok (store_position i p s)" and "sl_agent_to_slot (store_position i p s) = sl_agent_to_slot s"
    and "extends (sl_haulier_to_code s) (sl_haulier_to_code (store_position i p s))" and "sl_frame_counter (store_position i p s) = sl_frame_counter s"
proof -
  obtain c s1 where c: "code_for_haulier (ps_haulier p) s = (c, s1)" by fastforce
  note sc = slab_ok_code [OF assms c]
  show "slab_ok (store_position i p s)" using sc(1) by (simp add: store_position_def c slab_ok_def arrays_ok_def)
  show "sl_agent_to_slot (store_position i p s) = sl_agent_to_slot s"
    and "extends (sl_haulier_to_code s) (sl_haulier_to_code (store_position i p s))" and "sl_frame_counter (store_position i p s) = sl_frame_counter s"
    using sc by (simp_all add: store_position_def c)
qed

text \<open>The store.\<close>

lemma slabs_okD: "slabs_ok st \<Longrightarrow> map_of (hs_runs st) r = Some s \<Longrightarrow> slab_ok s" "slabs_ok st \<Longrightarrow> map_of (hs_carryover st) r = Some p \<Longrightarrow> ident_ok p"
  by (auto simp: slabs_ok_def dest!: map_of_SomeD)

lemma update_subset: "set (AList.update k v d) \<subseteq> insert (k, v) (set d)"
  by (induction d) auto

lemma slabs_ok_put: "slabs_ok st \<Longrightarrow> slab_ok s \<Longrightarrow> slabs_ok (put_slab r s st)"
  using update_subset [of r s "hs_runs st"] by (auto simp: slabs_ok_def put_slab_def)

lemma delete_subset: "set (AList.delete k d) \<subseteq> set d"
  by (induction d) auto

lemma slabs_ok_unpark: "slabs_ok st \<Longrightarrow> slabs_ok (st\<lparr>hs_carryover := AList.delete r (hs_carryover st)\<rparr>)"
  using delete_subset [of r "hs_carryover st"] by (auto simp: slabs_ok_def)

lemma slabs_ok_evict:
  assumes "slabs_ok st" and "slab_ok s" shows "slabs_ok (evict_slab r s st)"
  using assms delete_subset [of r "hs_runs st"] delete_subset [of r "hs_carryover st"] identity_ok [OF assms(2)]
  by (auto simp: slabs_ok_def evict_slab_def park_def Let_def dest!: in_set_dropD)

lemma slabs_ok_lru: "slabs_ok st \<Longrightarrow> slabs_ok (evict_lru st)"
proof -
  have "slabs_ok (evict_rounds k st)" if "slabs_ok st" for k st using that
    by (induction k arbitrary: st) (auto split: option.splits intro: slabs_ok_evict slabs_okD)
  then show "slabs_ok st \<Longrightarrow> slabs_ok (evict_lru st)" by (simp add: evict_lru_def)
qed

lemma slabs_ok_seeded: "seeded_frame_idx run st = (x, st1) \<Longrightarrow> slabs_ok st \<Longrightarrow> slabs_ok st1"
  using seeded_fields [of run st x st1] by (simp add: slabs_ok_def)

lemma create_slab_ok:
  assumes "slabs_ok st" and "\<And>d. slot_map = Some d \<Longrightarrow> valid_slots d" and "\<And>d. codes = Some d \<Longrightarrow> valid_codes d"
    and "create_slab now run capacity start slot_map codes st = (x, st')"
  shows "slabs_ok st'"
  using assms(4)
proof (cases rule: create_slab_cases)
  case (failed e st1)
  then show ?thesis using slabs_ok_unpark [OF assms(1), of run] by (simp add: slabs_ok_def)
next
  case (created s0 s1 st1 seeded counter)
  note parked = slabs_okD(2) [OF assms(1), of run]
  have new: "slab_ok s0" "sl_agent_to_slot s0 = []" "sl_haulier_to_code s0 = []"
    using slab_ok_new by (simp_all add: created(3) new_slab_def Let_def)
  note s1 = restore_slots_ok [OF new(1,2) assms(2) parked created(2)]
  have "sl_haulier_to_code s1 = []" using s1(3) new(3) by simp
  note s2 = restore_codes_ok [OF s1(2) this assms(3) parked]
  show ?thesis unfolding created(8)
    by (intro slabs_ok_lru slabs_ok_put slab_ok_counts(1,2) s2 slabs_ok_seeded [OF created(4)] slabs_ok_unpark assms(1))
qed

end
