(* ===== verification/Hot_History.thy ===== *)
theory Hot_History
  imports Hot_Slabs
begin

text \<open>
  Histories of calls on the position tier: every call keeps what is known of a run, frame indices are never handed
  out twice, and what a snapshot returns is a frame the wire codec accepts.
\<close>

section \<open>Histories\<close>

datatype hot_op =
    EnsureRun string "int option" pyval "(string, int) dict option" "(string, int) dict option"
  | SlotFor string string
  | UpdatePosition string string position
  | Snapshot string int
  | Evict string
  | SeedIdentity string "(string, int) dict option" "(string, int) dict option" pyval
  | Rollback string pyval
  | SetSeed "(string \<Rightarrow> seed_answer) option"
  | HaulierCodes string
  | SlotMap string

datatype hot_out = OutNone | OutSlot int | OutFrame frame | OutBool bool | OutMap "(string, int) dict"

text \<open>One call on the store, with its outcome.\<close>

definition as_out :: "('a \<Rightarrow> hot_out) \<Rightarrow> (hot_error + 'a) \<times> hot_store \<Rightarrow> (hot_error + hot_out) \<times> hot_store" where
  "as_out f p = (map_sum id f (fst p), snd p)"

fun hot_call :: "nat \<Rightarrow> hot_op \<Rightarrow> hot_store \<Rightarrow> (hot_error + hot_out) \<times> hot_store" where
  "hot_call now (EnsureRun run capacity start slots codes) st = as_out (\<lambda>_. OutNone) (ensure_run now run capacity start slots codes st)"
| "hot_call now (SlotFor run agent) st = as_out OutSlot (hot_slot_for now run agent st)"
| "hot_call now (UpdatePosition run agent p) st = as_out OutSlot (update_position now run agent p st)"
| "hot_call now (Snapshot run kind) st = as_out OutFrame (snapshot now run kind st)"
| "hot_call now (Evict run) st = (case evict run st of (b, st1) \<Rightarrow> (Inr (OutBool b), st1))"
| "hot_call now (SeedIdentity run codes slots start) st = as_out OutBool (seed_run_identity now run codes slots start st)"
| "hot_call now (Rollback run i) st = as_out OutBool (rollback_frame_idx run i st)"
| "hot_call now (SetSeed fn) st = (Inr OutNone, set_frame_idx_seed fn st)"
| "hot_call now (HaulierCodes run) st = as_out OutMap (hot_haulier_codes now run st)"
| "hot_call now (SlotMap run) st = as_out OutMap (hot_slot_map now run st)"

fun op_run :: "hot_op \<Rightarrow> string option" where
  "op_run (EnsureRun run _ _ _ _) = Some run"
| "op_run (SlotFor run _) = Some run"
| "op_run (UpdatePosition run _ _) = Some run"
| "op_run (Snapshot run _) = Some run"
| "op_run (Evict run) = Some run"
| "op_run (SeedIdentity run _ _ _) = Some run"
| "op_run (Rollback run _) = Some run"
| "op_run (SetSeed _) = None"
| "op_run (HaulierCodes run) = Some run"
| "op_run (SlotMap run) = Some run"

text \<open>The maps an operation hands to a run that is not resident.\<close>

fun op_slots :: "hot_op \<Rightarrow> (string, int) dict option" where
  "op_slots (EnsureRun _ _ _ slots _) = slots"
| "op_slots (SeedIdentity _ _ slots _) = slots"
| "op_slots _ = None"

fun op_codes :: "hot_op \<Rightarrow> (string, int) dict option" where
  "op_codes (EnsureRun _ _ _ _ codes) = codes"
| "op_codes (SeedIdentity _ codes _ _) = codes"
| "op_codes _ = None"

section \<open>Every call keeps what is known\<close>

definition local_to :: "string set \<Rightarrow> string \<Rightarrow> hot_store \<Rightarrow> hot_store \<Rightarrow> bool" where
  "local_to R run st st' \<longleftrightarrow> store_ok R st' \<and> slabs_ok st' \<and> (\<forall>r. r \<noteq> run \<longrightarrow> known st' r = known st r)"

definition raises :: "hot_error + 'a \<Rightarrow> bool" where
  "raises x \<longleftrightarrow> (case x of Inl (HotPy e) \<Rightarrow> True | _ \<Rightarrow> False)"

lemma raised_def: "raises x \<longleftrightarrow> (\<exists>e. x = Inl (HotPy e))"
  by (cases x) (simp_all add: raises_def split: hot_error.splits)

definition resident :: "hot_store \<Rightarrow> string \<Rightarrow> bool" where
  "resident st r \<longleftrightarrow> map_of (hs_runs st) r \<noteq> None"

lemma identity_touch [simp]: "identity_of (touch_write now s) = identity_of s" "identity_of (touch_read now s) = identity_of s"
  by (simp_all add: identity_of_def touch_write_def touch_read_def)

lemma local_put:
  assumes "store_ok R st" and "slabs_ok st" and "map_of (hs_runs st) run = Some s0" and "slab_ok s"
  shows "local_to R run st (put_slab run s st)"
  using store_ok_put [OF assms(1,3)] slabs_ok_put [OF assms(2,4)] by (simp add: local_to_def)

lemma local_trans: "local_to R run st st1 \<Longrightarrow> local_to R run st1 st2 \<Longrightarrow> local_to R run st st2"
  by (simp add: local_to_def)

lemma extends_trans: "extends d d' \<Longrightarrow> extends d' d'' \<Longrightarrow> extends d d''"
  by (simp add: extends_def)

lemma keeps_trans: "keeps b c p q \<Longrightarrow> keeps b' c' q r \<Longrightarrow> keeps (b \<and> b') (c \<and> c') p r"
  unfolding keeps_def by (cases p) (auto elim!: extends_trans)

lemma known_resident: "map_of (hs_runs st) run = Some s \<Longrightarrow> known st run = Some (identity_of s)"
  by (simp add: known_def)

lemma ensure_run_ok:
  assumes "store_ok R st" and "slabs_ok st" and "run \<in> R"
    and "\<And>d. slot_map = Some d \<Longrightarrow> valid_slots d" and "\<And>d. codes = Some d \<Longrightarrow> valid_codes d"
    and "ensure_run now run capacity start slot_map codes st = (x, st')"
  shows "local_to R run st st'"
    and "\<not> raises x \<Longrightarrow> keeps (no_map slot_map \<or> resident st run) (no_map codes \<or> resident st run) (known st run) (known st' run)"
proof -
  have "local_to R run st st' \<and> (\<not> raises x \<longrightarrow> keeps (no_map slot_map \<or> resident st run) (no_map codes \<or> resident st run) (known st run) (known st' run))"
  proof (cases "map_of (hs_runs st) run")
    case (Some s)
    then have "st' = put_slab run (touch_write now s) st" using assms(6) by (simp add: ensure_run_def)
    then show ?thesis using local_put [OF assms(1,2) Some slab_ok_counts(3) [OF slabs_okD(1) [OF assms(2) Some]]]
      by (simp add: known_resident [OF Some])
  next
    case None
    then have c: "create_slab now run capacity start slot_map codes st = (x, st')" using assms(6) by (simp add: ensure_run_def)
    have "x = Inr ()" if "\<not> raises x" using c that
      by (auto simp: create_slab_def raised_def seeded_frame_idx_def Let_def split: prod.splits sum.splits option.splits seed_answer.splits if_splits)
    then show ?thesis
      using create_slab_known(1-3) [OF assms(1) None assms(3) c] create_slab_ok [OF assms(2,4,5) c] None
      by (simp add: local_to_def resident_def)
  qed
  then show "local_to R run st st'"
    and "\<not> raises x \<Longrightarrow> keeps (no_map slot_map \<or> resident st run) (no_map codes \<or> resident st run) (known st run) (known st' run)" by blast+
qed

lemma writable_slab_ok:
  assumes "store_ok R st" and "slabs_ok st" and "run \<in> R" and "writable_slab now run st = (x, st')"
  shows "local_to R run st st'" and "\<not> raises x \<Longrightarrow> keeps True True (known st run) (known st' run)"
    and "x = Inr s \<Longrightarrow> map_of (hs_runs st') run = Some s \<and> slab_ok s"
proof -
  obtain y st1 where e: "ensure_run now run None PyNone None None st = (y, st1)" by fastforce
  note en = ensure_run_ok [OF assms(1-3) _ _ e, simplified]
  have st1: "store_ok R st1" "slabs_ok st1" using en(1) by (auto simp: local_to_def)
  have "local_to R run st st' \<and> (\<not> raises x \<longrightarrow> keeps True True (known st run) (known st' run)) \<and> (x = Inr s \<longrightarrow> map_of (hs_runs st') run = Some s \<and> slab_ok s)" for s
  proof (cases y)
    case (Inl err)
    then show ?thesis using assms(4) en e by (auto simp: writable_slab_def raised_def no_map_def)
  next
    case (Inr u)
    show ?thesis
    proof (cases "map_of (hs_runs st1) run")
      case None
      then show ?thesis using assms(4) en e Inr by (auto simp: writable_slab_def raised_def no_map_def)
    next
      case (Some s1)
      then have r: "x = Inr (touch_write now s1)" "st' = put_slab run (touch_write now s1) st1" using assms(4) e Inr by (auto simp: writable_slab_def)
      have "slab_ok (touch_write now s1)" using slabs_okD(1) [OF st1(2) Some] by (rule slab_ok_counts(3))
      moreover have "keeps True True (known st run) (known st1 run)" using en(2) Inr by (simp add: raised_def no_map_def)
      ultimately show ?thesis using local_trans [OF en(1) local_put [OF st1 Some]] r by (auto simp: known_resident [OF Some])
    qed
  qed
  then show "local_to R run st st'" and "\<not> raises x \<Longrightarrow> keeps True True (known st run) (known st' run)"
    and "x = Inr s \<Longrightarrow> map_of (hs_runs st') run = Some s \<and> slab_ok s" by blast+
qed

text \<open>A write on the slab of a run that is resident.\<close>

lemma local_write:
  assumes "local_to R run st st1" and "map_of (hs_runs st1) run = Some s" and "slab_ok s'"
    and "keeps True True (known st run) (known st1 run)" and "extends (sl_agent_to_slot s) (sl_agent_to_slot s')"
    and "extends (sl_haulier_to_code s) (sl_haulier_to_code s')" and "sl_frame_counter s \<le> sl_frame_counter s'"
  shows "local_to R run st (put_slab run s' st1)" and "keeps True True (known st run) (known (put_slab run s' st1) run)"
proof -
  have "store_ok R st1" "slabs_ok st1" using assms(1) by (auto simp: local_to_def)
  then show "local_to R run st (put_slab run s' st1)" by (intro local_trans [OF assms(1) local_put [OF _ _ assms(2)]] assms)
  have "keeps True True (known st1 run) (known (put_slab run s' st1) run)"
    using assms(5-7) by (simp add: known_resident [OF assms(2)] keeps_def identity_of_def)
  then show "keeps True True (known st run) (known (put_slab run s' st1) run)" using keeps_trans [OF assms(4)] by fastforce
qed

definition valid_op :: "hot_op \<Rightarrow> bool" where
  "valid_op op \<longleftrightarrow> (\<forall>d. op_slots op = Some d \<longrightarrow> valid_slots d) \<and> (\<forall>d. op_codes op = Some d \<longrightarrow> valid_codes d)"

definition is_rollback :: "hot_op \<Rightarrow> bool" where
  "is_rollback op \<longleftrightarrow> (\<exists>run i. op = Rollback run i)"

lemma hot_slot_for_ok:
  assumes "store_ok R st" and "slabs_ok st" and "run \<in> R" and "hot_slot_for now run agent st = (x, st')"
  shows "local_to R run st st'" and "\<not> raises x \<Longrightarrow> keeps True True (known st run) (known st' run)"
proof -
  obtain y st1 where w: "writable_slab now run st = (y, st1)" by fastforce
  note wr = writable_slab_ok [OF assms(1-3) w]
  have "local_to R run st st' \<and> (\<not> raises x \<longrightarrow> keeps True True (known st run) (known st' run))"
  proof (cases y)
    case (Inl e)
    then show ?thesis using assms(4) w wr(1,2) by (auto simp: hot_slot_for_def raised_def)
  next
    case (Inr s)
    obtain i s1 where f: "slot_for agent s = (i, s1)" by fastforce
    note sf = slab_ok_slot_for [OF conjunct2 [OF wr(3) [OF Inr]] f]
    have "st' = put_slab run s1 st1" using assms(4) w Inr f by (simp add: hot_slot_for_def)
    moreover have "keeps True True (known st run) (known st1 run)" using wr(2) Inr by (simp add: raised_def)
    ultimately show ?thesis
      using local_write [OF wr(1) conjunct1 [OF wr(3) [OF Inr]] sf(1) _ sf(4)] sf by simp
  qed
  then show "local_to R run st st'" and "\<not> raises x \<Longrightarrow> keeps True True (known st run) (known st' run)" by blast+
qed

lemma slot_in_range: "slab_ok s \<Longrightarrow> 0 \<le> i \<Longrightarrow> i < int (sl_n_active s) \<Longrightarrow> py_index (sl_capacity s) i = Some (nat i)"
  by (simp add: py_index_def slab_ok_def)

lemma update_position_ok:
  assumes "store_ok R st" and "slabs_ok st" and "run \<in> R" and "update_position now run agent p st = (x, st')"
  shows "local_to R run st st'" and "\<not> raises x \<Longrightarrow> keeps True True (known st run) (known st' run)"
proof -
  obtain y st1 where w: "writable_slab now run st = (y, st1)" by fastforce
  note wr = writable_slab_ok [OF assms(1-3) w]
  have "local_to R run st st' \<and> (\<not> raises x \<longrightarrow> keeps True True (known st run) (known st' run))"
  proof (cases y)
    case (Inl e)
    then show ?thesis using assms(4) w wr(1,2) by (auto simp: update_position_def raised_def)
  next
    case (Inr s)
    obtain i s1 where f: "slot_for agent s = (i, s1)" by fastforce
    note sf = slab_ok_slot_for [OF conjunct2 [OF wr(3) [OF Inr]] f]
    note sp = store_position_ok [OF sf(1), of "nat i" p]
    have "st' = put_slab run (store_position (nat i) p s1) st1"
      using assms(4) w Inr f slot_in_range [OF sf(1)] sf(2) by (simp add: update_position_def)
    moreover have "keeps True True (known st run) (known st1 run)" using wr(2) Inr by (simp add: raised_def)
    ultimately show ?thesis
      using local_write [OF wr(1) conjunct1 [OF wr(3) [OF Inr]] sp(1), unfolded sp(2) sp(4)] sf(4-6) sp(3) by simp
  qed
  then show "local_to R run st st'" and "\<not> raises x \<Longrightarrow> keeps True True (known st run) (known st' run)" by blast+
qed

lemma make_frame_id: "make_frame f = Inr g \<Longrightarrow> g = f"
  by (auto simp: make_frame_def split: if_splits)

lemma frame_of_idx [simp]: "fr_frame_idx (frame_of k s) = sl_frame_counter s"
  by (simp add: frame_of_def Let_def)

lemma touch_read_counter [simp]: "sl_frame_counter (touch_read now s) = sl_frame_counter s"
  by (simp add: touch_read_def)

lemma snapshot_ok:
  assumes "store_ok R st" and "slabs_ok st" and "snapshot now run kind st = (x, st')"
  shows "local_to R run st st'" and "keeps True True (known st run) (known st' run)"
    and "x = Inr f \<Longrightarrow> \<exists>p q. known st run = Some p \<and> known st' run = Some q \<and> fr_frame_idx f = id_frame_counter p \<and> id_frame_counter q = id_frame_counter p + 1"
proof -
  have "local_to R run st st' \<and> keeps True True (known st run) (known st' run) \<and> (x = Inr f \<longrightarrow>
    (\<exists>p q. known st run = Some p \<and> known st' run = Some q \<and> fr_frame_idx f = id_frame_counter p \<and> id_frame_counter q = id_frame_counter p + 1))" for f
  proof (cases "map_of (hs_runs st) run")
    case None
    then show ?thesis using assms by (auto simp: snapshot_def local_to_def)
  next
    case (Some s)
    note sl = slabs_okD(1) [OF assms(2) Some]
    have self: "local_to R run st st" using assms by (simp add: local_to_def)
    note w = local_write [OF self Some _ keeps_refl]
    show ?thesis
    proof (cases "make_frame (frame_of kind (touch_read now s))")
      case (Inl e)
      then have "st' = put_slab run (touch_read now s) st" "x = Inl (HotFrame e)" using assms(3) Some by (auto simp: snapshot_def Let_def)
      then show ?thesis using w [OF slab_ok_counts(4) [OF sl]] by (simp add: touch_read_def)
    next
      case (Inr g)
      let ?s = "(touch_read now s)\<lparr>sl_frame_counter := sl_frame_counter (touch_read now s) + 1, sl_frames_emitted := sl_frames_emitted (touch_read now s) + 1\<rparr>"
      have r: "st' = put_slab run ?s st" "x = Inr g" using assms(3) Some Inr by (auto simp: snapshot_def Let_def)
      have "fr_frame_idx g = sl_frame_counter s" using make_frame_id [OF Inr] by simp
      moreover have "slab_ok ?s" by (intro slab_ok_counts sl)
      ultimately show ?thesis using w [of ?s] r by (auto simp: known_resident [OF Some] identity_of_def touch_read_def)
    qed
  qed
  then show "local_to R run st st'" and "keeps True True (known st run) (known st' run)"
    and "x = Inr f \<Longrightarrow> \<exists>p q. known st run = Some p \<and> known st' run = Some q \<and> fr_frame_idx f = id_frame_counter p \<and> id_frame_counter q = id_frame_counter p + 1" by blast+
qed

lemma raise_counter_ok:
  assumes "slab_ok s" and "raise_counter start s = (r, s')"
  shows "slab_ok s'" and "sl_agent_to_slot s' = sl_agent_to_slot s" and "sl_haulier_to_code s' = sl_haulier_to_code s"
    and "sl_frame_counter s \<le> sl_frame_counter s'"
  using assms by (auto simp: raise_counter_def slab_ok_counts split: if_splits sum.splits)

lemma merge_slots_fields:
  assumes "merge_slots slot_map s = (r, s')"
  shows "sl_haulier_to_code s' = sl_haulier_to_code s" and "sl_frame_counter s' = sl_frame_counter s"
  using assms adopt_slot_map_fields [of _ s r s'] by (auto simp: merge_slots_def Let_def split: option.splits list.splits if_splits)

lemma merge_codes_fields [simp]: "sl_agent_to_slot (merge_codes codes s) = sl_agent_to_slot s" "sl_frame_counter (merge_codes codes s) = sl_frame_counter s"
  by (auto simp: merge_codes_def split: option.splits list.splits)

lemma seed_run_identity_ok:
  assumes "store_ok R st" and "slabs_ok st" and "run \<in> R"
    and vs: "\<And>d. slot_map = Some d \<Longrightarrow> valid_slots d" and vc: "\<And>d. codes = Some d \<Longrightarrow> valid_codes d"
    and "seed_run_identity now run codes slot_map start st = (x, st')"
  shows "local_to R run st st'"
    and "\<not> raises x \<Longrightarrow> keeps (no_map slot_map \<or> resident st run) (no_map codes \<or> resident st run) (known st run) (known st' run)"
proof -
  have "local_to R run st st' \<and> (\<not> raises x \<longrightarrow> keeps (no_map slot_map \<or> resident st run) (no_map codes \<or> resident st run) (known st run) (known st' run))"
  proof (cases "map_of (hs_runs st) run")
    case None
    obtain y st1 where c: "create_slab now run None start slot_map codes st = (y, st1)" by fastforce
    then have r: "x = map_sum id (\<lambda>_. True) y" "st' = st1" using assms(6) None by (auto simp: seed_run_identity_def)
    have "ensure_run now run None start slot_map codes st = (y, st1)" using None c by (simp add: ensure_run_def)
    note en = ensure_run_ok [OF assms(1-3) vs vc this]
    have "raises x = raises y" by (cases y) (simp_all add: r raised_def)
    then show ?thesis using en r by simp
  next
    case (Some s)
    have self: "local_to R run st st" using assms by (simp add: local_to_def)
    note mc = merge_codes_ok [OF slabs_okD(1) [OF assms(2) Some] vc]
    obtain u s1 where m: "merge_slots slot_map (merge_codes codes s) = (u, s1)" by fastforce
    note ms = merge_slots_ok [OF mc(1) vs m] merge_slots_fields [OF m]
    obtain v s2 where c: "raise_counter start s1 = (v, s2)" by fastforce
    note rc = raise_counter_ok [OF ms(2) c]
    have "st' = put_slab run s2 st" using assms(6) Some m ms(1) c by (auto simp: seed_run_identity_def split: sum.splits)
    moreover note local_write [OF self Some rc(1) keeps_refl]
    ultimately show ?thesis using ms(3-5) mc(2) rc(2-4) Some by (simp add: resident_def)
  qed
  then show "local_to R run st st'"
    and "\<not> raises x \<Longrightarrow> keeps (no_map slot_map \<or> resident st run) (no_map codes \<or> resident st run) (known st run) (known st' run)" by blast+
qed

lemma evict_ok:
  assumes "store_ok R st" and "slabs_ok st" and "evict run st = (b, st')"
  shows "local_to R run st st'" and "known st' = known st"
proof -
  have "local_to R run st st' \<and> known st' = known st"
  proof (cases "map_of (hs_runs st) run")
    case (Some s)
    then show ?thesis using assms evict_slab_ok [OF assms(1) Some] slabs_ok_evict [OF assms(2) slabs_okD(1) [OF assms(2) Some]]
      by (auto simp: evict_def local_to_def)
  qed (use assms in \<open>auto simp: evict_def local_to_def\<close>)
  then show "local_to R run st st'" and "known st' = known st" by blast+
qed

lemma read_slab_ok:
  assumes "store_ok R st" and "slabs_ok st" and "read_slab f now run st = (x, st')"
  shows "local_to R run st st'" and "keeps b c (known st run) (known st' run)"
proof -
  have "local_to R run st st' \<and> keeps b c (known st run) (known st' run)"
  proof (cases "map_of (hs_runs st) run")
    case (Some s)
    then show ?thesis using assms local_put [OF assms(1,2) Some slab_ok_counts(4) [OF slabs_okD(1) [OF assms(2) Some]]]
      by (auto simp: read_slab_def known_resident)
  qed (use assms in \<open>auto simp: read_slab_def local_to_def\<close>)
  then show "local_to R run st st'" and "keeps b c (known st run) (known st' run)" by blast+
qed

lemma rollback_ok:
  assumes "store_ok R st" and "slabs_ok st" and "rollback_frame_idx run v st = (x, st')"
  shows "local_to R run st st'"
    and "(known st' run = known st run \<and> x \<noteq> Inr True) \<or>
      (\<exists>p q i. x = Inr True \<and> known st run = Some p \<and> known st' run = Some q \<and> py_int v = Inr i \<and> id_frame_counter p = i + 1 \<and> id_frame_counter q = i \<and>
        id_agent_to_slot q = id_agent_to_slot p \<and> id_haulier_to_code q = id_haulier_to_code p)"
proof -
  have "local_to R run st st' \<and> ((known st' run = known st run \<and> x \<noteq> Inr True) \<or>
      (\<exists>p q i. x = Inr True \<and> known st run = Some p \<and> known st' run = Some q \<and> py_int v = Inr i \<and> id_frame_counter p = i + 1 \<and> id_frame_counter q = i \<and>
        id_agent_to_slot q = id_agent_to_slot p \<and> id_haulier_to_code q = id_haulier_to_code p))"
  proof (cases "map_of (hs_runs st) run")
    case (Some s)
    have self: "local_to R run st st" using assms by (simp add: local_to_def)
    show ?thesis
    proof (cases "\<exists>i. py_int v = Inr i \<and> sl_frame_counter s = i + 1")
      case True
      then obtain i where i: "py_int v = Inr i" "sl_frame_counter s = i + 1" by blast
      let ?s = "s\<lparr>sl_frame_counter := i, sl_frames_emitted := max (sl_frames_emitted s - 1) 0\<rparr>"
      have "x = Inr True" "st' = put_slab run ?s st" using assms(3) Some i by (auto simp: rollback_frame_idx_def)
      then show ?thesis using i local_put [OF assms(1,2) Some slab_ok_counts(5) [OF slabs_okD(1) [OF assms(2) Some]]]
        by (auto simp: known_resident [OF Some] identity_of_def)
    qed (use assms Some self in \<open>auto simp: rollback_frame_idx_def split: sum.splits if_splits\<close>)
  qed (use assms in \<open>auto simp: rollback_frame_idx_def local_to_def\<close>)
  then show "local_to R run st st'"
    and "(known st' run = known st run \<and> x \<noteq> Inr True) \<or>
      (\<exists>p q i. x = Inr True \<and> known st run = Some p \<and> known st' run = Some q \<and> py_int v = Inr i \<and> id_frame_counter p = i + 1 \<and> id_frame_counter q = i \<and>
        id_agent_to_slot q = id_agent_to_slot p \<and> id_haulier_to_code q = id_haulier_to_code p)" by blast+
qed

text \<open>One call, whatever it is.\<close>

lemma raised_as_out [simp]: "raises (fst (as_out f p)) = raises (fst p)"
  by (cases p; cases "fst p") (auto simp: as_out_def raised_def)

definition effect :: "string set \<Rightarrow> hot_store \<Rightarrow> string \<Rightarrow> bool \<Rightarrow> bool \<Rightarrow> (hot_error + 'a) \<times> hot_store \<Rightarrow> bool" where
  "effect R st run b c p \<longleftrightarrow> local_to R run st (snd p) \<and> (\<not> raises (fst p) \<longrightarrow> keeps b c (known st run) (known (snd p) run))"

lemma effect_as_out [simp]: "effect R st run b c (as_out f p) = effect R st run b c p"
  by (simp add: effect_def) (simp add: as_out_def)

lemma effectI: "(\<And>x st'. p = (x, st') \<Longrightarrow> local_to R run st st' \<and> (\<not> raises x \<longrightarrow> keeps b c (known st run) (known st' run))) \<Longrightarrow> effect R st run b c p"
  by (cases p) (simp add: effect_def)

lemma hot_call_effect:
  assumes "store_ok R st" and "slabs_ok st" and "op_run op = Some run" and "run \<in> R" and "valid_op op" and "\<not> is_rollback op"
  shows "effect R st run (no_map (op_slots op) \<or> resident st run) (no_map (op_codes op) \<or> resident st run) (hot_call now op st)"
proof (cases op)
  case (EnsureRun r a b c d)
  then have v: "\<And>m. c = Some m \<Longrightarrow> valid_slots m" "\<And>m. d = Some m \<Longrightarrow> valid_codes m" using assms(5) by (simp_all add: valid_op_def)
  have "r = run" using EnsureRun assms(3) by simp
  then show ?thesis using EnsureRun ensure_run_ok [OF assms(1,2,4) v] by (auto intro!: effectI)
next
  case (SlotFor r a)
  then show ?thesis using assms hot_slot_for_ok [OF assms(1,2,4)] by (auto simp: no_map_def intro!: effectI)
next
  case (UpdatePosition r a p)
  then show ?thesis using assms update_position_ok [OF assms(1,2,4)] by (auto simp: no_map_def intro!: effectI)
next
  case (Snapshot r k)
  then show ?thesis using assms snapshot_ok(1,2) [OF assms(1,2)] by (auto simp: no_map_def intro!: effectI)
next
  case (Evict r)
  then show ?thesis using assms evict_ok [OF assms(1,2)] by (auto simp: no_map_def split: prod.splits intro!: effectI)
next
  case (SeedIdentity r a b c)
  then have v: "\<And>m. b = Some m \<Longrightarrow> valid_slots m" "\<And>m. a = Some m \<Longrightarrow> valid_codes m" using assms(5) by (simp_all add: valid_op_def)
  have "r = run" using SeedIdentity assms(3) by simp
  then show ?thesis using SeedIdentity seed_run_identity_ok [OF assms(1,2,4) v] by (auto intro!: effectI)
next
  case (HaulierCodes r)
  then show ?thesis using assms read_slab_ok [OF assms(1,2)] by (auto simp: no_map_def hot_haulier_codes_def intro!: effectI)
next
  case (SlotMap r)
  then show ?thesis using assms read_slab_ok [OF assms(1,2)] by (auto simp: no_map_def hot_slot_map_def intro!: effectI)
qed (use assms in \<open>auto simp: is_rollback_def\<close>)

definition op_in :: "string set \<Rightarrow> hot_op \<Rightarrow> bool" where
  "op_in R op \<longleftrightarrow> (\<forall>run. op_run op = Some run \<longrightarrow> run \<in> R)"

lemma set_seed_ok [simp]: "store_ok R (set_frame_idx_seed fn st) = store_ok R st" "slabs_ok (set_frame_idx_seed fn st) = slabs_ok st"
  "known (set_frame_idx_seed fn st) = known st"
  by (simp_all add: set_frame_idx_seed_def store_ok_def slabs_ok_def known_def fun_eq_iff split: option.splits)

lemma hot_call_ok:
  assumes "store_ok R st" and "slabs_ok st" and "op_in R op" and "valid_op op" and "hot_call now op st = (x, st')"
  shows "store_ok R st' \<and> slabs_ok st' \<and> (\<forall>r. op_run op \<noteq> Some r \<longrightarrow> known st' r = known st r)"
proof (cases "op_run op")
  case None
  then obtain fn where "op = SetSeed fn" by (cases op) auto
  then show ?thesis using assms by auto
next
  case (Some run)
  then have run: "run \<in> R" using assms(3) by (simp add: op_in_def)
  have "local_to R run st st'"
  proof (cases "is_rollback op")
    case True
    then obtain v where v: "op = Rollback run v" using Some by (auto simp: is_rollback_def)
    obtain y st1 where y: "rollback_frame_idx run v st = (y, st1)" by fastforce
    then show ?thesis using assms(5) rollback_ok(1) [OF assms(1,2) y] by (simp add: v as_out_def)
  qed (use hot_call_effect [OF assms(1,2) Some run assms(4), of now] assms(5) in \<open>simp add: effect_def\<close>)
  then show ?thesis using Some by (simp add: local_to_def)
qed

section \<open>Frame indices\<close>

text \<open>
  The frames of a history: a snapshot adds one, and an index that is given back takes its frame away. A call that raises on
  a malformed argument is not part of a history.
\<close>

definition record_frames :: "hot_op \<Rightarrow> hot_error + hot_out \<Rightarrow> (string \<times> int) list \<Rightarrow> (string \<times> int) list" where
  "record_frames op x fs =
     (case (op, x) of
        (Snapshot run kind, Inr (OutFrame f)) \<Rightarrow> fs @ [(run, fr_frame_idx f)]
      | (Rollback run v, Inr (OutBool True)) \<Rightarrow> (case py_int v of Inr i \<Rightarrow> filter (\<lambda>e. e \<noteq> (run, i)) fs | Inl _ \<Rightarrow> fs)
      | _ \<Rightarrow> fs)"

inductive hot_history :: "string set \<Rightarrow> hot_store \<Rightarrow> (string \<times> int) list \<Rightarrow> hot_store \<Rightarrow> bool" for R st where
  begin_history: "hot_history R st [] st"
| call_history: "hot_history R st fs st1 \<Longrightarrow> op_in R op \<Longrightarrow> valid_op op \<Longrightarrow> hot_call now op st1 = (x, st2) \<Longrightarrow> \<not> raises x \<Longrightarrow>
    hot_history R st (record_frames op x fs) st2"

text \<open>Playing a list of calls, each with its clock reading.\<close>

fun play :: "(nat \<times> hot_op) list \<Rightarrow> (string \<times> int) list \<Rightarrow> hot_store \<Rightarrow> ((string \<times> int) list \<times> hot_store) option" where
  "play [] fs st = Some (fs, st)"
| "play ((now, op) # calls) fs st =
     (case hot_call now op st of (x, st1) \<Rightarrow> if raises x then None else play calls (record_frames op x fs) st1)"

lemma play_history:
  assumes "hot_history R st fs st1" and "\<forall>(now, op) \<in> set calls. op_in R op \<and> valid_op op" and "play calls fs st1 = Some (fs', st2)"
  shows "hot_history R st fs' st2"
  using assms
proof (induction calls arbitrary: fs st1)
  case (Cons c calls)
  obtain now op x st3 where c: "c = (now, op)" "hot_call now op st1 = (x, st3)" by (metis prod.exhaust)
  then have "hot_history R st (record_frames op x fs) st3" using Cons.prems by (intro call_history) (auto split: if_splits)
  then show ?case using Cons c by (auto split: if_splits)
qed auto

definition frames_of :: "string \<Rightarrow> (string \<times> int) list \<Rightarrow> int list" where
  "frames_of run fs = map snd (filter (\<lambda>e. fst e = run) fs)"

definition frames_ok :: "hot_store \<Rightarrow> (string \<times> int) list \<Rightarrow> bool" where
  "frames_ok st fs \<longleftrightarrow> (\<forall>run. sorted_wrt (<) (frames_of run fs)) \<and> (\<forall>(run, i) \<in> set fs. \<exists>p. known st run = Some p \<and> i < id_frame_counter p)"

lemma frames_of_append [simp]: "frames_of r (fs @ [(r', i)]) = frames_of r fs @ (if r' = r then [i] else [])"
  by (simp add: frames_of_def)

lemma frames_of_filter: "frames_of r (filter (\<lambda>e. e \<noteq> (r', i)) fs) = filter (\<lambda>j. r \<noteq> r' \<or> j \<noteq> i) (frames_of r fs)"
  by (induction fs) (auto simp: frames_of_def)

lemma frames_ok_keeps: "frames_ok st fs \<Longrightarrow> (\<And>r. keeps False False (known st r) (known st' r)) \<Longrightarrow> frames_ok st' fs"
  unfolding frames_ok_def keeps_def by (fastforce intro: order.strict_trans2)

lemma frames_ok_call:
  assumes "store_ok R st" and "slabs_ok st" and "op_in R op" and "valid_op op" and call: "hot_call now op st = (x, st')"
    and ok: "\<not> raises x" and fs: "frames_ok st fs"
  shows "frames_ok st' (record_frames op x fs)"
proof -
  note others = hot_call_ok [OF assms(1-5)]
  have keep: "keeps False False (known st r) (known st' r)" if "\<not> is_rollback op" for r
  proof (cases "op_run op = Some r")
    case True
    then have "r \<in> R" using assms(3) by (simp add: op_in_def)
    then show ?thesis using hot_call_effect [OF assms(1,2) True _ assms(4) that, of now] call ok by (auto simp: effect_def keeps_def)
  qed (use others in simp)
  consider (snap) run kind f where "op = Snapshot run kind" "x = Inr (OutFrame f)"
    | (given) run v where "op = Rollback run v" "x = Inr (OutBool True)"
    | (plain) "record_frames op x fs = fs" "\<And>r. keeps False False (known st r) (known st' r)"
  proof (cases "is_rollback op")
    case True
    then obtain run v where v: "op = Rollback run v" by (auto simp: is_rollback_def)
    obtain y st1 where y: "rollback_frame_idx run v st = (y, st1)" by fastforce
    then have x: "x = map_sum id OutBool y" "st' = st1" using call by (auto simp: v as_out_def)
    show thesis
    proof (cases "y = Inr True")
      case False
      then have "known st' r = known st r" for r using rollback_ok(2) [OF assms(1,2) y] others x v by (cases "r = run") auto
      moreover have "record_frames op x fs = fs" using False by (cases y) (auto simp: x v record_frames_def)
      ultimately show thesis by (intro plain) auto
    qed (use given v x in auto)
  next
    case False
    show thesis
    proof (cases "\<exists>run kind f. op = Snapshot run kind \<and> x = Inr (OutFrame f)")
      case plain': False
      then have "record_frames op x fs = fs"
        using False by (auto simp: record_frames_def is_rollback_def split: hot_op.splits sum.splits hot_out.splits)
      then show thesis using plain keep False by blast
    qed (use snap in blast)
  qed
  then show ?thesis
  proof cases
    case snap
    then obtain g where g: "snapshot now run kind st = (Inr g, st')" "g = f"
      using call by (cases "snapshot now run kind st"; cases "fst (snapshot now run kind st)") (auto simp: as_out_def)
    obtain p q where pq: "known st run = Some p" "known st' run = Some q" "fr_frame_idx f = id_frame_counter p" "id_frame_counter q = id_frame_counter p + 1"
      using snapshot_ok(3) [OF assms(1,2) g(1)] g(2) by auto
    have "frames_ok st' fs" using fs keep snap by (intro frames_ok_keeps [OF fs]) (simp add: is_rollback_def)
    moreover have "\<forall>i \<in> set (frames_of run fs). i < id_frame_counter p" using fs pq(1) unfolding frames_ok_def frames_of_def by fastforce
    ultimately show ?thesis using pq snap by (auto simp: frames_ok_def record_frames_def sorted_wrt_append)
  next
    case given
    obtain y st1 where y: "rollback_frame_idx run v st = (y, st1)" by fastforce
    then have x: "x = map_sum id OutBool y" "st' = st1" using call given by (auto simp: as_out_def)
    then have "y = Inr True" using given(2) by (cases y) auto
    then obtain p q i where pq: "known st run = Some p" "known st' run = Some q" "py_int v = Inr i" "id_frame_counter p = i + 1" "id_frame_counter q = i"
      using rollback_ok(2) [OF assms(1,2) y] x by auto
    have old: "\<exists>p. known st' r = Some p \<and> j < id_frame_counter p" if e: "(r, j) \<in> set fs" "(r, j) \<noteq> (run, i)" for r j
    proof -
      obtain p' where "known st r = Some p'" "j < id_frame_counter p'" using fs e(1) by (auto simp: frames_ok_def)
      then show ?thesis using pq e(2) others given(1) by (cases "r = run") auto
    qed
    then show ?thesis using fs given pq(3) by (auto simp: frames_ok_def record_frames_def frames_of_filter sorted_wrt_filter)
  qed (use fs frames_ok_keeps in auto)
qed

lemma new_store_ok:
  assumes "finite R" and "card R \<le> nat carry"
  shows "store_ok R (new_hot_store m c seed carry)" and "slabs_ok (new_hot_store m c seed carry)" and "frames_ok (new_hot_store m c seed carry) []"
  using assms by (simp_all add: new_hot_store_def store_ok_def slabs_ok_def frames_ok_def frames_of_def nat_le_iff)

lemma hot_history_ok:
  assumes "hot_history R st fs st'" and "store_ok R st" and "slabs_ok st"
  shows "store_ok R st' \<and> slabs_ok st' \<and> (frames_ok st [] \<longrightarrow> frames_ok st' fs)"
  using assms
proof (induction rule: hot_history.induct)
  case (call_history fs st1 op now x st2)
  then show ?case using hot_call_ok [OF _ _ call_history(2,3,4), of ] frames_ok_call [OF _ _ call_history(2-5), of fs] by auto
qed auto


text \<open>A small history: two runs over a store that holds one, an update whose frame is given back, and a revival.\<close>

definition demo_position :: "string option \<Rightarrow> 64 word \<Rightarrow> position" where
  "demo_position h t = \<lparr>ps_lng = 3, ps_lat = 4, ps_state = PyStr ''idle'', ps_haulier = h, ps_time = t\<rparr>"

definition demo_hot :: hot_store where
  "demo_hot = new_hot_store 1 1 (Some (\<lambda>r. if r = ''b'' then SeedRaises else SeedValue PyNone)) 2"

definition demo_calls :: "(nat \<times> hot_op) list" where
  "demo_calls =
     [(1, UpdatePosition ''a'' ''t1'' (demo_position (Some ''h1'') 10)), (2, Snapshot ''a'' 0), (3, SlotFor ''a'' ''t2''), (4, Snapshot ''a'' 0),
      (5, Rollback ''a'' (PyInt 1)), (6, UpdatePosition ''b'' ''u1'' (demo_position None 20)), (7, Snapshot ''b'' 0),
      (8, UpdatePosition ''a'' ''t2'' (demo_position (Some ''h2'') 30)), (9, Snapshot ''a'' 0)]"

lemma demo_calls_ok: "\<forall>(now, op) \<in> set demo_calls. op_in {''a'', ''b''} op \<and> valid_op op"
  by (simp add: demo_calls_def op_in_def valid_op_def)

lemma demo_history:
  assumes "play demo_calls [] demo_hot = Some (fs, st)"
  shows "hot_history {''a'', ''b''} demo_hot fs st"
  by (rule play_history [OF begin_history demo_calls_ok assms])



section \<open>Snapshots\<close>

text \<open>The slots a snapshot reports: those that have been written.\<close>

definition reported :: "slab \<Rightarrow> nat list" where
  "reported s = filter (\<lambda>i. sl_written s ! i) [0..<sl_n_active s]"

lemma map_nth_prefix: "n \<le> length xs \<Longrightarrow> map ((!) xs) [0..<n] = take n xs"
  by (rule nth_equalityI) simp_all

lemma frame_of_reported:
  assumes "slab_ok s"
  shows "frame_of k s = \<lparr>fr_frame_idx = sl_frame_counter s, fr_sim_time_ms = sl_last_sim_time s, fr_lng = map ((!) (sl_lng s)) (reported s),
    fr_lat = map ((!) (sl_lat s)) (reported s), fr_slot = map word_of_nat (reported s), fr_state = map ((!) (sl_state s)) (reported s),
    fr_haulier = map ((!) (sl_haulier s)) (reported s), fr_kind = k, fr_version = frame_version\<rparr>"
proof -
  let ?n = "sl_n_active s"
  let ?w = "take ?n (sl_written s)"
  have len: "?n \<le> sl_capacity s" "arrays_ok s" using assms by (simp_all add: slab_ok_def)
  then have lw: "length ?w = ?n" by (simp add: arrays_ok_def)
  have eq: "filter (\<lambda>i. ?w ! i) [0..<length ?w] = reported s" unfolding reported_def lw by (rule filter_cong) auto
  show ?thesis
  proof (cases "list_all id ?w")
    case True
    then have "reported s = [0..<?n]"
      unfolding eq [symmetric] lw using lw by (intro filter_True) (simp add: list_all_length)
    moreover have "frame_of k s = \<lparr>fr_frame_idx = sl_frame_counter s, fr_sim_time_ms = sl_last_sim_time s, fr_lng = take ?n (sl_lng s),
        fr_lat = take ?n (sl_lat s), fr_slot = map word_of_nat [0..<?n], fr_state = take ?n (sl_state s),
        fr_haulier = take ?n (sl_haulier s), fr_kind = k, fr_version = frame_version\<rparr>"
      using True unfolding frame_of_def Let_def by simp
    ultimately show ?thesis using len by (simp add: map_nth_prefix arrays_ok_def)
  next
    case False
    then have "?n \<noteq> 0" by (intro notI) simp
    then show ?thesis using False unfolding frame_of_def Let_def eq by simp
  qed
qed

lemma make_frame_ok: "slab_ok s \<Longrightarrow> make_frame (frame_of k s) = Inr (frame_of k s)"
  by (simp add: frame_of_reported make_frame_def frame_n_def)

lemma snapshot_value:
  assumes "slabs_ok st" and "map_of (hs_runs st) run = Some s"
  shows "\<exists>st'. snapshot now run kind st = (Inr (frame_of kind (touch_read now s)), st')"
  using make_frame_ok [OF slab_ok_counts(4) [OF slabs_okD(1) [OF assms]]] assms(2) by (simp add: snapshot_def Let_def)

text \<open>
  What a snapshot returns goes over the wire unharmed: the frame of a resident run always builds, lists exactly the slots that have
  been written, in order, and the codec encodes and decodes it to itself, as long as the counter and the slots fit
  the 32 bits of the header.
\<close>

theorem snapshot_round_trips:
  assumes "slabs_ok st" and "map_of (hs_runs st) run = Some s" and "kind \<in> {kind_keyframe, kind_delta}"
    and "0 \<le> sl_frame_counter s" and "sl_frame_counter s < 2 ^ 32" and "sl_n_active s < 2 ^ 32"
  shows "\<exists>f st' buf. snapshot now run kind st = (Inr f, st') \<and> encode f = Inr buf \<and> decode buf = Inr f \<and>
    fr_slot f = map word_of_nat (reported s) \<and> fr_lng f = map ((!) (sl_lng s)) (reported s) \<and> fr_lat f = map ((!) (sl_lat s)) (reported s) \<and>
    fr_state f = map ((!) (sl_state s)) (reported s) \<and> fr_haulier f = map ((!) (sl_haulier s)) (reported s)"
proof -
  let ?s = "touch_read now s"
  let ?f = "frame_of kind ?s"
  have ok: "slab_ok ?s" using slabs_okD(1) [OF assms(1,2)] by (rule slab_ok_counts(4))
  note f = frame_of_reported [OF ok]
  have rep: "reported ?s = reported s" by (simp add: reported_def touch_read_def)
  have "length (reported s) \<le> sl_n_active s" unfolding reported_def by (metis diff_zero length_filter_le length_upt)
  then have "frame_ok ?f" using make_frame_ok [OF ok, of kind] assms(3-6)
    unfolding frame_ok_def by (simp add: f frame_n_def rep fits_def)
  then obtain buf where "encode ?f = Inr buf" "decode buf = Inr ?f" using frame_round_trip [of ?f] by blast
  moreover obtain st' where "snapshot now run kind st = (Inr ?f, st')" using snapshot_value [OF assms(1,2)] by blast
  ultimately show ?thesis by (intro exI [of _ ?f] exI [of _ st'] exI [of _ buf]) (simp add: f rep, simp add: touch_read_def)
qed

lemma update_position_steps:
  assumes "store_ok R st" and "slabs_ok st" and "run \<in> R" and "update_position now run agent p st = (Inr slot, st')"
  obtains s1 where "slab_ok s1" "map_of (hs_runs st') run = Some (store_position (nat slot) p s1)" "0 \<le> slot" "slot < int (sl_n_active s1)"
    "map_of (sl_agent_to_slot s1) agent = Some slot"
proof -
  obtain y st1 where w: "writable_slab now run st = (y, st1)" by fastforce
  then obtain s where y: "y = Inr s" using assms(4) by (cases y) (auto simp: update_position_def)
  note wr = writable_slab_ok(3) [OF assms(1-3) w y]
  obtain i s1 where f: "slot_for agent s = (i, s1)" by fastforce
  note sf = slab_ok_slot_for [OF conjunct2 [OF wr] f]
  have "slot = i" "st' = put_slab run (store_position (nat i) p s1) st1"
    using assms(4) w y f slot_in_range [OF sf(1)] sf(2) by (auto simp: update_position_def)
  then show thesis using sf by (intro that [of s1]) simp_all
qed

text \<open>
  A reported position is in the next frame: after an accepted position update, a snapshot of the run succeeds and has an
  entry at the truck's slot with the reported coordinates, the code of the reported state, the code of the haulier and the reported time.
\<close>

theorem position_in_next_snapshot:
  assumes "store_ok R st" and "slabs_ok st" and "run \<in> R" and "update_position now run agent p st = (Inr slot, st1)"
  shows "\<exists>f st2 k c. snapshot later run kind st1 = (Inr f, st2) \<and> k < frame_n f \<and> fr_slot f ! k = word_of_int slot \<and>
    fr_lng f ! k = ps_lng p \<and> fr_lat f ! k = ps_lat p \<and> fr_state f ! k = word_of_nat (state_code (ps_state p)) \<and>
    fr_haulier f ! k = word_of_int c \<and>
    (\<forall>h codes. ps_haulier p = Some h \<longrightarrow> h \<noteq> [] \<longrightarrow> fst (hot_haulier_codes later run st1) = Inr codes \<longrightarrow> map_of codes h = Some c) \<and>
    fr_sim_time_ms f = ps_time p"
proof -
  obtain s1 where s1: "slab_ok s1" "map_of (hs_runs st1) run = Some (store_position (nat slot) p s1)" "0 \<le> slot" "slot < int (sl_n_active s1)"
    using update_position_steps [OF assms] .
  let ?i = "nat slot" and ?s = "touch_read later (store_position (nat slot) p s1)"
  obtain c s2 where c: "code_for_haulier (ps_haulier p) s1 = (c, s2)" by fastforce
  note sc = slab_ok_code [OF s1(1) c]
  have lens: "?i < sl_n_active s2" "sl_n_active s2 \<le> sl_capacity s2" "arrays_ok s2" using s1(3,4) sc(1,6) by (auto simp: slab_ok_def)
  have "slabs_ok st1" using update_position_ok(1) [OF assms] by (simp add: local_to_def)
  then obtain st2 where snap: "snapshot later run kind st1 = (Inr (frame_of kind ?s), st2)" using snapshot_value s1(2) by blast
  have ok: "slab_ok ?s" by (intro slab_ok_counts store_position_ok s1)
  have "?i \<in> set (reported ?s)" using lens by (auto simp: reported_def touch_read_def store_position_def c arrays_ok_def)
  then obtain k where k: "k < length (reported ?s)" "reported ?s ! k = ?i" by (auto simp: in_set_conv_nth)
  have codes: "map_of (sl_haulier_to_code s2) h = Some c" if "ps_haulier p = Some h" "h \<noteq> []" for h
    using c that by (auto simp: code_for_haulier_def Let_def split: option.splits)
  have fields: "sl_lng ?s ! ?i = ps_lng p" "sl_lat ?s ! ?i = ps_lat p" "sl_state ?s ! ?i = word_of_nat (state_code (ps_state p))"
    "sl_haulier ?s ! ?i = word_of_int c" "sl_last_sim_time ?s = ps_time p"
    using lens by (simp_all add: touch_read_def store_position_def c arrays_ok_def)
  have slot: "word_of_nat ?i = (word_of_int slot :: 32 word)" using s1(3) by (rule of_nat_nat)
  have book: "map_of codes h = Some c"
    if "ps_haulier p = Some h" "h \<noteq> []" "fst (hot_haulier_codes later run st1) = Inr codes" for h codes
    using codes [OF that(1,2)] that(3) s1(2) by (simp add: hot_haulier_codes_def read_slab_def store_position_def c)
  let ?f = "frame_of kind ?s"
  note f = frame_of_reported [OF ok, of kind]
  have "k < frame_n ?f" "fr_slot ?f ! k = word_of_int slot" using k slot by (simp_all add: f frame_n_def)
  moreover have "fr_lng ?f ! k = ps_lng p" "fr_lat ?f ! k = ps_lat p" "fr_state ?f ! k = word_of_nat (state_code (ps_state p))"
      "fr_haulier ?f ! k = word_of_int c" "fr_sim_time_ms ?f = ps_time p"
    unfolding f frame.simps using k fields by (simp_all only: nth_map)
  ultimately show ?thesis using snap book by blast
qed

text \<open>Concrete instances at the end of the small history.\<close>

definition demo_state :: hot_store where
  "demo_state = snd (the (play demo_calls [] demo_hot))"

lemma demo_state_ok: "store_ok {''a'', ''b''} demo_state" "slabs_ok demo_state"
proof -
  have "map_option fst (play demo_calls [] demo_hot) = Some [(''a'', 0), (''b'', 0), (''a'', 1)]" by code_simp
  then obtain st where st: "play demo_calls [] demo_hot = Some ([(''a'', 0), (''b'', 0), (''a'', 1)], st)" by auto
  have card: "card {''a'', ''b''} \<le> nat 2" by simp
  have "store_ok {''a'', ''b''} st \<and> slabs_ok st"
    using hot_history_ok [OF demo_history [OF st]] new_store_ok(1,2) [OF _ card] unfolding demo_hot_def by blast
  then show "store_ok {''a'', ''b''} demo_state" "slabs_ok demo_state" by (simp_all add: demo_state_def st)
qed



theorem snapshot_round_trips_witness:
  "\<exists>f st' buf. snapshot 10 ''a'' kind_keyframe demo_state = (Inr f, st') \<and> encode f = Inr buf \<and> decode buf = Inr f \<and>
     fr_slot f = [1] \<and> fr_lng f = [3] \<and> fr_haulier f = [2]"
proof -
  let ?get = "\<lambda>s. (sl_frame_counter s, sl_n_active s, reported s, map ((!) (sl_lng s)) (reported s), map ((!) (sl_haulier s)) (reported s))"
  have "map_option ?get (map_of (hs_runs demo_state) ''a'') = Some (2, 2, [1], [3], [2])" by code_simp
  then obtain s where s: "map_of (hs_runs demo_state) ''a'' = Some s" "sl_frame_counter s = 2" "sl_n_active s = 2" "reported s = [1]"
    "map ((!) (sl_lng s)) (reported s) = [3]" "map ((!) (sl_haulier s)) (reported s) = [2]" by auto
  have k: "kind_keyframe \<in> {kind_keyframe, kind_delta}" by simp
  have "(0 :: int) \<le> 2" "(2 :: int) < 2 ^ 32" "(2 :: nat) < 2 ^ 32" by simp_all
  with snapshot_round_trips [OF demo_state_ok(2) s(1) k, of 10] show ?thesis using s(5,6) unfolding s(2-4) by auto
qed

theorem position_in_next_snapshot_witness:
  "\<exists>slot st1 f st2 k. update_position 10 ''b'' ''u2'' (demo_position (Some ''h9'') 40) demo_state = (Inr slot, st1) \<and> slot = 1 \<and>
     snapshot 11 ''b'' 0 st1 = (Inr f, st2) \<and> k < frame_n f \<and> fr_slot f ! k = 1 \<and> fr_lng f ! k = 3 \<and> fr_state f ! k = 1"
proof -
  have "fst (update_position 10 ''b'' ''u2'' (demo_position (Some ''h9'') 40) demo_state) = Inr 1" by code_simp
  then obtain st1 where u: "update_position 10 ''b'' ''u2'' (demo_position (Some ''h9'') 40) demo_state = (Inr 1, st1)" by (metis prod.collapse)
  have b: "''b'' \<in> {''a'', ''b''}" by simp
  have "word_of_nat (state_code (PyStr ''idle'')) = (1 :: 8 word)" by code_simp
  then show ?thesis using position_in_next_snapshot [OF demo_state_ok b u, of 11 0] u by (auto simp: demo_position_def)
qed

end
