(* ===== verification/Run_Status.thy ===== *)
theory Run_Status
  imports Sim_Clock
begin

text \<open>
  The payload rules of the ingest (\<open>apps/dataplane/ingest/parse.py\<close>, and word for word \<open>apps/kpi_sink/run_status.py\<close> and
  \<open>kpi_parse.py\<close>): which status messages end a run and under which label, and how clocks and metric values are read.
\<close>

section \<open>Terminal messages\<close>

definition export_statuses :: "string list" where
  "export_statuses =
     [''COMPLETED'', ''FAILED'', ''ERROR'', ''CANCELLED'', ''CANCELED'', ''STOP'', ''STOPPED'', ''ABORT'', ''ABORTED'', ''KILLED'',
      ''TERMINATED'', ''INTERRUPTED'', ''CRASHED'', ''TIMEOUT'', ''TIMED_OUT'']"

definition upper_char :: "char \<Rightarrow> char" where
  "upper_char c = (if CHR ''a'' \<le> c \<and> c \<le> CHR ''z'' then char_of ((of_char c :: nat) - 32) else c)"

definition status_of_field :: "pyval \<Rightarrow> string option" where
  "status_of_field v = (case v of PyStr s \<Rightarrow> if strip s = [] then None else Some (strip s) | _ \<Rightarrow> None)"

definition extract_status :: "pyval \<Rightarrow> string option" where
  "extract_status payload =
     (case payload of
        PyStr s \<Rightarrow> Some (strip s)
      | PyDict d \<Rightarrow>
          (case status_of_field (py_get d ''status'') of
             Some s \<Rightarrow> Some s
           | None \<Rightarrow> (case status_of_field (py_get d ''run_status'') of Some s \<Rightarrow> Some s | None \<Rightarrow> status_of_field (py_get d ''state'')))
      | _ \<Rightarrow> None)"

definition is_simulation_lifecycle_message :: "pyval \<Rightarrow> bool" where
  "is_simulation_lifecycle_message payload =
     (case payload of
        PyDict d \<Rightarrow> py_get d ''lifecycle_scope'' = PyNone \<or> py_get d ''lifecycle_scope'' = PyStr ''simulation''
      | _ \<Rightarrow> True)"

definition outcome_label :: "string \<Rightarrow> string" where
  "outcome_label s =
     (if s = ''COMPLETED'' then ''completed''
      else if s \<in> {''FAILED'', ''ERROR'', ''CRASHED''} then ''failed''
      else if s \<in> {''CANCELLED'', ''CANCELED''} then ''cancelled''
      else if s \<in> {''STOP'', ''STOPPED'', ''STOPPING''} then ''stopped''
      else if s \<in> {''ABORT'', ''ABORTED''} then ''aborted''
      else if s \<in> {''KILLED'', ''TERMINATED''} then ''terminated''
      else if s = ''INTERRUPTED'' then ''interrupted''
      else if s \<in> {''TIMEOUT'', ''TIMED_OUT''} then ''timeout''
      else map lower_char s)"

text \<open>\<open>payload.get("simulation_active") is False\<close>.\<close>

definition inactive :: "pyval \<Rightarrow> bool" where
  "inactive payload = (case payload of PyDict d \<Rightarrow> py_get d ''simulation_active'' = PyBool False | _ \<Rightarrow> False)"

definition stop_word :: "string \<Rightarrow> bool" where
  "stop_word s \<longleftrightarrow> sublist ''STOP'' s \<or> sublist ''CANCEL'' s \<or> sublist ''ABORT'' s"

definition should_export_run_status :: "pyval \<Rightarrow> string option" where
  "should_export_run_status payload =
     (if \<not> is_simulation_lifecycle_message payload then None
      else
        (case extract_status payload of
           Some status \<Rightarrow>
             (let normalized = map upper_char status
              in if status \<noteq> [] \<and> normalized \<in> set export_statuses then Some (outcome_label normalized)
                 else if status \<noteq> [] \<and> normalized \<noteq> ''RUNNING'' \<and> (inactive payload \<or> stop_word normalized) then Some (outcome_label normalized)
                 else if inactive payload then Some ''inactive'' else None)
         | None \<Rightarrow> if inactive payload then Some ''inactive'' else None))"

definition terminal_outcomes :: "string list" where
  "terminal_outcomes =
     [''completed'', ''failed'', ''cancelled'', ''stopped'', ''aborted'', ''terminated'', ''interrupted'', ''crashed'', ''timeout'', ''inactive'']"

definition parse_run_terminal_outcome :: "pyval \<Rightarrow> string option" where
  "parse_run_terminal_outcome v =
     (case should_export_run_status v of
        None \<Rightarrow> None
      | Some reason \<Rightarrow> Some (if reason \<in> set terminal_outcomes then reason else ''inactive''))"

section \<open>Clocks and metric values\<close>

text \<open>
  A decoded payload holds no datetime objects, so a clock is a string or is refused. The forgiving parser behind the exact
  format is third-party: the parameter \<open>dateutil\<close>.
\<close>

definition parse_sim_clock :: "(string \<Rightarrow> py_error + py_time) \<Rightarrow> pyval \<Rightarrow> py_error + py_time" where
  "parse_sim_clock dateutil raw =
     (case raw of
        PyStr s \<Rightarrow> (case str_to_time s of Some t \<Rightarrow> Inr t | None \<Rightarrow> dateutil s)
      | _ \<Rightarrow> Inl ValueError)"

definition coerce_metric_value :: "pyval \<Rightarrow> py_error + pyfloat" where
  "coerce_metric_value raw = (case raw of
       PyNone \<Rightarrow> Inr (Fin 0)
     | PyInt i \<Rightarrow> if float_overflows i then Inl OverflowError else Inr (Fin (of_int i))
     | _ \<Rightarrow> py_float raw)"

text \<open>Seconds of a civil time since the epoch, in the proleptic Gregorian calendar.\<close>

definition days_before_year :: "int \<Rightarrow> int" where
  "days_before_year y = (y - 1) * 365 + (y - 1) div 4 - (y - 1) div 100 + (y - 1) div 400"

definition days_before_month :: "nat \<Rightarrow> nat \<Rightarrow> nat" where
  "days_before_month y mo = sum_list (map (days_in_month y) [1..<mo])"

definition epoch_seconds :: "py_time \<Rightarrow> int" where
  "epoch_seconds t =
     (days_before_year (int (tm_year t)) + int (days_before_month (tm_year t) (tm_month t)) + int (tm_day t) - 1 - days_before_year 1970) * 86400 +
     int (tm_hour t) * 3600 + int (tm_minute t) * 60 + int (tm_second t)"

definition sim_time_ms :: "(string \<Rightarrow> py_error + py_time) \<Rightarrow> pyval \<Rightarrow> py_error + pyfloat" where
  "sim_time_ms dateutil raw =
     (case raw of
        PyInt i \<Rightarrow> if float_overflows i then Inl OverflowError else Inr (Fin (of_int i))
      | PyFloat f \<Rightarrow> Inr f
      | _ \<Rightarrow> (case parse_sim_clock dateutil raw of Inl e \<Rightarrow> Inl e | Inr t \<Rightarrow> Inr (Fin (of_int (epoch_seconds t) * 1000))))"

section \<open>The labels\<close>

lemma export_label: "s \<in> set export_statuses \<Longrightarrow> outcome_label s \<in> set terminal_outcomes"
  by (auto simp: export_statuses_def outcome_label_def terminal_outcomes_def)

text \<open>
  A run is closed exactly by the messages that end it: a foreign scope or a plain RUNNING never closes it, every listed status does in any
  case and with blanks around it, an explicit inactive flag always does, and the label is one of the known outcomes.
\<close>

theorem terminal_messages:
  fixes d :: "(string, pyval) dict" and s :: string
  defines "scope \<equiv> py_get d ''lifecycle_scope''" and "n \<equiv> map upper_char (strip s)"
  assumes "py_get d ''status'' = PyStr s" and "strip s \<noteq> []"
  shows "(scope \<notin> {PyNone, PyStr ''simulation''} \<longrightarrow> should_export_run_status (PyDict d) = None) \<and>
    (scope \<in> {PyNone, PyStr ''simulation''} \<longrightarrow>
      (n \<in> set export_statuses \<longrightarrow> should_export_run_status (PyDict d) = Some (outcome_label n) \<and> outcome_label n \<in> set terminal_outcomes) \<and>
      (py_get d ''simulation_active'' = PyBool False \<longrightarrow> should_export_run_status (PyDict d) \<noteq> None) \<and>
      (n = ''RUNNING'' \<and> py_get d ''simulation_active'' \<noteq> PyBool False \<longrightarrow> should_export_run_status (PyDict d) = None)) \<and>
    (\<forall>r. parse_run_terminal_outcome (PyDict d) = Some r \<longrightarrow> r \<in> set terminal_outcomes)"
proof -
  have st: "extract_status (PyDict d) = Some (strip s)" using assms(3,4) by (simp add: extract_status_def status_of_field_def)
  have life: "is_simulation_lifecycle_message (PyDict d) \<longleftrightarrow> scope \<in> {PyNone, PyStr ''simulation''}"
    by (auto simp: is_simulation_lifecycle_message_def scope_def)
  have run: "''RUNNING'' \<notin> set export_statuses" by (simp add: export_statuses_def)
  have "\<forall>r. parse_run_terminal_outcome (PyDict d) = Some r \<longrightarrow> r \<in> set terminal_outcomes"
    by (auto simp: parse_run_terminal_outcome_def terminal_outcomes_def split: option.splits)
  then show ?thesis
    using assms(4) run export_label [of n] by (auto simp: should_export_run_status_def st life inactive_def Let_def simp flip: n_def)
qed

theorem terminal_messages_witness:
  "should_export_run_status (PyDict [(''status'', PyStr '' timed_out ''), (''lifecycle_scope'', PyStr ''simulation'')]) = Some ''timeout''"
proof -
  let ?d = "[(''status'', PyStr '' timed_out ''), (''lifecycle_scope'', PyStr ''simulation'')]"
  have "map upper_char (strip '' timed_out '') = ''TIMED_OUT''" "strip '' timed_out '' \<noteq> []" by code_simp+
  then show ?thesis using terminal_messages [of ?d "'' timed_out ''"]
    by (simp add: py_get_def export_statuses_def outcome_label_def)
qed

section \<open>The order of clocks\<close>

text \<open>The fields of a clock, most significant first.\<close>

definition clock_key :: "py_time \<Rightarrow> nat \<times> nat \<times> nat \<times> nat \<times> nat \<times> nat" where
  "clock_key t = (tm_year t, tm_month t, tm_day t, tm_hour t, tm_minute t, tm_second t)"

definition leap :: "nat \<Rightarrow> bool" where
  "leap y \<longleftrightarrow> y mod 4 = 0 \<and> (y mod 100 \<noteq> 0 \<or> y mod 400 = 0)"

definition year_days :: "nat \<Rightarrow> nat" where
  "year_days y = (if leap y then 366 else 365)"

lemma div_step: "int (Suc m) div int k = int m div int k + (if Suc m mod k = 0 then 1 else 0)"
proof -
  have "Suc m div k = m div k + (if Suc m mod k = 0 then 1 else 0)" by (simp add: div_Suc)
  then have "int (Suc m div k) = int (m div k) + (if Suc m mod k = 0 then 1 else 0)" by simp
  then show ?thesis by (simp only: zdiv_int)
qed

lemma year_step: "days_before_year (int (Suc (Suc m))) = days_before_year (int (Suc m)) + int (year_days (Suc m))"
proof -
  define a b c where "a \<longleftrightarrow> Suc m mod 4 = 0" and "b \<longleftrightarrow> Suc m mod 100 = 0" and "c \<longleftrightarrow> Suc m mod 400 = 0"
  have "Suc m mod 400 mod 100 = Suc m mod 100" "Suc m mod 100 mod 4 = Suc m mod 4" by (intro mod_mod_cancel; simp)+
  then have imp: "c \<Longrightarrow> b" "b \<Longrightarrow> a" unfolding a_def b_def c_def by (metis mod_0)+
  have less: "int (Suc (Suc m)) - 1 = int (Suc m)" "int (Suc m) - 1 = int m" by simp_all
  note steps = div_step [of m 4, folded a_def] div_step [of m 100, folded b_def] div_step [of m 400, folded c_def]
  have days: "year_days (Suc m) = (if a \<and> (\<not> b \<or> c) then 366 else 365)" unfolding year_days_def leap_def a_def b_def c_def ..
  have one: "int (Suc m) = int m + 1" by simp
  have "int (Suc m) * 365 + int (Suc m) div int 4 - int (Suc m) div int 100 + int (Suc m) div int 400 =
      int m * 365 + int m div int 4 - int m div int 100 + int m div int 400 + int (year_days (Suc m))"
    unfolding steps days unfolding one using imp by (cases a; cases b; cases c) simp_all
  then show ?thesis unfolding days_before_year_def less by (simp only: of_nat_numeral)
qed

lemma month_step: "1 \<le> mo \<Longrightarrow> days_before_month y (Suc mo) = days_before_month y mo + days_in_month y mo"
  by (simp add: days_before_month_def)

lemma months_mono:
  assumes "1 \<le> a" and "a \<le> b" shows "days_before_month y a \<le> days_before_month y b"
  using assms(2)
proof (induction rule: dec_induct)
  case (step n)
  then show ?case using month_step [of n y] assms(1) by simp
qed simp

lemma twelve_months: "days_before_month y 13 = year_days y"
  by (simp add: days_before_month_def upt_rec year_days_def leap_def days_in_month_def)

definition day_number :: "py_time \<Rightarrow> int" where
  "day_number t = days_before_year (int (tm_year t)) + int (days_before_month (tm_year t) (tm_month t)) + int (tm_day t) - 1"

definition day_seconds :: "py_time \<Rightarrow> int" where
  "day_seconds t = int (tm_hour t) * 3600 + int (tm_minute t) * 60 + int (tm_second t)"

lemma epoch_split: "epoch_seconds t = (day_number t - days_before_year 1970) * 86400 + day_seconds t"
  by (simp add: epoch_seconds_def day_number_def day_seconds_def)

lemma years_mono:
  assumes "1 \<le> a" and "a \<le> b" shows "days_before_year (int a) \<le> days_before_year (int b)"
  using assms(2)
proof (induction rule: dec_induct)
  case (step n)
  then obtain m where "n = Suc m" using assms(1) by (cases n) auto
  then show ?case using step year_step [of m] by simp
qed simp

lemma day_in_year:
  assumes "time_ok t"
  shows "day_number t < days_before_year (int (tm_year t)) + int (year_days (tm_year t))" and "days_before_year (int (tm_year t)) \<le> day_number t"
proof -
  let ?y = "tm_year t" and ?m = "tm_month t"
  have m: "1 \<le> ?m" "Suc ?m \<le> 13" and d: "1 \<le> tm_day t" "tm_day t \<le> days_in_month ?y ?m" using assms by (auto simp: time_ok_def)
  have "days_before_month ?y ?m + tm_day t \<le> year_days ?y"
    using month_step [OF m(1), of ?y] months_mono [of "Suc ?m" 13 ?y] m(2) d(2) unfolding twelve_months by linarith
  then show "day_number t < days_before_year (int ?y) + int (year_days ?y)" using d(1) by (simp add: day_number_def)
  show "days_before_year (int ?y) \<le> day_number t" using d(1) by (simp add: day_number_def)
qed

lemma day_order:
  assumes "time_ok s" and "time_ok t"
  shows "(tm_year s, tm_month s, tm_day s) < (tm_year t, tm_month t, tm_day t) \<Longrightarrow> day_number s < day_number t"
proof -
  assume lt: "(tm_year s, tm_month s, tm_day s) < (tm_year t, tm_month t, tm_day t)"
  have ok: "1 \<le> tm_year s" "1 \<le> tm_month s" "1 \<le> tm_month t" "tm_day s \<le> days_in_month (tm_year s) (tm_month s)" "1 \<le> tm_day t"
    using assms by (auto simp: time_ok_def)
  consider (year) "tm_year s < tm_year t" | (month) "tm_year s = tm_year t" "tm_month s < tm_month t"
    | (day) "tm_year s = tm_year t" "tm_month s = tm_month t" "tm_day s < tm_day t"
    using lt by (auto simp: less_prod_def order.order_iff_strict)
  then show "day_number s < day_number t"
  proof cases
    case year
    obtain m where m: "tm_year s = Suc m" using ok(1) by (cases "tm_year s") auto
    have "days_before_year (int (Suc (Suc m))) \<le> days_before_year (int (tm_year t))" using year m by (intro years_mono) auto
    then show ?thesis using day_in_year(1) [OF assms(1)] day_in_year(2) [OF assms(2)] unfolding m year_step by linarith
  next
    case month
    have "days_before_month (tm_year s) (Suc (tm_month s)) \<le> days_before_month (tm_year s) (tm_month t)" using month by (intro months_mono) auto
    then have "days_before_month (tm_year s) (tm_month s) + tm_day s < days_before_month (tm_year s) (tm_month t) + tm_day t"
      using month_step [OF ok(2), of "tm_year s"] ok(4,5) by linarith
    then show ?thesis using month(1) by (simp add: day_number_def)
  qed (simp add: day_number_def)
qed

text \<open>
  The milliseconds of a clock order time as the calendar does: for clocks of the simulation, one is before the other exactly
  when its epoch value is smaller, and a clock text written by the run is stamped with the epoch of its own clock.
\<close>

theorem clock_order:
  assumes "time_ok s" and "time_ok t"
  shows "(epoch_seconds s < epoch_seconds t \<longleftrightarrow> clock_key s < clock_key t) \<and>
    sim_time_ms dateutil (PyStr (time_to_str t)) = Inr (Fin (of_int (epoch_seconds t) * 1000))"
proof -
  have fwd: "epoch_seconds a < epoch_seconds b" if "time_ok a" "time_ok b" "clock_key a < clock_key b" for a b
  proof -
    have sec: "0 \<le> day_seconds a" "day_seconds a < 86400" "0 \<le> day_seconds b" "day_seconds b < 86400"
      using that(1,2) by (auto simp: day_seconds_def time_ok_def)
    show ?thesis
    proof (cases "(tm_year a, tm_month a, tm_day a) < (tm_year b, tm_month b, tm_day b)")
      case True
      then have "day_number a + 1 \<le> day_number b" using day_order [OF that(1,2)] by simp
      then show ?thesis using sec unfolding epoch_split left_diff_distrib by linarith
    next
      case False
      then have "tm_year a = tm_year b" "tm_month a = tm_month b" "tm_day a = tm_day b"
        and "(tm_hour a, tm_minute a, tm_second a) < (tm_hour b, tm_minute b, tm_second b)"
        using that(3) by (auto simp: clock_key_def less_prod_def)
      moreover from this have "day_seconds a < day_seconds b" using that(1,2) by (auto simp: day_seconds_def time_ok_def less_prod_def)
      ultimately show ?thesis by (simp add: epoch_split day_number_def)
    qed
  qed
  have "epoch_seconds s < epoch_seconds t \<longleftrightarrow> clock_key s < clock_key t"
  proof (cases "clock_key s" "clock_key t" rule: linorder_cases)
    case less
    then show ?thesis using fwd [OF assms] by simp
  next
    case equal
    then show ?thesis by (simp add: clock_key_def epoch_seconds_def)
  next
    case greater
    then have "epoch_seconds t < epoch_seconds s" using fwd [OF assms(2,1)] by simp
    then show ?thesis using greater by simp
  qed
  then show ?thesis using str_to_time_to_str [OF assms(2)] by (simp add: sim_time_ms_def parse_sim_clock_def)
qed

theorem clock_order_witness:
  "epoch_seconds \<lparr>tm_year = 2020, tm_month = 2, tm_day = 29, tm_hour = 23, tm_minute = 59, tm_second = 59\<rparr> <
   epoch_seconds \<lparr>tm_year = 2020, tm_month = 3, tm_day = 1, tm_hour = 0, tm_minute = 0, tm_second = 0\<rparr>"
  using clock_order [of "\<lparr>tm_year = 2020, tm_month = 2, tm_day = 29, tm_hour = 23, tm_minute = 59, tm_second = 59\<rparr>"
      "\<lparr>tm_year = 2020, tm_month = 3, tm_day = 1, tm_hour = 0, tm_minute = 0, tm_second = 0\<rparr>" "\<lambda>s. Inl ValueError"]
  by (simp add: time_ok_def days_in_month_def clock_key_def less_prod_def)

lemma epoch_of_2020: "epoch_seconds \<lparr>tm_year = 2020, tm_month = 1, tm_day = 1, tm_hour = 8, tm_minute = 0, tm_second = 0\<rparr> = 1577865600"
  by code_simp

end
