(* ===== verification/Frame_Capture.thy ===== *)
theory Frame_Capture
  imports Hot_History Run_Status
begin

text \<open>
  The run bookkeeping of the data plane service (\<open>apps/dataplane/service.py\<close>): positions go into the hot tier, a sweep captures each
  run that moved into the durable store, a terminal message captures a last frame, persists the code books, evicts the run and
  queues its archive dump. The durable store is a record of its operations; each may fail. The run lock makes every operation one step.
\<close>

section \<open>The durable store\<close>

record run_meta =
  rm_codes :: pyval
  rm_slots :: pyval
  rm_max_idx :: "int option"
  rm_status :: "string option"

record meta_fields =
  mf_codes :: "(string, int) dict option"
  mf_slots :: "(string, int) dict option"
  mf_max_idx :: "int option"
  mf_status :: "string option"

text \<open>
  A read that raises is \<open>None\<close>, and so is a write that raises; the store is then as before. \<open>dk_frames\<close> lists the stored
  frame indices of a run.
\<close>

record 'db duck =
  dk_frames :: "'db \<Rightarrow> string \<Rightarrow> int list"
  dk_meta :: "'db \<Rightarrow> string \<Rightarrow> run_meta option"
  dk_write_frame :: "string \<Rightarrow> frame \<Rightarrow> 'db \<Rightarrow> 'db option"
  dk_frame_range :: "string \<Rightarrow> 'db \<Rightarrow> (int \<times> int) option option"
  dk_get_run_meta :: "string \<Rightarrow> 'db \<Rightarrow> run_meta option option"
  dk_upsert_run_meta :: "string \<Rightarrow> meta_fields \<Rightarrow> 'db \<Rightarrow> 'db option"

text \<open>The columns an upsert leaves: a field that is not given keeps its value; a map is stored as JSON text.\<close>

definition merge_meta :: "((string, int) dict \<Rightarrow> string) \<Rightarrow> run_meta option \<Rightarrow> meta_fields \<Rightarrow> run_meta" where
  "merge_meta dumps old f =
     (let o' = (case old of None \<Rightarrow> \<lparr>rm_codes = PyNone, rm_slots = PyNone, rm_max_idx = None, rm_status = None\<rparr> | Some m \<Rightarrow> m)
      in \<lparr>rm_codes = (case mf_codes f of None \<Rightarrow> rm_codes o' | Some d \<Rightarrow> PyStr (dumps d)),
          rm_slots = (case mf_slots f of None \<Rightarrow> rm_slots o' | Some d \<Rightarrow> PyStr (dumps d)),
          rm_max_idx = (case mf_max_idx f of None \<Rightarrow> rm_max_idx o' | Some i \<Rightarrow> Some i),
          rm_status = (case mf_status f of None \<Rightarrow> rm_status o' | Some s \<Rightarrow> Some s)\<rparr>)"

section \<open>The state of the service\<close>

record 'db service =
  sv_hot :: "hot_store option"
  sv_db :: 'db
  sv_updates :: "(string, nat) dict"
  sv_captured :: "(string, nat) dict"
  sv_max_idx :: "(string, int) dict"
  sv_meta_sig :: "(string, nat \<times> nat) dict"
  sv_restored :: "string set"
  sv_finalized :: "string set"
  sv_dump_queue :: "(string \<times> string) list"
  sv_dump_queued :: "(string, string) dict"
  sv_counters :: "(string, nat) dict"

datatype service_error = HotFailed hot_error | WriteFailed | MetaFailed | FlushFailed | IngestBlocked | BadCodeMap py_error

definition hot_max_runs :: int where "hot_max_runs = 64"

definition bump_by :: "nat \<Rightarrow> string \<Rightarrow> 'db service \<Rightarrow> 'db service" where
  "bump_by n key sv = sv\<lparr>sv_counters := AList.update key ((case map_of (sv_counters sv) key of None \<Rightarrow> 0 | Some k \<Rightarrow> k) + n) (sv_counters sv)\<rparr>"

abbreviation bump :: "string \<Rightarrow> 'db service \<Rightarrow> 'db service" where
  "bump \<equiv> bump_by 1"

text \<open>The seed the hot tier is built with reads the durable store at the time of the call.\<close>

definition seed_frame_idx :: "'db duck \<Rightarrow> 'db \<Rightarrow> string \<Rightarrow> seed_answer" where
  "seed_frame_idx m db run =
     (case dk_frame_range m run db of
        None \<Rightarrow> SeedValue PyNone
      | Some None \<Rightarrow> SeedValue PyNone
      | Some (Some (lo, hi)) \<Rightarrow> SeedValue (PyInt (hi + 1)))"

definition with_seed :: "'db duck \<Rightarrow> 'db service \<Rightarrow> hot_store \<Rightarrow> hot_store" where
  "with_seed m sv h = set_frame_idx_seed (Some (seed_frame_idx m (sv_db sv))) h"

text \<open>The property \<open>hot\<close>, which builds the tier on first use.\<close>

definition hot_of :: "'db duck \<Rightarrow> 'db service \<Rightarrow> hot_store" where
  "hot_of m sv = with_seed m sv (case sv_hot sv of Some h \<Rightarrow> h | None \<Rightarrow> new_hot_store hot_max_runs 1024 None 64)"

section \<open>Code books\<close>

fun int_items :: "(string, pyval) dict \<Rightarrow> (string, int) dict \<Rightarrow> py_error + (string, int) dict" where
  "int_items [] out = Inr out"
| "int_items ((k, v) # rest) out =
     (case py_int v of
        Inr i \<Rightarrow> int_items rest (AList.update k i out)
      | Inl e \<Rightarrow> if e \<in> {TypeError, ValueError} then int_items rest out else Inl e)"

text \<open>\<open>json.loads\<close> is the parameter \<open>loads\<close>.\<close>

definition load_code_map :: "(string \<Rightarrow> pyval option) \<Rightarrow> pyval \<Rightarrow> py_error + (string, int) dict" where
  "load_code_map loads raw =
     (case raw of
        PyDict d \<Rightarrow> int_items d []
      | PyStr s \<Rightarrow>
          (if s = [] then Inr []
           else (case loads s of Some (PyDict d) \<Rightarrow> int_items d [] | _ \<Rightarrow> Inr []))
      | _ \<Rightarrow> Inr [])"

text \<open>The union of both books; the persisted value wins. The second component counts the disagreements.\<close>

definition merge_code_map :: "(string, int) dict \<Rightarrow> (string, int) dict \<Rightarrow> (string, int) dict \<times> nat" where
  "merge_code_map persisted live =
     fold (\<lambda>(k, v) (merged, conflicts).
         (AList.update k v merged, if map_of merged k \<noteq> None \<and> map_of merged k \<noteq> Some v then Suc conflicts else conflicts))
       persisted (live, 0)"

section \<open>Capture\<close>

definition capture_run :: "'db duck \<Rightarrow> nat \<Rightarrow> string \<Rightarrow> 'db service \<Rightarrow> (service_error + nat) \<times> 'db service" where
  "capture_run m now run sv =
     (case sv_hot sv of
        None \<Rightarrow> (Inr 0, sv)
      | Some h \<Rightarrow>
          (let seq = (case map_of (sv_updates sv) run of None \<Rightarrow> 0 | Some n \<Rightarrow> n)
           in if map_of (sv_captured sv) run = Some seq then (Inr 0, bump ''frames_skipped_idle'' sv)
              else
                (case snapshot now run kind_keyframe h of
                   (Inl (RunNotResident r), h1) \<Rightarrow> (Inr 0, bump ''frames_not_resident'' (sv\<lparr>sv_hot := Some h1\<rparr>))
                 | (Inl e, h1) \<Rightarrow> (Inl (HotFailed e), sv\<lparr>sv_hot := Some h1\<rparr>)
                 | (Inr f, h1) \<Rightarrow>
                     (if frame_n f = 0 then (Inr 0, sv\<lparr>sv_hot := Some h1, sv_captured := AList.update run seq (sv_captured sv)\<rparr>)
                      else (case dk_write_frame m run f (sv_db sv) of
                        None \<Rightarrow>
                          (Inl WriteFailed,
                           bump ''frame_write_failures'' (sv\<lparr>sv_hot := Some (snd (rollback_frame_idx run (PyInt (fr_frame_idx f)) h1))\<rparr>))
                      | Some db' \<Rightarrow>
                          (let top = (case map_of (sv_max_idx sv) run of None \<Rightarrow> -1 | Some i \<Rightarrow> i)
                           in (Inr 1, bump ''frames_written''
                                (sv\<lparr>sv_hot := Some h1, sv_db := db', sv_captured := AList.update run seq (sv_captured sv),
                                    sv_max_idx := (if top \<le> fr_frame_idx f then AList.update run (fr_frame_idx f) (sv_max_idx sv) else sv_max_idx sv)\<rparr>))))))))"

definition positions_uncaptured :: "string \<Rightarrow> 'db service \<Rightarrow> bool" where
  "positions_uncaptured run sv \<longleftrightarrow> map_of (sv_updates sv) run \<noteq> map_of (sv_captured sv) run"

definition read_meta :: "'db duck \<Rightarrow> string \<Rightarrow> 'db service \<Rightarrow> run_meta option" where
  "read_meta m run sv = (case dk_get_run_meta m run (sv_db sv) of Some (Some r) \<Rightarrow> Some r | _ \<Rightarrow> None)"

text \<open>The live books of a run: none when there is no hot tier or the run has left it.\<close>

definition live_books :: "nat \<Rightarrow> string \<Rightarrow> 'db service \<Rightarrow> ((string, int) dict \<times> (string, int) dict) option \<times> hot_store option" where
  "live_books now run sv =
     (case sv_hot sv of
        None \<Rightarrow> (None, None)
      | Some h \<Rightarrow>
          (case hot_haulier_codes now run h of
             (Inl e, h1) \<Rightarrow> (None, Some h1)
           | (Inr codes, h1) \<Rightarrow>
               (case hot_slot_map now run h1 of (Inl e, h2) \<Rightarrow> (None, Some h2) | (Inr slots, h2) \<Rightarrow> (Some (codes, slots), Some h2))))"

definition count_conflicts :: "nat \<Rightarrow> 'db service \<Rightarrow> 'db service" where
  "count_conflicts n sv = (if n = 0 then sv else bump_by n ''code_book_conflicts'' sv)"

text \<open>The signature check and the upsert; the signature is recorded only once the row is written.\<close>

definition write_meta ::
  "'db duck \<Rightarrow> string \<Rightarrow> string option \<Rightarrow> bool \<Rightarrow> (string, int) dict \<Rightarrow> (string, int) dict \<Rightarrow> 'db service \<Rightarrow> (service_error + bool) \<times> 'db service" where
  "write_meta m run status force codes slots sv =
     (let sig = (length codes, length slots)
      in if \<not> force \<and> status = None \<and> map_of (sv_meta_sig sv) run = Some sig then (Inr False, sv)
         else (case dk_upsert_run_meta m run
                 \<lparr>mf_codes = (if codes = [] then None else Some codes), mf_slots = (if slots = [] then None else Some slots),
                  mf_max_idx = map_of (sv_max_idx sv) run, mf_status = status\<rparr> (sv_db sv) of
             None \<Rightarrow> (Inl MetaFailed, sv)
           | Some db' \<Rightarrow>
               (Inr True, bump ''meta_writes'' (sv\<lparr>sv_db := db', sv_meta_sig := AList.update run sig (sv_meta_sig sv)\<rparr>))))"

definition persist_run_meta ::
  "'db duck \<Rightarrow> (string \<Rightarrow> pyval option) \<Rightarrow> nat \<Rightarrow> string \<Rightarrow> string option \<Rightarrow> bool \<Rightarrow> 'db service \<Rightarrow> (service_error + bool) \<times> 'db service" where
  "persist_run_meta m loads now run status force sv =
     (case live_books now run sv of
        (books, hot1) \<Rightarrow>
          (let sv1 = sv\<lparr>sv_hot := hot1\<rparr>
           in if books = None \<and> status = None \<and> \<not> force then (Inr False, sv1)
              else
                (let meta = read_meta m run sv1; live = (case books of None \<Rightarrow> ([], []) | Some b \<Rightarrow> b)
                 in (case load_code_map loads (case meta of None \<Rightarrow> PyNone | Some r \<Rightarrow> rm_codes r) of
                       Inl e \<Rightarrow> (Inl (BadCodeMap e), sv1)
                     | Inr pcodes \<Rightarrow>
                         (let cm = merge_code_map pcodes (fst live); sv2 = count_conflicts (snd cm) sv1
                          in (case load_code_map loads (case meta of None \<Rightarrow> PyNone | Some r \<Rightarrow> rm_slots r) of
                                Inl e \<Rightarrow> (Inl (BadCodeMap e), sv2)
                              | Inr pslots \<Rightarrow>
                                  (let sm = merge_code_map pslots (snd live)
                                   in write_meta m run status force (fst cm) (fst sm) (count_conflicts (snd sm) sv2))))))))"

definition evict_run :: "string \<Rightarrow> 'db service \<Rightarrow> bool \<times> 'db service" where
  "evict_run run sv =
     (case sv_hot sv of
        None \<Rightarrow> (False, sv)
      | Some h \<Rightarrow>
          (case evict run h of
             (False, h1) \<Rightarrow> (False, sv\<lparr>sv_hot := Some h1\<rparr>)
           | (True, h1) \<Rightarrow>
               (True, bump ''runs_evicted'' (sv\<lparr>sv_hot := Some h1, sv_updates := AList.delete run (sv_updates sv),
                  sv_captured := AList.delete run (sv_captured sv)\<rparr>))))"

definition queue_dump :: "string \<Rightarrow> string \<Rightarrow> 'db service \<Rightarrow> 'db service" where
  "queue_dump run reason sv =
     (case map_of (sv_dump_queued sv) run of
        Some old \<Rightarrow> sv\<lparr>sv_dump_queued := AList.update run (if reason = [] then old else reason) (sv_dump_queued sv)\<rparr>
      | None \<Rightarrow>
          bump ''dumps_queued'' (sv\<lparr>sv_dump_queued := AList.update run reason (sv_dump_queued sv), sv_dump_queue := sv_dump_queue sv @ [(run, reason)]\<rparr>))"

text \<open>\<open>flushed\<close> and \<open>blocked\<close> are the answers of the consumer: did the buffered rows reach the store, and which topics are stuck.\<close>

definition finalize_run ::
  "'db duck \<Rightarrow> (string \<Rightarrow> pyval option) \<Rightarrow> nat \<Rightarrow> bool \<Rightarrow> string list \<Rightarrow> string \<Rightarrow> string \<Rightarrow> 'db service \<Rightarrow> (service_error + unit) \<times> 'db service" where
  "finalize_run m loads now flushed blocked run reason sv =
     (if \<not> flushed then (Inl FlushFailed, sv)
      else if filter (\<lambda>t. t \<noteq> ''run_status'') blocked \<noteq> [] then (Inl IngestBlocked, sv)
      else (case capture_run m now run sv of
        (Inl e, sv1) \<Rightarrow> (Inl e, sv1)
      | (Inr k, sv1) \<Rightarrow>
          (let sv2 = (if positions_uncaptured run sv1 then bump ''positions_dropped'' sv1 else sv1)
           in (case persist_run_meta m loads now run (Some reason) True sv2 of
                 (Inl e, sv3) \<Rightarrow> (Inl e, sv3)
               | (Inr b, sv3) \<Rightarrow>
                   (let sv4 = snd (evict_run run (sv3\<lparr>sv_finalized := insert run (sv_finalized sv3)\<rparr>))
                    in (Inr (), bump ''runs_finalized'' (queue_dump run reason sv4)))))))"

text \<open>One run of the sweep; a failure is logged and the sweep goes on.\<close>

definition sweep_run :: "'db duck \<Rightarrow> (string \<Rightarrow> pyval option) \<Rightarrow> nat \<Rightarrow> string \<Rightarrow> nat \<times> 'db service \<Rightarrow> nat \<times> 'db service" where
  "sweep_run m loads now run p =
     (case capture_run m now run (snd p) of
        (Inl e, sv1) \<Rightarrow> (fst p, sv1)
      | (Inr k, sv1) \<Rightarrow> (fst p + k, snd (persist_run_meta m loads now run None False sv1)))"

definition forget_gone :: "string list \<Rightarrow> 'db service \<Rightarrow> 'db service" where
  "forget_gone runs sv =
     (let gone = filter (\<lambda>r. r \<notin> set runs \<and> r \<notin> sv_finalized sv) (map fst (sv_updates sv));
          dropped = filter (\<lambda>r. positions_uncaptured r sv) gone;
          sv1 = sv\<lparr>sv_updates := filter (\<lambda>(r, n). r \<notin> set gone) (sv_updates sv), sv_captured := filter (\<lambda>(r, n). r \<notin> set gone) (sv_captured sv)\<rparr>
      in if dropped = [] then sv1 else bump_by (length dropped) ''positions_dropped'' sv1)"

definition capture_frames :: "'db duck \<Rightarrow> (string \<Rightarrow> pyval option) \<Rightarrow> nat \<Rightarrow> 'db service \<Rightarrow> nat \<times> 'db service" where
  "capture_frames m loads now sv =
     (case sv_hot sv of
        None \<Rightarrow> (0, sv)
      | Some h \<Rightarrow> (let runs = resident_runs h in fold (sweep_run m loads now) runs (0, forget_gone runs sv)))"

section \<open>Positions\<close>

definition restore_run_codes :: "'db duck \<Rightarrow> (string \<Rightarrow> pyval option) \<Rightarrow> nat \<Rightarrow> string \<Rightarrow> 'db service \<Rightarrow> (service_error + bool) \<times> 'db service" where
  "restore_run_codes m loads now run sv =
     (if map_of (sv_meta_sig sv) run \<noteq> None \<or> run \<in> sv_restored sv then (Inr False, sv)
      else (case dk_get_run_meta m run (sv_db sv) of
        None \<Rightarrow> (Inr False, sv)
      | Some meta \<Rightarrow>
          (let sv1 = sv\<lparr>sv_restored := insert run (sv_restored sv)\<rparr>
           in (case meta of
                 None \<Rightarrow> (Inr False, sv1)
               | Some r \<Rightarrow>
                   (let sv2 = (case rm_max_idx r of None \<Rightarrow> sv1 | Some i \<Rightarrow> sv1\<lparr>sv_max_idx := AList.update run i (sv_max_idx sv1)\<rparr>);
                        start = (case rm_max_idx r of None \<Rightarrow> PyNone | Some i \<Rightarrow> PyInt (i + 1))
                    in (case (load_code_map loads (rm_codes r), load_code_map loads (rm_slots r)) of
                          (Inr codes, Inr slots) \<Rightarrow>
                            (if codes = [] \<and> slots = [] \<and> start = PyNone then (Inr False, sv2)
                             else (case seed_run_identity now run (if codes = [] then None else Some codes) (if slots = [] then None else Some slots) start
                                       (hot_of m sv2) of
                               (Inl e, h1) \<Rightarrow> (Inr False, sv2\<lparr>sv_hot := Some h1\<rparr>)
                             | (Inr b, h1) \<Rightarrow> (Inr True, bump ''runs_restored'' (sv2\<lparr>sv_hot := Some h1\<rparr>))))
                        | (Inl e, _) \<Rightarrow> (Inl (BadCodeMap e), sv2)
                        | (_, Inl e) \<Rightarrow> (Inl (BadCodeMap e), sv2)))))))"

definition add_position :: "'db duck \<Rightarrow> nat \<Rightarrow> string \<Rightarrow> string \<Rightarrow> position \<Rightarrow> 'db service \<Rightarrow> (service_error + unit) \<times> 'db service" where
  "add_position m now run agent p sv =
     (case update_position now run agent p (hot_of m sv) of
        (Inl e, h1) \<Rightarrow> (Inl (HotFailed e), sv\<lparr>sv_hot := Some h1\<rparr>)
      | (Inr slot, h1) \<Rightarrow>
          (Inr (), bump ''truck_loc'' (sv\<lparr>sv_hot := Some h1,
             sv_updates := AList.update run ((case map_of (sv_updates sv) run of None \<Rightarrow> 0 | Some n \<Rightarrow> n) + 1) (sv_updates sv)\<rparr>)))"

text \<open>
  The handler of \<open>trip_geo\<close> records. Floats enter the hot tier as the bit patterns \<open>bits\<close>; \<open>str\<close> of a container is the parameter \<open>render\<close>.
\<close>

definition float_field :: "pyval \<Rightarrow> py_error + pyfloat" where
  "float_field v = (case v of PyInt i \<Rightarrow> if float_overflows i then Inl OverflowError else Inr (Fin (of_int i)) | _ \<Rightarrow> py_float v)"

definition truck_position ::
  "(pyval \<Rightarrow> string) \<Rightarrow> (pyfloat \<Rightarrow> 64 word) \<Rightarrow> (string \<Rightarrow> py_error + py_time) \<Rightarrow> (string, pyval) dict \<Rightarrow> (string \<times> position) option" where
  "truck_position render bits dateutil p =
     (let agent = py_get p ''truck_agent_id''; lon = py_get p ''lon''; lat = py_get p ''lat''; h = py_get p ''haulier_id''
      in if \<not> truthy agent \<or> lon = PyNone \<or> lat = PyNone \<or> (case h of PyDict _ \<Rightarrow> True | PyList _ \<Rightarrow> True | _ \<Rightarrow> False) then None
         else (case (float_field lon, float_field lat, sim_time_ms dateutil (py_get p ''sim_clock'')) of
                 (Inr x, Inr y, Inr t) \<Rightarrow>
                   Some (py_str render agent,
                     \<lparr>ps_lng = bits x, ps_lat = bits y, ps_state = py_get p ''haul_state'',
                      ps_haulier = (if h = PyNone then None else Some (py_str render h)), ps_time = bits t\<rparr>)
               | _ \<Rightarrow> None))"

definition on_trip_geo ::
  "'db duck \<Rightarrow> (string \<Rightarrow> pyval option) \<Rightarrow> (pyval \<Rightarrow> string) \<Rightarrow> (pyfloat \<Rightarrow> 64 word) \<Rightarrow> (string \<Rightarrow> py_error + py_time) \<Rightarrow> nat \<Rightarrow> string
   \<Rightarrow> (string, pyval) dict \<Rightarrow> 'db service \<Rightarrow> (service_error + unit) \<times> 'db service" where
  "on_trip_geo m loads render bits dateutil now run p sv =
     (let kind = py_get p ''type''
      in if kind = PyStr ''trip_route'' then (Inr (), bump ''trip_route'' sv)
         else if kind = PyStr ''trip_end'' then (Inr (), bump ''trip_end'' sv)
         else if kind \<noteq> PyStr ''truck_loc'' then (Inr (), bump ''trip_geo_other'' sv)
         else (case truck_position render bits dateutil p of
                 None \<Rightarrow> (Inr (), bump ''truck_loc_malformed'' sv)
               | Some (agent, pos) \<Rightarrow>
                   (if run \<in> sv_finalized sv then (Inr (), bump ''trip_geo_other'' sv)
                    else (case restore_run_codes m loads now run sv of
                            (Inl e, sv1) \<Rightarrow> (Inl e, sv1)
                          | (Inr b, sv1) \<Rightarrow> add_position m now run agent pos sv1))))"

section \<open>The archive queue\<close>

text \<open>\<open>archived run reason\<close>: did the archive take the run, as \<open>dump_run\<close> reports it.\<close>

fun drain_queue :: "(string \<Rightarrow> string \<Rightarrow> bool) \<Rightarrow> nat \<Rightarrow> (string \<times> string) list \<Rightarrow> (string, string) dict \<Rightarrow> nat \<times> (string \<times> string) list \<times> (string, string) dict" where
  "drain_queue archived 0 queue queued = (0, queue, queued)"
| "drain_queue archived (Suc k) [] queued = (0, [], queued)"
| "drain_queue archived (Suc k) ((run, reason) # queue) queued =
     (if archived run reason
      then (case drain_queue archived k queue (AList.delete run queued) of (done, q, d) \<Rightarrow> (Suc done, q, d))
      else (0, (run, reason) # queue, queued))"

definition drain_dumps :: "(string \<Rightarrow> string \<Rightarrow> bool) \<Rightarrow> nat option \<Rightarrow> 'db service \<Rightarrow> nat \<times> 'db service" where
  "drain_dumps archived limit sv =
     (case drain_queue archived (case limit of None \<Rightarrow> length (sv_dump_queue sv) | Some k \<Rightarrow> k) (sv_dump_queue sv) (sv_dump_queued sv) of
        (done, q, d) \<Rightarrow> (done, sv\<lparr>sv_dump_queue := q, sv_dump_queued := d\<rparr>))"

end
