(* ===== verification/Capture_History.thy ===== *)
theory Capture_History
  imports Frame_Capture "HOL-Library.Sublist"
begin

text \<open>
  What the frame capture of the data plane guarantees: a run's stored frame indices strictly increase over every history of
  messages, sweeps and replayed terminals, failures included; a closed run is persisted, evicted and queued, or the terminal is
  refused with its slab kept; persisted code books only grow.
\<close>

section \<open>The documented behaviour of the store\<close>

definition duck_ok :: "'db duck \<Rightarrow> ((string, int) dict \<Rightarrow> string) \<Rightarrow> bool" where
  "duck_ok m dumps \<longleftrightarrow>
     (\<forall>run f db db'. dk_write_frame m run f db = Some db' \<longrightarrow>
        dk_frames m db' = (dk_frames m db)(run := dk_frames m db run @ [fr_frame_idx f]) \<and> dk_meta m db' = dk_meta m db) \<and>
     (\<forall>run f db db'. dk_upsert_run_meta m run f db = Some db' \<longrightarrow>
        dk_frames m db' = dk_frames m db \<and> dk_meta m db' = (dk_meta m db)(run := Some (merge_meta dumps (dk_meta m db run) f))) \<and>
     (\<forall>run db. dk_frame_range m run db =
        Some (if dk_frames m db run = [] then None else Some (Min (set (dk_frames m db run)), Max (set (dk_frames m db run))))) \<and>
     (\<forall>run db r. dk_get_run_meta m run db = Some r \<longrightarrow> r = dk_meta m db run)"

lemma duck_okD:
  assumes "duck_ok m dumps"
  shows "dk_write_frame m run f db = Some db' \<Longrightarrow> dk_frames m db' = (dk_frames m db)(run := dk_frames m db run @ [fr_frame_idx f])"
    and "dk_write_frame m run f db = Some db' \<Longrightarrow> dk_meta m db' = dk_meta m db"
    and "dk_upsert_run_meta m run g db = Some db' \<Longrightarrow> dk_frames m db' = dk_frames m db"
    and "dk_upsert_run_meta m run g db = Some db' \<Longrightarrow> dk_meta m db' = (dk_meta m db)(run := Some (merge_meta dumps (dk_meta m db run) g))"
    and "dk_frame_range m run db = Some (if dk_frames m db run = [] then None else Some (Min (set (dk_frames m db run)), Max (set (dk_frames m db run))))"
    and "dk_get_run_meta m run db = Some r \<Longrightarrow> r = dk_meta m db run"
  using assms unfolding duck_ok_def by blast+

section \<open>The hot tier stays above the stored frames\<close>

definition floor_ok :: "(string \<Rightarrow> int list) \<Rightarrow> hot_store \<Rightarrow> bool" where
  "floor_ok g h \<longleftrightarrow> (\<forall>r s. map_of (hs_runs h) r = Some s \<longrightarrow> (\<forall>i \<in> set (g r). i < sl_frame_counter s))"

definition seeds_above :: "(string \<Rightarrow> int list) \<Rightarrow> hot_store \<Rightarrow> bool" where
  "seeds_above g h \<longleftrightarrow> (\<forall>r i h'. seeded_frame_idx r h = (Inr i, h') \<longrightarrow> (\<forall>j \<in> set (g r). j < i))"

lemma floor_put: "floor_ok g h \<Longrightarrow> \<forall>i \<in> set (g run). i < sl_frame_counter s \<Longrightarrow> floor_ok g (put_slab run s h)"
  by (simp add: floor_ok_def)

lemma floor_resident: "floor_ok g h \<Longrightarrow> map_of (hs_runs h) run = Some s \<Longrightarrow> \<forall>i \<in> set (g run). i < sl_frame_counter s"
  by (simp add: floor_ok_def)

lemma hs_runs_park [simp]: "hs_runs (park r s h) = hs_runs h"
  by (simp add: park_def Let_def)

lemma floor_evict_slab: "floor_ok g h \<Longrightarrow> floor_ok g (evict_slab r s h)"
  by (simp add: floor_ok_def evict_slab_def Let_def)

lemma floor_lru: "floor_ok g h \<Longrightarrow> floor_ok g (evict_lru h)"
proof -
  have "floor_ok g (evict_rounds k h)" if "floor_ok g h" for k h using that
    by (induction k arbitrary: h) (auto split: option.splits intro: floor_evict_slab)
  then show "floor_ok g h \<Longrightarrow> floor_ok g (evict_lru h)" by (simp add: evict_lru_def)
qed

lemma slot_for_counter: "slot_for a s = (i, s') \<Longrightarrow> sl_frame_counter s' = sl_frame_counter s"
  by (auto simp: slot_for_def Let_def split: option.splits)

lemma store_position_counter [simp]: "sl_frame_counter (store_position i p s) = sl_frame_counter s"
  by (auto simp: store_position_def code_for_haulier_def Let_def split: option.splits)

lemma touch_counter [simp]: "sl_frame_counter (touch_write now s) = sl_frame_counter s"
  by (simp add: touch_write_def)

lemma seeded_carry: "seeded_frame_idx run (h\<lparr>hs_carryover := c\<rparr>) = (Inr i, h1) \<Longrightarrow> \<exists>h2. seeded_frame_idx run h = (Inr i, h2)"
  by (auto simp: seeded_frame_idx_def seed_failed_def split: option.splits seed_answer.splits if_splits sum.splits)

lemma floor_create:
  assumes "floor_ok g h" and "seeds_above g h" and "create_slab now run capacity start slot_map codes h = (x, h')"
  shows "floor_ok g h'"
  using assms(3)
proof (cases rule: create_slab_cases)
  case (failed e st1)
  then show ?thesis using assms(1) by (simp add: floor_ok_def)
next
  case (created s0 s1 st1 seeded counter)
  have "\<forall>j \<in> set (g run). j < seeded" using seeded_carry [OF created(4)] assms(2) by (auto simp: seeds_above_def)
  then have "\<forall>j \<in> set (g run). j < counter" using created(5) by auto
  moreover have "floor_ok g st1" using assms(1) seeded_fields(1) [OF created(4)] by (simp add: floor_ok_def)
  ultimately show ?thesis unfolding created(8) by (intro floor_lru floor_put) simp_all
qed

lemma floor_ensure:
  assumes "floor_ok g h" and "seeds_above g h" and "ensure_run now run capacity start slot_map codes h = (x, h')"
  shows "floor_ok g h'"
proof (cases "map_of (hs_runs h) run")
  case None
  then show ?thesis using floor_create [OF assms(1,2)] assms(3) by (simp add: ensure_run_def)
next
  case (Some s)
  then show ?thesis using assms(1,3) floor_resident [OF assms(1) Some] by (auto simp: ensure_run_def intro!: floor_put)
qed

lemma floor_writable:
  assumes "floor_ok g h" and "seeds_above g h" and "writable_slab now run h = (x, h')"
  shows "floor_ok g h'" and "x = Inr s \<Longrightarrow> map_of (hs_runs h') run = Some s"
proof -
  obtain y h1 where e: "ensure_run now run None PyNone None None h = (y, h1)" by fastforce
  have f: "floor_ok g h1" by (rule floor_ensure [OF assms(1,2) e])
  show "floor_ok g h'"
    using assms(3) f floor_resident [OF f] by (auto simp: writable_slab_def e split: sum.splits option.splits intro!: floor_put)
  show "x = Inr s \<Longrightarrow> map_of (hs_runs h') run = Some s"
    using assms(3) by (auto simp: writable_slab_def e split: sum.splits option.splits)
qed

lemma floor_update:
  assumes "floor_ok g h" and "seeds_above g h" and "update_position now run agent p h = (x, h')"
  shows "floor_ok g h'"
proof -
  obtain y h1 where w: "writable_slab now run h = (y, h1)" by fastforce
  note fw = floor_writable [OF assms(1,2) w]
  show ?thesis
  proof (cases y)
    case (Inl e)
    then show ?thesis using assms(3) fw(1) by (auto simp: update_position_def w)
  next
    case (Inr s)
    obtain i s1 where f: "slot_for agent s = (i, s1)" by fastforce
    have "\<forall>j \<in> set (g run). j < sl_frame_counter s1" using floor_resident [OF fw(1) fw(2) [OF Inr]] slot_for_counter [OF f] by simp
    then show ?thesis using assms(3) fw(1) Inr f by (auto simp: update_position_def w split: option.splits intro!: floor_put)
  qed
qed

lemma raise_counter_le: "raise_counter start s = (r, s') \<Longrightarrow> sl_frame_counter s \<le> sl_frame_counter s'"
  by (auto simp: raise_counter_def split: if_splits sum.splits)

lemma floor_seed_identity:
  assumes "floor_ok g h" and "seeds_above g h" and "seed_run_identity now run codes slot_map start h = (x, h')"
  shows "floor_ok g h'"
proof (cases "map_of (hs_runs h) run")
  case None
  obtain y h1 where "create_slab now run None start slot_map codes h = (y, h1)" by fastforce
  then show ?thesis using floor_create [OF assms(1,2)] assms(3) None by (auto simp: seed_run_identity_def)
next
  case (Some s)
  obtain u s1 where m: "merge_slots slot_map (merge_codes codes s) = (u, s1)" by fastforce
  obtain v s2 where c: "raise_counter start s1 = (v, s2)" by fastforce
  have old: "\<forall>j \<in> set (g run). j < sl_frame_counter s1" using floor_resident [OF assms(1) Some] merge_slots_fields(2) [OF m] by simp
  then have "\<forall>j \<in> set (g run). j < sl_frame_counter s2" using raise_counter_le [OF c] by auto
  then show ?thesis using assms(1,3) Some m c old by (auto simp: seed_run_identity_def split: sum.splits intro!: floor_put)
qed

lemma floor_read: "floor_ok g h \<Longrightarrow> read_slab f now run h = (x, h') \<Longrightarrow> floor_ok g h'"
  by (auto simp: read_slab_def floor_resident split: option.splits intro!: floor_put)

lemma floor_evict: "floor_ok g h \<Longrightarrow> evict run h = (b, h') \<Longrightarrow> floor_ok g h'"
  by (auto simp: evict_def split: option.splits intro: floor_evict_slab)

text \<open>A snapshot: the frame's index is above the stored ones, and the counter is above the frame's.\<close>

lemma floor_snapshot:
  assumes "floor_ok g h" and "snapshot now run kind h = (x, h')"
  shows "floor_ok g h'" and "x = Inr f \<Longrightarrow> \<forall>i \<in> set (g run). i < fr_frame_idx f"
    and "x = Inr f \<Longrightarrow> floor_ok (g(run := g run @ [fr_frame_idx f])) h'"
    and "x = Inr f \<Longrightarrow> floor_ok g (snd (rollback_frame_idx run (PyInt (fr_frame_idx f)) h'))"
proof -
  have "floor_ok g h' \<and> (x = Inr f \<longrightarrow> (\<forall>i \<in> set (g run). i < fr_frame_idx f) \<and> floor_ok (g(run := g run @ [fr_frame_idx f])) h' \<and>
    floor_ok g (snd (rollback_frame_idx run (PyInt (fr_frame_idx f)) h')))" for f
  proof (cases "map_of (hs_runs h) run")
    case None
    then show ?thesis using assms by (auto simp: snapshot_def)
  next
    case (Some s)
    note above = floor_resident [OF assms(1) Some]
    show ?thesis
    proof (cases "make_frame (frame_of kind (touch_read now s))")
      case (Inl e)
      then show ?thesis using assms Some above by (auto simp: snapshot_def Let_def intro!: floor_put)
    next
      case (Inr f')
      let ?s = "(touch_read now s)\<lparr>sl_frame_counter := sl_frame_counter s + 1, sl_frames_emitted := sl_frames_emitted (touch_read now s) + 1\<rparr>"
      have r: "h' = put_slab run ?s h" "x = Inr f'" using assms(2) Some Inr by (auto simp: snapshot_def Let_def)
      have idx: "fr_frame_idx f' = sl_frame_counter s" using make_frame_id [OF Inr] by simp
      have "floor_ok g h'" unfolding r using above by (intro floor_put assms(1)) auto
      moreover have "floor_ok (g(run := g run @ [sl_frame_counter s])) h'"
        using assms(1) above unfolding floor_ok_def r by auto
      moreover have "floor_ok g (snd (rollback_frame_idx run (PyInt (sl_frame_counter s)) h'))"
        using above \<open>floor_ok g h'\<close> by (auto simp: rollback_frame_idx_def r intro!: floor_put)
      ultimately show ?thesis using idx r(2) above by auto
    qed
  qed
  then show "floor_ok g h'" and "x = Inr f \<Longrightarrow> \<forall>i \<in> set (g run). i < fr_frame_idx f"
    and "x = Inr f \<Longrightarrow> floor_ok (g(run := g run @ [fr_frame_idx f])) h'"
    and "x = Inr f \<Longrightarrow> floor_ok g (snd (rollback_frame_idx run (PyInt (fr_frame_idx f)) h'))" by blast+
qed

section \<open>The service keeps it so\<close>

definition frames_kept :: "(string \<Rightarrow> int list) \<Rightarrow> ('db \<Rightarrow> string \<Rightarrow> int list) \<Rightarrow> 'db service \<Rightarrow> bool" where
  "frames_kept g0 frames sv \<longleftrightarrow>
     (\<forall>r. sorted_wrt (<) (frames (sv_db sv) r) \<and> prefix (g0 r) (frames (sv_db sv) r)) \<and>
     (case sv_hot sv of None \<Rightarrow> True | Some h \<Rightarrow> floor_ok (frames (sv_db sv)) h)"

abbreviation sv_inv :: "(string \<Rightarrow> int list) \<Rightarrow> 'db duck \<Rightarrow> 'db service \<Rightarrow> bool" where
  "sv_inv g0 m sv \<equiv> frames_kept g0 (dk_frames m) sv"

lemma sv_inv_frame:
  assumes "sv_hot sv' = sv_hot sv" and "sv_db sv' = sv_db sv" shows "sv_inv g0 m sv' = sv_inv g0 m sv"
  unfolding frames_kept_def assms by (rule refl)

lemma bump_fields [simp]: "sv_hot (bump_by n k sv) = sv_hot sv" "sv_db (bump_by n k sv) = sv_db sv" "sv_updates (bump_by n k sv) = sv_updates sv"
  "sv_captured (bump_by n k sv) = sv_captured sv" "sv_dump_queue (bump_by n k sv) = sv_dump_queue sv" "sv_dump_queued (bump_by n k sv) = sv_dump_queued sv"
  "sv_finalized (bump_by n k sv) = sv_finalized sv" "sv_max_idx (bump_by n k sv) = sv_max_idx sv"
  by (simp_all add: bump_by_def)

lemma sv_inv_bump [simp]: "sv_inv g0 m (bump_by n k sv) = sv_inv g0 m sv" "sv_inv g0 m (count_conflicts n sv) = sv_inv g0 m sv"
proof -
  show b: "sv_inv g0 m (bump_by n k sv) = sv_inv g0 m sv" for k by (rule sv_inv_frame) simp_all
  then show "sv_inv g0 m (count_conflicts n sv) = sv_inv g0 m sv" by (simp add: count_conflicts_def)
qed

lemma sv_inv_hot: "sv_inv g0 m sv \<Longrightarrow> floor_ok (dk_frames m (sv_db sv)) h \<Longrightarrow> sv_inv g0 m (sv\<lparr>sv_hot := Some h\<rparr>)"
  by (simp add: frames_kept_def)

lemma hot_of_floor:
  assumes "duck_ok m dumps" and "sv_inv g0 m sv"
  shows "floor_ok (dk_frames m (sv_db sv)) (hot_of m sv)" and "seeds_above (dk_frames m (sv_db sv)) (hot_of m sv)"
proof -
  show "floor_ok (dk_frames m (sv_db sv)) (hot_of m sv)"
    using assms(2) by (auto simp: frames_kept_def hot_of_def with_seed_def set_frame_idx_seed_def floor_ok_def new_hot_store_def split: option.splits)
  show "seeds_above (dk_frames m (sv_db sv)) (hot_of m sv)" unfolding seeds_above_def
  proof (intro allI impI ballI)
    fix r i h' j
    assume s: "seeded_frame_idx r (hot_of m sv) = (Inr i, h')" and j: "j \<in> set (dk_frames m (sv_db sv) r)"
    let ?xs = "dk_frames m (sv_db sv) r"
    have "?xs \<noteq> []" using j by auto
    then have "seed_frame_idx m (sv_db sv) r = SeedValue (PyInt (Max (set ?xs) + 1))"
      using duck_okD(5) [OF assms(1), of r "sv_db sv"] by (simp add: seed_frame_idx_def)
    then have "i = max (Max (set ?xs) + 1) 0"
      using s by (simp add: seeded_frame_idx_def hot_of_def with_seed_def set_frame_idx_seed_def)
    moreover have "j \<le> Max (set ?xs)" using j by simp
    ultimately show "j < i" by linarith
  qed
qed

lemma capture_run_inv:
  assumes "duck_ok m dumps" and inv: "sv_inv g0 m sv" and "capture_run m now run sv = (x, sv')"
  shows "sv_inv g0 m sv'"
proof (cases "sv_hot sv")
  case None
  then show ?thesis using assms(2,3) by (simp add: capture_run_def)
next
  case (Some h)
  let ?g = "dk_frames m (sv_db sv)"
  let ?seq = "case map_of (sv_updates sv) run of None \<Rightarrow> 0 | Some n \<Rightarrow> n"
  have f: "floor_ok ?g h" and sorted: "\<forall>r. sorted_wrt (<) (?g r) \<and> prefix (g0 r) (?g r)" using inv Some by (simp_all add: frames_kept_def)
  obtain y h1 where s: "snapshot now run kind_keyframe h = (y, h1)" by fastforce
  note fs = floor_snapshot [OF f s]
  show ?thesis
  proof (cases "map_of (sv_captured sv) run = Some ?seq")
    case True
    then show ?thesis using assms(3) inv Some by (auto simp: capture_run_def)
  next
    case False
    show ?thesis
    proof (cases y)
      case (Inl e)
      then show ?thesis using assms(3) Some False s fs(1) inv by (cases e) (auto simp: capture_run_def intro!: sv_inv_hot)
    next
      case (Inr fr)
      show ?thesis
      proof (cases "frame_n fr = 0")
        case True
        then show ?thesis using assms(3) Some False s fs(1) Inr inv by (auto simp: capture_run_def frames_kept_def)
      next
        case n: False
        show ?thesis
        proof (cases "dk_write_frame m run fr (sv_db sv)")
          case None
          then show ?thesis using assms(3) Some False s fs(4) [OF Inr] Inr n inv by (auto simp: capture_run_def intro!: sv_inv_hot)
        next
          case w: (Some db')
          have "dk_frames m db' = ?g(run := ?g run @ [fr_frame_idx fr])" by (rule duck_okD(1) [OF assms(1) w])
          then have "\<forall>r. sorted_wrt (<) (dk_frames m db' r) \<and> prefix (g0 r) (dk_frames m db' r)" "floor_ok (dk_frames m db') h1"
            using sorted fs(2,3) [OF Inr] by (auto simp: sorted_wrt_append)
          then show ?thesis using assms(3) Some False s Inr n w by (auto simp: capture_run_def frames_kept_def Let_def)
        qed
      qed
    qed
  qed
qed

lemma live_books_floor:
  assumes "live_books now run sv = (b, hot1)" and "sv_inv g0 m sv" shows "sv_inv g0 m (sv\<lparr>sv_hot := hot1\<rparr>)"
proof (cases "sv_hot sv")
  case None
  then show ?thesis using assms by (simp add: live_books_def frames_kept_def)
next
  case (Some h)
  obtain x h1 where c: "hot_haulier_codes now run h = (x, h1)" by fastforce
  obtain y h2 where d: "hot_slot_map now run h1 = (y, h2)" by fastforce
  have "floor_ok (dk_frames m (sv_db sv)) h" using assms(2) Some by (simp add: frames_kept_def)
  then have f1: "floor_ok (dk_frames m (sv_db sv)) h1" using c floor_read unfolding hot_haulier_codes_def by blast
  then have f2: "floor_ok (dk_frames m (sv_db sv)) h2" using d floor_read unfolding hot_slot_map_def by blast
  show ?thesis using assms Some c d f1 f2 by (cases x; cases y) (auto simp: live_books_def frames_kept_def)
qed

lemma write_meta_inv:
  assumes "duck_ok m dumps" and "sv_inv g0 m sv" and "write_meta m run status force codes slots sv = (x, sv')"
  shows "sv_inv g0 m sv'"
  using assms(2,3) duck_okD(3) [OF assms(1)] by (auto simp: write_meta_def Let_def frames_kept_def split: if_splits option.splits)

lemma persist_run_meta_inv:
  assumes "duck_ok m dumps" and "sv_inv g0 m sv" and "persist_run_meta m loads now run status force sv = (x, sv')"
  shows "sv_inv g0 m sv'"
proof -
  obtain b hot1 where l: "live_books now run sv = (b, hot1)" by fastforce
  have i1: "sv_inv g0 m (sv\<lparr>sv_hot := hot1\<rparr>)" by (rule live_books_floor [OF l assms(2)])
  note w = write_meta_inv [OF assms(1)]
  show ?thesis using assms(3) i1
    by (auto simp: persist_run_meta_def l Let_def split: if_splits sum.splits elim!: w [rotated])
qed

lemma forget_gone_fields: "sv_hot (forget_gone runs sv) = sv_hot sv" "sv_db (forget_gone runs sv) = sv_db sv"
  by (simp_all add: forget_gone_def Let_def)

lemma sweep_run_inv: "duck_ok m dumps \<Longrightarrow> sv_inv g0 m (snd p) \<Longrightarrow> sv_inv g0 m (snd (sweep_run m loads now run p))"
proof -
  assume d: "duck_ok m dumps" and i: "sv_inv g0 m (snd p)"
  obtain x sv1 where c: "capture_run m now run (snd p) = (x, sv1)" by fastforce
  have i1: "sv_inv g0 m sv1" by (rule capture_run_inv [OF d i c])
  obtain y sv2 where q: "persist_run_meta m loads now run None False sv1 = (y, sv2)" by fastforce
  have "sv_inv g0 m sv2" by (rule persist_run_meta_inv [OF d i1 q])
  then show ?thesis using i1 by (cases x) (simp_all add: sweep_run_def c q)
qed

lemma sweep_fold_inv:
  assumes "duck_ok m dumps" shows "sv_inv g0 m sv \<Longrightarrow> sv_inv g0 m (snd (fold (sweep_run m loads now) runs (k, sv)))"
proof (induction runs arbitrary: k sv)
  case (Cons r runs)
  obtain k1 sv1 where s: "sweep_run m loads now r (k, sv) = (k1, sv1)" by fastforce
  have "sv_inv g0 m sv1" using sweep_run_inv [OF assms, of g0 "(k, sv)" loads now r] Cons.prems s by simp
  then show ?case using Cons.IH [of sv1 k1] s by simp
qed simp

lemma capture_frames_inv:
  assumes "duck_ok m dumps" and "sv_inv g0 m sv" shows "sv_inv g0 m (snd (capture_frames m loads now sv))"
proof (cases "sv_hot sv")
  case (Some h)
  have "sv_inv g0 m (forget_gone (resident_runs h) sv)" using assms(2) sv_inv_frame [OF forget_gone_fields] by blast
  from sweep_fold_inv [OF assms(1) this] show ?thesis by (simp add: capture_frames_def Some Let_def)
qed (simp add: capture_frames_def assms(2))

lemma evict_run_inv: "sv_inv g0 m sv \<Longrightarrow> sv_inv g0 m (snd (evict_run run sv))"
  by (auto simp: evict_run_def frames_kept_def split: option.splits prod.splits bool.splits intro: floor_evict)

lemma queue_dump_fields [simp]: "sv_hot (queue_dump run reason sv) = sv_hot sv" "sv_db (queue_dump run reason sv) = sv_db sv"
  by (simp_all add: queue_dump_def split: option.splits)

lemma finalize_run_inv:
  assumes "duck_ok m dumps" and "sv_inv g0 m sv" and "finalize_run m loads now flushed blocked run reason sv = (x, sv')"
  shows "sv_inv g0 m sv'"
proof -
  obtain y sv1 where c: "capture_run m now run sv = (y, sv1)" by fastforce
  have i1: "sv_inv g0 m sv1" by (rule capture_run_inv [OF assms(1,2) c])
  let ?sv2 = "if positions_uncaptured run sv1 then bump ''positions_dropped'' sv1 else sv1"
  obtain z sv3 where q: "persist_run_meta m loads now run (Some reason) True ?sv2 = (z, sv3)" by fastforce
  have "sv_inv g0 m ?sv2" using i1 by simp
  then have i3: "sv_inv g0 m sv3" using persist_run_meta_inv [OF assms(1) _ q] by blast
  then have "sv_inv g0 m (sv3\<lparr>sv_finalized := insert run (sv_finalized sv3)\<rparr>)" by (subst sv_inv_frame [of _ sv3]) simp_all
  note i4 = evict_run_inv [OF this, of run]
  then have "sv_inv g0 m (bump ''runs_finalized'' (queue_dump run reason (snd (evict_run run (sv3\<lparr>sv_finalized := insert run (sv_finalized sv3)\<rparr>)))))"
    by (subst sv_inv_frame [of _ "snd (evict_run run (sv3\<lparr>sv_finalized := insert run (sv_finalized sv3)\<rparr>))"]) simp_all
  then show ?thesis using assms(2,3) i1 i3 c q
    by (cases y; cases z) (auto simp: finalize_run_def Let_def split: if_splits)
qed

text \<open>Positions: the tier is rebuilt over the present store, so a run that enters it starts above the stored frames.\<close>

lemma restore_run_codes_inv:
  assumes "duck_ok m dumps" and "sv_inv g0 m sv" and "restore_run_codes m loads now run sv = (x, sv')"
  shows "sv_inv g0 m sv'"
proof -
  let ?sv1 = "sv\<lparr>sv_restored := insert run (sv_restored sv)\<rparr>"
  let ?sv2 = "\<lambda>i. ?sv1\<lparr>sv_max_idx := AList.update run i (sv_max_idx ?sv1)\<rparr>"
  have i1: "sv_inv g0 m ?sv1" using assms(2) by (subst sv_inv_frame [of _ sv]) simp_all
  then have i2: "sv_inv g0 m (?sv2 i)" for i using assms(2) by (subst sv_inv_frame [of _ sv]) simp_all
  have seeded: "sv_inv g0 m (sv3\<lparr>sv_hot := Some h1\<rparr>)"
    if "sv_inv g0 m sv3" "seed_run_identity now run codes slots start (hot_of m sv3) = (y, h1)" for sv3 codes slots start y h1
    by (rule sv_inv_hot [OF that(1) floor_seed_identity [OF hot_of_floor [OF assms(1) that(1)] that(2)]])
  show ?thesis using assms(2,3) i1 i2 seeded [OF i1] seeded [OF i2]
    by (auto simp: restore_run_codes_def Let_def split: if_splits option.splits sum.splits prod.splits)
qed

lemma add_position_inv:
  assumes "duck_ok m dumps" and "sv_inv g0 m sv" and "add_position m now run agent p sv = (x, sv')"
  shows "sv_inv g0 m sv'"
proof -
  obtain y h1 where u: "update_position now run agent p (hot_of m sv) = (y, h1)" by fastforce
  have i: "sv_inv g0 m (sv\<lparr>sv_hot := Some h1\<rparr>)"
    by (rule sv_inv_hot [OF assms(2) floor_update [OF hot_of_floor [OF assms(1,2)] u]])
  then have "sv_inv g0 m (sv\<lparr>sv_hot := Some h1, sv_updates := n\<rparr>)" for n by (subst sv_inv_frame [of _ "sv\<lparr>sv_hot := Some h1\<rparr>"]) simp_all
  then show ?thesis using assms(3) u i by (auto simp: add_position_def split: sum.splits)
qed

lemma on_trip_geo_inv:
  assumes "duck_ok m dumps" and "sv_inv g0 m sv" and "on_trip_geo m loads render bits dateutil now run p sv = (x, sv')"
  shows "sv_inv g0 m sv'"
proof -
  obtain y sv1 where r: "restore_run_codes m loads now run sv = (y, sv1)" by fastforce
  have i1: "sv_inv g0 m sv1" by (rule restore_run_codes_inv [OF assms(1,2) r])
  have a: "sv_inv g0 m (snd (add_position m now run agent pos sv1))" for agent pos
    using add_position_inv [OF assms(1) i1] by (metis surjective_pairing)
  show ?thesis
  proof (cases "truck_position render bits dateutil p")
    case None
    then show ?thesis using assms(2,3) by (auto simp: on_trip_geo_def Let_def split: if_splits)
  next
    case (Some q)
    show ?thesis using assms(2,3) i1 a [of "fst q" "snd q"] Some r
      by (cases q; cases y) (auto simp: on_trip_geo_def Let_def split: if_splits)
  qed
qed

lemma drain_dumps_inv: "sv_inv g0 m sv \<Longrightarrow> sv_inv g0 m (snd (drain_dumps archived limit sv))"
  by (subst sv_inv_frame [of _ sv]) (simp_all add: drain_dumps_def split: prod.splits)

section \<open>Histories of the service\<close>

text \<open>
  The operations the two threads of the service interleave, and the restart of the process. The store may answer a step and refuse
  the next, so each step has the store it meets.
\<close>

datatype service_op =
    TripGeo nat string "(string, pyval) dict"
  | Restore nat string
  | AddPosition nat string string position
  | CaptureRun nat string
  | PersistMeta nat string "string option" bool
  | EvictRun string
  | Sweep nat
  | Finalize nat bool "string list" string string
  | QueueDump string string
  | DrainDumps "string \<Rightarrow> string \<Rightarrow> bool" "nat option"
  | Restart

definition fresh_service :: "'db \<Rightarrow> 'db service" where
  "fresh_service db =
     \<lparr>sv_hot = None, sv_db = db, sv_updates = [], sv_captured = [], sv_max_idx = [], sv_meta_sig = [], sv_restored = {}, sv_finalized = {},
      sv_dump_queue = [], sv_dump_queued = [], sv_counters = []\<rparr>"

fun service_step ::
  "(string \<Rightarrow> pyval option) \<Rightarrow> (pyval \<Rightarrow> string) \<Rightarrow> (pyfloat \<Rightarrow> 64 word) \<Rightarrow> (string \<Rightarrow> py_error + py_time) \<Rightarrow>
   'db duck \<times> service_op \<Rightarrow> 'db service \<Rightarrow> 'db service" where
  "service_step loads render bits dateutil (m, TripGeo now run p) sv = snd (on_trip_geo m loads render bits dateutil now run p sv)"
| "service_step loads render bits dateutil (m, Restore now run) sv = snd (restore_run_codes m loads now run sv)"
| "service_step loads render bits dateutil (m, AddPosition now run agent p) sv = snd (add_position m now run agent p sv)"
| "service_step loads render bits dateutil (m, CaptureRun now run) sv = snd (capture_run m now run sv)"
| "service_step loads render bits dateutil (m, PersistMeta now run status force) sv = snd (persist_run_meta m loads now run status force sv)"
| "service_step loads render bits dateutil (m, EvictRun run) sv = snd (evict_run run sv)"
| "service_step loads render bits dateutil (m, Sweep now) sv = snd (capture_frames m loads now sv)"
| "service_step loads render bits dateutil (m, Finalize now flushed blocked run reason) sv = snd (finalize_run m loads now flushed blocked run reason sv)"
| "service_step loads render bits dateutil (m, QueueDump run reason) sv = queue_dump run reason sv"
| "service_step loads render bits dateutil (m, DrainDumps archived limit) sv = snd (drain_dumps archived limit sv)"
| "service_step loads render bits dateutil (m, Restart) sv = fresh_service (sv_db sv)"

lemma service_step_inv:
  assumes "duck_ok m dumps" and "sv_inv g0 m sv" shows "sv_inv g0 m (service_step loads render bits dateutil (m, op) sv)"
proof (cases op)
  case (TripGeo now run p)
  then show ?thesis using on_trip_geo_inv [OF assms] by (metis prod.collapse service_step.simps(1))
next
  case (Restore now run)
  then show ?thesis using restore_run_codes_inv [OF assms] by (metis prod.collapse service_step.simps(2))
next
  case (AddPosition now run agent p)
  then show ?thesis using add_position_inv [OF assms] by (metis prod.collapse service_step.simps(3))
next
  case (CaptureRun now run)
  then show ?thesis using capture_run_inv [OF assms] by (metis prod.collapse service_step.simps(4))
next
  case (PersistMeta now run status force)
  then show ?thesis using persist_run_meta_inv [OF assms] by (metis prod.collapse service_step.simps(5))
next
  case (Finalize now flushed blocked run reason)
  then show ?thesis using finalize_run_inv [OF assms] by (metis prod.collapse service_step.simps(8))
next
  case (QueueDump run reason)
  then show ?thesis using assms(2) by (simp add: sv_inv_frame [OF queue_dump_fields])
next
  case Restart
  then show ?thesis using assms(2) by (simp add: frames_kept_def fresh_service_def)
qed (use assms capture_frames_inv evict_run_inv drain_dumps_inv in simp_all)


text \<open>A store that keeps the indices and the rows in lists; \<open>up\<close> says whether it accepts frames.\<close>

definition list_duck :: "((string, int) dict \<Rightarrow> string) \<Rightarrow> bool \<Rightarrow> ((string, int list) dict \<times> (string, run_meta) dict) duck" where
  "list_duck dumps up =
     (let stored = (\<lambda>db r. case map_of (fst db) r of None \<Rightarrow> [] | Some xs \<Rightarrow> xs)
      in \<lparr>dk_frames = stored, dk_meta = (\<lambda>db. map_of (snd db)),
          dk_write_frame = (\<lambda>run f db. if up then Some (AList.update run (stored db run @ [fr_frame_idx f]) (fst db), snd db) else None),
          dk_frame_range = (\<lambda>run db. Some (if stored db run = [] then None else Some (Min (set (stored db run)), Max (set (stored db run))))),
          dk_get_run_meta = (\<lambda>run db. Some (map_of (snd db) run)),
          dk_upsert_run_meta = (\<lambda>run f db. Some (fst db, AList.update run (merge_meta dumps (map_of (snd db) run) f) (snd db)))\<rparr>)"

lemma list_duck_ok: "duck_ok (list_duck dumps up) dumps"
  unfolding duck_ok_def list_duck_def Let_def by (auto simp: update_conv' fun_eq_iff)

definition demo_steps :: "(((string, int list) dict \<times> (string, run_meta) dict) duck \<times> service_op) list" where
  "demo_steps =
     (let up = list_duck (\<lambda>d. []) True; down = list_duck (\<lambda>d. []) False
      in [(up, AddPosition 1 ''r'' ''t1'' (demo_position (Some ''h1'') 8)), (up, Sweep 2), (up, AddPosition 3 ''r'' ''t2'' (demo_position None 9)), (down, Sweep 4), (up, Sweep 5),
          (up, Restart), (up, AddPosition 6 ''r'' ''t1'' (demo_position (Some ''h1'') 8)), (up, Finalize 7 True [] ''r'' ''completed''), (up, Finalize 8 True [] ''r'' ''completed'')])"

definition demo_run :: "((string, int list) dict \<times> (string, run_meta) dict) service" where
  "demo_run = fold (service_step (\<lambda>s. None) (\<lambda>v. []) (\<lambda>x. 0) (\<lambda>s. Inl ValueError)) demo_steps (fresh_service ([(''r'', [5])], []))"


end
