(* ===== verification/Run_Close.thy ===== *)
theory Run_Close
  imports Capture_History
begin

text \<open>
  How a run is closed: what a terminal message has done when it is accepted and what it leaves when it is refused, and what happens to
  the persisted code books of a run over any history.
\<close>

section \<open>What the steps leave alone\<close>

definition hot_runs :: "hot_store \<Rightarrow> string set" where
  "hot_runs h = dom (map_of (hs_runs h))"

definition runs_of :: "'db service \<Rightarrow> string set" where
  "runs_of sv = (case sv_hot sv of None \<Rightarrow> {} | Some h \<Rightarrow> hot_runs h)"

definition counter :: "string \<Rightarrow> 'db service \<Rightarrow> nat" where
  "counter key sv = (case map_of (sv_counters sv) key of None \<Rightarrow> 0 | Some k \<Rightarrow> k)"

definition same_run :: "'db service \<Rightarrow> 'db service \<Rightarrow> bool" where
  "same_run sv sv' \<longleftrightarrow> runs_of sv' = runs_of sv \<and> sv_updates sv' = sv_updates sv \<and> sv_dump_queue sv' = sv_dump_queue sv \<and>
     sv_dump_queued sv' = sv_dump_queued sv \<and> sv_finalized sv' = sv_finalized sv"

lemma counter_bump [simp]: "counter key (bump_by n k sv) = counter key sv + (if key = k then n else 0)"
  by (simp add: counter_def bump_by_def update_conv')

lemma counter_fields [simp]: "counter key (sv\<lparr>sv_hot := h\<rparr>) = counter key sv" "counter key (sv\<lparr>sv_db := d\<rparr>) = counter key sv"
  "counter key (sv\<lparr>sv_captured := c\<rparr>) = counter key sv" "counter key (sv\<lparr>sv_max_idx := i\<rparr>) = counter key sv"
  "counter key (sv\<lparr>sv_meta_sig := g\<rparr>) = counter key sv" "counter key (sv\<lparr>sv_finalized := f\<rparr>) = counter key sv"
  by (simp_all add: counter_def)

lemma same_run_refl [simp]: "same_run sv sv" by (simp add: same_run_def)

lemma same_run_trans: "same_run sv sv1 \<Longrightarrow> same_run sv1 sv2 \<Longrightarrow> same_run sv sv2"
  by (simp add: same_run_def)

lemma runs_of_bump [simp]: "runs_of (bump_by n k sv) = runs_of sv"
  by (simp add: runs_of_def)

lemma same_run_bump [simp]: "same_run sv (bump_by n k sv') = same_run sv sv'"
  by (simp add: same_run_def)

lemma same_run_conflicts [simp]: "same_run sv (count_conflicts n sv') = same_run sv sv'"
  by (simp add: count_conflicts_def)

lemma hot_runs_put: "map_of (hs_runs h) run = Some s0 \<Longrightarrow> hot_runs (put_slab run s h) = hot_runs h"
  by (auto simp: hot_runs_def put_slab_def update_conv')

lemma hot_runs_snapshot: "snapshot now run kind h = (x, h') \<Longrightarrow> hot_runs h' = hot_runs h"
  by (auto simp: snapshot_def Let_def hot_runs_put split: option.splits sum.splits)

lemma hot_runs_rollback: "rollback_frame_idx run i h = (x, h') \<Longrightarrow> hot_runs h' = hot_runs h"
  by (auto simp: rollback_frame_idx_def hot_runs_put split: option.splits sum.splits if_splits)

lemma hot_runs_read: "read_slab f now run h = (x, h') \<Longrightarrow> hot_runs h' = hot_runs h"
  by (auto simp: read_slab_def hot_runs_put split: option.splits)

lemma same_run_hot: "sv_hot sv = Some h \<Longrightarrow> hot_runs h1 = hot_runs h \<Longrightarrow> same_run sv (sv\<lparr>sv_hot := Some h1\<rparr>)"
  by (simp add: same_run_def runs_of_def)

text \<open>The ways a capture ends.\<close>

lemma capture_run_cases:
  fixes sv :: "'db service"
  assumes "capture_run m now run sv = (x, sv')"
  obtains (no_tier) "sv_hot sv = None" "x = Inr 0" "sv' = sv"
    | (idle) "map_of (sv_captured sv) run = Some (case map_of (sv_updates sv) run of None \<Rightarrow> 0 | Some n \<Rightarrow> n)"
        "x = Inr 0" "sv' = bump ''frames_skipped_idle'' sv"
    | (gone) h where "sv_hot sv = Some h" "map_of (hs_runs h) run = None"
        "map_of (sv_captured sv) run \<noteq> Some (case map_of (sv_updates sv) run of None \<Rightarrow> 0 | Some n \<Rightarrow> n)"
        "x = Inr 0" "sv' = bump ''frames_not_resident'' (sv\<lparr>sv_hot := Some h\<rparr>)"
    | (raised) h h1 e where "sv_hot sv = Some h" "snapshot now run kind_keyframe h = (Inl e, h1)" "x = Inl (HotFailed e)" "sv' = sv\<lparr>sv_hot := Some h1\<rparr>"
    | (blank) h h1 f where "sv_hot sv = Some h" "snapshot now run kind_keyframe h = (Inr f, h1)" "frame_n f = 0" "x = Inr 0"
        "sv' = sv\<lparr>sv_hot := Some h1, sv_captured := AList.update run (case map_of (sv_updates sv) run of None \<Rightarrow> 0 | Some n \<Rightarrow> n) (sv_captured sv)\<rparr>"
    | (failed) h h1 f where "sv_hot sv = Some h" "snapshot now run kind_keyframe h = (Inr f, h1)" "dk_write_frame m run f (sv_db sv) = None"
        "x = Inl WriteFailed" "sv' = bump ''frame_write_failures'' (sv\<lparr>sv_hot := Some (snd (rollback_frame_idx run (PyInt (fr_frame_idx f)) h1))\<rparr>)"
    | (stored) h h1 f db' i where "sv_hot sv = Some h" "snapshot now run kind_keyframe h = (Inr f, h1)" "dk_write_frame m run f (sv_db sv) = Some db'"
        "x = Inr 1"
        "sv' = bump ''frames_written'' (sv\<lparr>sv_hot := Some h1, sv_db := db',
           sv_captured := AList.update run (case map_of (sv_updates sv) run of None \<Rightarrow> 0 | Some n \<Rightarrow> n) (sv_captured sv), sv_max_idx := i\<rparr>)"
proof (cases "sv_hot sv")
  case None
  with assms have "(x, sv') = (Inr 0, sv)" by (simp add: capture_run_def)
  with None show thesis by (intro no_tier) simp_all
next
  case (Some h)
  let ?seq = "case map_of (sv_updates sv) run of None \<Rightarrow> 0 | Some n \<Rightarrow> n"
  show thesis
  proof (cases "map_of (sv_captured sv) run = Some ?seq")
    case True
    with assms Some have "(x, sv') = (Inr 0, bump ''frames_skipped_idle'' sv)" by (simp add: capture_run_def)
    with True show thesis by (intro idle) simp_all
  next
    case False
    note c = assms [unfolded capture_run_def Some option.case Let_def if_not_P [OF False]]
    obtain y h1 where s: "snapshot now run kind_keyframe h = (y, h1)" by fastforce
    show thesis
    proof (cases "map_of (hs_runs h) run")
      case None
      with c have "(x, sv') = (Inr 0, bump ''frames_not_resident'' (sv\<lparr>sv_hot := Some h\<rparr>))" by (simp add: snapshot_def)
      with None False \<open>sv_hot sv = Some h\<close> show thesis by (intro gone) simp_all
    next
      case (Some sl)
      show thesis
      proof (cases y)
        case (Inl e)
        have "\<nexists>r. e = RunNotResident r" using s Some Inl by (auto simp: snapshot_def Let_def split: sum.splits)
        then have "x = Inl (HotFailed e)" "sv' = sv\<lparr>sv_hot := Some h1\<rparr>" using c s Inl by (cases e; simp)+
        with s Inl \<open>sv_hot sv = Some h\<close> show thesis by (intro raised) simp_all
      next
        case (Inr f)
        note here = \<open>sv_hot sv = Some h\<close> s [unfolded Inr]
        show thesis
        proof (cases "frame_n f = 0")
          case True
          with c here show thesis by (intro blank [OF here]) simp_all
        next
          case n: False
          show thesis
          proof (cases "dk_write_frame m run f (sv_db sv)")
            case None
            with c here n show thesis by (intro failed [OF here]) simp_all
          next
            case (Some db')
            with c here n show thesis by (intro stored [OF here Some]) (auto simp: Let_def)
          qed
        qed
      qed
    qed
  qed
qed

lemma capture_run_same:
  assumes "capture_run m now run sv = (x, sv')" shows "same_run sv sv'"
  using assms
proof (cases rule: capture_run_cases)
  case (gone h)
  then show ?thesis by (simp add: same_run_def runs_of_def)
next
  case (failed h h1 f)
  have "hot_runs (snd (rollback_frame_idx run (PyInt (fr_frame_idx f)) h1)) = hot_runs h"
    using hot_runs_snapshot [OF failed(2)] hot_runs_rollback by (metis surjective_pairing)
  then show ?thesis using failed by (simp add: same_run_def runs_of_def)
qed (simp_all add: same_run_def runs_of_def hot_runs_snapshot)

lemma capture_run_dropped:
  assumes "capture_run m now run sv = (x, sv')" shows "counter ''positions_dropped'' sv' = counter ''positions_dropped'' sv"
  using assms by (cases rule: capture_run_cases) (simp_all add: counter_def bump_by_def update_conv')

lemma live_books_same:
  assumes "live_books now run sv = (b, hot1)" shows "same_run sv (sv\<lparr>sv_hot := hot1\<rparr>)"
proof (cases "sv_hot sv")
  case None
  then show ?thesis using assms by (simp add: live_books_def same_run_def runs_of_def)
next
  case (Some h)
  obtain x h1 where c: "hot_haulier_codes now run h = (x, h1)" by fastforce
  obtain y h2 where d: "hot_slot_map now run h1 = (y, h2)" by fastforce
  have r: "hot_runs h1 = hot_runs h" "hot_runs h2 = hot_runs h"
    using hot_runs_read [OF c [unfolded hot_haulier_codes_def]] hot_runs_read [OF d [unfolded hot_slot_map_def]] by simp_all
  have "same_run sv (sv\<lparr>sv_hot := Some h1\<rparr>)" "same_run sv (sv\<lparr>sv_hot := Some h2\<rparr>)" by (rule same_run_hot [OF Some], rule r)+
  then show ?thesis using assms Some c d by (cases x; cases y) (auto simp: live_books_def)
qed

lemma write_meta_cases:
  assumes "write_meta m run status force codes slots sv = (x, sv')"
  obtains (same) "x = Inr False" "sv' = sv" "status = None" "\<not> force"
    | (failed) "x = Inl MetaFailed" "sv' = sv"
    | (row) db' where "x = Inr True"
        "dk_upsert_run_meta m run
           \<lparr>mf_codes = (if codes = [] then None else Some codes), mf_slots = (if slots = [] then None else Some slots),
            mf_max_idx = map_of (sv_max_idx sv) run, mf_status = status\<rparr> (sv_db sv) = Some db'"
        "sv' = bump ''meta_writes'' (sv\<lparr>sv_db := db', sv_meta_sig := AList.update run (length codes, length slots) (sv_meta_sig sv)\<rparr>)"
proof (cases "\<not> force \<and> status = None \<and> map_of (sv_meta_sig sv) run = Some (length codes, length slots)")
  case True
  then show thesis using assms same by (simp add: write_meta_def)
next
  case False
  show thesis using assms [unfolded write_meta_def Let_def if_not_P [OF False]] failed row by (simp split: option.splits)
qed

lemma write_meta_same:
  assumes "write_meta m run status force codes slots sv = (x, sv')" shows "same_run sv sv'"
  using assms by (cases rule: write_meta_cases) (simp_all add: same_run_def runs_of_def)

text \<open>A persist either stops before the write or ends in it.\<close>

lemma persist_run_meta_cases:
  assumes "persist_run_meta m loads now run status force sv = (x, sv')"
  obtains (skipped) b hot1 where "live_books now run sv = (b, hot1)" "x = Inr False" "sv' = sv\<lparr>sv_hot := hot1\<rparr>" "status = None" "\<not> force"
    | (bad) e b hot1 n where "live_books now run sv = (b, hot1)" "x = Inl (BadCodeMap e)" "sv' = count_conflicts n (sv\<lparr>sv_hot := hot1\<rparr>)"
    | (written) b hot1 pcodes pslots codes slots n k where "live_books now run sv = (b, hot1)"
        "load_code_map loads (case read_meta m run (sv\<lparr>sv_hot := hot1\<rparr>) of None \<Rightarrow> PyNone | Some r \<Rightarrow> rm_codes r) = Inr pcodes"
        "load_code_map loads (case read_meta m run (sv\<lparr>sv_hot := hot1\<rparr>) of None \<Rightarrow> PyNone | Some r \<Rightarrow> rm_slots r) = Inr pslots"
        "codes = fst (merge_code_map pcodes (fst (case b of None \<Rightarrow> ([], []) | Some b \<Rightarrow> b)))"
        "slots = fst (merge_code_map pslots (snd (case b of None \<Rightarrow> ([], []) | Some b \<Rightarrow> b)))"
        "write_meta m run status force codes slots (count_conflicts k (count_conflicts n (sv\<lparr>sv_hot := hot1\<rparr>))) = (x, sv')"
proof -
  obtain b hot1 where l: "live_books now run sv = (b, hot1)" by fastforce
  let ?meta = "read_meta m run (sv\<lparr>sv_hot := hot1\<rparr>)"
  show thesis
  proof (cases "b = None \<and> status = None \<and> \<not> force")
    case True
    then show thesis using assms l skipped by (simp add: persist_run_meta_def)
  next
    case False
    have zero: "sv2 = count_conflicts 0 sv2" for sv2 :: "'a service" by (simp add: count_conflicts_def)
    show thesis
    proof (cases "load_code_map loads (case ?meta of None \<Rightarrow> PyNone | Some r \<Rightarrow> rm_codes r)")
      case (Inl e)
      show thesis by (rule bad [OF l, of e 0]) (use assms l False Inl zero in \<open>auto simp: persist_run_meta_def Let_def\<close>)
    next
      case pc: (Inr pcodes)
      show thesis
      proof (cases "load_code_map loads (case ?meta of None \<Rightarrow> PyNone | Some r \<Rightarrow> rm_slots r)")
        case (Inl e)
        show thesis by (rule bad [OF l]) (use assms l False Inl pc in \<open>auto simp: persist_run_meta_def Let_def\<close>)
      next
        case (Inr pslots)
        show thesis by (rule written [OF l pc Inr refl refl]) (use assms l False Inr pc in \<open>auto simp: persist_run_meta_def Let_def\<close>)
      qed
    qed
  qed
qed

lemma persist_run_meta_same:
  assumes "persist_run_meta m loads now run status force sv = (x, sv')" shows "same_run sv sv'"
  using assms
proof (cases rule: persist_run_meta_cases)
  case skipped
  then show ?thesis using live_books_same by blast
next
  case bad
  then show ?thesis using live_books_same by simp
next
  case (written b hot1 pcodes pslots codes slots n k)
  then show ?thesis using same_run_trans [OF _ write_meta_same [OF written(6)]] live_books_same [OF written(1)] by simp
qed

section \<open>A terminal message\<close>

lemma runs_of_evict: "run \<notin> runs_of (snd (evict_run run sv))"
proof (cases "sv_hot sv")
  case (Some h)
  then show ?thesis
    by (cases "map_of (hs_runs h) run")
      (auto simp: evict_run_def evict_def runs_of_def hot_runs_def evict_slab_def Let_def delete_conv' domIff split: prod.splits)
qed (simp add: evict_run_def runs_of_def)

lemma evict_run_fields: "sv_db (snd (evict_run run sv)) = sv_db sv" "sv_finalized (snd (evict_run run sv)) = sv_finalized sv"
    "key \<noteq> ''runs_evicted'' \<Longrightarrow> counter key (snd (evict_run run sv)) = counter key sv"
  by (auto simp: evict_run_def split: option.splits prod.splits bool.splits) (auto simp: counter_def)

lemma queue_dump_run: "map_of (sv_dump_queued (queue_dump run reason sv)) run \<noteq> None" "runs_of (queue_dump run reason sv) = runs_of sv"
    "sv_finalized (queue_dump run reason sv) = sv_finalized sv"
    "key \<noteq> ''dumps_queued'' \<Longrightarrow> counter key (queue_dump run reason sv) = counter key sv"
  by (auto simp: queue_dump_def update_conv' runs_of_def split: option.splits) (auto simp: counter_def)

text \<open>What a capture that does not raise has done with the positions reported so far.\<close>

lemma capture_run_done:
  assumes "duck_ok m dumps" and "capture_run m now run sv = (Inr k, sv1)" and "map_of (sv_updates sv) run = Some n"
  shows "map_of (sv_captured sv) run = Some n \<and> sv_db sv1 = sv_db sv \<or>
      (\<exists>i. dk_frames m (sv_db sv1) run = dk_frames m (sv_db sv) run @ [i]) \<or>
      positions_uncaptured run sv1 \<or>
      (\<exists>h s. sv_hot sv = Some h \<and> map_of (hs_runs h) run = Some s \<and> frame_n (frame_of kind_keyframe s) = 0)"
  using assms(2)
proof (cases rule: capture_run_cases)
  case (blank h h1 f)
  have "frame_of kind_keyframe (touch_read now s) = frame_of kind_keyframe s" for s by (simp add: frame_of_def touch_read_def Let_def)
  then have "\<exists>s. map_of (hs_runs h) run = Some s \<and> f = frame_of kind_keyframe s"
    using blank(2) by (auto simp: snapshot_def Let_def make_frame_def split: option.splits sum.splits if_splits)
  then show ?thesis using blank by auto
qed (use assms(3) duck_okD(1) [OF assms(1)] in \<open>auto simp: positions_uncaptured_def\<close>)

lemma persist_run_meta_dropped:
  assumes "persist_run_meta m loads now run status force sv = (x, sv')"
  shows "counter ''positions_dropped'' sv' = counter ''positions_dropped'' sv"
proof -
  have c: "counter ''positions_dropped'' (count_conflicts n sv2) = counter ''positions_dropped'' sv2" for n and sv2 :: "'a service"
    by (simp add: count_conflicts_def)
  show ?thesis using assms
  proof (cases rule: persist_run_meta_cases)
    case skipped
    then show ?thesis by simp
  next
    case bad
    then show ?thesis using c by simp
  next
    case (written b hot1 pcodes pslots codes slots n k)
    let ?sv2 = "count_conflicts k (count_conflicts n (sv\<lparr>sv_hot := hot1\<rparr>))"
    have "counter ''positions_dropped'' sv' = counter ''positions_dropped'' ?sv2"
      using written(6) by (cases rule: write_meta_cases) simp_all
    then show ?thesis using c by simp
  qed
qed

text \<open>A terminal status always reaches the row.\<close>

lemma persist_run_meta_status:
  assumes "duck_ok m dumps" and "persist_run_meta m loads now run (Some status) True sv = (Inr b, sv')"
  shows "\<exists>row. dk_meta m (sv_db sv') run = Some row \<and> rm_status row = Some status" and "dk_frames m (sv_db sv') = dk_frames m (sv_db sv)"
proof -
  have "(\<exists>row. dk_meta m (sv_db sv') run = Some row \<and> rm_status row = Some status) \<and> dk_frames m (sv_db sv') = dk_frames m (sv_db sv)"
    using assms(2)
  proof (cases rule: persist_run_meta_cases)
    case (written c hot1 pcodes pslots codes slots n k)
    let ?sv2 = "count_conflicts k (count_conflicts n (sv\<lparr>sv_hot := hot1\<rparr>))"
    have db: "sv_db ?sv2 = sv_db sv" by (simp add: count_conflicts_def)
    show ?thesis using written(6)
    proof (cases rule: write_meta_cases)
      case (row db')
      then show ?thesis using duck_okD(3,4) [OF assms(1) row(2)] db by (simp add: merge_meta_def Let_def)
    qed simp_all
  qed simp_all
  then show "\<exists>row. dk_meta m (sv_db sv') run = Some row \<and> rm_status row = Some status" and "dk_frames m (sv_db sv') = dk_frames m (sv_db sv)" by blast+
qed

lemma finalize_run_cases:
  assumes "finalize_run m loads now flushed blocked run reason sv = (x, sv')"
  obtains (refused) e where "x = Inl e" "sv' = sv" "\<not> flushed \<or> \<not> set blocked \<subseteq> {''run_status''}"
    | (capture) e where "x = Inl e" "capture_run m now run sv = (Inl e, sv')"
    | (persist) e k sv1 where "x = Inl e" "capture_run m now run sv = (Inr k, sv1)"
        "persist_run_meta m loads now run (Some reason) True (if positions_uncaptured run sv1 then bump ''positions_dropped'' sv1 else sv1) = (Inl e, sv')"
    | (closed) k b sv1 sv3 where "x = Inr ()" "flushed" "set blocked \<subseteq> {''run_status''}" "capture_run m now run sv = (Inr k, sv1)"
        "persist_run_meta m loads now run (Some reason) True (if positions_uncaptured run sv1 then bump ''positions_dropped'' sv1 else sv1) = (Inr b, sv3)"
        "sv' = bump ''runs_finalized'' (queue_dump run reason (snd (evict_run run (sv3\<lparr>sv_finalized := insert run (sv_finalized sv3)\<rparr>))))"
proof (cases "flushed \<and> filter (\<lambda>t. t \<noteq> ''run_status'') blocked = []")
  case False
  moreover have "set blocked \<subseteq> {''run_status''} \<longleftrightarrow> filter (\<lambda>t. t \<noteq> ''run_status'') blocked = []" by (auto simp: filter_empty_conv)
  ultimately show thesis using assms by (intro refused [of "if flushed then IngestBlocked else FlushFailed"]) (auto simp: finalize_run_def split: if_splits)
next
  case True
  then have b: "flushed" "set blocked \<subseteq> {''run_status''}" "filter (\<lambda>t. t \<noteq> ''run_status'') blocked = []" by (auto simp: filter_empty_conv)
  obtain y sv1 where c: "capture_run m now run sv = (y, sv1)" by fastforce
  let ?sv2 = "if positions_uncaptured run sv1 then bump ''positions_dropped'' sv1 else sv1"
  obtain z sv3 where q: "persist_run_meta m loads now run (Some reason) True ?sv2 = (z, sv3)" by fastforce
  have f: "finalize_run m loads now flushed blocked run reason sv =
      (case y of Inl e \<Rightarrow> (Inl e, sv1) | Inr k \<Rightarrow> (case z of Inl e \<Rightarrow> (Inl e, sv3)
       | Inr b \<Rightarrow> (Inr (), bump ''runs_finalized'' (queue_dump run reason (snd (evict_run run (sv3\<lparr>sv_finalized := insert run (sv_finalized sv3)\<rparr>)))))))"
    unfolding finalize_run_def Let_def using b c q by (cases y; cases z) auto
  show thesis
  proof (cases y)
    case (Inl e)
    then show thesis using assms f c capture [of e] by simp
  next
    case y: (Inr k)
    show thesis
    proof (cases z)
      case (Inl e)
      then show thesis using assms f c q y persist [of e k sv1] by simp
    next
      case (Inr d)
      then show thesis using assms f c q y b closed [of k sv1 d sv3] by simp
    qed
  qed
qed

text \<open>
  C24. A terminal closes its run completely or leaves it to be replayed. Accepted, the buffered rows were written and no topic with rows was
  blocked, the row of the run carries the outcome, the run has left the hot tier, is never admitted again and is queued for the archive, and
  the positions reported so far are stored in a frame (already, or by this call), or counted as dropped, or the slab held none of them. Refused,
  the run stays in the tier with its reported positions, it is not marked as closed and the archive queue is as it was.
\<close>

theorem finalize_run_outcome:
  assumes "duck_ok m dumps" and "finalize_run m loads now flushed blocked run reason sv = (x, sv')"
  shows "case x of
      Inr _ \<Rightarrow> flushed \<and> set blocked \<subseteq> {''run_status''} \<and>
        (\<exists>row. dk_meta m (sv_db sv') run = Some row \<and> rm_status row = Some reason) \<and>
        run \<notin> runs_of sv' \<and> run \<in> sv_finalized sv' \<and> map_of (sv_dump_queued sv') run \<noteq> None \<and>
        (\<forall>n. map_of (sv_updates sv) run = Some n \<longrightarrow>
           map_of (sv_captured sv) run = Some n \<or>
           (\<exists>i. dk_frames m (sv_db sv') run = dk_frames m (sv_db sv) run @ [i]) \<or>
           counter ''positions_dropped'' sv' = Suc (counter ''positions_dropped'' sv) \<or>
           (\<exists>h s. sv_hot sv = Some h \<and> map_of (hs_runs h) run = Some s \<and> frame_n (frame_of kind_keyframe s) = 0))
    | Inl _ \<Rightarrow> same_run sv sv'"
  using assms(2)
proof (cases rule: finalize_run_cases)
  case (closed k b sv1 sv3)
  let ?sv2 = "if positions_uncaptured run sv1 then bump ''positions_dropped'' sv1 else sv1"
  let ?sv4 = "sv3\<lparr>sv_finalized := insert run (sv_finalized sv3)\<rparr>"
  note row = persist_run_meta_status [OF assms(1) closed(5)]
  have "counter ''positions_dropped'' sv' = counter ''positions_dropped'' sv3"
    by (simp add: closed(6) queue_dump_run(4) evict_run_fields(3))
  also have "\<dots> = counter ''positions_dropped'' ?sv2" by (rule persist_run_meta_dropped [OF closed(5)])
  finally have dropped: "positions_uncaptured run sv1 \<Longrightarrow> counter ''positions_dropped'' sv' = Suc (counter ''positions_dropped'' sv)"
    using capture_run_dropped [OF closed(4)] by simp
  have db: "sv_db sv' = sv_db sv3" by (simp add: closed(6) evict_run_fields)
  have frames: "dk_frames m (sv_db sv') = dk_frames m (sv_db sv1)" using row(2) db by (simp split: if_splits)
  have "run \<notin> runs_of sv'" "run \<in> sv_finalized sv'" "map_of (sv_dump_queued sv') run \<noteq> None"
    using runs_of_evict [of run ?sv4] queue_dump_run(1) [of run reason "snd (evict_run run ?sv4)"]
    by (simp_all add: closed(6) queue_dump_run evict_run_fields)
  moreover have "\<exists>row. dk_meta m (sv_db sv') run = Some row \<and> rm_status row = Some reason" using row(1) db by simp
  ultimately show ?thesis using closed(1-3) capture_run_done [OF assms(1) closed(4)] dropped frames by (simp only: sum.case) metis
next
  case (persist e k sv1)
  then show ?thesis using same_run_trans [OF capture_run_same [OF persist(2)]] persist_run_meta_same [OF persist(3)] by (simp add: same_run_def split: if_splits)
qed (simp_all add: capture_run_same)

section \<open>The archive queue\<close>

lemma drain_queue_spec:
  "drain_queue archived k queue queued = (n, rest, queued') \<Longrightarrow>
     queue = take n queue @ rest \<and> n \<le> k \<and> (\<forall>(run, reason) \<in> set (take n queue). archived run reason) \<and>
     (n < k \<longrightarrow> rest = [] \<or> \<not> archived (fst (hd rest)) (snd (hd rest))) \<and>
     (\<forall>run. run \<notin> fst ` set (take n queue) \<longrightarrow> map_of queued' run = map_of queued run)"
proof (induction archived k queue queued arbitrary: n rest queued' rule: drain_queue.induct)
  case (3 archived k run reason queue queued)
  show ?case
  proof (cases "archived run reason")
    case True
    obtain n1 r1 d1 where d: "drain_queue archived k queue (AList.delete run queued) = (n1, r1, d1)" by (metis prod_cases3)
    then have "n = Suc n1" "rest = r1" "queued' = d1" using 3(2) True by auto
    then show ?thesis using 3(1) [OF True d] True by (auto simp: delete_conv')
  next
    case False
    then show ?thesis using 3(2) by auto
  qed
qed auto

section \<open>The code books of a run\<close>

definition stored_book :: "(string \<Rightarrow> pyval option) \<Rightarrow> pyval \<Rightarrow> string \<rightharpoonup> int" where
  "stored_book loads raw = (case load_code_map loads raw of Inr d \<Rightarrow> map_of d | Inl e \<Rightarrow> Map.empty)"

text \<open>The books a row of \<open>run_meta\<close> holds: the haulier codes and the slots.\<close>

definition run_books :: "(string \<Rightarrow> pyval option) \<Rightarrow> run_meta option \<Rightarrow> (string \<rightharpoonup> int) \<times> (string \<rightharpoonup> int)" where
  "run_books loads row = (case row of None \<Rightarrow> (Map.empty, Map.empty) | Some r \<Rightarrow> (stored_book loads (rm_codes r), stored_book loads (rm_slots r)))"

text \<open>What \<open>json\<close> documents of a dictionary of integers.\<close>

definition json_ok :: "(string \<Rightarrow> pyval option) \<Rightarrow> ((string, int) dict \<Rightarrow> string) \<Rightarrow> bool" where
  "json_ok loads dumps \<longleftrightarrow> (\<forall>d. dumps d \<noteq> [] \<and>
     (\<exists>d'. loads (dumps d) = Some (PyDict d') \<and> distinct (map fst d') \<and> (\<forall>k. map_of d' k = map_option PyInt (map_of d k))))"

definition reads_answer :: "'db duck \<Rightarrow> bool" where
  "reads_answer m \<longleftrightarrow> (\<forall>run db. dk_get_run_meta m run db = Some (dk_meta m db run))"

lemma int_items_ints:
  assumes "distinct (map fst d)" and "\<forall>(k, v) \<in> set d. \<exists>i. v = PyInt i"
  shows "\<exists>out'. int_items d out = Inr out' \<and>
    (\<forall>k. map_of out' k = (case map_of d k of Some (PyInt i) \<Rightarrow> Some i | _ \<Rightarrow> map_of out k))"
  using assms
proof (induction d arbitrary: out)
  case (Cons e d)
  obtain k i where e: "e = (k, PyInt i)" using Cons.prems(2) by (cases e) auto
  obtain out' where o: "int_items d (AList.update k i out) = Inr out'"
      "\<And>q. map_of out' q = (case map_of d q of Some (PyInt i) \<Rightarrow> Some i | _ \<Rightarrow> map_of (AList.update k i out) q)"
    using Cons.IH [of "AList.update k i out"] Cons.prems by auto
  have "map_of d k = None" using Cons.prems(1) e by (simp add: map_of_eq_None_iff)
  then show ?case using o e by (auto simp: update_conv' split: option.splits pyval.splits)
qed simp

lemma int_items_distinct: "int_items d out = Inr out' \<Longrightarrow> distinct (map fst out) \<Longrightarrow> distinct (map fst out')"
  by (induction d out rule: int_items.induct) (auto split: sum.splits if_splits simp: distinct_update)

lemma load_code_map_distinct: "load_code_map loads raw = Inr d \<Longrightarrow> distinct (map fst d)"
  by (auto simp: load_code_map_def split: pyval.splits if_splits option.splits dest!: int_items_distinct)

lemma stored_dumps:
  assumes "json_ok loads dumps" shows "stored_book loads (PyStr (dumps d)) = map_of d"
proof -
  obtain d' where d': "loads (dumps d) = Some (PyDict d')" "distinct (map fst d')" "\<And>k. map_of d' k = map_option PyInt (map_of d k)" "dumps d \<noteq> []"
    using assms unfolding json_ok_def by blast
  have "\<forall>(k, v) \<in> set d'. \<exists>i. v = PyInt i" using d'(2,3) by (fastforce simp del: map_of_eq_Some_iff dest: map_of_is_SomeI)
  from int_items_ints [OF d'(2) this, of "[]"] show ?thesis using d' by (fastforce simp: stored_book_def load_code_map_def split: option.splits)
qed

lemma fold_update_map: "map_of (fst (fold (\<lambda>(k, v) (merged, n). (AList.update k v merged, f k v merged n)) xs (live, c))) = map_of live ++ map_of (rev xs)"
  by (induction xs arbitrary: live c) (auto simp: update_conv' map_add_def fun_eq_iff split: option.splits)

lemma map_of_rev: "distinct (map fst xs) \<Longrightarrow> map_of (rev xs) = map_of xs"
  by (subst map_of_inject_set) (simp_all flip: rev_map)

lemma merge_code_map_book: "distinct (map fst p) \<Longrightarrow> map_of (fst (merge_code_map p live)) = map_of live ++ map_of p"
  unfolding merge_code_map_def by (simp only: fold_update_map map_of_rev)

text \<open>A step grows the books when every entry of a book is in the book after it.\<close>

definition books_grow :: "(string \<Rightarrow> pyval option) \<Rightarrow> ('db \<Rightarrow> string \<Rightarrow> run_meta option) \<Rightarrow> 'db \<Rightarrow> 'db \<Rightarrow> bool" where
  "books_grow loads rows db db' \<longleftrightarrow>
     (\<forall>run. fst (run_books loads (rows db run)) \<subseteq>\<^sub>m fst (run_books loads (rows db' run)) \<and>
            snd (run_books loads (rows db run)) \<subseteq>\<^sub>m snd (run_books loads (rows db' run)))"

lemma books_grow_refl [simp]: "books_grow loads rows db db"
  by (simp add: books_grow_def)

lemma books_grow_trans: "books_grow loads rows db db1 \<Longrightarrow> books_grow loads rows db1 db2 \<Longrightarrow> books_grow loads rows db db2"
  unfolding books_grow_def using map_le_trans by blast

lemma books_grow_same: "rows db' = rows db \<Longrightarrow> books_grow loads rows db db'"
  by (simp add: books_grow_def)

lemma book_written:
  assumes "json_ok loads dumps" and "load_code_map loads raw = Inr p" and "codes = fst (merge_code_map p live)"
  shows "stored_book loads raw \<subseteq>\<^sub>m stored_book loads (case (if codes = [] then None else Some codes) of None \<Rightarrow> raw | Some d \<Rightarrow> PyStr (dumps d))"
proof -
  have "map_of p \<subseteq>\<^sub>m map_of codes" unfolding assms(3) merge_code_map_book [OF load_code_map_distinct [OF assms(2)]] by (rule map_le_map_add)
  then show ?thesis using assms(2) stored_dumps [OF assms(1)] by (simp add: stored_book_def)
qed

lemma capture_run_books:
  assumes "duck_ok m dumps" and "capture_run m now run sv = (x, sv')"
  shows "books_grow loads (dk_meta m) (sv_db sv) (sv_db sv')"
  using assms(2) by (cases rule: capture_run_cases) (simp_all add: books_grow_same duck_okD(2) [OF assms(1)])

lemma persist_run_meta_books:
  assumes "duck_ok m dumps" and "json_ok loads dumps" and "reads_answer m" and "persist_run_meta m loads now run status force sv = (x, sv')"
  shows "books_grow loads (dk_meta m) (sv_db sv) (sv_db sv')"
  using assms(4)
proof (cases rule: persist_run_meta_cases)
  case bad
  then show ?thesis by (simp add: count_conflicts_def)
next
  case (written b hot1 pcodes pslots codes slots n k)
  let ?sv2 = "count_conflicts k (count_conflicts n (sv\<lparr>sv_hot := hot1\<rparr>))"
  have db: "sv_db ?sv2 = sv_db sv" by (simp add: count_conflicts_def)
  have meta: "read_meta m run (sv\<lparr>sv_hot := hot1\<rparr>) = dk_meta m (sv_db sv) run"
    using assms(3) by (simp add: read_meta_def reads_answer_def split: option.splits)
  note grown = book_written [OF assms(2) written(2) written(4)] book_written [OF assms(2) written(3) written(5)]
  show ?thesis using written(6)
  proof (cases rule: write_meta_cases)
    case (row db')
    have rows: "dk_meta m db' = (dk_meta m (sv_db sv))(run := Some (merge_meta dumps (dk_meta m (sv_db sv) run)
        \<lparr>mf_codes = (if codes = [] then None else Some codes), mf_slots = (if slots = [] then None else Some slots),
         mf_max_idx = map_of (sv_max_idx ?sv2) run, mf_status = status\<rparr>))"
      using duck_okD(4) [OF assms(1) row(2)] db by simp
    have db': "sv_db sv' = db'" using row(3) by simp
    show ?thesis unfolding books_grow_def db' rows
      using grown [unfolded meta] by (auto simp: run_books_def merge_meta_def Let_def stored_book_def load_code_map_def split: option.splits)
  qed (simp_all add: db)
qed simp

definition good_store :: "(string \<Rightarrow> pyval option) \<Rightarrow> ((string, int) dict \<Rightarrow> string) \<Rightarrow> 'db duck \<Rightarrow> bool" where
  "good_store loads dumps m \<longleftrightarrow> duck_ok m dumps \<and> json_ok loads dumps \<and> reads_answer m"

lemma sweep_run_books:
  assumes "good_store loads dumps m" shows "books_grow loads (dk_meta m) (sv_db (snd p)) (sv_db (snd (sweep_run m loads now run p)))"
proof -
  note ok = assms [unfolded good_store_def]
  obtain x sv1 where c: "capture_run m now run (snd p) = (x, sv1)" by fastforce
  obtain y sv2 where q: "persist_run_meta m loads now run None False sv1 = (y, sv2)" by fastforce
  have "books_grow loads (dk_meta m) (sv_db (snd p)) (sv_db sv1)" using capture_run_books [OF _ c] ok by blast
  moreover have "books_grow loads (dk_meta m) (sv_db sv1) (sv_db sv2)" using persist_run_meta_books [OF _ _ _ q] ok by blast
  ultimately show ?thesis using books_grow_trans by (cases x) (fastforce simp: sweep_run_def c q)+
qed

lemma capture_frames_books:
  assumes "good_store loads dumps m" shows "books_grow loads (dk_meta m) (sv_db sv) (sv_db (snd (capture_frames m loads now sv)))"
proof -
  have "books_grow loads (dk_meta m) (sv_db (snd p)) (sv_db (snd (fold (sweep_run m loads now) runs p)))" for runs p
  proof (induction runs arbitrary: p)
    case (Cons r runs)
    show ?case using books_grow_trans [OF sweep_run_books [OF assms] Cons.IH] by simp
  qed simp
  from this [of "(0, forget_gone runs' sv)" for runs'] show ?thesis
    by (cases "sv_hot sv") (simp_all add: capture_frames_def Let_def forget_gone_fields)
qed

lemma finalize_run_books:
  assumes "good_store loads dumps m" and "finalize_run m loads now flushed blocked run reason sv = (x, sv')"
  shows "books_grow loads (dk_meta m) (sv_db sv) (sv_db sv')"
proof -
  note ok = assms(1) [unfolded good_store_def]
  have two: "books_grow loads (dk_meta m) (sv_db sv) (sv_db sv3)"
    if "capture_run m now run sv = (Inr k, sv1)"
      "persist_run_meta m loads now run (Some reason) True (if positions_uncaptured run sv1 then bump ''positions_dropped'' sv1 else sv1) = (y, sv3)" for k sv1 y sv3
    using books_grow_trans [OF capture_run_books [OF _ that(1)], of dumps loads "sv_db sv3"] persist_run_meta_books [OF _ _ _ that(2), of dumps] ok
    by (simp split: if_splits)
  show ?thesis using assms(2)
  proof (cases rule: finalize_run_cases)
    case capture
    then show ?thesis using capture_run_books ok by blast
  next
    case persist
    then show ?thesis using two by blast
  next
    case (closed k b sv1 sv3)
    then show ?thesis using two [OF closed(4,5)] by (simp add: evict_run_fields)
  qed simp
qed

lemma restore_run_codes_db: "sv_db (snd (restore_run_codes m loads now run sv)) = sv_db sv"
  by (auto simp: restore_run_codes_def Let_def split: option.splits sum.splits prod.splits)

lemma add_position_db: "sv_db (snd (add_position m now run agent p sv)) = sv_db sv"
  by (auto simp: add_position_def split: sum.splits prod.splits)

lemma on_trip_geo_db: "sv_db (snd (on_trip_geo m loads render bits dateutil now run p sv)) = sv_db sv"
proof -
  obtain x sv1 where r: "restore_run_codes m loads now run sv = (x, sv1)" by fastforce
  then have "sv_db sv1 = sv_db sv" using restore_run_codes_db [of m loads now run sv] by simp
  then show ?thesis by (auto simp: on_trip_geo_def Let_def r add_position_db split: option.splits sum.splits)
qed

lemma service_step_books:
  assumes "good_store loads dumps m"
  shows "books_grow loads (dk_meta m) (sv_db sv) (sv_db (service_step loads render bits dateutil (m, op) sv))"
proof (cases op)
  case (CaptureRun now run)
  then show ?thesis using capture_run_books assms unfolding good_store_def by (metis prod.collapse service_step.simps(4))
next
  case (PersistMeta now run status force)
  then show ?thesis using persist_run_meta_books assms unfolding good_store_def by (metis prod.collapse service_step.simps(5))
next
  case (Finalize now flushed blocked run reason)
  then show ?thesis using finalize_run_books [OF assms] by (metis prod.collapse service_step.simps(8))
next
  case (DrainDumps archived limit)
  then show ?thesis by (simp add: drain_dumps_def split: prod.splits)
qed (simp_all add: on_trip_geo_db restore_run_codes_db add_position_db evict_run_fields capture_frames_books [OF assms] fresh_service_def)

text \<open>
  The persisted code books of a run only grow: whatever haulier code or slot a run has on disk stays as it is over any history of positions,
  sweeps, terminals, evictions, refused writes and restarts, so the frames stored before remain decodable, as long as the row of the run can be read
  and \<open>json\<close> reads back what it wrote.
\<close>

theorem books_only_grow:
  assumes "\<forall>(m, op) \<in> set steps. good_store loads dumps m \<and> dk_meta m = rows"
    and "run_books loads (rows (sv_db sv) run) = (codes, slots)"
    and "run_books loads (rows (sv_db (fold (service_step loads render bits dateutil) steps sv)) run) = (codes', slots')"
  shows "codes \<subseteq>\<^sub>m codes' \<and> slots \<subseteq>\<^sub>m slots'"
proof -
  have "books_grow loads rows (sv_db sv) (sv_db (fold (service_step loads render bits dateutil) steps sv))"
  proof (rule fold_invariant [where Q = "\<lambda>(m, op). good_store loads dumps m \<and> dk_meta m = rows" and P = "\<lambda>sv'. books_grow loads rows (sv_db sv) (sv_db sv')"])
    show "books_grow loads rows (sv_db sv) (sv_db (service_step loads render bits dateutil p sv'))"
      if "case p of (m, op) \<Rightarrow> good_store loads dumps m \<and> dk_meta m = rows" "books_grow loads rows (sv_db sv) (sv_db sv')" for p sv'
      using that service_step_books [of loads dumps _ sv'] books_grow_trans by (cases p) fastforce
  qed (use assms(1) in auto)
  then show ?thesis using assms(2,3) unfolding books_grow_def by (metis fst_conv snd_conv)
qed

section \<open>Instances\<close>

text \<open>A text for a dictionary: each character of a key after a mark, each value in unary after its sign.\<close>

definition plain_int :: "int \<Rightarrow> string" where
  "plain_int i = (if i < 0 then CHR ''-'' else CHR ''+'') # replicate (nat \<bar>i\<bar>) CHR ''1''"

fun plain_dumps :: "(string, int) dict \<Rightarrow> string" where
  "plain_dumps [] = ''.''"
| "plain_dumps ((k, i) # d) = concat (map (\<lambda>c. [CHR ''k'', c]) k) @ plain_int i @ plain_dumps d"

function plain_scan :: "string \<Rightarrow> string \<Rightarrow> (string, pyval) dict" where
  "plain_scan acc (x # y # s) =
     (if x = CHR ''k'' then plain_scan (acc @ [y]) s
      else (let n = int (length (takeWhile (\<lambda>c. c = CHR ''1'') (y # s)))
            in (acc, PyInt (if x = CHR ''-'' then - n else n)) # plain_scan [] (dropWhile (\<lambda>c. c = CHR ''1'') (y # s))))"
| "plain_scan acc [] = []"
| "plain_scan acc [x] = []"
  by pat_completeness auto
termination by (relation "measure (\<lambda>(acc, s). length s)") (auto simp: le_imp_less_Suc length_dropWhile_le le_SucI)

definition plain_loads :: "string \<Rightarrow> pyval option" where
  "plain_loads s = Some (PyDict (AList.clearjunk (plain_scan [] s)))"

lemma plain_dumps_head: "\<exists>x s. plain_dumps d = x # s \<and> x \<noteq> CHR ''1''"
proof (cases d)
  case (Cons e d')
  obtain k i where "e = (k, i)" by fastforce
  then show ?thesis by (cases k) (simp_all add: Cons plain_int_def)
qed simp

lemma plain_scan_key: "plain_scan acc (concat (map (\<lambda>c. [CHR ''k'', c]) k) @ s) = plain_scan (acc @ k) s"
  by (induction k arbitrary: acc) simp_all

lemma plain_scan_int: "plain_scan acc (plain_int i @ plain_dumps d) = (acc, PyInt i) # plain_scan [] (plain_dumps d)"
proof -
  obtain x s where d: "plain_dumps d = x # s" "x \<noteq> CHR ''1''" using plain_dumps_head by blast
  let ?ones = "replicate (nat \<bar>i\<bar>) CHR ''1'' @ x # s"
  obtain y t where y: "?ones = y # t" by (cases ?ones) auto
  have "takeWhile (\<lambda>c. c = CHR ''1'') ?ones = replicate (nat \<bar>i\<bar>) CHR ''1''" "dropWhile (\<lambda>c. c = CHR ''1'') ?ones = x # s"
    using d(2) by (simp_all add: takeWhile_append dropWhile_append)
  then show ?thesis using d(1) y by (auto simp: plain_int_def Let_def)
qed

lemma plain_scan_dumps: "plain_scan [] (plain_dumps d) = map (\<lambda>(k, i). (k, PyInt i)) d"
  by (induction d rule: plain_dumps.induct) (simp_all add: plain_scan_key plain_scan_int)

lemma plain_json: "json_ok plain_loads plain_dumps"
  unfolding json_ok_def plain_loads_def
proof (intro allI conjI exI)
  show "plain_dumps d \<noteq> []" for d using plain_dumps_head [of d] by auto
  show "map_of (AList.clearjunk (plain_scan [] (plain_dumps d))) k = map_option PyInt (map_of d k)" for d k
    by (simp add: map_of_clearjunk plain_scan_dumps map_of_map)
qed (simp_all add: distinct_clearjunk)

definition book_steps :: "(((string, int list) dict \<times> (string, run_meta) dict) duck \<times> service_op) list" where
  "book_steps =
     (let up = list_duck plain_dumps True; down = list_duck plain_dumps False
      in [(up, AddPosition 1 ''r'' ''t1'' (demo_position (Some ''h1'') 8)), (down, Finalize 2 True [] ''r'' ''completed''), (up, Sweep 3),
          (up, Restart), (up, AddPosition 4 ''r'' ''t2'' (demo_position (Some ''h2'') 9)), (up, Finalize 5 True [] ''r'' ''completed'')])"

abbreviation book_play :: "(((string, int list) dict \<times> (string, run_meta) dict) duck \<times> service_op) list \<Rightarrow> _" where
  "book_play steps \<equiv> fold (service_step plain_loads (\<lambda>v. []) (\<lambda>x. 0) (\<lambda>s. Inl ValueError)) steps (fresh_service ([], []))"

definition book_start :: "((string, int list) dict \<times> (string, run_meta) dict) service" where
  "book_start = book_play (take 3 book_steps)"

lemma book_start_row: "map_option (\<lambda>r. (rm_codes r, rm_slots r)) (map_of (snd (sv_db book_start)) ''r'') =
    Some (PyStr (plain_dumps [(''h1'', 1)]), PyStr (plain_dumps [(''t1'', 0)]))"
  unfolding book_start_def by code_simp

theorem books_only_grow_witness:
  "\<exists>codes slots. run_books plain_loads (map_of (snd (sv_db (book_play book_steps))) ''r'') = (codes, slots) \<and> codes ''h1'' = Some 1 \<and> slots ''t1'' = Some 0"
proof -
  let ?rows = "dk_meta (list_duck plain_dumps True)"
  obtain r where r: "map_of (snd (sv_db book_start)) ''r'' = Some r" "rm_codes r = PyStr (plain_dumps [(''h1'', 1)])" "rm_slots r = PyStr (plain_dumps [(''t1'', 0)])"
    using book_start_row by auto
  have rows: "?rows db = map_of (snd db)" for db by (simp add: list_duck_def)
  have start: "run_books plain_loads (?rows (sv_db book_start) ''r'') = (map_of [(''h1'', 1)], map_of [(''t1'', 0)])"
    by (simp only: rows r run_books_def option.case stored_dumps [OF plain_json])
  have split: "book_play book_steps = fold (service_step plain_loads (\<lambda>v. []) (\<lambda>x. 0) (\<lambda>s. Inl ValueError)) (drop 3 book_steps) book_start"
    unfolding book_start_def by (metis append_take_drop_id comp_apply fold_append)
  have good: "\<forall>(m, op) \<in> set (drop 3 book_steps). good_store plain_loads plain_dumps m \<and> dk_meta m = ?rows"
    by (simp add: book_steps_def Let_def good_store_def list_duck_ok plain_json reads_answer_def) (simp add: list_duck_def)
  obtain codes slots where e: "run_books plain_loads (?rows (sv_db (book_play book_steps)) ''r'') = (codes, slots)" by fastforce
  from books_only_grow [OF good start e [unfolded split]] have "codes ''h1'' = Some 1 \<and> slots ''t1'' = Some 0" by (simp add: map_le_def)
  then show ?thesis using e by (simp add: rows)
qed

theorem finalize_run_outcome_witness:
  "\<exists>sv' row. finalize_run (list_duck plain_dumps True) plain_loads 5 True [] ''r'' ''timeout'' book_start = (Inr (), sv') \<and>
     dk_meta (list_duck plain_dumps True) (sv_db sv') ''r'' = Some row \<and> rm_status row = Some ''timeout'' \<and> ''r'' \<notin> runs_of sv'"
proof -
  obtain x sv' where f: "finalize_run (list_duck plain_dumps True) plain_loads 5 True [] ''r'' ''timeout'' book_start = (x, sv')" by fastforce
  have "fst (finalize_run (list_duck plain_dumps True) plain_loads 5 True [] ''r'' ''timeout'' book_start) = Inr ()"
    unfolding book_start_def by code_simp
  then have "x = Inr ()" unfolding f by simp
  then show ?thesis using finalize_run_outcome [OF list_duck_ok f] f by auto
qed

text \<open>
  A row that cannot be read counts as no row: the next write of the run replaces the book by what this process has seen, and the codes of
  the frames stored before it are gone.
\<close>

lemma read_failure_replaces_book:
  assumes "duck_ok m dumps" and "dk_get_run_meta m run (sv_db sv) = None" and "live_books now run sv = (Some (c # cs, slots), hot1)"
    and "persist_run_meta m loads now run status True sv = (Inr True, sv')"
  shows "\<exists>row. dk_meta m (sv_db sv') run = Some row \<and> rm_codes row = PyStr (dumps (c # cs))"
  using assms(4)
proof (cases rule: persist_run_meta_cases)
  case (written b hot2 pcodes pslots codes slots' n k)
  have "pcodes = []" "b = Some (c # cs, slots)"
    using written(1,2) assms(2,3) by (simp_all add: read_meta_def load_code_map_def)
  then have "codes = c # cs" using written(4) by (simp add: merge_code_map_def)
  show ?thesis using written(6)
  proof (cases rule: write_meta_cases)
    case (row db')
    then show ?thesis using duck_okD(4) [OF assms(1) row(2)] \<open>codes = c # cs\<close> by (simp add: merge_meta_def Let_def)
  qed (simp_all add: assms)
qed simp_all

text \<open>A capture of a slab without a written slot stores nothing, yet it uses up the frame index: the next stored frame leaves a gap.\<close>

lemma blank_capture_uses_index:
  assumes "sv_hot sv = Some h" and "map_of (hs_runs h) run = Some s" and "slab_ok s" and "reported s = []"
    and "map_of (sv_captured sv) run \<noteq> Some (case map_of (sv_updates sv) run of None \<Rightarrow> 0 | Some n \<Rightarrow> n)"
    and "capture_run m now run sv = (x, sv')"
  shows "x = Inr 0 \<and> sv_db sv' = sv_db sv \<and>
    (\<exists>h' s'. sv_hot sv' = Some h' \<and> map_of (hs_runs h') run = Some s' \<and> sl_frame_counter s' = sl_frame_counter s + 1)"
proof -
  have ok: "slab_ok (touch_read now s)" using assms(3) by (rule slab_ok_counts(4))
  have "frame_n (frame_of kind_keyframe (touch_read now s)) = 0"
    using assms(4) unfolding frame_of_reported [OF ok] by (simp add: frame_n_def reported_def touch_read_def)
  then show ?thesis using assms(1,2,5,6) make_frame_ok [OF ok, of kind_keyframe]
    by (auto simp: capture_run_def snapshot_def Let_def)
qed

end
