(* ===== verification/Kafka_Delivery.thy ===== *)
theory Kafka_Delivery
  imports Kafka_Consumer
begin

text \<open>
  What the ingest consumer guarantees against a broker: an offset is committed only when every record below it has reached the store or was
  thrown away, over any history of records, failing handlers, failing flushes, rewinds and rebalances; and when a blocked partition recovers.
\<close>

section \<open>A consumer and its broker\<close>

text \<open>
  The broker keeps the records of a partition by offset (a compacted topic has gaps), the end of its log and the position the client reads from.
  \<open>dl_pend\<close> are the records whose handler has put a row into the buffer of the flush, \<open>dl_done\<close> those that reached the store or were
  thrown away, \<open>dl_offered\<close> the offsets the client was told to commit.
\<close>

record 'e delivery =
  dl_state :: "'e consumer"
  dl_log :: "partition_key \<Rightarrow> int \<Rightarrow> message option"
  dl_head :: "partition_key \<Rightarrow> int"
  dl_pos :: "partition_key \<Rightarrow> int"
  dl_pend :: "(partition_key \<times> int) set"
  dl_done :: "(partition_key \<times> int) set"
  dl_offered :: "(partition_key \<times> int) set"

definition defers :: "'e wiring \<Rightarrow> partition_key \<Rightarrow> bool" where
  "defers w key \<longleftrightarrow> wi_flush w \<noteq> None \<and> (flush_topics w = {} \<or> fst key \<in> flush_topics w)"

text \<open>A flush writes the buffered rows or loses them; either way the seeks move the client.\<close>

definition sought :: "(partition_key \<times> int) list \<Rightarrow> (partition_key \<Rightarrow> int) \<Rightarrow> partition_key \<Rightarrow> int" where
  "sought seeks pos = fold (\<lambda>(key, off) pos. pos(key := off)) seeks pos"

definition flushed :: "bool \<times> (partition_key \<times> int) list \<Rightarrow> 'e delivery \<Rightarrow> 'e delivery" where
  "flushed f d = d\<lparr>dl_done := (if fst f then dl_done d \<union> dl_pend d else dl_done d), dl_pend := {}, dl_pos := sought (snd f) (dl_pos d)\<rparr>"

definition taken :: "'e wiring \<Rightarrow> partition_key \<Rightarrow> int \<Rightarrow> bool \<Rightarrow> 'e delivery \<Rightarrow> 'e delivery" where
  "taken w key off committable d =
     (if \<not> committable then d
      else if defers w key then d\<lparr>dl_pend := insert (key, off) (dl_pend d)\<rparr>
      else d\<lparr>dl_done := insert (key, off) (dl_done d)\<rparr>)"

definition offers :: "commit_call \<Rightarrow> 'e delivery \<Rightarrow> (partition_key \<times> int) set" where
  "offers call d = (case call of NoCommit \<Rightarrow> {} | CommitOffsets offs \<Rightarrow> set offs | CommitBlind \<Rightarrow> {(key, off). dl_pos d key = off})"

inductive delivers :: "'e wiring \<Rightarrow> (partition_key \<Rightarrow> int) \<Rightarrow> 'e delivery \<Rightarrow> 'e delivery \<Rightarrow> bool"
  for w :: "'e wiring" and start :: "partition_key \<Rightarrow> int" where
  produce: "coords msg = Some (key, dl_head d key) \<Longrightarrow> ms_error msg = None \<Longrightarrow>
    delivers w start d (d\<lparr>dl_log := (dl_log d)(key := (dl_log d key)(dl_head d key := Some msg)), dl_head := (dl_head d)(key := dl_head d key + 1)\<rparr>)"
| compact: "delivers w start d (d\<lparr>dl_log := (dl_log d)(key := (dl_log d key)(off := None))\<rparr>)"
| deliver: "dl_log d key off = Some msg \<Longrightarrow> dl_pos d key \<le> off \<Longrightarrow> \<forall>i. dl_pos d key \<le> i \<and> i < off \<longrightarrow> dl_log d key i = None \<Longrightarrow>
    handle_message w seeks now msg (dl_state d) = ((ok, committable), fs, st) \<Longrightarrow>
    delivers w start d (taken w key off committable (fold flushed fs (d\<lparr>dl_pos := (dl_pos d)(key := off + 1)\<rparr>))\<lparr>dl_state := st\<rparr>)"
| event: "ms_error msg = Some e \<Longrightarrow> handle_message w seeks now msg (dl_state d) = (r, fs, st) \<Longrightarrow> delivers w start d (d\<lparr>dl_state := st\<rparr>)"
| commit: "commit_safe w seeks accepts now force (dl_state d) = ((b, call), f, st) \<Longrightarrow>
    delivers w start d ((flushed f d)\<lparr>dl_state := st, dl_offered := dl_offered d \<union> offers call d\<rparr>)"
| rewind: "rewind_blocked seeks now (dl_state d) = (done, st) \<Longrightarrow> delivers w start d (d\<lparr>dl_pos := sought done (dl_pos d), dl_state := st\<rparr>)"
| subscribe: "ensure_consumer subscribes (dl_state d) = (b, st) \<Longrightarrow> delivers w start d (d\<lparr>dl_state := st\<rparr>)"
| rebalance: "\<forall>key. start key \<le> pos key \<and> pos key \<le> dl_pos d key \<Longrightarrow> delivers w start d (d\<lparr>dl_pos := pos\<rparr>)"

inductive_simps delivers_from: "delivers w start d d'"

definition starts :: "(partition_key \<Rightarrow> int) \<Rightarrow> 'e delivery \<Rightarrow> bool" where
  "starts start d \<longleftrightarrow> (\<exists>e. dl_state d = new_consumer e) \<and> dl_pos d = start \<and> dl_pend d = {} \<and> dl_done d = {} \<and> dl_offered d = {} \<and>
     (\<forall>key. start key \<le> dl_head d key) \<and>
     (\<forall>key off msg. dl_log d key off = Some msg \<longrightarrow> off < dl_head d key \<and> coords msg = Some (key, off) \<and> ms_error msg = None)"

text \<open>A handler heeds its flush when it raises after the flush failed, as the handler of terminals does.\<close>

primrec ends_raising :: "'e handling \<Rightarrow> bool" where
  "ends_raising (Finished ok e) = (\<not> ok)"
| "ends_raising (Discard reason h) = ends_raising h"
| "ends_raising (AskFlush e k) = (\<forall>b e. ends_raising (k b e))"
| "ends_raising (AskBlocked k) = (\<forall>ts. ends_raising (k ts))"

primrec heeds :: "'e handling \<Rightarrow> bool" where
  "heeds (Finished ok e) = True"
| "heeds (Discard reason h) = heeds h"
| "heeds (AskFlush e k) = (\<forall>e. ends_raising (k False e) \<and> heeds (k True e))"
| "heeds (AskBlocked k) = (\<forall>ts. heeds (k ts))"

definition heeding :: "'e wiring \<Rightarrow> bool" where
  "heeding w \<longleftrightarrow> (\<forall>l h run p e. wi_handlers w l = Some h \<longrightarrow> heeds (h run p e))"

section \<open>The offset rule on one partition\<close>

definition point_after :: "int \<Rightarrow> bool \<Rightarrow> int option \<Rightarrow> int option \<Rightarrow> int" where
  "point_after off ok c b =
     (let c0 = (case c of None \<Rightarrow> off | Some n \<Rightarrow> min off n) in if ok \<and> (c0 = off \<or> b = None) then off + 1 else c0)"

lemma see_offset_fields [simp]: "cs_commit_at (see_offset key off st) = cs_commit_at st" "cs_blocked (see_offset key off st) = cs_blocked st"
  "cs_flush_floor (see_offset key off st) = cs_flush_floor st" "cs_untracked (see_offset key off st) = cs_untracked st"
  by (simp_all add: see_offset_def)

lemma follow_down_fields [simp]: "cs_blocked (follow_down now key off st) = cs_blocked st" "cs_untracked (follow_down now key off st) = cs_untracked st"
  by (simp_all add: follow_down_def)

lemma follow_down_commit: "map_of (cs_commit_at (follow_down now key off st)) k =
     (if k = key then Some (case map_of (cs_commit_at st) key of None \<Rightarrow> off | Some n \<Rightarrow> min off n) else map_of (cs_commit_at st) k)"
  by (cases "map_of (cs_commit_at st) key") (auto simp: follow_down_def update_conv')

lemma note_offset_commit:
  "map_of (cs_commit_at (note_offset now (key, off) ok st)) k =
     (if k = key then Some (point_after off ok (map_of (cs_commit_at st) key) (map_of (cs_blocked st) key)) else map_of (cs_commit_at st) k)"
  by (simp add: note_offset_def Let_def update_conv' follow_down_commit point_after_def)

lemma note_offset_blocked:
  "map_of (cs_blocked (note_offset now (key, off) ok st)) k =
     (if k \<noteq> key then map_of (cs_blocked st) k
      else if ok \<and> ((case map_of (cs_commit_at st) key of None \<Rightarrow> True | Some n \<Rightarrow> off \<le> n) \<or> map_of (cs_blocked st) key = None) then None
      else if \<not> ok \<and> map_of (cs_blocked st) key = None then Some off
      else map_of (cs_blocked st) key)"
  by (cases "map_of (cs_commit_at st) key") (auto simp: note_offset_def Let_def update_conv' delete_conv' follow_down_commit)

lemma note_offset_floor:
  "map_of (cs_flush_floor (note_offset now (key, off) ok st)) k =
     (if k = key \<and> (case map_of (cs_commit_at st) key of None \<Rightarrow> True | Some n \<Rightarrow> off < n) \<and> off < get_or (off + 1) (cs_flush_floor st) key then Some off
      else map_of (cs_flush_floor st) k)"
proof -
  have "cs_flush_floor (note_offset now (key, off) ok st) = cs_flush_floor (follow_down now key off (see_offset key off st))"
    by (simp add: note_offset_def Let_def)
  then show ?thesis by (simp add: follow_down_def update_conv')
qed

lemma note_offset_distinct:
  "distinct (map fst (cs_commit_at st)) \<Longrightarrow> distinct (map fst (cs_commit_at (note_offset now c ok st)))"
  "distinct (map fst (cs_blocked st)) \<Longrightarrow> distinct (map fst (cs_blocked (note_offset now c ok st)))"
  by (cases c; simp add: note_offset_def follow_down_def Let_def distinct_update distinct_delete)+

lemma note_offset_untracked [simp]: "cs_untracked (note_offset now c ok st) = cs_untracked st"
  by (cases c) (simp add: note_offset_def Let_def)

section \<open>The invariant of a partition\<close>

text \<open>
  Everything below the commit point is done or waits for the flush, everything below the flush floor is done, and when nothing is blocked the client
  has not read past the commit point. \<open>x\<close> are the offsets whose record is in the hands of its handler.
\<close>

definition key_inv :: "bool \<Rightarrow> int \<Rightarrow> int \<Rightarrow> int \<Rightarrow> int option \<Rightarrow> int option \<Rightarrow> int option \<Rightarrow> int set \<Rightarrow> int set \<Rightarrow> int set \<Rightarrow> int set \<Rightarrow> bool" where
  "key_inv q s p h c f b l pend don x \<longleftrightarrow> s \<le> p \<and> p \<le> h \<and> (\<forall>i \<in> l. i < h) \<and> (\<not> q \<longrightarrow> pend = {}) \<and>
     (case c of
        None \<Rightarrow> b = None \<and> f = None \<and> (\<forall>i \<in> l. s \<le> i \<longrightarrow> p \<le> i \<or> i \<in> x)
      | Some c \<Rightarrow> s \<le> c \<and> c \<le> h \<and> (\<exists>n. f = Some n \<and> s \<le> n \<and> n \<le> c \<and> (\<forall>i \<in> l. s \<le> i \<longrightarrow> i < n \<longrightarrow> i \<in> don)) \<and>
          (\<forall>i \<in> l. s \<le> i \<longrightarrow> i < c \<longrightarrow> i \<in> don \<or> i \<in> pend) \<and>
          (case b of None \<Rightarrow> \<forall>i \<in> l. c \<le> i \<longrightarrow> p \<le> i \<or> i \<in> x | Some b \<Rightarrow> s \<le> b \<and> b \<le> h))"

lemma key_inv_None:
  "key_inv q s p h None f b l pend don x \<longleftrightarrow>
     s \<le> p \<and> p \<le> h \<and> (\<forall>i \<in> l. i < h) \<and> (\<not> q \<longrightarrow> pend = {}) \<and> b = None \<and> f = None \<and> (\<forall>i \<in> l. s \<le> i \<longrightarrow> p \<le> i \<or> i \<in> x)"
  by (simp add: key_inv_def)

lemma key_inv_Some:
  "key_inv q s p h (Some c) f b l pend don x \<longleftrightarrow>
     s \<le> p \<and> p \<le> h \<and> (\<forall>i \<in> l. i < h) \<and> (\<not> q \<longrightarrow> pend = {}) \<and> s \<le> c \<and> c \<le> h \<and>
     (\<exists>n. f = Some n \<and> s \<le> n \<and> n \<le> c \<and> (\<forall>i \<in> l. s \<le> i \<longrightarrow> i < n \<longrightarrow> i \<in> don)) \<and>
     (\<forall>i \<in> l. s \<le> i \<longrightarrow> i < c \<longrightarrow> i \<in> don \<or> i \<in> pend) \<and>
     (b = None \<longrightarrow> (\<forall>i \<in> l. c \<le> i \<longrightarrow> p \<le> i \<or> i \<in> x)) \<and> (\<forall>i. b = Some i \<longrightarrow> s \<le> i \<and> i \<le> h)"
  by (cases b) (simp_all add: key_inv_def)

lemma key_inv_read:
  assumes "key_inv q s p h c f b l pend don {}" and "off \<in> l" and "p \<le> off" and "\<forall>i \<in> l. p \<le> i \<longrightarrow> off \<le> i"
  shows "key_inv q s (off + 1) h c f b l pend don {off}"
proof -
  have "s \<le> off + 1" "off + 1 \<le> h" using assms by (force simp: key_inv_def)+
  moreover have "off + 1 \<le> i \<or> i \<in> {off}" if "i \<in> l" "p \<le> i" for i using assms(4) that by force
  ultimately show ?thesis using assms(1) by (cases c) (simp_all add: key_inv_None key_inv_Some)
qed

lemma key_inv_flush:
  assumes "key_inv q s p h c f b l pend don x" shows "key_inv q s p h c c b l {} (don \<union> pend) x"
  using assms by (cases c) (auto simp: key_inv_None key_inv_Some)

lemma key_inv_lost:
  assumes "key_inv q s p h c f b l pend don x" and "b' = (case b of Some b \<Rightarrow> Some b | None \<Rightarrow> if q \<and> f \<noteq> c then f else None)"
    and "p' = p \<or> b' = Some p'"
  shows "key_inv q s p' h (if q \<and> f \<noteq> c then f else c) f b' l {} don x"
proof (cases c)
  case None
  then show ?thesis using assms by (simp add: key_inv_None)
next
  case (Some n)
  then obtain m where m: "f = Some m" "s \<le> m" "m \<le> n" "\<forall>i \<in> l. s \<le> i \<longrightarrow> i < m \<longrightarrow> i \<in> don" using assms(1) by (auto simp: key_inv_Some)
  note inv = assms(1) [unfolded Some key_inv_Some]
  have p': "s \<le> p'" "p' \<le> h" using assms(2,3) inv m(1-3) by (auto split: option.splits if_splits)
  show ?thesis
  proof (cases "q \<and> f \<noteq> c")
    case True
    then show ?thesis using m inv assms(2) p' by (cases b) (simp_all add: key_inv_Some)
  next
    case False
    then have "\<forall>i \<in> l. s \<le> i \<longrightarrow> i < n \<longrightarrow> i \<in> don" using inv m Some by auto
    moreover have "b = None \<longrightarrow> p' = p" using assms(2,3) False by auto
    ultimately show ?thesis using False m inv assms(2) p' Some by (cases b) (simp_all add: key_inv_Some)
  qed
qed

lemma key_inv_note:
  assumes "key_inv q s p h c f b l pend don {off}" and "off \<in> l" and "s \<le> off" and "ok \<or> b = None \<longrightarrow> p = off + 1"
    and "f' = (if (case c of None \<Rightarrow> True | Some n \<Rightarrow> off < n) \<and> off < (case f of None \<Rightarrow> off + 1 | Some n \<Rightarrow> n) then Some off else f)"
    and "b' = (if ok \<and> ((case c of None \<Rightarrow> True | Some n \<Rightarrow> off \<le> n) \<or> b = None) then None else if \<not> ok \<and> b = None then Some off else b)"
    and "pend' = (if ok \<and> q then insert off pend else pend)" and "don' = (if ok \<and> \<not> q then insert off don else don)"
  shows "key_inv q s p h (Some (point_after off ok c b)) f' b' l pend' don' {}"
proof -
  have off: "off < h" using assms(1,2) by (simp add: key_inv_def)
  have more: "don \<subseteq> don'" "pend \<subseteq> pend'" "ok \<Longrightarrow> off \<in> don' \<or> off \<in> pend'" "\<not> q \<Longrightarrow> pend = {} \<Longrightarrow> pend' = {}" using assms(7,8) by auto
  show ?thesis
  proof (cases c)
    case None
    note inv = assms(1) [unfolded None key_inv_None]
    have b: "b = None" "p = off + 1" "f' = Some off" using inv assms(4,5) None by auto
    have "\<forall>i \<in> l. s \<le> i \<longrightarrow> i < off + 1 \<longrightarrow> i = off" using inv b(2) by force
    then show ?thesis using inv None off assms(3,6) b more by (cases ok) (auto simp: key_inv_Some point_after_def)
  next
    case (Some n)
    note inv = assms(1) [unfolded Some key_inv_Some]
    then obtain m where m: "f = Some m" "s \<le> m" "m \<le> n" "\<forall>i \<in> l. s \<le> i \<longrightarrow> i < m \<longrightarrow> i \<in> don" by auto
    have below: "\<forall>i \<in> l. s \<le> i \<longrightarrow> i < n \<longrightarrow> i \<in> don' \<or> i \<in> pend'" using inv more(1,2) by blast
    have near: "i = off" if "b = None" "n \<le> off" "i \<in> l" "n \<le> i" "i < off + 1" for i using inv assms(4) that by force
    have floor: "\<forall>i \<in> l. s \<le> i \<longrightarrow> i < m \<longrightarrow> i \<in> don'" using m(4) more(1) by blast
    consider (low) "off < n" | (at) "off = n" | (above) "n < off" by linarith
    then show ?thesis
    proof cases
      case low
      have f': "f' = Some (min off m)" using assms(5) low m(1) Some by (simp add: min_def)
      have c': "point_after off ok c b = (if ok then off + 1 else off)" using low Some by (simp add: point_after_def)
      have b': "b' = (if ok then None else if b = None then Some off else b)" using assms(6) low Some by auto
      have in1: "\<forall>i \<in> l. s \<le> i \<longrightarrow> i < off + 1 \<longrightarrow> ok \<longrightarrow> i \<in> don' \<or> i \<in> pend'" using below low more(3) by force
      have in2: "\<forall>i \<in> l. s \<le> i \<longrightarrow> i < off \<longrightarrow> i \<in> don' \<or> i \<in> pend'" using below low by force
      have pos: "ok \<longrightarrow> p = off + 1" using assms(4) by blast
      show ?thesis unfolding c' key_inv_Some f' b' using in1 in2 pos inv m(2) floor off assms(3) more(4) by (cases ok) auto
    next
      case at
      have f': "f' = Some m" using assms(5) at m(1) Some by simp
      have c': "point_after off ok c b = (if ok then off + 1 else off)" using at Some by (simp add: point_after_def)
      have b': "b' = (if ok then None else if b = None then Some off else b)" using assms(6) at Some by auto
      have in1: "\<forall>i \<in> l. s \<le> i \<longrightarrow> i < off + 1 \<longrightarrow> ok \<longrightarrow> i \<in> don' \<or> i \<in> pend'" using below at more(3) by force
      have in2: "\<forall>i \<in> l. s \<le> i \<longrightarrow> i < off \<longrightarrow> i \<in> don' \<or> i \<in> pend'" using below at by force
      have pos: "ok \<longrightarrow> p = off + 1" using assms(4) by blast
      show ?thesis unfolding c' key_inv_Some f' b' using in1 in2 pos inv m(2,3) floor at off assms(3) more(4) by (cases ok) auto
    next
      case above
      have f': "f' = Some m" using assms(5) above m(1) Some by simp
      have c': "point_after off ok c b = (if ok \<and> b = None then off + 1 else n)" using above Some by (simp add: point_after_def)
      have b': "b' = (if b = None then if ok then None else Some off else b)" using assms(6) above Some by auto
      have in1: "\<forall>i \<in> l. s \<le> i \<longrightarrow> i < off + 1 \<longrightarrow> ok \<longrightarrow> b = None \<longrightarrow> i \<in> don' \<or> i \<in> pend'"
        using below near above more(3) by (metis linorder_not_less order_less_imp_le)
      have pos: "b = None \<longrightarrow> p = off + 1" using assms(4) by blast
      have core: "s \<le> p" "p \<le> h" "\<forall>i \<in> l. i < h" "\<not> q \<longrightarrow> pend' = {}" "s \<le> n" "n \<le> h" using inv more(4) by auto
      show ?thesis
      proof (cases "b = None")
        case True
        then show ?thesis unfolding c' key_inv_Some f' b' using core in1 below pos m(2,3) floor above off assms(3) by (cases ok) auto
      next
        case False
        then obtain i where "b = Some i" by blast
        then show ?thesis unfolding c' key_inv_Some f' b' using core below m(2,3) floor inv by simp
      qed
    qed
  qed
qed

lemma key_inv_rebalance:
  assumes "key_inv q s p h c f b l pend don {}" and "s \<le> p'" and "p' \<le> p"
  shows "key_inv q s p' h c f b l pend don {}"
  using assms by (cases c) (force simp: key_inv_None key_inv_Some)+

lemma key_inv_log:
  assumes "key_inv q s p h c f b l pend don {}" and "l' \<subseteq> l"
  shows "key_inv q s p h c f b l' pend don {}"
  using assms by (cases c) (fastforce simp: key_inv_None key_inv_Some)+

lemma key_inv_produce:
  assumes "key_inv q s p h c f b l pend don {}" shows "key_inv q s p (h + 1) c f b (insert h l) pend don {}"
  using assms by (cases c) (fastforce simp: key_inv_None key_inv_Some)+

section \<open>The invariant of a delivery\<close>

definition dl_inv :: "'e wiring \<Rightarrow> (partition_key \<Rightarrow> int) \<Rightarrow> (partition_key \<Rightarrow> int set) \<Rightarrow> 'e consumer \<Rightarrow> 'e delivery \<Rightarrow> bool" where
  "dl_inv w start x st d \<longleftrightarrow>
     distinct (map fst (cs_commit_at st)) \<and> distinct (map fst (cs_blocked st)) \<and> cs_untracked st = 0 \<and>
     (\<forall>k. key_inv (defers w k) (start k) (dl_pos d k) (dl_head d k) (map_of (cs_commit_at st) k) (map_of (cs_flush_floor st) k) (map_of (cs_blocked st) k)
        {i. dl_log d k i \<noteq> None} {i. (k, i) \<in> dl_pend d} {i. (k, i) \<in> dl_done d} (x k))"

lemma dl_inv_key: "dl_inv w start x st d \<Longrightarrow> key_inv (defers w k) (start k) (dl_pos d k) (dl_head d k) (map_of (cs_commit_at st) k)
    (map_of (cs_flush_floor st) k) (map_of (cs_blocked st) k) {i. dl_log d k i \<noteq> None} {i. (k, i) \<in> dl_pend d} {i. (k, i) \<in> dl_done d} (x k)"
  unfolding dl_inv_def by blast

lemma dl_invI:
  assumes "distinct (map fst (cs_commit_at st))" and "distinct (map fst (cs_blocked st))" and "cs_untracked st = 0"
    and "\<And>k. key_inv (defers w k) (start k) (dl_pos d k) (dl_head d k) (map_of (cs_commit_at st) k) (map_of (cs_flush_floor st) k)
      (map_of (cs_blocked st) k) {i. dl_log d k i \<noteq> None} {i. (k, i) \<in> dl_pend d} {i. (k, i) \<in> dl_done d} (x k)"
  shows "dl_inv w start x st d"
  unfolding dl_inv_def using assms by blast

lemma dl_inv_fields: "dl_inv w start x st d \<Longrightarrow> distinct (map fst (cs_commit_at st))" "dl_inv w start x st d \<Longrightarrow> distinct (map fst (cs_blocked st))"
  "dl_inv w start x st d \<Longrightarrow> cs_untracked st = 0"
  unfolding dl_inv_def by blast+

text \<open>What of the state of the consumer the invariant speaks about.\<close>

definition same_points :: "'e consumer \<Rightarrow> 'e consumer \<Rightarrow> bool" where
  "same_points st st' \<longleftrightarrow> cs_commit_at st' = cs_commit_at st \<and> cs_flush_floor st' = cs_flush_floor st \<and> cs_blocked st' = cs_blocked st \<and>
     cs_untracked st' = cs_untracked st \<and> cs_committed st' = cs_committed st"

lemma dl_inv_points: "same_points st st' \<Longrightarrow> dl_inv w start x st' d = dl_inv w start x st d"
  unfolding dl_inv_def same_points_def by simp

lemma bump_count_fields [simp]: "cs_commit_at (bump_count now n b st) = cs_commit_at st" "cs_flush_floor (bump_count now n b st) = cs_flush_floor st"
  "cs_blocked (bump_count now n b st) = cs_blocked st" "cs_untracked (bump_count now n b st) = cs_untracked st" "cs_env (bump_count now n b st) = cs_env st"
  "cs_open (bump_count now n b st) = cs_open st" "cs_committed (bump_count now n b st) = cs_committed st"
  by (simp_all add: bump_count_def Let_def)

lemma same_points_bump [simp]: "same_points st (bump_count now n b st)"
  by (simp add: same_points_def)

lemma seek_back_points: "seek_back seeks now xs st = (done, st') \<Longrightarrow> same_points st st' \<and> set done \<subseteq> set xs"
proof (induction seeks now xs st arbitrary: "done" st' rule: seek_back.induct)
  case (2 seeks now key point rest st)
  show ?case
  proof (cases "now - get_or 0 (cs_last_seek_at st) key < seek_backoff \<or> \<not> seeks key point")
    case True
    then have "seek_back seeks now rest st = (done, st')" using "2.prems" by simp
    then show ?thesis using "2.IH"(1) [OF True] by auto
  next
    case False
    let ?st = "bump_count now ''seek_back'' False (st\<lparr>cs_last_seek_at := AList.update key now (cs_last_seek_at st)\<rparr>)"
    obtain done1 st1 where r: "seek_back seeks now rest ?st = (done1, st1)" by fastforce
    have "same_points ?st st1 \<and> set done1 \<subseteq> set rest" using "2.IH"(2) [OF False r] .
    moreover have "done = (key, point) # done1" "st' = st1" using "2.prems" False r by auto
    ultimately show ?thesis by (auto simp: same_points_def)
  qed
qed (simp add: same_points_def)

lemma rewind_blocked_points: "rewind_blocked seeks now st = (done, st') \<Longrightarrow> same_points st st' \<and> set done \<subseteq> set (cs_blocked st)"
  using seek_back_points by (fastforce simp: rewind_blocked_def same_points_def split: if_splits)

lemma sought_cases: "sought done pos k = pos k \<or> (k, sought done pos k) \<in> set done"
proof -
  have "fold (\<lambda>(key, off) pos. pos(key := off)) done pos k \<in> insert (pos k) {off. (k, off) \<in> set done}"
  proof (induction "done" arbitrary: pos)
    case (Cons e es)
    show ?case using Cons.IH [of "pos(fst e := snd e)"] by (cases e) (auto split: if_splits)
  qed simp
  then show ?thesis by (simp add: sought_def)
qed

lemma rolled_back_commit: "map_of (cs_commit_at (rolled_back w st)) k =
    (case map_of (cs_commit_at st) k of None \<Rightarrow> None | Some n \<Rightarrow> Some (if rolls_back w st k n then get_or n (cs_flush_floor st) k else n))"
proof -
  have "map_of (map (\<lambda>(key, nxt). (key, g key nxt)) xs) k = map_option (g k) (map_of xs k)" for g :: "partition_key \<Rightarrow> int \<Rightarrow> int" and xs
    by (induction xs) auto
  then show ?thesis by (simp add: rolled_back_def split: option.splits)
qed

lemma rolled_back_blocked:
  assumes "distinct (map fst (cs_commit_at st))"
  shows "map_of (cs_blocked (rolled_back w st)) k =
    (case map_of (cs_blocked st) k of Some b \<Rightarrow> Some b
     | None \<Rightarrow> (case map_of (cs_commit_at st) k of None \<Rightarrow> None | Some n \<Rightarrow> if rolls_back w st k n then Some (get_or n (cs_flush_floor st) k) else None))"
proof -
  let ?f = "\<lambda>(key, nxt) blocked. if rolls_back w st key nxt \<and> map_of blocked key = None then AList.update key (get_or nxt (cs_flush_floor st) key) blocked else blocked"
  have "map_of (fold ?f xs bl) k = (case map_of bl k of Some b \<Rightarrow> Some b
     | None \<Rightarrow> (case map_of xs k of None \<Rightarrow> None | Some n \<Rightarrow> if rolls_back w st k n then Some (get_or n (cs_flush_floor st) k) else None))"
    if "distinct (map fst xs)" for xs bl using that
  proof (induction xs arbitrary: bl)
    case (Cons e xs)
    obtain key n where e: "e = (key, n)" by fastforce
    then have none: "map_of xs key = None" using Cons.prems by (simp add: map_of_eq_None_iff)
    show ?case using Cons.IH [of "?f e bl"] Cons.prems none e
      by (cases "k = key"; cases "map_of bl k") (simp_all add: update_conv')
  qed (simp split: option.splits)
  then show ?thesis using assms by (simp add: rolled_back_def)
qed

lemma rolled_back_distinct: "distinct (map fst (cs_blocked st)) \<Longrightarrow> distinct (map fst (cs_blocked (rolled_back w st)))"
    "map fst (cs_commit_at (rolled_back w st)) = map fst (cs_commit_at st)"
proof -
  let ?f = "\<lambda>(key, nxt) blocked. if rolls_back w st key nxt \<and> map_of blocked key = None then AList.update key (get_or nxt (cs_flush_floor st) key) blocked else blocked"
  have "distinct (map fst bl) \<Longrightarrow> distinct (map fst (fold ?f xs bl))" for xs bl
    by (induction xs arbitrary: bl) (auto simp: distinct_update)
  then show "distinct (map fst (cs_blocked st)) \<Longrightarrow> distinct (map fst (cs_blocked (rolled_back w st)))" by (simp add: rolled_back_def)
  show "map fst (cs_commit_at (rolled_back w st)) = map fst (cs_commit_at st)" by (simp add: rolled_back_def case_prod_unfold)
qed

text \<open>A flush, whether it writes or loses the buffer.\<close>

lemma flushed_fields [simp]: "dl_log (flushed f d) = dl_log d" "dl_head (flushed f d) = dl_head d" "dl_pend (flushed f d) = {}"
  "dl_offered (flushed f d) = dl_offered d" "dl_pos (flushed f d) = sought (snd f) (dl_pos d)"
  "dl_done (flushed f d) = (if fst f then dl_done d \<union> dl_pend d else dl_done d)"
  by (simp_all add: flushed_def)

lemma flush_writes_inv:
  assumes "dl_inv w start x st d" and "flush_writes w seeks now st = (b, dn, st')"
  shows "dl_inv w start x st' (flushed (b, dn) d)"
    and "map_of (cs_blocked st) k \<noteq> None \<Longrightarrow> map_of (cs_blocked st') k \<noteq> None"
    and "map_of (cs_blocked st') k = None \<Longrightarrow> dl_pos (flushed (b, dn) d) k = dl_pos d k"
    and "b \<Longrightarrow> dn = []" and "cs_committed st' = cs_committed st"
proof -
  have "dl_inv w start x st' (flushed (b, dn) d) \<and> (\<forall>k. map_of (cs_blocked st) k \<noteq> None \<longrightarrow> map_of (cs_blocked st') k \<noteq> None) \<and>
    (\<forall>k. map_of (cs_blocked st') k = None \<longrightarrow> dl_pos (flushed (b, dn) d) k = dl_pos d k) \<and> (b \<longrightarrow> dn = []) \<and> cs_committed st' = cs_committed st"
  proof (cases "wi_flush w")
    case None
    have "{i. (k, i) \<in> dl_pend d} = {}" for k using dl_inv_key [OF assms(1), of k] None by (simp add: key_inv_def defers_def)
    then have "dl_pend d = {}" by auto
    then have "flushed (True, []) d = d" by (simp add: flushed_def sought_def)
    then show ?thesis using assms None by (auto simp: flush_writes_def)
  next
    case (Some flush)
    obtain ok e where f: "flush (cs_env st) = (ok, e)" by fastforce
    show ?thesis
    proof (cases ok)
      case True
      then have r: "b" "dn = []" "st' = st\<lparr>cs_env := e, cs_flush_floor := cs_commit_at st\<rparr>" using assms(2) Some f by (auto simp: flush_writes_def)
      have "dl_inv w start x st' (flushed (b, dn) d)"
      proof (rule dl_invI)
        fix k
        have "{i. (k, i) \<in> dl_done (flushed (b, dn) d)} = {i. (k, i) \<in> dl_done d} \<union> {i. (k, i) \<in> dl_pend d}" using r(1) by auto
        moreover have "{i. (k, i) \<in> dl_pend (flushed (b, dn) d)} = {}" by simp
        ultimately show "key_inv (defers w k) (start k) (dl_pos (flushed (b, dn) d) k) (dl_head (flushed (b, dn) d) k) (map_of (cs_commit_at st') k)
            (map_of (cs_flush_floor st') k) (map_of (cs_blocked st') k) {i. dl_log (flushed (b, dn) d) k i \<noteq> None}
            {i. (k, i) \<in> dl_pend (flushed (b, dn) d)} {i. (k, i) \<in> dl_done (flushed (b, dn) d)} (x k)"
          using key_inv_flush [OF dl_inv_key [OF assms(1), of k]] r by (simp add: sought_def)
      qed (use dl_inv_fields [OF assms(1)] r in simp_all)
      then show ?thesis using r by (simp add: sought_def)
    next
      case False
      let ?s0 = "bump_count now ''handler_errors'' False (st\<lparr>cs_env := e\<rparr>)"
      let ?s1 = "rolled_back w ?s0"
      have r: "\<not> b" "rewind_blocked seeks now ?s1 = (dn, st')"
        using assms(2) Some f False by (auto simp: flush_writes_def split: prod.splits)
      have d0: "distinct (map fst (cs_commit_at ?s0))" "distinct (map fst (cs_blocked ?s0))" using assms(1) by (simp_all add: dl_inv_def)
      note rw = rewind_blocked_points [OF r(2)]
      have pts: "cs_commit_at st' = cs_commit_at ?s1" "cs_flush_floor st' = cs_flush_floor st" "cs_blocked st' = cs_blocked ?s1"
          "cs_untracked st' = cs_untracked st" "cs_committed st' = cs_committed st" using rw by (simp_all add: same_points_def rolled_back_def)
      have dist: "distinct (map fst (cs_commit_at st'))" "distinct (map fst (cs_blocked st'))"
        unfolding pts rolled_back_distinct(2) using d0 rolled_back_distinct(1) by blast+
      have "dl_inv w start x st' (flushed (b, dn) d)"
      proof (rule dl_invI)
        fix k
        let ?c = "map_of (cs_commit_at st) k" and ?f = "map_of (cs_flush_floor st) k" and ?b = "map_of (cs_blocked st) k"
        note inv = dl_inv_key [OF assms(1), of k]
        have q: "rolls_back w ?s0 k n \<longleftrightarrow> defers w k \<and> ?f \<noteq> ?c" "?f \<noteq> ?c \<Longrightarrow> get_or n (cs_flush_floor st) k = the ?f" if "?c = Some n" for n
          using inv that Some by (auto simp: key_inv_Some rolls_back_def defers_def get_or_def)
        have c': "map_of (cs_commit_at st') k = (if defers w k \<and> ?f \<noteq> ?c then ?f else ?c)"
          using inv q by (cases ?c) (auto simp: pts rolled_back_commit key_inv_None key_inv_Some)
        have b': "map_of (cs_blocked st') k = (case ?b of Some b \<Rightarrow> Some b | None \<Rightarrow> if defers w k \<and> ?f \<noteq> ?c then ?f else None)"
          unfolding pts rolled_back_blocked [OF d0(1)] using inv q by (cases ?c; cases ?b) (auto simp: key_inv_None key_inv_Some)
        have p': "sought dn (dl_pos d) k = dl_pos d k \<or> map_of (cs_blocked st') k = Some (sought dn (dl_pos d) k)"
          using sought_cases [of dn "dl_pos d" k] rw dist(2) unfolding pts by auto
        show "key_inv (defers w k) (start k) (dl_pos (flushed (b, dn) d) k) (dl_head (flushed (b, dn) d) k) (map_of (cs_commit_at st') k)
            (map_of (cs_flush_floor st') k) (map_of (cs_blocked st') k) {i. dl_log (flushed (b, dn) d) k i \<noteq> None}
            {i. (k, i) \<in> dl_pend (flushed (b, dn) d)} {i. (k, i) \<in> dl_done (flushed (b, dn) d)} (x k)"
          using key_inv_lost [OF inv b' p'] r(1) pts(2) c' by simp
      qed (use dl_inv_fields [OF assms(1)] pts dist in simp_all)
      moreover have "map_of (cs_blocked st') k \<noteq> None" if "map_of (cs_blocked st) k \<noteq> None" for k
        using that unfolding pts rolled_back_blocked [OF d0(1)] by auto
      moreover have "sought dn (dl_pos d) k = dl_pos d k" if "map_of (cs_blocked st') k = None" for k
        using sought_cases [of dn "dl_pos d" k] rw that unfolding pts map_of_eq_None_iff by force
      moreover have "cs_committed st' = cs_committed st" by (rule pts(5))
      ultimately show ?thesis using r(1) by simp
    qed
  qed
  then show "dl_inv w start x st' (flushed (b, dn) d)" and "map_of (cs_blocked st) k \<noteq> None \<Longrightarrow> map_of (cs_blocked st') k \<noteq> None"
    and "map_of (cs_blocked st') k = None \<Longrightarrow> dl_pos (flushed (b, dn) d) k = dl_pos d k"
    and "b \<Longrightarrow> dn = []" and "cs_committed st' = cs_committed st" by blast+
qed

text \<open>Handling a record: the flushes its handler asked for, then the note of its offset.\<close>

lemma dl_inv_env: "dl_inv w start x (st\<lparr>cs_env := e\<rparr>) d = dl_inv w start x st d"
  by (rule dl_inv_points) (simp add: same_points_def)

lemma fold_flushed_fields [simp]: "dl_log (fold flushed fs d) = dl_log d" "dl_head (fold flushed fs d) = dl_head d" "dl_offered (fold flushed fs d) = dl_offered d"
  by (induction fs arbitrary: d) simp_all

lemma fold_flushed_done: "dl_done d \<subseteq> dl_done (fold flushed fs d)"
proof (induction fs arbitrary: d)
  case (Cons f fs)
  have "dl_done d \<subseteq> dl_done (flushed f d)" by simp
  then show ?case using Cons.IH [of "flushed f d"] by simp
qed simp

lemma run_handling_inv:
  assumes "run_handling w seeks now h st = (ok, fs, st')" and "dl_inv w start x st d"
  shows "dl_inv w start x st' (fold flushed fs d) \<and> (map_of (cs_blocked st) k \<noteq> None \<longrightarrow> map_of (cs_blocked st') k \<noteq> None) \<and>
    (map_of (cs_blocked st') k = None \<longrightarrow> dl_pos (fold flushed fs d) k = dl_pos d k) \<and> cs_committed st' = cs_committed st"
  using assms
proof (induction h arbitrary: ok fs st st' d)
  case (Finished ok' e)
  then show ?case by (auto simp: dl_inv_env)
next
  case (Discard reason h)
  have "run_handling w seeks now h (note_discard now reason st) = (ok, fs, st')" using Discard.prems(1) by simp
  moreover have "dl_inv w start x (note_discard now reason st) d" using Discard.prems(2) by (simp add: dl_inv_points [OF same_points_bump] note_discard_def)
  ultimately show ?case using Discard.IH by (fastforce simp: note_discard_def)
next
  case (AskFlush e f)
  obtain b dn st1 where fl: "flush_writes w seeks now (st\<lparr>cs_env := e\<rparr>) = (b, dn, st1)" by (metis prod_cases3)
  obtain ok1 fs1 st2 where r: "run_handling w seeks now (f b (cs_env st1)) st1 = (ok1, fs1, st2)" by (metis prod_cases3)
  have out: "ok = ok1" "fs = (b, dn) # fs1" "st' = st2" using AskFlush.prems(1) fl r by auto
  have i0: "dl_inv w start x (st\<lparr>cs_env := e\<rparr>) d" using AskFlush.prems(2) by (simp add: dl_inv_env)
  note fi = flush_writes_inv [OF i0 fl]
  have "f b \<in> range f" "f b (cs_env st1) \<in> range (f b)" by simp_all
  note IH = AskFlush.IH [OF this r fi(1)]
  have "map_of (cs_blocked st2) k = None \<Longrightarrow> dl_pos (flushed (b, dn) d) k = dl_pos d k" using IH fi(3) [of k] by (cases "map_of (cs_blocked st1) k") auto
  then show ?case using IH fi(2) [of k] fi(5) out by simp
next
  case (AskBlocked f)
  have "run_handling w seeks now (f (blocked_topics st)) st = (ok, fs, st')" using AskBlocked.prems(1) by simp
  then show ?case using AskBlocked.IH [OF rangeI _ AskBlocked.prems(2)] by blast
qed

text \<open>A handler that ends cleanly has seen no flush fail, so the client is where it was.\<close>

lemma ends_raising_run: "ends_raising h \<Longrightarrow> run_handling w seeks now h st = (ok, fs, st') \<Longrightarrow> \<not> ok"
proof (induction h arbitrary: ok fs st st')
  case (AskFlush e f)
  obtain b dn st1 where fl: "flush_writes w seeks now (st\<lparr>cs_env := e\<rparr>) = (b, dn, st1)" by (metis prod_cases3)
  obtain ok1 fs1 st2 where r: "run_handling w seeks now (f b (cs_env st1)) st1 = (ok1, fs1, st2)" by (metis prod_cases3)
  have "f b \<in> range f" "f b (cs_env st1) \<in> range (f b)" by simp_all
  from AskFlush.IH [OF this _ r] show ?case using AskFlush.prems fl r by auto
next
  case (AskBlocked f)
  then show ?case using AskBlocked.IH [OF rangeI] by (metis ends_raising.simps(4) run_handling.simps(4))
qed auto

lemma heeds_run:
  "heeds h \<Longrightarrow> run_handling w seeks now h st = (True, fs, st') \<Longrightarrow> dl_pos (fold flushed fs d) = dl_pos d"
proof (induction h arbitrary: fs st st' d)
  case (AskFlush e f)
  obtain b dn st1 where fl: "flush_writes w seeks now (st\<lparr>cs_env := e\<rparr>) = (b, dn, st1)" by (metis prod_cases3)
  obtain ok1 fs1 st2 where r: "run_handling w seeks now (f b (cs_env st1)) st1 = (ok1, fs1, st2)" by (metis prod_cases3)
  have out: "ok1" "fs = (b, dn) # fs1" using AskFlush.prems(2) fl r by auto
  have b: "b"
  proof (rule ccontr)
    assume "\<not> b"
    then show False using ends_raising_run [OF _ r] AskFlush.prems(1) out(1) by (cases b) auto
  qed
  then have "dn = []" using fl by (auto simp: flush_writes_def split: option.splits prod.splits bool.splits)
  moreover have "heeds (f True (cs_env st1))" using AskFlush.prems(1) by simp
  moreover have "f True \<in> range f" "f True (cs_env st1) \<in> range (f True)" by simp_all
  ultimately show ?case using AskFlush.IH [of "f True" "f True (cs_env st1)"] r b out by (simp add: sought_def)
next
  case (AskBlocked f)
  then show ?case using AskBlocked.IH [OF rangeI] by (metis heeds.simps(4) run_handling.simps(4))
qed auto

lemma classify_handler: "heeding w \<Longrightarrow> classify w msg = Inr (l, run, p, h) \<Longrightarrow> heeds (h run p e)"
  unfolding heeding_def by (auto simp: classify_def split: option.splits if_splits pyval.splits)

lemma route_inv:
  assumes "heeding w" and "route w seeks now msg st = ((ok, committable), fs, st')" and "dl_inv w start x st d"
  shows "dl_inv w start x st' (fold flushed fs d)" and "committable \<Longrightarrow> dl_pos (fold flushed fs d) = dl_pos d"
    and "map_of (cs_blocked st') k = None \<Longrightarrow> dl_pos (fold flushed fs d) k = dl_pos d k" and "cs_committed st' = cs_committed st"
proof -
  have "dl_inv w start x st' (fold flushed fs d) \<and> (committable \<longrightarrow> dl_pos (fold flushed fs d) = dl_pos d) \<and>
    (map_of (cs_blocked st') k = None \<longrightarrow> dl_pos (fold flushed fs d) k = dl_pos d k) \<and> cs_committed st' = cs_committed st" for k
  proof (cases "classify w msg")
    case (Inl reason)
    then show ?thesis using assms(2,3) by (auto simp: route_def dl_inv_points [OF same_points_bump])
  next
    case (Inr q)
    obtain logical run payload h where q: "q = (logical, run, payload, h)" by (metis prod_cases4)
    let ?st1 = "st\<lparr>cs_counts := AList.update ''messages'' (get_or 0 (cs_counts st) ''messages'' + 1) (cs_counts st),
                        cs_by_topic := AList.update logical (get_or 0 (cs_by_topic st) logical + 1) (cs_by_topic st), cs_last_message_at := Some now\<rparr>"
    obtain ok1 fs1 st2 where r: "run_handling w seeks now (h run payload (cs_env ?st1)) ?st1 = (ok1, fs1, st2)" by (metis prod_cases3)
    have out: "committable = ok1" "fs = fs1" "st' = (if ok1 then st2 else bump_count now ''handler_errors'' False st2)"
      using assms(2) Inr q r by (auto simp: route_def Let_def split: bool.splits)
    have "same_points st ?st1" by (simp add: same_points_def)
    from dl_inv_points [OF this] have i1: "dl_inv w start x ?st1 d" using assms(3) by blast
    note ri = run_handling_inv [OF r i1, of k]
    have "dl_inv w start x st' (fold flushed fs d)" unfolding out using ri by (simp add: dl_inv_points [OF same_points_bump])
    moreover have "committable \<longrightarrow> dl_pos (fold flushed fs d) = dl_pos d"
      using heeds_run [OF classify_handler [OF assms(1) Inr [unfolded q]]] r unfolding out by auto
    ultimately show ?thesis using ri unfolding out by auto
  qed
  then show "dl_inv w start x st' (fold flushed fs d)" and "committable \<Longrightarrow> dl_pos (fold flushed fs d) = dl_pos d"
    and "map_of (cs_blocked st') k = None \<Longrightarrow> dl_pos (fold flushed fs d) k = dl_pos d k" and "cs_committed st' = cs_committed st" by blast+
qed

lemma taken_fields [simp]: "dl_log (taken w k off c d) = dl_log d" "dl_head (taken w k off c d) = dl_head d" "dl_pos (taken w k off c d) = dl_pos d"
  "dl_offered (taken w k off c d) = dl_offered d"
  by (simp_all add: taken_def)

definition well_logged :: "'e delivery \<Rightarrow> bool" where
  "well_logged d \<longleftrightarrow> (\<forall>key off msg. dl_log d key off = Some msg \<longrightarrow> coords msg = Some (key, off) \<and> ms_error msg = None)"

lemma deliver_inv:
  assumes "heeding w" and "dl_inv w start (\<lambda>k. {}) (dl_state d) d" and "dl_log d key off = Some msg" and "coords msg = Some (key, off)" and "ms_error msg = None"
    and "dl_pos d key \<le> off" and "\<forall>i. dl_pos d key \<le> i \<and> i < off \<longrightarrow> dl_log d key i = None"
    and "handle_message w seeks now msg (dl_state d) = ((ok, committable), fs, st)"
  shows "dl_inv w start (\<lambda>k. {}) st (taken w key off committable (fold flushed fs (d\<lparr>dl_pos := (dl_pos d)(key := off + 1)\<rparr>)))"
    and "cs_committed st = cs_committed (dl_state d)"
proof -
  let ?x = "\<lambda>k. if k = key then {off} else {}"
  let ?d1 = "d\<lparr>dl_pos := (dl_pos d)(key := off + 1)\<rparr>"
  let ?d2 = "fold flushed fs ?d1"
  note inv = dl_inv_key [OF assms(2)]
  obtain st1 where r: "route w seeks now msg (dl_state d) = ((ok, committable), fs, st1)" and st: "st = note_offset now (key, off) committable st1"
    using assms(4,5,8) by (auto simp: handle_message_def split: prod.splits)
  have i1: "dl_inv w start ?x (dl_state d) ?d1"
  proof (rule dl_invI)
    show "key_inv (defers w k) (start k) (dl_pos ?d1 k) (dl_head ?d1 k) (map_of (cs_commit_at (dl_state d)) k) (map_of (cs_flush_floor (dl_state d)) k)
        (map_of (cs_blocked (dl_state d)) k) {i. dl_log ?d1 k i \<noteq> None} {i. (k, i) \<in> dl_pend ?d1} {i. (k, i) \<in> dl_done ?d1} (?x k)" for k
    proof (cases "k = key")
      case True
      have "\<forall>i \<in> {i. dl_log d key i \<noteq> None}. dl_pos d key \<le> i \<longrightarrow> off \<le> i" using assms(7) by (metis mem_Collect_eq not_le_imp_less)
      then show ?thesis using key_inv_read [OF inv [of key] _ assms(6)] assms(3) True by simp
    next
      case False
      then show ?thesis using inv [of k] by simp
    qed
  qed (use dl_inv_fields [OF assms(2)] in simp_all)
  note ro = route_inv [OF assms(1) r i1]
  note i2 = dl_inv_key [OF ro(1)]
  show "dl_inv w start (\<lambda>k. {}) st (taken w key off committable ?d2)"
  proof (rule dl_invI)
    fix k
    let ?t = "taken w key off committable ?d2"
    show "key_inv (defers w k) (start k) (dl_pos ?t k) (dl_head ?t k) (map_of (cs_commit_at st) k) (map_of (cs_flush_floor st) k)
        (map_of (cs_blocked st) k) {i. dl_log ?t k i \<noteq> None} {i. (k, i) \<in> dl_pend ?t} {i. (k, i) \<in> dl_done ?t} {}"
    proof (cases "k = key")
      case True
      have low: "start key \<le> off" using inv [of key] assms(6) by (simp add: key_inv_def)
      have p: "committable \<or> map_of (cs_blocked st1) key = None \<longrightarrow> dl_pos ?d2 key = off + 1" using ro(2) ro(3) [of key] by auto
      have pend: "{i. (key, i) \<in> dl_pend ?t} = (if committable \<and> defers w key then insert off {i. (key, i) \<in> dl_pend ?d2} else {i. (key, i) \<in> dl_pend ?d2})"
        by (auto simp: taken_def)
      have don: "{i. (key, i) \<in> dl_done ?t} = (if committable \<and> \<not> defers w key then insert off {i. (key, i) \<in> dl_done ?d2} else {i. (key, i) \<in> dl_done ?d2})"
        by (auto simp: taken_def)
      have k2: "key_inv (defers w key) (start key) (dl_pos ?d2 key) (dl_head ?d2 key) (map_of (cs_commit_at st1) key) (map_of (cs_flush_floor st1) key)
          (map_of (cs_blocked st1) key) {i. dl_log ?d2 key i \<noteq> None} {i. (key, i) \<in> dl_pend ?d2} {i. (key, i) \<in> dl_done ?d2} {off}"
        using i2 [of key] by simp
      have mem: "off \<in> {i. dl_log ?d2 key i \<noteq> None}" using assms(3) by simp
      note n = key_inv_note [OF k2 mem low p refl refl refl refl]
      show ?thesis unfolding True st note_offset_commit note_offset_blocked note_offset_floor pend don get_or_def using n by simp
    next
      case False
      have "{i. (k, i) \<in> dl_pend ?t} = {i. (k, i) \<in> dl_pend ?d2}" "{i. (k, i) \<in> dl_done ?t} = {i. (k, i) \<in> dl_done ?d2}"
        using False by (auto simp: taken_def)
      then show ?thesis using i2 [of k] False unfolding st by (simp add: note_offset_commit note_offset_blocked note_offset_floor)
    qed
  qed (use dl_inv_fields [OF ro(1)] in \<open>simp_all add: st note_offset_distinct\<close>)
  have "cs_committed (note_offset now c b st1) = cs_committed st1" for c b
    by (cases c) (simp add: note_offset_def Let_def follow_down_def see_offset_def)
  then show "cs_committed st = cs_committed (dl_state d)" using ro(4) st by simp
qed

text \<open>A commit offers what is below the points, and after its flush nothing is pending.\<close>

definition offer_ok :: "(partition_key \<Rightarrow> int) \<Rightarrow> 'e delivery \<Rightarrow> bool" where
  "offer_ok start d \<longleftrightarrow> (\<forall>(key, c) \<in> dl_offered d. c \<le> dl_head d key \<and> (\<forall>i. dl_log d key i \<noteq> None \<longrightarrow> start key \<le> i \<longrightarrow> i < c \<longrightarrow> (key, i) \<in> dl_done d)) \<and>
     (\<forall>key c. map_of (cs_committed (dl_state d)) key = Some c \<longrightarrow> (key, c) \<in> dl_offered d)"

lemma offer_okD: "offer_ok start d \<Longrightarrow> map_of (cs_committed (dl_state d)) key = Some c \<Longrightarrow> (key, c) \<in> dl_offered d"
  "offer_ok start d \<Longrightarrow> (key, c) \<in> dl_offered d \<Longrightarrow> c \<le> dl_head d key"
  "offer_ok start d \<Longrightarrow> (key, c) \<in> dl_offered d \<Longrightarrow> dl_log d key i \<noteq> None \<Longrightarrow> start key \<le> i \<Longrightarrow> i < c \<Longrightarrow> (key, i) \<in> dl_done d"
  unfolding offer_ok_def by blast+

lemma offer_okI:
  assumes "\<And>key c. (key, c) \<in> dl_offered d \<Longrightarrow>
      c \<le> dl_head d key \<and> (\<forall>i. dl_log d key i \<noteq> None \<longrightarrow> start key \<le> i \<longrightarrow> i < c \<longrightarrow> (key, i) \<in> dl_done d)"
    and "\<And>key c. map_of (cs_committed (dl_state d)) key = Some c \<Longrightarrow> (key, c) \<in> dl_offered d"
  shows "offer_ok start d"
  unfolding offer_ok_def using assms by blast

lemma offer_ok_step:
  assumes "offer_ok start d" and "dl_offered d' = dl_offered d" and "cs_committed (dl_state d') = cs_committed (dl_state d)" and "dl_done d \<subseteq> dl_done d'"
    and "\<And>key. dl_head d key \<le> dl_head d' key" and "\<And>key i. dl_log d' key i \<noteq> None \<Longrightarrow> dl_log d key i = None \<Longrightarrow> dl_head d key \<le> i"
  shows "offer_ok start d'"
proof -
  have "c \<le> dl_head d' key \<and> (\<forall>i. dl_log d' key i \<noteq> None \<longrightarrow> start key \<le> i \<longrightarrow> i < c \<longrightarrow> (key, i) \<in> dl_done d')" if "(key, c) \<in> dl_offered d" for key c
  proof (intro conjI allI impI)
    show "c \<le> dl_head d' key" using offer_okD(2) [OF assms(1) that] assms(5) [of key] by linarith
    show "(key, i) \<in> dl_done d'" if i: "dl_log d' key i \<noteq> None" "start key \<le> i" "i < c" for i
    proof (cases "dl_log d key i = None")
      case True
      then show ?thesis using assms(6) [OF i(1) True] offer_okD(2) [OF assms(1) \<open>(key, c) \<in> dl_offered d\<close>] i(3) by linarith
    next
      case False
      then show ?thesis using offer_okD(3) [OF assms(1) \<open>(key, c) \<in> dl_offered d\<close> False i(2,3)] assms(4) by blast
    qed
  qed
  then show ?thesis unfolding offer_ok_def assms(2,3) using offer_okD(1) [OF assms(1)] by blast
qed

lemma safe_offsets_in: "(key, c) \<in> set (safe_offsets st) \<Longrightarrow> (key, c) \<in> set (cs_commit_at st)"
  by (simp add: safe_offsets_def)

lemma fold_update_in: "map_of (fold (\<lambda>(key, off). AList.update key off) xs m) k = Some v \<Longrightarrow> (k, v) \<in> set xs \<or> map_of m k = Some v"
  by (induction xs arbitrary: m) (fastforce simp: update_conv' split: if_splits)+

lemma commit_safe_inv:
  assumes "commit_safe w seeks accepts now force (dl_state d) = ((b, call), f, st)" and "dl_inv w start (\<lambda>k. {}) (dl_state d) d" and "offer_ok start d"
  shows "dl_inv w start (\<lambda>k. {}) st (flushed f d)" and "offer_ok start ((flushed f d)\<lparr>dl_state := st, dl_offered := dl_offered d \<union> offers call d\<rparr>)"
    and "call \<noteq> CommitBlind"
proof -
  obtain b1 dn st1 where fl: "flush_writes w seeks now (dl_state d) = (b1, dn, st1)" by (metis prod_cases3)
  note fi = flush_writes_inv [OF assms(2) fl]
  have f: "f = (b1, dn)" using assms(1) fl by (auto simp: commit_safe_def Let_def split: bool.splits if_splits)
  have un: "cs_untracked st1 = 0" by (rule dl_inv_fields(3) [OF fi(1)])
  have st: "same_points (st\<lparr>cs_committed := cs_committed st1, cs_untracked := cs_untracked st1\<rparr>) st1" and call: "call = NoCommit \<or> b1 \<and> call = CommitOffsets (safe_offsets st1)"
      and com: "cs_committed st = cs_committed st1 \<or> call = CommitOffsets (safe_offsets st1) \<and> cs_committed st = fold (\<lambda>(key, off). AList.update key off) (safe_offsets st1) (cs_committed st1)"
      and un': "cs_untracked st = 0"
    using assms(1) fl un by (auto simp: commit_safe_def Let_def same_points_def split: bool.splits if_splits)
  show "call \<noteq> CommitBlind" using call by auto
  have eqs: "cs_commit_at st = cs_commit_at st1" "cs_flush_floor st = cs_flush_floor st1" "cs_blocked st = cs_blocked st1"
    using st by (simp_all add: same_points_def)
  show "dl_inv w start (\<lambda>k. {}) st (flushed f d)" using fi(1) un un' unfolding dl_inv_def eqs f by simp
  have new: "c \<le> dl_head d key \<and> (\<forall>i. dl_log d key i \<noteq> None \<longrightarrow> start key \<le> i \<longrightarrow> i < c \<longrightarrow> (key, i) \<in> dl_done (flushed f d))"
    if "b1" "(key, c) \<in> set (safe_offsets st1)" for key c
  proof -
    have "map_of (cs_commit_at st1) key = Some c" using safe_offsets_in [OF that(2)] dl_inv_fields(1) [OF fi(1)] by simp
    then show ?thesis using dl_inv_key [OF fi(1), of key] that(1) unfolding f by (simp add: key_inv_Some)
  qed
  have old: "c \<le> dl_head d key \<and> (\<forall>i. dl_log d key i \<noteq> None \<longrightarrow> start key \<le> i \<longrightarrow> i < c \<longrightarrow> (key, i) \<in> dl_done (flushed f d))"
    if "(key, c) \<in> dl_offered d" for key c
    using offer_okD(2,3) [OF assms(3) that] by simp
  have committed: "(key, c) \<in> dl_offered d \<union> offers call d" if "map_of (cs_committed st) key = Some c" for key c
    using com
  proof
    assume "cs_committed st = cs_committed st1"
    then show ?thesis using that offer_okD(1) [OF assms(3), of key c] fi(5) by simp
  next
    assume c: "call = CommitOffsets (safe_offsets st1) \<and> cs_committed st = fold (\<lambda>(key, off). AList.update key off) (safe_offsets st1) (cs_committed st1)"
    then have "(key, c) \<in> set (safe_offsets st1) \<or> map_of (cs_committed st1) key = Some c" using fold_update_in that by metis
    then show ?thesis using c offer_okD(1) [OF assms(3), of key c] fi(5) by (auto simp: offers_def)
  qed
  show "offer_ok start ((flushed f d)\<lparr>dl_state := st, dl_offered := dl_offered d \<union> offers call d\<rparr>)"
  proof (rule offer_okI)
    fix key c
    assume "(key, c) \<in> dl_offered ((flushed f d)\<lparr>dl_state := st, dl_offered := dl_offered d \<union> offers call d\<rparr>)"
    then consider "(key, c) \<in> dl_offered d" | "b1" "(key, c) \<in> set (safe_offsets st1)" using call by (auto simp: offers_def)
    then have "c \<le> dl_head d key \<and> (\<forall>i. dl_log d key i \<noteq> None \<longrightarrow> start key \<le> i \<longrightarrow> i < c \<longrightarrow> (key, i) \<in> dl_done (flushed f d))"
      using old new by cases blast+
    then show "c \<le> dl_head ((flushed f d)\<lparr>dl_state := st, dl_offered := dl_offered d \<union> offers call d\<rparr>) key \<and>
        (\<forall>i. dl_log ((flushed f d)\<lparr>dl_state := st, dl_offered := dl_offered d \<union> offers call d\<rparr>) key i \<noteq> None \<longrightarrow> start key \<le> i \<longrightarrow> i < c \<longrightarrow>
          (key, i) \<in> dl_done ((flushed f d)\<lparr>dl_state := st, dl_offered := dl_offered d \<union> offers call d\<rparr>))"
      by simp
  qed (use committed in simp)
qed

text \<open>The steps that leave the consumer alone.\<close>

lemma dl_inv_step:
  assumes "dl_inv w start (\<lambda>k. {}) st d" and "cs_commit_at st' = cs_commit_at st" "cs_flush_floor st' = cs_flush_floor st" "cs_blocked st' = cs_blocked st"
      "cs_untracked st' = cs_untracked st" and "dl_pend d' = dl_pend d" "dl_done d' = dl_done d"
    and "\<And>k. key_inv (defers w k) (start k) (dl_pos d k) (dl_head d k) (map_of (cs_commit_at st) k) (map_of (cs_flush_floor st) k)
      (map_of (cs_blocked st) k) {i. dl_log d k i \<noteq> None} {i. (k, i) \<in> dl_pend d} {i. (k, i) \<in> dl_done d} {} \<Longrightarrow>
      key_inv (defers w k) (start k) (dl_pos d' k) (dl_head d' k) (map_of (cs_commit_at st) k) (map_of (cs_flush_floor st) k)
      (map_of (cs_blocked st) k) {i. dl_log d' k i \<noteq> None} {i. (k, i) \<in> dl_pend d} {i. (k, i) \<in> dl_done d} {}"
  shows "dl_inv w start (\<lambda>k. {}) st' d'"
  using assms(8) [OF dl_inv_key [OF assms(1)]] dl_inv_fields [OF assms(1)] by (intro dl_invI) (simp_all add: assms(2-7))

lemma delivers_inv:
  assumes "delivers w start d d'" and "heeding w" and "well_logged d" and "dl_inv w start (\<lambda>k. {}) (dl_state d) d" and "offer_ok start d"
  shows "well_logged d' \<and> dl_inv w start (\<lambda>k. {}) (dl_state d') d' \<and> offer_ok start d'"
  using assms(1)
proof cases
  case (produce msg key)
  let ?h = "dl_head d key"
  have top: "{i. dl_log d' key i \<noteq> None} = insert ?h {i. dl_log d key i \<noteq> None}" using produce(1) by auto
  have "dl_inv w start (\<lambda>k. {}) (dl_state d') d'"
  proof (rule dl_inv_step [OF assms(4)])
    show "key_inv (defers w k) (start k) (dl_pos d' k) (dl_head d' k) (map_of (cs_commit_at (dl_state d)) k) (map_of (cs_flush_floor (dl_state d)) k)
      (map_of (cs_blocked (dl_state d)) k) {i. dl_log d' k i \<noteq> None} {i. (k, i) \<in> dl_pend d} {i. (k, i) \<in> dl_done d} {}"
      if "key_inv (defers w k) (start k) (dl_pos d k) (dl_head d k) (map_of (cs_commit_at (dl_state d)) k) (map_of (cs_flush_floor (dl_state d)) k)
      (map_of (cs_blocked (dl_state d)) k) {i. dl_log d k i \<noteq> None} {i. (k, i) \<in> dl_pend d} {i. (k, i) \<in> dl_done d} {}" for k
    proof (cases "k = key")
      case True
      have "dl_pos d' key = dl_pos d key" "dl_head d' key = ?h + 1" using produce(1) by simp_all
      then show ?thesis using key_inv_produce [OF that] top unfolding True by (simp only:)
    qed (use that produce(1) in simp)
  qed (use produce(1) in simp_all)
  moreover have "well_logged d'" using assms(3) produce by (auto simp: well_logged_def)
  moreover have "offer_ok start d'" by (rule offer_ok_step [OF assms(5)]) (auto simp: produce(1) split: if_splits)
  ultimately show ?thesis by blast
next
  case (compact key off)
  have sub: "{i. dl_log d' k i \<noteq> None} \<subseteq> {i. dl_log d k i \<noteq> None}" for k using compact by auto
  have "dl_inv w start (\<lambda>k. {}) (dl_state d') d'"
    by (rule dl_inv_step [OF assms(4)]) (use compact key_inv_log [OF _ sub] in simp_all)
  moreover have "well_logged d'" using assms(3) compact by (auto simp: well_logged_def split: if_splits)
  moreover have "offer_ok start d'" by (rule offer_ok_step [OF assms(5)]) (auto simp: compact split: if_splits)
  ultimately show ?thesis by blast
next
  case (deliver key off msg seeks now ok committable fs st)
  have m: "coords msg = Some (key, off)" "ms_error msg = None" using assms(3) deliver(2) unfolding well_logged_def by blast+
  note di = deliver_inv [OF assms(2,4) deliver(2) m deliver(3-5)]
  from fold_flushed_done [of "d\<lparr>dl_pos := (dl_pos d)(key := off + 1)\<rparr>" fs] have "dl_done d \<subseteq> dl_done d'" unfolding deliver(1) by (auto simp: taken_def)
  then have "offer_ok start d'" by (intro offer_ok_step [OF assms(5)]) (simp_all add: deliver(1) di(2))
  moreover have "dl_inv w start (\<lambda>k. {}) (dl_state d') d'" using di(1) unfolding deliver(1) dl_inv_def by simp
  moreover have "well_logged d'" using assms(3) unfolding deliver(1) by (simp add: well_logged_def)
  ultimately show ?thesis by blast
next
  case (event msg e seeks now r fs st)
  have "same_points (dl_state d) st" using event(2,3) by (cases e) (auto simp: handle_message_def same_points_def)
  then show ?thesis using assms(3-5) event(1) by (simp add: well_logged_def offer_ok_def dl_inv_def same_points_def)
next
  case (commit seeks accepts now force b call f st)
  note ci = commit_safe_inv [OF commit(2) assms(4,5)]
  then show ?thesis using assms(3) commit(1) by (simp add: well_logged_def dl_inv_def)
next
  case (rewind seeks now dn st)
  note rw = rewind_blocked_points [OF rewind(2)]
  have st: "cs_commit_at st = cs_commit_at (dl_state d)" "cs_flush_floor st = cs_flush_floor (dl_state d)" "cs_blocked st = cs_blocked (dl_state d)"
      "cs_untracked st = cs_untracked (dl_state d)" "cs_committed st = cs_committed (dl_state d)" using rw by (simp_all add: same_points_def)
  have "dl_inv w start (\<lambda>k. {}) (dl_state d') d'"
  proof (rule dl_inv_step [OF assms(4)])
    fix k
    assume inv: "key_inv (defers w k) (start k) (dl_pos d k) (dl_head d k) (map_of (cs_commit_at (dl_state d)) k) (map_of (cs_flush_floor (dl_state d)) k)
      (map_of (cs_blocked (dl_state d)) k) {i. dl_log d k i \<noteq> None} {i. (k, i) \<in> dl_pend d} {i. (k, i) \<in> dl_done d} {}"
    have "sought dn (dl_pos d) k = dl_pos d k \<or> map_of (cs_blocked (dl_state d)) k = Some (sought dn (dl_pos d) k)"
      using sought_cases [of dn "dl_pos d" k] rw dl_inv_fields(2) [OF assms(4)] by auto
    then show "key_inv (defers w k) (start k) (dl_pos d' k) (dl_head d' k) (map_of (cs_commit_at (dl_state d)) k) (map_of (cs_flush_floor (dl_state d)) k)
      (map_of (cs_blocked (dl_state d)) k) {i. dl_log d' k i \<noteq> None} {i. (k, i) \<in> dl_pend d} {i. (k, i) \<in> dl_done d} {}"
      using inv unfolding rewind(1) by (cases "map_of (cs_commit_at (dl_state d)) k") (auto simp: key_inv_None key_inv_Some)
  qed (simp_all add: rewind(1) st)
  then show ?thesis using assms(3,5) st(5) unfolding rewind(1) by (simp add: well_logged_def offer_ok_def)
next
  case (subscribe subscribes b st)
  have "same_points (dl_state d) st" using subscribe(2) by (auto simp: ensure_consumer_def same_points_def split: if_splits)
  then show ?thesis using assms(3-5) subscribe(1) by (simp add: well_logged_def offer_ok_def dl_inv_def same_points_def)
next
  case (rebalance pos)
  have "dl_inv w start (\<lambda>k. {}) (dl_state d') d'"
  proof (rule dl_inv_step [OF assms(4)])
    show "key_inv (defers w k) (start k) (dl_pos d' k) (dl_head d' k) (map_of (cs_commit_at (dl_state d)) k) (map_of (cs_flush_floor (dl_state d)) k)
      (map_of (cs_blocked (dl_state d)) k) {i. dl_log d' k i \<noteq> None} {i. (k, i) \<in> dl_pend d} {i. (k, i) \<in> dl_done d} {}"
      if "key_inv (defers w k) (start k) (dl_pos d k) (dl_head d k) (map_of (cs_commit_at (dl_state d)) k) (map_of (cs_flush_floor (dl_state d)) k)
      (map_of (cs_blocked (dl_state d)) k) {i. dl_log d k i \<noteq> None} {i. (k, i) \<in> dl_pend d} {i. (k, i) \<in> dl_done d} {}" for k
      using key_inv_rebalance [OF that, of "pos k"] rebalance(2) unfolding rebalance(1) by simp
  qed (simp_all add: rebalance(1))
  then show ?thesis using assms(3,5) rebalance(1) by (simp add: well_logged_def offer_ok_def)
qed

lemma delivery_ok:
  assumes "heeding w" and "starts start d0" and "(delivers w start)\<^sup>*\<^sup>* d0 d"
  shows "well_logged d \<and> dl_inv w start (\<lambda>k. {}) (dl_state d) d \<and> offer_ok start d"
  using assms(3)
proof induction
  case base
  have "key_inv (defers w k) (start k) (start k) (dl_head d0 k) None None None {i. dl_log d0 k i \<noteq> None} {} {} {}" for k
    using assms(2) unfolding starts_def key_inv_None by blast
  then show ?case using assms(2) unfolding starts_def dl_inv_def well_logged_def offer_ok_def by (auto simp: new_consumer_def)
next
  case (step d1 d2)
  then show ?case using delivers_inv [OF step(2) assms(1)] by blast
qed

text \<open>
  C16. An offset is committed only over records that have reached the store or were thrown away: whatever sequence of records, failing handlers, lost
  flushes, refused commits, rewinds, rebalances, new records and compactions a consumer goes through, no record from the position it started at up to
  an offset it ever offered to the broker is unwritten, as long as the handlers heed a failed flush.
\<close>

theorem commits_only_durable:
  assumes "heeding w" and "starts start d0" and "(delivers w start)\<^sup>*\<^sup>* d0 d"
    and "(key, c) \<in> dl_offered d \<or> map_of (cs_committed (dl_state d)) key = Some c"
    and "dl_log d key off \<noteq> None" and "start key \<le> off" and "off < c"
  shows "(key, off) \<in> dl_done d"
  using delivery_ok [OF assms(1-3)] offer_okD(1,3) assms(4-7) by blast

section \<open>Blocked partitions\<close>

declare map_of_eq_Some_iff [simp del] Some_eq_map_of_iff [simp del]

text \<open>A partition whose blocked record lies above its commit point, with the client at or past that record.\<close>

definition wedged :: "partition_key \<Rightarrow> int \<Rightarrow> int \<Rightarrow> 'e consumer \<Rightarrow> 'e delivery \<Rightarrow> bool" where
  "wedged key c b st d \<longleftrightarrow> distinct (map fst (cs_commit_at st)) \<and> distinct (map fst (cs_blocked st)) \<and> map_of (cs_blocked st) key = Some b \<and>
     (\<exists>n \<le> c. map_of (cs_commit_at st) key = Some n) \<and> c < b \<and> b \<le> dl_pos d key"

lemma wedged_points:
  assumes "wedged key c b st d" and "cs_commit_at st' = cs_commit_at st" and "cs_blocked st' = cs_blocked st" and "b \<le> dl_pos d' key"
  shows "wedged key c b st' d'"
  using assms by (simp add: wedged_def)

lemma wedged_sought:
  assumes "wedged key c b st d" and "set dn \<subseteq> set (cs_blocked st)" shows "b \<le> sought dn (dl_pos d) key"
proof -
  have "(key, i) \<in> set (cs_blocked st) \<Longrightarrow> i = b" for i using assms(1) map_of_is_SomeI unfolding wedged_def by fastforce
  then show ?thesis using sought_cases [of dn "dl_pos d" key] assms unfolding wedged_def by auto
qed

lemma wedged_flush:
  assumes "wedged key c b st d" and "flush_writes w seeks now st = (ok, dn, st')" shows "wedged key c b st' (flushed (ok, dn) d)"
proof (cases "wi_flush w")
  case None
  then have "ok" "dn = []" "st' = st" using assms(2) by (simp_all add: flush_writes_def)
  then show ?thesis using assms(1) by (simp add: wedged_def sought_def)
next
  case (Some flush)
  obtain r e where f: "flush (cs_env st) = (r, e)" by fastforce
  show ?thesis
  proof (cases r)
    case True
    then show ?thesis using assms Some f by (auto simp: flush_writes_def sought_def wedged_def)
  next
    case False
    let ?s0 = "bump_count now ''handler_errors'' False (st\<lparr>cs_env := e\<rparr>)"
    let ?s1 = "rolled_back w ?s0"
    have rw: "rewind_blocked seeks now ?s1 = (dn, st')" using assms(2) Some f False by (auto simp: flush_writes_def split: prod.splits)
    note pts = rewind_blocked_points [OF rw]
    have d0: "distinct (map fst (cs_commit_at ?s0))" "distinct (map fst (cs_blocked ?s0))" using assms(1) by (simp_all add: wedged_def)
    obtain n where n: "n \<le> c" "map_of (cs_commit_at st) key = Some n" using assms(1) by (auto simp: wedged_def)
    have "(if rolls_back w ?s0 key n then get_or n (cs_flush_floor ?s0) key else n) \<le> c" using n(1) by (simp add: rolls_back_def)
    then have "\<exists>n \<le> c. map_of (cs_commit_at ?s1) key = Some n" using n(2) by (simp add: rolled_back_commit)
    moreover have "map_of (cs_blocked ?s1) key = Some b" using assms(1) unfolding rolled_back_blocked [OF d0(1)] by (simp add: wedged_def)
    moreover have "distinct (map fst (cs_commit_at ?s1))" "distinct (map fst (cs_blocked ?s1))"
      unfolding rolled_back_distinct(2) using d0 rolled_back_distinct(1) by blast+
    ultimately have w1: "wedged key c b ?s1 d" using assms(1) by (simp add: wedged_def)
    have "b \<le> sought dn (dl_pos d) key" using wedged_sought [OF w1] pts by blast
    moreover have "cs_commit_at st' = cs_commit_at ?s1" "cs_blocked st' = cs_blocked ?s1" using pts by (simp_all add: same_points_def)
    ultimately show ?thesis by (intro wedged_points [OF w1]) simp_all
  qed
qed

lemma wedged_handling:
  "wedged key c b st d \<Longrightarrow> run_handling w seeks now h st = (ok, fs, st') \<Longrightarrow> wedged key c b st' (fold flushed fs d)"
proof (induction h arbitrary: ok fs st st' d)
  case (Finished ok' e)
  then show ?case by (auto simp: wedged_def)
next
  case (Discard reason h)
  have "wedged key c b (note_discard now reason st) d" using Discard.prems(1) by (simp add: wedged_def note_discard_def)
  then show ?case using Discard.IH Discard.prems(2) by simp
next
  case (AskFlush e f)
  obtain r dn st1 where fl: "flush_writes w seeks now (st\<lparr>cs_env := e\<rparr>) = (r, dn, st1)" by (metis prod_cases3)
  obtain ok1 fs1 st2 where ru: "run_handling w seeks now (f r (cs_env st1)) st1 = (ok1, fs1, st2)" by (metis prod_cases3)
  have "wedged key c b (st\<lparr>cs_env := e\<rparr>) d" using AskFlush.prems(1) by (simp add: wedged_def)
  note w1 = wedged_flush [OF this fl]
  have "f r \<in> range f" "f r (cs_env st1) \<in> range (f r)" by simp_all
  from AskFlush.IH [OF this w1 ru] show ?case using AskFlush.prems(2) fl ru by auto
next
  case (AskBlocked f)
  then show ?case using AskBlocked.IH [OF rangeI] by (metis run_handling.simps(4))
qed

lemma wedged_message:
  assumes "wedged key c b st d" and "handle_message w seeks now msg st = ((ok, committable), fs, st')"
    and "\<And>off. coords msg = Some (key, off) \<Longrightarrow> b \<le> off"
  shows "wedged key c b st' (fold flushed fs d)"
proof (cases "ms_error msg")
  case (Some e)
  then show ?thesis using assms by (cases e) (auto simp: handle_message_def wedged_def)
next
  case None
  obtain st1 where r: "route w seeks now msg st = ((ok, committable), fs, st1)"
      and st': "st' = (case coords msg of None \<Rightarrow> st1\<lparr>cs_untracked := cs_untracked st1 + 1\<rparr> | Some c \<Rightarrow> note_offset now c committable st1)"
    using assms(2) None by (auto simp: handle_message_def split: prod.splits)
  have w1: "wedged key c b st1 (fold flushed fs d)"
  proof (cases "classify w msg")
    case (Inl reason)
    then show ?thesis using r assms(1) by (auto simp: route_def wedged_def)
  next
    case (Inr q)
    obtain logical run payload h where q: "q = (logical, run, payload, h)" by (metis prod_cases4)
    let ?st1 = "st\<lparr>cs_counts := AList.update ''messages'' (get_or 0 (cs_counts st) ''messages'' + 1) (cs_counts st),
                        cs_by_topic := AList.update logical (get_or 0 (cs_by_topic st) logical + 1) (cs_by_topic st), cs_last_message_at := Some now\<rparr>"
    obtain ok1 fs1 st2 where h: "run_handling w seeks now (h run payload (cs_env ?st1)) ?st1 = (ok1, fs1, st2)" by (metis prod_cases3)
    have "wedged key c b ?st1 d" using assms(1) by (simp add: wedged_def)
    from wedged_handling [OF this h] show ?thesis using r Inr q h by (auto simp: route_def Let_def wedged_def split: bool.splits)
  qed
  show ?thesis
  proof (cases "coords msg")
    case None
    then show ?thesis using w1 st' by (simp add: wedged_def)
  next
    case (Some co)
    obtain k off where co: "co = (k, off)" by fastforce
    have stay: "map_of (cs_commit_at (note_offset now (k, off) committable st1)) key = map_of (cs_commit_at st1) key"
      "map_of (cs_blocked (note_offset now (k, off) committable st1)) key = map_of (cs_blocked st1) key"
      using w1 assms(3) [of off] Some co unfolding wedged_def note_offset_commit note_offset_blocked by (auto simp: point_after_def)
    moreover have "distinct (map fst (cs_commit_at (note_offset now (k, off) committable st1)))"
        "distinct (map fst (cs_blocked (note_offset now (k, off) committable st1)))"
      using w1 by (simp_all add: wedged_def note_offset_distinct)
    ultimately show ?thesis using w1 st' Some co unfolding wedged_def by simp
  qed
qed

text \<open>
  C21. A record that fails right after a gap blocks its partition for good: once the blocked record lies above the commit point (a compacted topic skipped
  the offsets between, or a flush took the point back below a failed record), the partition stays blocked at that record and its commit
  point never moves up again, however often the record is redelivered and handled cleanly, unless the broker is reset below the blocked record.
\<close>

theorem blocked_above_point_never_recovers:
  assumes "(delivers w start)\<^sup>*\<^sup>* d d'" and "b \<le> start key" and "b \<le> dl_pos d key" and "c < b"
    and "map_of (cs_blocked (dl_state d)) key = Some b" and "map_of (cs_commit_at (dl_state d)) key = Some c"
    and "distinct (map fst (cs_commit_at (dl_state d)))" and "distinct (map fst (cs_blocked (dl_state d)))" and "well_logged d"
  shows "map_of (cs_blocked (dl_state d')) key = Some b \<and> (\<exists>n \<le> c. map_of (cs_commit_at (dl_state d')) key = Some n)"
proof -
  have "wedged key c b (dl_state d') d' \<and> well_logged d'" using assms(1)
  proof induction
    case base
    then show ?case using assms by (simp add: wedged_def)
  next
    case (step d1 d2)
    then have w1: "wedged key c b (dl_state d1) d1" and l1: "well_logged d1" by auto
    show ?case using step(2)
    proof cases
      case (deliver k off msg seeks now ok committable fs st)
      let ?d = "d1\<lparr>dl_pos := (dl_pos d1)(k := off + 1)\<rparr>"
      have m: "coords msg = Some (k, off)" using l1 deliver(2) unfolding well_logged_def by blast
      have "wedged key c b (dl_state d1) ?d" using w1 deliver(3) by (auto simp: wedged_def)
      from wedged_message [OF this deliver(5)] have "wedged key c b st (fold flushed fs ?d)"
        using m w1 deliver(3) by (fastforce simp: wedged_def)
      then show ?thesis using l1 unfolding deliver(1) by (simp add: wedged_def well_logged_def)
    next
      case (event msg e seeks now r fs st)
      have "cs_commit_at st = cs_commit_at (dl_state d1)" "cs_blocked st = cs_blocked (dl_state d1)"
        using event(2,3) by (cases e; auto simp: handle_message_def)+
      then show ?thesis using w1 l1 event(1) by (simp add: wedged_def well_logged_def)
    next
      case (commit seeks accepts now force r call f st)
      obtain b1 dn st1 where fl: "flush_writes w seeks now (dl_state d1) = (b1, dn, st1)" by (metis prod_cases3)
      have f: "f = (b1, dn)" "cs_commit_at st = cs_commit_at st1" "cs_blocked st = cs_blocked st1"
        using commit(2) fl by (auto simp: commit_safe_def Let_def split: bool.splits if_splits)
      then show ?thesis using wedged_flush [OF w1 fl] l1 commit(1) by (simp add: wedged_def well_logged_def)
    next
      case (rewind seeks now dn st)
      note rw = rewind_blocked_points [OF rewind(2)]
      then have "b \<le> sought dn (dl_pos d1) key" using wedged_sought [OF w1] by blast
      then show ?thesis using w1 l1 rw rewind(1) by (simp add: wedged_def well_logged_def same_points_def)
    next
      case (rebalance pos)
      then have "b \<le> pos key" using assms(2) by (meson order_trans)
      then show ?thesis using w1 l1 rebalance(1) by (simp add: wedged_def well_logged_def)
    next
      case (subscribe subscribes r st)
      have "cs_commit_at st = cs_commit_at (dl_state d1)" "cs_blocked st = cs_blocked (dl_state d1)"
        using subscribe(2) by (auto simp: ensure_consumer_def split: if_splits)
      then show ?thesis using w1 l1 subscribe(1) by (simp add: wedged_def well_logged_def)
    qed (use w1 l1 in \<open>auto simp: wedged_def well_logged_def split: if_splits\<close>)
  qed
  then show ?thesis unfolding wedged_def by blast
qed

end
