(* ===== verification/Kafka_Recovery.thy ===== *)
theory Kafka_Recovery
  imports Kafka_Delivery
begin

text \<open>
  When a blocked partition of the ingest consumer recovers, what the flush of a terminal means for the blocked topics, and concrete histories.
\<close>

section \<open>Recovery\<close>

lemma seek_back_takes:
  assumes "(key, point) \<in> set xs" and "distinct (map fst xs)" and "get_or 0 (cs_last_seek_at st) key + seek_backoff \<le> now" and "seeks key point"
    and "seek_back seeks now xs st = (dn, st')"
  shows "(key, point) \<in> set dn"
  using assms
proof (induction seeks now xs st arbitrary: dn st' rule: seek_back.induct)
  case (2 seeks now k p rest st)
  let ?st = "bump_count now ''seek_back'' False (st\<lparr>cs_last_seek_at := AList.update k now (cs_last_seek_at st)\<rparr>)"
  show ?case
  proof (cases "now - get_or 0 (cs_last_seek_at st) k < seek_backoff \<or> \<not> seeks k p")
    case True
    then have other: "(key, point) \<noteq> (k, p)" using "2.prems"(3,4) by auto
    have "seek_back seeks now rest st = (dn, st')" using "2.prems"(5) True by simp
    moreover have "distinct (map fst rest)" "(key, point) \<in> set rest" using "2.prems"(1,2) other by auto
    ultimately show ?thesis using "2.IH"(1) [OF True] "2.prems"(3,4) by blast
  next
    case False
    obtain dn1 st1 where r: "seek_back seeks now rest ?st = (dn1, st1)" by fastforce
    have out: "dn = (k, p) # dn1" using "2.prems"(5) False r by simp
    show ?thesis
    proof (cases "(key, point) = (k, p)")
      case False
      then have m: "(key, point) \<in> set rest" "key \<noteq> k" using "2.prems"(1,2) by force+
      then have "get_or 0 (cs_last_seek_at ?st) key = get_or 0 (cs_last_seek_at st) key" by (simp add: get_or_def bump_count_def Let_def update_conv')
      then show ?thesis using "2.IH"(2) [OF \<open>\<not> (now - get_or 0 (cs_last_seek_at st) k < seek_backoff \<or> \<not> seeks k p)\<close> m(1) _ _ _ r] "2.prems" out by simp
    qed (simp add: out)
  qed
qed simp

text \<open>A handler whose flushes all succeed leaves the points.\<close>

lemma run_handling_points:
  "run_handling w seeks now h st = (ok, fs, st') \<Longrightarrow> \<forall>f \<in> set fs. fst f \<Longrightarrow> cs_commit_at st' = cs_commit_at st \<and> cs_blocked st' = cs_blocked st"
proof (induction h arbitrary: ok fs st st')
  case (Discard reason h)
  have "run_handling w seeks now h (note_discard now reason st) = (ok, fs, st')" using Discard.prems(1) by simp
  from Discard.IH [OF this Discard.prems(2)] show ?case by (simp add: note_discard_def)
next
  case (AskFlush e f)
  obtain r dn st1 where fl: "flush_writes w seeks now (st\<lparr>cs_env := e\<rparr>) = (r, dn, st1)" by (metis prod_cases3)
  obtain ok1 fs1 st2 where ru: "run_handling w seeks now (f r (cs_env st1)) st1 = (ok1, fs1, st2)" by (metis prod_cases3)
  have out: "fs = (r, dn) # fs1" "st' = st2" using AskFlush.prems(1) fl ru by auto
  then have "r" using AskFlush.prems(2) by simp
  then have "cs_commit_at st1 = cs_commit_at st \<and> cs_blocked st1 = cs_blocked st"
    using fl by (auto simp: flush_writes_def split: option.splits prod.splits bool.splits)
  moreover have "cs_commit_at st2 = cs_commit_at st1 \<and> cs_blocked st2 = cs_blocked st1"
    by (rule AskFlush.IH [OF rangeI rangeI ru]) (use AskFlush.prems(2) out in simp)
  ultimately show ?case using out by simp
next
  case (AskBlocked f)
  then show ?case using AskBlocked.IH [OF rangeI] by (metis run_handling.simps(4))
qed auto

lemma route_points:
  assumes "route w seeks now msg st = (r, fs, st')" and "\<forall>f \<in> set fs. fst f"
  shows "cs_commit_at st' = cs_commit_at st" and "cs_blocked st' = cs_blocked st"
proof -
  have "cs_commit_at st' = cs_commit_at st \<and> cs_blocked st' = cs_blocked st"
  proof (cases "classify w msg")
    case (Inl reason)
    then show ?thesis using assms(1) by (auto simp: route_def)
  next
    case (Inr q)
    obtain logical run payload h where q: "q = (logical, run, payload, h)" by (metis prod_cases4)
    let ?st1 = "st\<lparr>cs_counts := AList.update ''messages'' (get_or 0 (cs_counts st) ''messages'' + 1) (cs_counts st),
                        cs_by_topic := AList.update logical (get_or 0 (cs_by_topic st) logical + 1) (cs_by_topic st), cs_last_message_at := Some now\<rparr>"
    obtain ok1 fs1 st2 where h: "run_handling w seeks now (h run payload (cs_env ?st1)) ?st1 = (ok1, fs1, st2)" by (metis prod_cases3)
    then have "fs = fs1" "st' = (if ok1 then st2 else bump_count now ''handler_errors'' False st2)"
      using assms(1) Inr q by (auto simp: route_def Let_def split: bool.splits)
    then show ?thesis using run_handling_points [OF h] assms(2) by simp
  qed
  then show "cs_commit_at st' = cs_commit_at st" and "cs_blocked st' = cs_blocked st" by blast+
qed


section \<open>Concrete histories\<close>

text \<open>Handlers that take the answers they give from a list, with a deferred topic, and a log with a gap.\<close>

definition plan_wiring :: "bool list wiring" where
  "plan_wiring =
     \<lparr>wi_utf8 = (\<lambda>b. Some ''r''), wi_loads = (\<lambda>b. Some (PyDict [])),
      wi_handlers = (\<lambda>l. Some (\<lambda>run p e. case e of [] \<Rightarrow> Finished True [] | ok # rest \<Rightarrow> Finished ok rest)),
      wi_flush = Some (\<lambda>e. (True, e)), wi_flush_topics = [''kpi''], wi_commit_interval = 2000\<rparr>"

definition plan_message :: "string \<Rightarrow> int \<Rightarrow> message" where
  "plan_message t off = \<lparr>ms_error = None, ms_topic = t, ms_partition = Some 0, ms_offset = Some off, ms_key = KeyText ''r'', ms_value = [1]\<rparr>"

definition plan_delivery :: "bool list \<Rightarrow> bool list delivery" where
  "plan_delivery e =
     \<lparr>dl_state = new_consumer e,
      dl_log = (\<lambda>key off. if key = (''run_status'', 0) \<and> (off = 0 \<or> off = 5) then Some (plan_message ''run_status'' off) else None),
      dl_head = (\<lambda>key. 6), dl_pos = (\<lambda>key. 0), dl_pend = {}, dl_done = {}, dl_offered = {}\<rparr>"

lemma plan_starts: "starts (\<lambda>key. 0) (plan_delivery e)" "heeding plan_wiring"
  by (auto simp: starts_def plan_delivery_def plan_message_def coords_def heeding_def plan_wiring_def split: list.splits if_splits)

definition do_subscribe :: "'e delivery \<Rightarrow> 'e delivery" where
  "do_subscribe d = d\<lparr>dl_state := snd (ensure_consumer True (dl_state d))\<rparr>"

definition do_deliver :: "'e wiring \<Rightarrow> int \<Rightarrow> partition_key \<Rightarrow> int \<Rightarrow> 'e delivery \<Rightarrow> 'e delivery" where
  "do_deliver w now key off d =
     (case handle_message w (\<lambda>k i. True) now (the (dl_log d key off)) (dl_state d) of
        ((ok, committable), fs, st) \<Rightarrow>
          (taken w key off committable (fold flushed fs (d\<lparr>dl_pos := (dl_pos d)(key := off + 1)\<rparr>)))\<lparr>dl_state := st\<rparr>)"

definition do_commit :: "'e wiring \<Rightarrow> int \<Rightarrow> 'e delivery \<Rightarrow> 'e delivery" where
  "do_commit w now d =
     (case commit_safe w (\<lambda>k i. True) True now True (dl_state d) of
        ((b, call), f, st) \<Rightarrow> (flushed f d)\<lparr>dl_state := st, dl_offered := dl_offered d \<union> offers call d\<rparr>)"

definition do_rewind :: "int \<Rightarrow> 'e delivery \<Rightarrow> 'e delivery" where
  "do_rewind now d = (case rewind_blocked (\<lambda>k i. True) now (dl_state d) of (dn, st) \<Rightarrow> d\<lparr>dl_pos := sought dn (dl_pos d), dl_state := st\<rparr>)"

lemma do_steps:
  "delivers w start d (do_subscribe d)" "delivers w start d (do_commit w now d)" "delivers w start d (do_rewind now d)"
  using delivers.subscribe [of True d _ _ w start, OF prod.collapse [symmetric]]
  by (auto simp: do_subscribe_def do_commit_def do_rewind_def split: prod.splits intro: delivers.commit delivers.rewind)

lemma do_deliver_step:
  "dl_log d key off = Some msg \<Longrightarrow> dl_pos d key \<le> off \<Longrightarrow> \<forall>i. dl_pos d key \<le> i \<and> i < off \<longrightarrow> dl_log d key i = None \<Longrightarrow>
   delivers w start d (do_deliver w now key off d)"
  by (auto simp: do_deliver_def split: prod.splits intro: delivers.deliver)

lemma do_fields: "dl_state (do_commit w now d) = snd (snd (commit_safe w (\<lambda>k i. True) True now True (dl_state d)))" "dl_log (do_commit w now d) = dl_log d"
  "dl_log (do_deliver w now key off d) = dl_log d" "dl_log (do_rewind now d) = dl_log d" "dl_log (do_subscribe d) = dl_log d"
  by (simp_all add: do_commit_def do_deliver_def do_rewind_def do_subscribe_def split: prod.splits)

abbreviation status_key :: partition_key where
  "status_key \<equiv> (''run_status'', 0)"

definition durable_end :: "bool list delivery" where
  "durable_end = do_commit plan_wiring 20 (do_deliver plan_wiring 10 status_key 0 (do_subscribe (plan_delivery [True])))"

theorem commits_only_durable_witness:
  "map_of (cs_committed (dl_state durable_end)) status_key = Some 1 \<and> (status_key, 0) \<in> dl_done durable_end"
proof -
  let ?d0 = "plan_delivery [True]" and ?d1 = "do_subscribe (plan_delivery [True])" and ?start = "\<lambda>key. 0"
  let ?d2 = "do_deliver plan_wiring 10 status_key 0 ?d1"
  have c: "map_of (cs_committed (dl_state durable_end)) status_key = Some 1" unfolding durable_end_def do_fields by code_simp
  have log: "dl_log durable_end status_key 0 \<noteq> None" by (simp add: durable_end_def do_fields plan_delivery_def)
  have "delivers plan_wiring ?start ?d1 ?d2"
    by (rule do_deliver_step [of _ _ _ "plan_message ''run_status'' 0"]) (simp_all add: do_subscribe_def plan_delivery_def)
  then have "(delivers plan_wiring ?start)\<^sup>*\<^sup>* ?d0 durable_end" unfolding durable_end_def
    by (meson do_steps(1,2) rtranclp.rtrancl_into_rtrancl rtranclp.rtrancl_refl)
  from commits_only_durable [OF plan_starts(2,1) this disjI2 [OF c] log] show ?thesis using c by simp
qed

text \<open>The terminal at offset 5 is refused once; the offsets 1 to 4 are gone. Redelivered and handled cleanly it leaves the partition blocked.\<close>

definition wedge_start :: "bool list delivery" where
  "wedge_start = do_deliver plan_wiring 11 status_key 5 (do_deliver plan_wiring 10 status_key 0 (do_subscribe (plan_delivery [True, False])))"

definition wedge_end :: "bool list delivery" where
  "wedge_end = do_deliver plan_wiring 9010 status_key 5 (do_rewind 9000 wedge_start)"

theorem blocked_above_point_never_recovers_witness:
  "(status_key, 5) \<in> dl_done wedge_end \<and> map_of (cs_blocked (dl_state wedge_end)) status_key = Some 5 \<and>
   (\<exists>n \<le> 1. map_of (cs_commit_at (dl_state wedge_end)) status_key = Some n)"
proof -
  let ?start = "\<lambda>key. 5 :: int"
  have state: "map_of (cs_blocked (dl_state wedge_start)) status_key = Some 5" "map_of (cs_commit_at (dl_state wedge_start)) status_key = Some 1"
      "distinct (map fst (cs_commit_at (dl_state wedge_start)))" "distinct (map fst (cs_blocked (dl_state wedge_start)))" "5 \<le> dl_pos wedge_start status_key"
    by code_simp+
  have pos: "dl_pos (do_rewind 9000 wedge_start) status_key = 5" by code_simp
  have clean: "(status_key, 5) \<in> dl_done wedge_end" by code_simp
  have log: "dl_log wedge_start = dl_log (plan_delivery [])" "dl_log (do_rewind 9000 wedge_start) = dl_log (plan_delivery [])"
    by (simp_all add: wedge_start_def do_fields plan_delivery_def)
  have well: "well_logged wedge_start" unfolding well_logged_def log by (simp add: plan_delivery_def plan_message_def coords_def)
  have "delivers plan_wiring ?start (do_rewind 9000 wedge_start) wedge_end" unfolding wedge_end_def
    by (rule do_deliver_step [of _ _ _ "plan_message ''run_status'' 5"]) (simp_all add: pos log plan_delivery_def)
  then have "(delivers plan_wiring ?start)\<^sup>*\<^sup>* wedge_start wedge_end"
    by (meson do_steps(3) rtranclp.rtrancl_into_rtrancl rtranclp.rtrancl_refl)
  from blocked_above_point_never_recovers [OF this _ state(5) _ state(1,2,3,4) well] show ?thesis using clean by simp
qed

definition stopped_start :: "bool list consumer" where
  "stopped_start = dl_state (do_deliver plan_wiring 10 status_key 0 (do_subscribe (plan_delivery [False])))"


end
