(* ===== verification/Ingest_Service.thy ===== *)
theory Ingest_Service
  imports Run_Close Kafka_Recovery
begin

text \<open>
  The handlers of the data plane service on its consumer (\<open>apps/dataplane/service.py\<close>): metric rows that wait for the flush, breakdowns
  written at once, positions, run identities and terminals; and what their composition with the consumer guarantees when a run is closed.
\<close>

section \<open>The service on the consumer\<close>

type_synonym kpi_row = "string \<times> string \<times> pyfloat \<times> py_time"
type_synonym breakdown_row = "string \<times> py_time \<times> bool \<times> (string, pyval) dict list"

record 'db ingest =
  in_service :: "'db service"
  in_kpi :: "kpi_row list"
  in_identity :: "(string, (string, pyval) dict) dict"

text \<open>What the handlers use: the durable store with its writes, the parsers, the clock of the hot tier.\<close>

record 'db ingest_env =
  ie_duck :: "'db duck"
  ie_write_kpi :: "kpi_row list \<Rightarrow> 'db \<Rightarrow> 'db option"
  ie_write_breakdown :: "string \<Rightarrow> breakdown_row \<Rightarrow> 'db \<Rightarrow> 'db option"
  ie_write_identity :: "string \<Rightarrow> (string, pyval) dict \<Rightarrow> 'db \<Rightarrow> 'db option"
  ie_loads :: "string \<Rightarrow> pyval option"
  ie_render :: "pyval \<Rightarrow> string"
  ie_bits :: "pyfloat \<Rightarrow> 64 word"
  ie_dateutil :: "string \<Rightarrow> py_error + py_time"
  ie_now :: nat

definition with_service :: "'db ingest \<Rightarrow> 'db service \<Rightarrow> 'db ingest" where
  "with_service s sv = s\<lparr>in_service := sv\<rparr>"

definition tally :: "string \<Rightarrow> 'db ingest \<Rightarrow> 'db ingest" where
  "tally key s = with_service s (bump key (in_service s))"

definition discard :: "string \<Rightarrow> 'db ingest \<Rightarrow> 'db ingest handling" where
  "discard reason s = Discard reason (Finished True (tally reason s))"

definition caught :: "py_error \<Rightarrow> bool" where
  "caught e \<longleftrightarrow> e \<in> {TypeError, ValueError, OverflowError}"

section \<open>Metrics\<close>

definition on_kpi :: "'db ingest_env \<Rightarrow> string \<Rightarrow> (string, pyval) dict \<Rightarrow> 'db ingest \<Rightarrow> 'db ingest handling" where
  "on_kpi ie run p s =
     (let metric = py_get p ''metric''
      in if \<not> truthy metric then discard ''kpi_malformed'' s
         else (case (coerce_metric_value (py_get p ''value''), parse_sim_clock (ie_dateutil ie) (py_get p ''sim_clock'')) of
                 (Inr v, Inr t) \<Rightarrow> Finished True (tally ''kpi'' (s\<lparr>in_kpi := in_kpi s @ [(run, py_str (ie_render ie) metric, v, t)]\<rparr>))
               | (Inl e, _) \<Rightarrow> if caught e then discard ''kpi_malformed'' s else Finished False s
               | (_, Inl e) \<Rightarrow> if caught e then discard ''kpi_malformed'' s else Finished False s))"

text \<open>The flush: the buffer is emptied before the write, so a failed write drops its rows.\<close>

definition service_flush :: "'db ingest_env \<Rightarrow> 'db ingest \<Rightarrow> bool \<times> 'db ingest" where
  "service_flush ie s =
     (let rows = in_kpi s; s1 = s\<lparr>in_kpi := []\<rparr>
      in if rows = [] then (True, s1)
         else (case ie_write_kpi ie rows (sv_db (in_service s1)) of
                 None \<Rightarrow> (False, s1)
               | Some db \<Rightarrow> (True, with_service s1 ((in_service s1)\<lparr>sv_db := db\<rparr>))))"

definition breakdown_scopes :: "string list" where
  "breakdown_scopes = [''truck'', ''haulier'', ''planner'', ''lane'']"

definition dict_entries :: "pyval list \<Rightarrow> (string, pyval) dict list" where
  "dict_entries es = List.map_filter (\<lambda>e. case e of PyDict d \<Rightarrow> Some d | _ \<Rightarrow> None) es"

text \<open>The entities of a breakdown envelope, or \<open>None\<close> when it is malformed.\<close>

definition breakdown_entities :: "pyval \<Rightarrow> pyval list option" where
  "breakdown_entities b =
     (case (case b of PyNone \<Rightarrow> Some [] | PyDict d \<Rightarrow> Some d | _ \<Rightarrow> None) of
        None \<Rightarrow> None
      | Some d \<Rightarrow>
          (let es = py_get d ''entities''
           in if \<not> truthy es then Some [] else (case es of PyList xs \<Rightarrow> Some xs | _ \<Rightarrow> None)))"

definition on_kpi_breakdown :: "'db ingest_env \<Rightarrow> string \<Rightarrow> (string, pyval) dict \<Rightarrow> 'db ingest \<Rightarrow> 'db ingest handling" where
  "on_kpi_breakdown ie run p s =
     (case py_get p ''scope'' of
        PyStr scope \<Rightarrow>
          (if scope \<notin> set breakdown_scopes then discard ''kpi_breakdown_unknown_scope'' s
           else if \<not> truthy (py_get p ''sim_clock'') then discard ''kpi_breakdown_malformed'' s
           else (case parse_sim_clock (ie_dateutil ie) (py_get p ''sim_clock'') of
                   Inl e \<Rightarrow> if caught e then discard ''kpi_breakdown_malformed'' s else Finished False s
                 | Inr clock \<Rightarrow>
                     (case breakdown_entities (py_get p ''breakdown'') of
                        None \<Rightarrow> discard ''kpi_breakdown_malformed'' s
                      | Some es \<Rightarrow>
                          (let clean = dict_entries es;
                               s1 = (if length clean \<noteq> length es then tally ''kpi_breakdown_entities_dropped'' s else s);
                               h = (case ie_write_breakdown ie run (scope, clock, truthy (py_get p ''final''), clean) (sv_db (in_service s1)) of
                                      None \<Rightarrow> Finished False s1
                                    | Some db \<Rightarrow> Finished True (tally ''kpi_breakdown'' (with_service s1 ((in_service s1)\<lparr>sv_db := db\<rparr>))))
                           in if length clean \<noteq> length es then Discard ''kpi_breakdown_entities_dropped'' h else h))))
      | _ \<Rightarrow> discard ''kpi_breakdown_unknown_scope'' s)"

section \<open>Positions\<close>

text \<open>A malformed position is also reported to the consumer.\<close>

definition trip_geo_handler :: "'db ingest_env \<Rightarrow> string \<Rightarrow> (string, pyval) dict \<Rightarrow> 'db ingest \<Rightarrow> 'db ingest handling" where
  "trip_geo_handler ie run p s =
     (let r = on_trip_geo (ie_duck ie) (ie_loads ie) (ie_render ie) (ie_bits ie) (ie_dateutil ie) (ie_now ie) run p (in_service s);
          h = Finished (case fst r of Inl e \<Rightarrow> False | Inr u \<Rightarrow> True) (with_service s (snd r))
      in if py_get p ''type'' = PyStr ''truck_loc'' \<and> truck_position (ie_render ie) (ie_bits ie) (ie_dateutil ie) p = None
         then Discard ''truck_loc_malformed'' h else h)"

section \<open>Run status\<close>

text \<open>The name and scenario a status message carries: the fields that are non-empty texts.\<close>

definition known_identity :: "(string, pyval) dict \<Rightarrow> (string, pyval) dict" where
  "known_identity p =
     filter (\<lambda>(k, v). case v of PyStr s \<Rightarrow> s \<noteq> [] | _ \<Rightarrow> False)
       [(''run_name'', py_get p ''run_name''), (''scenario_slug'', py_get p ''scenario_slug''), (''scenario_name'', py_get p ''scenario_display_name'')]"

definition is_int :: "pyval \<Rightarrow> bool" where
  "is_int v \<longleftrightarrow> (case v of PyInt i \<Rightarrow> True | PyBool b \<Rightarrow> True | _ \<Rightarrow> False)"

text \<open>The remembered dictionary is the one the number of trucks is then added to.\<close>

definition note_run_identity :: "'db ingest_env \<Rightarrow> string \<Rightarrow> (string, pyval) dict \<Rightarrow> 'db ingest \<Rightarrow> 'db ingest" where
  "note_run_identity ie run p s =
     (let known = known_identity p
      in if known = [] \<or> map_of (in_identity s) run = Some known then s
         else
           (let n = py_get p ''num_trucks''; full = (if is_int n then known @ [(''n_trucks'', n)] else known);
                s1 = s\<lparr>in_identity := AList.update run full (in_identity s)\<rparr>
            in (case ie_write_identity ie run full (sv_db (in_service s1)) of
                  None \<Rightarrow> s1\<lparr>in_identity := AList.delete run (in_identity s1)\<rparr>
                | Some db \<Rightarrow> with_service s1 ((in_service s1)\<lparr>sv_db := db\<rparr>))))"

text \<open>A terminal asks for the flush first and for the blocked topics next; both refusals raise before the run is touched.\<close>

definition close_handling :: "'db ingest_env \<Rightarrow> string \<Rightarrow> string \<Rightarrow> 'db ingest \<Rightarrow> 'db ingest handling" where
  "close_handling ie run reason s =
     AskFlush s (\<lambda>flushed s1.
       if \<not> flushed then Finished False s1
       else AskBlocked (\<lambda>topics.
         if topics - {''run_status''} \<noteq> {} then Finished False s1
         else (let r = finalize_run (ie_duck ie) (ie_loads ie) (ie_now ie) True [] run reason (in_service s1)
               in Finished (case fst r of Inl e \<Rightarrow> False | Inr u \<Rightarrow> True) (with_service s1 (snd r)))))"

definition on_run_status :: "'db ingest_env \<Rightarrow> string \<Rightarrow> (string, pyval) dict \<Rightarrow> 'db ingest \<Rightarrow> 'db ingest handling" where
  "on_run_status ie run p s =
     (let s1 = note_run_identity ie run p (tally ''run_status'' s)
      in (case should_export_run_status (PyDict p) of
            None \<Rightarrow> Finished True s1
          | Some reason \<Rightarrow> close_handling ie run reason (tally ''run_terminal'' s1)))"

section \<open>The wiring\<close>

definition service_handlers :: "'db ingest_env \<Rightarrow> string \<Rightarrow> (string \<Rightarrow> (string, pyval) dict \<Rightarrow> 'db ingest \<Rightarrow> 'db ingest handling) option" where
  "service_handlers ie topic =
     map_of [(''run_status'', on_run_status ie), (''kpi'', on_kpi ie), (''kpi_breakdown'', on_kpi_breakdown ie), (''trip_geo'', trip_geo_handler ie),
             (''facility_stream'', \<lambda>run p s. Finished True (tally ''facility_stream'' s)), (''perf'', \<lambda>run p s. Finished True (tally ''perf'' s))] topic"

definition service_wiring :: "(bytes \<Rightarrow> string option) \<Rightarrow> (bytes \<Rightarrow> pyval option) \<Rightarrow> 'db ingest_env \<Rightarrow> 'db ingest wiring" where
  "service_wiring utf8 loads ie =
     \<lparr>wi_utf8 = utf8, wi_loads = loads, wi_handlers = service_handlers ie, wi_flush = Some (service_flush ie), wi_flush_topics = [''kpi''],
      wi_commit_interval = 2000\<rparr>"

lemma heeds_discard [simp]: "heeds (discard reason s)"
  by (simp add: discard_def)

lemma service_heeds: "heeding (service_wiring utf8 loads ie)"
proof -
  have "heeds (on_run_status ie run p s)" for run p s
    by (auto simp: on_run_status_def close_handling_def Let_def split: option.splits)
  moreover have "heeds (on_kpi ie run p s)" for run p s
    by (auto simp: on_kpi_def Let_def split: sum.splits)
  moreover have "heeds (on_kpi_breakdown ie run p s)" for run p s
    by (auto simp: on_kpi_breakdown_def Let_def split: sum.splits pyval.splits option.splits)
  moreover have "heeds (trip_geo_handler ie run p s)" for run p s
    by (simp add: trip_geo_handler_def Let_def)
  ultimately show ?thesis by (auto simp: heeding_def service_wiring_def service_handlers_def split: if_splits)
qed

section \<open>Closing a run over the whole of its ingest\<close>

lemma blocked_topics_other:
  assumes "blocked_topics st - {''run_status''} = {}" and "fst k \<noteq> ''run_status''" shows "map_of (cs_blocked st) k = None"
proof (rule ccontr)
  assume "map_of (cs_blocked st) k \<noteq> None"
  then have k: "k \<in> fst ` set (cs_blocked st)" by (simp add: map_of_eq_None_iff)
  let ?l = "case map_of topic_to_logical (fst k) of None \<Rightarrow> fst k | Some l \<Rightarrow> l"
  have "?l \<in> blocked_topics st" using k unfolding blocked_topics_def by (force simp: case_prod_unfold)
  moreover have "?l \<noteq> ''run_status''" using assms(2) by (auto simp: topic_to_logical_def logical_to_topic_def)
  ultimately show False using assms(1) by blast
qed

lemma key_inv_free:
  "key_inv q s p h c f None l pend don {} \<Longrightarrow> i \<in> l \<Longrightarrow> s \<le> i \<Longrightarrow> i < p \<Longrightarrow> i \<in> don \<or> i \<in> pend"
  by (cases c) (force simp: key_inv_None key_inv_Some not_less)+

lemma note_offset_env [simp]: "cs_env (note_offset now c ok st) = cs_env st"
  by (cases c) (simp add: note_offset_def Let_def follow_down_def see_offset_def)

lemma handle_message_clean:
  assumes "handle_message w seeks now msg st = ((True, True), fs, st')"
  obtains st2 where "route w seeks now msg st = ((True, True), fs, st2)" "cs_env st' = cs_env st2"
proof (cases "ms_error msg")
  case None
  obtain r fs2 st2 where r: "route w seeks now msg st = (r, fs2, st2)" by (metis prod_cases3)
  then show thesis using assms None that by (cases "coords msg") (auto simp: handle_message_def split: prod.splits)
next
  case (Some e)
  then show thesis using assms by (cases e) (simp_all add: handle_message_def)
qed

lemma close_handling_clean:
  assumes "run_handling w seeks now (close_handling ie run reason s) st = (True, fs, st')"
  obtains dn st1 r where "flush_writes w seeks now (st\<lparr>cs_env := s\<rparr>) = (True, dn, st1)" "fs = [(True, dn)]" "blocked_topics st1 - {''run_status''} = {}"
    "finalize_run (ie_duck ie) (ie_loads ie) (ie_now ie) True [] run reason (in_service (cs_env st1)) = (Inr (), r)"
    "st' = st1\<lparr>cs_env := with_service (cs_env st1) r\<rparr>"
proof -
  obtain b dn st1 where f: "flush_writes w seeks now (st\<lparr>cs_env := s\<rparr>) = (b, dn, st1)" by (metis prod_cases3)
  obtain x r where z: "finalize_run (ie_duck ie) (ie_loads ie) (ie_now ie) True [] run reason (in_service (cs_env st1)) = (x, r)" by fastforce
  have "b" "blocked_topics st1 - {''run_status''} = {}" "x = Inr ()" using assms f z
    by (auto simp: close_handling_def Let_def split: if_splits sum.splits)
  with assms f z show thesis by (intro that [of dn st1 r]) (auto simp: close_handling_def Let_def)
qed

lemma finalize_run_closes:
  "finalize_run m loads now ok blocked run reason sv = (Inr (), sv') \<Longrightarrow> run \<in> sv_finalized sv' \<and> run \<notin> runs_of sv'"
  using runs_of_evict by (elim finalize_run_cases) (auto simp: queue_dump_run evict_run_fields)

text \<open>
  C17. A run is closed only over the whole of its ingest: when the service takes a terminal of a run, every record read so far from any other topic has
  reached the store or was thrown away, over any history of the consumer with the handlers of the service.
\<close>

theorem closed_run_is_whole:
  assumes "starts start d0" and "(delivers (service_wiring utf8 loads ie) start)\<^sup>*\<^sup>* d0 d"
    and "classify (service_wiring utf8 loads ie) msg = Inr (''run_status'', run, p, h)" and "should_export_run_status (PyDict p) = Some reason"
    and "handle_message (service_wiring utf8 loads ie) seeks now msg (dl_state d) = ((True, True), fs, st)"
    and "fst other \<noteq> ''run_status''" and "dl_log d other i \<noteq> None" and "start other \<le> i" and "i < dl_pos d other"
  shows "(other, i) \<in> dl_done (fold flushed fs d) \<and> run \<in> sv_finalized (in_service (cs_env st)) \<and> run \<notin> runs_of (in_service (cs_env st))"
proof -
  let ?w = "service_wiring utf8 loads ie"
  have inv: "dl_inv ?w start (\<lambda>k. {}) (dl_state d) d" using delivery_ok [OF service_heeds assms(1,2)] by blast
  have h: "h = on_run_status ie" using assms(3) by (auto simp: classify_def service_wiring_def service_handlers_def split: option.splits if_splits pyval.splits)
  obtain st2 where r: "route ?w seeks now msg (dl_state d) = ((True, True), fs, st2)" and env: "cs_env st = cs_env st2"
    using handle_message_clean [OF assms(5)] .
  let ?st0 = "(dl_state d)\<lparr>cs_counts := AList.update ''messages'' (get_or 0 (cs_counts (dl_state d)) ''messages'' + 1) (cs_counts (dl_state d)),
      cs_by_topic := AList.update ''run_status'' (get_or 0 (cs_by_topic (dl_state d)) ''run_status'' + 1) (cs_by_topic (dl_state d)), cs_last_message_at := Some now\<rparr>"
  let ?s = "tally ''run_terminal'' (note_run_identity ie run p (tally ''run_status'' (cs_env (dl_state d))))"
  have run: "run_handling ?w seeks now (close_handling ie run reason ?s) ?st0 = (True, fs, st2)"
    using r assms(3,4) h by (auto simp: route_def on_run_status_def Let_def split: prod.splits bool.splits)
  obtain dn st1 sv where c: "flush_writes ?w seeks now (?st0\<lparr>cs_env := ?s\<rparr>) = (True, dn, st1)" "fs = [(True, dn)]" "blocked_topics st1 - {''run_status''} = {}"
    "finalize_run (ie_duck ie) (ie_loads ie) (ie_now ie) True [] run reason (in_service (cs_env st1)) = (Inr (), sv)" "st2 = st1\<lparr>cs_env := with_service (cs_env st1) sv\<rparr>"
    using close_handling_clean [OF run] by metis
  have "same_points (dl_state d) (?st0\<lparr>cs_env := ?s\<rparr>)" by (simp add: same_points_def)
  from dl_inv_points [OF this] inv have i0: "dl_inv ?w start (\<lambda>k. {}) (?st0\<lparr>cs_env := ?s\<rparr>) d" by blast
  note fl = flush_writes_inv [OF i0 c(1)]
  have free: "map_of (cs_blocked st1) other = None" by (rule blocked_topics_other [OF c(3) assms(6)])
  have "i \<in> {i. dl_log (flushed (True, dn) d) other i \<noteq> None}" "dl_pos (flushed (True, dn) d) other = dl_pos d other"
    using assms(7) fl(4) by (simp_all add: sought_def)
  moreover have "{i. (other, i) \<in> dl_pend (flushed (True, dn) d)} = {}" by simp
  ultimately have "i \<in> {i. (other, i) \<in> dl_done (flushed (True, dn) d)}"
    using key_inv_free [OF dl_inv_key [OF fl(1), of other, unfolded free] _ assms(8)] assms(9) by (metis empty_iff)
  then have "(other, i) \<in> dl_done (flushed (True, dn) d)" by blast
  then show ?thesis using c(2,5) finalize_run_closes [OF c(4)] env by (simp add: with_service_def)
qed

text \<open>A metric and then the terminal of its run, over the list store.\<close>

definition demo_ie :: "((string, int list) dict \<times> (string, run_meta) dict) ingest_env" where
  "demo_ie =
     \<lparr>ie_duck = list_duck plain_dumps True, ie_write_kpi = (\<lambda>rows db. Some db), ie_write_breakdown = (\<lambda>run row db. Some db),
      ie_write_identity = (\<lambda>run k db. Some db), ie_loads = plain_loads, ie_render = (\<lambda>v. []), ie_bits = (\<lambda>x. 0),
      ie_dateutil = (\<lambda>s. Inr \<lparr>tm_year = 2020, tm_month = 1, tm_day = 1, tm_hour = 0, tm_minute = 0, tm_second = 0\<rparr>), ie_now = 0\<rparr>"

definition demo_wired :: "((string, int list) dict \<times> (string, run_meta) dict) ingest wiring" where
  "demo_wired = service_wiring (\<lambda>b. Some ''r'')
     (\<lambda>b. Some (PyDict (if b = [1] then [(''metric'', PyStr ''trips''), (''sim_clock'', PyStr ''x'')] else [(''status'', PyStr ''COMPLETED'')]))) demo_ie"

definition demo_message :: "string \<Rightarrow> 8 word \<Rightarrow> message" where
  "demo_message t b = \<lparr>ms_error = None, ms_topic = t, ms_partition = Some 0, ms_offset = Some 0, ms_key = KeyText ''r'', ms_value = [b]\<rparr>"

definition demo_delivery :: "((string, int list) dict \<times> (string, run_meta) dict) ingest delivery" where
  "demo_delivery =
     \<lparr>dl_state = new_consumer \<lparr>in_service = fresh_service ([], []), in_kpi = [], in_identity = []\<rparr>,
      dl_log = (\<lambda>key off. if key = (''kpi_stream'', 0) \<and> off = 0 then Some (demo_message ''kpi_stream'' 1) else None),
      dl_head = (\<lambda>key. 1), dl_pos = (\<lambda>key. 0), dl_pend = {}, dl_done = {}, dl_offered = {}\<rparr>"

definition demo_read :: "((string, int list) dict \<times> (string, run_meta) dict) ingest delivery" where
  "demo_read = do_deliver demo_wired 1 (''kpi_stream'', 0) 0 demo_delivery"

theorem closed_run_is_whole_witness:
  "\<exists>fs st. handle_message demo_wired (\<lambda>k i. True) 2 (demo_message ''run_status'' 2) (dl_state demo_read) = ((True, True), fs, st) \<and>
     ((''kpi_stream'', 0), 0) \<in> dl_done (fold flushed fs demo_read) \<and> ''r'' \<in> sv_finalized (in_service (cs_env st))"
proof -
  let ?msg = "demo_message ''run_status'' 2" and ?start = "\<lambda>key :: partition_key. 0 :: int"
  obtain r fs st where h: "handle_message demo_wired (\<lambda>k i. True) 2 ?msg (dl_state demo_read) = (r, fs, st)" by (metis prod_cases3)
  have "fst (handle_message demo_wired (\<lambda>k i. True) 2 ?msg (dl_state demo_read)) = (True, True)" by code_simp
  then have r: "r = (True, True)" using h by simp
  have starts: "starts ?start demo_delivery" by (auto simp: starts_def demo_delivery_def demo_message_def coords_def split: if_splits)
  have "delivers demo_wired ?start demo_delivery demo_read" unfolding demo_read_def
    by (rule do_deliver_step [of _ _ _ "demo_message ''kpi_stream'' 1"]) (simp_all add: demo_delivery_def)
  then have steps: "(delivers demo_wired ?start)\<^sup>*\<^sup>* demo_delivery demo_read" by simp
  have c: "classify demo_wired ?msg = Inr (''run_status'', ''r'', [(''status'', PyStr ''COMPLETED'')], on_run_status demo_ie)"
    by (simp add: classify_def demo_wired_def service_wiring_def service_handlers_def demo_message_def decode_key_def topic_to_logical_def logical_to_topic_def)
  have e: "should_export_run_status (PyDict [(''status'', PyStr ''COMPLETED'')]) = Some ''completed''" by code_simp
  have log: "dl_log demo_read (''kpi_stream'', 0) 0 \<noteq> None" by (simp add: demo_read_def do_fields demo_delivery_def)
  have pos: "0 < dl_pos demo_read (''kpi_stream'', 0)" by code_simp
  from closed_run_is_whole [OF starts steps [unfolded demo_wired_def] c [unfolded demo_wired_def] e h [unfolded r demo_wired_def] _ log] pos
  show ?thesis using h r by simp
qed

text \<open>
  The remembered identity is the dictionary the truck count is added to, so a status message that carries a truck count never equals it: the row is
  written again for every such message, not once.
\<close>

lemma identity_rewritten:
  assumes "known_identity p \<noteq> []" and "is_int (py_get p ''num_trucks'')" and "map_of (in_identity s) run = None"
    and "ie_write_identity ie run (known_identity p @ [(''n_trucks'', py_get p ''num_trucks'')]) (sv_db (in_service s)) = Some db"
    and "ie_write_identity ie run (known_identity p @ [(''n_trucks'', py_get p ''num_trucks'')]) db = Some db'"
  shows "sv_db (in_service (note_run_identity ie run p (note_run_identity ie run p s))) = db'"
  using assms by (simp add: note_run_identity_def with_service_def Let_def update_conv')

end
