(* ===== verification/Health_Verdict.thy ===== *)
theory Health_Verdict
  imports Task_Supervisor Broker_Lag Archive_Tasks Ingest_Service
begin

text \<open>
  The health report of the data plane (\<open>apps/dataplane/health.py\<close>, \<open>health_payload\<close> of \<open>apps/dataplane/service.py\<close>, \<open>stats\<close> of the consumer): the figures
  of the supervisor, the consumer, the archive, the hot tier and the store become a list of reasons, and the answer is 200 exactly when there is none.
  Ages and durations are milliseconds; figures are the numbers the components report.
\<close>

section \<open>The figures\<close>

record consumer_figures =
  cf_topics :: "string list"
  cf_messages :: nat
  cf_handler_errors :: nat
  cf_decode_errors :: nat
  cf_last_message_age :: "int option"
  cf_uncommitted :: int
  cf_commit_lag :: "(partition_key \<times> int) list"
  cf_broker_lag :: "(partition_key, int) dict"
  cf_broker_total :: int
  cf_broker_unknown :: nat
  cf_broker_rising :: nat
  cf_commit_stuck :: "int option"
  cf_assigned :: nat
  cf_discards :: nat
  cf_last_discard_age :: "int option"

definition consumer_defaults :: consumer_figures where
  "consumer_defaults =
     \<lparr>cf_topics = [], cf_messages = 0, cf_handler_errors = 0, cf_decode_errors = 0, cf_last_message_age = None, cf_uncommitted = 0, cf_commit_lag = [],
      cf_broker_lag = [], cf_broker_total = 0, cf_broker_unknown = 0, cf_broker_rising = 0, cf_commit_stuck = None, cf_assigned = 0, cf_discards = 0,
      cf_last_discard_age = None\<rparr>"

definition age_of :: "int \<Rightarrow> int option \<Rightarrow> int option" where
  "age_of now t = map_option (\<lambda>t. max 0 (now - t)) t"

text \<open>\<open>stats\<close> of the consumer, as far as the report projects it.\<close>

definition consumer_stats :: "int \<Rightarrow> 'e consumer \<Rightarrow> lag_state \<Rightarrow> consumer_figures" where
  "consumer_stats now st lg =
     \<lparr>cf_topics = map snd logical_to_topic, cf_messages = get_or 0 (cs_counts st) ''messages'', cf_handler_errors = get_or 0 (cs_counts st) ''handler_errors'',
      cf_decode_errors = get_or 0 (cs_counts st) ''decode_errors'', cf_last_message_age = age_of now (cs_last_message_at st),
      cf_uncommitted = sum_list (map snd (commit_lag st)) + int (cs_untracked st), cf_commit_lag = commit_lag st, cf_broker_lag = lg_lag lg,
      cf_broker_total = total_lag (lg_lag lg), cf_broker_unknown = lg_unknown lg, cf_broker_rising = lg_rising lg, cf_commit_stuck = commit_stuck now st,
      cf_assigned = lg_assigned lg, cf_discards = cs_discards st, cf_last_discard_age = age_of now (cs_last_discard_at st)\<rparr>"

record archive_figures =
  af_available :: bool
  af_lag_runs :: nat
  af_last_dump :: "int option"
  af_pending :: "string list"

record hot_figures =
  hf_resident :: "string list"
  hf_trucks :: nat
  hf_frames :: int

record store_figures =
  sf_run_ids :: nat
  sf_open_runs :: nat
  sf_rows_dropped :: nat
  sf_frame_failures :: nat

record task_entry =
  te_name :: string
  te_alive :: bool
  te_healthy :: bool
  te_restarts :: nat
  te_last_error :: "string option"
  te_age :: "int option"

definition task_entry_of :: "int \<Rightarrow> task_status \<Rightarrow> task_entry" where
  "task_entry_of now s =
     \<lparr>te_name = ts_name s, te_alive = ts_alive s, te_healthy = ts_healthy s, te_restarts = ts_restarts s, te_last_error = ts_last_error s,
      te_age = age_of now (ts_last_heartbeat s)\<rparr>"

section \<open>The verdict\<close>

definition ingest_stall_after :: int where "ingest_stall_after = 300000"
definition not_consuming_after :: int where "not_consuming_after = 20000"
definition archive_lag_after :: int where "archive_lag_after = 300000"
definition rising_refreshes :: nat where "rising_refreshes = 5"
definition discard_window :: int where "discard_window = 300000"

definition task_reasons :: "task_entry list \<Rightarrow> string list" where
  "task_reasons tasks = map (\<lambda>t. ''task_unhealthy:'' @ te_name t) (filter (\<lambda>t. \<not> te_healthy t) tasks)"

text \<open>\<open>wall\<close> is the wall clock, in which the last dump is recorded.\<close>

definition archive_reasons :: "int \<Rightarrow> int \<Rightarrow> archive_figures \<Rightarrow> string list" where
  "archive_reasons uptime wall af =
     (let pending = (if af_lag_runs af \<noteq> 0 then af_lag_runs af else length (af_pending af));
          lag = (case af_last_dump af of None \<Rightarrow> uptime | Some t \<Rightarrow> max 0 (wall - t))
      in if pending \<noteq> 0 \<and> \<not> af_available af then [''archive_unavailable_with_pending_runs'']
         else if pending \<noteq> 0 \<and> archive_lag_after < lag then [''archive_lagging''] else [])"

definition store_reasons :: "store_figures \<Rightarrow> string list" where
  "store_reasons sf = (if sf_rows_dropped sf \<noteq> 0 then [''store_rows_dropped''] else [])"

definition silence_of :: "int \<Rightarrow> consumer_figures \<Rightarrow> int" where
  "silence_of uptime cf = (case cf_last_message_age cf of None \<Rightarrow> uptime | Some a \<Rightarrow> a)"

definition silence_reasons :: "int \<Rightarrow> consumer_figures \<Rightarrow> string list" where
  "silence_reasons uptime cf =
     (if cf_topics cf \<noteq> [] \<and> cf_assigned cf = 0 then
        (if not_consuming_after < silence_of uptime cf then [''ingest_not_consuming''] else [])
      else if ingest_stall_after < silence_of uptime cf then
        (if cf_broker_total cf \<noteq> 0 \<or> (\<exists>p \<in> set (cf_commit_lag cf). 0 < snd p) then [''ingest_stalled'']
         else if cf_broker_unknown cf \<noteq> 0 then [''ingest_lag_unknown''] else [])
      else [])"

definition progress_reasons :: "consumer_figures \<Rightarrow> string list" where
  "progress_reasons cf =
     (if rising_refreshes \<le> cf_broker_rising cf then [''ingest_behind''] else []) @
     (case cf_commit_stuck cf of None \<Rightarrow> [] | Some t \<Rightarrow> if ingest_stall_after < t then [''ingest_wedged''] else []) @
     (case cf_last_discard_age cf of None \<Rightarrow> [] | Some t \<Rightarrow> if cf_discards cf \<noteq> 0 \<and> t \<le> discard_window then [''ingest_discarding''] else [])"

definition add_extra :: "string list \<Rightarrow> string list \<Rightarrow> string list" where
  "add_extra extra reasons = fold (\<lambda>x acc. if x \<noteq> [] \<and> x \<notin> set acc then acc @ [x] else acc) extra reasons"

record health =
  he_ok :: bool
  he_uptime :: int
  he_degraded :: "string list"
  he_tasks :: "task_entry list"
  he_consumer :: consumer_figures
  he_archive :: archive_figures
  he_hot :: hot_figures
  he_store :: store_figures

definition build_health_payload ::
  "int \<Rightarrow> int \<Rightarrow> int \<Rightarrow> task_status list \<Rightarrow> consumer_figures \<Rightarrow> archive_figures \<Rightarrow> hot_figures \<Rightarrow> store_figures \<Rightarrow> string list \<Rightarrow> health" where
  "build_health_payload now wall uptime reports cf af hf sf extra =
     (let tasks = map (task_entry_of now) reports;
          reasons = add_extra extra (task_reasons tasks @ archive_reasons uptime wall af @ store_reasons sf @ silence_reasons uptime cf @ progress_reasons cf)
      in \<lparr>he_ok = (reasons = []), he_uptime = uptime, he_degraded = reasons, he_tasks = tasks, he_consumer = cf, he_archive = af, he_hot = hf, he_store = sf\<rparr>)"

text \<open>The answer to a request for the report; a provider that raises is \<open>None\<close>.\<close>

definition health_status :: "health option \<Rightarrow> nat" where
  "health_status payload = (case payload of None \<Rightarrow> 503 | Some h \<Rightarrow> if he_ok h then 200 else 503)"

section \<open>The report of the service\<close>

text \<open>Figures the components could not report are defaults, and the failure is a reason of its own.\<close>

definition consumer_block :: "bool \<Rightarrow> int \<Rightarrow> ('e consumer \<times> lag_state) option \<Rightarrow> consumer_figures \<times> string list" where
  "consumer_block fails now con =
     (case con of
        None \<Rightarrow> (consumer_defaults, [])
      | Some (st, lg) \<Rightarrow> if fails then (consumer_defaults, [''consumer_stats_unavailable'']) else (consumer_stats now st lg, []))"

definition hot_block :: "bool \<Rightarrow> hot_store option \<Rightarrow> hot_figures \<times> string list" where
  "hot_block fails h =
     (case h of
        None \<Rightarrow> (\<lparr>hf_resident = [], hf_trucks = 0, hf_frames = 0\<rparr>, [])
      | Some hs \<Rightarrow>
          if fails then (\<lparr>hf_resident = [], hf_trucks = 0, hf_frames = 0\<rparr>, [''hot_stats_unavailable''])
          else (\<lparr>hf_resident = resident_runs hs, hf_trucks = hst_trucks (hot_stats_of hs), hf_frames = hst_frames (hot_stats_of hs)\<rparr>, []))"

definition store_block :: "nat \<Rightarrow> nat \<Rightarrow> 'db service \<Rightarrow> store_figures" where
  "store_block run_ids open_runs sv =
     \<lparr>sf_run_ids = run_ids, sf_open_runs = open_runs, sf_rows_dropped = get_or 0 (sv_counters sv) ''positions_dropped'',
      sf_frame_failures = get_or 0 (sv_counters sv) ''frame_write_failures''\<rparr>"

definition archive_block :: "'b archives \<Rightarrow> archive_figures" where
  "archive_block ac = \<lparr>af_available = pb_available (ac_probe ac), af_lag_runs = length (ac_pending ac), af_last_dump = ac_last_dump ac, af_pending = ac_pending ac\<rparr>"

text \<open>What the report is made from: the tasks, the consumer with its backlog figures, the archive, the service and its store.\<close>

record ('e, 'b, 'db) parts =
  pa_tasks :: supervisor
  pa_consumer :: "('e consumer \<times> lag_state) option"
  pa_consumer_fails :: bool
  pa_hot_fails :: bool
  pa_archive :: "'b archives"
  pa_service :: "'db service"
  pa_run_ids :: nat
  pa_open_runs :: nat
  pa_started_at :: int

definition health_payload :: "int \<Rightarrow> int \<Rightarrow> ('e, 'b, 'db) parts \<Rightarrow> health" where
  "health_payload now wall pa =
     (let cb = consumer_block (pa_consumer_fails pa) now (pa_consumer pa); hb = hot_block (pa_hot_fails pa) (sv_hot (pa_service pa));
          extra = map (\<lambda>n. ''task_stalled:'' @ n) (stalled_tasks now (pa_tasks pa)) @ snd cb @ snd hb
      in build_health_payload now wall (now - pa_started_at pa) (statuses now (pa_tasks pa)) (fst cb) (archive_block (pa_archive pa)) (fst hb)
           (store_block (pa_run_ids pa) (pa_open_runs pa) (pa_service pa)) extra)"

section \<open>What a healthy answer means\<close>

lemma add_extra_Nil: "add_extra extra reasons = [] \<longleftrightarrow> reasons = [] \<and> (\<forall>x \<in> set extra. x = [])"
proof (induction extra arbitrary: reasons)
  case (Cons x extra)
  have "add_extra (x # extra) reasons = add_extra extra (if x \<noteq> [] \<and> x \<notin> set reasons then reasons @ [x] else reasons)" by (simp add: add_extra_def)
  then show ?case using Cons.IH by auto
qed (simp add: add_extra_def)

lemma health_ok_iff:
  "he_ok (build_health_payload now wall uptime reports cf af hf sf extra) \<longleftrightarrow>
     task_reasons (map (task_entry_of now) reports) = [] \<and> archive_reasons uptime wall af = [] \<and> store_reasons sf = [] \<and>
     silence_reasons uptime cf = [] \<and> progress_reasons cf = [] \<and> (\<forall>x \<in> set extra. x = [])"
  by (auto simp: build_health_payload_def Let_def add_extra_Nil)

lemma tasks_healthy: "task_reasons (map (task_entry_of now) (statuses now reg)) = [] \<longleftrightarrow> sup_healthy now reg"
  by (auto simp: task_reasons_def statuses_def sup_healthy_def list_all_iff filter_empty_conv task_entry_of_def status_of_def)

lemma stuck_partition:
  assumes "(key, seen) \<in> set (cs_max_seen st)" "get_or seen (cs_commit_at st) key \<le> seen"
  shows "\<exists>t. commit_stuck now st = Some t \<and> now - get_or now (cs_commit_moved_at st) key \<le> t"
proof -
  let ?ages = "map (\<lambda>(key, behind). now - get_or now (cs_commit_moved_at st) key) (filter (\<lambda>(key, behind). 0 < behind) (commit_lag st))"
  have "(key, seen + 1 - get_or seen (cs_commit_at st) key) \<in> set (commit_lag st)" using assms(1) by (force simp: commit_lag_def)
  then have "(key, seen + 1 - get_or seen (cs_commit_at st) key) \<in> set (filter (\<lambda>(key, behind). 0 < behind) (commit_lag st))" using assms(2) by simp
  then have "now - get_or now (cs_commit_moved_at st) key \<in> set ?ages"
    by (auto intro!: image_eqI [where x = "(key, seen + 1 - get_or seen (cs_commit_at st) key)"])
  then have "?ages \<noteq> []" "now - get_or now (cs_commit_moved_at st) key \<le> Max (set ?ages)" by (auto simp del: set_map)
  then show ?thesis unfolding commit_stuck_def Let_def by auto
qed

text \<open>The backlog figures of any history of refreshes are not negative, so a total of zero leaves none of them open.\<close>

definition lag_nonneg :: "(partition_key, int) dict \<Rightarrow> bool" where
  "lag_nonneg lag \<longleftrightarrow> (\<forall>n \<in> snd ` set lag. 0 \<le> n)"

lemma lag_nonneg_update: "lag_nonneg lag \<Longrightarrow> 0 \<le> n \<Longrightarrow> lag_nonneg (AList.update key n lag)"
  unfolding lag_nonneg_def by (induction lag) auto

lemma measure_key_nonneg:
  assumes "lag_nonneg (lg_lag lg)" "lag_nonneg (fst acc)" shows "lag_nonneg (fst (measure_key heads lg st key acc))"
proof -
  have "0 \<le> n" if "map_of (lg_lag lg) key = Some n" for n using assms(1) map_of_SomeD [OF that] by (force simp: lag_nonneg_def)
  then show ?thesis using assms(2) by (cases acc) (auto simp: measure_key_def intro: lag_nonneg_update split: option.splits)
qed

lemma refresh_nonneg: "lag_nonneg (lg_lag lg) \<Longrightarrow> lag_nonneg (lg_lag (refresh_broker_lag heads now assigned st lg))"
proof -
  assume lg: "lag_nonneg (lg_lag lg)"
  have "lag_nonneg (fst (fold (measure_key heads lg st) keys acc))" if "lag_nonneg (fst acc)" for keys acc
    using that by (induction keys arbitrary: acc) (simp_all add: measure_key_nonneg [OF lg])
  from this [of "([], [], 0)" "lag_keys assigned st"] show ?thesis
    using lg by (auto simp: refresh_broker_lag_def Let_def lag_nonneg_def split: prod.splits)
qed

text \<open>Any history of refreshes and of the bookkeeping of the poll loop, with whatever the client answers.\<close>

datatype 'e lag_event = Refresh "partition_key \<Rightarrow> int option" int "partition_key list option" "'e consumer" | Poll int "partition_key list option"

definition lag_do :: "'e lag_event \<Rightarrow> lag_state \<Rightarrow> lag_state" where
  "lag_do ev lg = (case ev of Refresh heads now assigned st \<Rightarrow> refresh_broker_lag heads now assigned st lg | Poll now assignment \<Rightarrow> poll_bookkeeping now assignment lg)"

lemma lag_after_nonneg: "lag_nonneg (lg_lag (fold lag_do evs new_lag_state))"
proof -
  have "lag_nonneg (lg_lag lg) \<Longrightarrow> lag_nonneg (lg_lag (fold lag_do evs lg))" for lg
  proof (induction evs arbitrary: lg)
    case (Cons ev evs)
    then have "lag_nonneg (lg_lag (lag_do ev lg))" by (cases ev) (simp_all add: lag_do_def refresh_nonneg poll_bookkeeping_def)
    then show ?case using Cons by simp
  qed simp
  from this [of new_lag_state] show ?thesis by (simp add: new_lag_state_def lag_nonneg_def)
qed

lemma total_lag_zero:
  assumes "lag_nonneg lag" "total_lag lag = 0" "map_of lag key = Some n" shows "n = 0"
proof -
  have "\<forall>x \<in> set (map snd lag). 0 \<le> x" using assms(1) by (simp add: lag_nonneg_def)
  then have "\<forall>x \<in> set (map snd lag). x = 0" using assms(2) unfolding total_lag_def using sum_list_nonneg_eq_0_iff [of "map snd lag"] by blast
  then show ?thesis using map_of_SomeD [OF assms(3)] by force
qed

lemma consumer_block_ok:
  assumes "\<forall>x \<in> set (snd (consumer_block fails now (Some (st, lg)))). x = []"
  shows "consumer_block fails now (Some (st, lg)) = (consumer_stats now st lg, [])"
  using assms by (cases fails) (simp_all add: consumer_block_def)

text \<open>
  C19. What a healthy answer certifies, down to the state of the components: every task is healthy and none is stalled; while runs wait, the archive is
  connected and took one within five minutes; no position was lost; a partition with records read and not committed saw its commit point move within five
  minutes; a consumer without partitions is new or has just lost them; and five minutes of silence mean that every partition of the broker was measured and holds nothing more.
\<close>

theorem healthy_answer_means:
  assumes "he_ok (health_payload now wall pa)" and "pa_consumer pa = Some (st, lg)" and "lg = fold lag_do evs new_lag_state"
  shows "(\<forall>(n, c, tk) \<in> set (pa_tasks pa). task_healthy c now tk \<and> \<not> stalled c now tk) \<and>
    (ac_pending (pa_archive pa) \<noteq> [] \<longrightarrow> pb_available (ac_probe (pa_archive pa)) \<and>
       (case ac_last_dump (pa_archive pa) of None \<Rightarrow> now - pa_started_at pa \<le> 300000 | Some t \<Rightarrow> wall - t \<le> 300000)) \<and>
    get_or 0 (sv_counters (pa_service pa)) ''positions_dropped'' = 0 \<and>
    (\<forall>(key, seen) \<in> set (cs_max_seen st). get_or seen (cs_commit_at st) key \<le> seen \<longrightarrow> now - get_or now (cs_commit_moved_at st) key \<le> 300000) \<and>
    (let silence = (case cs_last_message_at st of None \<Rightarrow> now - pa_started_at pa | Some t \<Rightarrow> max 0 (now - t))
     in (lg_assigned lg = 0 \<longrightarrow> silence \<le> 20000) \<and>
        (300000 < silence \<longrightarrow> lg_unknown lg = 0 \<and> (\<forall>key n. map_of (lg_lag lg) key = Some n \<longrightarrow> n = 0)))"
proof -
  let ?cf = "consumer_stats now st lg" and ?af = "archive_block (pa_archive pa)" and ?sf = "store_block (pa_run_ids pa) (pa_open_runs pa) (pa_service pa)"
  let ?up = "now - pa_started_at pa"
  define extra where "extra = map (\<lambda>n. ''task_stalled:'' @ n) (stalled_tasks now (pa_tasks pa)) @ snd (consumer_block (pa_consumer_fails pa) now (pa_consumer pa)) @
      snd (hot_block (pa_hot_fails pa) (sv_hot (pa_service pa)))"
  have ok: "task_reasons (map (task_entry_of now) (statuses now (pa_tasks pa))) = []" "archive_reasons ?up wall ?af = []" "store_reasons ?sf = []"
      "silence_reasons ?up (fst (consumer_block (pa_consumer_fails pa) now (pa_consumer pa))) = []"
      "progress_reasons (fst (consumer_block (pa_consumer_fails pa) now (pa_consumer pa))) = []" "\<forall>x \<in> set extra. x = []"
    using assms(1) unfolding health_payload_def Let_def health_ok_iff extra_def by blast+
  have parts: "\<forall>x \<in> set (snd (consumer_block (pa_consumer_fails pa) now (pa_consumer pa))). x = []"
      "\<forall>x \<in> set (map (\<lambda>n. ''task_stalled:'' @ n) (stalled_tasks now (pa_tasks pa))). x = []"
    using ok(6) unfolding extra_def set_append by blast+
  have cb: "consumer_block (pa_consumer_fails pa) now (pa_consumer pa) = (?cf, [])"
    using parts(1) unfolding assms(2) by (rule consumer_block_ok)
  have stall: "stalled_tasks now (pa_tasks pa) = []" using parts(2) by (cases "stalled_tasks now (pa_tasks pa)") simp_all
  have tasks: "\<forall>(n, c, tk) \<in> set (pa_tasks pa). task_healthy c now tk \<and> \<not> stalled c now tk"
    using ok(1) stall unfolding tasks_healthy by (auto simp: sup_healthy_def list_all_iff stalled_tasks_def filter_empty_conv)
  have arch: "ac_pending (pa_archive pa) \<noteq> [] \<longrightarrow> pb_available (ac_probe (pa_archive pa)) \<and>
      (case ac_last_dump (pa_archive pa) of None \<Rightarrow> ?up \<le> 300000 | Some t \<Rightarrow> wall - t \<le> 300000)"
    using ok(2) by (auto simp: archive_reasons_def archive_block_def Let_def archive_lag_after_def split: if_splits option.splits)
  have store: "get_or 0 (sv_counters (pa_service pa)) ''positions_dropped'' = 0"
    using ok(3) by (simp add: store_reasons_def store_block_def split: if_splits)
  have moved: "now - get_or now (cs_commit_moved_at st) key \<le> 300000" if "(key, seen) \<in> set (cs_max_seen st)" "get_or seen (cs_commit_at st) key \<le> seen" for key seen
    using stuck_partition [OF that, of now] ok(5)
    by (auto simp: cb progress_reasons_def consumer_stats_def ingest_stall_after_def split: if_splits option.splits)
  define silence where "silence = (case cs_last_message_at st of None \<Rightarrow> ?up | Some t \<Rightarrow> max 0 (now - t))"
  have sil: "silence_of ?up ?cf = silence" by (simp add: silence_def silence_of_def consumer_stats_def age_of_def split: option.splits)
  have quiet: "silence_reasons ?up ?cf = []" using ok(4) cb by simp
  have topics: "cf_topics ?cf \<noteq> []" by (simp add: consumer_stats_def logical_to_topic_def)
  have f: "cf_assigned ?cf = lg_assigned lg" "cf_broker_total ?cf = total_lag (lg_lag lg)" "cf_broker_unknown ?cf = lg_unknown lg"
    by (simp_all add: consumer_stats_def)
  have "lg_assigned lg = 0 \<longrightarrow> silence \<le> 20000" using quiet topics by (auto simp: silence_reasons_def sil f not_consuming_after_def split: if_splits)
  moreover have "lg_unknown lg = 0 \<and> total_lag (lg_lag lg) = 0" if "300000 < silence"
    using quiet topics that by (auto simp: silence_reasons_def sil f not_consuming_after_def ingest_stall_after_def split: if_splits)
  ultimately show ?thesis using tasks arch store moved total_lag_zero [of "lg_lag lg"] lag_after_nonneg [of evs] assms(3) unfolding silence_def [symmetric] Let_def by blast
qed

text \<open>
  A service in the middle of its work: a task that reports progress, a consumer with one record read and not committed whose backlog was measured, a run
  that waits for the archive.
\<close>

definition demo_consumer :: "unit consumer" where
  "demo_consumer = (new_consumer ())\<lparr>cs_open := True, cs_commit_at := [((''orders'', 0), 5)], cs_max_seen := [((''orders'', 0), 5)],
     cs_commit_moved_at := [((''orders'', 0), 500000)], cs_last_message_at := Some 590000\<rparr>"

definition demo_lag :: "unit lag_event list" where
  "demo_lag = [Poll 580000 (Some [(''orders'', 0)]), Refresh (\<lambda>key. Some 7) 590000 (Some [(''orders'', 0)]) demo_consumer]"

definition demo_parts :: "(unit, unit, unit) parts" where
  "demo_parts =
     \<lparr>pa_tasks = [(''ingest'', default_cfg 30000 None False,
                    task_after (default_cfg 30000 None False) [StartTask 0, Run 1 1 Returned, Run 1 2 Returned, Run 1 3 Returned, Beat 1 590000])],
      pa_consumer = Some (demo_consumer, fold lag_do demo_lag new_lag_state), pa_consumer_fails = False, pa_hot_fails = False,
      pa_archive = \<lparr>ac_probe = new_probe\<lparr>pb_connected := True, pb_available := True\<rparr>, ac_sets = (\<lambda>r. empty_set), ac_runs = (\<lambda>r. empty_archive),
         ac_last_dump = Some 1000000, ac_pending = [''r1''], ac_counters = []\<rparr>,
      pa_service = fresh_service (), pa_run_ids = 2, pa_open_runs = 1, pa_started_at = 0\<rparr>"

theorem healthy_answer_means_witness:
  "he_ok (health_payload 600000 1200000 demo_parts) \<and>
   list_all (\<lambda>(n, c, tk). task_healthy c 600000 tk \<and> \<not> stalled c 600000 tk) (pa_tasks demo_parts) \<and> pb_available (ac_probe (pa_archive demo_parts)) \<and>
   ((''orders'', 0), 5) \<in> set (cs_max_seen demo_consumer) \<and> 600000 - get_or 600000 (cs_commit_moved_at demo_consumer) (''orders'', 0) \<le> 300000"
proof -
  have ok: "he_ok (health_payload 600000 1200000 demo_parts)" by code_simp
  have con: "pa_consumer demo_parts = Some (demo_consumer, fold lag_do demo_lag new_lag_state)" by (simp add: demo_parts_def)
  have "ac_pending (pa_archive demo_parts) \<noteq> []" by (simp add: demo_parts_def)
  moreover have seen: "((''orders'', 0), 5) \<in> set (cs_max_seen demo_consumer)" "get_or 5 (cs_commit_at demo_consumer) (''orders'', 0) \<le> 5"
    by (simp_all add: demo_consumer_def get_or_def)
  ultimately show ?thesis using healthy_answer_means [OF ok con refl] ok unfolding list_all_iff by fast
qed

section \<open>Two early alarms\<close>

text \<open>
  The alarm on archive lag measures the time since the last dump, not how long a run has waited: a run queued a moment ago turns the answer red when the last
  dump is more than five minutes old.
\<close>

lemma fresh_run_lagging:
  assumes "af_available af" "af_lag_runs af = 1" "af_last_dump af = Some t" "300000 < wall - t"
  shows "archive_reasons uptime wall af = [''archive_lagging'']"
  using assms by (simp add: archive_reasons_def archive_lag_after_def)

text \<open>
  The age of a standing commit point counts the idle time before the record that failed: a record that fails after five minutes of silence is reported as a
  wedged partition at once.
\<close>

lemma wedged_after_idle:
  assumes "map_of (cs_commit_at st) key = Some off" "map_of (cs_commit_moved_at st) key = Some t0" "300000 < now - t0" "get_or (-1) (cs_max_seen st) key < off"
  shows "''ingest_wedged'' \<in> set (progress_reasons (consumer_stats now (note_offset now (key, off) False st) lg))"
proof -
  let ?st = "note_offset now (key, off) False st"
  have "(key, off) \<in> set (cs_max_seen ?st)" using assms(1,4)
    by (simp add: note_offset_def see_offset_def follow_down_def Let_def map_of_SomeD update_conv')
  moreover have "get_or off (cs_commit_at ?st) key \<le> off" "get_or now (cs_commit_moved_at ?st) key = t0"
    using assms(1,2) by (simp_all add: note_offset_def see_offset_def follow_down_def Let_def get_or_def)
  ultimately obtain t where "commit_stuck now ?st = Some t" "now - t0 \<le> t" using stuck_partition [of key off ?st now] by auto
  then show ?thesis using assms(3) by (simp add: progress_reasons_def consumer_stats_def ingest_stall_after_def)
qed

end
