(* ===== verification/Service_Control.thy ===== *)
theory Service_Control
  imports OR_Prelude
begin

text \<open>
  The control plane (\<open>src/openride_control\<close>): the table of backend services with what each depends on, and the manager that starts and stops them,
  runs a simulation and answers commands. The host (containers, processes, ports) is a function from everything that was asked of it so far to the
  next answer, so a service may come up or die between any two calls.
\<close>

section \<open>Services\<close>

datatype service_state = Stopped | Starting | Running | Stopping | Failed | Unknown

datatype kind = Compose string string | Process

text \<open>What is waited for before a service counts as ready; each waits until it succeeds or a deadline passes.\<close>

datatype wait = WaitCompose string string | WaitPort string nat | WaitHttp string | WaitWorkers | WaitDataplane

record service_spec =
  sp_label :: string
  sp_kind :: kind
  sp_dependencies :: "string list"
  sp_dependents :: "string list"
  sp_readiness :: "wait list"
  sp_startable :: bool
  sp_stop_extra :: bool

definition compose :: "string \<Rightarrow> string \<Rightarrow> string \<Rightarrow> string list \<Rightarrow> string list \<Rightarrow> wait list \<Rightarrow> service_spec" where
  "compose label project name deps dependents waits =
     \<lparr>sp_label = label, sp_kind = Compose project name, sp_dependencies = deps, sp_dependents = dependents,
      sp_readiness = WaitCompose project name # waits, sp_startable = False, sp_stop_extra = False\<rparr>"

definition process :: "string \<Rightarrow> string list \<Rightarrow> wait list \<Rightarrow> bool \<Rightarrow> service_spec" where
  "process label deps waits managed =
     \<lparr>sp_label = label, sp_kind = Process, sp_dependencies = deps, sp_dependents = [], sp_readiness = waits, sp_startable = managed, sp_stop_extra = managed\<rparr>"

definition services :: "(string, service_spec) dict" where
  "services =
     [(''kafka'', compose ''Kafka broker'' ''kafka_broker'' ''kafka'' [] [] [WaitPort ''Kafka broker'' 9092]),
      (''mongodb'', compose ''MongoDB'' ''openride_server'' ''mongodb'' [] [''api'', ''analytics'', ''nginx''] [WaitPort ''MongoDB'' 27017]),
      (''api'', compose ''OpenRide API'' ''openride_server'' ''api'' [''mongodb''] [''nginx''] []),
      (''analytics'', compose ''Analytics'' ''openride_server'' ''analytics'' [''mongodb''] [] [WaitPort ''Open Ride analytics'' 11655]),
      (''dataplane'', process ''Dataplane'' [''kafka'', ''mongodb''] [WaitDataplane] True),
      (''victoriametrics'', compose ''VictoriaMetrics'' ''openride_server'' ''victoriametrics'' [''kafka''] [''perf_vm_sink'']
         [WaitPort ''VictoriaMetrics'' 8428, WaitHttp ''http://127.0.0.1:8428/health'']),
      (''perf_vm_sink'', compose ''Perf VM sink'' ''openride_server'' ''perf-vm-sink'' [''kafka'', ''victoriametrics''] [] []),
      (''nginx'', compose ''Nginx gateway'' ''openride_server'' ''nginx'' [''api''] [''celery'']
         [WaitPort ''Open Ride API gateway'' 11654, WaitHttp ''http://127.0.0.1:11654/nginx_status'']),
      (''osrm'', compose ''OSRM routing'' ''openride_server'' ''osrm-routed'' [] [] [WaitPort ''OSRM routed'' 10001]),
      (''rabbit'', compose ''RabbitMQ'' ''repo'' ''rabbit'' [] [''celery'']
         [WaitPort ''RabbitMQ AMQP'' 5672, WaitPort ''RabbitMQ management'' 15672, WaitHttp ''http://127.0.0.1:15672'']),
      (''celery'', process ''Celery workers'' [''rabbit'', ''nginx''] [WaitWorkers] True),
      (''simulation'', process ''Simulation'' [''kafka'', ''mongodb'', ''api'', ''analytics'', ''nginx'', ''osrm'', ''rabbit'', ''celery''] [] False)]"

definition backend_start_order :: "string list" where
  "backend_start_order =
     [''kafka'', ''mongodb'', ''dataplane'', ''victoriametrics'', ''api'', ''analytics'', ''perf_vm_sink'', ''osrm'', ''nginx'', ''rabbit'', ''celery'']"

text \<open>The specification of a known service.\<close>

definition spec :: "string \<Rightarrow> service_spec" where
  "spec key = (case map_of services key of None \<Rightarrow> process key [] [] False | Some s \<Rightarrow> s)"

section \<open>The host\<close>

text \<open>The calls on the host. \<open>Alive\<close> polls the child process held for a service, \<open>Kill\<close> ends it.\<close>

datatype host_call =
    ComposePs string | ComposeUp string string | ComposeStop string string | ComposeRm string string | ComposeDown string
  | Waiting wait | Spawn string | Alive string | Kill string | StopExtra string
  | WorkersHealthy | PingWorkers | DataplaneHealth
  | SimRunning | SimSpawn "(string \<times> string) list" | SimKill | SimStream

datatype host_answer = Yes | No | Names "string list" | Health string string | Exit int | Fails string | Interrupted

type_synonym host = "(host_call \<times> host_answer) list \<Rightarrow> host_call \<Rightarrow> host_answer"

text \<open>The manager: the services whose child process it holds, the states and messages it shows, and the calls so far, newest first.\<close>

record manager =
  mg_processes :: "string list"
  mg_states :: "(string, service_state) dict"
  mg_messages :: "(string, string) dict"
  mg_calls :: "(host_call \<times> host_answer) list"

definition new_manager :: "(host_call \<times> host_answer) list \<Rightarrow> manager" where
  "new_manager past =
     \<lparr>mg_processes = [], mg_states = map (\<lambda>(k, s). (k, Stopped)) services, mg_messages = map (\<lambda>(k, s). (k, '''')) services, mg_calls = past\<rparr>"

definition ask_host :: "host \<Rightarrow> host_call \<Rightarrow> manager \<Rightarrow> host_answer \<times> manager" where
  "ask_host h c mg = (let a = h (mg_calls mg) c in (a, mg\<lparr>mg_calls := (c, a) # mg_calls mg\<rparr>))"

definition set_state :: "string \<Rightarrow> service_state \<Rightarrow> manager \<Rightarrow> manager" where
  "set_state key s mg = mg\<lparr>mg_states := AList.update key s (mg_states mg)\<rparr>"

definition set_message :: "string \<Rightarrow> string \<Rightarrow> manager \<Rightarrow> manager" where
  "set_message key m mg = mg\<lparr>mg_messages := AList.update key m (mg_messages mg)\<rparr>"

definition hold :: "string \<Rightarrow> manager \<Rightarrow> manager" where
  "hold key mg = mg\<lparr>mg_processes := List.insert key (mg_processes mg)\<rparr>"

definition release :: "string \<Rightarrow> manager \<Rightarrow> manager" where
  "release key mg = mg\<lparr>mg_processes := removeAll key (mg_processes mg)\<rparr>"

section \<open>Probes\<close>

text \<open>The answers of one status probe, shared between its services; without a cache every probe asks anew. A failed listing is not kept.\<close>

type_synonym cache = "(host_call, host_answer) dict option"

definition ask_cached :: "host \<Rightarrow> host_call \<Rightarrow> cache \<times> manager \<Rightarrow> host_answer \<times> cache \<times> manager" where
  "ask_cached h c cm =
     (case cm of (cache, mg) \<Rightarrow>
        (case cache of
           None \<Rightarrow> (case ask_host h c mg of (a, mg1) \<Rightarrow> (a, None, mg1))
         | Some m \<Rightarrow>
             (case map_of m c of
                Some a \<Rightarrow> (a, Some m, mg)
              | None \<Rightarrow> (case ask_host h c mg of (a, mg1) \<Rightarrow> (a, Some (case a of Fails e \<Rightarrow> m | _ \<Rightarrow> (c, a) # m), mg1)))))"

text \<open>What an answer says of a service.\<close>

fun shows_up :: "string \<Rightarrow> host_answer \<Rightarrow> bool" where
  "shows_up name (Names ns) \<longleftrightarrow> name \<in> set ns"
| "shows_up name (Health s d) \<longleftrightarrow> s \<noteq> ''down''"
| "shows_up name Yes \<longleftrightarrow> True"
| "shows_up name _ \<longleftrightarrow> False"

definition child_alive :: "host \<Rightarrow> string \<Rightarrow> manager \<Rightarrow> bool \<times> manager" where
  "child_alive h key mg = (if key \<notin> set (mg_processes mg) then (False, mg) else (case ask_host h (Alive key) mg of (a, mg1) \<Rightarrow> (a = Yes, mg1)))"

definition is_compose_running :: "host \<Rightarrow> string \<Rightarrow> string \<Rightarrow> cache \<times> manager \<Rightarrow> bool \<times> cache \<times> manager" where
  "is_compose_running h project name cm = (case ask_cached h (ComposePs project) cm of (a, cm1) \<Rightarrow> (shows_up name a, cm1))"

definition is_process_running :: "host \<Rightarrow> string \<Rightarrow> manager \<Rightarrow> bool \<times> manager" where
  "is_process_running h key mg =
     (case child_alive h key mg of
        (True, mg1) \<Rightarrow> (True, mg1)
      | (False, mg1) \<Rightarrow>
          if key = ''celery'' then (case ask_host h WorkersHealthy mg1 of (a, mg2) \<Rightarrow> (shows_up key a, mg2))
          else if key = ''dataplane'' then (case ask_host h DataplaneHealth mg1 of (a, mg2) \<Rightarrow> (shows_up key a, mg2))
          else (False, mg1))"

definition is_simulation_running :: "host \<Rightarrow> manager \<Rightarrow> bool \<times> manager" where
  "is_simulation_running h mg =
     (case child_alive h ''simulation'' mg of
        (True, mg1) \<Rightarrow> (True, mg1)
      | (False, mg1) \<Rightarrow> (case ask_host h SimRunning mg1 of (a, mg2) \<Rightarrow> (a = Yes, mg2)))"

text \<open>Is the service running?\<close>

definition probe_cached :: "host \<Rightarrow> string \<Rightarrow> cache \<times> manager \<Rightarrow> bool \<times> cache \<times> manager" where
  "probe_cached h key cm =
     (case cm of (cache, mg) \<Rightarrow>
        if key = ''simulation'' then (case is_simulation_running h mg of (b, mg1) \<Rightarrow> (b, cache, mg1))
        else if key = ''celery'' then (case ask_cached h WorkersHealthy cm of (a, cm1) \<Rightarrow> (shows_up key a, cm1))
        else if key = ''dataplane'' then (case ask_cached h DataplaneHealth cm of (a, cm1) \<Rightarrow> (shows_up key a, cm1))
        else
          (case sp_kind (spec key) of
             Compose project name \<Rightarrow> is_compose_running h project name cm
           | Process \<Rightarrow> (case is_process_running h key mg of (b, mg1) \<Rightarrow> (b, cache, mg1))))"

definition probe_state :: "host \<Rightarrow> string \<Rightarrow> manager \<Rightarrow> bool \<times> manager" where
  "probe_state h key mg = (case probe_cached h key (None, mg) of (b, cache, mg1) \<Rightarrow> (b, mg1))"

definition refresh_one :: "host \<Rightarrow> string \<Rightarrow> cache \<times> manager \<Rightarrow> cache \<times> manager" where
  "refresh_one h key cm =
     (if map_of (mg_states (snd cm)) key \<in> {Some Starting, Some Stopping} then cm
      else (case probe_cached h key cm of (b, cache, mg) \<Rightarrow> (cache, set_state key (if b then Running else Stopped) mg)))"

definition refresh_states :: "host \<Rightarrow> cache \<times> manager \<Rightarrow> cache \<times> manager" where
  "refresh_states h cm = fold (refresh_one h) (map fst services) cm"

fun running_of :: "host \<Rightarrow> string list \<Rightarrow> manager \<Rightarrow> string list \<times> manager" where
  "running_of h [] mg = ([], mg)"
| "running_of h (k # ks) mg =
     (case probe_state h k mg of (b, mg1) \<Rightarrow> (case running_of h ks mg1 of (ds, mg2) \<Rightarrow> (if b then k # ds else ds, mg2)))"

definition running_dependents :: "host \<Rightarrow> string \<Rightarrow> manager \<Rightarrow> string list \<times> manager" where
  "running_dependents h key mg = running_of h (sp_dependents (spec key)) mg"

section \<open>Starting a service\<close>

record action_result =
  ar_key :: string
  ar_ok :: bool
  ar_state :: service_state
  ar_message :: string
  ar_blocked_by :: "string list option"

definition result :: "string \<Rightarrow> bool \<Rightarrow> service_state \<Rightarrow> string \<Rightarrow> action_result" where
  "result key ok s msg = \<lparr>ar_key = key, ar_ok = ok, ar_state = s, ar_message = msg, ar_blocked_by = None\<rparr>"

text \<open>A step that may raise gives the text of its exception.\<close>

definition perform :: "host \<Rightarrow> host_call \<Rightarrow> manager \<Rightarrow> string option \<times> manager" where
  "perform h c mg = (case ask_host h c mg of (a, mg1) \<Rightarrow> ((case a of Fails e \<Rightarrow> Some e | _ \<Rightarrow> None), mg1))"

definition exited_text :: "string \<Rightarrow> host_answer \<Rightarrow> string" where
  "exited_text what a = what @ '' exited immediately (code '' @ (case a of Exit n \<Rightarrow> int_str n | _ \<Rightarrow> []) @ '')''"

definition launch :: "host \<Rightarrow> string \<Rightarrow> manager \<Rightarrow> string option \<times> manager" where
  "launch h key mg =
     (case sp_kind (spec key) of
        Compose project name \<Rightarrow> perform h (ComposeUp project name) mg
      | Process \<Rightarrow>
          if \<not> sp_startable (spec key) then (Some (''No start command for '' @ key), mg)
          else (case perform h (Spawn key) mg of
                  (Some e, mg1) \<Rightarrow> (Some e, mg1)
                | (None, mg1) \<Rightarrow>
                    (case ask_host h (Alive key) (hold key mg1) of
                       (a, mg2) \<Rightarrow> (if a = Yes then None else Some (exited_text ''Process'' a), mg2))))"

fun await :: "host \<Rightarrow> wait list \<Rightarrow> manager \<Rightarrow> string option \<times> manager" where
  "await h [] mg = (None, mg)"
| "await h (w # ws) mg = (case perform h (Waiting w) mg of (Some e, mg1) \<Rightarrow> (Some e, mg1) | (None, mg1) \<Rightarrow> await h ws mg1)"

definition bring_up :: "host \<Rightarrow> string \<Rightarrow> manager \<Rightarrow> action_result \<times> manager" where
  "bring_up h key mg =
     (let mg1 = set_message key ''Starting...'' (set_state key Starting mg)
      in (case (case launch h key mg1 of (Some e, mg2) \<Rightarrow> (Some e, mg2) | (None, mg2) \<Rightarrow> await h (sp_readiness (spec key)) mg2) of
            (Some e, mg3) \<Rightarrow> (result key False Failed e, set_message key e (set_state key Failed mg3))
          | (None, mg3) \<Rightarrow> (result key True Running ''Started'', set_message key ''Running'' (set_state key Running mg3))))"

text \<open>The first look at the service: an answer when it runs already.\<close>

definition look :: "host \<Rightarrow> string \<Rightarrow> manager \<Rightarrow> action_result option \<times> manager" where
  "look h key mg =
     (case probe_state h key (snd (refresh_states h (None, mg))) of
        (True, mg1) \<Rightarrow> (let msg = sp_label (spec key) @ '' is already running.'' in (Some (result key True Running msg), set_message key msg mg1))
      | (False, mg1) \<Rightarrow> (None, mg1))"

definition start_alone :: "host \<Rightarrow> string \<Rightarrow> manager \<Rightarrow> action_result \<times> manager" where
  "start_alone h key mg = (case look h key mg of (Some r, mg1) \<Rightarrow> (r, mg1) | (None, mg1) \<Rightarrow> bring_up h key mg1)"

text \<open>How much of the table lies below a service.\<close>

definition weight :: "string \<Rightarrow> nat" where
  "weight key =
     (case map_of [(''api'', 3), (''analytics'', 3), (''dataplane'', 5), (''victoriametrics'', 3), (''perf_vm_sink'', 7), (''nginx'', 5), (''celery'', 9),
                   (''simulation'', 33)] key of
        None \<Rightarrow> 1 | Some n \<Rightarrow> n)"

lemma spec_cases:
  assumes "\<And>k s. (k, s) \<in> set services \<Longrightarrow> P k s" and "P key (process key [] [] False)" shows "P key (spec key)"
proof (cases "map_of services key")
  case (Some s)
  then show ?thesis using assms(1) [OF map_of_SomeD [OF Some]] by (simp add: spec_def)
qed (simp add: spec_def assms(2))

lemma weight_pos: "0 < weight key"
  by (auto simp: weight_def)

lemma weight_dependencies: "sum_list (map (\<lambda>d. weight d + 1) (sp_dependencies (spec key))) < weight key"
proof (rule spec_cases [where P = "\<lambda>k s. sum_list (map (\<lambda>d. weight d + 1) (sp_dependencies s)) < weight k"])
  fix k s assume "(k, s) \<in> set services"
  then show "sum_list (map (\<lambda>d. weight d + 1) (sp_dependencies s)) < weight k"
    by (simp add: services_def) (elim disjE; simp add: weight_def compose_def process_def)
qed (simp add: process_def weight_pos)

text \<open>With its dependencies: those that are not running are started first, each with its own.\<close>

function start_rec :: "host \<Rightarrow> string \<Rightarrow> manager \<Rightarrow> action_result \<times> manager"
  and start_deps :: "host \<Rightarrow> string list \<Rightarrow> manager \<Rightarrow> action_result option \<times> manager" where
  "start_rec h key mg =
     (case look h key mg of
        (Some r, mg1) \<Rightarrow> (r, mg1)
      | (None, mg1) \<Rightarrow>
          (case start_deps h (sp_dependencies (spec key)) mg1 of (Some r, mg2) \<Rightarrow> (r, mg2) | (None, mg2) \<Rightarrow> bring_up h key mg2))"
| "start_deps h [] mg = (None, mg)"
| "start_deps h (d # ds) mg =
     (case probe_state h d mg of
        (True, mg1) \<Rightarrow> start_deps h ds mg1
      | (False, mg1) \<Rightarrow> (case start_rec h d mg1 of (r, mg2) \<Rightarrow> if ar_ok r then start_deps h ds mg2 else (Some r, mg2)))"
  by pat_completeness auto
termination
  by (relation "measure (\<lambda>x. case x of Inl (h, key, mg) \<Rightarrow> weight key | Inr (h, ds, mg) \<Rightarrow> sum_list (map (\<lambda>d. weight d + 1) ds))")
    (simp_all add: weight_dependencies [simplified] weight_pos)

declare start_rec.simps [simp del]

section \<open>Stopping a service\<close>

definition terminate :: "host \<Rightarrow> string \<Rightarrow> manager \<Rightarrow> string option \<times> manager" where
  "terminate h key mg = (case ask_host h (Alive key) mg of (a, mg1) \<Rightarrow> if a = Yes then perform h (Kill key) mg1 else (None, mg1))"

text \<open>Take the child process out of the books and end it if it is still there.\<close>

definition drop_child :: "host \<Rightarrow> string \<Rightarrow> manager \<Rightarrow> string option \<times> manager" where
  "drop_child h key mg = (if key \<in> set (mg_processes mg) then terminate h key (release key mg) else (None, mg))"

definition stop_compose :: "host \<Rightarrow> string \<Rightarrow> string \<Rightarrow> string \<Rightarrow> manager \<Rightarrow> string option \<times> manager" where
  "stop_compose h label project name mg =
     (case perform h (ComposeStop project name) mg of
        (Some e, mg1) \<Rightarrow> (Some e, mg1)
      | (None, mg1) \<Rightarrow>
          (case perform h (ComposeRm project name) mg1 of
             (Some e, mg2) \<Rightarrow> (Some e, mg2)
           | (None, mg2) \<Rightarrow>
               (case is_compose_running h project name (None, mg2) of
                  (b, cache, mg3) \<Rightarrow> (if b then Some (label @ '' is still running after docker compose stop'') else None, mg3))))"

definition stop_process :: "host \<Rightarrow> string \<Rightarrow> manager \<Rightarrow> string option \<times> manager" where
  "stop_process h key mg =
     (case drop_child h key mg of
        (Some e, mg1) \<Rightarrow> (Some e, mg1)
      | (None, mg1) \<Rightarrow>
          (let mg2 = (if sp_stop_extra (spec key) then snd (ask_host h (StopExtra key) mg1) else mg1)
           in (case is_process_running h key mg2 of (b, mg3) \<Rightarrow> (if b then Some (sp_label (spec key) @ '' is still running after stop'') else None, mg3))))"

definition take_down :: "host \<Rightarrow> string \<Rightarrow> manager \<Rightarrow> action_result \<times> manager" where
  "take_down h key mg =
     (let mg1 = set_message key ''Stopping...'' (set_state key Stopping mg)
      in (case (case sp_kind (spec key) of
                  Compose project name \<Rightarrow> stop_compose h (sp_label (spec key)) project name mg1 | Process \<Rightarrow> stop_process h key mg1) of
            (Some e, mg2) \<Rightarrow> (result key False Failed e, set_message key e (set_state key Failed mg2))
          | (None, mg2) \<Rightarrow> (result key True Stopped ''Stopped'', set_message key [] (set_state key Stopped mg2))))"

definition stop_one :: "host \<Rightarrow> string \<Rightarrow> bool \<Rightarrow> manager \<Rightarrow> action_result \<times> manager" where
  "stop_one h key force mg =
     (case probe_state h key (snd (refresh_states h (None, mg))) of
        (False, mg1) \<Rightarrow> (result key True Stopped (sp_label (spec key) @ '' is not running.''), set_message key [] (set_state key Stopped mg1))
      | (True, mg1) \<Rightarrow>
          (case running_dependents h key mg1 of
             (dependents, mg2) \<Rightarrow>
               if dependents \<noteq> [] \<and> \<not> force then
                 (let msg = ''Stop dependents first: '' @ join_str '', '' (map (\<lambda>d. sp_label (spec d)) dependents)
                  in ((result key False Running msg)\<lparr>ar_blocked_by := Some dependents\<rparr>, set_message key msg mg2))
               else take_down h key mg2))"

section \<open>Simulations\<close>

record run_options =
  ro_scenario :: "string option"
  ro_run_name :: "string option"
  ro_run_id :: "string option"
  ro_solver :: "string option"
  ro_cooperation_structure :: "string option"
  ro_sharing_policy :: "string option"
  ro_order_lifecycle :: "string option"

definition no_options :: run_options where
  "no_options =
     \<lparr>ro_scenario = None, ro_run_name = None, ro_run_id = None, ro_solver = None, ro_cooperation_structure = None, ro_sharing_policy = None,
      ro_order_lifecycle = None\<rparr>"

definition env_var :: "string \<Rightarrow> string option \<Rightarrow> (string \<times> string) list" where
  "env_var name v = (case v of None \<Rightarrow> [] | Some s \<Rightarrow> if strip s \<noteq> [] then [(name, strip s)] else [])"

definition extra_env :: "run_options \<Rightarrow> (string \<times> string) list" where
  "extra_env o' =
     (case ro_scenario o' of None \<Rightarrow> [] | Some s \<Rightarrow> if s \<noteq> [] then [(''ORSIM_SCENARIO'', s)] else []) @ env_var ''ORSIM_RUN_NAME'' (ro_run_name o') @
     env_var ''ORSIM_RUN_ID'' (ro_run_id o') @ env_var ''ORSIM_SOLVER'' (ro_solver o') @ env_var ''ORSIM_COOP_STRUCTURE'' (ro_cooperation_structure o') @
     env_var ''ORSIM_SHARING_POLICY'' (ro_sharing_policy o') @ env_var ''ORSIM_ORDER_LIFECYCLE'' (ro_order_lifecycle o')"

fun ensure_each :: "host \<Rightarrow> string list \<Rightarrow> manager \<Rightarrow> action_result option \<times> manager" where
  "ensure_each h [] mg = (None, mg)"
| "ensure_each h (k # ks) mg =
     (case probe_state h k mg of
        (True, mg1) \<Rightarrow> ensure_each h ks mg1
      | (False, mg1) \<Rightarrow> (case start_alone h k mg1 of (r, mg2) \<Rightarrow> if ar_ok r then ensure_each h ks mg2 else (Some r, mg2)))"

text \<open>The workers may be listed and dead after their broker restarted: two unanswered pings replace them.\<close>

definition revive_workers :: "host \<Rightarrow> manager \<Rightarrow> action_result option \<times> manager" where
  "revive_workers h mg =
     (let mg1 = set_state ''celery'' Stopped (release ''celery'' (snd (ask_host h (StopExtra ''celery'') mg)))
      in (case start_rec h ''celery'' mg1 of (r, mg2) \<Rightarrow> (if ar_ok r then None else Some r, mg2)))"

definition ensure_backend :: "host \<Rightarrow> manager \<Rightarrow> action_result option \<times> manager" where
  "ensure_backend h mg =
     (case ensure_each h backend_start_order mg of
        (Some r, mg1) \<Rightarrow> (Some r, mg1)
      | (None, mg1) \<Rightarrow>
          (case ask_host h PingWorkers mg1 of
             (a, mg2) \<Rightarrow>
               if a = Yes then (None, mg2)
               else (case ask_host h PingWorkers mg2 of (a', mg3) \<Rightarrow> if a' = Yes then (None, mg3) else revive_workers h mg3)))"

definition stop_simulation :: "host \<Rightarrow> manager \<Rightarrow> string option \<times> manager" where
  "stop_simulation h mg =
     (case drop_child h ''simulation'' mg of
        (Some e, mg1) \<Rightarrow> (Some e, mg1)
      | (None, mg1) \<Rightarrow> (case ask_host h SimKill mg1 of (a, mg2) \<Rightarrow> (if a = Yes then None else Some ''Simulation is still running after stop'', mg2)))"

definition simulation_state :: "service_state \<Rightarrow> string \<Rightarrow> manager \<Rightarrow> manager" where
  "simulation_state s msg mg = set_message ''simulation'' msg (set_state ''simulation'' s mg)"

definition stop_simulation_command :: "host \<Rightarrow> manager \<Rightarrow> action_result \<times> manager" where
  "stop_simulation_command h mg =
     (case is_simulation_running h mg of
        (False, mg1) \<Rightarrow> (result ''simulation'' True Stopped ''Simulation is not running.'', simulation_state Stopped [] mg1)
      | (True, mg1) \<Rightarrow>
          (case stop_simulation h (simulation_state Stopping ''Stopping...'' mg1) of
             (None, mg2) \<Rightarrow> (result ''simulation'' True Stopped ''Simulation stopped.'', simulation_state Stopped [] mg2)
           | (Some e, mg2) \<Rightarrow> (result ''simulation'' False Failed e, simulation_state Failed e mg2)))"

text \<open>Spawn the process and look at it two seconds later.\<close>

definition spawn_simulation :: "host \<Rightarrow> (string \<times> string) list \<Rightarrow> manager \<Rightarrow> string option \<times> manager" where
  "spawn_simulation h env mg =
     (case perform h (SimSpawn env) mg of
        (Some e, mg1) \<Rightarrow> (Some e, mg1)
      | (None, mg1) \<Rightarrow>
          (case ask_host h (Alive ''simulation'') (hold ''simulation'' mg1) of
             (a, mg2) \<Rightarrow> (if a = Yes then None else Some (exited_text ''Simulation'' a), mg2)))"

definition run_simulation_background :: "host \<Rightarrow> run_options \<Rightarrow> manager \<Rightarrow> action_result \<times> manager" where
  "run_simulation_background h opts mg =
     (case is_simulation_running h mg of
        (True, mg1) \<Rightarrow> (result ''simulation'' False Running ''Simulation is already running.'', mg1)
      | (False, mg1) \<Rightarrow>
          (case ensure_backend h (simulation_state Starting ''Starting...'' mg1) of
             (Some r, mg2) \<Rightarrow> (r, simulation_state Failed (ar_message r) mg2)
           | (None, mg2) \<Rightarrow>
               (case spawn_simulation h (extra_env opts) mg2 of
                  (None, mg3) \<Rightarrow> (result ''simulation'' True Running ''Simulation started in background.'', simulation_state Running ''Running'' mg3)
                | (Some e, mg3) \<Rightarrow> (result ''simulation'' False Failed e, snd (stop_simulation h (simulation_state Failed e mg3))))))"

text \<open>The thread that waits for a background simulation, when it ends.\<close>

definition simulation_ended :: "int \<Rightarrow> manager \<Rightarrow> manager" where
  "simulation_ended code mg =
     (if code = 0 then simulation_state Stopped ''Completed.'' (release ''simulation'' mg)
      else simulation_state Failed (''Exited with code '' @ int_str code @ ''.'') (release ''simulation'' mg))"

text \<open>In the foreground: an exception while a failed or interrupted simulation is stopped leaves the call.\<close>

definition after_stop :: "host \<Rightarrow> action_result \<Rightarrow> manager \<Rightarrow> (string + action_result) \<times> manager" where
  "after_stop h r mg = (case stop_simulation h mg of (Some e, mg1) \<Rightarrow> (Inl e, mg1) | (None, mg1) \<Rightarrow> (Inr r, mg1))"

definition run_simulation_foreground :: "host \<Rightarrow> manager \<Rightarrow> (string + action_result) \<times> manager" where
  "run_simulation_foreground h mg =
     (case is_simulation_running h mg of
        (True, mg1) \<Rightarrow> (Inr (result ''simulation'' False Running ''Simulation is already running.''), mg1)
      | (False, mg1) \<Rightarrow>
          (case ensure_backend h mg1 of
             (Some r, mg2) \<Rightarrow> (Inr r, mg2)
           | (None, mg2) \<Rightarrow>
               (case spawn_simulation h [] mg2 of
                  (Some e, mg3) \<Rightarrow> after_stop h (result ''simulation'' False Failed e) mg3
                | (None, mg3) \<Rightarrow>
                    (case ask_host h SimStream mg3 of
                       (a, mg4) \<Rightarrow>
                         (case a of
                            Interrupted \<Rightarrow> after_stop h (result ''simulation'' False Stopped ''Simulation stopped (Ctrl+C).'') mg4
                          | Fails e \<Rightarrow> after_stop h (result ''simulation'' False Failed e) mg4
                          | Exit n \<Rightarrow>
                              (Inr (if n = 0 then result ''simulation'' True Stopped ''Simulation completed.''
                                    else result ''simulation'' False Failed (''Simulation failed (exit code '' @ int_str n @ '').'')),
                               release ''simulation'' mg4)
                          | _ \<Rightarrow> (Inr (result ''simulation'' True Stopped ''Simulation completed.''), release ''simulation'' mg4))))))"

definition start :: "host \<Rightarrow> string \<Rightarrow> bool \<Rightarrow> manager \<Rightarrow> action_result \<times> manager" where
  "start h key with_dependencies mg =
     (if key = ''simulation'' then run_simulation_background h no_options mg
      else if with_dependencies then start_rec h key mg else start_alone h key mg)"

definition stop :: "host \<Rightarrow> string \<Rightarrow> bool \<Rightarrow> manager \<Rightarrow> action_result \<times> manager" where
  "stop h key force mg = (if key = ''simulation'' then stop_simulation_command h mg else stop_one h key force mg)"

section \<open>The whole backend\<close>

text \<open>Steps over several services, each with a result.\<close>

fun each :: "('k \<Rightarrow> manager \<Rightarrow> 'r \<times> manager) \<Rightarrow> 'k list \<Rightarrow> manager \<Rightarrow> 'r list \<times> manager" where
  "each f [] mg = ([], mg)"
| "each f (k # ks) mg = (case f k mg of (r, mg1) \<Rightarrow> (case each f ks mg1 of (rs, mg2) \<Rightarrow> (r # rs, mg2)))"

definition start_backend :: "host \<Rightarrow> manager \<Rightarrow> action_result list \<times> manager" where
  "start_backend h mg = each (start_alone h) backend_start_order mg"

definition project_of :: "string \<Rightarrow> string option" where
  "project_of key = (case sp_kind (spec key) of Compose project name \<Rightarrow> Some project | Process \<Rightarrow> None)"

text \<open>Report a service of a project that could not be handled, or has been brought down.\<close>

definition report_down :: "host \<Rightarrow> (string \<Rightarrow> string) \<Rightarrow> (string \<Rightarrow> string) \<Rightarrow> string \<Rightarrow> manager \<Rightarrow> action_result \<times> manager" where
  "report_down h up_msg down_msg key mg =
     (case probe_state h key mg of
        (True, mg1) \<Rightarrow> (result key False Failed (up_msg key), set_message key (up_msg key) (set_state key Failed mg1))
      | (False, mg1) \<Rightarrow> (result key True Stopped (down_msg key), set_message key [] (set_state key Stopped mg1)))"

definition not_running_text :: "string \<Rightarrow> string" where
  "not_running_text key = sp_label (spec key) @ '' is not running.''"

definition stop_project :: "host \<Rightarrow> string \<Rightarrow> manager \<Rightarrow> action_result list \<times> manager" where
  "stop_project h project mg =
     (let keys = filter (\<lambda>k. project_of k = Some project) (map fst services);
          ordered = rev (filter (\<lambda>k. k \<in> set keys) backend_start_order)
      in (case running_of h keys mg of
            (before, mg1) \<Rightarrow>
              (case ask_host h (ComposePs project) mg1 of
                 (Fails e, mg2) \<Rightarrow> each (report_down h (\<lambda>k. e) not_running_text) ordered mg2
               | (a, mg2) \<Rightarrow>
                   (case (case a of Names (n # ns) \<Rightarrow> perform h (ComposeDown project) mg2 | _ \<Rightarrow> (None, mg2)) of
                      (Some e, mg3) \<Rightarrow> each (report_down h (\<lambda>k. e) not_running_text) ordered mg3
                    | (None, mg3) \<Rightarrow>
                        each (report_down h (\<lambda>k. sp_label (spec k) @ '' is still running.'')
                               (\<lambda>k. if k \<in> set before then ''Stopped'' else not_running_text k)) ordered mg3))))"

definition stop_all_services :: "host \<Rightarrow> bool \<Rightarrow> manager \<Rightarrow> action_result list \<times> manager" where
  "stop_all_services h force mg =
     (case (case is_simulation_running h mg of
              (False, mg1) \<Rightarrow> ([], mg1)
            | (True, mg1) \<Rightarrow>
                (case stop_simulation h mg1 of
                   (None, mg2) \<Rightarrow> ([result ''simulation'' True Stopped ''Simulation stopped.''], mg2)
                 | (Some e, mg2) \<Rightarrow> ([result ''simulation'' False Failed e], mg2))) of
        (rs, mg3) \<Rightarrow>
          (case each (\<lambda>k. stop_one h k force) (filter (\<lambda>k. sp_kind (spec k) = Process) (rev backend_start_order)) mg3 of
             (rs1, mg4) \<Rightarrow>
               (case each (stop_project h) (rev (remdups (List.map_filter project_of backend_start_order))) mg4 of
                  (rss, mg5) \<Rightarrow> (rs @ rs1 @ concat rss, mg5))))"

section \<open>Snapshots\<close>

record service_snapshot =
  sn_key :: string
  sn_state :: service_state
  sn_message :: string
  sn_health :: string

text \<open>A service in transition is shown as such unless the probe already agrees with where it is going; a failed one is shown as failed.\<close>

definition snapshot_of :: "host \<Rightarrow> string \<Rightarrow> cache \<times> manager \<Rightarrow> service_snapshot \<times> cache \<times> manager" where
  "snapshot_of h key cm =
     (let transitional = map_of (mg_states (snd cm)) key
      in (case probe_cached h key cm of
            (up, cache, mg) \<Rightarrow>
              (case (if transitional = Some Starting \<and> up then (None, set_message key ''Running'' (set_state key Running mg))
                     else if transitional = Some Stopping \<and> \<not> up then (None, set_message key [] (set_state key Stopped mg))
                     else (transitional, mg)) of
                 (transitional, mg1) \<Rightarrow>
                   (let probed = (if up then Running else Stopped);
                        shown = (case transitional of None \<Rightarrow> probed | Some s \<Rightarrow> if s \<in> {Starting, Stopping, Failed} then s else probed);
                        mg2 = (case transitional of
                                 None \<Rightarrow> set_state key probed mg1
                               | Some s \<Rightarrow> if s \<in> {Starting, Stopping, Failed} then mg1 else set_state key probed mg1);
                        message = (case map_of (mg_messages mg2) key of None \<Rightarrow> [] | Some m \<Rightarrow> m)
                    in if key = ''dataplane'' \<and> shown = Running then
                         (case ask_cached h DataplaneHealth (cache, mg2) of
                            (a, cm3) \<Rightarrow>
                              (case a of
                                 Health s d \<Rightarrow>
                                   (if s = ''degraded'' then
                                      (\<lparr>sn_key = key, sn_state = shown, sn_message = (if d \<noteq> [] then d else ''reporting degraded''), sn_health = ''degraded''\<rparr>, cm3)
                                    else (\<lparr>sn_key = key, sn_state = shown, sn_message = message, sn_health = ''ok''\<rparr>, cm3))
                               | _ \<Rightarrow> (\<lparr>sn_key = key, sn_state = shown, sn_message = message, sn_health = ''ok''\<rparr>, cm3)))
                       else (\<lparr>sn_key = key, sn_state = shown, sn_message = message, sn_health = ''ok''\<rparr>, (cache, mg2))))))"

definition snapshot_now :: "host \<Rightarrow> string \<Rightarrow> manager \<Rightarrow> service_snapshot \<times> manager" where
  "snapshot_now h key mg = (case snapshot_of h key (None, mg) of (s, cache, mg1) \<Rightarrow> (s, mg1))"

text \<open>One listing per project, shared by all services of the probe; a failed listing counts as empty.\<close>

definition projects :: "string list" where
  "projects = remdups (List.map_filter (\<lambda>(k, s). case sp_kind s of Compose p n \<Rightarrow> Some p | Process \<Rightarrow> None) services)"

definition compose_cache :: "host \<Rightarrow> manager \<Rightarrow> cache \<times> manager" where
  "compose_cache h mg =
     (case each (\<lambda>p mg. case ask_host h (ComposePs p) mg of (a, mg1) \<Rightarrow> ((ComposePs p, case a of Names ns \<Rightarrow> Names ns | _ \<Rightarrow> Names []), mg1)) projects mg of
        (m, mg1) \<Rightarrow> (Some m, mg1))"

fun snapshots_of :: "host \<Rightarrow> string list \<Rightarrow> cache \<times> manager \<Rightarrow> service_snapshot list \<times> cache \<times> manager" where
  "snapshots_of h [] cm = ([], cm)"
| "snapshots_of h (k # ks) cm = (case snapshot_of h k cm of (s, cm1) \<Rightarrow> (case snapshots_of h ks cm1 of (ss, cm2) \<Rightarrow> (s # ss, cm2)))"

definition all_snapshots :: "host \<Rightarrow> manager \<Rightarrow> service_snapshot list \<times> manager" where
  "all_snapshots h mg =
     (case snapshots_of h (backend_start_order @ [''simulation'']) (refresh_states h (compose_cache h mg)) of (ss, cache, mg1) \<Rightarrow> (ss, mg1))"

section \<open>Commands\<close>

record control_command =
  cc_id :: string
  cc_action :: string
  cc_service :: "string option"
  cc_with_dependencies :: bool
  cc_force :: bool

definition command_of :: "(pyval \<Rightarrow> string) \<Rightarrow> (string, pyval) dict \<Rightarrow> control_command" where
  "command_of render d =
     (let text_of = (\<lambda>v. if truthy v then py_str render v else [])
      in \<lparr>cc_id = (if truthy (py_get d ''commandId'') then py_str render (py_get d ''commandId'') else text_of (py_get d ''command_id'')),
          cc_action = map lower_char (strip (text_of (py_get d ''action''))),
          cc_service = (if truthy (py_get d ''service'') then Some (strip (py_str render (py_get d ''service''))) else None),
          cc_with_dependencies = truthy (py_get_or d ''withDependencies'' (py_get_or d ''with_dependencies'' (PyBool True))),
          cc_force = truthy (py_get_or d ''force'' (PyBool False))\<rparr>)"

record control_event =
  ce_id :: string
  ce_ok :: bool
  ce_action :: string
  ce_service :: "string option"
  ce_message :: string
  ce_blocked_by :: "string list"

definition event_of :: "control_command \<Rightarrow> bool \<Rightarrow> string option \<Rightarrow> string \<Rightarrow> control_event" where
  "event_of cmd ok service msg =
     \<lparr>ce_id = cc_id cmd, ce_ok = ok, ce_action = cc_action cmd, ce_service = service, ce_message = msg, ce_blocked_by = []\<rparr>"

definition text_option :: "(string, pyval) dict \<Rightarrow> string \<Rightarrow> string option" where
  "text_option d k = (case py_get d k of PyStr s \<Rightarrow> if strip s \<noteq> [] then Some (strip s) else None | _ \<Rightarrow> None)"

definition known_service :: "control_command \<Rightarrow> string option" where
  "known_service cmd = (case cc_service cmd of None \<Rightarrow> None | Some s \<Rightarrow> if s \<noteq> [] \<and> map_of services s \<noteq> None then Some s else None)"

text \<open>The answer to a command about one service: its event, then the status of the service and of all.\<close>

definition answer_one :: "host \<Rightarrow> control_command \<Rightarrow> action_result \<Rightarrow> manager \<Rightarrow> control_event \<times> manager" where
  "answer_one h cmd r mg =
     (let key = (case cc_service cmd of None \<Rightarrow> ar_key r | Some s \<Rightarrow> if s \<noteq> [] then s else ar_key r);
          mg1 = (if map_of services key \<noteq> None then snd (snapshot_now h key mg) else mg)
      in ((event_of cmd (ar_ok r) (Some key) (ar_message r))\<lparr>ce_blocked_by := (case ar_blocked_by r of None \<Rightarrow> [] | Some ks \<Rightarrow> ks)\<rparr>, snd (all_snapshots h mg1)))"

definition answer_all :: "host \<Rightarrow> control_command \<Rightarrow> string \<Rightarrow> string \<Rightarrow> action_result list \<Rightarrow> manager \<Rightarrow> control_event \<times> manager" where
  "answer_all h cmd good bad rs mg = (let ok = list_all ar_ok rs in (event_of cmd ok None (if ok then good else bad), snd (all_snapshots h mg)))"

text \<open>The id \<open>fresh\<close> is given to a command without one.\<close>

definition handle_command :: "host \<Rightarrow> (pyval \<Rightarrow> string) \<Rightarrow> string \<Rightarrow> (string, pyval) dict \<Rightarrow> manager \<Rightarrow> control_event \<times> manager" where
  "handle_command h render fresh d mg =
     (let cmd0 = command_of render d; cmd = (if cc_id cmd0 = [] then cmd0\<lparr>cc_id := fresh\<rparr> else cmd0);
          refuse = (\<lambda>what x. (event_of cmd False (cc_service cmd) (''Unknown '' @ what @ '': '' @ x), mg));
          shown = (\<lambda>s. case s of None \<Rightarrow> ''None'' | Some x \<Rightarrow> [CHR 0x27] @ x @ [CHR 0x27])
      in if cc_action cmd = ''start'' then
           (case known_service cmd of None \<Rightarrow> refuse ''service'' (shown (cc_service cmd))
            | Some s \<Rightarrow> (case start h s (cc_with_dependencies cmd) mg of (r, mg1) \<Rightarrow> answer_one h cmd r mg1))
         else if cc_action cmd = ''stop'' then
           (case known_service cmd of None \<Rightarrow> refuse ''service'' (shown (cc_service cmd))
            | Some s \<Rightarrow> (case stop h s (cc_force cmd) mg of (r, mg1) \<Rightarrow> answer_one h cmd r mg1))
         else if cc_action cmd = ''start_backend'' then
           (case start_backend h mg of (rs, mg1) \<Rightarrow> answer_all h cmd ''Backend start finished'' ''Some services failed to start'' rs mg1)
         else if cc_action cmd = ''stop_all'' then
           (case stop_all_services h (cc_force cmd) mg of (rs, mg1) \<Rightarrow> answer_all h cmd ''Stop all finished'' ''Some services failed to stop'' rs mg1)
         else if cc_action cmd = ''run_simulation'' then
           (case run_simulation_background h
                   (no_options\<lparr>ro_scenario := text_option d ''scenario'',
                               ro_run_name := (case text_option d ''runName'' of Some s \<Rightarrow> Some s | None \<Rightarrow> text_option d ''run_name'')\<rparr>) mg of
              (r, mg1) \<Rightarrow> answer_one h cmd r mg1)
         else if cc_action cmd = ''stop_simulation'' then (case stop_simulation_command h mg of (r, mg1) \<Rightarrow> answer_one h cmd r mg1)
         else refuse ''action'' (shown (Some (cc_action cmd))))"

section \<open>What a call asks of the host\<close>

text \<open>Whether a call only looks.\<close>

fun looks_only :: "host_call \<Rightarrow> bool" where
  "looks_only (ComposePs p) \<longleftrightarrow> True"
| "looks_only (Alive k) \<longleftrightarrow> True"
| "looks_only WorkersHealthy \<longleftrightarrow> True"
| "looks_only DataplaneHealth \<longleftrightarrow> True"
| "looks_only SimRunning \<longleftrightarrow> True"
| "looks_only _ \<longleftrightarrow> False"

text \<open>Between two managers the host was asked, and only looked at; nothing else but states, messages and children may differ.\<close>

definition looked :: "manager \<Rightarrow> manager \<Rightarrow> bool" where
  "looked mg mg' \<longleftrightarrow> (\<exists>l. mg_calls mg' = l @ mg_calls mg \<and> (\<forall>e \<in> set l. looks_only (fst e)))"

lemma looked_refl [simp]: "looked mg mg"
  by (simp add: looked_def)

lemma looked_trans [trans]: "looked a b \<Longrightarrow> looked b c \<Longrightarrow> looked a c"
  unfolding looked_def by force

lemma calls_set [simp]:
  "mg_calls (set_state k s mg) = mg_calls mg" "mg_calls (set_message k m mg) = mg_calls mg" "mg_calls (hold k mg) = mg_calls mg"
  "mg_calls (release k mg) = mg_calls mg" "mg_calls (simulation_state s m mg) = mg_calls mg"
  by (simp_all add: set_state_def set_message_def hold_def release_def simulation_state_def)

lemma looked_set [simp]:
  "looked a (set_state k s mg) \<longleftrightarrow> looked a mg" "looked a (set_message k m mg) \<longleftrightarrow> looked a mg" "looked (set_state k s mg) a \<longleftrightarrow> looked mg a"
  "looked (set_message k m mg) a \<longleftrightarrow> looked mg a" "looked (release k mg) a \<longleftrightarrow> looked mg a"
  by (simp_all add: looked_def)

lemma ask_host_looks: "looks_only c \<Longrightarrow> ask_host h c mg = (a, mg') \<Longrightarrow> looked mg mg'"
  by (auto simp: ask_host_def looked_def Let_def)

lemma ask_cached_looks: "looks_only c \<Longrightarrow> ask_cached h c (cache, mg) = (a, cache', mg') \<Longrightarrow> looked mg mg'"
  by (auto simp: ask_cached_def intro: ask_host_looks split: prod.splits option.splits)

lemma child_alive_looks: "child_alive h k mg = (b, mg') \<Longrightarrow> looked mg mg'"
  by (auto simp: child_alive_def intro: ask_host_looks [of "Alive k"] split: prod.splits if_splits)

lemma process_running_looks:
  assumes "is_process_running h k mg = (b, mg')" shows "looked mg mg'"
proof -
  obtain b1 m1 where c: "child_alive h k mg = (b1, m1)" by fastforce
  have "looked m1 mg'" using assms ask_host_looks [of WorkersHealthy h m1] ask_host_looks [of DataplaneHealth h m1]
    by (auto simp: is_process_running_def c split: prod.splits bool.splits if_splits)
  then show ?thesis by (rule looked_trans [OF child_alive_looks [OF c]])
qed

lemma simulation_running_looks:
  assumes "is_simulation_running h mg = (b, mg')" shows "looked mg mg'"
proof -
  obtain b1 m1 where c: "child_alive h ''simulation'' mg = (b1, m1)" by fastforce
  have "looked m1 mg'" using assms ask_host_looks [of SimRunning h m1] by (auto simp: is_simulation_running_def c split: prod.splits bool.splits if_splits)
  then show ?thesis by (rule looked_trans [OF child_alive_looks [OF c]])
qed

lemma compose_running_looks: "is_compose_running h p n (cache, mg) = (b, cache', mg') \<Longrightarrow> looked mg mg'"
  by (auto simp: is_compose_running_def intro: ask_cached_looks [of "ComposePs p"] split: prod.splits)

lemma probe_cached_looks:
  assumes "probe_cached h k (cache, mg) = (b, cache', mg')" shows "looked mg mg'"
proof -
  consider "k = ''simulation''" | "k = ''celery''" | "k = ''dataplane''"
    | p n where "k \<notin> {''simulation'', ''celery'', ''dataplane''}" "sp_kind (spec k) = Compose p n"
    | "k \<notin> {''simulation'', ''celery'', ''dataplane''}" "sp_kind (spec k) = Process" by (cases "sp_kind (spec k)") auto
  then show ?thesis
  proof cases
    case 1
    then show ?thesis using assms by (auto simp: probe_cached_def split: prod.splits intro: simulation_running_looks)
  next
    case 2
    then show ?thesis using assms by (auto simp: probe_cached_def split: prod.splits intro: ask_cached_looks [of WorkersHealthy])
  next
    case 3
    then show ?thesis using assms by (auto simp: probe_cached_def split: prod.splits intro: ask_cached_looks [of DataplaneHealth])
  next
    case (4 p n)
    then show ?thesis using assms by (auto simp: probe_cached_def intro: compose_running_looks)
  next
    case 5
    then show ?thesis using assms by (auto simp: probe_cached_def split: prod.splits intro: process_running_looks)
  qed
qed

lemma probe_state_looks: "probe_state h k mg = (b, mg') \<Longrightarrow> looked mg mg'"
  by (auto simp: probe_state_def intro: probe_cached_looks split: prod.splits)

lemma refresh_looks: "looked mg (snd (refresh_states h (cache, mg)))"
proof -
  have one: "looked mg (snd (refresh_one h k (cache, mg)))" for k cache mg
    by (auto simp: refresh_one_def split: prod.splits intro: probe_cached_looks)
  have "looked mg (snd (fold (refresh_one h) ks (cache, mg)))" for ks
  proof (induction ks arbitrary: cache mg)
    case (Cons k ks)
    obtain c1 m1 where "refresh_one h k (cache, mg) = (c1, m1)" by fastforce
    then show ?case using Cons [of m1 c1] one [of mg k cache] looked_trans by fastforce
  qed simp
  then show ?thesis by (simp add: refresh_states_def)
qed

lemma running_of_looks: "running_of h ks mg = (ds, mg') \<Longrightarrow> looked mg mg'"
proof (induction ks arbitrary: mg ds)
  case (Cons k ks)
  obtain b m1 where p: "probe_state h k mg = (b, m1)" by fastforce
  obtain es m2 where r: "running_of h ks m1 = (es, m2)" by fastforce
  have "m2 = mg'" using Cons.prems by (simp add: p r)
  with r have "running_of h ks m1 = (es, mg')" by simp
  then show ?case using looked_trans [OF probe_state_looks [OF p] Cons.IH] by simp
qed simp

lemma look_looks:
  assumes "look h k mg = (r, mg')" shows "looked mg mg'"
proof -
  obtain b m1 where p: "probe_state h k (snd (refresh_states h (None, mg))) = (b, m1)" by fastforce
  have "looked m1 mg'" using assms by (auto simp: look_def p Let_def split: bool.splits)
  then show ?thesis using refresh_looks probe_state_looks [OF p] by (blast intro: looked_trans)
qed

section \<open>Launches follow their dependencies\<close>

text \<open>What an answer must be for the host to have said that a service is up, or to have brought it up and found it ready.\<close>

definition ready :: "host_answer \<Rightarrow> bool" where
  "ready a \<longleftrightarrow> (\<forall>e. a \<noteq> Fails e)"

definition sighting :: "string \<Rightarrow> host_call \<times> host_answer \<Rightarrow> bool" where
  "sighting key e \<longleftrightarrow>
     (case sp_kind (spec key) of
        Compose p n \<Rightarrow> fst e = ComposePs p \<and> shows_up n (snd e) \<or> fst e = Waiting (WaitCompose p n) \<and> ready (snd e)
      | Process \<Rightarrow>
          key = ''celery'' \<and> (fst e = WorkersHealthy \<and> shows_up key (snd e) \<or> fst e = Waiting WaitWorkers \<and> ready (snd e)) \<or>
          key = ''dataplane'' \<and> (fst e = DataplaneHealth \<and> shows_up key (snd e) \<or> fst e = Waiting WaitDataplane \<and> ready (snd e)))"

text \<open>Which service a call launches.\<close>

definition launched :: "host_call \<Rightarrow> string option" where
  "launched c =
     (case c of
        ComposeUp p n \<Rightarrow> map_option fst (find (\<lambda>(k, s). sp_kind s = Compose p n) services)
      | Spawn k \<Rightarrow> Some k
      | SimSpawn env \<Rightarrow> Some ''simulation''
      | _ \<Rightarrow> None)"

text \<open>In a list of calls, newest first, every launch comes after a sighting of each dependency.\<close>

fun in_order :: "(host_call \<times> host_answer) list \<Rightarrow> bool" where
  "in_order [] \<longleftrightarrow> True"
| "in_order (e # earlier) \<longleftrightarrow>
     in_order earlier \<and> (case launched (fst e) of None \<Rightarrow> True | Some k \<Rightarrow> \<forall>d \<in> set (sp_dependencies (spec k)). \<exists>x \<in> set earlier. sighting d x)"

lemma in_order_appendD: "in_order (later @ (c, a) # earlier) \<Longrightarrow> launched c = Some k \<Longrightarrow> d \<in> set (sp_dependencies (spec k)) \<Longrightarrow> \<exists>x \<in> set earlier. sighting d x"
  by (induction later) auto

lemma launched_up: "sp_kind (spec key) = Compose p n \<Longrightarrow> launched (ComposeUp p n) = Some key"
proof (rule spec_cases [where P = "\<lambda>k s. sp_kind s = Compose p n \<longrightarrow> launched (ComposeUp p n) = Some k" and key = key, THEN mp])
  fix k s assume "(k, s) \<in> set services"
  then show "sp_kind s = Compose p n \<longrightarrow> launched (ComposeUp p n) = Some k"
    unfolding services_def by (simp, elim disjE; simp add: compose_def process_def launched_def services_def) auto
qed (simp_all add: process_def)

lemma looks_launch_nothing: "looks_only c \<Longrightarrow> launched c = None"
  by (cases c) (simp_all add: launched_def)

text \<open>The calls since a point \<open>past\<close>: in order, and with a sighting of a service among them.\<close>

definition ordered_since :: "(host_call \<times> host_answer) list \<Rightarrow> manager \<Rightarrow> bool" where
  "ordered_since past mg \<longleftrightarrow> (\<exists>l. mg_calls mg = l @ past \<and> in_order l)"

definition seen_since :: "(host_call \<times> host_answer) list \<Rightarrow> manager \<Rightarrow> string \<Rightarrow> bool" where
  "seen_since past mg key \<longleftrightarrow> (\<exists>l. mg_calls mg = l @ past \<and> (\<exists>x \<in> set l. sighting key x))"

lemma since_set [simp]:
  "ordered_since past (set_state k s mg) = ordered_since past mg" "ordered_since past (set_message k m mg) = ordered_since past mg"
  "ordered_since past (hold k mg) = ordered_since past mg" "ordered_since past (release k mg) = ordered_since past mg"
  "ordered_since past (simulation_state s m mg) = ordered_since past mg"
  "seen_since past (set_state k s mg) key = seen_since past mg key" "seen_since past (set_message k m mg) key = seen_since past mg key"
  "seen_since past (hold k mg) key = seen_since past mg key" "seen_since past (release k mg) key = seen_since past mg key"
  "seen_since past (simulation_state s m mg) key = seen_since past mg key"
  by (simp_all add: ordered_since_def seen_since_def)

lemma ordered_refl: "ordered_since (mg_calls mg) mg"
  by (simp add: ordered_since_def)

lemma in_order_looks: "\<forall>e \<in> set l. looks_only (fst e) \<Longrightarrow> in_order k \<Longrightarrow> in_order (l @ k)"
  by (induction l) (simp_all add: looks_launch_nothing)

lemma ordered_looked: "ordered_since past mg \<Longrightarrow> looked mg mg' \<Longrightarrow> ordered_since past mg'"
  unfolding ordered_since_def looked_def using in_order_looks by fastforce

text \<open>Calls are only added.\<close>

definition grows :: "manager \<Rightarrow> manager \<Rightarrow> bool" where
  "grows mg mg' \<longleftrightarrow> (\<exists>l. mg_calls mg' = l @ mg_calls mg)"

lemma grows_refl [simp]: "grows mg mg"
  by (simp add: grows_def)

lemma grows_trans: "grows a b \<Longrightarrow> grows b c \<Longrightarrow> grows a c"
  by (auto simp: grows_def)

lemma grows_set [simp]:
  "grows a (set_state k s mg) = grows a mg" "grows a (set_message k m mg) = grows a mg" "grows a (hold k mg) = grows a mg" "grows a (release k mg) = grows a mg"
  "grows (set_state k s mg) a = grows mg a" "grows (set_message k m mg) a = grows mg a" "grows (hold k mg) a = grows mg a" "grows (release k mg) a = grows mg a"
  "grows (simulation_state s m mg) a = grows mg a" "grows a (simulation_state s m mg) = grows a mg"
  by (simp_all add: grows_def)

lemma looked_grows: "looked mg mg' \<Longrightarrow> grows mg mg'"
  by (auto simp: looked_def grows_def)

lemma seen_grows: "seen_since past mg key \<Longrightarrow> grows mg mg' \<Longrightarrow> seen_since past mg' key"
  unfolding seen_since_def grows_def by force

lemma ask_quiet: "launched c = None \<Longrightarrow> ask_host h c mg = (a, mg') \<Longrightarrow> ordered_since past mg \<Longrightarrow> ordered_since past mg' \<and> grows mg mg'"
  by (auto simp: ask_host_def Let_def ordered_since_def grows_def intro!: exI [of _ "_ # _"])

lemma perform_quiet: "launched c = None \<Longrightarrow> perform h c mg = (e, mg') \<Longrightarrow> ordered_since past mg \<Longrightarrow> ordered_since past mg' \<and> grows mg mg'"
  by (auto simp: perform_def split: prod.splits dest: ask_quiet)

lemma perform_launch:
  assumes "launched c = Some k" "perform h c mg = (e, mg')" "ordered_since past mg" "\<forall>d \<in> set (sp_dependencies (spec k)). seen_since past mg d"
  shows "ordered_since past mg' \<and> grows mg mg'"
proof -
  obtain l where l: "mg_calls mg = l @ past" "in_order l" using assms(3) by (auto simp: ordered_since_def)
  have m: "mg_calls mg' = ((c, h (mg_calls mg) c) # l) @ past" using assms(2) by (auto simp: perform_def ask_host_def Let_def l(1))
  have "\<forall>d \<in> set (sp_dependencies (spec k)). \<exists>x \<in> set l. sighting d x" using assms(4) by (auto simp: seen_since_def l(1))
  then have "in_order ((c, h (mg_calls mg) c) # l)" using l(2) assms(1) by simp
  then show ?thesis using m l(1) unfolding ordered_since_def grows_def by fastforce
qed

lemma await_waits:
  assumes "await h ws mg = (e, mg')" "ordered_since past mg"
  shows "ordered_since past mg' \<and> grows mg mg' \<and> (e = None \<longrightarrow> (\<exists>l. mg_calls mg' = l @ mg_calls mg \<and> (\<forall>w \<in> set ws. \<exists>a. (Waiting w, a) \<in> set l \<and> ready a)))"
  using assms
proof (induction ws arbitrary: mg)
  case (Cons w ws)
  obtain e1 m1 where p: "perform h (Waiting w) mg = (e1, m1)" by fastforce
  have q: "ordered_since past m1" "grows mg m1" using perform_quiet [OF _ p Cons.prems(2)] by (simp_all add: launched_def)
  show ?case
  proof (cases e1)
    case None
    have rest: "await h ws m1 = (e, mg')" using Cons.prems(1) by (simp add: p None)
    note IH = Cons.IH [OF rest q(1)]
    have "mg_calls m1 = (Waiting w, h (mg_calls mg) (Waiting w)) # mg_calls mg" "ready (h (mg_calls mg) (Waiting w))"
      using p None by (auto simp: perform_def ask_host_def Let_def ready_def split: host_answer.splits)
    then show ?thesis using IH q(2) by (fastforce intro: grows_trans)
  next
    case (Some x)
    then show ?thesis using Cons.prems(1) q by (auto simp: p)
  qed
qed simp

text \<open>How a service of the backend is looked at.\<close>

definition look_call :: "string \<Rightarrow> host_call" where
  "look_call key = (case sp_kind (spec key) of Compose p n \<Rightarrow> ComposePs p | Process \<Rightarrow> if key = ''celery'' then WorkersHealthy else DataplaneHealth)"

definition look_name :: "string \<Rightarrow> string" where
  "look_name key = (case sp_kind (spec key) of Compose p n \<Rightarrow> n | Process \<Rightarrow> key)"

lemma backend_kind:
  assumes "key \<in> set backend_start_order"
  shows "key \<noteq> ''simulation''" "(key = ''celery'' \<or> key = ''dataplane'') \<and> sp_kind (spec key) = Process \<or>
    key \<notin> {''celery'', ''dataplane''} \<and> (\<exists>p n. sp_kind (spec key) = Compose p n)"
  using assms unfolding backend_start_order_def by (auto simp: spec_def services_def compose_def process_def)

lemma backend_cases [consumes 1, case_names celery dataplane compose]:
  assumes "key \<in> set backend_start_order"
  obtains "key = ''celery''" | "key = ''dataplane''"
    | p n where "key \<noteq> ''simulation''" "key \<noteq> ''celery''" "key \<noteq> ''dataplane''" "sp_kind (spec key) = Compose p n"
  using backend_kind [OF assms] by blast

lemma process_kinds [simp]: "sp_kind (spec ''celery'') = Process" "sp_kind (spec ''dataplane'') = Process"
  by (simp_all add: spec_def services_def process_def)

lemma look_compose:
  "sp_kind (spec key) = Compose p n \<Longrightarrow> look_call key = ComposePs p" "sp_kind (spec key) = Compose p n \<Longrightarrow> look_name key = n"
  by (simp_all add: look_call_def look_name_def)

lemma look_process [simp]:
  "look_call ''celery'' = WorkersHealthy" "look_call ''dataplane'' = DataplaneHealth" "look_name ''celery'' = ''celery''" "look_name ''dataplane'' = ''dataplane''"
  by (simp_all add: look_call_def look_name_def)

lemma probe_backend:
  assumes "key \<in> set backend_start_order"
  shows "probe_state h key mg =
    (shows_up (look_name key) (h (mg_calls mg) (look_call key)), mg\<lparr>mg_calls := (look_call key, h (mg_calls mg) (look_call key)) # mg_calls mg\<rparr>)"
  using assms
proof (cases rule: backend_cases)
  case (compose p n)
  then show ?thesis by (simp add: probe_state_def probe_cached_def look_compose is_compose_running_def ask_cached_def ask_host_def Let_def)
qed (simp_all add: probe_state_def probe_cached_def ask_cached_def ask_host_def Let_def)

lemma sighting_look:
  assumes "key \<in> set backend_start_order" shows "sighting key (look_call key, a) \<longleftrightarrow> shows_up (look_name key) a"
  using assms
proof (cases rule: backend_cases)
  case (compose p n)
  then show ?thesis by (simp add: look_compose sighting_def)
qed (simp_all add: sighting_def)

lemma seen_from:
  assumes "seen_since (mg_calls mg) mg' key" "ordered_since past mg" shows "seen_since past mg' key"
proof -
  obtain l x where l: "mg_calls mg' = l @ mg_calls mg" "x \<in> set l" "sighting key x" using assms(1) by (auto simp: seen_since_def)
  obtain k where "mg_calls mg = k @ past" using assms(2) by (auto simp: ordered_since_def)
  then have "mg_calls mg' = (l @ k) @ past" "x \<in> set (l @ k)" using l by simp_all
  then show ?thesis using l(3) unfolding seen_since_def by blast
qed

lemma probe_seen:
  assumes "key \<in> set backend_start_order" "probe_state h key mg = (True, mg')" shows "seen_since (mg_calls mg) mg' key"
proof -
  let ?a = "h (mg_calls mg) (look_call key)"
  have "shows_up (look_name key) ?a" "mg_calls mg' = [(look_call key, ?a)] @ mg_calls mg" using assms(2) by (auto simp: probe_backend [OF assms(1)])
  then show ?thesis using sighting_look [OF assms(1)] unfolding seen_since_def by (meson list.set_intros(1))
qed

lemma ready_sighting:
  assumes "key \<in> set backend_start_order" "\<forall>w \<in> set (sp_readiness (spec key)). \<exists>a. (Waiting w, a) \<in> set l \<and> ready a"
  shows "\<exists>x \<in> set l. sighting key x"
proof -
  have "\<exists>w \<in> set (sp_readiness (spec key)). \<forall>a. ready a \<longrightarrow> sighting key (Waiting w, a)"
    using assms(1) unfolding backend_start_order_def by (auto simp: spec_def services_def compose_def process_def sighting_def)
  then show ?thesis using assms(2) by blast
qed

lemma launch_ordered:
  assumes "launch h key mg = (e, mg')" "ordered_since past mg" "\<forall>d \<in> set (sp_dependencies (spec key)). seen_since past mg d"
  shows "ordered_since past mg' \<and> grows mg mg'"
proof (cases "sp_kind (spec key)")
  case (Compose p n)
  then show ?thesis using perform_launch [OF launched_up [OF Compose] _ assms(2,3)] assms(1) by (simp add: launch_def)
next
  case Process
  show ?thesis
  proof (cases "sp_startable (spec key)")
    case True
    obtain e1 m1 where p: "perform h (Spawn key) mg = (e1, m1)" by fastforce
    have m1: "ordered_since past m1" "grows mg m1" using perform_launch [OF _ p assms(2,3)] by (simp_all add: launched_def)
    obtain a m2 where q: "ask_host h (Alive key) (hold key m1) = (a, m2)" by fastforce
    have "ordered_since past m2 \<and> grows m1 m2" using ask_quiet [OF _ q, of past] m1(1) by (simp add: launched_def)
    then show ?thesis using assms(1) m1 by (auto simp: launch_def Process True p q split: option.splits intro: grows_trans)
  qed (use assms(1,2) in \<open>auto simp: launch_def Process\<close>)
qed

lemma bring_up_ordered:
  assumes "key \<in> set backend_start_order" "ordered_since past mg" "\<forall>d \<in> set (sp_dependencies (spec key)). seen_since past mg d" "bring_up h key mg = (r, mg')"
  shows "ordered_since past mg' \<and> grows mg mg' \<and> (ar_ok r \<longrightarrow> seen_since past mg' key)"
proof -
  let ?m1 = "set_message key ''Starting...'' (set_state key Starting mg)"
  obtain e m2 where l: "launch h key ?m1 = (e, m2)" by fastforce
  have m2: "ordered_since past m2" "grows mg m2" using launch_ordered [OF l, of past] assms(2,3) by simp_all
  show ?thesis
  proof (cases e)
    case None
    obtain e' m3 where w: "await h (sp_readiness (spec key)) m2 = (e', m3)" by fastforce
    note a = await_waits [OF w m2(1)]
    have "e' = None \<Longrightarrow> seen_since past m3 key"
      using a ready_sighting [OF assms(1)] seen_from [OF _ m2(1), of m3 key] unfolding seen_since_def by blast
    then show ?thesis using assms(4) a m2(2) by (cases e') (auto simp: bring_up_def Let_def l None w result_def intro: grows_trans)
  next
    case (Some x)
    then show ?thesis using assms(4) m2 by (auto simp: bring_up_def Let_def l result_def)
  qed
qed

lemma dependencies_backend:
  assumes "key \<in> set backend_start_order" shows "set (sp_dependencies (spec key)) \<subseteq> set backend_start_order"
  using assms unfolding backend_start_order_def by (auto simp: spec_def services_def compose_def process_def)

lemma start_deps_fail: "start_deps h ds mg = (Some r, mg') \<Longrightarrow> \<not> ar_ok r"
  by (induction ds arbitrary: mg) (auto split: prod.splits bool.splits if_splits)

lemma look_ordered:
  assumes "key \<in> set backend_start_order" "look h key mg = (res, mg')" "ordered_since past mg"
  shows "ordered_since past mg' \<and> grows mg mg' \<and> (\<forall>r. res = Some r \<longrightarrow> ar_ok r \<and> seen_since past mg' key)"
proof -
  let ?m = "snd (refresh_states h (None, mg))"
  obtain b m1 where p: "probe_state h key ?m = (b, m1)" by fastforce
  have m: "ordered_since past ?m" "grows mg ?m" using ordered_looked [OF assms(3) refresh_looks] looked_grows [OF refresh_looks] by blast+
  have m1: "ordered_since past m1" "grows ?m m1" using ordered_looked [OF m(1) probe_state_looks [OF p]] looked_grows [OF probe_state_looks [OF p]] by blast+
  have "b \<Longrightarrow> seen_since past m1 key" using seen_from [OF probe_seen [OF assms(1), of h ?m m1] m(1)] p by simp
  then show ?thesis using assms(2) m1 grows_trans [OF m(2) m1(2)] by (auto simp: look_def p Let_def result_def split: bool.splits)
qed

lemma start_alone_ordered:
  assumes "key \<in> set backend_start_order" "start_alone h key mg = (r, mg')" "ordered_since past mg" "\<forall>d \<in> set (sp_dependencies (spec key)). seen_since past mg d"
  shows "ordered_since past mg' \<and> grows mg mg' \<and> (ar_ok r \<longrightarrow> seen_since past mg' key)"
proof -
  obtain res m1 where l: "look h key mg = (res, m1)" by fastforce
  note m1 = look_ordered [OF assms(1) l assms(3)]
  show ?thesis
  proof (cases res)
    case None
    then have b: "bring_up h key m1 = (r, mg')" using assms(2) by (simp add: start_alone_def l)
    show ?thesis using bring_up_ordered [OF assms(1) _ _ b, of past] m1 assms(4) by (meson grows_trans seen_grows)
  next
    case (Some x)
    then show ?thesis using assms(2) m1 by (simp add: start_alone_def l)
  qed
qed

lemma start_rec_ordered:
  "key \<in> set backend_start_order \<Longrightarrow> start_rec h key mg = (r, mg') \<Longrightarrow> ordered_since past mg \<Longrightarrow>
     ordered_since past mg' \<and> grows mg mg' \<and> (ar_ok r \<longrightarrow> seen_since past mg' key)"
  "set ds \<subseteq> set backend_start_order \<Longrightarrow> start_deps h ds mg = (res, mg') \<Longrightarrow> ordered_since past mg \<Longrightarrow>
     ordered_since past mg' \<and> grows mg mg' \<and> (res = None \<longrightarrow> (\<forall>d \<in> set ds. seen_since past mg' d))"
proof (induction h key mg and h ds mg arbitrary: r mg' and res mg' rule: start_rec_start_deps.induct)
  case (1 h key mg)
  obtain l m1 where l: "look h key mg = (l, m1)" by fastforce
  note m1 = look_ordered [OF "1.prems"(1) l "1.prems"(3)]
  show ?case
  proof (cases l)
    case None
    obtain d m2 where d: "start_deps h (sp_dependencies (spec key)) m1 = (d, m2)" by fastforce
    note m2 = "1.IH" [OF l [symmetric] None dependencies_backend [OF "1.prems"(1)] d conjunct1 [OF m1]]
    show ?thesis
    proof (cases d)
      case None
      then have b: "bring_up h key m2 = (r, mg')" using "1.prems"(2) l \<open>l = None\<close> by (simp add: start_rec.simps d)
      show ?thesis using bring_up_ordered [OF "1.prems"(1) _ _ b, of past] m1 m2 None by (meson grows_trans)
    next
      case (Some x)
      then have "mg' = m2" "r = x" using "1.prems"(2) l \<open>l = None\<close> by (simp_all add: start_rec.simps d)
      then show ?thesis using m1 m2 start_deps_fail [of h _ m1 x m2] d Some by (metis grows_trans)
    qed
  next
    case (Some x)
    then show ?thesis using "1.prems"(2) m1 by (simp add: start_rec.simps l)
  qed
next
  case (2 h mg)
  then show ?case by simp
next
  case (3 h d ds mg)
  have ds: "d \<in> set backend_start_order" "set ds \<subseteq> set backend_start_order" using "3.prems"(1) by simp_all
  obtain b m1 where p: "probe_state h d mg = (b, m1)" by fastforce
  have m1: "ordered_since past m1" "grows mg m1"
    using ordered_looked [OF "3.prems"(3) probe_state_looks [OF p]] looked_grows [OF probe_state_looks [OF p]] by blast+
  show ?case
  proof (cases b)
    case True
    then have rest: "start_deps h ds m1 = (res, mg')" using "3.prems"(2) by (simp add: p)
    have "seen_since past m1 d" using seen_from [OF probe_seen [OF ds(1), of h mg m1] "3.prems"(3)] p True by simp
    moreover have "(True, m1) = probe_state h d mg" using p True by simp
    ultimately show ?thesis using "3.IH"(1) [OF _ refl ds(2) rest m1(1)] m1(2) by (auto intro: grows_trans seen_grows)
  next
    case False
    obtain x m2 where r: "start_rec h d m1 = (x, m2)" by fastforce
    have pf: "(False, m1) = probe_state h d mg" using p False by simp
    note m2 = "3.IH"(2) [OF pf refl ds(1) r m1(1)]
    show ?thesis
    proof (cases "ar_ok x")
      case True
      then have rest: "start_deps h ds m2 = (res, mg')" using "3.prems"(2) False by (simp add: p r)
      show ?thesis using "3.IH"(3) [OF pf refl r [symmetric] True ds(2) rest conjunct1 [OF m2]] m1(2) m2 True
        by (auto intro: grows_trans seen_grows)
    next
      case f: False
      then have "res = Some x" "mg' = m2" using "3.prems"(2) False by (simp_all add: p r)
      then show ?thesis using m1(2) m2 by (auto intro: grows_trans)
    qed
  qed
qed

text \<open>A list in which every service comes after those it depends on.\<close>

fun topological :: "string set \<Rightarrow> string list \<Rightarrow> bool" where
  "topological before [] \<longleftrightarrow> True"
| "topological before (k # ks) \<longleftrightarrow> set (sp_dependencies (spec k)) \<subseteq> before \<and> topological (insert k before) ks"

lemma backend_order_topological: "topological {} backend_start_order"
  by (simp add: backend_start_order_def spec_def services_def compose_def process_def)

lemma ensure_each_ordered:
  assumes "set ks \<subseteq> set backend_start_order" "topological before ks" "ensure_each h ks mg = (res, mg')" "ordered_since past mg" "\<forall>d \<in> before. seen_since past mg d"
  shows "ordered_since past mg' \<and> grows mg mg' \<and> (\<forall>d \<in> before. seen_since past mg' d) \<and> (res = None \<longrightarrow> (\<forall>d \<in> set ks. seen_since past mg' d))"
  using assms
proof (induction ks arbitrary: before mg)
  case (Cons k ks)
  have ks: "k \<in> set backend_start_order" "set ks \<subseteq> set backend_start_order" "topological (insert k before) ks" "set (sp_dependencies (spec k)) \<subseteq> before"
    using Cons.prems(1,2) by simp_all
  obtain b m1 where p: "probe_state h k mg = (b, m1)" by fastforce
  have m1: "ordered_since past m1" "grows mg m1"
    using ordered_looked [OF Cons.prems(4) probe_state_looks [OF p]] looked_grows [OF probe_state_looks [OF p]] by blast+
  have before: "\<forall>d \<in> before. seen_since past m1 d" using Cons.prems(5) m1(2) seen_grows by blast
  show ?case
  proof (cases b)
    case True
    then have rest: "ensure_each h ks m1 = (res, mg')" using Cons.prems(3) by (simp add: p)
    have "seen_since past m1 k" using seen_from [OF probe_seen [OF ks(1), of h mg m1] Cons.prems(4)] p True by simp
    then have "\<forall>d \<in> insert k before. seen_since past m1 d" using before by simp
    from Cons.IH [OF ks(2,3) rest m1(1) this] show ?thesis using m1(2) by (auto intro: grows_trans)
  next
    case False
    obtain r m2 where s: "start_alone h k m1 = (r, m2)" by fastforce
    have m2: "ordered_since past m2" "grows m1 m2" "ar_ok r \<longrightarrow> seen_since past m2 k"
      using start_alone_ordered [OF ks(1) s m1(1)] ks(4) before by blast+
    have before2: "\<forall>d \<in> before. seen_since past m2 d" using before m2(2) seen_grows by blast
    show ?thesis
    proof (cases "ar_ok r")
      case True
      then have rest: "ensure_each h ks m2 = (res, mg')" using Cons.prems(3) False by (simp add: p s)
      have "\<forall>d \<in> insert k before. seen_since past m2 d" using before2 m2(3) True by simp
      from Cons.IH [OF ks(2,3) rest m2(1) this] show ?thesis using m1(2) m2(2) by (auto intro: grows_trans)
    next
      case f: False
      then have "res = Some r" "mg' = m2" using Cons.prems(3) False by (simp_all add: p s)
      then show ?thesis using m1(2) m2(1,2) before2 by (auto intro: grows_trans)
    qed
  qed
qed simp

lemma ensure_backend_ordered:
  assumes "ensure_backend h mg = (res, mg')" "ordered_since past mg"
  shows "ordered_since past mg' \<and> grows mg mg' \<and> (res = None \<longrightarrow> (\<forall>d \<in> set backend_start_order. seen_since past mg' d))"
proof -
  obtain e m1 where e: "ensure_each h backend_start_order mg = (e, m1)" by fastforce
  have m1: "ordered_since past m1" "grows mg m1" "e = None \<longrightarrow> (\<forall>d \<in> set backend_start_order. seen_since past m1 d)"
    using ensure_each_ordered [OF _ backend_order_topological e assms(2)] by auto
  show ?thesis
  proof (cases e)
    case None
    obtain a m2 where a: "ask_host h PingWorkers m1 = (a, m2)" by fastforce
    obtain a' m3 where a': "ask_host h PingWorkers m2 = (a', m3)" by fastforce
    have m2: "ordered_since past m2" "grows m1 m2" using ask_quiet [OF _ a m1(1)] by (simp_all add: launched_def)
    have m3: "ordered_since past m3" "grows m2 m3" using ask_quiet [OF _ a' m2(1)] by (simp_all add: launched_def)
    let ?m4 = "set_state ''celery'' Stopped (release ''celery'' (snd (ask_host h (StopExtra ''celery'') m3)))"
    obtain x m5 where r: "start_rec h ''celery'' ?m4 = (x, m5)" by fastforce
    have m4: "ordered_since past ?m4" "grows m3 ?m4" using ask_quiet [OF _ prod.collapse [symmetric] m3(1), of "StopExtra ''celery''" h] by (simp_all add: launched_def)
    have m5: "ordered_since past m5" "grows ?m4 m5" using start_rec_ordered(1) [OF _ r m4(1)] by (simp_all add: backend_start_order_def)
    have "mg' = m2 \<or> mg' = m3 \<or> mg' = m5" using assms(1) by (auto simp: ensure_backend_def e None a a' revive_workers_def Let_def r split: if_splits)
    then have "ordered_since past mg'" "grows m1 mg'" using m2 m3 m4(2) m5 by (blast intro: grows_trans)+
    then show ?thesis using m1 None by (auto intro: grows_trans seen_grows)
  next
    case (Some x)
    then show ?thesis using assms(1) m1 by (auto simp: ensure_backend_def e)
  qed
qed

lemma quiet_step:
  assumes "launched c = None" "ordered_since past mg" shows "ordered_since past (snd (ask_host h c mg))"
  using ask_quiet [OF assms(1) prod.collapse [symmetric] assms(2)] by blast

lemma terminate_ordered: "terminate h k mg = (e, mg') \<Longrightarrow> ordered_since past mg \<Longrightarrow> ordered_since past mg'"
  by (auto simp: terminate_def launched_def split: prod.splits if_splits dest!: ask_quiet [rotated 1] perform_quiet [rotated 1])

lemma drop_child_ordered: "drop_child h k mg = (e, mg') \<Longrightarrow> ordered_since past mg \<Longrightarrow> ordered_since past mg'"
  by (auto simp: drop_child_def split: if_splits intro: terminate_ordered)

lemma stop_simulation_ordered:
  assumes "stop_simulation h mg = (e, mg')" "ordered_since past mg" shows "ordered_since past mg'"
proof -
  obtain x m1 where d: "drop_child h ''simulation'' mg = (x, m1)" by fastforce
  note m1 = drop_child_ordered [OF d assms(2)]
  show ?thesis using assms(1) m1 quiet_step [OF _ m1, of SimKill h] by (auto simp: stop_simulation_def d launched_def split: option.splits prod.splits)
qed

lemma spawn_simulation_ordered:
  assumes "spawn_simulation h env mg = (e, mg')" "ordered_since past mg" "\<forall>d \<in> set backend_start_order. seen_since past mg d"
  shows "ordered_since past mg'"
proof -
  obtain x m1 where p: "perform h (SimSpawn env) mg = (x, m1)" by fastforce
  have "set (sp_dependencies (spec ''simulation'')) \<subseteq> set backend_start_order" by (simp add: spec_def services_def process_def backend_start_order_def)
  then have m1: "ordered_since past m1" using perform_launch [OF _ p assms(2), of "''simulation''"] assms(3) by (auto simp: launched_def)
  have "ordered_since past (snd (ask_host h (Alive ''simulation'') (hold ''simulation'' m1)))" by (rule quiet_step) (simp_all add: launched_def m1)
  then show ?thesis using assms(1) m1 by (auto simp: spawn_simulation_def p split: option.splits prod.splits)
qed

lemma run_background_ordered:
  assumes "run_simulation_background h opts mg = (r, mg')" "ordered_since past mg" shows "ordered_since past mg'"
proof -
  obtain b m1 where b: "is_simulation_running h mg = (b, m1)" by fastforce
  have m1: "ordered_since past m1" using ordered_looked [OF assms(2) simulation_running_looks [OF b]] .
  obtain x m2 where e: "ensure_backend h (simulation_state Starting ''Starting...'' m1) = (x, m2)" by fastforce
  have m2: "ordered_since past m2" "x = None \<longrightarrow> (\<forall>d \<in> set backend_start_order. seen_since past m2 d)" using ensure_backend_ordered [OF e, of past] m1 by simp_all
  obtain y m3 where s: "spawn_simulation h (extra_env opts) m2 = (y, m3)" by fastforce
  have m3: "x = None \<longrightarrow> ordered_since past m3" using spawn_simulation_ordered [OF s m2(1)] m2(2) by blast
  have "x = None \<longrightarrow> ordered_since past (snd (stop_simulation h (simulation_state Failed z m3)))" for z
    using stop_simulation_ordered [where h = h and mg = "simulation_state Failed z m3" and past = past, OF prod.collapse [symmetric]] m3 by simp
  then show ?thesis using assms(1) m1 m2 m3 by (auto simp: run_simulation_background_def b e s split: bool.splits option.splits)
qed

text \<open>
  C28. Whatever the host does meanwhile, a start with dependencies and a run of a simulation launch a service only after the host has, within this command,
  shown each service it depends on to be up or found it ready.
\<close>

theorem launches_after_dependencies:
  assumes "start h key True mg = (r, mg') \<and> key \<in> set (map fst services) \<or> run_simulation_background h opts mg = (r, mg')"
    and "mg_calls mg' = later @ (c, a) # earlier @ mg_calls mg" and "launched c = Some k" and "d \<in> set (sp_dependencies (spec k))"
  shows "\<exists>x \<in> set earlier. sighting d x"
proof -
  have known: "key \<in> set (map fst services) \<Longrightarrow> key = ''simulation'' \<or> key \<in> set backend_start_order" by (auto simp: services_def backend_start_order_def)
  consider "run_simulation_background h opts mg = (r, mg')" | "run_simulation_background h no_options mg = (r, mg')"
    | "key \<in> set backend_start_order" "start_rec h key mg = (r, mg')" using assms(1) known unfolding start_def by (metis (full_types))
  then have "ordered_since (mg_calls mg) mg'"
    by cases (use run_background_ordered [OF _ ordered_refl] start_rec_ordered(1) [OF _ _ ordered_refl] in blast)+
  then have "in_order (later @ (c, a) # earlier)" using assms(2) by (auto simp: ordered_since_def)
  then show ?thesis using in_order_appendD assms(3,4) by blast
qed

text \<open>A host that lists the database and nothing else, and a start of the interface on it while every service is taken to be in transition.\<close>

definition demo_host :: host where
  "demo_host calls c = (case c of ComposePs p \<Rightarrow> Names [''mongodb''] | _ \<Rightarrow> Yes)"

definition demo_manager :: manager where
  "demo_manager = (new_manager [])\<lparr>mg_states := map (\<lambda>(k, s). (k, Starting)) services\<rparr>"

lemma demo_start_calls:
  "mg_calls (snd (start demo_host ''api'' True demo_manager)) =
     [(Waiting (WaitCompose ''openride_server'' ''api''), Yes), (ComposeUp ''openride_server'' ''api'', Yes), (ComposePs ''openride_server'', Names [''mongodb'']),
      (ComposePs ''openride_server'', Names [''mongodb''])]"
proof -
  have skip: "refresh_states demo_host (None, demo_manager) = (None, demo_manager)"
    by (simp add: refresh_states_def refresh_one_def demo_manager_def services_def)
  have spec: "spec ''api'' = compose ''OpenRide API'' ''openride_server'' ''api'' [''mongodb''] [''nginx''] []" "sp_kind (spec ''mongodb'') = Compose ''openride_server'' ''mongodb''"
    by (simp_all add: spec_def services_def compose_def)
  have kind: "sp_kind (spec ''api'') = Compose ''openride_server'' ''api''" by (simp add: spec(1) compose_def)
  have keys: "''api'' \<in> set backend_start_order" "''mongodb'' \<in> set backend_start_order" by (simp_all add: backend_start_order_def)
  have calls: "mg_calls demo_manager = []" by (simp add: demo_manager_def new_manager_def)
  have look: "look demo_host ''api'' demo_manager = (None, demo_manager\<lparr>mg_calls := [(ComposePs ''openride_server'', Names [''mongodb''])]\<rparr>)"
    by (simp add: look_def skip probe_backend [OF keys(1)] look_compose [OF kind] demo_host_def calls)
  have deps: "start_deps demo_host [''mongodb''] mg = (None, mg\<lparr>mg_calls := (ComposePs ''openride_server'', Names [''mongodb'']) # mg_calls mg\<rparr>)" for mg
    by (simp add: probe_backend [OF keys(2)] look_compose [OF spec(2)] demo_host_def)
  show ?thesis
    by (simp add: start_def start_rec.simps look spec(1) compose_def deps bring_up_def launch_def perform_def ask_host_def Let_def demo_host_def set_state_def set_message_def
        del: start_deps.simps)
qed

theorem launches_after_dependencies_witness:
  "mg_calls (snd (start demo_host ''api'' True demo_manager)) =
     [(Waiting (WaitCompose ''openride_server'' ''api''), Yes)] @ (ComposeUp ''openride_server'' ''api'', Yes) #
     [(ComposePs ''openride_server'', Names [''mongodb'']), (ComposePs ''openride_server'', Names [''mongodb''])] @ mg_calls demo_manager \<and>
   (\<exists>x \<in> set [(ComposePs ''openride_server'', Names [''mongodb'']), (ComposePs ''openride_server'', Names [''mongodb''])]. sighting ''mongodb'' x)"
proof -
  let ?res = "start demo_host ''api'' True demo_manager"
  have calls: "mg_calls (snd ?res) =
     [(Waiting (WaitCompose ''openride_server'' ''api''), Yes)] @ (ComposeUp ''openride_server'' ''api'', Yes) #
     [(ComposePs ''openride_server'', Names [''mongodb'']), (ComposePs ''openride_server'', Names [''mongodb''])] @ mg_calls demo_manager"
    using demo_start_calls by (simp add: demo_manager_def [THEN arg_cong, of mg_calls] new_manager_def)
  have "?res = (fst ?res, snd ?res) \<and> ''api'' \<in> set (map fst services)" by (simp add: services_def)
  moreover have "launched (ComposeUp ''openride_server'' ''api'') = Some ''api''" "''mongodb'' \<in> set (sp_dependencies (spec ''api''))"
    by (simp_all add: launched_def spec_def services_def compose_def process_def)
  ultimately show ?thesis using launches_after_dependencies calls by blast
qed

section \<open>Commands leave no service in transition\<close>

definition in_transition :: "manager \<Rightarrow> string set" where
  "in_transition mg = {k. map_of (mg_states mg) k \<in> {Some Starting, Some Stopping}}"

lemma states_set [simp]:
  "mg_states (set_message k m mg) = mg_states mg" "mg_states (hold k mg) = mg_states mg" "mg_states (release k mg) = mg_states mg"
  by (simp_all add: set_message_def hold_def release_def)

lemma transition_set [simp]:
  "in_transition (set_state k s mg) = (if s \<in> {Starting, Stopping} then insert k (in_transition mg) else in_transition mg - {k})"
  "in_transition (set_message k m mg) = in_transition mg" "in_transition (hold k mg) = in_transition mg" "in_transition (release k mg) = in_transition mg"
  "in_transition (mg\<lparr>mg_calls := cs\<rparr>) = in_transition mg"
  by (auto simp: in_transition_def set_state_def update_conv')

lemma transition_simulation [simp]:
  "in_transition (simulation_state s m mg) = (if s \<in> {Starting, Stopping} then insert ''simulation'' (in_transition mg) else in_transition mg - {''simulation''})"
  by (simp add: simulation_state_def)

text \<open>Asking the host does not touch the states.\<close>

definition same_states :: "manager \<Rightarrow> manager \<Rightarrow> bool" where
  "same_states mg mg' \<longleftrightarrow> mg_states mg' = mg_states mg"

lemma same_states_transition: "same_states mg mg' \<Longrightarrow> in_transition mg' = in_transition mg"
  by (simp add: same_states_def in_transition_def)

lemma ask_same: "ask_host h c mg = (a, mg') \<Longrightarrow> same_states mg mg'"
  by (auto simp: ask_host_def Let_def same_states_def)

lemma perform_same: "perform h c mg = (e, mg') \<Longrightarrow> same_states mg mg'"
  by (auto simp: perform_def split: prod.splits dest: ask_same)

lemma ask_cached_same: "ask_cached h c (cache, mg) = (a, cache', mg') \<Longrightarrow> same_states mg mg'"
  by (auto simp: ask_cached_def same_states_def ask_host_def Let_def split: option.splits)

lemma child_alive_same: "child_alive h k mg = (b, mg') \<Longrightarrow> same_states mg mg'"
  by (auto simp: child_alive_def same_states_def ask_host_def Let_def split: if_splits)

lemma process_running_same: "is_process_running h k mg = (b, mg') \<Longrightarrow> same_states mg mg'"
  using child_alive_same [of h k mg] by (auto simp: is_process_running_def same_states_def ask_host_def Let_def split: prod.splits bool.splits if_splits)

lemma simulation_running_same: "is_simulation_running h mg = (b, mg') \<Longrightarrow> same_states mg mg'"
  using child_alive_same [of h "''simulation''" mg]
  by (auto simp: is_simulation_running_def same_states_def ask_host_def Let_def split: prod.splits bool.splits if_splits)

lemma compose_running_same: "is_compose_running h p n (cache, mg) = (b, cache', mg') \<Longrightarrow> same_states mg mg'"
  by (auto simp: is_compose_running_def split: prod.splits dest: ask_cached_same)

lemma probe_cached_same:
  assumes "probe_cached h k (cache, mg) = (b, cache', mg')" shows "same_states mg mg'"
proof (cases "k = ''simulation'' \<or> k = ''celery'' \<or> k = ''dataplane''")
  case True
  then show ?thesis using assms by (auto simp: probe_cached_def split: prod.splits dest: simulation_running_same ask_cached_same)
next
  case False
  then show ?thesis using assms by (cases "sp_kind (spec k)") (auto simp: probe_cached_def split: prod.splits dest: compose_running_same process_running_same)
qed

lemma probe_state_same: "probe_state h k mg = (b, mg') \<Longrightarrow> same_states mg mg'"
  by (auto simp: probe_state_def split: prod.splits dest: probe_cached_same)

lemma refresh_settles: "in_transition (snd (refresh_states h (cache, mg))) \<subseteq> in_transition mg"
proof -
  have one: "in_transition (snd (refresh_one h k (cache, mg))) \<subseteq> in_transition mg" for k cache mg
    by (auto simp: refresh_one_def split: prod.splits dest!: probe_cached_same [THEN same_states_transition])
  have "in_transition (snd (fold (refresh_one h) ks (cache, mg))) \<subseteq> in_transition mg" for ks
  proof (induction ks arbitrary: cache mg)
    case (Cons k ks)
    obtain c1 m1 where "refresh_one h k (cache, mg) = (c1, m1)" by fastforce
    then show ?case using Cons [of c1 m1] one [of k cache mg] by fastforce
  qed simp
  then show ?thesis by (simp add: refresh_states_def)
qed

definition settles :: "manager \<Rightarrow> manager \<Rightarrow> bool" where
  "settles mg mg' \<longleftrightarrow> in_transition mg' \<subseteq> in_transition mg"

lemma settles_refl [simp]: "settles mg mg"
  by (simp add: settles_def)

lemma settles_trans [trans]: "settles a b \<Longrightarrow> settles b c \<Longrightarrow> settles a c"
  by (auto simp: settles_def)

lemma settles_set [simp]:
  "settles a (set_message k m mg) = settles a mg" "settles a (hold k mg) = settles a mg" "settles a (release k mg) = settles a mg"
  "settles (set_message k m mg) b = settles mg b" "settles (release k mg) b = settles mg b" "settles (hold k mg) b = settles mg b"
  by (simp_all add: settles_def)

lemma settles_state: "settles a mg \<Longrightarrow> s \<notin> {Starting, Stopping} \<Longrightarrow> settles a (set_state k s mg)"
  by (auto simp: settles_def)

lemma same_settles: "same_states mg mg' \<Longrightarrow> settles mg mg'"
  by (simp add: settles_def same_states_transition)

lemma same_refl [simp]: "same_states mg mg"
  by (simp add: same_states_def)

lemma same_trans [trans]: "same_states a b \<Longrightarrow> same_states b c \<Longrightarrow> same_states a c"
  by (simp add: same_states_def)

lemma same_set [simp]:
  "same_states a (set_message k m mg) = same_states a mg" "same_states a (hold k mg) = same_states a mg" "same_states a (release k mg) = same_states a mg"
  "same_states (set_message k m mg) b = same_states mg b" "same_states (release k mg) b = same_states mg b" "same_states (hold k mg) b = same_states mg b"
  by (simp_all add: same_states_def)

lemma probe_settles: "probe_state h k mg = (b, mg') \<Longrightarrow> settles mg mg'"
  by (rule same_settles [OF probe_state_same])

lemma running_of_settles: "running_of h ks mg = (ds, mg') \<Longrightarrow> settles mg mg'"
proof (induction ks arbitrary: mg ds)
  case (Cons k ks)
  obtain b m1 where p: "probe_state h k mg = (b, m1)" by fastforce
  obtain es m2 where r: "running_of h ks m1 = (es, m2)" by fastforce
  have "m2 = mg'" using Cons.prems by (simp add: p r)
  then show ?case using settles_trans [OF probe_settles [OF p]] Cons.IH [of m1 es] r by blast
qed simp

lemma await_same: "await h ws mg = (e, mg') \<Longrightarrow> same_states mg mg'"
proof (induction ws arbitrary: mg)
  case (Cons w ws)
  obtain x m1 where p: "perform h (Waiting w) mg = (x, m1)" by fastforce
  show ?case using Cons.prems Cons.IH [of m1] perform_same [OF p] by (auto simp: p split: option.splits intro: same_trans)
qed simp

lemma launch_same:
  assumes "launch h key mg = (e, mg')" shows "same_states mg mg'"
proof (cases "sp_kind (spec key)")
  case (Compose p n)
  then show ?thesis using assms perform_same [of h "ComposeUp p n" mg] by (simp add: launch_def)
next
  case Process
  obtain x m1 where p: "perform h (Spawn key) mg = (x, m1)" by fastforce
  obtain a m2 where q: "ask_host h (Alive key) (hold key m1) = (a, m2)" by fastforce
  show ?thesis using assms perform_same [OF p] ask_same [OF q]
    by (auto simp: launch_def Process p q split: if_splits option.splits intro: same_trans)
qed

lemma bring_up_settles:
  assumes "bring_up h key mg = (r, mg')" shows "settles mg mg'" "key \<notin> in_transition mg'"
proof -
  let ?m1 = "set_message key ''Starting...'' (set_state key Starting mg)"
  obtain e m2 where l: "launch h key ?m1 = (e, m2)" by fastforce
  obtain e' m3 where w: "await h (sp_readiness (spec key)) m2 = (e', m3)" by fastforce
  obtain e'' m4 where s: "(case e of Some e \<Rightarrow> (Some e, m2) | None \<Rightarrow> (e', m3)) = (e'', m4)" by fastforce
  have "same_states ?m1 m4" using launch_same [OF l] await_same [OF w] s by (auto split: option.splits intro: same_trans)
  then have "in_transition m4 = insert key (in_transition mg)" by (simp add: same_states_transition)
  moreover have "in_transition mg' = in_transition m4 - {key}" using assms s by (auto simp: bring_up_def Let_def l w split: option.splits)
  ultimately show "settles mg mg'" "key \<notin> in_transition mg'" by (auto simp: settles_def)
qed

lemma look_settles:
  assumes "look h k mg = (res, mg')" shows "settles mg mg'"
proof -
  obtain b m1 where p: "probe_state h k (snd (refresh_states h (None, mg))) = (b, m1)" by fastforce
  have "settles mg m1" using refresh_settles probe_settles [OF p] unfolding settles_def by blast
  then show ?thesis using assms by (auto simp: look_def p Let_def split: bool.splits)
qed

lemma start_alone_settles:
  assumes "start_alone h k mg = (r, mg')" shows "settles mg mg'"
proof -
  obtain l m1 where l: "look h k mg = (l, m1)" by fastforce
  show ?thesis using assms look_settles [OF l] bring_up_settles(1) [of h k m1] by (auto simp: start_alone_def l split: option.splits intro: settles_trans)
qed

lemma start_rec_settles:
  "start_rec h key mg = (r, mg') \<Longrightarrow> settles mg mg'"
  "start_deps h ds mg = (res, mg') \<Longrightarrow> settles mg mg'"
proof (induction h key mg and h ds mg arbitrary: r mg' and res mg' rule: start_rec_start_deps.induct)
  case (1 h key mg)
  obtain l m1 where l: "look h key mg = (l, m1)" by fastforce
  obtain d m2 where d: "start_deps h (sp_dependencies (spec key)) m1 = (d, m2)" by fastforce
  have m2: "l = None \<Longrightarrow> settles m1 m2" using "1.IH" [OF l [symmetric] _ d] by simp
  show ?case using "1.prems" look_settles [OF l] m2 bring_up_settles(1) [of h key m2]
    by (auto simp: start_rec.simps l d split: option.splits intro: settles_trans)
next
  case (2 h mg)
  then show ?case by simp
next
  case (3 h d ds mg)
  obtain b m1 where p: "probe_state h d mg = (b, m1)" by fastforce
  obtain x m2 where r: "start_rec h d m1 = (x, m2)" by fastforce
  note m1 = probe_settles [OF p]
  show ?case
  proof (cases b)
    case True
    then have pt: "(True, m1) = probe_state h d mg" using p by simp
    show ?thesis using "3.IH"(1) [OF pt refl, of res mg'] "3.prems" m1 True by (auto simp: p intro: settles_trans)
  next
    case False
    then have pf: "(False, m1) = probe_state h d mg" using p by simp
    have "settles m1 m2" using "3.IH"(2) [OF pf refl r] .
    then show ?thesis using "3.IH"(3) [OF pf refl r [symmetric], of res mg'] "3.prems" m1 False
      by (auto simp: p r split: if_splits intro: settles_trans)
  qed
qed

lemma drop_child_same: "drop_child h k mg = (e, mg') \<Longrightarrow> same_states mg mg'"
  by (auto simp: drop_child_def terminate_def perform_def ask_host_def Let_def same_states_def release_def split: prod.splits if_splits)

lemma stop_compose_same:
  assumes "stop_compose h l p n mg = (e, mg')" shows "same_states mg mg'"
proof -
  obtain x m1 where a: "perform h (ComposeStop p n) mg = (x, m1)" by fastforce
  obtain y m2 where b: "perform h (ComposeRm p n) m1 = (y, m2)" by fastforce
  obtain z c m3 where r: "is_compose_running h p n (None, m2) = (z, c, m3)" using prod_cases3 by blast
  show ?thesis using assms perform_same [OF a] perform_same [OF b] compose_running_same [OF r]
    by (auto simp: stop_compose_def a b r split: option.splits intro: same_trans)
qed

lemma stop_process_same:
  assumes "stop_process h k mg = (e, mg')" shows "same_states mg mg'"
proof -
  obtain x m1 where d: "drop_child h k mg = (x, m1)" by fastforce
  let ?m2 = "if sp_stop_extra (spec k) then snd (ask_host h (StopExtra k) m1) else m1"
  obtain z m3 where r: "is_process_running h k ?m2 = (z, m3)" by fastforce
  have "same_states m1 ?m2" using ask_same [OF prod.collapse [symmetric]] by auto
  then have "same_states m1 m3" using process_running_same [OF r] by (rule same_trans)
  then show ?thesis using assms drop_child_same [OF d] by (auto simp: stop_process_def d r Let_def split: option.splits intro: same_trans)
qed

lemma take_down_settles:
  assumes "take_down h key mg = (r, mg')" shows "settles mg mg'"
proof -
  let ?m1 = "set_message key ''Stopping...'' (set_state key Stopping mg)"
  obtain e m2 where s: "(case sp_kind (spec key) of Compose p n \<Rightarrow> stop_compose h (sp_label (spec key)) p n ?m1 | Process \<Rightarrow> stop_process h key ?m1) = (e, m2)"
    by fastforce
  have "same_states ?m1 m2" using s by (auto split: kind.splits dest: stop_compose_same stop_process_same)
  then have "in_transition m2 = insert key (in_transition mg)" by (simp add: same_states_transition)
  then show ?thesis using assms s by (auto simp: take_down_def Let_def settles_def split: option.splits)
qed

lemma stop_one_settles:
  assumes "stop_one h key force mg = (r, mg')" shows "settles mg mg'"
proof -
  let ?m = "snd (refresh_states h (None, mg))"
  obtain b m1 where p: "probe_state h key ?m = (b, m1)" by fastforce
  obtain ds m2 where d: "running_dependents h key m1 = (ds, m2)" by fastforce
  have m: "settles mg ?m" "settles ?m m1" "settles m1 m2"
    using refresh_settles probe_settles [OF p] running_of_settles [OF d [unfolded running_dependents_def]] by (simp_all add: settles_def)
  then have "settles mg m1" "settles mg m2" by (blast intro: settles_trans)+
  then show ?thesis using assms take_down_settles [of h key m2]
    by (auto simp: stop_one_def p d Let_def split: bool.splits if_splits intro: settles_trans settles_state)
qed

lemma ensure_each_settles: "ensure_each h ks mg = (res, mg') \<Longrightarrow> settles mg mg'"
proof (induction ks arbitrary: mg)
  case (Cons k ks)
  obtain b m1 where p: "probe_state h k mg = (b, m1)" by fastforce
  obtain r m2 where s: "start_alone h k m1 = (r, m2)" by fastforce
  have "settles mg m1" "settles m1 m2" using probe_settles [OF p] start_alone_settles [OF s] .
  then show ?case using Cons.prems Cons.IH [of m1] Cons.IH [of m2] by (auto simp: p s split: bool.splits if_splits intro: settles_trans)
qed simp

lemma ensure_backend_settles:
  assumes "ensure_backend h mg = (res, mg')" shows "settles mg mg'"
proof -
  obtain e m1 where e: "ensure_each h backend_start_order mg = (e, m1)" by fastforce
  obtain a m2 where a: "ask_host h PingWorkers m1 = (a, m2)" by fastforce
  obtain a' m3 where a': "ask_host h PingWorkers m2 = (a', m3)" by fastforce
  let ?m4 = "set_state ''celery'' Stopped (release ''celery'' (snd (ask_host h (StopExtra ''celery'') m3)))"
  obtain x m5 where r: "start_rec h ''celery'' ?m4 = (x, m5)" by fastforce
  have "settles m3 ?m4" using ask_same [OF prod.collapse [symmetric]] by (intro settles_state) (simp_all add: same_settles)
  then have m: "settles mg m1" "settles m1 m2" "settles m2 m3" "settles m3 m5"
    using ensure_each_settles [OF e] same_settles [OF ask_same [OF a]] same_settles [OF ask_same [OF a']] start_rec_settles(1) [OF r] settles_trans by blast+
  have "mg' = m1 \<or> mg' = m2 \<or> mg' = m3 \<or> mg' = m5"
    using assms by (auto simp: ensure_backend_def e a a' revive_workers_def Let_def r split: if_splits option.splits)
  then show ?thesis using m by (blast intro: settles_trans)
qed

lemma stop_simulation_same:
  assumes "stop_simulation h mg = (e, mg')" shows "same_states mg mg'"
proof -
  obtain x m1 where d: "drop_child h ''simulation'' mg = (x, m1)" by fastforce
  obtain a m2 where s: "ask_host h SimKill m1 = (a, m2)" by fastforce
  show ?thesis using assms drop_child_same [OF d] ask_same [OF s] by (auto simp: stop_simulation_def d s split: option.splits intro: same_trans)
qed

lemma stop_command_settles:
  assumes "stop_simulation_command h mg = (r, mg')" shows "settles mg mg'"
proof -
  obtain b m1 where b: "is_simulation_running h mg = (b, m1)" by fastforce
  obtain e m2 where s: "stop_simulation h (simulation_state Stopping ''Stopping...'' m1) = (e, m2)" by fastforce
  have "in_transition m1 = in_transition mg" "in_transition m2 = insert ''simulation'' (in_transition mg)"
    using same_states_transition [OF simulation_running_same [OF b]] same_states_transition [OF stop_simulation_same [OF s]] by simp_all
  then show ?thesis using assms by (auto simp: stop_simulation_command_def b s settles_def split: bool.splits option.splits)
qed

lemma spawn_simulation_same:
  assumes "spawn_simulation h env mg = (e, mg')" shows "same_states mg mg'"
proof -
  obtain x m1 where p: "perform h (SimSpawn env) mg = (x, m1)" by fastforce
  obtain a m2 where q: "ask_host h (Alive ''simulation'') (hold ''simulation'' m1) = (a, m2)" by fastforce
  show ?thesis using assms perform_same [OF p] ask_same [OF q] by (auto simp: spawn_simulation_def p q split: option.splits intro: same_trans)
qed

lemma run_background_settles:
  assumes "run_simulation_background h opts mg = (r, mg')" shows "settles mg mg'"
proof -
  obtain b m1 where b: "is_simulation_running h mg = (b, m1)" by fastforce
  obtain x m2 where e: "ensure_backend h (simulation_state Starting ''Starting...'' m1) = (x, m2)" by fastforce
  obtain y m3 where s: "spawn_simulation h (extra_env opts) m2 = (y, m3)" by fastforce
  have m: "in_transition m1 = in_transition mg" "in_transition m2 \<subseteq> insert ''simulation'' (in_transition mg)" "in_transition m3 = in_transition m2"
    using same_states_transition [OF simulation_running_same [OF b]] ensure_backend_settles [OF e] same_states_transition [OF spawn_simulation_same [OF s]]
    by (simp_all add: settles_def)
  have "in_transition (snd (stop_simulation h (simulation_state Failed z m3))) = in_transition m3 - {''simulation''}" for z
    using same_states_transition [OF stop_simulation_same [OF prod.collapse [symmetric]], of h "simulation_state Failed z m3"] by simp
  then show ?thesis using assms m by (auto simp: run_simulation_background_def b e s settles_def split: bool.splits option.splits)
qed

lemma after_stop_same: "after_stop h r mg = (x, mg') \<Longrightarrow> same_states mg mg'"
  by (auto simp: after_stop_def split: prod.splits option.splits dest: stop_simulation_same)

lemma run_foreground_settles:
  assumes "run_simulation_foreground h mg = (r, mg')" shows "settles mg mg'"
proof -
  obtain b m1 where b: "is_simulation_running h mg = (b, m1)" by fastforce
  obtain x m2 where e: "ensure_backend h m1 = (x, m2)" by fastforce
  obtain y m3 where s: "spawn_simulation h [] m2 = (y, m3)" by fastforce
  obtain a m4 where q: "ask_host h SimStream m3 = (a, m4)" by fastforce
  have m: "settles mg m1" "settles m1 m2" "settles m2 m3" "settles m3 m4"
    using same_settles [OF simulation_running_same [OF b]] ensure_backend_settles [OF e] same_settles [OF spawn_simulation_same [OF s]] same_settles [OF ask_same [OF q]] .
  have "mg' \<in> {m1, m2, m3, m4} \<or> settles m3 mg' \<or> settles m4 mg'"
    using assms by (auto simp: run_simulation_foreground_def b e s q split: bool.splits option.splits host_answer.splits if_splits
        dest!: after_stop_same [THEN same_settles])
  then show ?thesis using m by (blast intro: settles_trans)
qed

lemma each_settles:
  assumes "\<And>k mg r mg'. f k mg = (r, mg') \<Longrightarrow> settles mg mg'" and "each f ks mg = (rs, mg')" shows "settles mg mg'"
  using assms(2)
proof (induction ks arbitrary: mg rs)
  case (Cons k ks)
  obtain r m1 where f: "f k mg = (r, m1)" by fastforce
  obtain rs' m2 where e: "each f ks m1 = (rs', m2)" by fastforce
  have "m2 = mg'" using Cons.prems by (simp add: f e)
  then show ?case using assms(1) [OF f] Cons.IH [of m1 rs'] e by (blast intro: settles_trans)
qed simp

lemma report_down_settles:
  assumes "report_down h up down k mg = (r, mg')" shows "settles mg mg'"
proof -
  obtain b m1 where p: "probe_state h k mg = (b, m1)" by fastforce
  show ?thesis using assms probe_settles [OF p] by (auto simp: report_down_def p split: bool.splits intro!: settles_state)
qed

lemma stop_project_settles:
  assumes "stop_project h p mg = (rs, mg')" shows "settles mg mg'"
proof -
  let ?keys = "filter (\<lambda>k. project_of k = Some p) (map fst services)"
  obtain before m1 where r: "running_of h ?keys mg = (before, m1)" by fastforce
  obtain a m2 where q: "ask_host h (ComposePs p) m1 = (a, m2)" by fastforce
  obtain e m3 where c: "(case a of Names (n # ns) \<Rightarrow> perform h (ComposeDown p) m2 | _ \<Rightarrow> (None, m2)) = (e, m3)" by fastforce
  have "settles m2 m3" using c by (auto split: host_answer.splits list.splits dest: perform_same [THEN same_settles])
  then have m: "settles mg m2" "settles mg m3"
    using settles_trans [OF running_of_settles [OF r] same_settles [OF ask_same [OF q]]] by (auto intro: settles_trans)
  have each: "each (report_down h up down) ks mg1 = (rs, mg2) \<Longrightarrow> settles mg1 mg2" for up down ks rs mg1 mg2
    by (erule each_settles [rotated]) (rule report_down_settles)
  have "settles m2 mg' \<or> settles m3 mg'"
  proof (cases a)
    case (Names ns)
    note c' = c [unfolded Names host_answer.case]
    show ?thesis using assms by (auto simp: stop_project_def Let_def r q Names c' split: option.splits dest: each)
  qed (use assms c in \<open>auto simp: stop_project_def Let_def r q split: option.splits dest: each\<close>)
  then show ?thesis using m by (blast intro: settles_trans)
qed

lemma stop_all_settles:
  assumes "stop_all_services h force mg = (rs, mg')" shows "settles mg mg'"
proof -
  obtain b m1 where b: "is_simulation_running h mg = (b, m1)" by fastforce
  obtain e m2 where s: "stop_simulation h m1 = (e, m2)" by fastforce
  obtain rs0 m3 where f: "(case b of False \<Rightarrow> ([], m1) | True \<Rightarrow> (case e of None \<Rightarrow> ([result ''simulation'' True Stopped ''Simulation stopped.''], m2)
      | Some e \<Rightarrow> ([result ''simulation'' False Failed e], m2))) = (rs0, m3)" by fastforce
  obtain rs1 m4 where p: "each (\<lambda>k. stop_one h k force) (filter (\<lambda>k. sp_kind (spec k) = Process) (rev backend_start_order)) m3 = (rs1, m4)" by fastforce
  obtain rs2 m5 where c: "each (stop_project h) (rev (remdups (List.map_filter project_of backend_start_order))) m4 = (rs2, m5)" by fastforce
  have "settles mg m1" "settles m1 m2" using same_settles [OF simulation_running_same [OF b]] same_settles [OF stop_simulation_same [OF s]] .
  then have "settles mg m3" using f by (auto split: bool.splits option.splits intro: settles_trans)
  moreover have "settles m3 m4" using each_settles [OF _ p] stop_one_settles by blast
  moreover have "settles m4 m5" using each_settles [OF _ c] stop_project_settles by blast
  moreover have "mg' = m5" using assms f by (auto simp: stop_all_services_def b s p c split: bool.splits option.splits)
  ultimately show ?thesis by (blast intro: settles_trans)
qed

lemma snapshot_settles:
  assumes "snapshot_of h k (cache, mg) = (s, cache', mg')" shows "settles mg mg'"
proof -
  let ?t = "map_of (mg_states mg) k"
  obtain up c1 m1 where p: "probe_cached h k (cache, mg) = (up, c1, m1)" using prod_cases3 by blast
  have m1: "settles mg m1" using same_settles [OF probe_cached_same [OF p]] .
  obtain t m2 where t: "(if ?t = Some Starting \<and> up then (None, set_message k ''Running'' (set_state k Running m1))
      else if ?t = Some Stopping \<and> \<not> up then (None, set_message k [] (set_state k Stopped m1)) else (?t, m1)) = (t, m2)" by fastforce
  have m2: "settles mg m2" using t m1 by (auto split: if_splits intro!: settles_state)
  let ?probed = "if up then Running else Stopped"
  let ?m3 = "case t of None \<Rightarrow> set_state k ?probed m2 | Some s \<Rightarrow> if s \<in> {Starting, Stopping, Failed} then m2 else set_state k ?probed m2"
  have m3: "settles mg ?m3" using m2 by (auto split: option.splits intro!: settles_state)
  obtain a c4 m4 where q: "ask_cached h DataplaneHealth (c1, ?m3) = (a, c4, m4)" using prod_cases3 by blast
  have "settles mg m4" using settles_trans [OF m3 same_settles [OF ask_cached_same [OF q]]] .
  moreover have "mg' = ?m3 \<or> mg' = m4"
    using assms unfolding snapshot_of_def Let_def snd_conv p prod.case t q by (auto split: if_splits host_answer.splits)
  ultimately show ?thesis using m3 by metis
qed

lemma snapshots_settle: "snapshots_of h ks (cache, mg) = (ss, cache', mg') \<Longrightarrow> settles mg mg'"
proof (induction ks arbitrary: cache mg ss)
  case (Cons k ks)
  obtain s c1 m1 where s: "snapshot_of h k (cache, mg) = (s, c1, m1)" using prod_cases3 by blast
  obtain ss' c2 m2 where r: "snapshots_of h ks (c1, m1) = (ss', c2, m2)" using prod_cases3 by blast
  have "c2 = cache'" "m2 = mg'" using Cons.prems by (simp_all add: s r)
  then show ?case using snapshot_settles [OF s] Cons.IH [of c1 m1 ss'] r by (blast intro: settles_trans)
qed simp

lemma all_snapshots_settle: "settles mg (snd (all_snapshots h mg))"
proof -
  obtain c m1 where c: "compose_cache h mg = (c, m1)" by fastforce
  obtain c2 m2 where r: "refresh_states h (c, m1) = (c2, m2)" by fastforce
  obtain ss c3 m3 where s: "snapshots_of h (backend_start_order @ [''simulation'']) (c2, m2) = (ss, c3, m3)" using prod_cases3 by blast
  have "settles mg m1" using c
    by (auto simp: compose_cache_def split: prod.splits dest!: each_settles [rotated] intro: same_settles [OF ask_same])
  moreover have "settles m1 m2" using refresh_settles [of h c m1] by (simp add: settles_def r)
  ultimately show ?thesis using snapshots_settle [OF s] by (auto simp: all_snapshots_def c r s intro: settles_trans)
qed

lemma start_settles: "start h k deps mg = (r, mg') \<Longrightarrow> settles mg mg'"
  by (auto simp: start_def split: if_splits intro: run_background_settles start_rec_settles(1) start_alone_settles)

lemma stop_settles: "stop h k force mg = (r, mg') \<Longrightarrow> settles mg mg'"
  by (auto simp: stop_def split: if_splits intro: stop_command_settles stop_one_settles)

lemma snapshot_now_settles: "settles mg (snd (snapshot_now h k mg))"
  by (auto simp: snapshot_now_def split: prod.splits intro: snapshot_settles)

lemma answer_one_settles: "settles mg mg1 \<Longrightarrow> answer_one h cmd r mg1 = (ev, mg') \<Longrightarrow> settles mg mg'"
  by (auto simp: answer_one_def Let_def split: if_splits
      intro: settles_trans [OF settles_trans [OF _ snapshot_now_settles] all_snapshots_settle] settles_trans [OF _ all_snapshots_settle])

lemma answer_all_settles: "settles mg mg1 \<Longrightarrow> answer_all h cmd good bad rs mg1 = (ev, mg') \<Longrightarrow> settles mg mg'"
  using all_snapshots_settle by (auto simp: answer_all_def Let_def intro: settles_trans)

lemma handle_settles: "handle_command h render fresh d mg = (ev, mg') \<Longrightarrow> settles mg mg'"
  by (auto simp: handle_command_def Let_def start_backend_def split: if_splits option.splits prod.splits
      dest!: answer_one_settles [rotated] answer_all_settles [rotated]
      intro: start_settles stop_settles stop_all_settles run_background_settles stop_command_settles each_settles [OF start_alone_settles])

text \<open>Everything that is done to a manager, one at a time: commands, snapshots, and the end of a background simulation.\<close>

datatype control =
    StartService string bool | StopService string bool | StartBackend | StopAll bool | RunSimulation run_options | RunForeground | StopSimulation
  | SimulationEnded int | Snapshots | SnapshotOne string | Command string "(string, pyval) dict"

definition control_do :: "host \<Rightarrow> (pyval \<Rightarrow> string) \<Rightarrow> control \<Rightarrow> manager \<Rightarrow> manager" where
  "control_do h render ctl mg =
     (case ctl of
        StartService k deps \<Rightarrow> snd (start h k deps mg)
      | StopService k force \<Rightarrow> snd (stop h k force mg)
      | StartBackend \<Rightarrow> snd (start_backend h mg)
      | StopAll force \<Rightarrow> snd (stop_all_services h force mg)
      | RunSimulation opts \<Rightarrow> snd (run_simulation_background h opts mg)
      | RunForeground \<Rightarrow> snd (run_simulation_foreground h mg)
      | StopSimulation \<Rightarrow> snd (stop_simulation_command h mg)
      | SimulationEnded code \<Rightarrow> simulation_ended code mg
      | Snapshots \<Rightarrow> snd (all_snapshots h mg)
      | SnapshotOne k \<Rightarrow> snd (snapshot_now h k mg)
      | Command fresh d \<Rightarrow> snd (handle_command h render fresh d mg))"

lemma control_settles: "settles mg (control_do h render ctl mg)"
proof (cases ctl)
  case (SimulationEnded code)
  then show ?thesis by (auto simp: control_do_def simulation_ended_def settles_def)
qed (simp_all add: control_do_def start_backend_def all_snapshots_settle snapshot_now_settles start_settles [OF prod.collapse [symmetric]]
      stop_settles [OF prod.collapse [symmetric]] stop_all_settles [OF prod.collapse [symmetric]] run_background_settles [OF prod.collapse [symmetric]]
      run_foreground_settles [OF prod.collapse [symmetric]] stop_command_settles [OF prod.collapse [symmetric]] handle_settles [OF prod.collapse [symmetric]]
      each_settles [OF start_alone_settles prod.collapse [symmetric]])

text \<open>
  C30. However the host answers, and whatever commands, failures and ends of simulations came before, no service is left in transition: between two commands every
  service is shown as stopped, running or failed.
\<close>

theorem commands_settle:
  "map_of (mg_states (fold (control_do h render) ctls (new_manager past))) key \<in> {None, Some Stopped, Some Running, Some Failed, Some Unknown}"
proof -
  have "in_transition (fold (control_do h render) ctls mg) \<subseteq> in_transition mg" for mg
    using control_settles [of _ h render] by (induction ctls arbitrary: mg) (auto simp: settles_def, blast)
  moreover have "map_of (mg_states (new_manager past)) k \<noteq> Some Starting \<and> map_of (mg_states (new_manager past)) k \<noteq> Some Stopping" for k
    by (auto simp: new_manager_def dest!: map_of_SomeD)
  ultimately have "key \<notin> in_transition (fold (control_do h render) ctls (new_manager past))" by (force simp: in_transition_def)
  moreover have "x \<in> {None, Some Stopped, Some Running, Some Failed, Some Unknown}" if "x \<notin> {Some Starting, Some Stopping}" for x
    using that by (cases x; cases "the x") auto
  ultimately show ?thesis by (simp only: in_transition_def mem_Collect_eq)
qed

section \<open>Stopping\<close>

lemma running_of_none:
  assumes "running_of h ks mg = ([], mg')" "set ks \<subseteq> set backend_start_order"
  shows "\<exists>l. mg_calls mg' = l @ mg_calls mg \<and> (\<forall>k \<in> set ks. \<exists>a. (look_call k, a) \<in> set l \<and> \<not> shows_up (look_name k) a)"
  using assms
proof (induction ks arbitrary: mg)
  case (Cons k ks)
  let ?a = "h (mg_calls mg) (look_call k)" and ?m1 = "mg\<lparr>mg_calls := (look_call k, h (mg_calls mg) (look_call k)) # mg_calls mg\<rparr>"
  have p: "probe_state h k mg = (shows_up (look_name k) ?a, ?m1)" using probe_backend Cons.prems(2) by simp
  have down: "\<not> shows_up (look_name k) ?a" and r: "running_of h ks ?m1 = ([], mg')"
    using Cons.prems(1) by (auto simp: p split: prod.splits if_splits)
  obtain l where l: "mg_calls mg' = l @ mg_calls ?m1" "\<forall>k \<in> set ks. \<exists>a. (look_call k, a) \<in> set l \<and> \<not> shows_up (look_name k) a"
    using Cons.IH [OF r] Cons.prems(2) by auto
  then have "mg_calls mg' = (l @ [(look_call k, ?a)]) @ mg_calls mg" by simp
  then show ?case using l(2) down by (intro exI [of _ "l @ [(look_call k, ?a)]"]) auto
qed simp

lemma dependents_backend: "set (sp_dependents (spec key)) \<subseteq> set backend_start_order"
  by (rule spec_cases [where P = "\<lambda>k s. set (sp_dependents s) \<subseteq> set backend_start_order"])
    (auto simp: services_def compose_def process_def backend_start_order_def)

lemma compose_end:
  assumes "stop_compose h l p n mg = (None, mg')" shows "\<exists>a rest. mg_calls mg' = (ComposePs p, a) # rest @ mg_calls mg \<and> \<not> shows_up n a"
proof -
  obtain x m1 where a: "perform h (ComposeStop p n) mg = (x, m1)" by fastforce
  obtain y m2 where b: "perform h (ComposeRm p n) m1 = (y, m2)" by fastforce
  let ?a = "h (mg_calls m2) (ComposePs p)"
  have r: "is_compose_running h p n (None, m2) = (shows_up n ?a, None, m2\<lparr>mg_calls := (ComposePs p, ?a) # mg_calls m2\<rparr>)"
    by (simp add: is_compose_running_def ask_cached_def ask_host_def Let_def)
  have "mg' = m2\<lparr>mg_calls := (ComposePs p, ?a) # mg_calls m2\<rparr>" "\<not> shows_up n ?a"
    using assms by (simp_all add: stop_compose_def a b r split: option.splits if_splits)
  moreover have "\<exists>l. mg_calls m2 = l @ mg_calls mg" using a b by (auto simp: perform_def ask_host_def Let_def)
  ultimately show ?thesis by auto
qed

lemma process_end:
  assumes "is_process_running h key mg = (False, mg')" "key \<notin> set (mg_processes mg)" "key = ''celery'' \<or> key = ''dataplane''"
  shows "\<exists>a. mg_calls mg' = (look_call key, a) # mg_calls mg \<and> \<not> shows_up (look_name key) a"
  using assms(3)
proof
  assume k: "key = ''celery''"
  show ?thesis using assms(1,2) by (simp add: k is_process_running_def child_alive_def ask_host_def Let_def) auto
next
  assume k: "key = ''dataplane''"
  show ?thesis using assms(1,2) by (simp add: k is_process_running_def child_alive_def ask_host_def Let_def) auto
qed

lemma stop_process_end:
  assumes "stop_process h key mg = (None, mg')" "key = ''celery'' \<or> key = ''dataplane''"
  shows "\<exists>a rest. mg_calls mg' = (look_call key, a) # rest @ mg_calls mg \<and> \<not> shows_up (look_name key) a"
proof -
  obtain e m1 where d: "drop_child h key mg = (e, m1)" by fastforce
  have m1: "key \<notin> set (mg_processes m1)" "\<exists>r. mg_calls m1 = r @ mg_calls mg"
    using d by (auto simp: drop_child_def terminate_def perform_def ask_host_def Let_def release_def split: if_splits)
  let ?m2 = "if sp_stop_extra (spec key) then snd (ask_host h (StopExtra key) m1) else m1"
  obtain b m3 where r: "is_process_running h key ?m2 = (b, m3)" by fastforce
  have m2: "key \<notin> set (mg_processes ?m2)" "\<exists>r. mg_calls ?m2 = r @ mg_calls mg" using m1 by (auto simp: ask_host_def Let_def)
  have "\<not> b" "mg' = m3" using assms(1) by (auto simp: stop_process_def d r Let_def split: option.splits if_splits)
  then have r': "is_process_running h key ?m2 = (False, mg')" using r by simp
  show ?thesis using process_end [OF r' m2(1) assms(2)] m2(2) by auto
qed

lemma ends_down:
  assumes "key \<in> set backend_start_order" "(case sp_kind (spec key) of Compose p n \<Rightarrow> stop_compose h l p n mg | Process \<Rightarrow> stop_process h key mg) = (None, mg')"
  shows "\<exists>a rest. mg_calls mg' = (look_call key, a) # rest @ mg_calls mg \<and> \<not> shows_up (look_name key) a"
  using assms(1)
proof (cases rule: backend_cases)
  case (compose p n)
  show ?thesis using assms(2) compose_end [of h l p n mg mg'] by (simp add: compose(4) look_compose [OF compose(4)])
next
  case celery
  then show ?thesis using assms(2) stop_process_end [of h key mg mg'] by simp
next
  case dataplane
  then show ?thesis using assms(2) stop_process_end [of h key mg mg'] by simp
qed

lemma look_probe:
  assumes "key \<in> set backend_start_order" "probe_state h key m = (b, m')"
  shows "b = shows_up (look_name key) (h (mg_calls m) (look_call key))" "mg_calls m' = (look_call key, h (mg_calls m) (look_call key)) # mg_calls m"
  using assms(2) by (auto simp: probe_backend [OF assms(1)])

lemma ask_grows: "ask_host h c mg = (a, mg') \<Longrightarrow> grows mg mg'"
  by (auto simp: ask_host_def Let_def grows_def)

lemma perform_grows: "perform h c mg = (a, mg') \<Longrightarrow> grows mg mg'"
  by (auto simp: perform_def split: prod.splits dest: ask_grows)

lemma stop_compose_grows:
  assumes "stop_compose h l p n mg = (e, mg')" shows "grows mg mg'"
proof -
  obtain x m1 where a: "perform h (ComposeStop p n) mg = (x, m1)" by fastforce
  obtain y m2 where b: "perform h (ComposeRm p n) m1 = (y, m2)" by fastforce
  obtain z c m3 where r: "is_compose_running h p n (None, m2) = (z, c, m3)" using prod_cases3 by blast
  show ?thesis using assms perform_grows [OF a] perform_grows [OF b] looked_grows [OF compose_running_looks [OF r]]
    by (auto simp: stop_compose_def a b r split: option.splits intro: grows_trans)
qed

lemma stop_process_grows:
  assumes "stop_process h k mg = (e, mg')" shows "grows mg mg'"
proof -
  obtain x m1 where d: "drop_child h k mg = (x, m1)" by fastforce
  have m1: "grows mg m1" using d by (auto simp: drop_child_def terminate_def perform_def ask_host_def Let_def release_def grows_def split: if_splits)
  let ?m2 = "if sp_stop_extra (spec k) then snd (ask_host h (StopExtra k) m1) else m1"
  obtain z m3 where r: "is_process_running h k ?m2 = (z, m3)" by fastforce
  have "grows m1 ?m2" using ask_grows [OF prod.collapse [symmetric]] by auto
  then have "grows m1 m3" using looked_grows [OF process_running_looks [OF r]] by (rule grows_trans)
  then show ?thesis using assms m1 by (auto simp: stop_process_def d r Let_def split: option.splits intro: grows_trans)
qed

lemma take_down_grows:
  assumes "take_down h key mg = (r, mg')" shows "grows mg mg'"
proof -
  let ?m1 = "set_message key ''Stopping...'' (set_state key Stopping mg)"
  obtain e m2 where s: "(case sp_kind (spec key) of Compose p n \<Rightarrow> stop_compose h (sp_label (spec key)) p n ?m1 | Process \<Rightarrow> stop_process h key ?m1) = (e, m2)"
    by fastforce
  have "grows ?m1 m2" using s by (auto split: kind.splits dest: stop_compose_grows stop_process_grows)
  then show ?thesis using assms s by (auto simp: take_down_def Let_def split: option.splits)
qed

text \<open>
  C29. When a stop of a backend service reports success, the last thing the host was asked is whether the service runs, and its answer did not show it.
\<close>

theorem stop_ok_means_down:
  assumes "key \<in> set backend_start_order" and "stop h key force mg = (r, mg')" and "ar_ok r"
  shows "\<exists>a rest. mg_calls mg' = (look_call key, a) # rest @ mg_calls mg \<and> \<not> shows_up (look_name key) a"
proof -
  let ?m = "snd (refresh_states h (None, mg))"
  obtain b m1 where p: "probe_state h key ?m = (b, m1)" by fastforce
  obtain ds m2 where d: "running_dependents h key m1 = (ds, m2)" by fastforce
  have s: "stop_one h key force mg = (r, mg')" using assms(1,2) backend_kind(1) by (auto simp: stop_def)
  obtain l where l: "mg_calls ?m = l @ mg_calls mg" using refresh_looks looked_grows unfolding grows_def by blast
  obtain l2 where l2: "mg_calls m2 = l2 @ mg_calls m1" using running_of_looks [OF d [unfolded running_dependents_def]] looked_grows unfolding grows_def by blast
  show ?thesis
  proof (cases b)
    case False
    then have "mg_calls mg' = mg_calls m1" using s by (auto simp: stop_one_def p)
    then show ?thesis using look_probe [OF assms(1) p] False l by auto
  next
    case True
    let ?m3 = "set_message key ''Stopping...'' (set_state key Stopping m2)"
    have "take_down h key m2 = (r, mg')" using s True assms(3) by (auto simp: stop_one_def p d Let_def result_def split: if_splits)
    then obtain m4 where m4: "(case sp_kind (spec key) of Compose p n \<Rightarrow> stop_compose h (sp_label (spec key)) p n ?m3 | Process \<Rightarrow> stop_process h key ?m3) = (None, m4)"
        "mg_calls mg' = mg_calls m4" using assms(3) by (auto simp: take_down_def Let_def result_def split: option.splits prod.splits)
    show ?thesis using ends_down [OF assms(1) m4(1)] m4(2) l l2 look_probe(2) [OF assms(1) p] by auto
  qed
qed

text \<open>
  C40. A stop that is not forced does nothing to the host before it has looked at every service listed as dependent and found none of them running.
\<close>

theorem unforced_stop_spares_dependents:
  assumes "key \<in> set backend_start_order" and "stop h key False mg = (r, mg')" and "mg_calls mg' = later @ (c, a) # earlier @ mg_calls mg"
    and "\<not> looks_only c" and "d \<in> set (sp_dependents (spec key))"
  shows "\<exists>a'. (look_call d, a') \<in> set earlier \<and> \<not> shows_up (look_name d) a'"
proof -
  let ?m = "snd (refresh_states h (None, mg))"
  obtain b m1 where p: "probe_state h key ?m = (b, m1)" by fastforce
  obtain ds m2 where d: "running_dependents h key m1 = (ds, m2)" by fastforce
  have s: "stop_one h key False mg = (r, mg')" using assms(1,2) backend_kind(1) by (auto simp: stop_def)
  have m1: "looked mg m1" using looked_trans [OF refresh_looks probe_state_looks [OF p]] .
  then have m2: "looked mg m2" using running_of_looks [OF d [unfolded running_dependents_def]] by (rule looked_trans)
  then obtain l where l: "mg_calls m2 = l @ mg_calls mg" "\<forall>e \<in> set l. looks_only (fst e)" by (auto simp: looked_def)
  have "\<not> looked mg mg'" using assms(3,4) by (auto simp: looked_def)
  then have down: "ds = []" "take_down h key m2 = (r, mg')" using s m1 m2 by (auto simp: stop_one_def p d Let_def split: bool.splits if_splits)
  obtain l2 where l2: "mg_calls mg' = l2 @ mg_calls m2" using take_down_grows [OF down(2)] by (auto simp: grows_def)
  have "later @ (c, a) # earlier = l2 @ l" using l l2 assms(3) by simp
  then obtain us where "later @ us = l2" "(c, a) # earlier = us @ l" using assms(4) l(2) by (auto simp: append_eq_append_conv2)
  then have earlier: "set l \<subseteq> set earlier" using assms(4) l(2) by (cases us) auto
  obtain l1 where "mg_calls m1 = l1 @ mg_calls mg" using m1 by (auto simp: looked_def)
  moreover obtain l3 where "mg_calls m2 = l3 @ mg_calls m1" "\<exists>a'. (look_call d, a') \<in> set l3 \<and> \<not> shows_up (look_name d) a'"
    using running_of_none [OF d [unfolded running_dependents_def down(1)] dependents_backend] assms(5) by blast
  ultimately show ?thesis using l(1) earlier by auto
qed

text \<open>A host on which the database runs until its container is removed, and nothing else does; the database is stopped on it.\<close>

definition database_host :: host where
  "database_host calls c =
     (case c of
        ComposePs p \<Rightarrow> Names (if (ComposeRm ''openride_server'' ''mongodb'', Yes) \<in> set calls then [] else [''mongodb''])
      | DataplaneHealth \<Rightarrow> Health ''down'' []
      | WorkersHealthy \<Rightarrow> No
      | _ \<Rightarrow> Yes)"

lemma database_stop:
  "stop database_host ''mongodb'' False demo_manager = (r, mg') \<Longrightarrow>
     ar_ok r \<and> mg_calls mg' =
       [(ComposePs ''openride_server'', Names []), (ComposeRm ''openride_server'' ''mongodb'', Yes), (ComposeStop ''openride_server'' ''mongodb'', Yes)] @
       replicate 4 (ComposePs ''openride_server'', Names [''mongodb''])"
proof -
  have skip: "refresh_states database_host (None, demo_manager) = (None, demo_manager)"
    by (simp add: refresh_states_def refresh_one_def demo_manager_def services_def)
  have spec: "spec ''mongodb'' = compose ''MongoDB'' ''openride_server'' ''mongodb'' [] [''api'', ''analytics'', ''nginx''] [WaitPort ''MongoDB'' 27017]"
      "sp_kind (spec ''api'') = Compose ''openride_server'' ''api''" "sp_kind (spec ''analytics'') = Compose ''openride_server'' ''analytics''"
      "sp_kind (spec ''nginx'') = Compose ''openride_server'' ''nginx''"
    by (simp_all add: spec_def services_def compose_def)
  have kind: "sp_kind (spec ''mongodb'') = Compose ''openride_server'' ''mongodb''" by (simp add: spec(1) compose_def)
  have keys: "''mongodb'' \<in> set backend_start_order" "''api'' \<in> set backend_start_order" "''analytics'' \<in> set backend_start_order" "''nginx'' \<in> set backend_start_order"
    by (simp_all add: backend_start_order_def)
  have calls: "mg_calls demo_manager = []" by (simp add: demo_manager_def new_manager_def)
  have deps: "sp_dependents (spec ''mongodb'') = [''api'', ''analytics'', ''nginx'']" by (simp add: spec(1) compose_def)
  assume "stop database_host ''mongodb'' False demo_manager = (r, mg')"
  then show ?thesis
    by (auto simp: stop_def stop_one_def skip probe_backend [OF keys(1)] probe_backend [OF keys(2)] probe_backend [OF keys(3)] probe_backend [OF keys(4)]
        look_compose [OF kind] look_compose [OF spec(2)] look_compose [OF spec(3)] look_compose [OF spec(4)] running_dependents_def deps calls database_host_def
        take_down_def kind stop_compose_def perform_def ask_host_def is_compose_running_def ask_cached_def Let_def set_state_def set_message_def result_def
        eval_nat_numeral)
qed

lemma database_looks:
  "look_call ''mongodb'' = ComposePs ''openride_server''" "look_name ''mongodb'' = ''mongodb''" "look_call ''api'' = ComposePs ''openride_server''" "look_name ''api'' = ''api''"
  "''mongodb'' \<in> set backend_start_order" "''api'' \<in> set (sp_dependents (spec ''mongodb''))" "mg_calls demo_manager = []"
  by (simp_all add: look_call_def look_name_def spec_def services_def compose_def backend_start_order_def demo_manager_def new_manager_def)

theorem stop_ok_means_down_witness:
  "ar_ok (fst (stop database_host ''mongodb'' False demo_manager)) \<and>
   (\<exists>a rest. mg_calls (snd (stop database_host ''mongodb'' False demo_manager)) = (ComposePs ''openride_server'', a) # rest @ mg_calls demo_manager \<and> \<not> shows_up ''mongodb'' a)"
  using stop_ok_means_down [OF database_looks(5) prod.collapse [symmetric], of database_host False demo_manager]
    database_stop [OF prod.collapse [symmetric]] by (simp add: database_looks)

theorem unforced_stop_spares_dependents_witness:
  "mg_calls (snd (stop database_host ''mongodb'' False demo_manager)) =
     [(ComposePs ''openride_server'', Names []), (ComposeRm ''openride_server'' ''mongodb'', Yes)] @ (ComposeStop ''openride_server'' ''mongodb'', Yes) #
     replicate 4 (ComposePs ''openride_server'', Names [''mongodb'']) @ mg_calls demo_manager \<and>
   (\<exists>a. (ComposePs ''openride_server'', a) \<in> set (replicate 4 (ComposePs ''openride_server'', Names [''mongodb''])) \<and> \<not> shows_up ''api'' a)"
proof -
  have calls: "mg_calls (snd (stop database_host ''mongodb'' False demo_manager)) =
     [(ComposePs ''openride_server'', Names []), (ComposeRm ''openride_server'' ''mongodb'', Yes)] @ (ComposeStop ''openride_server'' ''mongodb'', Yes) #
     replicate 4 (ComposePs ''openride_server'', Names [''mongodb'']) @ mg_calls demo_manager"
    using database_stop [OF prod.collapse [symmetric]] by (simp add: database_looks(7))
  have "\<not> looks_only (ComposeStop ''openride_server'' ''mongodb'')" by simp
  from unforced_stop_spares_dependents [OF database_looks(5) prod.collapse [symmetric] calls this database_looks(6)]
  show ?thesis using calls unfolding database_looks(3,4) by blast
qed

section \<open>The table of services\<close>

text \<open>
  The listed dependents do not cover the dependencies: stopping the broker or the database is not refused while the data plane, which depends on both, is running,
  and nothing lists the metrics store and its sink as dependents of the broker.
\<close>

lemma unlisted_dependents:
  "sp_dependents (spec ''kafka'') = []" "''kafka'' \<in> set (sp_dependencies (spec ''dataplane'')) \<inter> set (sp_dependencies (spec ''victoriametrics''))"
  "''dataplane'' \<notin> set (sp_dependents (spec ''mongodb''))" "''mongodb'' \<in> set (sp_dependencies (spec ''dataplane''))"
  by (simp_all add: services_def spec_def compose_def process_def)

text \<open>
  The thread that waits for a simulation does not ask which one it waited for: when a stopped simulation is reported ended only after the next one was started,
  the running one is shown as failed and its process is no longer held.
\<close>

lemma late_end_fails_next_run:
  assumes "code \<noteq> 0"
  shows "map_of (mg_states (simulation_ended code mg)) ''simulation'' = Some Failed" and "''simulation'' \<notin> set (mg_processes (simulation_ended code mg))"
  using assms by (simp_all add: simulation_ended_def simulation_state_def set_state_def set_message_def release_def update_conv')

end
