(* ===== verification/Spec2Isabelle.thy ===== *)
theory Spec2Isabelle
  imports Facility_Agent Rebate_Pricing Pooled_Tick Order_Lifecycle Health_Verdict Service_Control
begin

text \<open>
  A model of the container logistics simulation of this repository and of the data plane behind it, with the theorems that make it correct.

  \<^bold>\<open>The program.\<close> Agents (trucks, orders, facilities, one assignment agent) step together on a shared clock and talk through messages and the documents of a
  REST service. A truck serves an order by a haul trip that passes through the gates of two facilities; the assignment agent decides in every tick which
  truck may take which order, alone per group of cooperating hauliers or through a market of shared orders; a lifecycle service writes the states of the orders in
  batches. The data plane reads what the run publishes from a message broker, keeps positions in memory, stores frames and metrics, closes a run
  at its end and copies it into an archive, under a supervisor whose report says whether all this works. Paths below are relative to
  \<open>src/apps/container_logistics\<close> for the simulation and to \<open>src/apps/dataplane\<close> for the data plane.

  \<^bold>\<open>Shared vocabulary.\<close> \<open>OR_Prelude\<close>: Python floats with their infinities and undefined value, JSON values (\<open>pyval\<close>), dictionaries in insertion
  order as association lists, the text of integers, the random generator as explicit state, the collections of rewrite rules. \<open>Sim_Clock\<close>: the clock of a run as text
  (\<open>src/apps/utils/utils.py\<close>). A raise is the left of a sum, a call that may not end is an option, an effect is a state passed and returned; a lock region is one
  step. What is not under \<open>src\<close> (the state machine engine, the digest, the random generator, the REST server, the database, the broker and its client) is an argument
  that stands for its answers.

  \<^bold>\<open>Haul trips, orders, gates.\<close>
  \<^item> \<open>Workflow_Machines\<close>: the transition tables of \<open>statemachine/*_sm.py\<close> and the interaction rules between them. The locale \<open>statechart\<close> is the contract of the
    third-party engine, interpreted on the three tables.
  \<^item> \<open>Trip_Workflow\<close>: the hook of \<open>truck/trip_manager.py\<close>, the handlers of \<open>order/app.py\<close> and of the truck's mixins. \<open>order_tracks_haul_trip\<close>: along every joint run
    the order is where its trip says.
  \<^item> \<open>Facility_Queue\<close> (\<open>statemachine/facility_queue_sm.py\<close>) and \<open>Facility_Agent\<close> (\<open>facility/app.py\<close>, \<open>manager.py\<close>, \<open>service_time.py\<close>): the controller of the gates with its
    invariant, first come first served, conservation of trucks over any run, and a step of the agent that leaves no overdue and no idle gate.
  \<^item> \<open>Order_Lifecycle\<close> (\<open>order_lifecycle/batch_writer.py\<close>, \<open>app.py\<close>, \<open>order/bulk_cancel.py\<close>): a drained batch does what its events do one by one, final states stay.
  \<^item> \<open>Rebate_Pricing\<close> (\<open>rebate.py\<close>): the parser of price schedules, their lookup and their block.

  \<^bold>\<open>Assignment.\<close> In the order in which a tick calls them:
  \<^item> \<open>Assignment_Reads\<close> (\<open>assignment/manager.py\<close>): paged and aggregated reads. Paging is a \<open>partial_function\<close> into options, and \<open>paged_where_complete\<close> proves that it ends.
  \<^item> \<open>Match_Constraints\<close> (\<open>constraints.py\<close>), \<open>Spatial_Index\<close> (\<open>spatial.py\<close>): feasibility, cost, and the ring search, whose recursion ends because the radius grows to
    its bound.
  \<^item> \<open>Match_Solver\<close> (\<open>solver/\<close>), \<open>Greedy_Sweep\<close>: both solvers; the locale \<open>ranked_sweep\<close> is proved once and interpreted on the solver and on the arbitration.
  \<^item> \<open>Market_Pools\<close> (\<open>pools.py\<close>), \<open>Market_Arbitration\<close> (\<open>arbitration.py\<close>, \<open>tiebreak.py\<close>), \<open>Market_Policies\<close> (\<open>policy/\<close>): the ledger (locale \<open>allocation_ledger\<close>), the rules (locale
    \<open>arbitration_contract\<close>, one interpretation per rule), the policies (locales \<open>offer_contract\<close> and \<open>claim_contract\<close>).
  \<^item> \<open>Pooled_Planner\<close>, \<open>Pooled_Market\<close>, \<open>Pooled_Deals\<close> (\<open>pooled_planner.py\<close>): the rounds of the market. The fuel of the loop is the clamped number of rounds, between 1 and 100, which is the
    backstop of the code itself; \<open>pooled_market_converges\<close> says when it does not bind.
  \<^item> \<open>Assignment_Agent\<close>, \<open>Assignment_Tick\<close>, \<open>Pooled_Tick\<close> (\<open>assignment/app.py\<close>): a whole tick in both topologies. The theorems at the top of the list compose everything below them: what a tick
    assigns is feasible, each truck and order is used once, and shared pairs stay within a pool.

  \<^bold>\<open>The data plane.\<close> From the broker to the archive:
  \<^item> \<open>Kafka_Consumer\<close>, \<open>Kafka_Delivery\<close>, \<open>Kafka_Recovery\<close>, \<open>Broker_Lag\<close> (\<open>ingest/consumer.py\<close>): offsets, rewinds and commits against a broker given as a step relation. Nothing is committed
    that is not durable; which blocked partitions recover and which never do; what the backlog trend counts.
  \<^item> \<open>Run_Status\<close> (\<open>ingest/parse.py\<close>), \<open>Frame_Codec\<close> (\<open>contract/frame.py\<close>): the rules of the payloads, and the frames at the width of their words, with both round trips.
  \<^item> \<open>Hot_Store\<close>, \<open>Hot_Slabs\<close>, \<open>Hot_History\<close> (\<open>store/hot.py\<close>): slabs, eviction, revival. Identities and frame indices survive any history; evicting ends because every round removes a slab.
  \<^item> \<open>Frame_Capture\<close>, \<open>Capture_History\<close>, \<open>Run_Close\<close>, \<open>Ingest_Service\<close> (\<open>service.py\<close>): capture, terminal messages, code books and the handlers on the consumer. A run is closed only when what was
    read of it is durable, completely or not at all.
  \<^item> \<open>Run_Archive\<close> (\<open>archive/mongo.py\<close>), \<open>Archive_Tasks\<close> (\<open>service.py\<close>): the dump of a run with every read of the store and every call of the database able to fail. The locale \<open>batch_writer\<close> is
    the contract of the three writers. A run that does not count as pending is in the archive whole, and one undisturbed sweep leaves none pending.
  \<^item> \<open>Task_Supervisor\<close> (\<open>supervisor.py\<close>), \<open>Health_Verdict\<close> (\<open>health.py\<close>): threads as program points between lock regions, so that an interleaving is a list of events, and the report. \<open>healthy_answer_means\<close> reads a
    green answer back to the state of the components above.

  \<^bold>\<open>The control plane.\<close> \<open>Service_Control\<close> (\<open>src/openride_control\<close>: \<open>registry.py\<close>, \<open>manager.py\<close>, \<open>models.py\<close>, \<open>agent.py\<close>): the table of backend services and the manager that starts
  and stops them. The host is a function from everything asked of it so far to the next answer, and the theorems are about the sequence of calls: a service is launched after its dependencies
  were seen, a reported stop was verified, and no failure leaves a service in transition. Starting with dependencies ends because the table is acyclic (\<open>weight\<close>).

  \<^bold>\<open>Assumptions.\<close> The state machine engine fires exactly the declared transitions. The stamps of the rows of the store never go back, a run's frames are stored with increasing indices
  (which is what \<open>Capture_History\<close> proves of the writer), and a dump sees the store in one state. Metric names hold bars at will, clocks and scopes none. ISO texts of instants order as
  the instants. The stop event of the supervisor is kept per task. Coordinates and distances of the cost are real numbers or infinite; floats elsewhere are only compared, stored and passed on. Each theorem states
  what else it needs, and its witness meets it on a concrete input.

  \<^bold>\<open>Not modelled.\<close> The movement of trucks and idle trips, route planning and REST updates (network and geometry); the aggregation of metrics and the streaming of geometry (\<open>analytics\<close>); the
  generation and the files of scenarios (random draws from numerical libraries, file access); the scheduler, which extends a third-party engine; the SQL of the store (\<open>store/duck.py\<close>)
  and the queries of the viewer (\<open>read_api.py\<close>), which are the database the model takes as an argument; the former sink (\<open>src/apps/kpi_sink\<close>), whose decisions \<open>Run_Status\<close> covers; the ride hailing application;
  argument parsing, the message bus and the terminal screens of the control plane (\<open>src/openride\<close>), and its loops that wait for a port or a process, each of which is one call that
  succeeds or times out. Commands of the manager run one at a time. Log lines, metrics of timing and the live bus are left out everywhere.
\<close>

end
